(* ===== verification/Prelude.thy ===== *)
theory Prelude
  imports Complex_Main "HOL-Library.AList" "HOL-Library.Multiset"
begin

text \<open>
  The vocabulary every component shares.

  \<^item> \<^emph>\<open>Errors.\<close> A Python exception is a value of \<open>py_error\<close>; a call that can raise returns
    \<open>'a result\<close>, a sum with the exception on the left. \<open>bindr\<close> sequences two such calls and
    \<open>foldM\<close> is a \<open>for\<close> loop whose body can raise.
  \<^item> \<^emph>\<open>Dictionaries.\<close> A Python \<open>dict\<close> or \<open>OrderedDict\<close> is an association list in insertion
    order with distinct keys (\<open>wf_dict\<close>): \<open>AList.update\<close> overwrites in place or appends at the
    end, \<open>AList.delete\<close> removes, exactly as the language does.
  \<^item> \<^emph>\<open>Selection.\<close> \<open>min\<close> and \<open>max\<close> with a \<open>key\<close> return the first best element; \<open>pick\<close> is both
    of them, over any strict weak order, and its laws are proved once in the locale
    \<open>selection\<close>.
  \<^item> \<^emph>\<open>Integer ceiling and chunking\<close> of \<open>vllm/utils.py\<close>.

  Python's \<open>float\<close> is modelled by \<open>real\<close>: rounding and overflow are outside the model.
\<close>

named_theorems dict_simps \<open>equations of the dictionary operations\<close>
named_theorems result_simps \<open>equations of the error monad\<close>

section \<open>Exceptions as values\<close>

text \<open>
  \<open>StructError\<close> is \<open>struct.error\<close>, \<open>PyException\<close> a plain \<open>Exception\<close>.  \<open>Blocked\<close> is no exception: it stands
  for a call that waits for ever.
\<close>

datatype py_error =
    KeyError
  | IndexError
  | ValueError
  | TypeError
  | AttributeError
  | AssertionError
  | StopIteration
  | ZeroDivisionError
  | RuntimeError
  | NotImplementedError
  | NoFreeBlocksError
  | FileNotFoundError
  | StructError
  | Blocked
  | PyException

type_synonym 'a result = "py_error + 'a"

fun bindr :: "'a result \<Rightarrow> ('a \<Rightarrow> 'b result) \<Rightarrow> 'b result" where
  "bindr (Inl e) f = Inl e"
| "bindr (Inr x) f = f x"

definition assert_py :: "bool \<Rightarrow> 'a result \<Rightarrow> 'a result" where
  "assert_py b r = (if b then r else Inl AssertionError)"

lemma bindr_Inr_iff [simp]: "bindr m f = Inr y \<longleftrightarrow> (\<exists>x. m = Inr x \<and> f x = Inr y)"
  by (cases m) auto

lemma bindr_Inl_iff:
  "bindr m f = Inl e \<longleftrightarrow> m = Inl e \<or> (\<exists>x. m = Inr x \<and> f x = Inl e)"
  by (cases m) auto

lemma bindr_assoc [result_simps]: "bindr (bindr m f) g = bindr m (\<lambda>x. bindr (f x) g)"
  by (cases m) auto

lemma assert_py_Inr_iff [simp]: "assert_py b r = Inr y \<longleftrightarrow> b \<and> r = Inr y"
  by (simp add: assert_py_def)

lemma assert_py_True [simp]: "assert_py True r = r"
  and assert_py_False [simp]: "assert_py False r = Inl AssertionError"
  by (simp_all add: assert_py_def)

fun foldM :: "('s \<Rightarrow> 'x \<Rightarrow> 's result) \<Rightarrow> 's \<Rightarrow> 'x list \<Rightarrow> 's result" where
  "foldM f s [] = Inr s"
| "foldM f s (x # xs) = bindr (f s x) (\<lambda>s'. foldM f s' xs)"

fun mapM :: "('x \<Rightarrow> 'y result) \<Rightarrow> 'x list \<Rightarrow> 'y list result" where
  "mapM f [] = Inr []"
| "mapM f (x # xs) = bindr (f x) (\<lambda>y. bindr (mapM f xs) (\<lambda>ys. Inr (y # ys)))"

lemma mapM_map: "(\<And>x. x \<in> set xs \<Longrightarrow> f x = Inr (g x)) \<Longrightarrow> mapM f xs = Inr (map g xs)"
  by (induction xs) simp_all

lemma foldM_append [simp]: "foldM f s (xs @ ys) = bindr (foldM f s xs) (\<lambda>s'. foldM f s' ys)"
  by (induction xs arbitrary: s) (auto simp: bindr_assoc)

lemma foldM_invariant:
  assumes "foldM f s xs = Inr s'" and "P s"
    and "\<And>s x t. x \<in> set xs \<Longrightarrow> P s \<Longrightarrow> f s x = Inr t \<Longrightarrow> P t"
  shows "P s'"
  using assms by (induction xs arbitrary: s) auto

lemma foldM_total:
  assumes "P s"
    and "\<And>s x. x \<in> set xs \<Longrightarrow> P s \<Longrightarrow> \<exists>t. f s x = Inr t \<and> P t"
  shows "\<exists>s'. foldM f s xs = Inr s' \<and> P s'"
  using assms
proof (induction xs arbitrary: s)
  case Nil
  then show ?case by simp
next
  case (Cons x xs)
  from Cons.prems obtain t where "f s x = Inr t" "P t"
    by (metis list.set_intros(1))
  with Cons.IH [of t] Cons.prems(2) show ?case by auto
qed

text \<open>A loop whose body never raises is an ordinary left fold.\<close>

lemma foldM_Inr_fold: "foldM (\<lambda>s x. Inr (f s x)) s xs = Inr (foldl f s xs)"
  by (induction xs arbitrary: s) auto

lemma foldl_invariant:
  assumes "P s" and "\<And>s x. x \<in> set xs \<Longrightarrow> P s \<Longrightarrow> P (f s x)"
  shows "P (foldl f s xs)"
  using assms by (induction xs arbitrary: s) auto

section \<open>Dictionaries\<close>

type_synonym ('k, 'v) dict = "('k \<times> 'v) list"

abbreviation dkeys :: "('k, 'v) dict \<Rightarrow> 'k list" where
  "dkeys d \<equiv> map fst d"

abbreviation wf_dict :: "('k, 'v) dict \<Rightarrow> bool" where
  "wf_dict d \<equiv> distinct (map fst d)"

definition dhas :: "('k, 'v) dict \<Rightarrow> 'k \<Rightarrow> bool" where
  "dhas d k \<longleftrightarrow> k \<in> set (dkeys d)"

definition dindex :: "('k, 'v) dict \<Rightarrow> 'k \<Rightarrow> 'v result" where
  "dindex d k = (case map_of d k of None \<Rightarrow> Inl KeyError | Some v \<Rightarrow> Inr v)"

definition dget_or :: "('k, 'v) dict \<Rightarrow> 'k \<Rightarrow> 'v \<Rightarrow> 'v" where
  "dget_or d k v0 = (case map_of d k of None \<Rightarrow> v0 | Some v \<Rightarrow> v)"

definition move_to_end :: "('k, 'v) dict \<Rightarrow> 'k \<Rightarrow> ('k, 'v) dict result" where
  "move_to_end d k =
     (case map_of d k of None \<Rightarrow> Inl KeyError | Some v \<Rightarrow> Inr (AList.delete k d @ [(k, v)]))"

lemma dhas_map_of: "dhas d k \<longleftrightarrow> map_of d k \<noteq> None"
  by (simp add: dhas_def map_of_eq_None_iff)

lemma dhas_update [dict_simps]: "dhas (AList.update k v d) k' \<longleftrightarrow> k' = k \<or> dhas d k'"
  by (auto simp: dhas_map_of update_conv')

lemma dhas_delete [dict_simps]: "dhas (AList.delete k d) k' \<longleftrightarrow> k' \<noteq> k \<and> dhas d k'"
  by (auto simp: dhas_map_of delete_conv')

lemma map_of_update [dict_simps]:
  "map_of (AList.update k v d) k' = (if k' = k then Some v else map_of d k')"
  by (simp add: update_conv')

lemma map_of_delete [dict_simps]:
  "map_of (AList.delete k d) k' = (if k' = k then None else map_of d k')"
  by (simp add: delete_conv')

lemma dindex_Inr_iff [simp]: "dindex d k = Inr v \<longleftrightarrow> map_of d k = Some v"
  by (auto simp: dindex_def split: option.splits)

lemma dindex_Inl_iff [simp]: "dindex d k = Inl e \<longleftrightarrow> map_of d k = None \<and> e = KeyError"
  by (auto simp: dindex_def split: option.splits)

lemma dindex_Some [simp]: "map_of d k = Some v \<Longrightarrow> dindex d k = Inr v"
  and dindex_None [simp]: "map_of d k = None \<Longrightarrow> dindex d k = Inl KeyError"
  by (simp_all add: dindex_def)

lemma dget_or_Some [simp]: "map_of d k = Some v \<Longrightarrow> dget_or d k v0 = v"
  and dget_or_None [simp]: "map_of d k = None \<Longrightarrow> dget_or d k v0 = v0"
  by (simp_all add: dget_or_def)

lemma dget_or_update [dict_simps]:
  "dget_or (AList.update k v d) k' v0 = (if k' = k then v else dget_or d k' v0)"
  by (simp add: dget_or_def dict_simps)

lemma wf_dict_update [simp]: "wf_dict d \<Longrightarrow> wf_dict (AList.update k v d)"
  by (rule distinct_update)

lemma wf_dict_delete [simp]: "wf_dict d \<Longrightarrow> wf_dict (AList.delete k d)"
  by (rule distinct_delete)

lemma fst_set_update [simp]: "fst ` set (AList.update k v d) = insert k (fst ` set d)"
  by (induction d) auto

lemma fst_set_delete [simp]: "fst ` set (AList.delete k d) = fst ` set d - {k}"
  by (induction d) auto

lemma set_dkeys_update: "set (dkeys (AList.update k v d)) = insert k (set (dkeys d))"
  by simp

lemma set_dkeys_delete: "set (dkeys (AList.delete k d)) = set (dkeys d) - {k}"
  by simp

lemma dkeys_update_member: "k \<in> set (dkeys d) \<Longrightarrow> dkeys (AList.update k v d) = dkeys d"
  by (induction d) auto

lemma length_delete_less: "k \<in> set (dkeys d) \<Longrightarrow> length (AList.delete k d) < length d"
proof (induction d)
  case Nil
  then show ?case by simp
next
  case (Cons p d)
  have "length (AList.delete k d) \<le> length d" by (rule length_delete_le)
  with Cons show ?case by auto
qed

lemma delete_notin [simp]: "k \<notin> set (dkeys d) \<Longrightarrow> AList.delete k d = d"
  by (simp add: delete_idem)

lemma map_of_in_dkeys: "map_of d k = Some v \<Longrightarrow> k \<in> set (dkeys d)"
  by (metis domI dom_map_of_conv_image_fst image_set)

lemma in_dkeys_map_of: "k \<in> set (dkeys d) \<Longrightarrow> \<exists>v. map_of d k = Some v"
  by (metis domD dom_map_of_conv_image_fst image_set)

lemma wf_dict_map_of_iff: "wf_dict d \<Longrightarrow> map_of d k = Some v \<longleftrightarrow> (k, v) \<in> set d"
  by (rule map_of_eq_Some_iff)

lemma wf_dict_unique: "wf_dict d \<Longrightarrow> (k, v) \<in> set d \<Longrightarrow> (k, w) \<in> set d \<Longrightarrow> v = w"
  by (metis map_of_is_SomeI option.inject)

lemma update_new: "k \<notin> fst ` set d \<Longrightarrow> AList.update k v d = d @ [(k, v)]"
  by (induction d) auto

lemma set_update_cases: "p \<in> set (AList.update k v d) \<Longrightarrow> p = (k, v) \<or> p \<in> set d"
  by (induction d) (auto split: if_splits)

lemma set_update_wf:
  "wf_dict d \<Longrightarrow> set (AList.update k v d) = insert (k, v) {p \<in> set d. fst p \<noteq> k}"
  by (induction d) (auto split: if_splits simp: rev_image_eqI)

lemma set_delete_eq: "set (AList.delete k d) = {p \<in> set d. fst p \<noteq> k}"
  by (auto simp: AList.delete_eq)

lemma move_to_end_Inr:
  "move_to_end d k = Inr d' \<longleftrightarrow> (\<exists>v. map_of d k = Some v \<and> d' = AList.delete k d @ [(k, v)])"
  by (auto simp: move_to_end_def split: option.splits)

lemma map_of_move_to_end:
  assumes "move_to_end d k = Inr d'"
  shows "map_of d' k' = map_of d k'"
  using assms by (auto simp: move_to_end_Inr dict_simps map_add_def split: option.splits)

lemma wf_dict_move_to_end: "wf_dict d \<Longrightarrow> move_to_end d k = Inr d' \<Longrightarrow> wf_dict d'"
  by (auto simp: move_to_end_Inr dest: map_of_SomeD)

text \<open>Sums over the values of a dictionary.\<close>

definition dsum :: "('v \<Rightarrow> 'n::comm_monoid_add) \<Rightarrow> ('k, 'v) dict \<Rightarrow> 'n" where
  "dsum f d = sum_list (map (f \<circ> snd) d)"

lemma dsum_Nil [simp]: "dsum f [] = 0"
  and dsum_Cons [simp]: "dsum f (p # d) = f (snd p) + dsum f d"
  and dsum_append [simp]: "dsum f (d @ e) = dsum f d + dsum f e"
  by (simp_all add: dsum_def)

lemma dsum_update_new:
  "k \<notin> set (dkeys d) \<Longrightarrow> dsum f (AList.update k v d) = dsum f d + f v"
  by (induction d) (auto simp: add.assoc)

lemma dsum_update_old:
  "map_of d k = Some w \<Longrightarrow> dsum f (AList.update k v d) + f w = dsum f d + f v"
  by (induction d) (auto simp: ac_simps split: if_splits)

lemma dsum_delete:
  "wf_dict d \<Longrightarrow> map_of d k = Some w \<Longrightarrow> dsum f (AList.delete k d) + f w = dsum f d"
proof (induction d)
  case Nil
  then show ?case by simp
next
  case (Cons p d)
  show ?case
  proof (cases "fst p = k")
    case True
    with Cons.prems show ?thesis by (auto simp: add.commute)
  next
    case False
    with Cons have "dsum f (AList.delete k d) + f w = dsum f d" by (auto split: if_splits)
    with False show ?thesis by (simp add: add.assoc split: if_splits)
  qed
qed

lemma dsum_delete_diff:
  fixes f :: "'v \<Rightarrow> 'n::ab_group_add"
  shows "wf_dict d \<Longrightarrow> map_of d k = Some w \<Longrightarrow> dsum f (AList.delete k d) = dsum f d - f w"
  using dsum_delete [of d k w f] by (simp add: algebra_simps)

lemma dsum_nonneg:
  fixes f :: "'v \<Rightarrow> 'n::ordered_comm_monoid_add"
  shows "(\<forall>p \<in> set d. 0 \<le> f (snd p)) \<Longrightarrow> 0 \<le> dsum f d"
  by (induction d) (auto intro!: add_nonneg_nonneg)

section \<open>First best element\<close>

text \<open>
  \<open>min(xs, key=f)\<close> is \<open>pick (<) f xs\<close> and \<open>max(xs, key=f)\<close> is \<open>pick (>) f xs\<close>; both raise
  \<open>ValueError\<close> on an empty argument, which is \<open>None\<close> here, and keep the first of equals.
\<close>

fun pick :: "('b \<Rightarrow> 'b \<Rightarrow> bool) \<Rightarrow> ('a \<Rightarrow> 'b) \<Rightarrow> 'a list \<Rightarrow> 'a option" where
  "pick lt f [] = None"
| "pick lt f (x # xs) =
     (case pick lt f xs of None \<Rightarrow> Some x | Some y \<Rightarrow> if lt (f y) (f x) then Some y else Some x)"

locale selection =
  fixes lt :: "'b \<Rightarrow> 'b \<Rightarrow> bool"
  assumes irrefl: "\<not> lt a a"
    and asym: "lt a b \<Longrightarrow> \<not> lt b a"
    and negtrans: "\<not> lt a b \<Longrightarrow> \<not> lt b c \<Longrightarrow> \<not> lt a c"
begin

lemma sel_None: "pick lt f xs = None \<longleftrightarrow> xs = []"
  by (cases xs) (auto split: option.splits)

lemma sel_in: "pick lt f xs = Some y \<Longrightarrow> y \<in> set xs"
  by (induction xs arbitrary: y) (auto split: option.splits if_splits)

lemma sel_best: "pick lt f xs = Some y \<Longrightarrow> x \<in> set xs \<Longrightarrow> \<not> lt (f x) (f y)"
proof (induction xs arbitrary: y)
  case Nil
  then show ?case by simp
next
  case (Cons a xs)
  show ?case
  proof (cases "pick lt f xs")
    case None
    then have "xs = []" by (simp add: sel_None)
    with Cons.prems show ?thesis by (simp add: irrefl)
  next
    case (Some z)
    have z: "\<not> lt (f x) (f z)" if "x \<in> set xs"
      using Cons.IH [OF Some that] .
    show ?thesis
    proof (cases "lt (f z) (f a)")
      case True
      with Some Cons.prems z asym show ?thesis by auto
    next
      case False
      with Some Cons.prems(1) have "y = a" by simp
      with False Cons.prems(2) z negtrans irrefl show ?thesis by auto
    qed
  qed
qed

lemma sel_first:
  assumes "pick lt f xs = Some y"
  shows "\<exists>us vs. xs = us @ y # vs \<and> (\<forall>u \<in> set us. lt (f y) (f u))"
  using assms
proof (induction xs arbitrary: y)
  case Nil
  then show ?case by simp
next
  case (Cons a xs)
  show ?case
  proof (cases "pick lt f xs")
    case None
    with Cons.prems show ?thesis by (intro exI [of _ "[]"]) (auto simp: sel_None)
  next
    case (Some z)
    show ?thesis
    proof (cases "lt (f z) (f a)")
      case False
      with Some Cons.prems have "y = a" by simp
      then show ?thesis by (intro exI [of _ "[]"] exI [of _ xs]) simp
    next
      case True
      with Some Cons.prems have "y = z" by simp
      moreover from Cons.IH [OF Some] obtain us vs
        where "xs = us @ z # vs" "\<forall>u \<in> set us. lt (f z) (f u)" by blast
      ultimately show ?thesis using True by (intro exI [of _ "a # us"] exI [of _ vs]) auto
    qed
  qed
qed

lemma sel_Cons_best:
  assumes "\<forall>v \<in> set vs. \<not> lt (f v) (f y)"
  shows "pick lt f (y # vs) = Some y"
  using assms sel_in [of f vs] by (auto split: option.splits)

lemma sel_iff:
  "pick lt f xs = Some y \<longleftrightarrow>
     (\<exists>us vs. xs = us @ y # vs \<and> (\<forall>u \<in> set us. lt (f y) (f u)) \<and> (\<forall>v \<in> set vs. \<not> lt (f v) (f y)))"
proof
  assume p: "pick lt f xs = Some y"
  from sel_first [OF p] obtain us vs
    where "xs = us @ y # vs" "\<forall>u \<in> set us. lt (f y) (f u)" by blast
  with sel_best [OF p]
  show "\<exists>us vs. xs = us @ y # vs \<and> (\<forall>u \<in> set us. lt (f y) (f u)) \<and> (\<forall>v \<in> set vs. \<not> lt (f v) (f y))"
    by (intro exI [of _ us] exI [of _ vs]) auto
next
  assume "\<exists>us vs. xs = us @ y # vs \<and> (\<forall>u \<in> set us. lt (f y) (f u)) \<and> (\<forall>v \<in> set vs. \<not> lt (f v) (f y))"
  then obtain us vs where xs: "xs = us @ y # vs" and us: "\<forall>u \<in> set us. lt (f y) (f u)"
    and vs: "\<forall>v \<in> set vs. \<not> lt (f v) (f y)" by blast
  have "pick lt f (us @ y # vs) = Some y" using us
  proof (induction us)
    case Nil
    then show ?case using sel_Cons_best [OF vs] by simp
  next
    case (Cons u us)
    then show ?case by simp
  qed
  with xs show "pick lt f xs = Some y" by simp
qed

text \<open>Discarding elements other than the selected one does not change the selection.\<close>

lemma sel_filter:
  assumes "pick lt f xs = Some y" "P y"
  shows "pick lt f (filter P xs) = Some y"
proof -
  from assms(1) obtain us vs where "xs = us @ y # vs"
    "\<forall>u \<in> set us. lt (f y) (f u)" "\<forall>v \<in> set vs. \<not> lt (f v) (f y)" by (auto simp: sel_iff)
  with assms(2) show ?thesis
    unfolding sel_iff by (intro exI [of _ "filter P us"] exI [of _ "filter P vs"]) auto
qed

end

interpretation min_sel: selection "(<) :: 'b::linorder \<Rightarrow> 'b \<Rightarrow> bool"
  by unfold_locales auto

interpretation max_sel: selection "(>) :: 'b::linorder \<Rightarrow> 'b \<Rightarrow> bool"
  by unfold_locales auto

section \<open>Ceiling division and chunking\<close>

definition cdiv :: "int \<Rightarrow> int \<Rightarrow> int" where
  "cdiv a b = - (a div (- b))"

function chunk_list :: "nat \<Rightarrow> 'a list \<Rightarrow> 'a list list" where
  "chunk_list n xs = (if xs = [] \<or> n = 0 then [] else take n xs # chunk_list n (drop n xs))"
  by pat_completeness auto
termination
  by (relation "measure (\<lambda>(n, xs). length xs)") auto

declare chunk_list.simps [simp del]

lemma chunk_list_Nil [simp]: "chunk_list n [] = []"
  by (simp add: chunk_list.simps)

lemma concat_chunk_list: "0 < n \<Longrightarrow> concat (chunk_list n xs) = xs"
proof (induction n xs rule: chunk_list.induct)
  case (1 n xs)
  then show ?case by (subst chunk_list.simps) auto
qed

lemma chunk_list_step:
  "0 < n \<Longrightarrow> xs \<noteq> [] \<Longrightarrow> chunk_list n xs = take n xs # chunk_list n (drop n xs)"
  by (subst chunk_list.simps) simp

lemma length_chunk_list:
  "0 < n \<Longrightarrow> length (chunk_list n xs) = (length xs + n - 1) div n"
proof (induction n xs rule: chunk_list.induct)
  case (1 n xs)
  show ?case
  proof (cases "xs = []")
    case True
    with 1 show ?thesis by simp
  next
    case False
    with 1 have "length (chunk_list n xs) = Suc ((length xs - n + n - 1) div n)"
      by (simp add: chunk_list_step)
    also have "\<dots> = (length xs + n - 1) div n"
    proof (cases "n \<le> length xs")
      case True
      then have "length xs + n - 1 = (length xs - 1) + n" using False by (cases xs) auto
      then have "(length xs + n - 1) div n = ((length xs - 1) + n) div n"
        by (rule arg_cong)
      also have "\<dots> = (length xs - 1) div n + 1"
        using \<open>0 < n\<close> by (intro div_add_self2) simp
      finally have "(length xs + n - 1) div n = Suc ((length xs - 1) div n)"
        by (simp only: Suc_eq_plus1)
      with True \<open>0 < n\<close> show ?thesis by simp
    next
      case short: False
      have "n \<le> length xs + n - 1" "length xs + n - 1 < 2 * n"
        using short False by (cases xs; simp)+
      then have "(length xs + n - 1) div n = 1"
        by (intro div_nat_eqI) simp_all
      with short \<open>0 < n\<close> show ?thesis by simp
    qed
    finally show ?thesis .
  qed
qed

lemma chunk_list_lengths:
  "0 < n \<Longrightarrow> c \<in> set (chunk_list n xs) \<Longrightarrow> 0 < length c \<and> length c \<le> n"
proof (induction n xs rule: chunk_list.induct)
  case (1 n xs)
  then show ?case by (cases "xs = []") (auto simp: chunk_list_step)
qed

lemma cdiv_nat:
  assumes n: "0 < n"
  shows "cdiv (int m) (int n) = int ((m + n - 1) div n)"
proof (cases "m = 0")
  case True
  with n show ?thesis by (simp add: cdiv_def)
next
  case False
  define q where "q = (m - 1) div n"
  define r where "r = (m - 1) mod n"
  have m: "int m = int n * int q + int r + 1"
    using False by (simp add: q_def r_def flip: of_nat_mult of_nat_add)
  have r: "r < n" using n by (simp add: r_def)
  have "int m = - int n * (- int q - 1) + (int r + 1 - int n)"
    using m by (simp add: algebra_simps)
  then have "int m div - int n = - int q - 1"
    by (rule int_div_neg_eq) (use r in linarith)+
  moreover have "m + n - 1 = r + n * Suc q"
    using m False n by (simp flip: of_nat_mult of_nat_add of_nat_Suc)
  then have "(m + n - 1) div n = Suc q"
    by (intro div_nat_eqI) (use r in \<open>simp_all add: algebra_simps\<close>)
  ultimately show ?thesis by (simp add: cdiv_def)
qed

section \<open>Slices\<close>

text \<open>
  \<open>xs[i:j]\<close> with either bound possibly negative: a negative bound counts from the end, and
  every bound is clipped to the list, so that a slice never raises.
\<close>

definition slice_index :: "'a list \<Rightarrow> int \<Rightarrow> nat" where
  "slice_index xs i =
     (if i < 0 then nat (int (length xs) + i) else min (nat i) (length xs))"

definition slice_from :: "'a list \<Rightarrow> int \<Rightarrow> 'a list" where
  "slice_from xs i = drop (slice_index xs i) xs"

definition slice_to :: "'a list \<Rightarrow> int \<Rightarrow> 'a list" where
  "slice_to xs j = take (slice_index xs j) xs"

definition slice :: "'a list \<Rightarrow> int \<Rightarrow> int \<Rightarrow> 'a list" where
  "slice xs i j = drop (slice_index xs i) (take (slice_index xs j) xs)"

definition py_nth :: "'a list \<Rightarrow> int \<Rightarrow> 'a result" where
  "py_nth xs i =
     (let j = (if i < 0 then int (length xs) + i else i) in
      if 0 \<le> j \<and> j < int (length xs) then Inr (xs ! nat j) else Inl IndexError)"

lemma slice_from_nonneg [simp]: "slice_from xs (int n) = drop n xs"
  by (simp add: slice_from_def slice_index_def min_def)

lemma slice_to_nonneg [simp]: "slice_to xs (int n) = take n xs"
  by (simp add: slice_to_def slice_index_def min_def)

lemma slice_nonneg [simp]: "slice xs (int m) (int n) = drop m (take n xs)"
  by (simp add: slice_def slice_index_def min_def)

lemma slice_from_last:
  "0 < n \<Longrightarrow> n \<le> length ys \<Longrightarrow> slice_from (xs @ ys) (- int n) = drop (length ys - n) ys"
  by (simp add: slice_from_def slice_index_def nat_add_distrib nat_diff_distrib' of_nat_diff
      flip: of_nat_add)

lemma py_nth_last [simp]: "py_nth (xs @ [x]) (- 1) = Inr x"
  by (simp add: py_nth_def nat_add_distrib nth_append)

lemma py_nth_nat [simp]: "n < length xs \<Longrightarrow> py_nth xs (int n) = Inr (xs ! n)"
  by (simp add: py_nth_def)

end
