(* ===== verification/Mem_Pool.thy ===== *)
theory Mem_Pool
  imports Prelude
begin

text \<open>
  Cached objects and the memory they live in, from
  \<open>LMCache/lmcache/storage_backend/mem_pool/base_pool.py\<close> and \<open>local_pool.py\<close>.

  A tensor is a \<open>kv_tensor\<close>: the extent of its token dimension, its number of elements, the
  bytes per element and its contents, of a type of its own \<open>'p\<close>.  A \<open>KVObj\<close> does not own data: it is a view of the chunk
  \<open>chunk_idx\<close> of the pool, so its contents are read from \<open>mem_pool\<close>, and two live objects with
  the same index would share memory.  \<open>torch.empty\<close> leaves the memory uninitialised: what it
  holds is the argument \<open>junk\<close>.  \<open>cache_entry\<close> is \<open>CacheEntry\<close>, whose score is the
  logarithm of a sum of exponentials; \<open>time()\<close> is an argument.
\<close>

section \<open>Objects\<close>

record 'p kv_tensor =
  num_tok :: int
  numel :: int
  element_size :: int
  payload :: 'p

record kv_obj =
  chunk_idx :: nat
  kv_size :: int
  view_tok :: int

record cache_entry =
  entry_obj :: kv_obj
  last_access_time :: real
  access_map :: "(int, real) dict"
  lambda_val :: real
  entry_value :: real

definition tensor_size :: "'p kv_tensor \<Rightarrow> int" where
  "tensor_size t = numel t * element_size t"

text \<open>A chunk of type \<open>'p\<close> seen as a tensor.\<close>

definition as_tensor :: "('p \<Rightarrow> int) \<Rightarrow> ('p \<Rightarrow> int) \<Rightarrow> int \<Rightarrow> 'p \<Rightarrow> 'p kv_tensor" where
  "as_tensor tok num es p = \<lparr>num_tok = tok p, numel = num p, element_size = es, payload = p\<rparr>"

definition new_entry :: "kv_obj \<Rightarrow> real \<Rightarrow> real \<Rightarrow> cache_entry" where
  "new_entry obj lam now =
     \<lparr>entry_obj = obj, last_access_time = now, access_map = [], lambda_val = lam, entry_value = 0\<rparr>"

definition update_access_time :: "real \<Rightarrow> int option \<Rightarrow> cache_entry \<Rightarrow> cache_entry" where
  "update_access_time now cid e =
     (let e1 = e\<lparr>last_access_time := now\<rparr> in
      case cid of None \<Rightarrow> e1 | Some c \<Rightarrow> e1\<lparr>access_map := AList.update c now (access_map e1)\<rparr>)"

definition calculate_value :: "cache_entry \<Rightarrow> real" where
  "calculate_value e =
     (if access_map e = [] then lambda_val e * last_access_time e
      else (let a_vals = map (\<lambda>ct. lambda_val e * snd ct) (access_map e);
                m = foldr max (tl a_vals) (hd a_vals);
                sum_exp = foldl (\<lambda>s a. s + exp (a - m)) 0 a_vals
            in m + ln sum_exp))"

definition update_value :: "cache_entry \<Rightarrow> cache_entry" where
  "update_value e = e\<lparr>entry_value := calculate_value e\<rparr>"

definition instant_value :: "cache_entry \<Rightarrow> real \<Rightarrow> real" where
  "instant_value e now =
     (if access_map e = [] then exp (- lambda_val e * (now - last_access_time e))
      else foldl (\<lambda>s ct. s + exp (- lambda_val e * (now - snd ct))) 0 (access_map e))"

lemma foldl_plus: "foldl (\<lambda>s x. s + f x) (a::real) xs = a + sum_list (map f xs)"
  by (induction xs arbitrary: a) auto

lemma sum_list_exp_pos: "xs \<noteq> [] \<Longrightarrow> 0 < sum_list (map (\<lambda>x. exp (f x)) xs :: real list)"
  by (induction xs rule: list_nonempty_induct) (auto intro: add_pos_pos)

lemma sum_list_exp_shift:
  "sum_list (map (\<lambda>x. exp (f x + c)) xs) = exp c * (sum_list (map (\<lambda>x. exp (f x)) xs) :: real)"
  by (induction xs) (auto simp: exp_add algebra_simps)

lemma calculate_value_log_sum:
  assumes "access_map e \<noteq> []"
  shows "calculate_value e = ln (sum_list (map (\<lambda>ct. exp (lambda_val e * snd ct)) (access_map e)))"
proof -
  define as where "as = map (\<lambda>ct. lambda_val e * snd ct) (access_map e)"
  define m where "m = foldr max (tl as) (hd as)"
  have ne: "as \<noteq> []" using assms by (simp add: as_def)
  have "calculate_value e = m + ln (sum_list (map (\<lambda>a. exp (a - m)) as))"
    using assms by (simp add: calculate_value_def as_def m_def Let_def foldl_plus)
  also have "sum_list (map (\<lambda>a. exp (a - m)) as) = exp (- m) * sum_list (map exp as)"
    using sum_list_exp_shift [of "\<lambda>a. a" "- m" as] by simp
  also have "ln (exp (- m) * sum_list (map exp as)) = - m + ln (sum_list (map exp as))"
    using sum_list_exp_pos [OF ne, of "\<lambda>a. a"] by (simp add: ln_mult)
  finally show ?thesis by (simp add: as_def o_def)
qed

lemma instant_value_pos: "0 < instant_value e now"
proof (cases "access_map e = []")
  case False
  then show ?thesis
    using sum_list_exp_pos [OF False, of "\<lambda>ct. - lambda_val e * (now - snd ct)"]
    by (simp add: instant_value_def foldl_plus)
qed (simp add: instant_value_def)

text \<open>
  The stored score is time independent and exact: at any time \<open>t\<close> the value
  \<open>P(t)\<close> used against the threshold is \<open>exp (score - lambda * t)\<close>, so that among entries of one
  \<open>lambda\<close> ordering by score is ordering by value at every moment.
\<close>

theorem score_orders_values:
  "instant_value e t = exp (calculate_value e - lambda_val e * t)
   \<and> (lambda_val f = lambda_val e \<longrightarrow>
        (instant_value e t \<le> instant_value f t \<longleftrightarrow> calculate_value e \<le> calculate_value f))"
proof -
  have val: "instant_value e t = exp (calculate_value e - lambda_val e * t)" for e
  proof (cases "access_map e = []")
    case True
    then show ?thesis by (simp add: instant_value_def calculate_value_def algebra_simps)
  next
    case False
    have "instant_value e t
        = sum_list (map (\<lambda>ct. exp (lambda_val e * snd ct + - lambda_val e * t)) (access_map e))"
      using False by (simp add: instant_value_def foldl_plus algebra_simps)
    also have "\<dots> = exp (- lambda_val e * t)
        * sum_list (map (\<lambda>ct. exp (lambda_val e * snd ct)) (access_map e))"
      by (rule sum_list_exp_shift)
    also have "\<dots> = exp (calculate_value e - lambda_val e * t)"
      using calculate_value_log_sum [OF False] sum_list_exp_pos [OF False, of "\<lambda>ct. lambda_val e * snd ct"]
      by (simp add: exp_diff exp_minus field_simps)
    finally show ?thesis .
  qed
  show ?thesis by (simp add: val)
qed

definition demo_entry :: "real \<Rightarrow> (int, real) dict \<Rightarrow> cache_entry" where
  "demo_entry lam am =
     \<lparr>entry_obj = \<lparr>chunk_idx = 0, kv_size = 1, view_tok = 1\<rparr>, last_access_time = 0,
      access_map = am, lambda_val = lam, entry_value = 0\<rparr>"

lemma score_orders_values_witness:
  "instant_value (demo_entry 1 [(1, 2)]) 7 \<le> instant_value (demo_entry 1 [(1, 3)]) 7"
  using score_orders_values [of "demo_entry 1 [(1, 2)]" 7 "demo_entry 1 [(1, 3)]"]
  by (simp add: demo_entry_def calculate_value_def)

section \<open>Pools\<close>

record 'p local_pool =
  pool_chunk_size :: int
  max_chunk_num :: nat
  size_per_chunk :: int
  mem_pool :: "'p list"
  free_pool :: "nat list"

record pool_metadata =
  kv_shape :: "int list"
  kv_itemsize :: int
  max_local_cache_size :: real

definition shape_size :: "pool_metadata \<Rightarrow> int" where
  "shape_size md = prod_list (kv_shape md) * kv_itemsize md"

definition init_max_chunk_num :: "pool_metadata \<Rightarrow> int" where
  "init_max_chunk_num md = \<lfloor>max_local_cache_size md * 1024 ^ 3\<rfloor> div shape_size md + 1"

definition new_pool :: "pool_metadata \<Rightarrow> (nat \<Rightarrow> 'p) \<Rightarrow> 'p local_pool result" where
  "new_pool md junk =
     bindr (py_nth (kv_shape md) 2) (\<lambda>cs.
       if shape_size md = 0 then Inl ZeroDivisionError
       else (let n = nat (init_max_chunk_num md) in
             Inr \<lparr>pool_chunk_size = cs, max_chunk_num = n, size_per_chunk = shape_size md,
                  mem_pool = map junk [0..<n], free_pool = [0..<n]\<rparr>))"

definition pool_view :: "'p kv_tensor \<Rightarrow> 'p local_pool \<Rightarrow> (kv_obj \<times> 'p local_pool) result" where
  "pool_view t p =
     (let i = last (free_pool p) in
      if i < length (mem_pool p)
      then Inr (\<lparr>chunk_idx = i, kv_size = size_per_chunk p, view_tok = num_tok t\<rparr>,
                p\<lparr>free_pool := butlast (free_pool p)\<rparr>)
      else Inl IndexError)"

definition pool_allocate :: "'p kv_tensor \<Rightarrow> 'p local_pool \<Rightarrow> (kv_obj \<times> 'p local_pool) result" where
  "pool_allocate t p =
     assert_py (num_tok t \<le> pool_chunk_size p)
       (if free_pool p = [] then Inl PyException else pool_view t p)"

definition buffer_allocate :: "'p kv_tensor \<Rightarrow> 'p local_pool \<Rightarrow> (kv_obj option \<times> 'p local_pool) result" where
  "buffer_allocate t p =
     assert_py (num_tok t \<le> pool_chunk_size p)
       (if free_pool p = [] then Inr (None, p)
        else bindr (pool_view t p) (\<lambda>(obj, p'). Inr (Some obj, p')))"

definition pool_free :: "kv_obj \<Rightarrow> 'p local_pool \<Rightarrow> 'p local_pool" where
  "pool_free obj p = p\<lparr>free_pool := free_pool p @ [chunk_idx obj]\<rparr>"

text \<open>\<open>kv_obj.data.copy_(kv_chunk)\<close> and reading \<open>kv_obj.data\<close>, through the view.\<close>

definition pool_write :: "kv_obj \<Rightarrow> 'p kv_tensor \<Rightarrow> 'p local_pool \<Rightarrow> 'p local_pool" where
  "pool_write obj t p = p\<lparr>mem_pool := (mem_pool p)[chunk_idx obj := payload t]\<rparr>"

definition pool_read :: "kv_obj \<Rightarrow> 'p local_pool \<Rightarrow> 'p" where
  "pool_read obj p = mem_pool p ! chunk_idx obj"

text \<open>
  Accounting of chunks: with \<open>live\<close> the indices held by live objects, free and live chunks
  partition the pool.
\<close>

definition pool_ok :: "'p local_pool \<Rightarrow> nat list \<Rightarrow> bool" where
  "pool_ok p live \<longleftrightarrow> length (mem_pool p) = max_chunk_num p
     \<and> mset (free_pool p) + mset live = mset [0..<max_chunk_num p]"

lemma pool_okD:
  assumes "pool_ok p live"
  shows "distinct (free_pool p)" "distinct live" "set (free_pool p) \<inter> set live = {}"
    and "set (free_pool p) \<union> set live = {..<max_chunk_num p}"
    and "length (free_pool p) + length live = max_chunk_num p"
proof -
  have ms: "mset (free_pool p @ live) = mset [0..<max_chunk_num p]"
    using assms by (simp add: pool_ok_def)
  then have "distinct (free_pool p @ live)" by (metis distinct_upt mset_eq_imp_distinct_iff)
  then show "distinct (free_pool p)" "distinct live" "set (free_pool p) \<inter> set live = {}" by auto
  have "set (free_pool p @ live) = {0..<max_chunk_num p}" using mset_eq_setD [OF ms] by simp
  then show "set (free_pool p) \<union> set live = {..<max_chunk_num p}" by auto
  show "length (free_pool p) + length live = max_chunk_num p"
    using mset_eq_length [OF ms] by simp
qed

lemma pool_ok_mset: "pool_ok p live \<Longrightarrow> mset live' = mset live \<Longrightarrow> pool_ok p live'"
  by (simp add: pool_ok_def)

lemma new_pool_ok: "new_pool md junk = Inr p \<Longrightarrow> pool_ok p []"
  by (auto simp: new_pool_def pool_ok_def Let_def split: if_splits)

lemma pool_view_ok:
  assumes "pool_ok p live" "free_pool p \<noteq> []"
  obtains obj p' where "pool_view t p = Inr (obj, p')" "pool_ok p' (chunk_idx obj # live)"
    "chunk_idx obj \<notin> set live" "chunk_idx obj < length (mem_pool p)"
    "kv_size obj = size_per_chunk p" "p' = p\<lparr>free_pool := butlast (free_pool p)\<rparr>"
proof -
  define i where "i = last (free_pool p)"
  have i: "i \<in> set (free_pool p)" using assms(2) by (simp add: i_def)
  then have "i < max_chunk_num p" "i \<notin> set live" using pool_okD [OF assms(1)] by auto
  moreover have "mset (free_pool p) = add_mset i (mset (butlast (free_pool p)))"
    using assms(2) append_butlast_last_id [of "free_pool p"]
    by (metis i_def mset.simps(1) mset_append mset.simps(2) add_mset_add_single)
  ultimately show thesis
    using that [of "\<lparr>chunk_idx = i, kv_size = size_per_chunk p, view_tok = num_tok t\<rparr>"
        "p\<lparr>free_pool := butlast (free_pool p)\<rparr>"] assms(1)
    by (simp add: pool_view_def pool_ok_def i_def Let_def)
qed

lemma pool_allocate_ok:
  assumes "pool_ok p live" "num_tok t \<le> pool_chunk_size p" "free_pool p \<noteq> []"
  obtains obj p' where "pool_allocate t p = Inr (obj, p')" "pool_ok p' (chunk_idx obj # live)"
    "chunk_idx obj \<notin> set live" "chunk_idx obj < length (mem_pool p)"
    "kv_size obj = size_per_chunk p" "p' = p\<lparr>free_pool := butlast (free_pool p)\<rparr>"
  using assms pool_view_ok [OF assms(1,3), of t] by (auto simp: pool_allocate_def)

lemma pool_free_ok:
  assumes "pool_ok p (chunk_idx obj # live)"
  shows "pool_ok (pool_free obj p) live"
  using assms by (simp add: pool_ok_def pool_free_def)

lemma pool_write_ok [simp]: "pool_ok (pool_write obj t p) live \<longleftrightarrow> pool_ok p live"
  by (simp add: pool_ok_def pool_write_def)

lemma pool_read_write:
  "chunk_idx obj < length (mem_pool p) \<Longrightarrow>
     pool_read obj' (pool_write obj t p) =
       (if chunk_idx obj' = chunk_idx obj then payload t else pool_read obj' p)"
  by (auto simp: pool_read_def pool_write_def)

lemma pool_read_free [simp]: "pool_read obj' (pool_free obj p) = pool_read obj' p"
  by (simp add: pool_read_def pool_free_def)

lemma pool_read_free_pool [simp]: "pool_read obj (p\<lparr>free_pool := fs\<rparr>) = pool_read obj p"
  by (simp add: pool_read_def)

text \<open>
  Allocation and release account for every chunk: allocating takes a free chunk that no
  live object uses, raises only when every chunk is live, and releasing the object gives back
  a pool with the same free chunks; the buffer pool returns \<open>None\<close> instead of raising.
\<close>

theorem pool_allocation:
  assumes "pool_ok p live" "num_tok t \<le> pool_chunk_size p"
  shows "if length live = max_chunk_num p
     then pool_allocate t p = Inl PyException \<and> buffer_allocate t p = Inr (None, p)
     else \<exists>obj p'. pool_allocate t p = Inr (obj, p') \<and> buffer_allocate t p = Inr (Some obj, p')
            \<and> chunk_idx obj \<notin> set live \<and> pool_ok p' (chunk_idx obj # live)
            \<and> pool_ok (pool_free obj p') live
            \<and> mset (free_pool (pool_free obj p')) = mset (free_pool p)"
proof (cases "free_pool p = []")
  case True
  with pool_okD(5) [OF assms(1)] assms(2) show ?thesis
    by (simp add: pool_allocate_def buffer_allocate_def)
next
  case False
  then have "length live \<noteq> max_chunk_num p" using pool_okD(5) [OF assms(1)] by auto
  moreover obtain obj p' where a: "pool_allocate t p = Inr (obj, p')"
    "pool_ok p' (chunk_idx obj # live)" "chunk_idx obj \<notin> set live"
    using pool_allocate_ok [OF assms False] by blast
  moreover from a(1) False assms(2) have "buffer_allocate t p = Inr (Some obj, p')"
    by (simp add: pool_allocate_def buffer_allocate_def)
  moreover have "mset (free_pool (pool_free obj p')) = mset (free_pool p)"
    using pool_free_ok [OF a(2)] assms(1) a
    by (auto simp: pool_ok_def pool_free_def pool_allocate_def pool_view_def Let_def split: if_splits)
      (metis False append_butlast_last_id mset.simps(1) mset.simps(2) mset_append add_mset_add_single)
  ultimately show ?thesis using pool_free_ok by auto
qed

definition demo_pool :: "int list local_pool" where
  "demo_pool = \<lparr>pool_chunk_size = 256, max_chunk_num = 2, size_per_chunk = 8,
     mem_pool = [[], []], free_pool = [0, 1]\<rparr>"

definition demo_tensor :: "int list kv_tensor" where
  "demo_tensor = \<lparr>num_tok = 16, numel = 4, element_size = 2, payload = [7]\<rparr>"

lemma pool_allocation_witness:
  "\<exists>obj p'. pool_allocate demo_tensor demo_pool = Inr (obj, p') \<and> pool_ok p' [chunk_idx obj]"
  using pool_allocation [of demo_pool "[]" demo_tensor]
  by (auto simp: demo_pool_def demo_tensor_def pool_ok_def numeral_2_eq_2)

end
