(* ===== verification/Heap_Queue.thy ===== *)
theory Heap_Queue
  imports Prelude "HOL-Library.Product_Lexorder"
begin

text \<open>
  \<open>heapq\<close> as the evictor uses it: \<open>heap[0]\<close>, \<open>heappush\<close>, \<open>heappop\<close> and the truth value of the
  list.  The items are pairs compared lexicographically, a total order, so that the contents of
  the heap determine the answer of every one of these operations; a heap is represented by its
  items in order.  The locale \<open>heap_queue\<close> states the laws the evictor relies on, its lemmas are
  about the loop that pops stale items (lazy deletion), and the representation interprets it.
\<close>

type_synonym 'k heap = "(real \<times> 'k) list"

definition heappush :: "'a::linorder list \<Rightarrow> 'a \<Rightarrow> 'a list" where
  "heappush h x = insort x h"

definition heappop :: "'a list \<Rightarrow> 'a list" where
  "heappop h = tl h"

definition heap_top :: "'a list \<Rightarrow> 'a option" where
  "heap_top h = (case h of [] \<Rightarrow> None | x # _ \<Rightarrow> Some x)"

function pop_stale :: "('a \<Rightarrow> bool) \<Rightarrow> 'a list \<Rightarrow> 'a list" where
  "pop_stale stale h =
     (case heap_top h of
        None \<Rightarrow> h
      | Some x \<Rightarrow> if stale x then pop_stale stale (heappop h) else h)"
  by pat_completeness auto
termination
  by (relation "measure (\<lambda>(stale, h). length h)")
    (auto simp: heap_top_def heappop_def split: list.splits)

declare pop_stale.simps [simp del]

locale heap_queue =
  fixes heap_inv :: "'h \<Rightarrow> bool"
    and items :: "'h \<Rightarrow> 'a::linorder multiset"
    and push :: "'h \<Rightarrow> 'a \<Rightarrow> 'h"
    and top :: "'h \<Rightarrow> 'a option"
    and pop :: "'h \<Rightarrow> 'h"
    and prune :: "('a \<Rightarrow> bool) \<Rightarrow> 'h \<Rightarrow> 'h"
  assumes push_inv: "heap_inv h \<Longrightarrow> heap_inv (push h x)"
    and push_items: "items (push h x) = add_mset x (items h)"
    and top_None: "top h = None \<longleftrightarrow> items h = {#}"
    and top_min: "heap_inv h \<Longrightarrow> top h = Some x \<Longrightarrow> x \<in># items h \<and> (\<forall>y \<in># items h. x \<le> y)"
    and pop_inv: "heap_inv h \<Longrightarrow> heap_inv (pop h)"
    and pop_items: "top h = Some x \<Longrightarrow> add_mset x (items (pop h)) = items h"
    and prune_step: "prune st h =
      (case top h of None \<Rightarrow> h | Some x \<Rightarrow> if st x then prune st (pop h) else h)"
begin

text \<open>
  Pruning removes stale items only, and leaves a heap whose top, if any, is not stale and is
  the least item of the old heap that is not stale.
\<close>

lemma prune_spec:
  assumes "heap_inv h"
  shows "heap_inv (prune st h) \<and> items (prune st h) \<subseteq># items h
     \<and> (\<forall>x \<in># items h. \<not> st x \<longrightarrow> x \<in># items (prune st h))
     \<and> (\<forall>x. top (prune st h) = Some x \<longrightarrow> \<not> st x)"
  using assms
proof (induction "size (items h)" arbitrary: h rule: less_induct)
  case less
  show ?case
  proof (cases "top h")
    case None
    with less.prems show ?thesis by (subst (1 2 3 4) prune_step) simp
  next
    case (Some x)
    show ?thesis
    proof (cases "st x")
      case False
      with Some less.prems show ?thesis by (subst (1 2 3 4) prune_step) simp
    next
      case True
      have eq: "prune st h = prune st (pop h)" using Some True by (subst prune_step) simp
      have it: "items h = add_mset x (items (pop h))" using pop_items [OF Some] by simp
      then have "size (items (pop h)) < size (items h)" by simp
      from less.hyps [OF this pop_inv [OF less.prems]] True it show ?thesis
        unfolding eq by (auto intro: subset_mset.order_trans)
    qed
  qed
qed

lemma prune_min:
  assumes "heap_inv h" "top (prune st h) = Some x" "y \<in># items h" "\<not> st y"
  shows "x \<le> y"
  using prune_spec [OF assms(1), of st] top_min [of "prune st h" x] assms(2-4) by blast

lemma prune_empty:
  assumes "heap_inv h" "top (prune st h) = None" "y \<in># items h"
  shows "st y"
  using prune_spec [OF assms(1), of st] top_None [of "prune st h"] assms(2,3) by auto

end

interpretation hq: heap_queue "sorted :: 'a::linorder list \<Rightarrow> bool" mset heappush heap_top heappop pop_stale
proof
  fix h :: "'a list" and x :: 'a and st
  show "sorted h \<Longrightarrow> sorted (heappush h x)" by (simp add: heappush_def sorted_insort)
  show "mset (heappush h x) = add_mset x (mset h)" by (simp add: heappush_def)
  show "heap_top h = None \<longleftrightarrow> mset h = {#}" by (simp add: heap_top_def split: list.splits)
  show "sorted h \<Longrightarrow> heap_top h = Some x \<Longrightarrow> x \<in># mset h \<and> (\<forall>y \<in># mset h. x \<le> y)"
    by (auto simp: heap_top_def split: list.splits)
  show "sorted h \<Longrightarrow> sorted (heappop h)" by (simp add: heappop_def sorted_tl)
  show "heap_top h = Some x \<Longrightarrow> add_mset x (mset (heappop h)) = mset h"
    by (auto simp: heap_top_def heappop_def split: list.splits)
  show "pop_stale st h =
      (case heap_top h of None \<Rightarrow> h | Some x \<Rightarrow> if st x then pop_stale st (heappop h) else h)"
    by (rule pop_stale.simps)
qed

lemma pop_stale_subset: "set (pop_stale st h) \<subseteq> set h"
proof (induction st h rule: pop_stale.induct)
  case (1 st h)
  show ?case
  proof (cases "heap_top h")
    case (Some x)
    have "set (heappop h) \<subseteq> set h" by (cases h) (auto simp: heappop_def)
    with 1 [OF Some] Some show ?thesis by (subst pop_stale.simps) auto
  qed (simp add: pop_stale.simps)
qed

lemma heap_top_in: "heap_top h = Some x \<Longrightarrow> x \<in> set h"
  by (cases h) (auto simp: heap_top_def)

lemma heap_top_pruned: "heap_top (pop_stale st h) = Some x \<Longrightarrow> \<not> st x"
proof (induction st h rule: pop_stale.induct)
  case (1 st h)
  then show ?case
    by (subst (asm) (2) pop_stale.simps) (auto split: option.splits if_splits)
qed

end
