(* ===== verification/Fair_Evictor.thy ===== *)
theory Fair_Evictor
  imports Mem_Pool Heap_Queue
begin

text \<open>
  \<open>FairEvictor\<close> of \<open>LMCache/lmcache/storage_backend/evictor/fair_evictor.py\<close>: the cached bytes,
  the bytes accounted to each client, and lazily pruned heaps of \<open>(value, key)\<close> pairs, one per
  \<open>lambda\<close> and one per client and \<open>lambda\<close>.  The backend's dictionary of entries is an argument
  of every operation and returned where the operation changes an entry.  \<open>time()\<close> is the
  argument \<open>now\<close>; \<open>float("inf")\<close> as initial best value is \<open>None\<close>; the unused
  \<open>client_size_heap\<close> is left out.  The set \<open>excluded\<close> of the code always holds exactly the
  keys of \<open>evict_keys\<close>, so the list serves as both.

  Both eviction loops are total functions: the first selects a new key in every round, the
  second selects a new key or drops a client.
\<close>

section \<open>State\<close>

datatype put_status = LEGAL | ILLEGAL

record 'k fair_evictor =
  max_size :: real
  fe_chunk :: real
  threshold :: real
  cur_size :: real
  client_heaps :: "(int, (real, 'k heap) dict) dict"
  global_heaps :: "(real, 'k heap) dict"
  client_sizes :: "(int, real) dict"
  key_to_clients :: "('k, int set) dict"

type_synonym 'k cache = "('k, cache_entry) dict"

definition fe_init :: "real \<Rightarrow> real \<Rightarrow> real \<Rightarrow> 'k fair_evictor" where
  "fe_init mx chunk thr =
     \<lparr>max_size = of_int \<lfloor>mx * 1024 ^ 3\<rfloor>, fe_chunk = chunk, threshold = thr, cur_size = 0,
      client_heaps = [], global_heaps = [], client_sizes = [], key_to_clients = []\<rparr>"

definition entry_size :: "cache_entry \<Rightarrow> real" where
  "entry_size e = of_int (kv_size (entry_obj e))"

section \<open>Heaps\<close>

definition update_client_heap ::
  "int \<Rightarrow> real \<Rightarrow> 'k::linorder \<Rightarrow> real \<Rightarrow> 'k fair_evictor \<Rightarrow> 'k fair_evictor" where
  "update_client_heap c lam k v ev =
     (let by_lam = dget_or (client_heaps ev) c [];
          heap = dget_or by_lam lam []
      in ev\<lparr>client_heaps := AList.update c (AList.update lam (heappush heap (v, k)) by_lam)
                             (client_heaps ev)\<rparr>)"

definition update_global_heap :: "real \<Rightarrow> 'k::linorder \<Rightarrow> real \<Rightarrow> 'k fair_evictor \<Rightarrow> 'k fair_evictor" where
  "update_global_heap lam k v ev =
     ev\<lparr>global_heaps := AList.update lam (heappush (dget_or (global_heaps ev) lam []) (v, k))
                          (global_heaps ev)\<rparr>"

definition get_max_client_id :: "'k fair_evictor \<Rightarrow> int option" where
  "get_max_client_id ev = map_option fst (pick (>) snd (client_sizes ev))"

definition better :: "(real \<times> 'k) option \<Rightarrow> (real \<times> 'k) option \<Rightarrow> (real \<times> 'k) option" where
  "better best cand =
     (case cand of
        None \<Rightarrow> best
      | Some vk \<Rightarrow> (case best of None \<Rightarrow> Some vk
                            | Some bk \<Rightarrow> if fst vk < fst bk then Some vk else Some bk))"

fun scan_heaps ::
  "(real \<Rightarrow> real \<times> 'k::linorder \<Rightarrow> bool) \<Rightarrow> (real \<times> 'k) option \<Rightarrow> (real, 'k heap) dict
     \<Rightarrow> (real \<times> 'k) option \<times> (real, 'k heap) dict" where
  "scan_heaps stale best [] = (best, [])"
| "scan_heaps stale best ((lam, h) # hs) =
     (let h' = pop_stale (stale lam) h;
          r = scan_heaps stale (better best (heap_top h')) hs
      in (fst r, (lam, h') # snd r))"

definition stale_global :: "'k cache \<Rightarrow> 'k list \<Rightarrow> real \<Rightarrow> real \<times> 'k \<Rightarrow> bool" where
  "stale_global d excl lam vk =
     (case map_of d (snd vk) of
        None \<Rightarrow> True
      | Some e \<Rightarrow> lambda_val e \<noteq> lam \<or> entry_value e \<noteq> fst vk \<or> snd vk \<in> set excl)"

definition get_min_value_key ::
  "'k::linorder cache \<Rightarrow> 'k list \<Rightarrow> 'k fair_evictor \<Rightarrow> 'k option \<times> 'k fair_evictor" where
  "get_min_value_key d excl ev =
     (let r = scan_heaps (stale_global d excl) None (global_heaps ev)
      in (map_option snd (fst r), ev\<lparr>global_heaps := snd r\<rparr>))"

definition stale_client :: "int \<Rightarrow> 'k cache \<Rightarrow> 'k list \<Rightarrow> real \<Rightarrow> real \<times> 'k \<Rightarrow> bool" where
  "stale_client c d excl lam vk =
     (case map_of d (snd vk) of
        None \<Rightarrow> True
      | Some e \<Rightarrow> lambda_val e \<noteq> lam \<or> \<not> dhas (access_map e) c \<or> snd vk \<in> set excl)"

definition get_min_value_key_for_client ::
  "int \<Rightarrow> 'k::linorder cache \<Rightarrow> 'k list \<Rightarrow> 'k fair_evictor \<Rightarrow> 'k option \<times> 'k fair_evictor" where
  "get_min_value_key_for_client c d excl ev =
     (case map_of (client_heaps ev) c of
        None \<Rightarrow> (None, ev)
      | Some hs \<Rightarrow>
          (let r = scan_heaps (stale_client c d excl) None hs
           in (map_option snd (fst r),
               ev\<lparr>client_heaps := AList.update c (snd r) (client_heaps ev)\<rparr>)))"

section \<open>Access and registration\<close>

definition add_size :: "int \<Rightarrow> real \<Rightarrow> (int, real) dict \<Rightarrow> (int, real) dict" where
  "add_size c s sizes = AList.update c (dget_or sizes c 0 + s) sizes"

definition reshare :: "real \<Rightarrow> real \<Rightarrow> (int, real) dict \<Rightarrow> int \<Rightarrow> (int, real) dict" where
  "reshare old new sizes c =
     (case map_of sizes c of
        Some s \<Rightarrow> AList.update c (max 0 (s - old + new)) sizes
      | None \<Rightarrow> AList.update c new sizes)"

definition note_client :: "'k \<Rightarrow> int \<Rightarrow> 'k fair_evictor \<Rightarrow> 'k fair_evictor" where
  "note_client k c ev =
     ev\<lparr>key_to_clients := AList.update k (insert c (dget_or (key_to_clients ev) k {}))
                            (key_to_clients ev)\<rparr>"

definition account_get :: "int \<Rightarrow> bool \<Rightarrow> nat \<Rightarrow> cache_entry \<Rightarrow> (int, real) dict \<Rightarrow> (int, real) dict" where
  "account_get c was_new old_n e sizes =
     (let size = entry_size e; n = length (access_map e) in
      if was_new \<and> old_n > 0 then
        add_size c (size / real n)
          (foldl (reshare (size / real old_n) (size / real n)) sizes
             (filter (\<lambda>x. x \<noteq> c) (dkeys (access_map e))))
      else if n = 1 then add_size c size sizes
      else sizes)"

definition fe_update_on_get ::
  "real \<Rightarrow> 'k::linorder \<Rightarrow> int \<Rightarrow> 'k cache \<Rightarrow> 'k fair_evictor \<Rightarrow> 'k cache \<times> 'k fair_evictor" where
  "fe_update_on_get now k c d ev =
     (case map_of d k of
        None \<Rightarrow> (d, ev)
      | Some e \<Rightarrow>
          (let was_new = (\<not> dhas (access_map e) c);
               old_n = length (access_map e);
               e1 = update_value (update_access_time now (Some c) e);
               ev1 = update_global_heap (lambda_val e1) k (entry_value e1) (note_client k c ev);
               ev2 = foldl (\<lambda>ev x. update_client_heap x (lambda_val e1) k (entry_value e1) ev) ev1
                       (dkeys (access_map e1))
           in (AList.update k e1 d,
               ev2\<lparr>client_sizes := account_get c was_new old_n e1 (client_sizes ev2)\<rparr>)))"

definition register_new_cache ::
  "real \<Rightarrow> 'k::linorder \<Rightarrow> cache_entry \<Rightarrow> int \<Rightarrow> 'k fair_evictor \<Rightarrow> cache_entry \<times> 'k fair_evictor" where
  "register_new_cache now k e c ev =
     (let e1 = update_value (update_access_time now (Some c) e);
          ev1 = update_global_heap (lambda_val e1) k (entry_value e1) (note_client k c ev);
          ev2 = update_client_heap c (lambda_val e1) k (entry_value e1) ev1
      in (e1, ev2\<lparr>client_sizes := add_size c (entry_size e1) (client_sizes ev2)\<rparr>))"

section \<open>Eviction\<close>

definition unshare :: "real \<Rightarrow> (int, real) dict \<Rightarrow> int \<Rightarrow> (int, real) dict" where
  "unshare per sizes c =
     (case map_of sizes c of
        None \<Rightarrow> sizes
      | Some s \<Rightarrow> AList.update c (max 0 (s - per)) sizes)"

definition release_shares :: "cache_entry \<Rightarrow> (int, real) dict \<Rightarrow> (int, real) dict" where
  "release_shares e sizes =
     (if length (access_map e) > 0
      then foldl (unshare (entry_size e / real (length (access_map e)))) sizes (dkeys (access_map e))
      else sizes)"

definition evict_entry :: "'k \<Rightarrow> cache_entry \<Rightarrow> 'k fair_evictor \<Rightarrow> 'k fair_evictor" where
  "evict_entry k e ev =
     ev\<lparr>cur_size := cur_size ev - entry_size e,
       client_sizes := release_shares e (client_sizes ev),
       key_to_clients := AList.delete k (key_to_clients ev)\<rparr>"

lemma scan_heaps_best:
  assumes "scan_heaps stale best hs = (Some vk, hs')"
  shows "best = Some vk \<or> (\<exists>lam h. (lam, h) \<in> set hs \<and> vk \<in> set h \<and> \<not> stale lam vk)"
  using assms
proof (induction stale best hs arbitrary: hs' rule: scan_heaps.induct)
  case (1 stale best)
  then show ?case by simp
next
  case (2 stale best lam h hs)
  define h' where "h' = pop_stale (stale lam) h"
  obtain hs1 where r: "scan_heaps stale (better best (heap_top h')) hs = (Some vk, hs1)"
    using "2.prems" by (auto simp: h'_def Let_def prod_eq_iff)
  from "2.IH" [OF h'_def r] consider "better best (heap_top h') = Some vk"
    | "\<exists>lam h. (lam, h) \<in> set hs \<and> vk \<in> set h \<and> \<not> stale lam vk" by blast
  then show ?case
  proof cases
    case 1
    then have "best = Some vk \<or> heap_top h' = Some vk"
      by (auto simp: better_def split: option.splits if_splits)
    then show ?thesis
      using heap_top_in [of h' vk] pop_stale_subset [of "stale lam" h] heap_top_pruned [of "stale lam" h vk]
      unfolding h'_def by auto
  qed auto
qed

lemma min_key_fresh:
  assumes "get_min_value_key d excl ev = (Some k, ev')"
  shows "k \<in> set (dkeys d)" "k \<notin> set excl"
proof -
  from assms obtain v hs where "scan_heaps (stale_global d excl) None (global_heaps ev) = (Some (v, k), hs)"
    by (auto simp: get_min_value_key_def Let_def prod_eq_iff)
  from scan_heaps_best [OF this] obtain lam where "\<not> stale_global d excl lam (v, k)" by auto
  then show "k \<in> set (dkeys d)" "k \<notin> set excl"
    by (auto simp: stale_global_def split: option.splits dest: map_of_in_dkeys)
qed

lemma min_client_key_fresh:
  assumes "get_min_value_key_for_client c d excl ev = (Some k, ev')"
  shows "k \<in> set (dkeys d)" "k \<notin> set excl"
proof -
  from assms obtain v hs hs' where "scan_heaps (stale_client c d excl) None hs = (Some (v, k), hs')"
    by (auto simp: get_min_value_key_for_client_def Let_def prod_eq_iff split: option.splits)
  from scan_heaps_best [OF this] obtain lam where "\<not> stale_client c d excl lam (v, k)" by auto
  then show "k \<in> set (dkeys d)" "k \<notin> set excl"
    by (auto simp: stale_client_def split: option.splits dest: map_of_in_dkeys)
qed

lemma min_key_state [simp]:
  assumes "get_min_value_key d excl ev = (r, ev')"
  shows "cur_size ev' = cur_size ev" "max_size ev' = max_size ev" "threshold ev' = threshold ev"
    "client_sizes ev' = client_sizes ev" "client_heaps ev' = client_heaps ev"
  using assms by (auto simp: get_min_value_key_def Let_def)

lemma min_client_key_state:
  assumes "get_min_value_key_for_client c d excl ev = (r, ev')"
  shows "cur_size ev' = cur_size ev" "max_size ev' = max_size ev" "threshold ev' = threshold ev"
    "client_sizes ev' = client_sizes ev"
  using assms by (auto simp: get_min_value_key_for_client_def Let_def split: option.splits)

lemma min_client_key_global:
  "get_min_value_key_for_client c d excl ev = (r, ev') \<Longrightarrow> global_heaps ev' = global_heaps ev"
  by (auto simp: get_min_value_key_for_client_def Let_def split: option.splits)

lemma fresh_key_measure:
  "k \<in> set ks \<Longrightarrow> k \<notin> set excl \<Longrightarrow> card (set ks - set (excl @ [k])) < card (set ks - set excl)"
  by (rule psubset_card_mono) auto

function evict_below_threshold ::
  "'k::linorder cache \<Rightarrow> real \<Rightarrow> real \<Rightarrow> 'k list \<Rightarrow> 'k fair_evictor \<Rightarrow> 'k list
     \<Rightarrow> ('k fair_evictor \<times> 'k list) result" where
  "evict_below_threshold d now sz retrieved ev ks =
     (if sz + cur_size ev > max_size ev then
        (case get_min_value_key d ks ev of
           (None, ev1) \<Rightarrow> Inr (ev1, ks)
         | (Some k, ev1) \<Rightarrow>
             if k \<in> set retrieved then Inr (ev1, ks)
             else (case map_of d k of
                     None \<Rightarrow> Inl KeyError
                   | Some e \<Rightarrow>
                       if instant_value e now \<ge> threshold ev1 then Inr (ev1, ks)
                       else evict_below_threshold d now sz retrieved (evict_entry k e ev1) (ks @ [k])))
      else Inr (ev, ks))"
  by pat_completeness auto
termination
proof (relation "measure (\<lambda>(d, now, sz, retrieved, ev, ks). card (set (dkeys d) - set ks))", goal_cases)
  case (2 d now sz retrieved ev ks ko ev1 k e)
  then show ?case using fresh_key_measure min_key_fresh by (metis (mono_tags, lifting) case_prod_conv in_measure)
qed simp

declare evict_below_threshold.simps [simp del]

lemma dkeys_unshare [simp]: "dkeys (unshare per sizes c) = dkeys sizes"
proof (cases "map_of sizes c")
  case (Some v)
  then show ?thesis using dkeys_update_member [OF map_of_in_dkeys [OF Some]] by (simp add: unshare_def)
qed (simp add: unshare_def)

lemma dkeys_release_shares [simp]: "dkeys (release_shares e sizes) = dkeys sizes"
proof -
  have "dkeys (foldl (unshare per) sizes cs) = dkeys sizes" for per cs
    by (induction cs arbitrary: sizes) auto
  then show ?thesis by (simp add: release_shares_def)
qed

lemma length_evict_entry [simp]: "length (client_sizes (evict_entry k e ev)) = length (client_sizes ev)"
proof -
  have "length (dkeys (release_shares e (client_sizes ev))) = length (dkeys (client_sizes ev))"
    by (simp only: dkeys_release_shares)
  then show ?thesis unfolding length_map evict_entry_def by simp
qed

lemma max_client_known: "get_max_client_id ev = Some c \<Longrightarrow> c \<in> set (dkeys (client_sizes ev))"
proof -
  assume "get_max_client_id ev = Some c"
  then obtain p where "pick (>) snd (client_sizes ev) = Some p" "fst p = c"
    by (auto simp: get_max_client_id_def)
  with max_sel.sel_in show ?thesis by fastforce
qed

lemma drop_client_shorter:
  "get_max_client_id ev = Some c \<Longrightarrow> client_sizes ev1 = client_sizes ev \<Longrightarrow>
     length (AList.delete c (client_sizes ev1)) < length (client_sizes ev)"
  using length_delete_less [OF max_client_known] by metis

function evict_from_clients ::
  "'k::linorder cache \<Rightarrow> real \<Rightarrow> 'k list \<Rightarrow> 'k fair_evictor \<Rightarrow> 'k list \<Rightarrow> int option
     \<Rightarrow> ('k fair_evictor \<times> int option \<times> 'k list \<times> put_status) result" where
  "evict_from_clients d sz retrieved ev ks ec =
     (if sz + cur_size ev > max_size ev then
        (case get_max_client_id ev of
           None \<Rightarrow> Inr (ev, None, [], ILLEGAL)
         | Some c \<Rightarrow>
             (case get_min_value_key_for_client c d ks ev of
                (None, ev1) \<Rightarrow>
                  evict_from_clients d sz retrieved
                    (ev1\<lparr>client_sizes := AList.delete c (client_sizes ev1)\<rparr>) ks ec
              | (Some k, ev1) \<Rightarrow>
                  if k \<in> set retrieved then
                    evict_from_clients d sz retrieved
                      (ev1\<lparr>client_sizes := AList.delete c (client_sizes ev1)\<rparr>) ks ec
                  else (case map_of d k of
                          None \<Rightarrow> Inl KeyError
                        | Some e \<Rightarrow>
                            evict_from_clients d sz retrieved (evict_entry k e ev1) (ks @ [k]) (Some c))))
      else Inr (ev\<lparr>cur_size := cur_size ev + sz\<rparr>, ec, ks, LEGAL))"
  by pat_completeness auto
termination
proof (relation "measure (\<lambda>(d, sz, retrieved, ev, ks, ec).
         card (set (dkeys d) - set ks) + length (client_sizes ev))", goal_cases)
  case (2 d sz retrieved ev ks ec c r ev1)
  then have "get_min_value_key_for_client c d ks ev = (None, ev1)" by simp
  with 2 show ?case using drop_client_shorter min_client_key_state(4) by fastforce
next
  case (3 d sz retrieved ev ks ec c r ev1 k)
  then have "get_min_value_key_for_client c d ks ev = (Some k, ev1)" by simp
  with 3 show ?case using drop_client_shorter min_client_key_state(4) by fastforce
next
  case (4 d sz retrieved ev ks ec c r ev1 k e)
  then have m: "get_min_value_key_for_client c d ks ev = (Some k, ev1)" by simp
  with fresh_key_measure [OF min_client_key_fresh [OF m]] min_client_key_state(4) [OF m]
  show ?case by simp
qed simp

declare evict_from_clients.simps [simp del]

definition fe_update_on_put ::
  "'k::linorder cache \<Rightarrow> real \<Rightarrow> real \<Rightarrow> 'k list \<Rightarrow> 'k fair_evictor
     \<Rightarrow> ('k fair_evictor \<times> int option \<times> 'k list \<times> put_status) result" where
  "fe_update_on_put d now sz retrieved ev =
     (if sz > max_size ev then Inr (ev, None, [], ILLEGAL)
      else bindr (evict_below_threshold d now sz retrieved ev [])
             (\<lambda>(ev1, ks). evict_from_clients d sz retrieved ev1 ks None))"

section \<open>Completeness of the lazily pruned heaps\<close>

lemma scan_heaps_snd:
  "snd (scan_heaps stale best hs) = map (\<lambda>lh. (fst lh, pop_stale (stale (fst lh)) (snd lh))) hs"
  by (induction stale best hs rule: scan_heaps.induct) (auto simp: Let_def)

lemma better_le:
  "better b c = Some x \<Longrightarrow> (b = Some y \<or> c = Some y) \<Longrightarrow> fst x \<le> fst y"
  by (auto simp: better_def split: option.splits if_splits)

lemma better_None [simp]: "better b c = None \<longleftrightarrow> b = None \<and> c = None"
  by (auto simp: better_def split: option.splits)

lemma scan_heaps_min:
  "fst (scan_heaps stale best hs) = r \<Longrightarrow>
     (r = None \<longleftrightarrow> best = None \<and> (\<forall>(lam, h) \<in> set hs. heap_top (pop_stale (stale lam) h) = None))
     \<and> (\<forall>x y. r = Some x \<and> (best = Some y
             \<or> (\<exists>(lam, h) \<in> set hs. heap_top (pop_stale (stale lam) h) = Some y)) \<longrightarrow> fst x \<le> fst y)"
proof (induction stale best hs arbitrary: r rule: scan_heaps.induct)
  case (1 stale best)
  then show ?case by (cases best) auto
next
  case (2 stale best lam h hs)
  define h' where "h' = pop_stale (stale lam) h"
  define b where "b = better best (heap_top h')"
  have r: "fst (scan_heaps stale b hs) = r" using "2.prems" by (simp add: h'_def b_def Let_def)
  have IH: "(r = None \<longleftrightarrow> b = None \<and> (\<forall>(lam, h) \<in> set hs. heap_top (pop_stale (stale lam) h) = None))
     \<and> (\<forall>x y. r = Some x \<and> (b = Some y
             \<or> (\<exists>(lam, h) \<in> set hs. heap_top (pop_stale (stale lam) h) = Some y)) \<longrightarrow> fst x \<le> fst y)"
    using "2.IH" [OF h'_def r [unfolded b_def]] unfolding b_def .
  have up: "fst x \<le> fst y" if "r = Some x" "best = Some y \<or> heap_top h' = Some y" for x y
  proof -
    from that(2) obtain z where z: "b = Some z" by (cases b) (auto simp: b_def)
    then have "fst z \<le> fst y" using better_le that(2) by (metis b_def)
    moreover have "fst x \<le> fst z" using IH that(1) z by blast
    ultimately show ?thesis by simp
  qed
  show ?case
  proof (intro conjI allI impI)
    show "r = None \<longleftrightarrow> best = None
        \<and> (\<forall>(lam, h) \<in> set ((lam, h) # hs). heap_top (pop_stale (stale lam) h) = None)"
      using IH by (simp add: b_def h'_def)
    fix x y
    assume a: "r = Some x \<and> (best = Some y
        \<or> (\<exists>(lam, h) \<in> set ((lam, h) # hs). heap_top (pop_stale (stale lam) h) = Some y))"
    then have "best = Some y \<or> heap_top h' = Some y
        \<or> (\<exists>(lam, h) \<in> set hs. heap_top (pop_stale (stale lam) h) = Some y)"
      by (auto simp: h'_def)
    with a IH up show "fst x \<le> fst y" by blast
  qed
qed

text \<open>
  \<open>heaps_ok d excl ev\<close>: every cached key outside \<open>excl\<close> is in the global heap of its
  \<open>lambda\<close> with its current value.
\<close>

lemma pop_stale_sorted: "sorted h \<Longrightarrow> sorted (pop_stale st h)"
  using hq.prune_spec by blast

definition heaps_ok :: "'k::linorder cache \<Rightarrow> 'k list \<Rightarrow> 'k fair_evictor \<Rightarrow> bool" where
  "heaps_ok d excl ev \<longleftrightarrow>
     wf_dict (global_heaps ev) \<and> (\<forall>(lam, h) \<in> set (global_heaps ev). sorted h)
     \<and> (\<forall>k e. map_of d k = Some e \<and> k \<notin> set excl \<longrightarrow>
          (\<exists>h. map_of (global_heaps ev) (lambda_val e) = Some h \<and> (entry_value e, k) \<in> set h))"

lemma heaps_okD:
  assumes "heaps_ok d excl ev" "map_of d k = Some e" "k \<notin> set excl"
  shows "\<exists>h. map_of (global_heaps ev) (lambda_val e) = Some h
     \<and> (lambda_val e, h) \<in> set (global_heaps ev) \<and> sorted h \<and> (entry_value e, k) \<in> set h"
proof -
  from assms obtain h where h: "map_of (global_heaps ev) (lambda_val e) = Some h" "(entry_value e, k) \<in> set h"
    unfolding heaps_ok_def by blast
  from map_of_SomeD [OF h(1)] have "(lambda_val e, h) \<in> set (global_heaps ev)" .
  moreover from this assms(1) have "sorted h" unfolding heaps_ok_def by blast
  ultimately show ?thesis using h by blast
qed

lemma heaps_ok_same: "global_heaps ev' = global_heaps ev \<Longrightarrow> heaps_ok d ks ev' = heaps_ok d ks ev"
  by (simp add: heaps_ok_def)

lemma heaps_ok_more: "heaps_ok d ks ev \<Longrightarrow> heaps_ok d (ks @ [k]) ev"
  by (auto simp: heaps_ok_def)

lemma get_min_heaps:
  "snd (get_min_value_key d excl ev) =
     ev\<lparr>global_heaps := map (\<lambda>lh. (fst lh, pop_stale (stale_global d excl (fst lh)) (snd lh))) (global_heaps ev)\<rparr>"
  by (simp add: get_min_value_key_def Let_def scan_heaps_snd)

lemma map_of_map_heaps:
  "map_of (map (\<lambda>lh. (fst lh, f (fst lh) (snd lh))) hs) lam = map_option (f lam) (map_of hs lam)"
  by (induction hs) auto

lemma heaps_ok_min_key:
  assumes "heaps_ok d excl ev" "get_min_value_key d excl ev = (r, ev')"
  shows "heaps_ok d excl ev'"
proof -
  have gh: "global_heaps ev' = map (\<lambda>lh. (fst lh, pop_stale (stale_global d excl (fst lh)) (snd lh))) (global_heaps ev)"
    using assms(2) get_min_heaps [of d excl ev] by simp
  have sorted: "sorted h" if "(lam, h) \<in> set (global_heaps ev)" for lam h
    using assms(1) that by (auto simp: heaps_ok_def)
  show ?thesis
    unfolding heaps_ok_def gh
  proof (intro conjI allI impI)
    show "wf_dict (map (\<lambda>lh. (fst lh, pop_stale (stale_global d excl (fst lh)) (snd lh))) (global_heaps ev))"
      using assms(1) by (simp add: heaps_ok_def o_def)
    show "\<forall>(lam, h) \<in> set (map (\<lambda>lh. (fst lh, pop_stale (stale_global d excl (fst lh)) (snd lh))) (global_heaps ev)). sorted h"
      by (auto intro!: pop_stale_sorted dest: sorted)
    fix k e assume ke: "map_of d k = Some e \<and> k \<notin> set excl"
    with heaps_okD [OF assms(1)] obtain h where h: "map_of (global_heaps ev) (lambda_val e) = Some h"
      "(entry_value e, k) \<in> set h" by blast
    have "\<not> stale_global d excl (lambda_val e) (entry_value e, k)"
      using ke by (simp add: stale_global_def)
    with hq.prune_spec [OF sorted [OF map_of_SomeD [OF h(1)]]] h(2)
    have "(entry_value e, k) \<in> set (pop_stale (stale_global d excl (lambda_val e)) h)"
      by (metis set_mset_mset)
    with h(1) show "\<exists>h. map_of (map (\<lambda>lh. (fst lh, pop_stale (stale_global d excl (fst lh)) (snd lh))) (global_heaps ev))
          (lambda_val e) = Some h \<and> (entry_value e, k) \<in> set h"
      unfolding map_of_map_heaps [where f = "\<lambda>lam. pop_stale (stale_global d excl lam)"] by simp
  qed
qed

section \<open>Bytes and keys selected by an eviction\<close>

definition size_of_key :: "'k cache \<Rightarrow> 'k \<Rightarrow> real" where
  "size_of_key d k = (case map_of d k of None \<Rightarrow> 0 | Some e \<Rightarrow> entry_size e)"

text \<open>What both loops maintain, relative to the evictor \<open>ev0\<close> the put started with.\<close>

definition evict_inv :: "'k::linorder cache \<Rightarrow> 'k list \<Rightarrow> 'k fair_evictor \<Rightarrow> 'k fair_evictor \<Rightarrow> 'k list \<Rightarrow> bool" where
  "evict_inv d retrieved ev0 ev ks \<longleftrightarrow>
     max_size ev = max_size ev0 \<and> threshold ev = threshold ev0
     \<and> cur_size ev = cur_size ev0 - sum_list (map (size_of_key d) ks)
     \<and> distinct ks \<and> set ks \<subseteq> set (dkeys d) \<and> set ks \<inter> set retrieved = {}
     \<and> (heaps_ok d [] ev0 \<longrightarrow> heaps_ok d ks ev)"

lemma evict_inv_evict:
  assumes "evict_inv d rk ev0 ev ks" "k \<in> set (dkeys d)" "k \<notin> set ks" "k \<notin> set rk" "map_of d k = Some e"
    and "cur_size ev1 = cur_size ev" "max_size ev1 = max_size ev" "threshold ev1 = threshold ev"
    and "heaps_ok d ks ev \<Longrightarrow> heaps_ok d ks ev1"
  shows "evict_inv d rk ev0 (evict_entry k e ev1) (ks @ [k])"
proof -
  have "heaps_ok d (ks @ [k]) (evict_entry k e ev1)" if "heaps_ok d [] ev0"
  proof -
    have "heaps_ok d (ks @ [k]) ev1"
      using assms(1,9) that by (intro heaps_ok_more) (simp add: evict_inv_def)
    then show ?thesis
      by (subst heaps_ok_same [where ev = ev1]) (simp_all add: evict_entry_def)
  qed
  with assms(1-8) show ?thesis by (auto simp: evict_inv_def evict_entry_def size_of_key_def)
qed

lemma evict_inv_state:
  assumes "evict_inv d rk ev0 ev ks"
    and "cur_size ev1 = cur_size ev" "max_size ev1 = max_size ev" "threshold ev1 = threshold ev"
    and "heaps_ok d ks ev \<Longrightarrow> heaps_ok d ks ev1"
  shows "evict_inv d rk ev0 ev1 ks"
  using assms by (auto simp: evict_inv_def)

lemma evict_below_threshold_inv:
  assumes "evict_inv d rk ev0 ev ks"
  shows "\<exists>ev' ks'. evict_below_threshold d now sz rk ev ks = Inr (ev', ks') \<and> evict_inv d rk ev0 ev' ks'
     \<and> set ks \<subseteq> set ks' \<and> (\<forall>k \<in> set ks' - set ks. \<exists>e. map_of d k = Some e \<and> instant_value e now < threshold ev0)"
  using assms
proof (induction d now sz rk ev ks rule: evict_below_threshold.induct)
  case (1 d now sz rk ev ks)
  show ?case
  proof (cases "sz + cur_size ev > max_size ev")
    case False
    with "1.prems" show ?thesis by (subst evict_below_threshold.simps) auto
  next
    case True
    obtain r ev1 where r: "get_min_value_key d ks ev = (r, ev1)" by fastforce
    have st: "evict_inv d rk ev0 ev1 ks" using evict_inv_state [OF "1.prems"] heaps_ok_min_key [OF _ r] r by simp
    show ?thesis
    proof (cases r)
      case None
      with r True st show ?thesis by (subst evict_below_threshold.simps) auto
    next
      case (Some k)
      note rk = r [unfolded Some]
      obtain e where e: "map_of d k = Some e"
        using min_key_fresh(1) [OF rk] in_dkeys_map_of by metis
      show ?thesis
      proof (cases "k \<in> set rk \<or> instant_value e now \<ge> threshold ev1")
        case True
        with \<open>sz + cur_size ev > max_size ev\<close> rk e st show ?thesis
          by (subst evict_below_threshold.simps) auto
      next
        case False
        then have eq: "evict_below_threshold d now sz rk ev ks
            = evict_below_threshold d now sz rk (evict_entry k e ev1) (ks @ [k])"
          using True rk e by (subst evict_below_threshold.simps) simp
        have "evict_inv d rk ev0 (evict_entry k e ev1) (ks @ [k])"
          using evict_inv_evict [OF "1.prems" min_key_fresh [OF rk] _ e] False rk
            heaps_ok_min_key [OF _ rk] by simp
        from "1.IH" [OF True rk [symmetric] refl _ e _ this] False obtain ev' ks' where
          "evict_below_threshold d now sz rk (evict_entry k e ev1) (ks @ [k]) = Inr (ev', ks')"
          "evict_inv d rk ev0 ev' ks'" "set (ks @ [k]) \<subseteq> set ks'"
          "\<forall>k \<in> set ks' - set (ks @ [k]). \<exists>e. map_of d k = Some e \<and> instant_value e now < threshold ev0"
          by blast
        moreover have "instant_value e now < threshold ev0"
          using False st by (simp add: evict_inv_def)
        ultimately show ?thesis using e unfolding eq by (intro exI [of _ ev'] exI [of _ ks']) auto
      qed
    qed
  qed
qed

lemma evict_from_clients_inv:
  assumes "evict_inv d rk ev0 ev ks"
  shows "\<exists>ev' ec' ks' st. evict_from_clients d sz rk ev ks ec = Inr (ev', ec', ks', st)
     \<and> (if st = LEGAL
        then evict_inv d rk ev0 (ev'\<lparr>cur_size := cur_size ev' - sz\<rparr>) ks' \<and> set ks \<subseteq> set ks'
             \<and> cur_size ev' \<le> max_size ev'
        else ec' = None \<and> ks' = [] \<and> client_sizes ev' = [])"
  using assms
proof (induction d sz rk ev ks ec rule: evict_from_clients.induct)
  case (1 d sz rk ev ks ec)
  show ?case
  proof (cases "sz + cur_size ev > max_size ev")
    case False
    with "1.prems" show ?thesis
      by (subst evict_from_clients.simps) (auto simp: evict_inv_def algebra_simps)
  next
    case True
    show ?thesis
    proof (cases "get_max_client_id ev")
      case None
      then have "client_sizes ev = []" by (simp add: get_max_client_id_def max_sel.sel_None)
      with None True show ?thesis by (subst evict_from_clients.simps) auto
    next
      case (Some c)
      obtain r ev1 where r: "get_min_value_key_for_client c d ks ev = (r, ev1)" by fastforce
      note st = min_client_key_state [OF r]
      define ev2 where "ev2 = ev1\<lparr>client_sizes := AList.delete c (client_sizes ev1)\<rparr>"
      have inv2: "evict_inv d rk ev0 ev2 ks"
        using evict_inv_state [OF "1.prems", of ev2] st min_client_key_global [OF r]
          heaps_ok_same [of ev2 ev] by (simp add: ev2_def)
      show ?thesis
      proof (cases r)
        case None
        then have "evict_from_clients d sz rk ev ks ec = evict_from_clients d sz rk ev2 ks ec"
          using True Some r by (subst evict_from_clients.simps) (simp add: ev2_def)
        with "1.IH"(1) [OF True Some r [unfolded None, symmetric] refl inv2 [unfolded ev2_def]]
        show ?thesis by (simp add: ev2_def)
      next
        case (Some k)
        note rk = r [unfolded Some]
        obtain e where e: "map_of d k = Some e"
          using min_client_key_fresh(1) [OF rk] in_dkeys_map_of by metis
        show ?thesis
        proof (cases "k \<in> set rk")
          case True
          then have "evict_from_clients d sz rk ev ks ec = evict_from_clients d sz rk ev2 ks ec"
            using \<open>sz + cur_size ev > max_size ev\<close> \<open>get_max_client_id ev = Some c\<close> rk
            by (subst evict_from_clients.simps) (simp add: ev2_def)
          with "1.IH"(2) [OF \<open>sz + cur_size ev > max_size ev\<close> \<open>get_max_client_id ev = Some c\<close>
              rk [symmetric] refl True inv2 [unfolded ev2_def]]
          show ?thesis by (simp add: ev2_def)
        next
          case False
          then have eq: "evict_from_clients d sz rk ev ks ec
              = evict_from_clients d sz rk (evict_entry k e ev1) (ks @ [k]) (Some c)"
            using True \<open>get_max_client_id ev = Some c\<close> rk e
            by (subst evict_from_clients.simps) simp
          have inv3: "evict_inv d rk ev0 (evict_entry k e ev1) (ks @ [k])"
            using evict_inv_evict [OF "1.prems" min_client_key_fresh [OF rk] False e] st
              heaps_ok_same [OF min_client_key_global [OF r]] by simp
          from "1.IH"(3) [OF True \<open>get_max_client_id ev = Some c\<close> rk [symmetric] refl False e inv3]
          show ?thesis unfolding eq by fastforce
        qed
      qed
    qed
  qed
qed

section \<open>Properties of selection and eviction\<close>

text \<open>
  C23.  The lazily pruned heaps select the global minimum: as long as every cached key that is not excluded is in the
  heap of its \<open>lambda\<close> with its current value (\<open>heaps_ok\<close>), \<open>_get_min_value_key\<close> returns \<open>None\<close> only if every
  cached key is excluded, that is, was already chosen in this round; otherwise it returns a key that is cached, not
  excluded and of least value among those; and it leaves the heaps in that condition.
\<close>

theorem min_value_key_is_minimum:
  assumes "heaps_ok d excl ev" "get_min_value_key d excl ev = (r, ev')"
  shows "heaps_ok d excl ev'
     \<and> (case r of
          None \<Rightarrow> set (dkeys d) \<subseteq> set excl
        | Some k \<Rightarrow> \<exists>e. map_of d k = Some e \<and> k \<notin> set excl
            \<and> (\<forall>k' e'. map_of d k' = Some e' \<and> k' \<notin> set excl \<longrightarrow> entry_value e \<le> entry_value e'))"
proof
  show "heaps_ok d excl ev'" by (rule heaps_ok_min_key [OF assms])
  define st where "st = stale_global d excl"
  define b where "b = fst (scan_heaps st None (global_heaps ev))"
  have "fst (get_min_value_key d excl ev) = map_option snd b"
    unfolding get_min_value_key_def b_def st_def by (simp only: Let_def fst_conv)
  then have r: "r = map_option snd b" by (simp only: assms(2) fst_conv)
  note scan = scan_heaps_min [OF b_def [symmetric]]
  have cand: "\<exists>x lam h. (lam, h) \<in> set (global_heaps ev) \<and> heap_top (pop_stale (st lam) h) = Some x
      \<and> fst x \<le> entry_value e"
    if k: "map_of d k = Some e" "k \<notin> set excl" for k e
  proof -
    from heaps_okD [OF assms(1) k] obtain h where h: "(entry_value e, k) \<in> set h"
      and m: "(lambda_val e, h) \<in> set (global_heaps ev)" "sorted h" by blast
    have fresh: "\<not> st (lambda_val e) (entry_value e, k)" using k by (simp add: st_def stale_global_def)
    have in_h: "(entry_value e, k) \<in># mset h" using h by simp
    have "heap_top (pop_stale (st (lambda_val e)) h) \<noteq> None"
      using hq.prune_empty [OF m(2) _ in_h, of "st (lambda_val e)"] fresh by blast
    then obtain x where x: "heap_top (pop_stale (st (lambda_val e)) h) = Some x" by blast
    have "x \<le> (entry_value e, k)" by (rule hq.prune_min [OF m(2) x in_h fresh])
    then have "fst x \<le> entry_value e" by (auto simp: less_eq_prod_def)
    with m(1) x show ?thesis by blast
  qed
  show "case r of
          None \<Rightarrow> set (dkeys d) \<subseteq> set excl
        | Some k \<Rightarrow> \<exists>e. map_of d k = Some e \<and> k \<notin> set excl
            \<and> (\<forall>k' e'. map_of d k' = Some e' \<and> k' \<notin> set excl \<longrightarrow> entry_value e \<le> entry_value e')"
  proof (cases b)
    case None
    have none: "heap_top (pop_stale (st lam) h) = None" if "(lam, h) \<in> set (global_heaps ev)" for lam h
      using scan None that by blast
    have "k \<in> set excl" if "map_of d k = Some e" for k e
      using cand [OF that] none by fastforce
    then have "set (dkeys d) \<subseteq> set excl" using in_dkeys_map_of [of _ d] by blast
    then show ?thesis using None r by simp
  next
    case (Some vk)
    then obtain v k where vk: "vk = (v, k)" by (cases vk)
    from Some have "scan_heaps st None (global_heaps ev) = (Some vk, snd (scan_heaps st None (global_heaps ev)))"
      by (simp add: b_def prod_eq_iff)
    from scan_heaps_best [OF this] obtain lam where "\<not> st lam (v, k)" using vk by auto
    then obtain e where e: "map_of d k = Some e" "k \<notin> set excl" "entry_value e = v"
      by (auto simp: st_def stale_global_def split: option.splits)
    have "entry_value e \<le> entry_value e'" if "map_of d k' = Some e'" "k' \<notin> set excl" for k' e'
    proof -
      from cand [OF that] obtain x lam h where "(lam, h) \<in> set (global_heaps ev)"
        "heap_top (pop_stale (st lam) h) = Some x" "fst x \<le> entry_value e'" by blast
      moreover from scan Some this(1,2) have "fst vk \<le> fst x" by blast
      ultimately show ?thesis using e vk by simp
    qed
    with e show ?thesis using Some vk r by auto
  qed
qed

definition demo_evictor :: "(real \<times> (real \<times> nat) list) list \<Rightarrow> nat fair_evictor" where
  "demo_evictor gh = (fe_init 1 1 (1 / 100))\<lparr>global_heaps := gh\<rparr>"

lemma min_value_key_is_minimum_witness:
  "\<exists>k ev'. get_min_value_key [(5, demo_entry 1 [(1, 2)])] [] (demo_evictor [(1, [(0, 5)])]) = (Some k, ev')
     \<and> heaps_ok [(5, demo_entry 1 [(1, 2)])] [] ev'"
proof -
  have ok: "heaps_ok [(5, demo_entry 1 [(1, 2)])] [] (demo_evictor [(1, [(0, 5)])])"
    by (simp add: heaps_ok_def demo_evictor_def demo_entry_def)
  obtain r ev' where r: "get_min_value_key [(5, demo_entry 1 [(1, 2)])] [] (demo_evictor [(1, [(0, 5)])]) = (r, ev')"
    by fastforce
  from min_value_key_is_minimum [OF ok r] r show ?thesis by (cases r) auto
qed

lemma fe_update_on_put_cases:
  shows "\<exists>ev' ec ks st. fe_update_on_put d now sz retrieved ev = Inr (ev', ec, ks, st)
     \<and> (if st = LEGAL
        then distinct ks \<and> set ks \<subseteq> set (dkeys d) \<and> set ks \<inter> set retrieved = {}
           \<and> cur_size ev' = cur_size ev - sum_list (map (size_of_key d) ks) + sz
           \<and> cur_size ev' \<le> max_size ev \<and> (heaps_ok d [] ev \<longrightarrow> heaps_ok d ks ev')
        else ec = None \<and> ks = [] \<and> (ev' = ev \<and> sz > max_size ev \<or> client_sizes ev' = []))"
proof (cases "sz > max_size ev")
  case True
  then show ?thesis by (simp add: fe_update_on_put_def)
next
  case False
  have "evict_inv d retrieved ev ev []" by (simp add: evict_inv_def)
  from evict_below_threshold_inv [OF this, of now sz] obtain ev1 ks1 where
    1: "evict_below_threshold d now sz retrieved ev [] = Inr (ev1, ks1)" "evict_inv d retrieved ev ev1 ks1"
    by blast
  from evict_from_clients_inv [OF 1(2), of sz None] obtain ev' ec ks st where
    2: "evict_from_clients d sz retrieved ev1 ks1 None = Inr (ev', ec, ks, st)"
    "if st = LEGAL
     then evict_inv d retrieved ev (ev'\<lparr>cur_size := cur_size ev' - sz\<rparr>) ks \<and> set ks1 \<subseteq> set ks
          \<and> cur_size ev' \<le> max_size ev'
     else ec = None \<and> ks = [] \<and> client_sizes ev' = []" by blast
  have "fe_update_on_put d now sz retrieved ev = Inr (ev', ec, ks, st)"
    using False 1 2 by (simp add: fe_update_on_put_def)
  with 2(2) show ?thesis
    by (auto simp: evict_inv_def heaps_ok_same [of "ev'\<lparr>cur_size := cur_size ev' - sz\<rparr>" ev'] split: if_splits)
qed

text \<open>
  C24.  \<open>update_on_put\<close> never raises and its loops end.  When it reports \<open>LEGAL\<close> the keys to
  evict are distinct cached keys, none of them just retrieved, the byte count dropped by exactly
  their sizes and rose by the new one, and it fits the limit; the heaps stay complete for the
  keys that are kept.  When it reports \<open>ILLEGAL\<close> it names nothing to evict, and either the new
  object alone exceeds the limit or no client is left in the table of clients.  That does not mean that nothing could be
  evicted: a client leaves the table as soon as the key of least value of its own was just retrieved.
\<close>

theorem update_on_put_outcome:
  "\<exists>ev' ec ks st. fe_update_on_put d now sz retrieved ev = Inr (ev', ec, ks, st)
     \<and> (if st = LEGAL
        then distinct ks \<and> set ks \<subseteq> set (dkeys d) \<and> set ks \<inter> set retrieved = {}
           \<and> cur_size ev' = cur_size ev - sum_list (map (size_of_key d) ks) + sz
           \<and> cur_size ev' \<le> max_size ev \<and> (heaps_ok d [] ev \<longrightarrow> heaps_ok d ks ev')
        else ec = None \<and> ks = [] \<and> (ev' = ev \<and> sz > max_size ev \<or> client_sizes ev' = []))"
  by (rule fe_update_on_put_cases)

lemma update_on_put_outcome_witness:
  "\<exists>ev' ec ks. fe_update_on_put [] 0 (4::real) [] (demo_evictor []) = Inr (ev', ec, ks, LEGAL)"
proof -
  obtain ev' ec ks st where "fe_update_on_put [] 0 (4::real) [] (demo_evictor []) = Inr (ev', ec, ks, st)"
    "st \<noteq> LEGAL \<Longrightarrow> (ev' = demo_evictor [] \<and> 4 > max_size (demo_evictor []) \<or> client_sizes ev' = [])"
    using update_on_put_outcome [of "[]" 0 4 "[]" "demo_evictor []"] by metis
  moreover have "fe_update_on_put [] 0 (4::real) [] (demo_evictor [])
      = Inr ((demo_evictor [])\<lparr>cur_size := 4\<rparr>, None, [], LEGAL)"
    by (simp add: fe_update_on_put_def demo_evictor_def fe_init_def evict_below_threshold.simps
        evict_from_clients.simps)
  ultimately show ?thesis by auto
qed

section \<open>Bytes accounted to the clients\<close>

text \<open>
  Each of the \<open>n\<close> clients in an entry's \<open>access_map\<close> is accounted \<open>1/n\<close> of its bytes:
  \<open>shares_ok\<close> says that \<open>client_sizes\<close> is exactly that sum for every client.
\<close>

definition share :: "int \<Rightarrow> cache_entry \<Rightarrow> real" where
  "share c e = (if dhas (access_map e) c then entry_size e / real (length (access_map e)) else 0)"

definition total_share :: "'k cache \<Rightarrow> int \<Rightarrow> real" where
  "total_share d c = dsum (share c) d"

definition entry_ok :: "cache_entry \<Rightarrow> bool" where
  "entry_ok e \<longleftrightarrow> wf_dict (access_map e) \<and> 0 \<le> kv_size (entry_obj e)"

definition shares_ok :: "'k cache \<Rightarrow> (int, real) dict \<Rightarrow> bool" where
  "shares_ok d sizes \<longleftrightarrow> wf_dict d \<and> (\<forall>(k, e) \<in> set d. entry_ok e)
     \<and> (\<forall>c. dget_or sizes c 0 = total_share d c)"

lemma share_nonneg: "entry_ok e \<Longrightarrow> 0 \<le> share c e"
  by (simp add: share_def entry_ok_def entry_size_def)

lemma shares_okD:
  assumes "shares_ok d sizes" "map_of d k = Some e"
  shows "wf_dict d" "entry_ok e" "dget_or sizes c 0 = total_share d c" "share c e \<le> total_share d c"
proof -
  show "wf_dict d" "dget_or sizes c 0 = total_share d c" using assms(1) by (auto simp: shares_ok_def)
  show "entry_ok e" using assms map_of_SomeD [OF assms(2)] by (auto simp: shares_ok_def)
  have "0 \<le> dsum (share c) (AList.delete k d)"
    using assms(1) by (intro dsum_nonneg) (auto simp: set_delete_eq shares_ok_def share_nonneg)
  with dsum_delete [OF \<open>wf_dict d\<close> assms(2), of "share c"]
  show "share c e \<le> total_share d c" by (simp add: total_share_def)
qed

lemma total_share_update:
  "map_of d k = Some e \<Longrightarrow> total_share (AList.update k e1 d) c = total_share d c - share c e + share c e1"
  using dsum_update_old [of d k e "share c" e1] by (simp add: total_share_def)

lemma total_share_new:
  "map_of d k = None \<Longrightarrow> total_share (AList.update k e1 d) c = total_share d c + share c e1"
  using dsum_update_new [of k d "share c" e1] by (simp add: total_share_def map_of_eq_None_iff)

lemma total_share_delete:
  "wf_dict d \<Longrightarrow> map_of d k = Some e \<Longrightarrow> total_share (AList.delete k d) c = total_share d c - share c e"
  using dsum_delete [of d k e "share c"] by (simp add: total_share_def)

lemma foldl_unshare:
  "distinct cs \<Longrightarrow> dget_or (foldl (unshare per) sizes cs) x 0
     = (if x \<in> set cs \<and> dhas sizes x then max 0 (dget_or sizes x 0 - per) else dget_or sizes x 0)"
proof (induction cs arbitrary: sizes)
  case Nil
  then show ?case by simp
next
  case (Cons c cs)
  have *: "dhas (unshare per sizes c) x = dhas sizes x" for x
    by (auto simp: unshare_def dict_simps dhas_map_of split: option.splits)
  have **: "dget_or (unshare per sizes c) x 0
      = (if x = c \<and> dhas sizes x then max 0 (dget_or sizes x 0 - per) else dget_or sizes x 0)" for x
    by (auto simp: unshare_def dict_simps dhas_map_of split: option.splits)
  from Cons show ?case by (auto simp: * **)
qed

lemma release_shares_get:
  assumes "shares_ok d sizes" "map_of d k = Some e"
  shows "dget_or (release_shares e sizes) x 0 = total_share d x - share x e"
proof -
  note ok = shares_okD [OF assms]
  have 0: "\<not> dhas sizes x \<Longrightarrow> total_share d x = 0" using ok(3) [of x] by (simp add: dhas_map_of)
  have nn: "0 \<le> share x e" by (rule share_nonneg [OF ok(2)])
  have le: "share x e \<le> total_share d x" by (rule ok(4))
  have dist: "distinct (dkeys (access_map e))" using ok(2) by (simp add: entry_ok_def)
  show ?thesis
  proof (cases "dhas (access_map e) x")
    case False
    then have "dget_or (release_shares e sizes) x 0 = dget_or sizes x 0"
      using foldl_unshare [OF dist] by (simp add: release_shares_def dhas_def)
    with False ok(3) [of x] show ?thesis by (simp add: share_def)
  next
    case True
    then have "access_map e \<noteq> []" by (auto simp: dhas_def)
    moreover have per: "entry_size e / real (length (access_map e)) = share x e"
      using True by (simp add: share_def)
    ultimately have "dget_or (release_shares e sizes) x 0
        = (if dhas sizes x then max 0 (dget_or sizes x 0 - share x e) else dget_or sizes x 0)"
      using True foldl_unshare [OF dist, of "share x e" sizes x]
      unfolding release_shares_def per by (simp add: dhas_def [of "access_map e"])
    with nn le 0 ok(3) [of x] show ?thesis by auto
  qed
qed

lemma foldl_reshare:
  "distinct cs \<Longrightarrow> map_of (foldl (reshare old new) sizes cs) x
     = (if x \<in> set cs
        then Some (case map_of sizes x of None \<Rightarrow> new | Some s \<Rightarrow> max 0 (s - old + new))
        else map_of sizes x)"
proof (induction cs arbitrary: sizes)
  case Nil
  then show ?case by simp
next
  case (Cons c cs)
  have "map_of (reshare old new sizes c) x = (if x = c
        then Some (case map_of sizes x of None \<Rightarrow> new | Some s \<Rightarrow> max 0 (s - old + new))
        else map_of sizes x)" for x
    by (auto simp: reshare_def dict_simps split: option.splits)
  with Cons show ?case by auto
qed

lemma dget_or_add_size [simp]:
  "dget_or (add_size c s sizes) x 0 = (if x = c then dget_or sizes x 0 + s else dget_or sizes x 0)"
  by (simp add: add_size_def dict_simps)

definition touched :: "real \<Rightarrow> int \<Rightarrow> cache_entry \<Rightarrow> cache_entry" where
  "touched now c e = update_value (update_access_time now (Some c) e)"

lemma touched_simps [simp]:
  "access_map (touched now c e) = AList.update c now (access_map e)"
  "entry_size (touched now c e) = entry_size e"
  "lambda_val (touched now c e) = lambda_val e"
  "entry_obj (touched now c e) = entry_obj e"
  "entry_value (touched now c e) = calculate_value (touched now c e)"
  by (simp_all add: touched_def update_value_def update_access_time_def entry_size_def
      calculate_value_def Let_def)

lemma entry_ok_touched: "entry_ok e \<Longrightarrow> entry_ok (touched now c e)"
  by (simp add: entry_ok_def)

lemma length_update_new: "\<not> dhas m c \<Longrightarrow> length (AList.update c v m) = Suc (length m)"
  by (simp add: dhas_def update_new)

lemma length_update_old: "dhas m c \<Longrightarrow> length (AList.update c v m) = length m"
  using arg_cong [OF dkeys_update_member [of c m v], of length] by (simp add: dhas_def)

lemma foldl_client_heaps [simp]:
  "client_sizes (foldl (\<lambda>ev x. update_client_heap x lam k v ev) ev cs) = client_sizes ev"
  "global_heaps (foldl (\<lambda>ev x. update_client_heap x lam k v ev) ev cs) = global_heaps ev"
  "cur_size (foldl (\<lambda>ev x. update_client_heap x lam k v ev) ev cs) = cur_size ev"
  "max_size (foldl (\<lambda>ev x. update_client_heap x lam k v ev) ev cs) = max_size ev"
  by (induction cs arbitrary: ev) (auto simp: update_client_heap_def Let_def)

lemma fe_get_sizes:
  assumes "map_of d k = Some e" "fe_update_on_get now k c d ev = (d', ev')"
  shows "d' = AList.update k (touched now c e) d"
    and "client_sizes ev' = account_get c (\<not> dhas (access_map e) c) (length (access_map e))
           (touched now c e) (client_sizes ev)"
    and "cur_size ev' = cur_size ev"
    and "global_heaps ev' = global_heaps (update_global_heap (lambda_val e) k
           (entry_value (touched now c e)) ev)"
  using assms
  by (auto simp: fe_update_on_get_def Let_def update_global_heap_def note_client_def
      simp flip: touched_def)

lemma account_get_new_sharer:
  assumes ok: "shares_ok d (client_sizes ev)" and e: "map_of d k = Some e"
    and new: "\<not> dhas (access_map e) c"
  shows "dget_or (account_get c True (length (access_map e)) (touched now c e) (client_sizes ev)) x 0
     = total_share d x - share x e + share x (touched now c e)"
proof -
  note okd = shares_okD [OF ok e]
  let ?n = "length (access_map e)" and ?S = "entry_size e"
  have n1: "length (access_map (touched now c e)) = Suc ?n" using length_update_new [OF new] by simp
  show ?thesis
  proof (cases "?n = 0")
    case True
    then have "share x e = 0" for x by (simp add: share_def dhas_def)
    with True n1 okd(3) show ?thesis
      by (simp add: account_get_def share_def dhas_def Let_def)
  next
    case False
    define others where "others = filter (\<lambda>x. x \<noteq> c) (dkeys (AList.update c now (access_map e)))"
    have oth: "set others = set (dkeys (access_map e))" "distinct others"
      using new okd(2) by (auto simp: others_def dhas_def entry_ok_def)
    define f where "f = foldl (reshare (?S / real ?n) (?S / real (Suc ?n))) (client_sizes ev) others"
    have acc: "account_get c True ?n (touched now c e) (client_sizes ev) = add_size c (?S / real (Suc ?n)) f"
      using False n1 by (simp add: account_get_def Let_def f_def others_def)
    have S0: "0 \<le> ?S" using okd(2) by (simp add: entry_ok_def entry_size_def)
    have mem: "share x e = (if x \<in> set others then ?S / real ?n else 0)"
      "share x (touched now c e) = (if x = c \<or> x \<in> set others then ?S / real (Suc ?n) else 0)" for x
      using oth n1 by (auto simp: share_def dhas_def)
    have cn: "c \<notin> set others" by (simp add: others_def)
    have "dget_or f x 0 = total_share d x - share x e + (if x \<in> set others then ?S / real (Suc ?n) else 0)"
    proof (cases "x \<in> set others")
      case True
      show ?thesis
      proof (cases "map_of (client_sizes ev) x")
        case None
        then have "total_share d x = 0" using okd(3) [of x] by simp
        with okd(4) [of x] mem(1) [of x] True S0 False have "?S = 0"
          by (auto simp: divide_le_0_iff)
        with None True foldl_reshare [OF oth(2)] mem(1) [of x] \<open>total_share d x = 0\<close> show ?thesis
          by (simp add: f_def dget_or_def)
      next
        case (Some s)
        then have "s = total_share d x" using okd(3) [of x] by simp
        moreover have "0 \<le> total_share d x - ?S / real ?n + ?S / real (Suc ?n)"
          using okd(4) [of x] mem(1) [of x] True S0 by (simp add: add_nonneg_nonneg)
        ultimately show ?thesis
          using Some True foldl_reshare [OF oth(2)] mem(1) [of x] by (simp add: f_def dget_or_def)
      qed
    next
      case False
      with foldl_reshare [OF oth(2)] okd(3) [of x] mem(1) [of x] show ?thesis
        by (simp add: f_def dget_or_def)
    qed
    with acc mem cn show ?thesis by auto
  qed
qed

lemma shares_ok_update:
  assumes "shares_ok d sizes0" "entry_ok e1"
    and "\<And>x. dget_or sizes x 0 = total_share (AList.update k e1 d) x"
  shows "shares_ok (AList.update k e1 d) sizes"
  using assms by (auto simp: shares_ok_def dest!: set_update_cases)

lemma shares_ok_delete:
  assumes "shares_ok d sizes" "map_of d k = Some e"
  shows "shares_ok (AList.delete k d) (release_shares e sizes)"
  using assms release_shares_get [OF assms] total_share_delete [OF shares_okD(1) [OF assms] assms(2)]
  by (auto simp: shares_ok_def set_delete_eq)

text \<open>
  C25.  Accounting of a hit: \<open>update_on_get\<close> keeps every client's bytes equal to the sum of its
  shares, whether the client joins the sharers of the chunk (every sharer then drops from
  \<open>1/n\<close> to \<open>1/(n+1)\<close>) or is one of at least two sharers already.  The remaining case is the
  client that alone has accessed the chunk: its bytes grow by the whole chunk at every hit,
  although nothing was stored.
\<close>

theorem hit_accounting:
  assumes ok: "shares_ok d (client_sizes ev)" and e: "map_of d k = Some e"
    and g: "fe_update_on_get now k c d ev = (d', ev')"
  shows "if dhas (access_map e) c \<and> length (access_map e) = 1
     then dget_or (client_sizes ev') c 0 = total_share d' c + entry_size e
          \<and> (\<forall>x. total_share d' x = total_share d x)
     else shares_ok d' (client_sizes ev')"
proof -
  note okd = shares_okD [OF ok e]
  note st = fe_get_sizes [OF e g]
  have d': "total_share d' x = total_share d x - share x e + share x (touched now c e)" for x
    using st(1) total_share_update [OF e] by simp
  show ?thesis
  proof (cases "dhas (access_map e) c")
    case False
    have "shares_ok d' (client_sizes ev')"
      unfolding st(1)
    proof (rule shares_ok_update [OF ok entry_ok_touched [OF okd(2)]])
      fix x
      show "dget_or (client_sizes ev') x 0 = total_share (AList.update k (touched now c e) d) x"
        using account_get_new_sharer [OF ok e False, of now x] False d' [of x] by (simp add: st)
    qed
    with False show ?thesis by simp
  next
    case True
    have len: "length (access_map (touched now c e)) = length (access_map e)"
      using length_update_old [OF True] by simp
    have same: "share x (touched now c e) = share x e" for x
      using True len by (auto simp: share_def dict_simps)
    have tot: "total_share d' x = total_share d x" for x using d' [of x] same by simp
    show ?thesis
    proof (cases "length (access_map e) = 1")
      case one: True
      then have "client_sizes ev' = add_size c (entry_size e) (client_sizes ev)"
        using True len st(2) by (simp add: account_get_def Let_def)
      with one True tot okd(3) [of c] show ?thesis by simp
    next
      case False
      then have "client_sizes ev' = client_sizes ev"
        using True len st(2) by (simp add: account_get_def Let_def)
      moreover have "shares_ok d' (client_sizes ev)"
        unfolding st(1)
        by (rule shares_ok_update [OF ok entry_ok_touched [OF okd(2)]]) (use okd(3) tot st(1) in simp)
      ultimately show ?thesis using False by simp
    qed
  qed
qed

lemma hit_accounting_witness:
  "\<exists>d' ev'. fe_update_on_get 9 (5::nat) 1 [(5, demo_entry 1 [(1, 2)])]
       ((demo_evictor [])\<lparr>client_sizes := [(1, 1)]\<rparr>) = (d', ev')
     \<and> dget_or (client_sizes ev') 1 0 = total_share d' 1 + 1"
proof -
  have ok: "shares_ok [(5::nat, demo_entry 1 [(1, 2)])] (client_sizes ((demo_evictor [])\<lparr>client_sizes := [(1, 1)]\<rparr>))"
    by (auto simp: shares_ok_def demo_entry_def entry_ok_def total_share_def share_def entry_size_def
        dget_or_def dhas_def)
  obtain d' ev' where g: "fe_update_on_get 9 (5::nat) 1 [(5, demo_entry 1 [(1, 2)])]
       ((demo_evictor [])\<lparr>client_sizes := [(1, 1)]\<rparr>) = (d', ev')" by fastforce
  from hit_accounting [OF ok _ g, of "demo_entry 1 [(1, 2)]"] g show ?thesis
    by (simp add: demo_entry_def dhas_def entry_size_def)
qed

lemma register_new_cache_eq:
  assumes "register_new_cache now k e c ev = (e1, ev')"
  shows "e1 = touched now c e" "client_sizes ev' = add_size c (entry_size e) (client_sizes ev)"
    "cur_size ev' = cur_size ev" "max_size ev' = max_size ev"
    "global_heaps ev' = global_heaps (update_global_heap (lambda_val e) k (entry_value (touched now c e)) ev)"
  using assms
  by (auto simp: register_new_cache_def Let_def update_global_heap_def update_client_heap_def note_client_def
      simp flip: touched_def)

lemma heaps_ok_push:
  assumes "heaps_ok d [] ev" and gh: "global_heaps ev' = global_heaps (update_global_heap (lambda_val e1) k (entry_value e1) ev)"
  shows "heaps_ok (AList.update k e1 d) [] ev'"
proof -
  let ?lam = "lambda_val e1" and ?x = "(entry_value e1, k)"
  define h0 where "h0 = dget_or (global_heaps ev) ?lam []"
  have gh': "global_heaps ev' = AList.update ?lam (heappush h0 ?x) (global_heaps ev)"
    by (simp add: gh update_global_heap_def h0_def)
  have s0: "sorted h0"
    using assms(1) by (auto simp: h0_def dget_or_def heaps_ok_def split: option.splits dest: map_of_SomeD)
  have wf: "wf_dict (global_heaps ev)" using assms(1) by (simp add: heaps_ok_def)
  show ?thesis
    unfolding heaps_ok_def gh'
  proof (intro conjI allI impI)
    show "wf_dict (AList.update ?lam (heappush h0 ?x) (global_heaps ev))"
      using wf by (rule wf_dict_update)
    show "\<forall>(lam, h) \<in> set (AList.update ?lam (heappush h0 ?x) (global_heaps ev)). sorted h"
      using assms(1) hq.push_inv [OF s0] by (auto simp: heaps_ok_def dest!: set_update_cases)
    fix k' e
    assume ke: "map_of (AList.update k e1 d) k' = Some e \<and> k' \<notin> set []"
    show "\<exists>h. map_of (AList.update ?lam (heappush h0 ?x) (global_heaps ev)) (lambda_val e) = Some h
        \<and> (entry_value e, k') \<in> set h"
    proof (cases "k' = k")
      case True
      with ke have "e = e1" by (simp add: dict_simps)
      with True show ?thesis by (auto simp: dict_simps heappush_def set_insort_key)
    next
      case False
      with ke have "map_of d k' = Some e" by (simp add: dict_simps)
      from heaps_okD [OF assms(1) this] obtain h
        where "map_of (global_heaps ev) (lambda_val e) = Some h" "(entry_value e, k') \<in> set h" by auto
      then show ?thesis by (auto simp: dict_simps heappush_def h0_def set_insort_key)
    qed
  qed
qed

text \<open>
  Registration and hits keep the heaps complete: after \<open>register_new_cache\<close> of a stored entry, and
  after \<open>update_on_get\<close> of a cached key, every cached key is in the heap of its \<open>lambda\<close> with
  its current value, which is what the selection of the minimum relies on; and registration
  accounts the whole chunk to its creator.
\<close>

theorem heaps_stay_complete:
  assumes h: "heaps_ok d [] ev"
  shows "(\<forall>e1 ev'. register_new_cache now k e c ev = (e1, ev') \<longrightarrow>
            heaps_ok (AList.update k e1 d) [] ev'
            \<and> (shares_ok d (client_sizes ev) \<and> map_of d k = None \<and> access_map e = []
                 \<and> 0 \<le> kv_size (entry_obj e) \<longrightarrow>
               shares_ok (AList.update k e1 d) (client_sizes ev')))
     \<and> (\<forall>d' ev'. fe_update_on_get now k c d ev = (d', ev') \<longrightarrow> heaps_ok d' [] ev')"
proof (intro conjI allI impI)
  fix e1 ev'
  assume r: "register_new_cache now k e c ev = (e1, ev')"
  note eq = register_new_cache_eq [OF r]
  show "heaps_ok (AList.update k e1 d) [] ev'"
    using heaps_ok_push [OF h, of ev' "touched now c e" k] eq by simp
  assume "shares_ok d (client_sizes ev) \<and> map_of d k = None \<and> access_map e = [] \<and> 0 \<le> kv_size (entry_obj e)"
  then have ok: "shares_ok d (client_sizes ev)" and n: "map_of d k = None" and am: "access_map e = []"
    and sz: "0 \<le> kv_size (entry_obj e)" by auto
  show "shares_ok (AList.update k e1 d) (client_sizes ev')"
  proof (rule shares_ok_update [OF ok])
    show "entry_ok e1" using eq(1) am sz by (simp add: entry_ok_def)
    show "dget_or (client_sizes ev') x 0 = total_share (AList.update k e1 d) x" for x
      using eq(1,2) am ok total_share_new [OF n, of e1 x]
      by (simp add: shares_ok_def share_def dhas_def)
  qed
next
  fix d' ev'
  assume g: "fe_update_on_get now k c d ev = (d', ev')"
  show "heaps_ok d' [] ev'"
  proof (cases "map_of d k")
    case None
    with g h show ?thesis by (simp add: fe_update_on_get_def)
  next
    case (Some e)
    note st = fe_get_sizes [OF Some g]
    then show ?thesis using heaps_ok_push [OF h, of ev' "touched now c e" k] by simp
  qed
qed

lemma heaps_stay_complete_witness:
  "\<exists>e1 ev'. register_new_cache 3 (5::nat) (demo_entry 1 []) 1 (demo_evictor []) = (e1, ev')
     \<and> heaps_ok [(5, e1)] [] ev'"
proof -
  have "heaps_ok [] [] (demo_evictor [])" by (simp add: heaps_ok_def demo_evictor_def fe_init_def)
  from heaps_stay_complete [OF this, of 3 5 "demo_entry 1 []" 1] show ?thesis
    by (cases "register_new_cache 3 (5::nat) (demo_entry 1 []) 1 (demo_evictor [])") auto
qed

text \<open>
  C25.  Scores of different \<open>lambda\<close> do not compare as values do.  Here the first phase of an
  eviction picks the key of least score, finds its value above the threshold and stops, while
  another cached entry, of the other \<open>lambda\<close>, has a value below the threshold.
\<close>

definition stale_api :: cache_entry where
  "stale_api = update_value (demo_entry (1 / 10) [(1, 900)])"

definition fresh_chat :: cache_entry where
  "fresh_chat = update_value (demo_entry (1 / 100) [(2, 1000)])"

definition mixed_evictor :: "nat fair_evictor" where
  "mixed_evictor = (fe_init 0 1 (1 / 100))\<lparr>max_size := 2, cur_size := 2,
     global_heaps := [(1 / 10, [(90, 7)]), (1 / 100, [(10, 2)])]\<rparr>"

lemma exp_10: "exp (- 10 :: real) < 1 / 100"
proof -
  have "(2::real) ^ 10 \<le> (exp 1) ^ 10"
    using exp_ge_add_one_self [of 1] by (intro power_mono) auto
  also have "\<dots> = exp 10" by (simp flip: exp_of_nat_mult)
  finally have "100 < exp (10::real)" by simp
  then show ?thesis by (simp add: exp_minus field_simps)
qed

theorem threshold_phase_misses_stale_entry:
  "instant_value stale_api 1000 < threshold mixed_evictor
   \<and> instant_value fresh_chat 1000 \<ge> threshold mixed_evictor
   \<and> heaps_ok [(7, stale_api), (2, fresh_chat)] [] mixed_evictor
   \<and> (\<exists>ev'. evict_below_threshold [(7, stale_api), (2, fresh_chat)] 1000 1 [] mixed_evictor []
        = Inr (ev', []))"
proof -
  have v: "entry_value stale_api = 90" "entry_value fresh_chat = 10"
    by (simp_all add: stale_api_def fresh_chat_def update_value_def calculate_value_def demo_entry_def)
  have l: "lambda_val stale_api = 1 / 10" "lambda_val fresh_chat = 1 / 100"
    by (simp_all add: stale_api_def fresh_chat_def update_value_def demo_entry_def)
  have i: "instant_value stale_api 1000 = exp (- 10)" "instant_value fresh_chat 1000 = 1"
    by (simp_all add: stale_api_def fresh_chat_def update_value_def demo_entry_def instant_value_def)
  let ?d = "[(7::nat, stale_api), (2, fresh_chat)]"
  have t: "threshold mixed_evictor = 1 / 100" "global_heaps mixed_evictor = [(1 / 10, [(90, 7)]), (1 / 100, [(10, 2)])]"
    "max_size mixed_evictor = 2" "cur_size mixed_evictor = 2"
    by (simp_all add: mixed_evictor_def fe_init_def)
  have h: "heaps_ok ?d [] mixed_evictor"
    using v l t by (auto simp: heaps_ok_def)
  have p: "pop_stale (stale_global ?d [] (1 / 10)) [(90, 7)] = [(90, 7)]"
    "pop_stale (stale_global ?d [] (1 / 100)) [(10, 2)] = [(10, 2)]"
    by (subst pop_stale.simps, simp add: heap_top_def stale_global_def v l)+
  have "fst (get_min_value_key ?d [] mixed_evictor) = Some 2"
    by (simp add: get_min_value_key_def t p heap_top_def better_def Let_def)
  then obtain ev1 where m: "get_min_value_key ?d [] mixed_evictor = (Some 2, ev1)"
    by (cases "get_min_value_key ?d [] mixed_evictor") auto
  have "threshold ev1 = 1 / 100" using min_key_state(3) [OF m] t by simp
  then have "evict_below_threshold ?d 1000 1 [] mixed_evictor [] = Inr (ev1, [])"
    using m t i by (subst evict_below_threshold.simps) simp
  with h exp_10 i t show ?thesis by simp
qed

end
