(* ===== verification/KV_Store.thy ===== *)
theory KV_Store
  imports Prelude
begin

text \<open>
  The interface of the storage backends, \<open>LMCBackendInterface\<close> of
  \<open>LMCache/lmcache/storage_backend/abstract_backend.py\<close>, with its batched operations, and the
  composition of two stores of \<open>hybrid_backend.py\<close>.

  The locale \<open>kv_store\<close> is what a client of a backend relies on: \<open>contains\<close> tells whether a key is
  stored, a put that returns leaves every key with its old chunk or without one (it may have been
  evicted), except that the key put may have the new chunk, and a get returns the stored chunk or
  nothing and changes no content.  A cache may forget, it may never lie.  Every operation takes
  an argument of type \<open>'a\<close>, the circumstances of the call (the client, the clock); the \<open>n\<close>-th
  call of a batch is under the circumstances \<open>env n\<close>.  \<open>stable_store\<close> adds that a get
  loses nothing; \<open>keyed_store\<close> is the contract of a store behind a wire, which may raise, knows only some keys and
  may keep a chunk in an encoded form.
\<close>

section \<open>Batched operations\<close>

definition batched_put ::
  "('a \<Rightarrow> 'k \<Rightarrow> 'v \<Rightarrow> 's \<Rightarrow> 's result) \<Rightarrow> (nat \<Rightarrow> 'a) \<Rightarrow> ('k \<times> 'v) list \<Rightarrow> 's \<Rightarrow> (nat \<times> 's) result" where
  "batched_put put env kvs s =
     foldM (\<lambda>(n, s) (k, v). bindr (put (env n) k v s) (\<lambda>s'. Inr (Suc n, s'))) (0, s) (rev kvs)"

text \<open>
  \<open>batched_get\<close> is a generator: \<open>get_one\<close> is what it yields for one key, and its consumer decides
  how far it runs.
\<close>

definition get_one ::
  "('k \<Rightarrow> 's \<Rightarrow> bool) \<Rightarrow> ('a \<Rightarrow> 'k \<Rightarrow> 's \<Rightarrow> ('v option \<times> 's) result) \<Rightarrow> 'a \<Rightarrow> 'k \<Rightarrow> 's \<Rightarrow> ('v option \<times> 's) result" where
  "get_one contains get a k s = (if contains k s then get a k s else Inr (None, s))"

fun take_until_missing ::
  "('k \<Rightarrow> 's \<Rightarrow> bool) \<Rightarrow> ('a \<Rightarrow> 'k \<Rightarrow> 's \<Rightarrow> ('v option \<times> 's) result) \<Rightarrow> (nat \<Rightarrow> 'a) \<Rightarrow> 'k list \<Rightarrow> 's
     \<Rightarrow> (('k \<times> 'v) list \<times> 's) result" where
  "take_until_missing contains get env [] s = Inr ([], s)"
| "take_until_missing contains get env (k # ks) s =
     bindr (get_one contains get (env 0) k s) (\<lambda>(r, s').
       case r of
         None \<Rightarrow> Inr ([], s')
       | Some v \<Rightarrow> bindr (take_until_missing contains get (\<lambda>n. env (Suc n)) ks s') (\<lambda>(kvs, s'').
                    Inr ((k, v) # kvs, s'')))"

section \<open>The contract\<close>

locale kv_store =
  fixes ok :: "'s \<Rightarrow> bool" and fits :: "'s \<Rightarrow> 'v \<Rightarrow> bool"
    and stored :: "'s \<Rightarrow> 'k \<Rightarrow> 'v option"
    and contains :: "'k \<Rightarrow> 's \<Rightarrow> bool"
    and put :: "'a \<Rightarrow> 'k \<Rightarrow> 'v \<Rightarrow> 's \<Rightarrow> 's result"
    and get :: "'a \<Rightarrow> 'k \<Rightarrow> 's \<Rightarrow> ('v option \<times> 's) result"
  assumes contains_stored: "ok s \<Longrightarrow> contains k s \<longleftrightarrow> stored s k \<noteq> None"
    and put_ok: "ok s \<Longrightarrow> fits s v \<Longrightarrow> put a k v s = Inr s' \<Longrightarrow> ok s' \<and> fits s' = fits s"
    and put_same: "ok s \<Longrightarrow> fits s v \<Longrightarrow> put a k v s = Inr s' \<Longrightarrow> stored s' k \<in> {None, stored s k, Some v}"
    and put_other: "ok s \<Longrightarrow> fits s v \<Longrightarrow> put a k v s = Inr s' \<Longrightarrow> x \<noteq> k \<Longrightarrow> stored s' x \<in> {None, stored s x}"
    and get_ok: "ok s \<Longrightarrow> get a k s = Inr (r, s') \<Longrightarrow> ok s' \<and> fits s' = fits s"
    and get_keeps: "ok s \<Longrightarrow> get a k s = Inr (r, s') \<Longrightarrow> stored s' x \<in> {None, stored s x}"
    and get_stored: "ok s \<Longrightarrow> get a k s = Inr (r, s') \<Longrightarrow> r \<in> {None, stored s k}"
begin

text \<open>Whatever is true of every stored chunk stays true while the chunks put satisfy it.\<close>

definition all_stored :: "('k \<Rightarrow> 'v \<Rightarrow> bool) \<Rightarrow> 's \<Rightarrow> bool" where
  "all_stored P s \<longleftrightarrow> (\<forall>k v. stored s k = Some v \<longrightarrow> P k v)"

lemma all_stored_put:
  assumes "ok s" "fits s v" "put a k v s = Inr s'" "all_stored P s" "P k v"
  shows "all_stored P s'"
  unfolding all_stored_def
proof (intro allI impI)
  fix x w assume w: "stored s' x = Some w"
  show "P x w"
  proof (cases "x = k")
    case True
    with w put_same [OF assms(1-3)] assms(4,5) show ?thesis by (auto simp: all_stored_def)
  next
    case False
    with w put_other [OF assms(1-3) False] assms(4) show ?thesis by (auto simp: all_stored_def)
  qed
qed

lemma batched_put_inv:
  assumes "ok s" "\<forall>(k, v) \<in> set kvs. fits s v \<and> P k v" "batched_put put env kvs s = Inr (n, s')" "all_stored P s"
  shows "ok s' \<and> fits s' = fits s \<and> all_stored P s'"
proof -
  have "(\<lambda>(n, t). ok t \<and> fits t = fits s \<and> all_stored P t) (n, s')"
    using assms(3) unfolding batched_put_def
  proof (rule foldM_invariant)
    show "(\<lambda>(n, t). ok t \<and> fits t = fits s \<and> all_stored P t) (0, s)" using assms by simp
    show "(\<lambda>(n, t). ok t \<and> fits t = fits s \<and> all_stored P t) nt'"
      if inkv: "kv \<in> set (rev kvs)" and inv: "(\<lambda>(n, t). ok t \<and> fits t = fits s \<and> all_stored P t) nt"
        and step: "(case nt of (n, s) \<Rightarrow> \<lambda>(k, v). bindr (put (env n) k v s) (\<lambda>s'. Inr (Suc n, s'))) kv = Inr nt'" for nt kv nt'
    proof -
      obtain k v m t t' where eq: "kv = (k, v)" "nt = (m, t)" "nt' = (Suc m, t')" "put (env m) k v t = Inr t'"
        using step by (cases kv; cases nt) auto
      with inkv inv assms(2) have t: "ok t" "fits t v" "P k v" "all_stored P t" "fits t = fits s" by auto
      from put_ok [OF t(1,2) eq(4)] all_stored_put [OF t(1,2) eq(4) t(4,3)] t(5) eq(3) show ?thesis by simp
    qed
  qed
  then show ?thesis by simp
qed

lemma get_one_law:
  assumes "ok s" "get_one contains get a k s = Inr (r, s')"
  shows "ok s' \<and> fits s' = fits s \<and> (\<forall>x. stored s' x \<in> {None, stored s x}) \<and> r \<in> {None, stored s k}"
proof (cases "contains k s")
  case True
  with assms have "get a k s = Inr (r, s')" by (simp add: get_one_def)
  from get_ok [OF assms(1) this] get_keeps [OF assms(1) this] get_stored [OF assms(1) this] show ?thesis
    by blast
qed (use assms in \<open>auto simp: get_one_def\<close>)

text \<open>The chunks consumed are those of a prefix of the keys, each as it is stored.\<close>

lemma take_until_missing_law:
  assumes "ok s" "take_until_missing contains get env ks s = Inr (kvs, s')"
  shows "ok s' \<and> fits s' = fits s \<and> (\<forall>x. stored s' x \<in> {None, stored s x}) \<and> map fst kvs = take (length kvs) ks
     \<and> (\<forall>(k, v) \<in> set kvs. stored s k = Some v)"
  using assms
proof (induction ks arbitrary: s kvs env)
  case Nil
  then show ?case by simp
next
  case (Cons k ks)
  from Cons.prems(2) obtain r s1 where one: "get_one contains get (env 0) k s = Inr (r, s1)" by auto
  note law = get_one_law [OF Cons.prems(1) one]
  show ?case
  proof (cases r)
    case None
    with Cons.prems(2) one law show ?thesis by auto
  next
    case (Some v)
    with Cons.prems(2) one obtain kvs' where
      rest: "take_until_missing contains get (\<lambda>n. env (Suc n)) ks s1 = Inr (kvs', s')" and kvs: "kvs = (k, v) # kvs'"
      by auto
    have ih: "ok s'" "fits s' = fits s1" "map fst kvs' = take (length kvs') ks"
      "\<And>x. stored s' x \<in> {None, stored s1 x}" "\<forall>(k, v) \<in> set kvs'. stored s1 k = Some v"
      using Cons.IH [OF _ rest] law by blast+
    have "stored s' x \<in> {None, stored s x}" for x using ih(4) [of x] law by (metis insert_iff singletonD)
    moreover have "stored s x = Some w" if "(x, w) \<in> set kvs'" for x w
    proof -
      have "stored s1 x = Some w" "stored s1 x \<in> {None, stored s x}" using that ih(5) law by auto
      then show ?thesis by simp
    qed
    moreover have "stored s k = Some v" using law Some by simp
    ultimately show ?thesis using ih(1-3) law kvs by auto
  qed
qed

lemma all_stored_fewer:
  "all_stored P s \<Longrightarrow> \<forall>x. stored s' x \<in> {None, stored s x} \<Longrightarrow> all_stored P s'"
  unfolding all_stored_def by (metis insert_iff option.distinct(1) singletonD)

end

text \<open>A store whose get returns the stored chunk and leaves the contents alone.\<close>

locale stable_store = kv_store ok fits stored contains put get
  for ok :: "'s \<Rightarrow> bool" and fits :: "'s \<Rightarrow> 'v \<Rightarrow> bool" and stored :: "'s \<Rightarrow> 'k \<Rightarrow> 'v option"
    and contains :: "'k \<Rightarrow> 's \<Rightarrow> bool" and put :: "'a \<Rightarrow> 'k \<Rightarrow> 'v \<Rightarrow> 's \<Rightarrow> 's result"
    and get :: "'a \<Rightarrow> 'k \<Rightarrow> 's \<Rightarrow> ('v option \<times> 's) result" +
  fixes present :: "'a \<Rightarrow> bool"
  assumes get_total: "present a \<Longrightarrow> ok s \<Longrightarrow> \<exists>s'. get a k s = Inr (stored s k, s') \<and> stored s' = stored s"
begin

text \<open>The consumption of a batch stops at the first key that is not stored.\<close>

lemma take_until_missing_complete:
  assumes "ok s" "\<And>n. present (env n)"
  shows "\<exists>kvs s'. take_until_missing contains get env ks s = Inr (kvs, s')
     \<and> map fst kvs = takeWhile (\<lambda>k. contains k s) ks"
  using assms
proof (induction ks arbitrary: s env)
  case Nil
  then show ?case by simp
next
  case (Cons k ks)
  from get_total [OF Cons.prems(2,1)] obtain s1 where
    g: "get (env 0) k s = Inr (stored s k, s1)" "stored s1 = stored s" by blast
  have ok1: "ok s1" using get_ok [OF Cons.prems(1) g(1)] by simp
  have same: "contains x s1 = contains x s" for x
    using contains_stored [OF ok1] contains_stored [OF Cons.prems(1)] g(2) by simp
  show ?case
  proof (cases "contains k s")
    case False
    then show ?thesis by (simp add: get_one_def)
  next
    case True
    then obtain v where v: "stored s k = Some v" using contains_stored [OF Cons.prems(1)] by auto
    from Cons.IH [OF ok1, of "\<lambda>n. env (Suc n)"] Cons.prems(2) obtain kvs s' where
      "take_until_missing contains get (\<lambda>n. env (Suc n)) ks s1 = Inr (kvs, s')"
      "map fst kvs = takeWhile (\<lambda>k. contains k s) ks" by (auto simp: same)
    with True g v show ?thesis by (simp add: get_one_def del: bindr_Inr_iff)
  qed
qed

end

section \<open>Stores with partial keys\<close>

text \<open>
  A store behind a wire: only \<open>valid\<close> keys name a slot of their own, and asking whether a key is
  stored is itself a conversation, so \<open>contains\<close> passes the state on.  \<open>kept v\<close> is what the store
  keeps of \<open>v\<close>: the value itself, or what an encoder leaves of it.
\<close>

locale keyed_store =
  fixes ok :: "'s \<Rightarrow> bool" and valid :: "'k \<Rightarrow> bool" and fits :: "'s \<Rightarrow> 'v \<Rightarrow> bool"
    and stored :: "'s \<Rightarrow> 'k \<Rightarrow> 'v option" and kept :: "'v \<Rightarrow> 'v"
    and contains :: "'k \<Rightarrow> 's \<Rightarrow> (bool \<times> 's) result"
    and put :: "'a \<Rightarrow> 'k \<Rightarrow> 'v \<Rightarrow> 's \<Rightarrow> 's result"
    and get :: "'a \<Rightarrow> 'k \<Rightarrow> 's \<Rightarrow> ('v option \<times> 's) result"
  assumes contains_law: "ok s \<Longrightarrow> valid k \<Longrightarrow> contains k s = Inr (b, s') \<Longrightarrow>
        (b \<longleftrightarrow> stored s k \<noteq> None) \<and> ok s' \<and> fits s' = fits s \<and> stored s' = stored s"
    and put_law: "ok s \<Longrightarrow> valid k \<Longrightarrow> fits s v \<Longrightarrow> put a k v s = Inr s' \<Longrightarrow>
        ok s' \<and> fits s' = fits s \<and> stored s' k \<in> {None, stored s k, Some (kept v)}"
    and put_others: "ok s \<Longrightarrow> valid k \<Longrightarrow> fits s v \<Longrightarrow> put a k v s = Inr s' \<Longrightarrow> valid x \<Longrightarrow> x \<noteq> k \<Longrightarrow>
        stored s' x \<in> {None, stored s x}"
    and get_law: "ok s \<Longrightarrow> valid k \<Longrightarrow> get a k s = Inr (r, s') \<Longrightarrow>
        ok s' \<and> fits s' = fits s \<and> r \<in> {None, stored s k}"
    and get_others: "ok s \<Longrightarrow> valid k \<Longrightarrow> get a k s = Inr (r, s') \<Longrightarrow> valid x \<Longrightarrow> stored s' x \<in> {None, stored s x}"
begin

definition holds :: "('k \<Rightarrow> 'v \<Rightarrow> bool) \<Rightarrow> 's \<Rightarrow> bool" where
  "holds P s \<longleftrightarrow> (\<forall>k v. valid k \<longrightarrow> stored s k = Some v \<longrightarrow> P k v)"

lemma holds_put:
  assumes "ok s" "valid k" "fits s v" "put a k v s = Inr s'" "holds P s" "P k (kept v)"
  shows "ok s' \<and> fits s' = fits s \<and> holds P s'"
proof -
  note law = put_law [OF assms(1-4)]
  have "P x w" if x: "valid x" and w: "stored s' x = Some w" for x w
  proof (cases "x = k")
    case True
    with law w assms(2,5,6) show ?thesis by (auto simp: holds_def)
  next
    case False
    with put_others [OF assms(1-4) x False] w x assms(5) show ?thesis by (auto simp: holds_def)
  qed
  with law show ?thesis by (simp add: holds_def)
qed

lemma holds_get:
  assumes "ok s" "valid k" "get a k s = Inr (r, s')" "holds P s"
  shows "ok s' \<and> fits s' = fits s \<and> holds P s' \<and> (\<forall>v. r = Some v \<longrightarrow> P k v)"
proof -
  note law = get_law [OF assms(1-3)]
  have "P x w" if x: "valid x" and w: "stored s' x = Some w" for x w
    using get_others [OF assms(1-3) x] w x assms(4) by (auto simp: holds_def)
  with law assms(2,4) show ?thesis by (auto simp: holds_def)
qed

lemma holds_contains:
  assumes "ok s" "valid k" "contains k s = Inr (b, s')" "holds P s"
  shows "ok s' \<and> fits s' = fits s \<and> holds P s'"
  using contains_law [OF assms(1-3)] assms(4) by (simp add: holds_def)

end

sublocale kv_store \<subseteq> keyed: keyed_store ok "\<lambda>_. True" fits stored "\<lambda>v. v" "\<lambda>k s. Inr (contains k s, s)" put get
proof unfold_locales
  fix s s' k and b :: bool
  assume "ok s" "Inr (contains k s, s) = (Inr (b, s') :: (bool \<times> 's) result)"
  then show "(b \<longleftrightarrow> stored s k \<noteq> None) \<and> ok s' \<and> fits s' = fits s \<and> stored s' = stored s"
    using contains_stored by auto
next
  fix s s' a k v
  assume "ok s" "fits s v" "put a k v s = Inr s'"
  then show "ok s' \<and> fits s' = fits s \<and> stored s' k \<in> {None, stored s k, Some v}"
    using put_ok put_same by blast
next
  fix s s' a k v x
  assume "ok s" "fits s v" "put a k v s = Inr s'" "x \<noteq> k"
  then show "stored s' x \<in> {None, stored s x}" using put_other by blast
next
  fix s s' a k r
  assume "ok s" "get a k s = Inr (r, s')"
  then show "ok s' \<and> fits s' = fits s \<and> r \<in> {None, stored s k}" using get_ok get_stored by blast
next
  fix s s' a k r x
  assume "ok s" "get a k s = Inr (r, s')"
  then show "stored s' x \<in> {None, stored s x}" by (rule get_keeps)
qed

end
