(* ===== verification/Fair_Backend.thy ===== *)
theory Fair_Backend
  imports Fair_Evictor KV_Store
begin

text \<open>
  \<open>LMCLocalFairBackend\<close> of \<open>LMCache/lmcache/storage_backend/local_backend.py\<close>: the dictionary of
  cache entries, the memory pool and the fair evictor as one record.  A put has two sections
  under the lock, evicting and allocating (\<open>fb_put_begin\<close>) and storing and registering
  (\<open>fb_put_finish\<close>), with the copy of the tensor between them outside the lock; \<open>put_blocking\<close>
  and \<open>put_nonblocking\<close> run the same sections and differ in the thread that runs them.  The
  context variables \<open>client_id_ctx\<close> and \<open>request_type_ctx\<close> and the readings of \<open>time()\<close> are
  arguments.
\<close>

section \<open>State and operations\<close>

record ('k, 'p) fair_backend =
  fb_dict :: "'k cache"
  fb_ev :: "'k fair_evictor"
  fb_pool :: "'p local_pool"

text \<open>\<open>CreateStorageBackend\<close> passes the same limit to the evictor and to the pool.\<close>

definition new_fair_backend :: "pool_metadata \<Rightarrow> (nat \<Rightarrow> 'p) \<Rightarrow> ('k, 'p) fair_backend result" where
  "new_fair_backend md junk =
     bindr (new_pool md junk) (\<lambda>p.
       Inr \<lparr>fb_dict = [], fb_ev = fe_init (max_local_cache_size md) (of_int (size_per_chunk p)) (1 / 100),
            fb_pool = p\<rparr>)"

definition lambda_high :: real where "lambda_high = 1 / 10"
definition lambda_low :: real where "lambda_low = 1 / 100"

definition fb_contains :: "'k \<Rightarrow> ('k, 'p) fair_backend \<Rightarrow> bool" where
  "fb_contains k b \<longleftrightarrow> dhas (fb_dict b) k"

definition fb_remove :: "'k \<Rightarrow> ('k, 'p) fair_backend \<Rightarrow> ('k, 'p) fair_backend" where
  "fb_remove k b =
     (case map_of (fb_dict b) k of
        None \<Rightarrow> b
      | Some e \<Rightarrow>
          b\<lparr>fb_dict := AList.delete k (fb_dict b),
            fb_pool := pool_free (entry_obj e) (fb_pool b),
            fb_ev := (fb_ev b)\<lparr>client_sizes := release_shares e (client_sizes (fb_ev b)),
                              key_to_clients := AList.delete k (key_to_clients (fb_ev b))\<rparr>\<rparr>)"

definition fb_add_cur :: "real \<Rightarrow> ('k, 'p) fair_backend \<Rightarrow> ('k, 'p) fair_backend" where
  "fb_add_cur s b = b\<lparr>fb_ev := (fb_ev b)\<lparr>cur_size := cur_size (fb_ev b) + s\<rparr>\<rparr>"

definition fb_put_begin ::
  "'k::linorder \<Rightarrow> 'p kv_tensor \<Rightarrow> 'k list \<Rightarrow> real \<Rightarrow> ('k, 'p) fair_backend \<Rightarrow> (kv_obj option \<times> ('k, 'p) fair_backend) result" where
  "fb_put_begin k t retrieved now b =
     (let old = (case map_of (fb_dict b) k of None \<Rightarrow> 0 | Some e \<Rightarrow> entry_size e);
          b1 = (if dhas (fb_dict b) k then fb_add_cur (- old) (fb_remove k b) else b)
      in bindr (fe_update_on_put (fb_dict b1) now (of_int (tensor_size t)) retrieved (fb_ev b1))
           (\<lambda>(ev, ec, ks, st).
             let b2 = b1\<lparr>fb_ev := ev\<rparr> in
             if st = ILLEGAL then Inr (None, if old > 0 then fb_add_cur old b2 else b2)
             else (let b3 = foldl (\<lambda>b k. fb_remove k b) b2 ks in
                   bindr (pool_allocate t (fb_pool b3)) (\<lambda>(obj, p).
                     Inr (Some obj, b3\<lparr>fb_pool := p\<rparr>)))))"

definition fb_put_copy :: "kv_obj \<Rightarrow> 'p kv_tensor \<Rightarrow> ('k, 'p) fair_backend \<Rightarrow> ('k, 'p) fair_backend" where
  "fb_put_copy obj t b = b\<lparr>fb_pool := pool_write obj t (fb_pool b)\<rparr>"

definition fb_put_finish ::
  "int \<Rightarrow> 'k::linorder \<Rightarrow> kv_obj \<Rightarrow> real \<Rightarrow> real \<Rightarrow> ('k, 'p) fair_backend \<Rightarrow> ('k, 'p) fair_backend" where
  "fb_put_finish c k obj lam now b =
     (let r = register_new_cache now k (new_entry obj lam now) c (fb_ev b)
      in b\<lparr>fb_dict := AList.update k (fst r) (fb_dict b), fb_ev := snd r\<rparr>)"

definition fb_put_blocking ::
  "int \<Rightarrow> 'k::linorder \<Rightarrow> 'p kv_tensor \<Rightarrow> 'k list \<Rightarrow> real \<Rightarrow> real \<Rightarrow> ('k, 'p) fair_backend \<Rightarrow> ('k, 'p) fair_backend result" where
  "fb_put_blocking c k t retrieved lam now b =
     bindr (fb_put_begin k t retrieved now b) (\<lambda>(r, b1).
       case r of
         None \<Rightarrow> Inr b1
       | Some obj \<Rightarrow> Inr (fb_put_finish c k obj lam now (fb_put_copy obj t b1)))"

definition choose_lambda :: "real option \<Rightarrow> string \<Rightarrow> real" where
  "choose_lambda lam req_type =
     (case lam of Some l \<Rightarrow> l | None \<Rightarrow> if req_type = ''chat'' then lambda_low else lambda_high)"

text \<open>
  \<open>put\<close> ends by calling a method that the class does not have, on the process that reports
  (\<open>reports\<close>): the exception leaves the put itself done.  An exception inside the put leaves
  the lock taken: no state follows it.
\<close>

definition fb_put ::
  "int option \<Rightarrow> string \<Rightarrow> bool \<Rightarrow> 'k::linorder \<Rightarrow> 'p kv_tensor \<Rightarrow> 'k list \<Rightarrow> real option \<Rightarrow> real
     \<Rightarrow> ('k, 'p) fair_backend \<Rightarrow> (unit result \<times> ('k, 'p) fair_backend) result" where
  "fb_put client req_type reports k t retrieved lam now b =
     (case client of
        None \<Rightarrow> Inr (Inr (), b)
      | Some c \<Rightarrow>
          if c = - 1 then Inr (Inr (), b)
          else bindr (fb_put_blocking c k t retrieved (choose_lambda lam req_type) now b) (\<lambda>b'.
                 Inr (if reports then Inl AttributeError else Inr (), b')))"

definition fb_get :: "int option \<Rightarrow> 'k \<Rightarrow> ('k, 'p) fair_backend \<Rightarrow> 'p option" where
  "fb_get client k b =
     (if client = None \<or> client = Some (- 1) then None
      else (case map_of (fb_dict b) k of
              None \<Rightarrow> None
            | Some e \<Rightarrow> Some (pool_read (entry_obj e) (fb_pool b))))"

definition get_attribution_info ::
  "int option \<Rightarrow> 'k list \<Rightarrow> ('k, 'p) fair_backend \<Rightarrow> (bool \<times> int list) list" where
  "get_attribution_info client ks b =
     (case client of
        None \<Rightarrow> map (\<lambda>_. (False, [])) ks
      | Some c \<Rightarrow>
          if c = - 1 then map (\<lambda>_. (False, [])) ks
          else map (\<lambda>k. case map_of (fb_dict b) k of
                          None \<Rightarrow> (False, [])
                        | Some e \<Rightarrow> (\<not> dhas (access_map e) c, dkeys (access_map e))) ks)"

definition update_retrieved ::
  "int \<Rightarrow> ('k::linorder, 'p) fair_backend \<Rightarrow> 'k \<times> real \<Rightarrow> ('k, 'p) fair_backend" where
  "update_retrieved c b kt =
     (if dhas (fb_dict b) (fst kt)
      then (let r = fe_update_on_get (snd kt) (fst kt) c (fb_dict b) (fb_ev b)
            in b\<lparr>fb_dict := fst r, fb_ev := snd r\<rparr>)
      else b)"

definition update_after_get ::
  "int option \<Rightarrow> ('k::linorder \<times> real) list \<Rightarrow> ('k, 'p) fair_backend \<Rightarrow> ('k, 'p) fair_backend" where
  "update_after_get client kts b =
     (case client of
        None \<Rightarrow> b
      | Some c \<Rightarrow> if c = - 1 then b else foldl (update_retrieved c) b (rev kts))"

section \<open>Invariant\<close>

text \<open>
  \<open>fb_ok b pending\<close>: keys are distinct, every chunk of the pool is free, held by exactly one
  entry, or in \<open>pending\<close> (allocated by a put that has not finished), every entry holds a whole
  chunk, and the heaps are complete.  \<open>undercount\<close> is how much the evictor's byte count falls
  short of the bytes held.
\<close>

definition chunks_of :: "'k cache \<Rightarrow> nat list" where
  "chunks_of d = map (\<lambda>kv. chunk_idx (entry_obj (snd kv))) d"

definition fb_mem_ok :: "('k, 'p) fair_backend \<Rightarrow> nat list \<Rightarrow> bool" where
  "fb_mem_ok b pending \<longleftrightarrow> wf_dict (fb_dict b)
     \<and> pool_ok (fb_pool b) (pending @ chunks_of (fb_dict b))
     \<and> (\<forall>(k, e) \<in> set (fb_dict b). kv_size (entry_obj e) = size_per_chunk (fb_pool b))"

definition fb_ok :: "('k::linorder, 'p) fair_backend \<Rightarrow> nat list \<Rightarrow> bool" where
  "fb_ok b pending \<longleftrightarrow> fb_mem_ok b pending \<and> heaps_ok (fb_dict b) [] (fb_ev b)"

definition undercount :: "('k, 'p) fair_backend \<Rightarrow> real" where
  "undercount b = dsum entry_size (fb_dict b) - cur_size (fb_ev b)"

lemma chunks_of_delete:
  "wf_dict d \<Longrightarrow> map_of d k = Some e \<Longrightarrow>
     add_mset (chunk_idx (entry_obj e)) (mset (chunks_of (AList.delete k d))) = mset (chunks_of d)"
proof (induction d)
  case Nil
  then show ?case by simp
next
  case (Cons p d)
  then show ?case by (cases "fst p = k") (auto simp: chunks_of_def split: if_splits)
qed

lemma chunks_of_new: "map_of d k = None \<Longrightarrow> chunks_of (AList.update k e d) = chunks_of d @ [chunk_idx (entry_obj e)]"
  by (simp add: chunks_of_def update_new map_of_eq_None_iff)

lemma heaps_ok_delete: "heaps_ok d ks ev \<Longrightarrow> heaps_ok (AList.delete k d) ks ev"
  unfolding heaps_ok_def map_of_delete by (auto simp del: map_of_eq_Some_iff)

lemma heaps_ok_evicted:
  "heaps_ok d ks ev \<Longrightarrow> set ks \<inter> set (dkeys d) = {} \<Longrightarrow> heaps_ok d [] ev"
proof -
  assume h: "heaps_ok d ks ev" and dis: "set ks \<inter> set (dkeys d) = {}"
  have "k \<notin> set ks" if "map_of d k = Some e" for k e using map_of_in_dkeys [OF that] dis by blast
  with h show "heaps_ok d [] ev" unfolding heaps_ok_def by (metis empty_iff list.set(1))
qed

lemma fb_remove_dict [simp]: "fb_dict (fb_remove k b) = AList.delete k (fb_dict b)"
  by (auto simp: fb_remove_def map_of_eq_None_iff split: option.splits)

lemma fb_remove_ev [simp]:
  "cur_size (fb_ev (fb_remove k b)) = cur_size (fb_ev b)"
  "global_heaps (fb_ev (fb_remove k b)) = global_heaps (fb_ev b)"
  "max_size (fb_ev (fb_remove k b)) = max_size (fb_ev b)"
  by (auto simp: fb_remove_def split: option.splits)

lemma fb_remove_pool [simp]:
  "size_per_chunk (fb_pool (fb_remove k b)) = size_per_chunk (fb_pool b)"
  "pool_chunk_size (fb_pool (fb_remove k b)) = pool_chunk_size (fb_pool b)"
  "max_chunk_num (fb_pool (fb_remove k b)) = max_chunk_num (fb_pool b)"
  "mem_pool (fb_pool (fb_remove k b)) = mem_pool (fb_pool b)"
  by (auto simp: fb_remove_def pool_free_def split: option.splits)

lemma fb_remove_pool_ok:
  assumes "wf_dict (fb_dict b)" "pool_ok (fb_pool b) (pending @ chunks_of (fb_dict b))"
  shows "pool_ok (fb_pool (fb_remove k b)) (pending @ chunks_of (AList.delete k (fb_dict b)))"
proof (cases "map_of (fb_dict b) k")
  case None
  then have "k \<notin> set (dkeys (fb_dict b))" by (simp add: map_of_eq_None_iff)
  then have "AList.delete k (fb_dict b) = fb_dict b" by (rule delete_notin)
  with None assms show ?thesis by (simp add: fb_remove_def)
next
  case (Some e)
  have "pool_ok (fb_pool b) (chunk_idx (entry_obj e) # pending @ chunks_of (AList.delete k (fb_dict b)))"
    using pool_ok_mset [OF assms(2)] chunks_of_delete [OF assms(1) Some] by simp
  from pool_free_ok [OF this] Some show ?thesis by (simp add: fb_remove_def)
qed

lemma fb_remove_mem_ok: "fb_mem_ok b pending \<Longrightarrow> fb_mem_ok (fb_remove k b) pending"
  using fb_remove_pool_ok [of b pending k] by (auto simp: fb_mem_ok_def set_delete_eq)

lemma fb_remove_ok: "fb_ok b pending \<Longrightarrow> fb_ok (fb_remove k b) pending"
  by (auto simp: fb_ok_def fb_remove_mem_ok heaps_ok_delete
      heaps_ok_same [of "fb_ev (fb_remove k b)" "fb_ev b"])

lemma undercount_remove:
  assumes "fb_mem_ok b pending" "map_of (fb_dict b) k = Some e"
  shows "undercount (fb_remove k b) = undercount b - entry_size e"
  using dsum_delete [of "fb_dict b" k e entry_size] assms by (simp add: undercount_def fb_mem_ok_def)

lemma fb_add_cur_simps [simp]:
  "fb_dict (fb_add_cur s b) = fb_dict b" "fb_pool (fb_add_cur s b) = fb_pool b"
  "undercount (fb_add_cur s b) = undercount b - s"
  "global_heaps (fb_ev (fb_add_cur s b)) = global_heaps (fb_ev b)"
  "max_size (fb_ev (fb_add_cur s b)) = max_size (fb_ev b)"
  "cur_size (fb_ev (fb_add_cur s b)) = cur_size (fb_ev b) + s"
  by (simp_all add: fb_add_cur_def undercount_def)

text \<open>The first step of a put: an entry stored under the same key is dropped.\<close>

definition fb_drop_old :: "'k \<Rightarrow> ('k, 'p) fair_backend \<Rightarrow> ('k, 'p) fair_backend" where
  "fb_drop_old k b =
     (if dhas (fb_dict b) k
      then fb_add_cur (- (case map_of (fb_dict b) k of None \<Rightarrow> 0 | Some e \<Rightarrow> entry_size e)) (fb_remove k b)
      else b)"

lemma fb_drop_old_simps:
  assumes "fb_mem_ok b pending"
  shows "fb_dict (fb_drop_old k b) = AList.delete k (fb_dict b)"
    and "fb_mem_ok (fb_drop_old k b) pending" "undercount (fb_drop_old k b) = undercount b"
    and "global_heaps (fb_ev (fb_drop_old k b)) = global_heaps (fb_ev b)"
    and "max_size (fb_ev (fb_drop_old k b)) = max_size (fb_ev b)"
    and "size_per_chunk (fb_pool (fb_drop_old k b)) = size_per_chunk (fb_pool b)"
    and "pool_chunk_size (fb_pool (fb_drop_old k b)) = pool_chunk_size (fb_pool b)"
    and "max_chunk_num (fb_pool (fb_drop_old k b)) = max_chunk_num (fb_pool b)"
    and "mem_pool (fb_pool (fb_drop_old k b)) = mem_pool (fb_pool b)"
proof -
  note rm = fb_remove_mem_ok [OF assms, of k]
  show "fb_dict (fb_drop_old k b) = AList.delete k (fb_dict b)"
    by (simp add: fb_drop_old_def dhas_def)
  show "fb_mem_ok (fb_drop_old k b) pending"
    using rm assms by (simp add: fb_drop_old_def) (simp add: fb_mem_ok_def)
  show "undercount (fb_drop_old k b) = undercount b"
    using undercount_remove [OF assms, of k]
    by (cases "map_of (fb_dict b) k") (simp_all add: fb_drop_old_def dhas_map_of)
qed (simp_all add: fb_drop_old_def)

lemma dkeys_delete_other: "k \<in> set (dkeys (AList.delete k' d)) \<longleftrightarrow> k \<in> set (dkeys d) \<and> k \<noteq> k'"
  by auto

text \<open>Removing the evicted keys one after the other.\<close>

lemma fb_remove_all:
  assumes "wf_dict (fb_dict b)" "pool_ok (fb_pool b) (pending @ chunks_of (fb_dict b))"
    and "distinct ks" "set ks \<subseteq> set (dkeys (fb_dict b))"
    and "b' = foldl (\<lambda>b k. fb_remove k b) b ks"
  shows "wf_dict (fb_dict b') \<and> pool_ok (fb_pool b') (pending @ chunks_of (fb_dict b'))
     \<and> (\<forall>x. map_of (fb_dict b') x = (if x \<in> set ks then None else map_of (fb_dict b) x))
     \<and> dsum entry_size (fb_dict b') = dsum entry_size (fb_dict b) - sum_list (map (size_of_key (fb_dict b)) ks)
     \<and> cur_size (fb_ev b') = cur_size (fb_ev b) \<and> global_heaps (fb_ev b') = global_heaps (fb_ev b)
     \<and> size_per_chunk (fb_pool b') = size_per_chunk (fb_pool b) \<and> mem_pool (fb_pool b') = mem_pool (fb_pool b)
     \<and> pool_chunk_size (fb_pool b') = pool_chunk_size (fb_pool b)
     \<and> max_chunk_num (fb_pool b') = max_chunk_num (fb_pool b)
     \<and> set (fb_dict b') \<subseteq> set (fb_dict b)
     \<and> length (fb_dict b') + length ks = length (fb_dict b)"
  using assms
proof (induction ks arbitrary: b)
  case Nil
  then show ?case by simp
next
  case (Cons k ks)
  let ?b = "fb_remove k b"
  obtain e where e: "map_of (fb_dict b) k = Some e" using Cons.prems(4) in_dkeys_map_of by fastforce
  have s: "size_of_key (AList.delete k (fb_dict b)) x = size_of_key (fb_dict b) x" if "x \<in> set ks" for x
    using that Cons.prems(3) by (auto simp: size_of_key_def dict_simps)
  have sums: "sum_list (map (size_of_key (AList.delete k (fb_dict b))) ks)
      = sum_list (map (size_of_key (fb_dict b)) ks)"
    using s by (intro arg_cong [where f = sum_list]) simp
  have "dsum entry_size (AList.delete k (fb_dict b)) = dsum entry_size (fb_dict b) - size_of_key (fb_dict b) k"
    using dsum_delete [OF Cons.prems(1) e, of entry_size] e by (simp add: size_of_key_def)
  moreover have "length (AList.delete k (fb_dict b)) + 1 = length (fb_dict b)"
  proof -
    have "length (chunks_of (AList.delete k (fb_dict b))) + 1 = length (chunks_of (fb_dict b))"
      using arg_cong [OF chunks_of_delete [OF Cons.prems(1) e], of size] by simp
    then show ?thesis by (simp add: chunks_of_def)
  qed
  moreover have "set (AList.delete k (fb_dict b)) \<subseteq> set (fb_dict b)" by (auto simp: set_delete_eq)
  moreover have pre: "wf_dict (fb_dict ?b)" "pool_ok (fb_pool ?b) (pending @ chunks_of (fb_dict ?b))"
    "distinct ks" "set ks \<subseteq> set (dkeys (fb_dict ?b))"
    using Cons.prems fb_remove_pool_ok [OF Cons.prems(1,2), of k] by auto
  have "b' = foldl (\<lambda>b k. fb_remove k b) ?b ks" using Cons.prems(5) by simp
  note IH = Cons.IH [OF pre this]
  ultimately show ?case
    using IH by (auto simp: dict_simps sums simp del: map_of_eq_Some_iff)
qed

lemma fb_put_begin_cases:
  assumes ok: "fb_mem_ok b pending"
    and tok: "num_tok t \<le> pool_chunk_size (fb_pool b)"
  shows "(\<exists>b'. fb_put_begin k t rk now b = Inr (None, b') \<and> fb_mem_ok b' pending
            \<and> fb_dict b' = AList.delete k (fb_dict b) \<and> mem_pool (fb_pool b') = mem_pool (fb_pool b))
     \<or> (\<exists>b3. fb_mem_ok b3 pending
            \<and> (heaps_ok (fb_dict b) [] (fb_ev b) \<longrightarrow> heaps_ok (fb_dict b3) [] (fb_ev b3))
            \<and> fb_put_begin k t rk now b = bindr (pool_allocate t (fb_pool b3)) (\<lambda>(obj, p).
                 Inr (Some obj, b3\<lparr>fb_pool := p\<rparr>))
            \<and> map_of (fb_dict b3) k = None
            \<and> (\<forall>x e. map_of (fb_dict b3) x = Some e \<longrightarrow> map_of (fb_dict b) x = Some e)
            \<and> (\<forall>x \<in> set rk. x \<noteq> k \<longrightarrow> map_of (fb_dict b3) x = map_of (fb_dict b) x)
            \<and> undercount b3 = undercount b - of_int (tensor_size t)
            \<and> cur_size (fb_ev b3) \<le> max_size (fb_ev b)
            \<and> size_per_chunk (fb_pool b3) = size_per_chunk (fb_pool b)
            \<and> pool_chunk_size (fb_pool b3) = pool_chunk_size (fb_pool b)
            \<and> max_chunk_num (fb_pool b3) = max_chunk_num (fb_pool b)
            \<and> mem_pool (fb_pool b3) = mem_pool (fb_pool b))"
proof -
  define old where "old = (case map_of (fb_dict b) k of None \<Rightarrow> 0 | Some e \<Rightarrow> entry_size e)"
  define b1 where "b1 = fb_drop_old k b"
  note d = fb_drop_old_simps [OF ok, of k, folded b1_def]
  have wf1: "wf_dict (fb_dict b1)" using d(2) by (simp add: fb_mem_ok_def)
  let ?sz = "of_int (tensor_size t) :: real"
  obtain ev ec ks st where u: "fe_update_on_put (fb_dict b1) now ?sz rk (fb_ev b1) = Inr (ev, ec, ks, st)"
    and out: "if st = LEGAL
        then distinct ks \<and> set ks \<subseteq> set (dkeys (fb_dict b1)) \<and> set ks \<inter> set rk = {}
           \<and> cur_size ev = cur_size (fb_ev b1) - sum_list (map (size_of_key (fb_dict b1)) ks) + ?sz
           \<and> cur_size ev \<le> max_size (fb_ev b1) \<and> (heaps_ok (fb_dict b1) [] (fb_ev b1) \<longrightarrow> heaps_ok (fb_dict b1) ks ev)
        else ec = None \<and> ks = []
           \<and> (ev = fb_ev b1 \<and> ?sz > max_size (fb_ev b1) \<or> client_sizes ev = [])"
    using fe_update_on_put_cases [of "fb_dict b1" now ?sz rk "fb_ev b1"] by blast
  define b2 where "b2 = b1\<lparr>fb_ev := ev\<rparr>"
  have bgn: "fb_put_begin k t rk now b =
      (if st = ILLEGAL then Inr (None, if old > 0 then fb_add_cur old b2 else b2)
       else bindr (pool_allocate t (fb_pool (foldl (\<lambda>b k. fb_remove k b) b2 ks))) (\<lambda>(obj, p).
              Inr (Some obj, (foldl (\<lambda>b k. fb_remove k b) b2 ks)\<lparr>fb_pool := p\<rparr>)))"
    using u by (simp add: fb_put_begin_def fb_drop_old_def old_def b1_def b2_def Let_def)
  have mem2: "fb_mem_ok b2 pending" using d(2) by (simp add: b2_def fb_mem_ok_def)
  show ?thesis
  proof (cases "st = ILLEGAL")
    case True
    have "fb_mem_ok (fb_add_cur old b2) pending" using mem2 by (simp add: fb_mem_ok_def)
    with True bgn mem2 d(1,9) show ?thesis by (intro disjI1) (simp add: b2_def)
  next
    case False
    then have L: "st = LEGAL" by (cases st) auto
    define b3 where "b3 = foldl (\<lambda>b k. fb_remove k b) b2 ks"
    have "wf_dict (fb_dict b2)" "pool_ok (fb_pool b2) (pending @ chunks_of (fb_dict b2))"
      "distinct ks" "set ks \<subseteq> set (dkeys (fb_dict b2))"
      using mem2 out L by (auto simp: fb_mem_ok_def b2_def)
    note all = fb_remove_all [OF this b3_def]
    have h3: "heaps_ok (fb_dict b) [] (fb_ev b) \<longrightarrow> heaps_ok (fb_dict b3) [] (fb_ev b3)"
    proof
      assume "heaps_ok (fb_dict b) [] (fb_ev b)"
      then have "heaps_ok (fb_dict b1) [] (fb_ev b1)"
        using heaps_ok_delete [of "fb_dict b" "[]" "fb_ev b" k] d(1,4)
          heaps_ok_same [of "fb_ev b1" "fb_ev b"] by simp
      then have "heaps_ok (fb_dict b1) ks ev" using out L by simp
      then show "heaps_ok (fb_dict b3) [] (fb_ev b3)"
        using all heaps_ok_same [of "fb_ev b3" ev] unfolding heaps_ok_def b2_def
        by (simp del: map_of_eq_Some_iff)
    qed
    have "set (fb_dict b3) \<subseteq> set (fb_dict b2)" "size_per_chunk (fb_pool b3) = size_per_chunk (fb_pool b2)"
      using all by blast+
    with mem2 have "\<forall>(k, e) \<in> set (fb_dict b3). kv_size (entry_obj e) = size_per_chunk (fb_pool b3)"
      by (auto simp: fb_mem_ok_def)
    then have m3: "fb_mem_ok b3 pending"
      using all by (simp add: fb_mem_ok_def)
    show ?thesis
    proof (intro disjI2 exI [of _ b3] conjI m3 h3)
      show "fb_put_begin k t rk now b = bindr (pool_allocate t (fb_pool b3)) (\<lambda>(obj, p).
                 Inr (Some obj, b3\<lparr>fb_pool := p\<rparr>))"
        using bgn False by (simp add: b3_def)
      show "undercount b3 = undercount b - of_int (tensor_size t)"
        using all out L d(3) by (simp add: undercount_def b2_def)
      show "\<forall>x e. map_of (fb_dict b3) x = Some e \<longrightarrow> map_of (fb_dict b) x = Some e"
        using all d(1) by (auto simp: b2_def dict_simps simp del: map_of_eq_Some_iff split: if_splits)
      show "\<forall>x \<in> set rk. x \<noteq> k \<longrightarrow> map_of (fb_dict b3) x = map_of (fb_dict b) x"
        using all d(1) out L by (auto simp: b2_def dict_simps)
      show "map_of (fb_dict b3) k = None" using all d(1) by (simp add: b2_def dict_simps)
      show "cur_size (fb_ev b3) \<le> max_size (fb_ev b)" using all out L d(5) by (simp add: b2_def)
    qed (use all d in \<open>simp_all add: b2_def\<close>)
  qed
qed

lemma fb_put_finish_eq:
  assumes "map_of (fb_dict b) k = None"
  shows "fb_dict (fb_put_finish c k obj lam now b) = AList.update k (touched now c (new_entry obj lam now)) (fb_dict b)"
    and "fb_pool (fb_put_finish c k obj lam now b) = fb_pool b"
    and "cur_size (fb_ev (fb_put_finish c k obj lam now b)) = cur_size (fb_ev b)"
    and "heaps_ok (fb_dict b) [] (fb_ev b) \<Longrightarrow>
      heaps_ok (fb_dict (fb_put_finish c k obj lam now b)) [] (fb_ev (fb_put_finish c k obj lam now b))"
    and "undercount (fb_put_finish c k obj lam now b) = undercount b + of_int (kv_size obj)"
proof -
  obtain e1 ev' where r: "register_new_cache now k (new_entry obj lam now) c (fb_ev b) = (e1, ev')" by fastforce
  note eq = register_new_cache_eq [OF r]
  have f: "fb_put_finish c k obj lam now b = b\<lparr>fb_dict := AList.update k e1 (fb_dict b), fb_ev := ev'\<rparr>"
    by (simp add: fb_put_finish_def r)
  show "fb_dict (fb_put_finish c k obj lam now b) = AList.update k (touched now c (new_entry obj lam now)) (fb_dict b)"
    "fb_pool (fb_put_finish c k obj lam now b) = fb_pool b"
    "cur_size (fb_ev (fb_put_finish c k obj lam now b)) = cur_size (fb_ev b)"
    using eq by (simp_all add: f)
  show "heaps_ok (fb_dict (fb_put_finish c k obj lam now b)) [] (fb_ev (fb_put_finish c k obj lam now b))"
    if "heaps_ok (fb_dict b) [] (fb_ev b)"
    using heaps_ok_push [OF that, of ev' "touched now c (new_entry obj lam now)" k] eq by (simp add: f)
  show "undercount (fb_put_finish c k obj lam now b) = undercount b + of_int (kv_size obj)"
    using eq dsum_update_new [of k "fb_dict b" entry_size] assms
    by (simp add: f undercount_def map_of_eq_None_iff entry_size_def new_entry_def)
qed

definition content :: "('k, 'p) fair_backend \<Rightarrow> 'k \<Rightarrow> 'p option" where
  "content b k = map_option (\<lambda>e. pool_read (entry_obj e) (fb_pool b)) (map_of (fb_dict b) k)"


lemma content_same:
  "mem_pool (fb_pool b') = mem_pool (fb_pool b) \<Longrightarrow> map_of (fb_dict b') x = map_of (fb_dict b) x \<Longrightarrow>
     content b' x = content b x"
  by (simp add: content_def pool_read_def)

lemma chunk_in: "map_of d k = Some e \<Longrightarrow> chunk_idx (entry_obj e) \<in> set (chunks_of d)"
  by (force simp: chunks_of_def dest: map_of_SomeD)

text \<open>Storing into a freshly allocated chunk.\<close>

lemma fb_store_fresh:
  assumes mem: "fb_mem_ok b []"
    and k: "map_of (fb_dict b) k = None"
    and tok: "num_tok t \<le> pool_chunk_size (fb_pool b)" and free: "free_pool (fb_pool b) \<noteq> []"
  shows "\<exists>obj p. pool_allocate t (fb_pool b) = Inr (obj, p)
     \<and> (let b' = fb_put_finish c k obj lam now (fb_put_copy obj t (b\<lparr>fb_pool := p\<rparr>)) in
          fb_mem_ok b' []
          \<and> (heaps_ok (fb_dict b) [] (fb_ev b) \<longrightarrow> heaps_ok (fb_dict b') [] (fb_ev b'))
          \<and> content b' k = Some (payload t)
          \<and> (\<forall>x. x \<noteq> k \<longrightarrow> content b' x = content b x)
          \<and> undercount b' = undercount b + of_int (size_per_chunk (fb_pool b))
          \<and> cur_size (fb_ev b') = cur_size (fb_ev b))"
proof -
  have po: "pool_ok (fb_pool b) (chunks_of (fb_dict b))" using mem by (simp add: fb_mem_ok_def)
  obtain obj p where al: "pool_allocate t (fb_pool b) = Inr (obj, p)" "pool_ok p (chunk_idx obj # chunks_of (fb_dict b))"
    "chunk_idx obj \<notin> set (chunks_of (fb_dict b))" "chunk_idx obj < length (mem_pool (fb_pool b))"
    "kv_size obj = size_per_chunk (fb_pool b)" "p = (fb_pool b)\<lparr>free_pool := butlast (free_pool (fb_pool b))\<rparr>"
    using pool_allocate_ok [OF po tok free] by blast
  define b1 where "b1 = fb_put_copy obj t (b\<lparr>fb_pool := p\<rparr>)"
  define b' where "b' = fb_put_finish c k obj lam now b1"
  have b1: "fb_dict b1 = fb_dict b" "fb_ev b1 = fb_ev b" "fb_pool b1 = pool_write obj t p"
    by (simp_all add: b1_def fb_put_copy_def)
  have k1: "map_of (fb_dict b1) k = None" using k b1 by simp
  note fin = fb_put_finish_eq [OF k1, of c obj lam now, folded b'_def]
  let ?e = "touched now c (new_entry obj lam now)"
  have d': "fb_dict b' = AList.update k ?e (fb_dict b)" using fin(1) b1 by simp
  have p': "fb_pool b' = pool_write obj t p" using fin(2) b1 by simp
  have mp: "mem_pool p = mem_pool (fb_pool b)" "size_per_chunk p = size_per_chunk (fb_pool b)" using al(6) by simp_all
  have obj': "entry_obj ?e = obj" by (simp add: new_entry_def)
  have mem': "fb_mem_ok b' []"
  proof -
    have "pool_ok (fb_pool b') (chunks_of (fb_dict b'))"
      using pool_ok_mset [OF al(2), of "chunks_of (fb_dict b')"] p' chunks_of_new [OF k, of ?e] d' obj' by simp
    moreover have "\<forall>(k, e) \<in> set (fb_dict b'). kv_size (entry_obj e) = size_per_chunk (fb_pool b')"
      using mem al(5) mp p' d' obj' by (auto simp: fb_mem_ok_def pool_write_def dest!: set_update_cases)
    moreover have "wf_dict (fb_dict b')" using mem d' by (simp add: fb_mem_ok_def)
    ultimately show ?thesis by (simp add: fb_mem_ok_def)
  qed
  have "heaps_ok (fb_dict b) [] (fb_ev b) \<longrightarrow> heaps_ok (fb_dict b') [] (fb_ev b')"
    using fin(4) b1 by simp
  moreover note mem'
  moreover have "content b' k = Some (payload t)"
    using al(4) mp d' p' obj' by (simp add: content_def dict_simps pool_read_write)
  moreover have "content b' x = content b x" if "x \<noteq> k" for x
  proof (cases "map_of (fb_dict b) x")
    case None
    with that d' show ?thesis by (simp add: content_def dict_simps)
  next
    case (Some e)
    then have "chunk_idx (entry_obj e) \<noteq> chunk_idx obj" using chunk_in [OF Some] al(3) by auto
    with Some that d' p' mp al(4) show ?thesis
      by (simp add: content_def dict_simps pool_read_write) (simp add: pool_read_def mp)
  qed
  moreover have "undercount b' = undercount b + of_int (size_per_chunk (fb_pool b))"
    using fin(5) al(5) b1 by (simp add: undercount_def)
  moreover have "cur_size (fb_ev b') = cur_size (fb_ev b)" using fin(3) b1 by simp
  ultimately show ?thesis using al(1) by (auto simp: b'_def b1_def Let_def)
qed

lemma free_pool_nonempty:
  assumes mem: "fb_mem_ok b []" and spc: "0 < size_per_chunk (fb_pool b)"
    and under: "undercount b \<le> - of_int (size_per_chunk (fb_pool b))"
    and cap: "cur_size (fb_ev b) < of_int (size_per_chunk (fb_pool b)) * real (max_chunk_num (fb_pool b))"
  shows "free_pool (fb_pool b) \<noteq> []"
proof
  assume "free_pool (fb_pool b) = []"
  then have len: "length (fb_dict b) = max_chunk_num (fb_pool b)"
    using mem pool_okD(5) [of "fb_pool b" "chunks_of (fb_dict b)"] by (simp add: fb_mem_ok_def chunks_of_def)
  have "dsum entry_size d = of_int (size_per_chunk (fb_pool b)) * real (length d)"
    if "\<forall>(k, e) \<in> set d. kv_size (entry_obj e) = size_per_chunk (fb_pool b)" for d :: "'a cache"
    using that by (induction d) (auto simp: entry_size_def algebra_simps)
  from this [of "fb_dict b"] mem
  have "dsum entry_size (fb_dict b) = of_int (size_per_chunk (fb_pool b)) * real (length (fb_dict b))"
    by (simp add: fb_mem_ok_def)
  with len under cap spc show False by (simp add: undercount_def)
qed

lemma fb_put_blocking_cases:
  assumes mem: "fb_mem_ok b []" and tok: "num_tok t \<le> pool_chunk_size (fb_pool b)"
  shows "(\<exists>b'. fb_put_blocking c k t rk lam now b = Inr b' \<and> fb_mem_ok b' []
            \<and> content b' k = None \<and> (\<forall>x. x \<noteq> k \<longrightarrow> content b' x = content b x))
     \<or> (\<exists>b'. fb_put_blocking c k t rk lam now b = Inr b' \<and> fb_mem_ok b' []
            \<and> (heaps_ok (fb_dict b) [] (fb_ev b) \<longrightarrow> heaps_ok (fb_dict b') [] (fb_ev b'))
            \<and> content b' k = Some (payload t)
            \<and> (\<forall>x. x \<noteq> k \<longrightarrow> content b' x = None \<or> content b' x = content b x)
            \<and> (\<forall>x \<in> set rk. x \<noteq> k \<longrightarrow> content b' x = content b x)
            \<and> undercount b' = undercount b + of_int (size_per_chunk (fb_pool b) - tensor_size t)
            \<and> cur_size (fb_ev b') \<le> max_size (fb_ev b))
     \<or> fb_put_blocking c k t rk lam now b = Inl PyException
         \<and> \<not> (0 < size_per_chunk (fb_pool b) \<and> undercount b + of_int (size_per_chunk (fb_pool b) - tensor_size t) \<le> 0
              \<and> max_size (fb_ev b) < of_int (size_per_chunk (fb_pool b)) * real (max_chunk_num (fb_pool b)))"
proof -
  from fb_put_begin_cases [OF mem tok, of k rk now] show ?thesis
  proof (elim disjE exE conjE)
    fix b' assume b': "fb_put_begin k t rk now b = Inr (None, b')" "fb_mem_ok b' []"
      "fb_dict b' = AList.delete k (fb_dict b)" "mem_pool (fb_pool b') = mem_pool (fb_pool b)"
    have "content b' k = None" "\<And>x. x \<noteq> k \<Longrightarrow> content b' x = content b x"
      using b'(3,4) content_same [of b' b] by (simp_all add: content_def dict_simps)
    with b'(1,2) show ?thesis by (intro disjI1) (simp add: fb_put_blocking_def)
  next
    fix b3
    assume m3: "fb_mem_ok b3 []"
      and h3: "heaps_ok (fb_dict b) [] (fb_ev b) \<longrightarrow> heaps_ok (fb_dict b3) [] (fb_ev b3)"
      and bgn: "fb_put_begin k t rk now b = bindr (pool_allocate t (fb_pool b3)) (\<lambda>(obj, p).
                 Inr (Some obj, b3\<lparr>fb_pool := p\<rparr>))"
      and k3: "map_of (fb_dict b3) k = None"
      and sub: "\<forall>x e. map_of (fb_dict b3) x = Some e \<longrightarrow> map_of (fb_dict b) x = Some e"
      and keep: "\<forall>x \<in> set rk. x \<noteq> k \<longrightarrow> map_of (fb_dict b3) x = map_of (fb_dict b) x"
      and un: "undercount b3 = undercount b - of_int (tensor_size t)"
      and cur: "cur_size (fb_ev b3) \<le> max_size (fb_ev b)"
      and pp: "size_per_chunk (fb_pool b3) = size_per_chunk (fb_pool b)"
        "pool_chunk_size (fb_pool b3) = pool_chunk_size (fb_pool b)"
        "max_chunk_num (fb_pool b3) = max_chunk_num (fb_pool b)"
        "mem_pool (fb_pool b3) = mem_pool (fb_pool b)"
    have old: "content b3 x = None \<or> content b3 x = content b x" for x
      using sub content_same [OF pp(4), of x] by (cases "map_of (fb_dict b3) x") (auto simp: content_def)
    show ?thesis
    proof (cases "free_pool (fb_pool b3) = []")
      case True
      then have "fb_put_blocking c k t rk lam now b = Inl PyException"
        using bgn tok pp by (simp add: fb_put_blocking_def pool_allocate_def)
      moreover have "\<not> (0 < size_per_chunk (fb_pool b) \<and> undercount b + of_int (size_per_chunk (fb_pool b) - tensor_size t) \<le> 0
              \<and> max_size (fb_ev b) < of_int (size_per_chunk (fb_pool b)) * real (max_chunk_num (fb_pool b)))"
        using free_pool_nonempty [OF m3] True un cur pp by auto
      ultimately show ?thesis by blast
    next
      case False
      from fb_store_fresh [OF m3 k3 _ False, of t c lam now] tok pp(2) obtain obj p where
        al: "pool_allocate t (fb_pool b3) = Inr (obj, p)"
        and st: "let b' = fb_put_finish c k obj lam now (fb_put_copy obj t (b3\<lparr>fb_pool := p\<rparr>)) in
          fb_mem_ok b' []
          \<and> (heaps_ok (fb_dict b3) [] (fb_ev b3) \<longrightarrow> heaps_ok (fb_dict b') [] (fb_ev b'))
          \<and> content b' k = Some (payload t)
          \<and> (\<forall>x. x \<noteq> k \<longrightarrow> content b' x = content b3 x)
          \<and> undercount b' = undercount b3 + of_int (size_per_chunk (fb_pool b3))
          \<and> cur_size (fb_ev b') = cur_size (fb_ev b3)" by auto
      define b' where "b' = fb_put_finish c k obj lam now (fb_put_copy obj t (b3\<lparr>fb_pool := p\<rparr>))"
      have "fb_put_blocking c k t rk lam now b = Inr b'"
        using bgn al by (simp add: fb_put_blocking_def b'_def)
      moreover have "content b' x = content b x" if "x \<in> set rk" "x \<noteq> k" for x
        using st keep that content_same [OF pp(4), of x] by (simp add: b'_def Let_def)
      ultimately show ?thesis
        using st old un cur pp(1) h3 by (intro disjI2 disjI1 exI [of _ b']) (simp add: b'_def Let_def)
    qed
  qed
qed

lemma fb_begin_alloc:
  assumes "fb_mem_ok b pending" "heaps_ok (fb_dict b) [] (fb_ev b)"
    and "num_tok t \<le> pool_chunk_size (fb_pool b)" "fb_put_begin k t rk now b = Inr (Some obj, b')"
  shows "fb_mem_ok b' (chunk_idx obj # pending) \<and> heaps_ok (fb_dict b') [] (fb_ev b')
     \<and> map_of (fb_dict b') k = None \<and> pool_chunk_size (fb_pool b') = pool_chunk_size (fb_pool b)"
  using fb_put_begin_cases [OF assms(1,3), of k rk now]
proof (elim disjE exE conjE)
  fix b2 assume "fb_put_begin k t rk now b = Inr (None, b2)"
  with assms(4) show ?thesis by simp
next
  fix b3
  assume m3: "fb_mem_ok b3 pending"
    and "heaps_ok (fb_dict b) [] (fb_ev b) \<longrightarrow> heaps_ok (fb_dict b3) [] (fb_ev b3)"
    and bgn: "fb_put_begin k t rk now b = bindr (pool_allocate t (fb_pool b3)) (\<lambda>(obj, p).
               Inr (Some obj, b3\<lparr>fb_pool := p\<rparr>))"
    and k3: "map_of (fb_dict b3) k = None"
    and tok: "pool_chunk_size (fb_pool b3) = pool_chunk_size (fb_pool b)"
  then have h3: "heaps_ok (fb_dict b3) [] (fb_ev b3)" using assms(2) by blast
  from trans [OF bgn [symmetric] assms(4)] obtain p where p: "pool_allocate t (fb_pool b3) = Inr (obj, p)" "b' = b3\<lparr>fb_pool := p\<rparr>"
    by auto
  then have "free_pool (fb_pool b3) \<noteq> []" by (auto simp: pool_allocate_def)
  moreover have "pool_ok (fb_pool b3) (pending @ chunks_of (fb_dict b3))" using m3 by (simp add: fb_mem_ok_def)
  moreover have "num_tok t \<le> pool_chunk_size (fb_pool b3)" using assms(3) tok by simp
  ultimately obtain obj' p' where q: "pool_allocate t (fb_pool b3) = Inr (obj', p')"
    "pool_ok p' (chunk_idx obj' # pending @ chunks_of (fb_dict b3))"
    "p' = (fb_pool b3)\<lparr>free_pool := butlast (free_pool (fb_pool b3))\<rparr>"
    using pool_allocate_ok by metis
  then have "size_per_chunk p' = size_per_chunk (fb_pool b3)" "pool_chunk_size p' = pool_chunk_size (fb_pool b3)"
    by simp_all
  moreover from p q have "obj' = obj" "p' = p" by auto
  ultimately show ?thesis using m3 h3 k3 p(2) q(2) tok by (simp add: fb_mem_ok_def)
qed

lemma fb_finish_mem:
  assumes mem: "fb_mem_ok b (chunk_idx obj # pending)" and sz: "kv_size obj = size_per_chunk (fb_pool b)"
  shows "fb_mem_ok (fb_put_finish c k obj lam now b)
           (pending @ (case map_of (fb_dict b) k of None \<Rightarrow> [] | Some e \<Rightarrow> [chunk_idx (entry_obj e)]))"
    and "dhas (fb_dict (fb_put_finish c k obj lam now b)) k"
    and "map_of (fb_dict (fb_put_finish c k obj lam now b)) k = Some (touched now c (new_entry obj lam now))"
    and "fb_pool (fb_put_finish c k obj lam now b) = fb_pool b"
proof -
  obtain e1 ev' where r: "register_new_cache now k (new_entry obj lam now) c (fb_ev b) = (e1, ev')" by fastforce
  have e1: "e1 = touched now c (new_entry obj lam now)" using register_new_cache_eq(1) [OF r] .
  have f: "fb_put_finish c k obj lam now b = b\<lparr>fb_dict := AList.update k e1 (fb_dict b), fb_ev := ev'\<rparr>"
    by (simp add: fb_put_finish_def r)
  have wf: "wf_dict (fb_dict b)" and po: "pool_ok (fb_pool b) (chunk_idx obj # pending @ chunks_of (fb_dict b))"
    using mem by (simp_all add: fb_mem_ok_def)
  show "dhas (fb_dict (fb_put_finish c k obj lam now b)) k" by (simp add: f dict_simps)
  show "map_of (fb_dict (fb_put_finish c k obj lam now b)) k = Some (touched now c (new_entry obj lam now))"
    by (simp add: f dict_simps e1)
  show "fb_pool (fb_put_finish c k obj lam now b) = fb_pool b" by (simp add: f)
  have idx: "chunk_idx (entry_obj e1) = chunk_idx obj" by (simp add: e1 new_entry_def)
  have "mset (pending @ (case map_of (fb_dict b) k of None \<Rightarrow> [] | Some e \<Rightarrow> [chunk_idx (entry_obj e)])
        @ chunks_of (AList.update k e1 (fb_dict b))) = mset (chunk_idx obj # pending @ chunks_of (fb_dict b))"
  proof (cases "map_of (fb_dict b) k")
    case None
    then show ?thesis by (simp add: chunks_of_new idx)
  next
    case (Some e)
    have "add_mset (chunk_idx (entry_obj e)) (mset (chunks_of (AList.update k e1 d)))
        = add_mset (chunk_idx (entry_obj e1)) (mset (chunks_of d))" if "map_of d k = Some e" for d
      using that by (induction d) (auto simp: chunks_of_def split: if_splits)
    from this [OF Some] Some show ?thesis by (simp add: idx)
  qed
  then have "pool_ok (fb_pool b) (pending @ (case map_of (fb_dict b) k of None \<Rightarrow> [] | Some e \<Rightarrow> [chunk_idx (entry_obj e)])
        @ chunks_of (AList.update k e1 (fb_dict b)))" by (rule pool_ok_mset [OF po])
  moreover have "\<forall>(k, e) \<in> set (AList.update k e1 (fb_dict b)). kv_size (entry_obj e) = size_per_chunk (fb_pool b)"
    using mem sz by (auto simp: fb_mem_ok_def e1 new_entry_def dest!: set_update_cases)
  ultimately show "fb_mem_ok (fb_put_finish c k obj lam now b)
           (pending @ (case map_of (fb_dict b) k of None \<Rightarrow> [] | Some e \<Rightarrow> [chunk_idx (entry_obj e)]))"
    using wf by (simp add: fb_mem_ok_def f)
qed

lemma fb_copy_mem: "fb_mem_ok (fb_put_copy obj t b) pending \<longleftrightarrow> fb_mem_ok b pending"
  by (simp add: fb_mem_ok_def fb_put_copy_def) (simp add: pool_write_def)

lemma fb_copy_simps [simp]:
  "fb_dict (fb_put_copy obj t b) = fb_dict b" "fb_ev (fb_put_copy obj t b) = fb_ev b"
  "size_per_chunk (fb_pool (fb_put_copy obj t b)) = size_per_chunk (fb_pool b)"
  "pool_chunk_size (fb_pool (fb_put_copy obj t b)) = pool_chunk_size (fb_pool b)"
  by (simp_all add: fb_put_copy_def pool_write_def)

lemma fb_begin_size:
  assumes "fb_mem_ok b pending" "heaps_ok (fb_dict b) [] (fb_ev b)"
    and "num_tok t \<le> pool_chunk_size (fb_pool b)" "fb_put_begin k t rk now b = Inr (Some obj, b')"
  shows "kv_size obj = size_per_chunk (fb_pool b') \<and> size_per_chunk (fb_pool b') = size_per_chunk (fb_pool b)"
proof -
  from fb_put_begin_cases [OF assms(1,3), of k rk now] obtain b3 where
    bgn: "fb_put_begin k t rk now b = bindr (pool_allocate t (fb_pool b3)) (\<lambda>(obj, p).
               Inr (Some obj, b3\<lparr>fb_pool := p\<rparr>))"
    and sp: "size_per_chunk (fb_pool b3) = size_per_chunk (fb_pool b)"
    using assms(4) by auto
  from trans [OF bgn [symmetric] assms(4)] sp show ?thesis
    by (auto simp: pool_allocate_def pool_view_def Let_def split: if_splits)
qed

section \<open>The backend as a store\<close>

text \<open>
  A call of the backend carries its client, the request type, whether the process reports, the
  keys just retrieved, an explicit \<open>lambda\<close> and the clock.  \<open>fair_put\<close> is \<open>put\<close> as a caller sees it that lets exceptions pass.
\<close>

record 'k fair_call =
  call_client :: "int option"
  call_type :: string
  call_reports :: bool
  call_retrieved :: "'k list"
  call_lambda :: "real option"
  call_time :: real

definition fair_put ::
  "'k::linorder fair_call \<Rightarrow> 'k \<Rightarrow> 'p kv_tensor \<Rightarrow> ('k, 'p) fair_backend \<Rightarrow> ('k, 'p) fair_backend result" where
  "fair_put a k t b =
     bindr (fb_put (call_client a) (call_type a) (call_reports a) k t (call_retrieved a)
              (call_lambda a) (call_time a) b)
       (\<lambda>(r, b'). bindr r (\<lambda>_. Inr b'))"

definition has_client :: "'k fair_call \<Rightarrow> bool" where
  "has_client a \<longleftrightarrow> call_client a \<notin> {None, Some (- 1)}"

lemma foldl_remove_chunk_size:
  "pool_chunk_size (fb_pool (foldl (\<lambda>b k. fb_remove k b) b ks)) = pool_chunk_size (fb_pool b)"
  by (induction ks arbitrary: b) simp_all

lemma fb_put_begin_chunk_size:
  assumes "fb_put_begin k t rk now b = Inr (r, b')"
  shows "pool_chunk_size (fb_pool b') = pool_chunk_size (fb_pool b)"
proof -
  define b1 where "b1 = fb_drop_old k b"
  have b1: "pool_chunk_size (fb_pool b1) = pool_chunk_size (fb_pool b)"
    by (simp add: b1_def fb_drop_old_def)
  from assms obtain ev ec ks st where
    up: "fe_update_on_put (fb_dict b1) now (of_int (tensor_size t)) rk (fb_ev b1) = Inr (ev, ec, ks, st)"
    by (auto simp: fb_put_begin_def Let_def b1_def fb_drop_old_def)
  show ?thesis
  proof (cases "st = ILLEGAL")
    case True
    then have "fb_pool b' = fb_pool b1" using assms up
      by (auto simp: fb_put_begin_def Let_def b1_def [unfolded fb_drop_old_def, symmetric] split: if_splits)
    with b1 show ?thesis by simp
  next
    case False
    define b3 where "b3 = foldl (\<lambda>b k. fb_remove k b) (b1\<lparr>fb_ev := ev\<rparr>) ks"
    have "pool_chunk_size (fb_pool b3) = pool_chunk_size (fb_pool b1)"
      by (simp add: b3_def foldl_remove_chunk_size)
    moreover have "\<exists>obj p. pool_allocate t (fb_pool b3) = Inr (obj, p) \<and> b' = b3\<lparr>fb_pool := p\<rparr>"
      using assms up False
      by (simp add: fb_put_begin_def Let_def b1_def [unfolded fb_drop_old_def, symmetric] b3_def [symmetric] split_beta)
        (metis prod.collapse)
    ultimately show ?thesis using b1
      by (auto simp: pool_allocate_def pool_view_def Let_def split: if_splits)
  qed
qed

lemma fb_put_blocking_chunk_size:
  assumes "fb_put_blocking c k t rk lam now b = Inr b'"
  shows "pool_chunk_size (fb_pool b') = pool_chunk_size (fb_pool b)"
proof -
  from assms obtain r b1 where bgn: "fb_put_begin k t rk now b = Inr (r, b1)"
    and fin: "b' = (case r of None \<Rightarrow> b1 | Some obj \<Rightarrow> fb_put_finish c k obj lam now (fb_put_copy obj t b1))"
    by (auto simp: fb_put_blocking_def split: option.splits)
  have "fb_pool b' = fb_pool b1 \<or> (\<exists>obj. fb_pool b' = pool_write obj t (fb_pool b1))"
    using fin by (auto simp: fb_put_finish_def fb_put_copy_def Let_def split: option.splits)
  then show ?thesis using fb_put_begin_chunk_size [OF bgn] by (auto simp: pool_write_def)
qed

lemma fair_put_cases:
  assumes "fair_put a k t b = Inr b'"
  shows "b' = b \<or> (\<exists>c. fb_put_blocking c k t (call_retrieved a) (choose_lambda (call_lambda a) (call_type a)) (call_time a) b = Inr b')"
  using assms by (auto simp: fair_put_def fb_put_def split: option.splits if_splits)

lemma fair_put_law:
  assumes "fb_mem_ok b []" "num_tok t \<le> pool_chunk_size (fb_pool b)" "fair_put a k t b = Inr b'"
  shows "fb_mem_ok b' [] \<and> pool_chunk_size (fb_pool b') = pool_chunk_size (fb_pool b)
     \<and> (b' = b \<or> content b' k \<in> {None, Some (payload t)}) \<and> (\<forall>x. x \<noteq> k \<longrightarrow> content b' x \<in> {None, content b x})"
  using fair_put_cases [OF assms(3)]
proof (elim disjE exE)
  assume "b' = b"
  with assms(1) show ?thesis by simp
next
  fix c
  assume p: "fb_put_blocking c k t (call_retrieved a) (choose_lambda (call_lambda a) (call_type a)) (call_time a) b = Inr b'"
  from fb_put_blocking_cases [OF assms(1,2), of c k "call_retrieved a" "choose_lambda (call_lambda a) (call_type a)" "call_time a"]
    p fb_put_blocking_chunk_size [OF p]
  show ?thesis by (elim disjE exE conjE) auto
qed

lemma new_fair_backend_ok:
  assumes "new_fair_backend md junk = Inr (b :: ('k::linorder, 'p) fair_backend)"
  shows "fb_ok b [] \<and> fb_dict b = [] \<and> undercount b = 0 \<and> py_nth (kv_shape md) 2 = Inr (pool_chunk_size (fb_pool b))"
proof -
  from assms obtain p where p: "new_pool md junk = Inr p"
    "b = \<lparr>fb_dict = [], fb_ev = fe_init (max_local_cache_size md) (of_int (size_per_chunk p)) (1 / 100), fb_pool = p\<rparr>"
    by (auto simp: new_fair_backend_def)
  from p(1) have "py_nth (kv_shape md) 2 = Inr (pool_chunk_size p)"
    by (auto simp: new_pool_def Let_def split: if_splits)
  with new_pool_ok [OF p(1)] p(2) show ?thesis
    by (simp add: fb_ok_def fb_mem_ok_def chunks_of_def heaps_ok_def undercount_def fe_init_def)
qed

text \<open>The recency update touches entries, never their chunks.\<close>

lemma chunks_of_same:
  "wf_dict d \<Longrightarrow> map_of d k = Some e \<Longrightarrow> entry_obj e' = entry_obj e \<Longrightarrow> chunks_of (AList.update k e' d) = chunks_of d"
  by (induction d) (auto simp: chunks_of_def split: if_splits)

lemma update_retrieved_law:
  assumes "fb_mem_ok b []"
  shows "fb_mem_ok (update_retrieved c b (k, t)) [] \<and> fb_pool (update_retrieved c b (k, t)) = fb_pool b
     \<and> content (update_retrieved c b (k, t)) = content b"
proof (cases "map_of (fb_dict b) k")
  case (Some e)
  let ?b = "update_retrieved c b (k, t)" and ?e = "touched t c e"
  have d': "fb_dict ?b = AList.update k ?e (fb_dict b)" and p': "fb_pool ?b = fb_pool b"
    using Some by (simp_all add: update_retrieved_def dhas_map_of fe_update_on_get_def touched_def Let_def)
  have "chunks_of (fb_dict ?b) = chunks_of (fb_dict b)"
    using chunks_of_same [of "fb_dict b" k e ?e] assms Some d' by (simp add: fb_mem_ok_def)
  moreover have "\<forall>(k, e) \<in> set (fb_dict ?b). kv_size (entry_obj e) = size_per_chunk (fb_pool b)"
  proof -
    have "(k, e) \<in> set (fb_dict b)" using map_of_SomeD [OF Some] .
    with assms show ?thesis by (auto simp: d' fb_mem_ok_def dest!: set_update_cases)
  qed
  ultimately have "fb_mem_ok ?b []" using assms d' p' by (simp add: fb_mem_ok_def)
  moreover have "content ?b x = content b x" for x
    using Some by (simp add: content_def d' p' map_of_update)
  ultimately show ?thesis using p' by blast
qed (use assms in \<open>simp add: update_retrieved_def dhas_map_of\<close>)

lemma update_after_get_law:
  assumes "fb_mem_ok b []"
  shows "fb_mem_ok (update_after_get cl kts b) [] \<and> fb_pool (update_after_get cl kts b) = fb_pool b
     \<and> content (update_after_get cl kts b) = content b"
proof -
  have "fb_mem_ok (foldl (update_retrieved c) b (rev kts)) [] \<and> fb_pool (foldl (update_retrieved c) b (rev kts)) = fb_pool b
     \<and> content (foldl (update_retrieved c) b (rev kts)) = content b" for c
    by (rule foldl_invariant) (use assms update_retrieved_law in \<open>auto simp: split_paired_all\<close>)
  then show ?thesis using assms by (simp add: update_after_get_def split: option.splits)
qed

interpretation fair: stable_store "\<lambda>b. fb_mem_ok b []"
    "\<lambda>b p. num_tok (as_tensor tok num es p) \<le> pool_chunk_size (fb_pool b)" content fb_contains
    "\<lambda>a k p. fair_put a k (as_tensor tok num es p)"
    "\<lambda>a k b. Inr (fb_get (call_client a) k b, b)" has_client
  for tok :: "'p \<Rightarrow> int" and num :: "'p \<Rightarrow> int" and es :: int
proof unfold_locales
  fix b :: "('k::linorder, 'p) fair_backend" and k :: 'k
  show "fb_contains k b \<longleftrightarrow> content b k \<noteq> None" by (simp add: fb_contains_def content_def dhas_map_of)
next
  fix b b' :: "('k::linorder, 'p) fair_backend" and k :: 'k and p :: 'p and a :: "'k fair_call"
  assume ok: "fb_mem_ok b []" "num_tok (as_tensor tok num es p) \<le> pool_chunk_size (fb_pool b)"
    "fair_put a k (as_tensor tok num es p) b = Inr b'"
  note law = fair_put_law [OF this]
  from law show "fb_mem_ok b' [] \<and> (\<lambda>p. num_tok (as_tensor tok num es p) \<le> pool_chunk_size (fb_pool b')) =
      (\<lambda>p. num_tok (as_tensor tok num es p) \<le> pool_chunk_size (fb_pool b))" by simp
  from law show "content b' k \<in> {None, content b k, Some p}" by (auto simp: as_tensor_def)
  show "content b' x \<in> {None, content b x}" if "x \<noteq> k" for x using law that by blast
next
  fix b b' :: "('k::linorder, 'p) fair_backend" and k :: 'k and a :: "'k fair_call" and r
  assume "(Inr (fb_get (call_client a) k b, b) :: ('p option \<times> ('k, 'p) fair_backend) result) = Inr (r, b')"
  then show "r \<in> {None, content b k}"
    by (auto simp: fb_get_def content_def split: if_splits option.splits)
qed (auto simp: has_client_def fb_get_def content_def split: option.splits)

section \<open>Properties\<close>


definition demo_backend :: "(nat, int list) fair_backend" where
  "demo_backend = \<lparr>fb_dict = [], fb_ev = (demo_evictor [])\<lparr>max_size := 9\<rparr>, fb_pool = demo_pool\<rparr>"

definition full_tensor :: "int list kv_tensor" where
  "full_tensor = \<lparr>num_tok = 256, numel = 4, element_size = 2, payload = [7]\<rparr>"

lemma demo_backend_ok: "fb_ok demo_backend []" "undercount demo_backend = 0"
  by (simp_all add: fb_ok_def fb_mem_ok_def demo_backend_def pool_ok_def demo_pool_def chunks_of_def
      heaps_ok_def demo_evictor_def fe_init_def undercount_def numeral_2_eq_2)


text \<open>
  A stored tensor is counted with its own size on entry and with the size of a whole chunk when
  it leaves: every stored partial chunk makes the byte count fall behind the bytes held by
  exactly the difference, and nothing ever makes up for it.
\<close>

theorem partial_chunk_undercount:
  assumes "fb_ok b []" "num_tok t \<le> pool_chunk_size (fb_pool b)"
    and "fb_put_blocking c k t rk lam now b = Inr b'" "fb_contains k b'"
  shows "undercount b' = undercount b + of_int (size_per_chunk (fb_pool b) - tensor_size t)"
proof -
  have "content b' k \<noteq> None" using assms(4) by (simp add: fb_contains_def content_def dhas_map_of)
  with fb_put_blocking_cases [OF _ assms(2), of c k rk lam now] assms(1,3) show ?thesis
    by (auto simp: fb_ok_def)
qed

lemma partial_chunk_undercount_witness:
  "\<exists>b'. fb_put_blocking 1 5 (full_tensor\<lparr>numel := 1\<rparr>) [] 1 0 demo_backend = Inr b'
     \<and> undercount b' = 6"
proof -
  define t where "t = full_tensor\<lparr>numel := 1\<rparr>"
  have u: "fe_update_on_put [] 0 2 [] (fb_ev demo_backend) = Inr ((fb_ev demo_backend)\<lparr>cur_size := 2\<rparr>, None, [], LEGAL)"
    by (simp add: fe_update_on_put_def demo_backend_def demo_evictor_def fe_init_def
        evict_below_threshold.simps evict_from_clients.simps)
  have d: "fb_dict demo_backend = []" by (simp add: demo_backend_def)
  have s: "tensor_size t = 2" by (simp add: t_def full_tensor_def tensor_size_def)
  obtain obj p where al: "pool_allocate t (fb_pool demo_backend) = Inr (obj, p)"
    by (simp add: pool_allocate_def pool_view_def demo_backend_def demo_pool_def t_def full_tensor_def)
  define b' where "b' = fb_put_finish 1 5 obj 1 0 (fb_put_copy obj t (demo_backend
      \<lparr>fb_ev := (fb_ev demo_backend)\<lparr>cur_size := 2\<rparr>, fb_pool := p\<rparr>))"
  have put: "fb_put_blocking 1 5 t [] 1 0 demo_backend = Inr b'"
    using u al by (simp add: fb_put_blocking_def fb_put_begin_def d s dhas_def b'_def Let_def)
  have c: "fb_contains 5 b'"
    by (simp add: b'_def fb_put_finish_def fb_contains_def Let_def dict_simps)
  have "num_tok t \<le> pool_chunk_size (fb_pool demo_backend)"
    by (simp add: t_def full_tensor_def demo_backend_def demo_pool_def)
  from partial_chunk_undercount [OF demo_backend_ok(1) this put c] put s demo_backend_ok(2)
  show ?thesis by (simp add: t_def demo_backend_def demo_pool_def)
qed

text \<open>
  A refused replacement loses the old entry and keeps its bytes: when the new tensor for a
  cached key exceeds the limit, the key is gone afterwards although the byte count is the one
  from before, so that it exceeds the bytes held by the size of the lost entry.
\<close>

theorem refused_replacement:
  assumes "fb_mem_ok b []" "map_of (fb_dict b) k = Some e" "0 < entry_size e"
    and "of_int (tensor_size t) > max_size (fb_ev b)"
  shows "\<exists>b'. fb_put_blocking c k t rk lam now b = Inr b' \<and> \<not> fb_contains k b'
     \<and> cur_size (fb_ev b') = cur_size (fb_ev b) \<and> undercount b' = undercount b - entry_size e"
proof -
  let ?b1 = "fb_add_cur (- entry_size e) (fb_remove k b)"
  define b' where "b' = fb_add_cur (entry_size e) ?b1"
  have "fb_put_begin k t rk now b = Inr (None, b')"
    using assms by (simp add: fb_put_begin_def dhas_map_of fe_update_on_put_def b'_def Let_def)
  then have "fb_put_blocking c k t rk lam now b = Inr b'" by (simp add: fb_put_blocking_def)
  moreover have "\<not> fb_contains k b'" by (simp add: b'_def fb_contains_def dict_simps)
  moreover have "undercount b' = undercount b - entry_size e"
    using undercount_remove [OF assms(1,2)] by (simp add: b'_def)
  ultimately show ?thesis by (auto simp: b'_def)
qed

lemma refused_replacement_witness:
  "\<exists>b'. fb_put_blocking 1 5 (full_tensor\<lparr>numel := 9\<rparr>) [] 1 0
       (demo_backend\<lparr>fb_dict := [(5, (demo_entry 1 [(1, 2)])\<lparr>entry_obj := \<lparr>chunk_idx = 0, kv_size = 8, view_tok = 256\<rparr>\<rparr>)],
                     fb_pool := demo_pool\<lparr>free_pool := [1]\<rparr>\<rparr>) = Inr b' \<and> \<not> fb_contains 5 b'"
  using refused_replacement [of "demo_backend\<lparr>fb_dict := [(5, (demo_entry 1 [(1, 2)])\<lparr>entry_obj := \<lparr>chunk_idx = 0, kv_size = 8, view_tok = 256\<rparr>\<rparr>)],
                     fb_pool := demo_pool\<lparr>free_pool := [1]\<rparr>\<rparr>" 5
      "(demo_entry 1 [(1, 2)])\<lparr>entry_obj := \<lparr>chunk_idx = 0, kv_size = 8, view_tok = 256\<rparr>\<rparr>"
      "full_tensor\<lparr>numel := 9\<rparr>" 1 "[]" 1 0]
  by (auto simp: fb_mem_ok_def chunks_of_def pool_ok_def demo_backend_def demo_pool_def demo_entry_def
      entry_size_def full_tensor_def tensor_size_def demo_evictor_def numeral_2_eq_2)

text \<open>
  An eviction releases the shares twice: the evictor subtracts each client's share when it
  selects the key and the backend's \<open>remove\<close> subtracts it again, so that afterwards every
  client is accounted its remaining shares less the share it just lost, cut off at zero.
\<close>

theorem eviction_releases_twice:
  assumes ok: "shares_ok (fb_dict b) (client_sizes (fb_ev b))" and e: "map_of (fb_dict b) k = Some e"
  defines "b' \<equiv> fb_remove k (b\<lparr>fb_ev := evict_entry k e (fb_ev b)\<rparr>)"
  shows "dget_or (client_sizes (fb_ev b')) x 0 = max 0 (total_share (fb_dict b') x - share x e)"
proof -
  note okd = shares_okD [OF ok e]
  define s1 where "s1 = release_shares e (client_sizes (fb_ev b))"
  have s1: "dget_or s1 y 0 = total_share (fb_dict b) y - share y e" for y
    unfolding s1_def by (rule release_shares_get [OF ok e])
  have b': "client_sizes (fb_ev b') = release_shares e s1" "fb_dict b' = AList.delete k (fb_dict b)"
    using e by (simp_all add: b'_def fb_remove_def evict_entry_def s1_def)
  have t': "total_share (fb_dict b') x = total_share (fb_dict b) x - share x e"
    using total_share_delete [OF okd(1) e] b'(2) by simp
  have dist: "distinct (dkeys (access_map e))" using okd(2) by (simp add: entry_ok_def)
  show ?thesis
  proof (cases "dhas (access_map e) x")
    case False
    then have "dget_or (release_shares e s1) x 0 = dget_or s1 x 0"
      using foldl_unshare [OF dist] by (simp add: release_shares_def dhas_def)
    with False s1 t' b'(1) okd(4) [of x] show ?thesis by (simp add: share_def)
  next
    case True
    then have per: "entry_size e / real (length (access_map e)) = share x e" and ne: "access_map e \<noteq> []"
      by (auto simp: share_def dhas_def)
    have "dget_or (release_shares e s1) x 0
        = (if dhas s1 x then max 0 (dget_or s1 x 0 - share x e) else dget_or s1 x 0)"
      using True ne foldl_unshare [OF dist, of "share x e" s1 x]
      unfolding release_shares_def per by (simp add: dhas_def [of "access_map e"])
    moreover have "total_share (fb_dict b) x - share x e = 0" "share x e = 0" if "\<not> dhas s1 x"
    proof -
      have "dhas s1 x = dhas (client_sizes (fb_ev b)) x" by (simp add: s1_def dhas_def flip: set_map)
      with that okd(3) [of x] have "total_share (fb_dict b) x = 0" by (simp add: dhas_map_of)
      with okd(4) [of x] share_nonneg [OF okd(2), of x]
      show "total_share (fb_dict b) x - share x e = 0" "share x e = 0" by simp_all
    qed
    ultimately show ?thesis using b'(1) s1 t' by auto
  qed
qed

lemma eviction_releases_twice_witness:
  "dget_or (client_sizes (fb_ev (fb_remove 5
     (let b = demo_backend\<lparr>fb_dict := [(5, demo_entry 1 [(1, 2)]), (6, demo_entry 1 [(1, 2)])],
              fb_ev := (demo_evictor [])\<lparr>client_sizes := [(1, 2)]\<rparr>\<rparr>
      in b\<lparr>fb_ev := evict_entry 5 (demo_entry 1 [(1, 2)]) (fb_ev b)\<rparr>)))) 1 0 = 0"
proof -
  define b where "b = demo_backend\<lparr>fb_dict := [(5, demo_entry 1 [(1, 2)]), (6, demo_entry 1 [(1, 2)])],
              fb_ev := (demo_evictor [])\<lparr>client_sizes := [(1, 2)]\<rparr>\<rparr>"
  have "shares_ok (fb_dict b) (client_sizes (fb_ev b))"
    by (auto simp: b_def shares_ok_def demo_entry_def entry_ok_def total_share_def share_def entry_size_def
        dget_or_def dhas_def)
  from eviction_releases_twice [OF this, of 5 "demo_entry 1 [(1, 2)]" 1]
  show ?thesis
    by (simp add: b_def [symmetric] Let_def)
      (simp add: b_def total_share_def share_def dhas_def demo_entry_def entry_size_def)
qed

text \<open>
  Two puts of the same key whose locked sections interleave leak a chunk: both find the key absent
  and allocate, both store, the second entry replaces the first, and the first one's chunk is
  from then on neither free nor held by any entry.
\<close>

theorem interleaved_puts_leak:
  fixes c1 c2 :: int and lam1 lam2 now3 now4 :: real
  assumes ok: "fb_ok b []"
    and tok: "num_tok t1 \<le> pool_chunk_size (fb_pool b)" "num_tok t2 \<le> pool_chunk_size (fb_pool b)"
    and 1: "fb_put_begin k t1 rk1 now1 b = Inr (Some o1, b1)"
    and 2: "fb_put_begin k t2 rk2 now2 (fb_put_copy o1 t1 b1) = Inr (Some o2, b2)"
  defines "b3 \<equiv> fb_put_finish c1 k o1 lam1 now3 b2"
  defines "b4 \<equiv> fb_put_finish c2 k o2 lam2 now4 (fb_put_copy o2 t2 b3)"
  shows "chunk_idx o1 \<notin> set (free_pool (fb_pool b4)) \<and> chunk_idx o1 \<notin> set (chunks_of (fb_dict b4))
     \<and> chunk_idx o1 < max_chunk_num (fb_pool b4)"
proof -
  have mem: "fb_mem_ok b []" "heaps_ok (fb_dict b) [] (fb_ev b)" using ok by (simp_all add: fb_ok_def)
  note a1 = fb_begin_alloc [OF mem tok(1) 1]
  have m1: "fb_mem_ok (fb_put_copy o1 t1 b1) [chunk_idx o1]" using a1 by (simp add: fb_copy_mem)
  have h1: "heaps_ok (fb_dict (fb_put_copy o1 t1 b1)) [] (fb_ev (fb_put_copy o1 t1 b1))" using a1 by simp
  have tok2: "num_tok t2 \<le> pool_chunk_size (fb_pool (fb_put_copy o1 t1 b1))" using a1 tok(2) by simp
  note a2 = fb_begin_alloc [OF m1 h1 tok2 2]
  have sz1: "kv_size o1 = size_per_chunk (fb_pool b2)"
  proof -
    from fb_begin_size [OF mem tok(1) 1] fb_begin_size [OF m1 h1 tok2 2] show ?thesis by simp
  qed
  have sz2: "kv_size o2 = size_per_chunk (fb_pool b2)" using fb_begin_size [OF m1 h1 tok2 2] by simp
  have m2: "fb_mem_ok b2 (chunk_idx o1 # [chunk_idx o2])"
    using a2 pool_ok_mset [of "fb_pool b2" "[chunk_idx o2, chunk_idx o1] @ chunks_of (fb_dict b2)"]
    by (simp add: fb_mem_ok_def)
  note f3 = fb_finish_mem [OF m2 sz1, of c1 k lam1 now3, folded b3_def]
  have m3: "fb_mem_ok (fb_put_copy o2 t2 b3) (chunk_idx o2 # [])"
    using f3(1) a2 by (simp add: fb_copy_mem)
  have s3: "kv_size o2 = size_per_chunk (fb_pool (fb_put_copy o2 t2 b3))" using sz2 f3(4) by simp
  note f4 = fb_finish_mem [OF m3 s3, of c2 k lam2 now4, folded b4_def]
  have "fb_mem_ok b4 [chunk_idx o1]"
    using f4(1) f3(3) by (simp add: new_entry_def)
  then have p4: "pool_ok (fb_pool b4) (chunk_idx o1 # chunks_of (fb_dict b4))" by (simp add: fb_mem_ok_def)
  from pool_okD(2-4) [OF p4] show ?thesis by auto
qed

lemma interleaved_puts_leak_witness:
  "\<exists>o1 b1 o2 b2. fb_put_begin 5 full_tensor [] 0 (demo_backend\<lparr>fb_ev := (fb_ev demo_backend)\<lparr>max_size := 16\<rparr>\<rparr>) = Inr (Some o1, b1)
     \<and> fb_put_begin 5 full_tensor [] 0 (fb_put_copy o1 full_tensor b1) = Inr (Some o2, b2)
     \<and> chunk_idx o1 \<notin> set (chunks_of (fb_dict (fb_put_finish 2 5 o2 1 0
          (fb_put_copy o2 full_tensor (fb_put_finish 1 5 o1 1 0 b2)))))"
proof -
  define b where "b = demo_backend\<lparr>fb_ev := (fb_ev demo_backend)\<lparr>max_size := 16\<rparr>\<rparr>"
  have ok: "fb_ok b []"
    using demo_backend_ok(1) heaps_ok_same [of "fb_ev b" "fb_ev demo_backend"]
    by (simp add: b_def fb_ok_def fb_mem_ok_def)
  have put: "fe_update_on_put [] 0 8 [] ev = Inr (ev\<lparr>cur_size := cur_size ev + 8\<rparr>, None, [], LEGAL)"
    if "max_size ev = 16" "cur_size ev \<le> 8" for ev :: "nat fair_evictor"
    using that by (simp add: fe_update_on_put_def evict_below_threshold.simps evict_from_clients.simps)
  have sz: "of_int (tensor_size full_tensor) = (8 :: real)" by (simp add: full_tensor_def tensor_size_def)
  have e0: "max_size (fb_ev b) = 16" "cur_size (fb_ev b) = 0" "fb_dict b = []" "fb_pool b = demo_pool"
    by (simp_all add: b_def demo_backend_def demo_evictor_def fe_init_def)
  define p1 where "p1 = demo_pool\<lparr>free_pool := [0]\<rparr>"
  define o1 where "o1 = \<lparr>chunk_idx = 1, kv_size = 8, view_tok = 256\<rparr>"
  define b1 where "b1 = b\<lparr>fb_ev := (fb_ev b)\<lparr>cur_size := 8\<rparr>, fb_pool := p1\<rparr>"
  have 1: "fb_put_begin 5 full_tensor [] 0 b = Inr (Some o1, b1)"
  proof -
    have "pool_allocate full_tensor demo_pool = Inr (o1, p1)"
      by (simp add: pool_allocate_def pool_view_def demo_pool_def full_tensor_def o1_def p1_def Let_def)
    with put [OF e0(1)] e0 show ?thesis
      by (simp add: fb_put_begin_def dhas_def Let_def sz b1_def del: bindr_Inr_iff)
  qed
  define p2 where "p2 = (pool_write o1 full_tensor p1)\<lparr>free_pool := []\<rparr>"
  define o2 where "o2 = \<lparr>chunk_idx = 0, kv_size = 8, view_tok = 256\<rparr>"
  define b2 where "b2 = b1\<lparr>fb_ev := (fb_ev b)\<lparr>cur_size := 16\<rparr>, fb_pool := p2\<rparr>"
  have 2: "fb_put_begin 5 full_tensor [] 0 (fb_put_copy o1 full_tensor b1) = Inr (Some o2, b2)"
  proof -
    have "pool_allocate full_tensor (pool_write o1 full_tensor p1) = Inr (o2, p2)"
      by (simp add: pool_allocate_def pool_view_def demo_pool_def full_tensor_def o1_def o2_def p1_def p2_def
          pool_write_def Let_def)
    with put [of "(fb_ev b)\<lparr>cur_size := 8\<rparr>"] e0 show ?thesis
      by (simp add: fb_put_begin_def dhas_def Let_def sz b1_def b2_def fb_put_copy_def del: bindr_Inr_iff)
  qed
  have tok: "num_tok full_tensor \<le> pool_chunk_size (fb_pool b)" by (simp add: e0 demo_pool_def full_tensor_def)
  from interleaved_puts_leak [OF ok tok tok 1 2, of 2 1 0 1 1 0] 1 2 show ?thesis
    unfolding b_def [symmetric] by blast
qed

end
