(* ===== verification/Cache_Key.thy ===== *)
theory Cache_Key
  imports Prelude "HOL-Library.List_Lexorder" "HOL-Library.Char_ord" "HOL-Library.Product_Lexorder"
begin

text \<open>
  \<open>CacheEngineKey\<close> of \<open>LMCache/lmcache/utils.py\<close>: the record of format, model, world size, worker
  and chunk hash that names a cached chunk, its order (\<open>dataclass(order=True)\<close> compares the
  fields in turn), its text form and the parser.  \<open>str.split\<close>, \<open>str\<close> of an integer and
  \<open>int\<close> of a string are modelled as the language defines them on ASCII text.
\<close>

section \<open>Strings\<close>

fun split_on :: "char \<Rightarrow> string \<Rightarrow> string list" where
  "split_on c [] = [[]]"
| "split_on c (x # xs) =
     (if x = c then [] # split_on c xs
      else (case split_on c xs of [] \<Rightarrow> [[x]] | w # ws \<Rightarrow> (x # w) # ws))"

fun join_with :: "char \<Rightarrow> string list \<Rightarrow> string" where
  "join_with c [] = []"
| "join_with c [w] = w"
| "join_with c (w # v # ws) = w @ c # join_with c (v # ws)"

definition replace_char :: "char \<Rightarrow> char \<Rightarrow> string \<Rightarrow> string" where
  "replace_char a b s = map (\<lambda>x. if x = a then b else x) s"

definition digit_char :: "nat \<Rightarrow> char" where
  "digit_char n = char_of (48 + n)"

definition is_digit :: "char \<Rightarrow> bool" where
  "is_digit c \<longleftrightarrow> 48 \<le> (of_char c :: nat) \<and> (of_char c :: nat) \<le> 57"

definition digit_val :: "char \<Rightarrow> nat" where
  "digit_val c = of_char c - 48"

fun show_nat :: "nat \<Rightarrow> string" where
  "show_nat n = (if n < 10 then [digit_char n] else show_nat (n div 10) @ [digit_char (n mod 10)])"

declare show_nat.simps [simp del]

definition show_int :: "int \<Rightarrow> string" where
  "show_int i = (if i < 0 then CHR ''-'' # show_nat (nat (- i)) else show_nat (nat i))"

definition is_space :: "char \<Rightarrow> bool" where
  "is_space c \<longleftrightarrow> (of_char c :: nat) \<in> {9, 10, 11, 12, 13, 28, 29, 30, 31, 32, 133, 160}"

definition strip :: "string \<Rightarrow> string" where
  "strip s = rev (dropWhile is_space (rev (dropWhile is_space s)))"

definition read_digits :: "string \<Rightarrow> nat" where
  "read_digits s = foldl (\<lambda>n c. n * 10 + digit_val c) 0 s"

definition parse_nat :: "string \<Rightarrow> nat result" where
  "parse_nat s =
     (let groups = split_on (CHR ''_'') s in
      if list_all (\<lambda>g. g \<noteq> [] \<and> list_all is_digit g) groups
      then Inr (read_digits (concat groups)) else Inl ValueError)"

definition parse_int :: "string \<Rightarrow> int result" where
  "parse_int s =
     (case strip s of
        [] \<Rightarrow> Inl ValueError
      | c # cs \<Rightarrow>
          if c = CHR ''-'' then bindr (parse_nat cs) (\<lambda>n. Inr (- int n))
          else if c = CHR ''+'' then bindr (parse_nat cs) (\<lambda>n. Inr (int n))
          else bindr (parse_nat (c # cs)) (\<lambda>n. Inr (int n)))"

lemma split_on_nonempty [simp]: "split_on c s \<noteq> []"
  by (induction s) (auto split: list.splits)

lemma split_on_plain: "c \<notin> set w \<Longrightarrow> split_on c w = [w]"
  by (induction w) auto

lemma split_on_append: "c \<notin> set w \<Longrightarrow> split_on c (w @ c # s) = w # split_on c s"
  by (induction w) auto

lemma split_on_join:
  "ws \<noteq> [] \<Longrightarrow> \<forall>w \<in> set ws. c \<notin> set w \<Longrightarrow> split_on c (join_with c ws) = ws"
  by (induction c ws rule: join_with.induct) (auto simp: split_on_plain split_on_append)

lemma join_split: "join_with c (split_on c s) = s"
proof (induction s)
  case Nil
  then show ?case by simp
next
  case (Cons x s)
  show ?case
  proof (cases "split_on c s")
    case Nil
    then show ?thesis by simp
  next
    case w: (Cons w ws)
    with Cons show ?thesis by (cases ws) auto
  qed
qed

lemma split_on_pieces: "w \<in> set (split_on c s) \<Longrightarrow> c \<notin> set w"
proof (induction s arbitrary: w)
  case Nil
  then show ?case by simp
next
  case (Cons x s)
  then show ?case by (cases "split_on c s") (auto split: if_splits)
qed

lemma digit_char_simps:
  assumes "n < 10"
  shows "is_digit (digit_char n)" "digit_val (digit_char n) = n"
proof -
  have "of_char (digit_char n) = 48 + n"
    using assms by (simp add: digit_char_def)
  then show "is_digit (digit_char n)" "digit_val (digit_char n) = n"
    using assms by (simp_all add: is_digit_def digit_val_def)
qed

lemma show_nat_digits: "list_all is_digit (show_nat n) \<and> show_nat n \<noteq> []"
proof (induction n rule: show_nat.induct)
  case (1 n)
  then show ?case
    by (subst (1 2) show_nat.simps) (auto simp: digit_char_simps)
qed

lemma read_show_nat: "read_digits (show_nat n) = n"
proof (induction n rule: show_nat.induct)
  case (1 n)
  show ?case
  proof (cases "n < 10")
    case True
    then show ?thesis by (subst show_nat.simps) (simp add: read_digits_def digit_char_simps)
  next
    case False
    have "read_digits (show_nat n) = read_digits (show_nat (n div 10)) * 10 + digit_val (digit_char (n mod 10))"
      using False by (subst show_nat.simps) (simp add: read_digits_def)
    with 1 [OF False] show ?thesis by (simp add: digit_char_simps)
  qed
qed

lemma digit_not:
  assumes "is_digit c"
  shows "c \<noteq> CHR ''_''" "c \<noteq> CHR ''-''" "c \<noteq> CHR ''+''" "c \<noteq> CHR ''@''" "\<not> is_space c"
  using assms by (auto simp: is_digit_def is_space_def)

lemma parse_show_nat: "parse_nat (show_nat n) = Inr n"
proof -
  have "CHR ''_'' \<notin> set (show_nat n)"
    using show_nat_digits [of n] digit_not(1) by (auto simp: list_all_iff)
  then show ?thesis
    using show_nat_digits [of n] by (simp add: parse_nat_def split_on_plain read_show_nat)
qed

lemma strip_id:
  assumes "s \<noteq> []" "\<not> is_space (hd s)" "\<not> is_space (last s)"
  shows "strip s = s"
proof -
  have "dropWhile is_space s = s" using assms by (cases s) auto
  moreover have "dropWhile is_space (rev s) = rev s"
    using assms by (cases s rule: rev_cases) auto
  ultimately show ?thesis by (simp add: strip_def)
qed

lemma parse_show_int: "parse_int (show_int i) = Inr i"
proof -
  define n where "n = nat (if i < 0 then - i else i)"
  have d: "list_all is_digit (show_nat n)" "show_nat n \<noteq> []" using show_nat_digits by auto
  then obtain c cs where c: "show_nat n = c # cs" "is_digit c" by (cases "show_nat n") auto
  have l: "is_digit (last (show_nat n))" using d by (simp add: list_all_iff)
  show ?thesis
  proof (cases "i < 0")
    case True
    then have s: "show_int i = CHR ''-'' # show_nat n" by (simp add: show_int_def n_def)
    have "strip (show_int i) = show_int i"
      using d l digit_not(5) s by (intro strip_id) (auto simp: is_space_def)
    with s parse_show_nat [of n] True show ?thesis by (simp add: parse_int_def n_def)
  next
    case False
    then have s: "show_int i = show_nat n" by (simp add: show_int_def n_def)
    have "strip (show_int i) = show_int i"
      using d l c digit_not(5) s by (intro strip_id) auto
    with s c parse_show_nat [of n] digit_not [OF c(2)] False show ?thesis
      by (simp add: parse_int_def n_def)
  qed
qed

lemma show_int_no_at: "CHR ''@'' \<notin> set (show_int i)"
  using show_nat_digits [of "nat i"] show_nat_digits [of "nat (- i)"] digit_not(4)
  by (auto simp: show_int_def list_all_iff)

section \<open>Keys\<close>

datatype cache_key =
  CacheEngineKey (key_fmt: string) (key_model: string) (key_world_size: int) (key_worker_id: int)
    (key_chunk_hash: string)

definition key_tuple :: "cache_key \<Rightarrow> string \<times> string \<times> int \<times> int \<times> string" where
  "key_tuple k = (key_fmt k, key_model k, key_world_size k, key_worker_id k, key_chunk_hash k)"

lemma key_tuple_inject [simp]: "key_tuple k = key_tuple l \<longleftrightarrow> k = l"
  by (cases k; cases l) (simp add: key_tuple_def)

instantiation cache_key :: linorder
begin

definition less_cache_key :: "cache_key \<Rightarrow> cache_key \<Rightarrow> bool" where
  "less_cache_key k l \<longleftrightarrow> key_tuple k < key_tuple l"

definition less_eq_cache_key :: "cache_key \<Rightarrow> cache_key \<Rightarrow> bool" where
  "less_eq_cache_key k l \<longleftrightarrow> key_tuple k \<le> key_tuple l"

instance
proof
  fix x y z :: cache_key
  show "x < y \<longleftrightarrow> x \<le> y \<and> \<not> y \<le> x"
    unfolding less_cache_key_def less_eq_cache_key_def by (rule less_le_not_le)
  show "x \<le> x" unfolding less_eq_cache_key_def by (rule order_refl)
  show "x \<le> y \<Longrightarrow> y \<le> z \<Longrightarrow> x \<le> z" unfolding less_eq_cache_key_def by (rule order_trans)
  show "x \<le> y \<Longrightarrow> y \<le> x \<Longrightarrow> x = y"
    unfolding less_eq_cache_key_def using order_antisym key_tuple_inject by blast
  show "x \<le> y \<or> y \<le> x" unfolding less_eq_cache_key_def by (rule linear)
qed

end

definition key_to_string :: "cache_key \<Rightarrow> string" where
  "key_to_string k =
     key_fmt k @ ''@'' @ key_model k @ ''@'' @ show_int (key_world_size k) @ ''@''
       @ show_int (key_worker_id k) @ ''@'' @ key_chunk_hash k"

definition key_from_string :: "string \<Rightarrow> cache_key result" where
  "key_from_string s =
     (case split_on (CHR ''@'') s of
        [a, b, c, d, e] \<Rightarrow>
          bindr (parse_int c) (\<lambda>ws. bindr (parse_int d) (\<lambda>wi.
            Inr (CacheEngineKey a b ws wi e)))
      | _ \<Rightarrow> Inl ValueError)"

definition key_plain :: "cache_key \<Rightarrow> bool" where
  "key_plain k \<longleftrightarrow> CHR ''@'' \<notin> set (key_fmt k) \<union> set (key_model k) \<union> set (key_chunk_hash k)"

lemma key_string_parts:
  "key_to_string k = join_with (CHR ''@'')
     [key_fmt k, key_model k, show_int (key_world_size k), show_int (key_worker_id k), key_chunk_hash k]"
  by (simp add: key_to_string_def)

lemma key_from_to_string:
  assumes "key_plain k"
  shows "key_from_string (key_to_string k) = Inr k"
proof -
  have "split_on (CHR ''@'') (key_to_string k) = [key_fmt k, key_model k, show_int (key_world_size k),
      show_int (key_worker_id k), key_chunk_hash k]"
    unfolding key_string_parts using assms show_int_no_at
    by (intro split_on_join) (auto simp: key_plain_def)
  then show ?thesis by (simp add: key_from_string_def parse_show_int)
qed

lemma key_to_string_inject:
  "key_plain k \<Longrightarrow> key_plain l \<Longrightarrow> key_to_string l = key_to_string k \<longleftrightarrow> l = k"
  using key_from_to_string by (metis Inr_inject)

text \<open>
  C28.  Parsing inverts printing for every key whose text fields contain no \<open>@\<close>; for those keys
  the text form is therefore injective.
\<close>

theorem key_string_roundtrip:
  assumes "key_plain k"
  shows "key_from_string (key_to_string k) = Inr k
     \<and> (\<forall>l. key_plain l \<and> key_to_string l = key_to_string k \<longrightarrow> l = k)"
  using assms key_from_to_string key_to_string_inject by blast

lemma key_string_roundtrip_witness:
  "key_from_string (key_to_string (CacheEngineKey ''vllm'' ''m'' 2 0 ''ab12''))
     = Inr (CacheEngineKey ''vllm'' ''m'' 2 0 ''ab12'')"
  using key_string_roundtrip [of "CacheEngineKey ''vllm'' ''m'' 2 0 ''ab12''"]
  by (simp add: key_plain_def)

lemma split_on_length: "length (split_on c s) = Suc (length (filter (\<lambda>x. x = c) s))"
proof (induction s)
  case Nil
  then show ?case by simp
next
  case (Cons x s)
  then show ?case by (cases "split_on c s") auto
qed

lemma key_from_string_long:
  assumes "length (split_on (CHR ''@'') s) > 5"
  shows "key_from_string s = Inl ValueError"
proof -
  define xs where "xs = split_on (CHR ''@'') s"
  have "5 < length xs" using assms by (simp add: xs_def)
  then have "xs \<noteq> [a, b, c, d, e]" for a b c d e by auto
  then show ?thesis unfolding key_from_string_def xs_def [symmetric]
    by (simp split: list.split)
qed

text \<open>
  A model name with an \<open>@\<close> breaks the text form: the printed key never parses.
\<close>

theorem at_sign_breaks_key:
  assumes "CHR ''@'' \<in> set (key_model k)"
  shows "key_from_string (key_to_string k) = Inl ValueError"
proof -
  have "length (filter (\<lambda>x. x = CHR ''@'') (key_model k)) > 0"
    using assms by (simp add: filter_empty_conv)
  then have "length (split_on (CHR ''@'') (key_to_string k)) > 5"
    by (simp add: split_on_length key_to_string_def)
  then show ?thesis by (rule key_from_string_long)
qed

lemma at_sign_breaks_key_witness:
  "key_from_string (key_to_string (CacheEngineKey ''vllm'' ''m@v1'' 2 0 ''ab12'')) = Inl ValueError"
  using at_sign_breaks_key [of "CacheEngineKey ''vllm'' ''m@v1'' 2 0 ''ab12''"] by simp

end
