(* ===== verification/Cache_Engine.thy ===== *)
theory Cache_Engine
  imports Fair_Backend Cache_Key
begin

text \<open>
  \<open>LMCacheEngine\<close> of \<open>LMCache/lmcache/cache_engine.py\<close>: it cuts the tokens of a request into
  chunks, names each chunk by the hash of the whole prefix that ends with it, stores the slices
  of the KV cache under these names and retrieves the longest stored prefix.

  The KV cache of one layer is a pair of tensors \<open>[d0, d1, head_size]\<close>; a row of \<open>head_size\<close>
  numbers is an element of type \<open>'a\<close>, so that a tensor is a list of lists.  In the format
  \<open>vllm\<close> the tokens are dimension 0, in \<open>huggingface\<close> dimension 1.  \<open>hexdigest\<close> of SHA-256 is the
  argument \<open>sha\<close>, from bytes to a string; the operations of the backend are arguments too.
\<close>

section \<open>Tensors\<close>

type_synonym 'a mat = "'a list list"
type_synonym 'a blob = "'a mat list list"

definition mat_cols :: "'a mat \<Rightarrow> nat" where
  "mat_cols m = (case m of [] \<Rightarrow> 0 | r # _ \<Rightarrow> length r)"

definition token_extent :: "string \<Rightarrow> 'a mat \<Rightarrow> nat" where
  "token_extent fmt m = (if fmt = ''vllm'' then length m else mat_cols m)"

definition num_tokens_in_kv :: "string \<Rightarrow> 'a blob \<Rightarrow> nat result" where
  "num_tokens_in_kv fmt kv =
     (if fmt = ''huggingface'' then bindr (py_nth kv 0) (\<lambda>l. bindr (py_nth l 0) (\<lambda>m. Inr (mat_cols m)))
      else if fmt = ''vllm'' then bindr (py_nth kv 0) (\<lambda>l. bindr (py_nth l 0) (\<lambda>m. Inr (length m)))
      else Inl ValueError)"

definition mat_shape :: "'a mat \<Rightarrow> nat \<times> nat" where
  "mat_shape m = (length m, mat_cols m)"

definition stack :: "'a mat list \<Rightarrow> 'a mat list result" where
  "stack ms =
     (case ms of
        [] \<Rightarrow> Inl RuntimeError
      | m # _ \<Rightarrow> if list_all (\<lambda>m'. mat_shape m' = mat_shape m) ms then Inr ms else Inl RuntimeError)"

definition tuple_kv_to_blob :: "'a mat list list \<Rightarrow> 'a blob result" where
  "tuple_kv_to_blob raw =
     bindr (mapM (\<lambda>l. py_nth l 0) raw) (\<lambda>ks. bindr (mapM (\<lambda>l. py_nth l 1) raw) (\<lambda>vs.
       bindr (stack ks) (\<lambda>kb. bindr (stack vs) (\<lambda>vb.
         bindr (stack (kb @ vb)) (\<lambda>_. Inr (map2 (\<lambda>k v. [k, v]) kb vb))))))"

definition blob_to_tuple_kv :: "'a blob \<Rightarrow> 'a mat list list" where
  "blob_to_tuple_kv b = map (\<lambda>l. [l ! 0, l ! 1]) b"

definition drop_tokens :: "string \<Rightarrow> nat \<Rightarrow> 'a mat \<Rightarrow> 'a mat" where
  "drop_tokens fmt n m = (if fmt = ''vllm'' then drop n m else map (drop n) m)"

definition take_tokens :: "string \<Rightarrow> nat \<Rightarrow> 'a mat \<Rightarrow> 'a mat" where
  "take_tokens fmt n m = (if fmt = ''vllm'' then take n m else map (take n) m)"

definition map_blob :: "('a mat \<Rightarrow> 'b mat) \<Rightarrow> 'a blob \<Rightarrow> 'b blob" where
  "map_blob f b = map (map f) b"

definition blob_tokens :: "string \<Rightarrow> 'a blob \<Rightarrow> nat" where
  "blob_tokens fmt b = (case b of (m # _) # _ \<Rightarrow> token_extent fmt m | _ \<Rightarrow> 0)"

definition known_format :: "string \<Rightarrow> bool" where
  "known_format fmt \<longleftrightarrow> fmt = ''vllm'' \<or> fmt = ''huggingface''"

text \<open>\<open>torch.split\<close> of an empty tensor is one empty piece.\<close>

definition slice_kv_at :: "nat \<Rightarrow> nat \<Rightarrow> string \<Rightarrow> 'a blob \<Rightarrow> 'a blob list result" where
  "slice_kv_at c start fmt b =
     (if known_format fmt then
        (let rest = map_blob (drop_tokens fmt start) b; n = blob_tokens fmt rest in
         Inr (if n = 0 then [rest]
              else map (\<lambda>j. map_blob (\<lambda>m. take_tokens fmt c (drop_tokens fmt (j * c) m)) rest)
                     [0..<(n + c - 1) div c]))
      else Inl ValueError)"

definition chunk_kv :: "nat \<Rightarrow> string \<Rightarrow> 'a blob \<Rightarrow> 'a blob list result" where
  "chunk_kv c fmt b = slice_kv_at c 0 fmt b"

definition cat_mats :: "string \<Rightarrow> 'a mat list \<Rightarrow> 'a mat" where
  "cat_mats fmt ms =
     (if fmt = ''vllm'' then concat ms
      else map (\<lambda>h. concat (map (\<lambda>m. m ! h) ms)) [0..<length (hd ms)])"

definition other_shape :: "string \<Rightarrow> 'a blob \<Rightarrow> nat list list" where
  "other_shape fmt b = map (map (\<lambda>m. if fmt = ''vllm'' then mat_cols m else length m)) b"

definition cat_blobs :: "string \<Rightarrow> 'a blob list \<Rightarrow> 'a blob result" where
  "cat_blobs fmt bs =
     (case bs of
        [] \<Rightarrow> Inl RuntimeError
      | b # _ \<Rightarrow>
          if list_all (\<lambda>b'. other_shape fmt b' = other_shape fmt b) bs
          then Inr (map (\<lambda>i. map (\<lambda>j. cat_mats fmt (map (\<lambda>b. b ! i ! j) bs)) [0..<length (b ! i)])
                      [0..<length b])
          else Inl RuntimeError)"

section \<open>Chunk names\<close>

definition ascii_bytes :: "string \<Rightarrow> int list" where
  "ascii_bytes s = map of_char s"

text \<open>Token ids are 64-bit integers, laid out with the least significant byte first.\<close>

definition token_bytes :: "int \<Rightarrow> int list" where
  "token_bytes t = map (\<lambda>i. (t div 256 ^ i) mod 256) [0..<8]"

definition chunk_hash :: "(int list \<Rightarrow> string) \<Rightarrow> string \<Rightarrow> int list \<Rightarrow> string" where
  "chunk_hash sha prefix toks = sha (ascii_bytes prefix @ concat (map token_bytes toks))"

definition chunk_tokens :: "nat \<Rightarrow> 'a list \<Rightarrow> 'a list list result" where
  "chunk_tokens c toks = (if c = 0 then Inl ValueError else Inr (chunk_list c toks))"

fun hash_chain :: "(int list \<Rightarrow> string) \<Rightarrow> string \<Rightarrow> int list list \<Rightarrow> string list" where
  "hash_chain sha prefix [] = []"
| "hash_chain sha prefix (ch # chs) =
     (let h = chunk_hash sha prefix ch in h # hash_chain sha h chs)"

definition prefix_hash :: "(int list \<Rightarrow> string) \<Rightarrow> nat \<Rightarrow> int list list \<Rightarrow> string list" where
  "prefix_hash sha num_skip_chunk chunks = drop num_skip_chunk (hash_chain sha '''' chunks)"

section \<open>The engine\<close>

record 's engine =
  eng_chunk :: nat
  eng_fmt :: string
  eng_model :: string
  eng_world :: int
  eng_worker :: int
  eng_miss :: int
  eng_hit :: int
  eng_hit_rate :: real
  eng_store :: 's

definition new_engine :: "nat \<Rightarrow> string \<Rightarrow> string \<Rightarrow> int \<Rightarrow> int \<Rightarrow> 's \<Rightarrow> 's engine" where
  "new_engine c fmt mdl ws wid s =
     \<lparr>eng_chunk = c, eng_fmt = fmt, eng_model = mdl, eng_world = ws, eng_worker = wid,
      eng_miss = 0, eng_hit = 0, eng_hit_rate = 0, eng_store = s\<rparr>"

definition make_key :: "'s engine \<Rightarrow> string \<Rightarrow> cache_key" where
  "make_key e h = CacheEngineKey (eng_fmt e) (eng_model e) (eng_world e) (eng_worker e) h"

fun first_missing :: "(string \<Rightarrow> bool) \<Rightarrow> (string \<times> nat) list \<Rightarrow> nat \<Rightarrow> (nat \<times> nat) option" where
  "first_missing has [] j = None"
| "first_missing has ((h, idx) # hs) j =
     (if \<not> has h then Some (idx, j) else first_missing has hs (Suc j))"

definition make_chunks_skip_existing ::
  "(int list \<Rightarrow> string) \<Rightarrow> (cache_key \<Rightarrow> 's \<Rightarrow> bool) \<Rightarrow> 's engine \<Rightarrow> int list \<Rightarrow> 'a blob \<Rightarrow> nat
     \<Rightarrow> (string \<times> 'a blob) list result" where
  "make_chunks_skip_existing sha contains e toks kv skip =
     bindr (chunk_tokens (eng_chunk e) toks) (\<lambda>chs.
       let hs = prefix_hash sha skip chs; c = eng_chunk e in
       bindr (num_tokens_in_kv (eng_fmt e) kv) (\<lambda>n.
         case first_missing (\<lambda>h. contains (make_key e h) (eng_store e))
                (zip hs (map (\<lambda>j. j * c) [0..<(n + c - 1) div c])) 0 of
           None \<Rightarrow> Inr []
         | Some (start_tok, start_chunk) \<Rightarrow>
             bindr (slice_kv_at c start_tok (eng_fmt e) kv) (\<lambda>kvs. Inr (zip (drop start_chunk hs) kvs))))"

definition make_chunks ::
  "(int list \<Rightarrow> string) \<Rightarrow> (cache_key \<Rightarrow> 's \<Rightarrow> bool) \<Rightarrow> 's engine \<Rightarrow> int list \<Rightarrow> 'a blob \<Rightarrow> nat \<Rightarrow> bool
     \<Rightarrow> (string \<times> 'a blob) list result" where
  "make_chunks sha contains e toks kv skip skip_existing =
     (if skip_existing then make_chunks_skip_existing sha contains e toks kv skip
      else assert_py (skip = 0)
        (bindr (chunk_tokens (eng_chunk e) toks) (\<lambda>chs.
           bindr (chunk_kv (eng_chunk e) (eng_fmt e) kv) (\<lambda>kvs. Inr (zip (prefix_hash sha 0 chs) kvs)))))"

definition count_true :: "bool list \<Rightarrow> nat" where
  "count_true m = length (filter (\<lambda>b. b) m)"

definition store ::
  "(int list \<Rightarrow> string) \<Rightarrow> (cache_key \<Rightarrow> 's \<Rightarrow> bool) \<Rightarrow> ('e \<Rightarrow> cache_key \<Rightarrow> 'a blob \<Rightarrow> 's \<Rightarrow> 's result) \<Rightarrow> (nat \<Rightarrow> 'e)
     \<Rightarrow> int list \<Rightarrow> 'a mat list list \<Rightarrow> bool list option \<Rightarrow> bool \<Rightarrow> 's engine \<Rightarrow> (nat \<times> 's engine) result" where
  "store sha contains put env toks raw msk skip_existing e =
     bindr (num_tokens_in_kv (eng_fmt e) raw) (\<lambda>n.
       let m = (case msk of None \<Rightarrow> replicate (length toks) True | Some m \<Rightarrow> m);
           skip_tok = length m - count_true m
       in assert_py (length toks = length m)
         (if eng_chunk e = 0 then Inl RuntimeError
          else (let skip_chunk = skip_tok div eng_chunk e in
            assert_py (skip_tok = skip_chunk * eng_chunk e)
              (assert_py (length toks = n + skip_tok)
                (bindr (tuple_kv_to_blob raw) (\<lambda>kv.
                   bindr (make_chunks sha contains e toks kv skip_chunk skip_existing) (\<lambda>hkvs.
                     bindr (batched_put put env (map (\<lambda>(h, v). (make_key e h, v)) hkvs) (eng_store e)) (\<lambda>(k, s).
                       Inr (k, e\<lparr>eng_store := s\<rparr>)))))))))"

record 'a retrieval =
  ret_kv :: "'a blob"
  ret_mask :: "bool list"
  ret_keys :: "cache_key list"
  ret_attribution :: "(bool \<times> int list \<times> int) list"

definition attributed :: "nat \<Rightarrow> nat \<Rightarrow> (bool \<times> int list) list \<Rightarrow> (bool \<times> int list \<times> int) list" where
  "attributed c extra info =
     map (\<lambda>(i, was_new, old). (was_new, old, if i = 0 then int c - int extra else int c)) (zip [0..<length info] info)"

definition retrieve_finish ::
  "nat \<Rightarrow> nat \<Rightarrow> int list \<Rightarrow> (cache_key \<times> 'a blob) list \<Rightarrow> (bool \<times> int list) list \<Rightarrow> 's engine
     \<Rightarrow> ('a retrieval \<times> 's engine) result" where
  "retrieve_finish skip_tok skip_chunk toks got info e =
     (if \<not> known_format (eng_fmt e) then Inl ValueError
      else if got = [] then
        Inr (\<lparr>ret_kv = [], ret_mask = replicate (length toks) False, ret_keys = [], ret_attribution = []\<rparr>,
             e\<lparr>eng_miss := eng_miss e + int (length toks)\<rparr>)
      else
        (let c = eng_chunk e; extra = skip_tok - skip_chunk * c in
         bindr (slice_kv_at c extra (eng_fmt e) (snd (hd got))) (\<lambda>pieces.
         bindr (cat_blobs (eng_fmt e) (hd pieces # map snd (tl got))) (\<lambda>kv.
           let n = blob_tokens (eng_fmt e) kv;
               hit = eng_hit e + int n;
               miss = eng_miss e + (int (length toks) - int skip_tok - int n)
           in if miss + hit = 0 then Inl ZeroDivisionError
              else Inr (\<lparr>ret_kv = blob_to_tuple_kv kv,
                         ret_mask = map (\<lambda>i. skip_tok \<le> i \<and> i < skip_tok + n) [0..<length toks],
                         ret_keys = map fst got,
                         ret_attribution = attributed c extra info\<rparr>,
                        e\<lparr>eng_hit := hit, eng_miss := miss,
                          eng_hit_rate := real_of_int hit / real_of_int (miss + hit)\<rparr>)))))"

definition retrieve ::
  "(int list \<Rightarrow> string) \<Rightarrow> (cache_key \<Rightarrow> 's \<Rightarrow> bool) \<Rightarrow> ('e \<Rightarrow> cache_key \<Rightarrow> 's \<Rightarrow> ('a blob option \<times> 's) result)
     \<Rightarrow> (cache_key list \<Rightarrow> 's \<Rightarrow> (bool \<times> int list) list) option \<Rightarrow> (cache_key list \<Rightarrow> 's \<Rightarrow> 's result) \<Rightarrow> (nat \<Rightarrow> 'e)
     \<Rightarrow> int list \<Rightarrow> bool list option \<Rightarrow> 's engine \<Rightarrow> ('a retrieval \<times> 's engine) result" where
  "retrieve sha contains get attr upd env toks msk e =
     (let skip_tok = (case msk of None \<Rightarrow> 0 | Some m \<Rightarrow> length m - count_true m) in
      if msk \<noteq> None \<and> eng_chunk e = 0 then Inl RuntimeError
      else (let skip_chunk = (case msk of None \<Rightarrow> 0 | Some m \<Rightarrow> skip_tok div eng_chunk e) in
        bindr (chunk_tokens (eng_chunk e) toks) (\<lambda>chs.
          let keys = map (make_key e) (prefix_hash sha skip_chunk chs) in
          bindr (take_until_missing contains get env keys (eng_store e)) (\<lambda>(got, s1).
            let info = (case attr of
                          None \<Rightarrow> []
                        | Some info_of \<Rightarrow> if got = [] then [] else info_of (map fst got) s1)
            in bindr (upd (map fst got) s1) (\<lambda>s2.
                 retrieve_finish skip_tok skip_chunk toks got info (e\<lparr>eng_store := s2\<rparr>))))))"

fun lookup_loop :: "(string \<Rightarrow> bool) \<Rightarrow> nat \<Rightarrow> nat \<Rightarrow> string list \<Rightarrow> nat \<Rightarrow> nat" where
  "lookup_loop has c len [] cur = cur"
| "lookup_loop has c len (h # hs) cur =
     (if \<not> has h then cur else lookup_loop has c len hs (min (cur + c) len))"

definition lookup ::
  "(int list \<Rightarrow> string) \<Rightarrow> (cache_key \<Rightarrow> 's \<Rightarrow> bool) \<Rightarrow> int list \<Rightarrow> 's engine \<Rightarrow> nat result" where
  "lookup sha contains toks e =
     bindr (chunk_tokens (eng_chunk e) toks) (\<lambda>chs.
       Inr (lookup_loop (\<lambda>h. contains (make_key e h) (eng_store e)) (eng_chunk e) (length toks)
              (prefix_hash sha 0 chs) 0))"

section \<open>The KV cache of a model\<close>

text \<open>
  A model of \<open>mdl_layers\<close> layers and \<open>mdl_heads\<close> heads determines the KV cache of a token list: what
  layer \<open>l\<close> holds for position \<open>i\<close> (\<open>j = 0\<close> the key, \<open>j = 1\<close> the value) depends on the tokens up to
  and including \<open>i\<close>.  \<open>kv_blob mdl fmt toks a b\<close> is the cache of the positions \<open>a\<close> to \<open>b - 1\<close>.
\<close>

record 'a kv_model =
  mdl_layers :: nat
  mdl_heads :: nat
  mdl_kv :: "nat \<Rightarrow> nat \<Rightarrow> int list \<Rightarrow> 'a list"

definition model_ok :: "'a kv_model \<Rightarrow> bool" where
  "model_ok mdl \<longleftrightarrow> 0 < mdl_layers mdl \<and> 0 < mdl_heads mdl
     \<and> (\<forall>l j ts. length (mdl_kv mdl l j ts) = mdl_heads mdl)"

definition mat_of :: "string \<Rightarrow> nat \<Rightarrow> 'a list list \<Rightarrow> 'a mat" where
  "mat_of fmt nh cols =
     (if fmt = ''vllm'' then cols else map (\<lambda>h. map (\<lambda>col. col ! h) cols) [0..<nh])"

definition kv_mat :: "'a kv_model \<Rightarrow> string \<Rightarrow> int list \<Rightarrow> nat \<Rightarrow> nat \<Rightarrow> nat \<Rightarrow> nat \<Rightarrow> 'a mat" where
  "kv_mat mdl fmt toks a b l j =
     mat_of fmt (mdl_heads mdl) (map (\<lambda>i. mdl_kv mdl l j (take (Suc i) toks)) [a..<b])"

definition kv_blob :: "'a kv_model \<Rightarrow> string \<Rightarrow> int list \<Rightarrow> nat \<Rightarrow> nat \<Rightarrow> 'a blob" where
  "kv_blob mdl fmt toks a b =
     map (\<lambda>l. [kv_mat mdl fmt toks a b l 0, kv_mat mdl fmt toks a b l 1]) [0..<mdl_layers mdl]"

lemma take_upt_min: "take n [a..<b] = [a..<min b (a + n)]"
  by (rule nth_equalityI) auto

lemma mat_of_drop: "drop_tokens fmt n (mat_of fmt nh cols) = mat_of fmt nh (drop n cols)"
  by (simp add: drop_tokens_def mat_of_def drop_map)

lemma mat_of_take: "take_tokens fmt n (mat_of fmt nh cols) = mat_of fmt nh (take n cols)"
  by (simp add: take_tokens_def mat_of_def take_map)

lemma mat_of_shape:
  "\<forall>c \<in> set cols. length c = nh \<Longrightarrow> 0 < nh \<Longrightarrow>
     mat_shape (mat_of fmt nh cols) = (if fmt = ''vllm'' then (length cols, if cols = [] then 0 else nh) else (nh, length cols))"
  by (cases cols) (auto simp: mat_shape_def mat_of_def mat_cols_def upt_conv_Cons)

lemma kv_mat_drop: "drop_tokens fmt n (kv_mat mdl fmt toks a b l j) = kv_mat mdl fmt toks (a + n) b l j"
  by (simp add: kv_mat_def mat_of_drop drop_map add.commute)

lemma kv_mat_take: "take_tokens fmt n (kv_mat mdl fmt toks a b l j) = kv_mat mdl fmt toks a (min b (a + n)) l j"
  by (simp add: kv_mat_def mat_of_take take_map take_upt_min)

lemma kv_blob_drop: "map_blob (drop_tokens fmt n) (kv_blob mdl fmt toks a b) = kv_blob mdl fmt toks (a + n) b"
  by (simp add: map_blob_def kv_blob_def kv_mat_drop)

lemma kv_blob_take: "map_blob (take_tokens fmt n) (kv_blob mdl fmt toks a b) = kv_blob mdl fmt toks a (min b (a + n))"
  by (simp add: map_blob_def kv_blob_def kv_mat_take)

lemma kv_mat_shape:
  assumes "model_ok mdl"
  shows "mat_shape (kv_mat mdl fmt toks a b l j) =
     (if fmt = ''vllm'' then (b - a, if b \<le> a then 0 else mdl_heads mdl) else (mdl_heads mdl, b - a))"
  using assms by (simp add: kv_mat_def model_ok_def mat_of_shape)

lemma kv_mat_extent:
  assumes "model_ok mdl" "known_format fmt"
  shows "token_extent fmt (kv_mat mdl fmt toks a b l j) = b - a"
  using kv_mat_shape [OF assms(1), of fmt toks a b l j] assms(2)
  by (auto simp: mat_shape_def token_extent_def known_format_def)

lemma kv_blob_Cons:
  assumes "model_ok mdl"
  obtains ls where "kv_blob mdl fmt toks a b = [kv_mat mdl fmt toks a b 0 0, kv_mat mdl fmt toks a b 0 1] # ls"
  using assms by (simp add: kv_blob_def model_ok_def upt_conv_Cons)

lemma blob_tokens_kv: "model_ok mdl \<Longrightarrow> known_format fmt \<Longrightarrow> blob_tokens fmt (kv_blob mdl fmt toks a b) = b - a"
  by (rule kv_blob_Cons [of mdl fmt toks a b]) (simp_all add: blob_tokens_def kv_mat_extent)

lemma num_tokens_kv: "model_ok mdl \<Longrightarrow> known_format fmt \<Longrightarrow> num_tokens_in_kv fmt (kv_blob mdl fmt toks a b) = Inr (b - a)"
  by (rule kv_blob_Cons [of mdl fmt toks a b])
    (use kv_mat_extent [of mdl fmt toks a b 0 0] in
      \<open>auto simp: num_tokens_in_kv_def py_nth_def known_format_def token_extent_def\<close>)

lemma stack_all: "ms \<noteq> [] \<Longrightarrow> \<forall>m \<in> set ms. mat_shape m = s \<Longrightarrow> stack ms = Inr ms"
  by (cases ms) (auto simp: stack_def list_all_iff)

lemma tuple_kv_to_blob_kv:
  assumes "model_ok mdl"
  shows "tuple_kv_to_blob (kv_blob mdl fmt toks a b) = Inr (kv_blob mdl fmt toks a b)"
proof -
  define s where "s = (if fmt = ''vllm'' then (b - a, if b \<le> a then 0 else mdl_heads mdl) else (mdl_heads mdl, b - a))"
  let ?k = "\<lambda>j. map (\<lambda>l. kv_mat mdl fmt toks a b l j) [0..<mdl_layers mdl]"
  have ne: "?k j \<noteq> []" for j using assms by (simp add: model_ok_def)
  have sh: "\<forall>m \<in> set (?k j). mat_shape m = s" for j using kv_mat_shape [OF assms] by (simp add: s_def)
  have st: "stack (?k 0) = Inr (?k 0)" "stack (?k 1) = Inr (?k 1)" "stack (?k 0 @ ?k 1) = Inr (?k 0 @ ?k 1)"
    using sh by (intro stack_all [of _ s]; use ne in auto)+
  have "mapM (\<lambda>l. py_nth l 0) (kv_blob mdl fmt toks a b) = Inr (map (\<lambda>l. l ! 0) (kv_blob mdl fmt toks a b))"
    "mapM (\<lambda>l. py_nth l 1) (kv_blob mdl fmt toks a b) = Inr (map (\<lambda>l. l ! 1) (kv_blob mdl fmt toks a b))"
    by (intro mapM_map; auto simp: kv_blob_def py_nth_def)+
  moreover have "map (\<lambda>l. l ! 0) (kv_blob mdl fmt toks a b) = ?k 0" "map (\<lambda>l. l ! 1) (kv_blob mdl fmt toks a b) = ?k 1"
    by (simp_all add: kv_blob_def)
  ultimately show ?thesis using st
    by (simp add: tuple_kv_to_blob_def del: bindr_Inr_iff) (simp add: kv_blob_def zip_map_map zip_same_conv_map)
qed

lemma blob_to_tuple_kv_kv: "blob_to_tuple_kv (kv_blob mdl fmt toks a b) = kv_blob mdl fmt toks a b"
  by (simp add: blob_to_tuple_kv_def kv_blob_def)

lemma slice_kv_at_kv:
  assumes "model_ok mdl" "known_format fmt"
  shows "slice_kv_at c n fmt (kv_blob mdl fmt toks a b) =
     Inr (if b \<le> a + n then [kv_blob mdl fmt toks (a + n) b]
          else map (\<lambda>j. kv_blob mdl fmt toks (a + n + j * c) (min b (a + n + j * c + c)))
                 [0..<(b - (a + n) + c - 1) div c])"
proof -
  have piece: "map_blob (\<lambda>m. take_tokens fmt c (drop_tokens fmt k m)) (kv_blob mdl fmt toks i b)
      = kv_blob mdl fmt toks (i + k) (min b (i + k + c))" for i k
    by (simp add: map_blob_def kv_blob_def kv_mat_take kv_mat_drop)
  show ?thesis using assms
    by (simp add: slice_kv_at_def kv_blob_drop blob_tokens_kv piece del: upt_Suc)
qed

lemma kv_blob_same_prefix:
  assumes "take b toks = take b toks'"
  shows "kv_blob mdl fmt toks a b = kv_blob mdl fmt toks' a b"
proof -
  have "take (Suc i) toks = take (Suc i) toks'" if "i < b" for i
    using assms that by (metis Suc_leI min.absorb1 take_take)
  then have "map (\<lambda>i. mdl_kv mdl l j (take (Suc i) toks)) [a..<b] = map (\<lambda>i. mdl_kv mdl l j (take (Suc i) toks')) [a..<b]" for l j
    by (intro map_cong) simp_all
  then have "kv_mat mdl fmt toks a b l j = kv_mat mdl fmt toks' a b l j" for l j
    unfolding kv_mat_def by (rule arg_cong)
  then show ?thesis by (simp add: kv_blob_def)
qed

text \<open>Adjacent pieces put together are the whole.\<close>

lemma cat_mats_mat_of:
  assumes "css \<noteq> []"
  shows "cat_mats fmt (map (mat_of fmt nh) css) = mat_of fmt nh (concat css)"
proof (cases "fmt = ''vllm''")
  case False
  with assms show ?thesis by (cases css) (simp_all add: cat_mats_def mat_of_def map_concat comp_def)
qed (simp add: cat_mats_def mat_of_def map_idI)

lemma concat_upt:
  assumes "\<And>j. j < n \<Longrightarrow> g j \<le> g (Suc j)"
  shows "concat (map (\<lambda>j. [g j..<g (Suc j)]) [0..<n]) = [g 0..<g n]"
  using assms
proof (induction n)
  case (Suc n)
  have mono: "g 0 \<le> g n" using Suc.prems by (induction n) (auto intro: le_trans)
  have "[g 0..<g (Suc n)] = [g 0..<g n] @ [g n..<g (Suc n)]"
    using upt_add_eq_append [of "g 0" "g n" "g (Suc n) - g n"] mono Suc.prems [of n] by simp
  with Suc show ?case by simp
qed simp

lemma other_shape_kv:
  assumes "model_ok mdl" "a < b"
  shows "other_shape fmt (kv_blob mdl fmt toks a b) = replicate (mdl_layers mdl) [mdl_heads mdl, mdl_heads mdl]"
proof -
  have "(if fmt = ''vllm'' then mat_cols (kv_mat mdl fmt toks a b l j) else length (kv_mat mdl fmt toks a b l j)) = mdl_heads mdl" for l j
    using kv_mat_shape [OF assms(1), of fmt toks a b l j] assms(2) by (auto simp: mat_shape_def split: if_splits)
  then show ?thesis by (simp add: other_shape_def kv_blob_def map_replicate_const comp_def)
qed

lemma kv_blob_nth: "l < mdl_layers mdl \<Longrightarrow> kv_blob mdl fmt toks a b ! l = [kv_mat mdl fmt toks a b l 0, kv_mat mdl fmt toks a b l 1]"
  by (simp add: kv_blob_def)

lemma cat_mats_kv:
  assumes "0 < n" "\<And>j. j < n \<Longrightarrow> g j \<le> g (Suc j)"
  shows "cat_mats fmt (map (\<lambda>i. kv_mat mdl fmt toks (g i) (g (Suc i)) l j) [0..<n]) = kv_mat mdl fmt toks (g 0) (g n) l j"
proof -
  let ?f = "\<lambda>i. mdl_kv mdl l j (take (Suc i) toks)"
  let ?css = "map (\<lambda>i. map ?f [g i..<g (Suc i)]) [0..<n]"
  have "map (\<lambda>i. kv_mat mdl fmt toks (g i) (g (Suc i)) l j) [0..<n] = map (mat_of fmt (mdl_heads mdl)) ?css"
    by (simp add: kv_mat_def)
  moreover have "concat ?css = map ?f (concat (map (\<lambda>i. [g i..<g (Suc i)]) [0..<n]))"
    by (simp add: map_concat comp_def)
  ultimately show ?thesis using cat_mats_mat_of [of ?css] assms(1) concat_upt [of n g, OF assms(2)]
    by (simp add: kv_mat_def comp_def)
qed

lemma cat_blobs_kv:
  assumes "model_ok mdl" "0 < n" "\<And>j. j < n \<Longrightarrow> g j \<le> g (Suc j)" "n = 1 \<or> (\<forall>j < n. g j < g (Suc j))"
  shows "cat_blobs fmt (map (\<lambda>j. kv_blob mdl fmt toks (g j) (g (Suc j))) [0..<n]) = Inr (kv_blob mdl fmt toks (g 0) (g n))"
proof -
  let ?b = "\<lambda>j. kv_blob mdl fmt toks (g j) (g (Suc j))"
  define bs where "bs = map ?b [0..<n]"
  have bs: "bs = ?b 0 # map ?b [1..<n]" using assms(2) by (simp add: bs_def upt_conv_Cons)
  have same: "list_all (\<lambda>b'. other_shape fmt b' = other_shape fmt (?b 0)) bs"
  proof (cases "n = 1")
    case False
    with assms(4) have "\<forall>j < n. g j < g (Suc j)" by blast
    with assms(1,2) show ?thesis by (simp add: bs_def list_all_iff other_shape_kv)
  qed (simp add: bs_def)
  define r where "r = map (\<lambda>i. map (\<lambda>j. cat_mats fmt (map (\<lambda>b. b ! i ! j) bs)) [0..<length (?b 0 ! i)]) [0..<length (?b 0)]"
  have "r = kv_blob mdl fmt toks (g 0) (g n)"
  proof (rule nth_equalityI)
    show "length r = length (kv_blob mdl fmt toks (g 0) (g n))" by (simp add: r_def kv_blob_def)
    fix i assume "i < length r"
    then have i: "i < mdl_layers mdl" by (simp add: r_def kv_blob_def)
    have m: "map (\<lambda>b. b ! i ! 0) bs = map (\<lambda>k. kv_mat mdl fmt toks (g k) (g (Suc k)) i 0) [0..<n]"
      "map (\<lambda>b. b ! i ! Suc 0) bs = map (\<lambda>k. kv_mat mdl fmt toks (g k) (g (Suc k)) i 1) [0..<n]"
      by (simp_all add: bs_def kv_blob_nth [OF i])
    have len: "length (?b 0) = mdl_layers mdl" "length (?b 0 ! i) = Suc (Suc 0)"
      by (simp add: kv_blob_def) (simp add: kv_blob_nth [OF i])
    have "r ! i = map (\<lambda>j. cat_mats fmt (map (\<lambda>b. b ! i ! j) bs)) [0..<Suc (Suc 0)]"
      using i len by (simp add: r_def del: upt_Suc)
    also have "\<dots> = map (\<lambda>j. cat_mats fmt (map (\<lambda>b. b ! i ! j) bs)) [0, Suc 0]" by simp
    also have "\<dots> = kv_blob mdl fmt toks (g 0) (g n) ! i"
      by (simp add: m kv_blob_nth [OF i] cat_mats_kv [of n g, OF assms(2,3)])
    finally show "r ! i = kv_blob mdl fmt toks (g 0) (g n) ! i" .
  qed
  moreover have "cat_blobs fmt bs = Inr r" using same by (simp add: cat_blobs_def r_def bs)
  ultimately show ?thesis by (simp add: bs_def)
qed

section \<open>Chunk names are faithful\<close>

fun chain_inputs :: "(int list \<Rightarrow> string) \<Rightarrow> string \<Rightarrow> int list list \<Rightarrow> int list list" where
  "chain_inputs sha prefix [] = []"
| "chain_inputs sha prefix (ch # chs) =
     (ascii_bytes prefix @ concat (map token_bytes ch)) # chain_inputs sha (chunk_hash sha prefix ch) chs"

definition hex_digest :: "string \<Rightarrow> bool" where
  "hex_digest s \<longleftrightarrow> length s = 64 \<and> set s \<subseteq> set ''0123456789abcdef''"

text \<open>The hash of the last of a list of chunks.\<close>

definition chain_end :: "(int list \<Rightarrow> string) \<Rightarrow> int list list \<Rightarrow> string" where
  "chain_end sha chs = foldl (chunk_hash sha) '''' chs"

lemma length_hash_chain [simp]: "length (hash_chain sha p chs) = length chs"
  by (induction chs arbitrary: p) (simp_all add: Let_def)

lemma hash_chain_nth: "i < length chs \<Longrightarrow> hash_chain sha p chs ! i = foldl (chunk_hash sha) p (take (Suc i) chs)"
proof (induction chs arbitrary: p i)
  case (Cons ch chs)
  then show ?case by (cases i) (simp_all add: Let_def)
qed simp

lemma hash_chain_end: "i < length chs \<Longrightarrow> hash_chain sha '''' chs ! i = chain_end sha (take (Suc i) chs)"
  by (simp add: hash_chain_nth chain_end_def)

lemma chain_inputs_take: "set (chain_inputs sha p (take n chs)) \<subseteq> set (chain_inputs sha p chs)"
proof (induction chs arbitrary: p n)
  case (Cons ch chs)
  then show ?case by (cases n) auto
qed simp

lemma chain_inputs_snoc:
  "chain_inputs sha p (chs @ [ch]) =
     chain_inputs sha p chs @ [ascii_bytes (foldl (chunk_hash sha) p chs) @ concat (map token_bytes ch)]"
  by (induction chs arbitrary: p) simp_all

lemma length_token_bytes [simp]: "length (token_bytes t) = 8"
  by (simp add: token_bytes_def)

lemma token_bytes_inj:
  assumes "token_bytes t = token_bytes u" "0 \<le> t" "t < 2 ^ 56" "0 \<le> u" "u < 2 ^ 56"
  shows "t = u"
proof -
  have dig: "(t div 256 ^ i) mod 256 = (u div 256 ^ i) mod 256" if "i < 8" for i
  proof -
    have "token_bytes x ! i = (x div 256 ^ i) mod 256" for x using that by (simp add: token_bytes_def del: upt_Suc)
    with assms(1) show ?thesis by metis
  qed
  have low: "x mod 256 ^ i = y mod 256 ^ i"
    if "\<And>k. k < i \<Longrightarrow> (x div 256 ^ k) mod 256 = (y div 256 ^ k) mod 256" for x y :: int and i
    using that
  proof (induction i)
    case (Suc i)
    have split: "z mod 256 ^ Suc i = z mod 256 ^ i + 256 ^ i * ((z div 256 ^ i) mod 256)" for z :: int
      using zmod_zmult2_eq [of 256 z "256 ^ i"] by (simp add: mult.commute)
    from Suc show ?case by (simp only: split)
  qed simp
  have "t mod 256 ^ 8 = u mod 256 ^ 8" using dig by (rule low)
  moreover have "t mod 256 ^ 8 = t" "u mod 256 ^ 8 = u" using assms(2-5) by (simp_all add: mod_pos_pos_trivial)
  ultimately show ?thesis by simp
qed

definition valid_tokens :: "int list \<Rightarrow> bool" where
  "valid_tokens ts \<longleftrightarrow> (\<forall>t \<in> set ts. 0 \<le> t \<and> t < 2 ^ 56)"

lemma concat_token_bytes_inj:
  "concat (map token_bytes ts) = concat (map token_bytes us) \<Longrightarrow> valid_tokens ts \<Longrightarrow> valid_tokens us \<Longrightarrow> ts = us"
proof (induction ts arbitrary: us)
  case Nil
  then show ?case by (cases us) (auto dest: arg_cong [of _ _ length])
next
  case (Cons t ts)
  then obtain u us' where us: "us = u # us'"
    by (cases us) (auto dest: arg_cong [of _ _ length])
  with Cons.prems(1) have "token_bytes t = token_bytes u" "concat (map token_bytes ts) = concat (map token_bytes us')"
    by (simp_all add: append_eq_append_conv)
  with Cons us show ?case using token_bytes_inj [of t u] by (simp add: valid_tokens_def)
qed

lemma ascii_bytes_inj: "ascii_bytes s = ascii_bytes s' \<Longrightarrow> s = s'"
  by (simp add: ascii_bytes_def inj_map_eq_map inj_def)

definition sha_ok :: "(int list \<Rightarrow> string) \<Rightarrow> int list set \<Rightarrow> bool" where
  "sha_ok sha S \<longleftrightarrow> inj_on sha S \<and> (\<forall>x \<in> S. hex_digest (sha x))"

lemma sha_ok_mono: "sha_ok sha S \<Longrightarrow> T \<subseteq> S \<Longrightarrow> sha_ok sha T"
  by (auto simp: sha_ok_def intro: inj_on_subset)

text \<open>
  A digest never begins the bytes of a valid token: the eighth byte of a token is zero, that of a
  digest is a hexadecimal digit.
\<close>

lemma digest_not_tokens:
  assumes "hex_digest s" "valid_tokens ts" "ts \<noteq> []"
  shows "ascii_bytes s @ bs \<noteq> concat (map token_bytes ts)"
proof
  assume eq: "ascii_bytes s @ bs = concat (map token_bytes ts)"
  obtain t ts' where ts: "ts = t # ts'" using assms(3) by (cases ts) auto
  have "(ascii_bytes s @ bs) ! 7 = of_char (s ! 7)"
    using assms(1) by (simp add: ascii_bytes_def hex_digest_def nth_append)
  moreover have "s ! 7 \<in> set ''0123456789abcdef''"
    using assms(1) nth_mem [of 7 s] by (auto simp only: hex_digest_def)
  then have "of_char (s ! 7) \<noteq> (0 :: int)" by (auto simp: of_char_def)
  moreover have "concat (map token_bytes ts) ! 7 = 0"
  proof -
    have "concat (map token_bytes ts) ! 7 = token_bytes t ! 7" by (simp add: ts nth_append)
    also have "\<dots> = (t div 256 ^ 7) mod 256" by (simp add: token_bytes_def del: upt_Suc)
    also have "t div 256 ^ 7 = 0" using assms(2) ts by (simp add: valid_tokens_def div_pos_pos_trivial)
    finally show ?thesis by simp
  qed
  ultimately show False using eq by simp
qed

lemma chain_end_snoc: "chain_end sha (chs @ [ch]) = sha (ascii_bytes (chain_end sha chs) @ concat (map token_bytes ch))"
  by (simp add: chain_end_def chunk_hash_def)

text \<open>Two lists of chunks with the same hash are the same list.\<close>

lemma chain_end_inj:
  assumes "sha_ok sha S" "set (chain_inputs sha '''' cs) \<subseteq> S" "set (chain_inputs sha '''' ds) \<subseteq> S"
    and "\<forall>c \<in> set cs \<union> set ds. c \<noteq> [] \<and> valid_tokens c" "chain_end sha cs = chain_end sha ds"
  shows "cs = ds"
  using assms(2-5)
proof (induction cs arbitrary: ds rule: rev_induct)
  case Nil
  show ?case
  proof (cases ds rule: rev_cases)
    case (snoc ys y)
    have "hex_digest (chain_end sha ds)"
      using Nil.prems(2) assms(1) by (simp add: snoc chain_end_snoc chain_inputs_snoc sha_ok_def flip: chain_end_def)
    then show ?thesis using Nil.prems(4) by (simp add: chain_end_def hex_digest_def)
  qed simp
next
  case (snoc x xs)
  have inx: "ascii_bytes (chain_end sha xs) @ concat (map token_bytes x) \<in> S"
    using snoc.prems(1) by (simp add: chain_inputs_snoc flip: chain_end_def)
  show ?case
  proof (cases ds rule: rev_cases)
    case Nil
    have "hex_digest (chain_end sha (xs @ [x]))" using inx assms(1) by (simp add: chain_end_snoc sha_ok_def)
    then show ?thesis using snoc.prems(4) Nil by (simp add: chain_end_def hex_digest_def)
  next
    case ds: (snoc ys y)
    have iny: "ascii_bytes (chain_end sha ys) @ concat (map token_bytes y) \<in> S"
      using snoc.prems(2) by (simp add: ds chain_inputs_snoc flip: chain_end_def)
    have eq: "ascii_bytes (chain_end sha xs) @ concat (map token_bytes x) = ascii_bytes (chain_end sha ys) @ concat (map token_bytes y)"
      using snoc.prems(4) inx iny assms(1) by (auto simp: ds chain_end_snoc sha_ok_def dest: inj_onD)
    have vx: "valid_tokens x" "x \<noteq> []" and vy: "valid_tokens y" "y \<noteq> []" using snoc.prems(3) by (auto simp: ds)
    have hex: "zs = [] \<or> hex_digest (chain_end sha zs)" if "set (chain_inputs sha '''' (zs @ [z])) \<subseteq> S" for zs z
    proof (cases zs rule: rev_cases)
      case (snoc ws w)
      have "set (chain_inputs sha [] zs) \<subseteq> S" using that by (simp add: chain_inputs_snoc)
      with assms(1) show ?thesis by (simp add: snoc chain_end_snoc chain_inputs_snoc sha_ok_def flip: chain_end_def)
    qed simp
    have "chain_end sha xs = chain_end sha ys \<and> x = y"
    proof (cases "xs = [] \<or> ys = []")
      case True
      have hx: "xs = [] \<or> hex_digest (chain_end sha xs)" and hy: "ys = [] \<or> hex_digest (chain_end sha ys)"
        using hex [of xs x] hex [of ys y] snoc.prems(1,2) ds by simp_all
      have nil: "ascii_bytes (chain_end sha []) = []" by (simp add: chain_end_def ascii_bytes_def)
      have "xs = [] \<and> ys = []"
      proof (cases "xs = []")
        case xs: True
        have "ys = []"
        proof (rule ccontr)
          assume "ys \<noteq> []"
          with hy have "hex_digest (chain_end sha ys)" by simp
          from digest_not_tokens [OF this vx] eq nil xs show False by auto
        qed
        with xs show ?thesis by simp
      next
        case False
        with True have ys: "ys = []" by simp
        from False hx have "hex_digest (chain_end sha xs)" by simp
        from digest_not_tokens [OF this vy] eq nil ys show ?thesis by auto
      qed
      moreover from this eq nil have "concat (map token_bytes x) = concat (map token_bytes y)" by simp
      from concat_token_bytes_inj [OF this vx(1) vy(1)] have "x = y" .
      ultimately show ?thesis by simp
    next
      case False
      then have "length (ascii_bytes (chain_end sha xs)) = length (ascii_bytes (chain_end sha ys))"
        using hex [of xs x] hex [of ys y] snoc.prems(1,2) by (simp add: ds ascii_bytes_def hex_digest_def)
      with eq have "ascii_bytes (chain_end sha xs) = ascii_bytes (chain_end sha ys)"
        "concat (map token_bytes x) = concat (map token_bytes y)" by simp_all
      from ascii_bytes_inj [OF this(1)] concat_token_bytes_inj [OF this(2) vx(1) vy(1)] show ?thesis by simp
    qed
    with snoc.IH [of ys] snoc.prems(1-3) show ?thesis by (simp add: ds chain_inputs_snoc)
  qed
qed

text \<open>Chunk lists and prefixes of the tokens.\<close>

lemma chunk_list_nth: "0 < c \<Longrightarrow> i < length (chunk_list c ts) \<Longrightarrow> chunk_list c ts ! i = take c (drop (i * c) ts)"
proof (induction c ts arbitrary: i rule: chunk_list.induct)
  case (1 c ts)
  show ?case
  proof (cases "ts = []")
    case False
    with 1 show ?thesis by (cases i) (simp_all add: chunk_list_step add.commute)
  qed (use 1 in simp)
qed

lemma chunk_list_take: "0 < c \<Longrightarrow> concat (take n (chunk_list c ts)) = take (n * c) ts"
proof (induction c ts arbitrary: n rule: chunk_list.induct)
  case (1 c ts)
  show ?case
  proof (cases "ts = []")
    case False
    with 1 show ?thesis by (cases n) (simp_all add: chunk_list_step take_add)
  qed simp
qed

lemma chunk_list_index: "0 < c \<Longrightarrow> i < length (chunk_list c ts) \<longleftrightarrow> i * c < length ts"
proof (induction c ts arbitrary: i rule: chunk_list.induct)
  case (1 c ts)
  show ?case
  proof (cases "ts = []")
    case False
    show ?thesis
    proof (cases i)
      case (Suc k)
      have "i < length (chunk_list c ts) \<longleftrightarrow> k < length (chunk_list c (drop c ts))"
        using False 1(2) Suc by (simp add: chunk_list_step)
      also have "\<dots> \<longleftrightarrow> k * c < length ts - c" using 1(1) [of k] False 1(2) by simp
      also have "\<dots> \<longleftrightarrow> i * c < length ts" using Suc by auto
      finally show ?thesis .
    qed (use False 1(2) in \<open>simp add: chunk_list_step\<close>)
  qed simp
qed

lemma valid_chunks: "0 < c \<Longrightarrow> valid_tokens ts \<Longrightarrow> ch \<in> set (chunk_list c ts) \<Longrightarrow> ch \<noteq> [] \<and> valid_tokens ch"
proof -
  assume a: "0 < c" "valid_tokens ts" "ch \<in> set (chunk_list c ts)"
  have "set ch \<subseteq> set ts" using concat_chunk_list [OF a(1), of ts] a(3) by (metis UN_upper set_concat)
  with a(2) chunk_list_lengths [OF a(1,3)] show ?thesis by (auto simp: valid_tokens_def)
qed

section \<open>Soundness of the cache\<close>

text \<open>
  \<open>genuine\<close>: a stored chunk is the slice of the model's KV cache that its name promises, for one
  of the token lists \<open>H\<close> served so far.  \<open>same_meta\<close> is what no operation of an engine changes.
\<close>

definition genuine ::
  "(int list \<Rightarrow> string) \<Rightarrow> 'a kv_model \<Rightarrow> 's engine \<Rightarrow> int list set \<Rightarrow> cache_key \<Rightarrow> 'a blob \<Rightarrow> bool" where
  "genuine sha mdl e H k v \<longleftrightarrow>
     (\<exists>toks \<in> H. \<exists>i < length (chunk_list (eng_chunk e) toks).
        k = make_key e (hash_chain sha '''' (chunk_list (eng_chunk e) toks) ! i)
        \<and> v = kv_blob mdl (eng_fmt e) toks (i * eng_chunk e) (min (length toks) (i * eng_chunk e + eng_chunk e)))"

definition same_meta :: "'s engine \<Rightarrow> 's engine \<Rightarrow> bool" where
  "same_meta e e' \<longleftrightarrow> eng_chunk e' = eng_chunk e \<and> eng_fmt e' = eng_fmt e \<and> eng_model e' = eng_model e
     \<and> eng_world e' = eng_world e \<and> eng_worker e' = eng_worker e"

definition byte_inputs :: "(int list \<Rightarrow> string) \<Rightarrow> nat \<Rightarrow> int list set \<Rightarrow> int list set" where
  "byte_inputs sha c H = (\<Union>toks \<in> H. set (chain_inputs sha '''' (chunk_list c toks)))"

lemma same_meta_refl [simp]: "same_meta e e"
  by (simp add: same_meta_def)

lemma same_meta_trans: "same_meta e e' \<Longrightarrow> same_meta e' e'' \<Longrightarrow> same_meta e e''"
  by (simp add: same_meta_def)

lemma same_meta_store [simp]: "same_meta e (e\<lparr>eng_store := s\<rparr>)"
  by (simp add: same_meta_def)

lemma genuine_same_meta: "same_meta e e' \<Longrightarrow> genuine sha mdl e' = genuine sha mdl e"
  by (intro ext) (simp add: same_meta_def genuine_def make_key_def)

lemma genuine_mono: "genuine sha mdl e H k v \<Longrightarrow> H \<subseteq> H' \<Longrightarrow> genuine sha mdl e H' k v"
  by (auto simp: genuine_def)

lemma make_key_inj: "make_key e h = make_key e h' \<Longrightarrow> h = h'"
  by (simp add: make_key_def)

text \<open>By its name, a chunk of any served token list is a chunk of the asked one.\<close>

lemma genuine_chunk:
  assumes "genuine sha mdl e H (make_key e (hash_chain sha '''' (chunk_list (eng_chunk e) toks) ! i)) v"
    and i: "i < length (chunk_list (eng_chunk e) toks)" and c: "0 < eng_chunk e"
    and sha: "sha_ok sha (byte_inputs sha (eng_chunk e) (insert toks H))"
    and val: "\<forall>ts \<in> insert toks H. valid_tokens ts"
  shows "v = kv_blob mdl (eng_fmt e) toks (i * eng_chunk e) (min (length toks) (i * eng_chunk e + eng_chunk e))"
proof -
  let ?c = "eng_chunk e"
  from assms(1) obtain ts j where ts: "ts \<in> H" "j < length (chunk_list ?c ts)"
    "hash_chain sha '''' (chunk_list ?c toks) ! i = hash_chain sha '''' (chunk_list ?c ts) ! j"
    and v: "v = kv_blob mdl (eng_fmt e) ts (j * ?c) (min (length ts) (j * ?c + ?c))"
    unfolding genuine_def by (auto dest: make_key_inj)
  let ?cs = "take (Suc i) (chunk_list ?c toks)" and ?ds = "take (Suc j) (chunk_list ?c ts)"
  have "?cs = ?ds"
  proof (rule chain_end_inj [OF sha])
    show "set (chain_inputs sha '''' ?cs) \<subseteq> byte_inputs sha ?c (insert toks H)"
      "set (chain_inputs sha '''' ?ds) \<subseteq> byte_inputs sha ?c (insert toks H)"
      using chain_inputs_take ts(1) by (fastforce simp: byte_inputs_def)+
    show "\<forall>ch \<in> set ?cs \<union> set ?ds. ch \<noteq> [] \<and> valid_tokens ch"
    proof
      fix ch assume "ch \<in> set ?cs \<union> set ?ds"
      then have "ch \<in> set (chunk_list ?c toks) \<or> ch \<in> set (chunk_list ?c ts)" by (auto dest: in_set_takeD)
      with val ts(1) show "ch \<noteq> [] \<and> valid_tokens ch" by (auto dest!: valid_chunks [OF c, rotated])
    qed
    show "chain_end sha ?cs = chain_end sha ?ds" using ts(2,3) i by (simp add: hash_chain_end)
  qed
  then have "length ?cs = length ?ds" "concat ?cs = concat ?ds" by simp_all
  from this(1) have ij: "i = j" using i ts(2) by simp
  have "concat ?cs = take (Suc i * ?c) toks" "concat ?ds = take (Suc j * ?c) ts"
    by (simp_all only: chunk_list_take [OF c])
  with \<open>concat ?cs = concat ?ds\<close> ij have pre: "take (i * ?c + ?c) toks = take (i * ?c + ?c) ts"
    by (simp add: add.commute)
  let ?b = "min (length toks) (i * ?c + ?c)"
  have b: "min (length ts) (j * ?c + ?c) = ?b" using arg_cong [OF pre, of length] ij by simp
  have "take ?b toks = take ?b ts" using pre by (metis min.commute take_take)
  then have "kv_blob mdl (eng_fmt e) toks (i * ?c) ?b = kv_blob mdl (eng_fmt e) ts (i * ?c) ?b"
    by (rule kv_blob_same_prefix)
  then show ?thesis unfolding v b using ij by simp
qed

lemma first_missing_index:
  "first_missing has (zip hs (map (\<lambda>j. j * c) [a..<b])) a = Some (x, y) \<Longrightarrow> x = y * c \<and> a \<le> y"
proof (induction hs arbitrary: a)
  case (Cons h hs)
  show ?case
  proof (cases "a < b")
    case True
    with Cons show ?thesis by (fastforce simp: upt_conv_Cons split: if_splits)
  qed (use Cons.prems in simp)
qed simp

lemma pieces_genuine:
  assumes mdl: "model_ok mdl" "known_format fmt" and c: "0 < c"
    and slices: "slice_kv_at c (y * c) fmt (kv_blob mdl fmt toks (skip * c) (length toks)) = Inr kvs"
    and hv: "(h, v) \<in> set (zip (drop (skip + y) (hash_chain sha '''' (chunk_list c toks))) kvs)"
  shows "\<exists>i < length (chunk_list c toks). h = hash_chain sha '''' (chunk_list c toks) ! i
     \<and> v = kv_blob mdl fmt toks (i * c) (min (length toks) (i * c + c))"
proof -
  let ?hs = "hash_chain sha '''' (chunk_list c toks)"
  from hv obtain j where j: "j < length ?hs - (skip + y)" "j < length kvs" "h = ?hs ! (skip + y + j)" "v = kvs ! j"
    by (auto simp: in_set_zip)
  define i where "i = skip + y + j"
  have i: "i < length (chunk_list c toks)" using j(1) by (simp add: i_def)
  then have "i * c < length toks" by (simp add: chunk_list_index [OF c])
  moreover have "(skip + y) * c \<le> i * c" by (simp add: i_def)
  ultimately have "\<not> length toks \<le> skip * c + y * c" by (simp add: add_mult_distrib)
  then have "kvs = map (\<lambda>j. kv_blob mdl fmt toks (skip * c + y * c + j * c) (min (length toks) (skip * c + y * c + j * c + c)))
      [0..<(length toks - (skip * c + y * c) + c - 1) div c]"
    using slices by (simp add: slice_kv_at_kv [OF mdl])
  then have "v = kv_blob mdl fmt toks (skip * c + y * c + j * c) (min (length toks) (skip * c + y * c + j * c + c))"
    using j(2,4) by simp
  moreover have "skip * c + y * c + j * c = i * c" by (simp add: i_def add_mult_distrib)
  ultimately show ?thesis using i j(3) by (auto simp: i_def)
qed

lemma make_chunks_genuine:
  assumes mdl: "model_ok mdl" "known_format (eng_fmt e)" and c: "0 < eng_chunk e"
    and made: "make_chunks sha contains e toks (kv_blob mdl (eng_fmt e) toks (skip * eng_chunk e) (length toks)) skip flag = Inr hkvs"
    and hv: "(h, v) \<in> set hkvs"
  shows "genuine sha mdl e {toks} (make_key e h) v \<and> blob_tokens (eng_fmt e) v \<le> eng_chunk e"
proof -
  let ?c = "eng_chunk e" and ?hs = "hash_chain sha '''' (chunk_list (eng_chunk e) toks)"
  let ?kv = "kv_blob mdl (eng_fmt e) toks (skip * ?c) (length toks)"
  obtain y kvs where "slice_kv_at ?c (y * ?c) (eng_fmt e) ?kv = Inr kvs" "(h, v) \<in> set (zip (drop (skip + y) ?hs) kvs)"
  proof (cases flag)
    case True
    define fm where "fm = first_missing (\<lambda>h. contains (make_key e h) (eng_store e)) (zip (drop skip ?hs)
             (map (\<lambda>j. j * ?c) [0..<(length toks - skip * ?c + ?c - 1) div ?c])) 0"
    have made': "(case fm of None \<Rightarrow> Inr []
         | Some (start_tok, start_chunk) \<Rightarrow>
             bindr (slice_kv_at ?c start_tok (eng_fmt e) ?kv) (\<lambda>kvs. Inr (zip (drop start_chunk (drop skip ?hs)) kvs))) = Inr hkvs"
      using made True c
      by (simp add: make_chunks_def make_chunks_skip_existing_def chunk_tokens_def prefix_hash_def
          num_tokens_kv [OF mdl] Let_def fm_def del: bindr_Inr_iff split del: if_split)
    show thesis
    proof (cases fm)
      case None
      with made' hv show thesis by simp
    next
      case (Some xy)
      obtain x y where xy: "fm = Some (x, y)" using Some by (cases xy) auto
      from xy first_missing_index have x: "x = y * ?c" unfolding fm_def by blast
      from made' xy obtain kvs where "slice_kv_at ?c x (eng_fmt e) ?kv = Inr kvs" "hkvs = zip (drop y (drop skip ?hs)) kvs"
        by auto
      with x hv that [of y kvs] show thesis by (simp add: add.commute)
    qed
  next
    case False
    with made c obtain kvs where "skip = 0" "slice_kv_at ?c 0 (eng_fmt e) ?kv = Inr kvs" "hkvs = zip ?hs kvs"
      by (auto simp: make_chunks_def chunk_kv_def chunk_tokens_def prefix_hash_def)
    with hv that [of 0 kvs] show thesis by simp
  qed
  from pieces_genuine [OF mdl c this] show ?thesis
    by (auto simp: genuine_def blob_tokens_kv [OF mdl])
qed

text \<open>
  \<open>retrieve_finish\<close> on chunks that are, one after the other, those of the asked tokens: the first
  one is cut, the rest is put together.
\<close>

lemma retrieve_finish_eq:
  assumes mdl: "model_ok mdl" "known_format (eng_fmt e)" and c: "0 < eng_chunk e"
    and skip: "skip \<le> length toks"
    and sk: "sk = skip div eng_chunk e"
    and len: "sk + length got \<le> length (chunk_list (eng_chunk e) toks)"
    and got: "\<And>j. j < length got \<Longrightarrow> snd (got ! j) = kv_blob mdl (eng_fmt e) toks ((sk + j) * eng_chunk e)
               (min (length toks) ((sk + j) * eng_chunk e + eng_chunk e))"
    and ne: "got \<noteq> []"
  shows "\<exists>n. skip + n = min (length toks) ((sk + length got) * eng_chunk e)
     \<and> retrieve_finish skip sk toks got info e =
         (let hit = eng_hit e + int n; miss = eng_miss e + (int (length toks) - int skip - int n) in
          if miss + hit = 0 then Inl ZeroDivisionError
          else Inr (\<lparr>ret_kv = kv_blob mdl (eng_fmt e) toks skip (skip + n),
                     ret_mask = map (\<lambda>i. skip \<le> i \<and> i < skip + n) [0..<length toks],
                     ret_keys = map fst got,
                     ret_attribution = attributed (eng_chunk e) (skip - sk * eng_chunk e) info\<rparr>,
                    e\<lparr>eng_hit := hit, eng_miss := miss,
                      eng_hit_rate := real_of_int hit / real_of_int (miss + hit)\<rparr>))"
proof -
  let ?c = "eng_chunk e" and ?fmt = "eng_fmt e" and ?L = "length toks"
  define m where "m = length got"
  have m: "0 < m" using ne by (simp add: m_def)
  define g where "g j = (if j = 0 then skip else min ?L ((sk + j) * ?c))" for j
  have full: "(sk + j) * ?c < ?L" if "j < m" for j
    using len that chunk_list_index [OF c, of "sk + j" toks] by (simp add: m_def)
  have skle: "sk * ?c \<le> skip" by (simp add: sk)
  have sklt: "skip < (sk + 1) * ?c" using c by (simp add: sk dividend_less_div_times add.commute)
  have g0: "g 0 \<le> g 1" using skip sklt by (simp add: g_def)
  have step: "g j \<le> g (Suc j)" if "j < m" for j
    using g0 by (cases j) (auto simp: g_def)
  have strict: "m = 1 \<or> (\<forall>j < m. g j < g (Suc j))"
  proof (cases "m = 1")
    case False
    have "g j < g (Suc j)" if j: "j < m" for j
    proof (cases j)
      case 0
      have "(sk + 1) * ?c < ?L" using full [of 1] m False by simp
      then show ?thesis using 0 sklt by (simp add: g_def)
    next
      case (Suc k)
      then show ?thesis using full [OF j] c by (simp add: g_def)
    qed
    then show ?thesis by blast
  qed simp
  obtain k0 v0 rest where gr: "got = (k0, v0) # rest" using ne by (cases got) auto
  have v0: "v0 = kv_blob mdl ?fmt toks (sk * ?c) (g 1)" using got [of 0] m by (simp add: gr m_def g_def add.commute)
  have extra: "sk * ?c + (skip - sk * ?c) = skip" using skle by simp
  have "\<exists>ps. slice_kv_at ?c (skip - sk * ?c) ?fmt v0 = Inr (kv_blob mdl ?fmt toks (g 0) (g 1) # ps)"
  proof (cases "g 1 \<le> skip")
    case True
    then show ?thesis using extra by (simp add: v0 slice_kv_at_kv [OF mdl] g_def)
  next
    case False
    have "g 1 \<le> skip + ?c" using skle by (simp add: g_def)
    moreover have "0 < (g 1 - skip + ?c - 1) div ?c" using False c by (simp add: div_greater_zero_iff)
    ultimately show ?thesis using False extra
      by (simp add: v0 slice_kv_at_kv [OF mdl] upt_conv_Cons min_absorb1 del: upt_Suc) (simp add: g_def)
  qed
  then obtain ps where ps: "slice_kv_at ?c (skip - sk * ?c) ?fmt v0 = Inr (kv_blob mdl ?fmt toks (g 0) (g 1) # ps)" by blast
  have pieces: "kv_blob mdl ?fmt toks (g 0) (g 1) # map snd rest = map (\<lambda>j. kv_blob mdl ?fmt toks (g j) (g (Suc j))) [0..<m]"
  proof (rule nth_equalityI)
    fix j assume "j < length (kv_blob mdl ?fmt toks (g 0) (g 1) # map snd rest)"
    then have jm: "j < m" by (simp add: m_def gr)
    show "(kv_blob mdl ?fmt toks (g 0) (g 1) # map snd rest) ! j = map (\<lambda>j. kv_blob mdl ?fmt toks (g j) (g (Suc j))) [0..<m] ! j"
    proof (cases j)
      case (Suc k)
      have "g j = (sk + j) * ?c" using full [OF jm] Suc by (simp add: g_def)
      moreover have "g (Suc j) = min ?L ((sk + j) * ?c + ?c)" by (simp add: g_def add.commute)
      moreover have "snd (got ! j) = kv_blob mdl ?fmt toks ((sk + j) * ?c) (min ?L ((sk + j) * ?c + ?c))"
        using got jm by (simp add: m_def)
      moreover have "(kv_blob mdl ?fmt toks (g 0) (g 1) # map snd rest) ! j = snd (got ! j)"
        using jm Suc by (simp add: gr m_def)
      ultimately show ?thesis using jm by simp
    qed (use jm in simp)
  qed (simp add: m_def gr)
  have cat: "cat_blobs ?fmt (kv_blob mdl ?fmt toks (g 0) (g 1) # map snd rest) = Inr (kv_blob mdl ?fmt toks (g 0) (g m))"
    unfolding pieces by (rule cat_blobs_kv [OF mdl(1) m step strict])
  have gm: "g 0 = skip" "g m = min ?L ((sk + m) * ?c)" using m by (simp_all add: g_def)
  have "(sk + 1) * ?c \<le> (sk + m) * ?c" using m by (intro mult_le_mono1) simp
  then have le: "skip \<le> g m" unfolding gm(2) using skip sklt by simp
  define n where "n = g m - skip"
  have sn: "skip + n = g m" using le by (simp add: n_def)
  have bt: "blob_tokens ?fmt (kv_blob mdl ?fmt toks skip (g m)) = n" by (simp add: blob_tokens_kv [OF mdl] n_def)
  have "retrieve_finish skip sk toks got info e =
         (let hit = eng_hit e + int n; miss = eng_miss e + (int ?L - int skip - int n) in
          if miss + hit = 0 then Inl ZeroDivisionError
          else Inr (\<lparr>ret_kv = kv_blob mdl ?fmt toks skip (skip + n),
                     ret_mask = map (\<lambda>i. skip \<le> i \<and> i < skip + n) [0..<?L],
                     ret_keys = map fst got,
                     ret_attribution = attributed ?c (skip - sk * ?c) info\<rparr>,
                    e\<lparr>eng_hit := hit, eng_miss := miss,
                      eng_hit_rate := real_of_int hit / real_of_int (miss + hit)\<rparr>))"
    using ps cat ne mdl(2) bt gm(1)
    by (simp add: retrieve_finish_def gr Let_def blob_to_tuple_kv_kv sn del: bindr_Inr_iff)
  with sn gm(2) show ?thesis by (intro exI [of _ n]) (simp add: m_def)
qed

lemma store_puts:
  assumes "store sha contains put env toks raw msk flag e = Inr (n, e')"
  shows "\<exists>kvs s. batched_put put env kvs (eng_store e) = Inr (n, s) \<and> e' = e\<lparr>eng_store := s\<rparr>"
proof -
  define m where "m = (case msk of None \<Rightarrow> replicate (length toks) True | Some m \<Rightarrow> m)"
  define sk where "sk = (length m - count_true m) div eng_chunk e"
  from assms obtain kv where "bindr (make_chunks sha contains e toks kv sk flag) (\<lambda>hkvs.
      bindr (batched_put put env (map (\<lambda>(h, v). (make_key e h, v)) hkvs) (eng_store e)) (\<lambda>(k, s).
        Inr (k, e\<lparr>eng_store := s\<rparr>))) = Inr (n, e')"
    unfolding store_def m_def [symmetric] Let_def sk_def [symmetric]
    by (simp only: bindr_Inr_iff assert_py_Inr_iff split: if_split_asm) blast+
  then show ?thesis by auto
qed

definition suffix_mask :: "nat \<Rightarrow> nat \<Rightarrow> bool list" where
  "suffix_mask len skip = replicate skip False @ replicate (len - skip) True"

lemma suffix_mask_simps [simp]:
  "skip \<le> len \<Longrightarrow> length (suffix_mask len skip) = len" "count_true (suffix_mask len skip) = len - skip"
  by (simp_all add: suffix_mask_def count_true_def)

lemma store_genuine_puts:
  assumes mdl: "model_ok mdl" "known_format (eng_fmt e)" and skip: "skip \<le> length toks"
    and st: "store sha contains put env toks (kv_blob mdl (eng_fmt e) toks skip (length toks))
               (Some (suffix_mask (length toks) skip)) flag e = Inr (n, e')"
  shows "\<exists>kvs s'. batched_put put env kvs (eng_store e) = Inr (n, s') \<and> e' = e\<lparr>eng_store := s'\<rparr>
     \<and> (\<forall>(k, v) \<in> set kvs. genuine sha mdl e {toks} k v \<and> blob_tokens (eng_fmt e) v \<le> eng_chunk e)"
proof -
  have num: "num_tokens_in_kv (eng_fmt e) (kv_blob mdl (eng_fmt e) toks skip (length toks)) = Inr (length toks - skip)"
    by (rule num_tokens_kv [OF mdl])
  have tup: "tuple_kv_to_blob (kv_blob mdl (eng_fmt e) toks skip (length toks)) = Inr (kv_blob mdl (eng_fmt e) toks skip (length toks))"
    by (rule tuple_kv_to_blob_kv [OF mdl(1)])
  from st skip have c: "0 < eng_chunk e" and al: "skip = skip div eng_chunk e * eng_chunk e"
    by (auto simp: store_def num tup Let_def split: if_splits)
  from st skip c obtain hkvs s' where
    mk: "make_chunks sha contains e toks (kv_blob mdl (eng_fmt e) toks skip (length toks)) (skip div eng_chunk e) flag = Inr hkvs"
    and bp: "batched_put put env (map (\<lambda>(h, v). (make_key e h, v)) hkvs) (eng_store e) = Inr (n, s')"
    and e': "e' = e\<lparr>eng_store := s'\<rparr>"
    by (auto simp: store_def num tup Let_def split: if_splits)
  have "genuine sha mdl e {toks} (make_key e h) v \<and> blob_tokens (eng_fmt e) v \<le> eng_chunk e" if "(h, v) \<in> set hkvs" for h v
    using make_chunks_genuine [OF mdl c _ that] mk al by metis
  with bp e' show ?thesis by (intro exI conjI) (assumption, assumption, auto)
qed

text \<open>
  A backend for an engine: a store of chunks under cache keys whose recency update after a
  retrieval changes no content.
\<close>

locale chunk_store = stable_store ok fits stored contains put get present
  for ok :: "'s \<Rightarrow> bool" and fits :: "'s \<Rightarrow> 'a blob \<Rightarrow> bool" and stored :: "'s \<Rightarrow> cache_key \<Rightarrow> 'a blob option"
    and contains :: "cache_key \<Rightarrow> 's \<Rightarrow> bool" and put :: "'e \<Rightarrow> cache_key \<Rightarrow> 'a blob \<Rightarrow> 's \<Rightarrow> 's result"
    and get :: "'e \<Rightarrow> cache_key \<Rightarrow> 's \<Rightarrow> ('a blob option \<times> 's) result" and present :: "'e \<Rightarrow> bool" +
  fixes upd :: "'u \<Rightarrow> cache_key list \<Rightarrow> 's \<Rightarrow> 's result"
  assumes upd_law: "ok s \<Longrightarrow> upd u ks s = Inr s' \<Longrightarrow> ok s' \<and> fits s' = fits s \<and> stored s' = stored s"
begin

definition sound :: "(int list \<Rightarrow> string) \<Rightarrow> 'a kv_model \<Rightarrow> 's engine \<Rightarrow> int list set \<Rightarrow> bool" where
  "sound sha mdl e H \<longleftrightarrow> ok (eng_store e) \<and> all_stored (genuine sha mdl e H) (eng_store e)
     \<and> (\<forall>v. blob_tokens (eng_fmt e) v \<le> eng_chunk e \<longrightarrow> fits (eng_store e) v)"

lemma store_sound:
  assumes "sound sha mdl e H" and mdl: "model_ok mdl" "known_format (eng_fmt e)" and skip: "skip \<le> length toks"
    and st: "store sha contains put env toks (kv_blob mdl (eng_fmt e) toks skip (length toks))
               (Some (suffix_mask (length toks) skip)) flag e = Inr (n, e')"
  shows "sound sha mdl e' (insert toks H) \<and> same_meta e e' \<and> eng_hit e' = eng_hit e \<and> eng_miss e' = eng_miss e"
proof -
  from store_genuine_puts [OF mdl skip st] obtain kvs s' where bp: "batched_put put env kvs (eng_store e) = Inr (n, s')"
    and e': "e' = e\<lparr>eng_store := s'\<rparr>"
    and gen: "\<forall>(k, v) \<in> set kvs. genuine sha mdl e {toks} k v \<and> blob_tokens (eng_fmt e) v \<le> eng_chunk e" by blast
  let ?P = "genuine sha mdl e (insert toks H)"
  have "\<forall>(k, v) \<in> set kvs. fits (eng_store e) v \<and> ?P k v"
    using gen assms(1) by (auto simp: sound_def intro: genuine_mono)
  moreover have "all_stored ?P (eng_store e)"
    using assms(1) by (auto simp: sound_def all_stored_def intro: genuine_mono)
  ultimately have "ok s' \<and> fits s' = fits (eng_store e) \<and> all_stored ?P s'"
    using batched_put_inv [OF _ _ bp] assms(1) unfolding sound_def by blast
  then show ?thesis using assms(1) genuine_same_meta [of e e' sha mdl] by (simp add: e' sound_def)
qed

lemma retrieve_sound:
  assumes snd: "sound sha mdl e H" and mdl: "model_ok mdl" "known_format (eng_fmt e)" and skip: "skip \<le> length toks"
    and sha: "sha_ok sha (byte_inputs sha (eng_chunk e) (insert toks H))" and val: "\<forall>ts \<in> insert toks H. valid_tokens ts"
    and rt: "retrieve sha contains get attr (upd u) env toks (Some (suffix_mask (length toks) skip)) e = Inr (r, e')"
  shows "sound sha mdl e' H \<and> same_meta e e' \<and> eng_hit e \<le> eng_hit e' \<and> eng_miss e \<le> eng_miss e'
     \<and> (\<exists>n. skip + n \<le> length toks \<and> ret_mask r = map (\<lambda>i. skip \<le> i \<and> i < skip + n) [0..<length toks]
          \<and> ret_kv r = (if ret_keys r = [] then [] else kv_blob mdl (eng_fmt e) toks skip (skip + n))
          \<and> (ret_keys r \<noteq> [] \<longrightarrow>
               skip + n = min (length toks) ((skip div eng_chunk e + length (ret_keys r)) * eng_chunk e)
               \<and> skip div eng_chunk e + length (ret_keys r) \<le> length (chunk_list (eng_chunk e) toks)
               \<and> (\<forall>info_of. attr = Some info_of \<longrightarrow>
                     (\<exists>s. ret_attribution r =
                        attributed (eng_chunk e) (skip - skip div eng_chunk e * eng_chunk e) (info_of (ret_keys r) s)))))"
proof -
  let ?c = "eng_chunk e" and ?hs = "hash_chain sha '''' (chunk_list (eng_chunk e) toks)"
  let ?sk = "skip div eng_chunk e"
  let ?keys = "map (make_key e) (drop ?sk ?hs)"
  from rt skip have c: "0 < ?c" by (auto simp: retrieve_def Let_def split: if_splits)
  from rt skip c obtain got s1 s2 info where
    tk: "take_until_missing contains get env ?keys (eng_store e) = Inr (got, s1)"
    and up: "upd u (map fst got) s1 = Inr s2"
    and fin: "retrieve_finish skip ?sk toks got info (e\<lparr>eng_store := s2\<rparr>) = Inr (r, e')"
    and info: "info = (case attr of None \<Rightarrow> [] | Some info_of \<Rightarrow> if got = [] then [] else info_of (map fst got) s1)"
    by (auto simp: retrieve_def Let_def chunk_tokens_def prefix_hash_def split: if_splits)
  have ok: "ok (eng_store e)" using snd by (simp add: sound_def)
  note tkl = take_until_missing_law [OF ok tk]
  note upl = upd_law [OF _ up]
  have st2: "ok s2" "fits s2 = fits (eng_store e)" "\<forall>x. stored s2 x \<in> {None, stored (eng_store e) x}"
    using tkl upl by auto
  have keys: "map fst got = take (length got) ?keys" using tkl by blast
  have lg: "length got \<le> length ?keys" using arg_cong [OF keys, of length] by simp
  have gj: "snd (got ! j) = kv_blob mdl (eng_fmt e) toks ((?sk + j) * ?c) (min (length toks) ((?sk + j) * ?c + ?c))"
    if j: "j < length got" for j
  proof -
    have ij: "?sk + j < length (chunk_list ?c toks)" using j lg by simp
    have "fst (got ! j) = ?keys ! j" using arg_cong [OF keys, of "\<lambda>xs. xs ! j"] j by simp
    then have "fst (got ! j) = make_key e (?hs ! (?sk + j))" using j lg by simp
    moreover have "(fst (got ! j), snd (got ! j)) \<in> set got" using j by simp
    then have "stored (eng_store e) (fst (got ! j)) = Some (snd (got ! j))" using tkl by blast
    ultimately have "genuine sha mdl e H (make_key e (?hs ! (?sk + j))) (snd (got ! j))"
      using snd by (simp add: sound_def all_stored_def)
    from genuine_chunk [OF this ij c sha val] show ?thesis .
  qed
  have len: "?sk + length got \<le> length (chunk_list ?c toks) \<or> got = []" using lg by (cases got) auto
  define e2 where "e2 = e\<lparr>eng_store := s2\<rparr>"
  have fin': "same_meta e2 e' \<and> eng_hit e2 \<le> eng_hit e' \<and> eng_miss e2 \<le> eng_miss e' \<and> eng_store e' = s2 \<and> ret_keys r = map fst got
     \<and> (\<exists>n. skip + n \<le> length toks \<and> ret_mask r = map (\<lambda>i. skip \<le> i \<and> i < skip + n) [0..<length toks]
          \<and> (got \<noteq> [] \<longrightarrow> ret_kv r = kv_blob mdl (eng_fmt e) toks skip (skip + n)
               \<and> skip + n = min (length toks) ((?sk + length got) * ?c) \<and> ret_attribution r = attributed ?c (skip - ?sk * ?c) info)
          \<and> (got = [] \<longrightarrow> ret_kv r = []))"
  proof (cases "got = []")
    case True
    have "map (\<lambda>i. skip \<le> i \<and> i < skip + 0) [0..<length toks] = replicate (length toks) False"
      by (rule nth_equalityI) auto
    with fin True mdl(2) skip show ?thesis
      by (intro conjI exI [of _ 0]) (auto simp: retrieve_finish_def same_meta_def e2_def split: if_splits)
  next
    case False
    with len have lenc: "?sk + length got \<le> length (chunk_list ?c toks)" by blast
    have same: "eng_chunk e2 = ?c" "eng_fmt e2 = eng_fmt e" "eng_store e2 = s2" by (simp_all add: e2_def)
    from retrieve_finish_eq [of mdl e2 skip toks ?sk got info, unfolded same, OF mdl c skip refl lenc gj False]
    obtain n where n: "skip + n = min (length toks) ((?sk + length got) * ?c)" and
      eq: "retrieve_finish skip ?sk toks got info e2 =
         (let hit = eng_hit e2 + int n; miss = eng_miss e2 + (int (length toks) - int skip - int n) in
          if miss + hit = 0 then Inl ZeroDivisionError
          else Inr (\<lparr>ret_kv = kv_blob mdl (eng_fmt e) toks skip (skip + n),
                     ret_mask = map (\<lambda>i. skip \<le> i \<and> i < skip + n) [0..<length toks],
                     ret_keys = map fst got,
                     ret_attribution = attributed ?c (skip - ?sk * ?c) info\<rparr>,
                    e2\<lparr>eng_hit := hit, eng_miss := miss,
                      eng_hit_rate := real_of_int hit / real_of_int (miss + hit)\<rparr>))" by blast
    from n have "skip + n \<le> length toks" by simp
    with eq n fin [folded e2_def] False show ?thesis
      by (intro conjI exI [of _ n]) (auto simp: Let_def same_meta_def same split: if_splits)
  qed
  from fin' have "same_meta e2 e'" and cnt: "eng_hit e \<le> eng_hit e'" "eng_miss e \<le> eng_miss e'"
    by (auto simp: e2_def)
  then have sm: "same_meta e e'" by (simp add: same_meta_def e2_def)
  have "all_stored (genuine sha mdl e H) s2"
    using all_stored_fewer [OF _ st2(3)] snd by (simp add: sound_def)
  moreover have "eng_store e' = s2" using fin' by blast
  moreover have "eng_fmt e' = eng_fmt e" "eng_chunk e' = ?c" using sm by (simp_all add: same_meta_def)
  ultimately have "sound sha mdl e' H"
    using st2(1,2) snd unfolding sound_def genuine_same_meta [OF sm] by simp
  moreover obtain n where n: "skip + n \<le> length toks" "ret_mask r = map (\<lambda>i. skip \<le> i \<and> i < skip + n) [0..<length toks]"
    "got \<noteq> [] \<Longrightarrow> ret_kv r = kv_blob mdl (eng_fmt e) toks skip (skip + n)" "got = [] \<Longrightarrow> ret_kv r = []"
    "got \<noteq> [] \<Longrightarrow> skip + n = min (length toks) ((?sk + length got) * ?c)"
    "got \<noteq> [] \<Longrightarrow> ret_attribution r = attributed ?c (skip - ?sk * ?c) info"
    using fin' by blast
  have rk: "ret_keys r = map fst got" using fin' by blast
  have "ret_keys r \<noteq> [] \<longrightarrow>
               skip + n = min (length toks) ((?sk + length (ret_keys r)) * ?c)
               \<and> ?sk + length (ret_keys r) \<le> length (chunk_list ?c toks)
               \<and> (\<forall>info_of. attr = Some info_of \<longrightarrow>
                     (\<exists>s. ret_attribution r = attributed ?c (skip - ?sk * ?c) (info_of (ret_keys r) s)))"
    using n(5,6) rk info len by auto
  moreover have "ret_kv r = (if ret_keys r = [] then [] else kv_blob mdl (eng_fmt e) toks skip (skip + n))"
    using n(3,4) rk by simp
  ultimately show ?thesis using sm cnt n(1,2) by blast
qed

lemma lookup_retrieve:
  assumes ok: "ok (eng_store e)" and fmt: "known_format (eng_fmt e)" and c: "0 < eng_chunk e" and env: "\<And>n. present (env n)"
  shows "\<exists>got s. take_until_missing contains get env (map (make_key e) (prefix_hash sha 0 (chunk_list (eng_chunk e) toks))) (eng_store e) = Inr (got, s)
     \<and> lookup sha contains toks e = Inr (min (length got * eng_chunk e) (length toks))"
proof -
  let ?hs = "hash_chain sha '''' (chunk_list (eng_chunk e) toks)"
  from take_until_missing_complete [of "eng_store e" env "map (make_key e) ?hs", OF ok env] obtain got s where
    got: "take_until_missing contains get env (map (make_key e) ?hs) (eng_store e) = Inr (got, s)"
      "map fst got = takeWhile (\<lambda>k. contains k (eng_store e)) (map (make_key e) ?hs)" by blast
  have loop: "lookup_loop has c len hs cur = min (cur + length (takeWhile has hs) * c) len" if "cur \<le> len" for has c len hs cur
    using that by (induction hs arbitrary: cur) (auto simp: min_def)
  have "length got = length (takeWhile (\<lambda>h. contains (make_key e h) (eng_store e)) ?hs)"
    using arg_cong [OF got(2), of length] by (simp add: takeWhile_map comp_def)
  with got(1) c show ?thesis
    by (auto simp: lookup_def chunk_tokens_def prefix_hash_def loop)
qed

text \<open>
  What \<open>lookup\<close> announces is what \<open>retrieve\<close> returns, and \<open>retrieve\<close> never raises.
\<close>

lemma retrieve_announced:
  assumes snd: "sound sha mdl e H" and mdl: "model_ok mdl" "known_format (eng_fmt e)" and c: "0 < eng_chunk e"
    and sha: "sha_ok sha (byte_inputs sha (eng_chunk e) (insert toks H))" and val: "\<forall>ts \<in> insert toks H. valid_tokens ts"
    and env: "\<And>n. present (env n)" and upd: "\<And>ks s. \<exists>s'. upd u ks s = Inr s'"
    and cnt: "0 \<le> eng_hit e" "0 \<le> eng_miss e"
  shows "\<exists>n r e'. lookup sha contains toks e = Inr n \<and> n \<le> length toks
     \<and> retrieve sha contains get attr (upd u) env toks None e = Inr (r, e')
     \<and> ret_mask r = map (\<lambda>i. i < n) [0..<length toks]
     \<and> ret_kv r = (if n = 0 then [] else kv_blob mdl (eng_fmt e) toks 0 n)
     \<and> eng_hit e' = eng_hit e + int n \<and> eng_miss e' = eng_miss e + int (length toks - n)"
proof -
  let ?c = "eng_chunk e" and ?hs = "hash_chain sha '''' (chunk_list (eng_chunk e) toks)"
  let ?keys = "map (make_key e) ?hs"
  have ok: "ok (eng_store e)" using snd by (simp add: sound_def)
  from lookup_retrieve [of e env sha toks, OF ok mdl(2) c env] obtain got s1 where
    tk: "take_until_missing contains get env ?keys (eng_store e) = Inr (got, s1)"
    and lk: "lookup sha contains toks e = Inr (min (length got * ?c) (length toks))"
    unfolding prefix_hash_def by auto
  note tkl = take_until_missing_law [OF ok tk]
  obtain s2 where up: "upd u (map fst got) s1 = Inr s2" using upd by blast
  define info where "info = (case attr of None \<Rightarrow> [] | Some info_of \<Rightarrow> if got = [] then [] else info_of (map fst got) s1)"
  define e2 where "e2 = e\<lparr>eng_store := s2\<rparr>"
  have rt: "retrieve sha contains get attr (upd u) env toks None e = retrieve_finish 0 0 toks got info e2"
    using tk up c by (simp add: retrieve_def Let_def chunk_tokens_def prefix_hash_def info_def e2_def)
  have same: "eng_chunk e2 = ?c" "eng_fmt e2 = eng_fmt e" "eng_hit e2 = eng_hit e" "eng_miss e2 = eng_miss e"
    by (simp_all add: e2_def)
  show ?thesis
  proof (cases "got = []")
    case True
    have "map (\<lambda>i. i < 0) [0..<length toks] = replicate (length toks) False"
      by (rule nth_equalityI) auto
    with True rt lk mdl(2) show ?thesis
      by (intro exI [of _ 0]) (simp add: retrieve_finish_def same)
  next
    case False
    have keys: "map fst got = take (length got) ?keys" using tkl by blast
    have lg: "length got \<le> length ?keys" using arg_cong [OF keys, of length] by simp
    have gj: "snd (got ! j) = kv_blob mdl (eng_fmt e) toks ((0 + j) * ?c) (min (length toks) ((0 + j) * ?c + ?c))"
      if j: "j < length got" for j
    proof -
      have ij: "j < length (chunk_list ?c toks)" using j lg by simp
      have "fst (got ! j) = ?keys ! j" using arg_cong [OF keys, of "\<lambda>xs. xs ! j"] j by simp
      then have "fst (got ! j) = make_key e (?hs ! j)" using j lg by simp
      moreover have "(fst (got ! j), snd (got ! j)) \<in> set got" using j by simp
      then have "stored (eng_store e) (fst (got ! j)) = Some (snd (got ! j))" using tkl by blast
      ultimately have "genuine sha mdl e H (make_key e (?hs ! j)) (snd (got ! j))"
        using snd by (simp add: sound_def all_stored_def)
      from genuine_chunk [OF this ij c sha val] show ?thesis by simp
    qed
    have lenc: "0 + length got \<le> length (chunk_list ?c toks)" using lg by simp
    have ne: "toks \<noteq> []" using False lg by auto
    define n where "n = min (length got * ?c) (length toks)"
    have n: "0 < n" "n \<le> length toks" using False c ne by (simp_all add: n_def)
    have sk0: "0 = 0 div ?c" by simp
    from retrieve_finish_eq [of mdl e2 0 toks 0 got info, unfolded same, OF mdl c _ sk0 lenc gj False]
    obtain n' where n': "0 + n' = min (length toks) ((0 + length got) * ?c)" and fin: "retrieve_finish 0 0 toks got info e2 =
         (let hit = eng_hit e + int n'; miss = eng_miss e + (int (length toks) - int 0 - int n') in
          if miss + hit = 0 then Inl ZeroDivisionError
          else Inr (\<lparr>ret_kv = kv_blob mdl (eng_fmt e) toks 0 (0 + n'),
                     ret_mask = map (\<lambda>i. 0 \<le> i \<and> i < 0 + n') [0..<length toks],
                     ret_keys = map fst got,
                     ret_attribution = attributed ?c (0 - 0 * ?c) info\<rparr>,
                    e2\<lparr>eng_hit := hit, eng_miss := miss,
                      eng_hit_rate := real_of_int hit / real_of_int (miss + hit)\<rparr>))"
      by blast
    have "n' = n" using n' by (simp add: n_def min.commute)
    note fin = fin [unfolded this]
    moreover have "eng_miss e + (int (length toks) - int 0 - int n) + (eng_hit e + int n) \<noteq> 0"
      using cnt n by linarith
    ultimately show ?thesis using lk rt n fin
      by (intro exI [of _ n]) (simp add: n_def [symmetric] of_nat_diff)
  qed
qed

end

end
