(* ===== verification/Fair_Engine.thy ===== *)
theory Fair_Engine
  imports Cache_Engine
begin

text \<open>
  The cache engine on the fair backend, the composition \<open>CreateStorageBackend\<close> makes when fair
  caching is enabled, and the history of requests one engine serves.  A tensor is described to
  the pool by its third extent (\<open>shape[2]\<close>) and its number of elements, with \<open>row\<close> numbers per row
  and \<open>es\<close> bytes per number.
\<close>

section \<open>The composition\<close>

definition blob_dim2 :: "'a blob \<Rightarrow> int" where
  "blob_dim2 b = (case b of (m # _) # _ \<Rightarrow> int (length m) | _ \<Rightarrow> 0)"

definition blob_numel :: "int \<Rightarrow> 'a blob \<Rightarrow> int" where
  "blob_numel row b = row * sum_list (map (\<lambda>l. sum_list (map (\<lambda>m. int (length m * mat_cols m)) l)) b)"

definition chunk_put ::
  "int \<Rightarrow> int \<Rightarrow> cache_key fair_call \<Rightarrow> cache_key \<Rightarrow> 'a blob \<Rightarrow> (cache_key, 'a blob) fair_backend
     \<Rightarrow> (cache_key, 'a blob) fair_backend result" where
  "chunk_put row es a k v s = fair_put a k (as_tensor blob_dim2 (blob_numel row) es v) s"

definition chunk_get ::
  "cache_key fair_call \<Rightarrow> cache_key \<Rightarrow> (cache_key, 'a blob) fair_backend
     \<Rightarrow> ('a blob option \<times> (cache_key, 'a blob) fair_backend) result" where
  "chunk_get a k s = Inr (fb_get (call_client a) k s, s)"

definition chunk_touch ::
  "int option \<times> (nat \<Rightarrow> real) \<Rightarrow> cache_key list \<Rightarrow> (cache_key, 'a blob) fair_backend
     \<Rightarrow> (cache_key, 'a blob) fair_backend result" where
  "chunk_touch u ks s = Inr (update_after_get (fst u) (zip ks (map (snd u) [0..<length ks])) s)"

definition fair_store ::
  "(int list \<Rightarrow> string) \<Rightarrow> int \<Rightarrow> int \<Rightarrow> (nat \<Rightarrow> cache_key fair_call) \<Rightarrow> int list \<Rightarrow> 'a mat list list \<Rightarrow> bool list option
     \<Rightarrow> bool \<Rightarrow> (cache_key, 'a blob) fair_backend engine \<Rightarrow> (nat \<times> (cache_key, 'a blob) fair_backend engine) result" where
  "fair_store sha row es env = store sha fb_contains (chunk_put row es) env"

definition fair_retrieve ::
  "(int list \<Rightarrow> string) \<Rightarrow> cache_key fair_call \<Rightarrow> (nat \<Rightarrow> real) \<Rightarrow> int list \<Rightarrow> bool list option
     \<Rightarrow> (cache_key, 'a blob) fair_backend engine \<Rightarrow> ('a retrieval \<times> (cache_key, 'a blob) fair_backend engine) result" where
  "fair_retrieve sha a clock =
     retrieve sha fb_contains chunk_get (Some (get_attribution_info (call_client a)))
       (chunk_touch (call_client a, clock)) (\<lambda>_. a)"

definition fair_lookup ::
  "(int list \<Rightarrow> string) \<Rightarrow> int list \<Rightarrow> (cache_key, 'a blob) fair_backend engine \<Rightarrow> nat result" where
  "fair_lookup sha = lookup sha fb_contains"

interpretation fair_chunks: chunk_store "\<lambda>b. fb_mem_ok b []"
    "\<lambda>b p. num_tok (as_tensor blob_dim2 (blob_numel row) es p) \<le> pool_chunk_size (fb_pool b)" content fb_contains
    "chunk_put row es" chunk_get has_client chunk_touch
  for row es :: int
proof (rule chunk_store.intro)
  have eq: "chunk_put row es = (\<lambda>a k p. fair_put a k (as_tensor blob_dim2 (blob_numel row) es p))"
    "chunk_get = (\<lambda>a k b. Inr (fb_get (call_client a) k b, b))"
    by (intro ext, simp add: chunk_put_def chunk_get_def)+
  show "stable_store (\<lambda>b. fb_mem_ok b [])
    (\<lambda>b p. num_tok (as_tensor blob_dim2 (blob_numel row) es p) \<le> pool_chunk_size (fb_pool b)) content fb_contains
    (chunk_put row es) chunk_get has_client"
    unfolding eq by (rule fair.stable_store_axioms)
  show "chunk_store_axioms (\<lambda>b. fb_mem_ok b [])
    (\<lambda>b p. num_tok (as_tensor blob_dim2 (blob_numel row) es p) \<le> pool_chunk_size (fb_pool b)) content chunk_touch"
    by (unfold_locales) (auto simp: chunk_touch_def update_after_get_law)
qed

section \<open>Histories\<close>

text \<open>
  A request as the serving loop makes it: a prompt, of which the first \<open>skip\<close> tokens need no
  cache.  What is stored is the KV cache the model computes for the prompt.
\<close>

datatype request =
    StoreReq "int list" nat bool "nat \<Rightarrow> cache_key fair_call"
  | RetrieveReq "int list" nat "cache_key fair_call" "nat \<Rightarrow> real"

fun req_tokens :: "request \<Rightarrow> int list" where
  "req_tokens (StoreReq toks skip flag env) = toks"
| "req_tokens (RetrieveReq toks skip a clock) = toks"

fun req_ok :: "request \<Rightarrow> bool" where
  "req_ok (StoreReq toks skip flag env) \<longleftrightarrow> skip \<le> length toks \<and> valid_tokens toks"
| "req_ok (RetrieveReq toks skip a clock) \<longleftrightarrow> skip \<le> length toks \<and> valid_tokens toks"

fun serve ::
  "(int list \<Rightarrow> string) \<Rightarrow> int \<Rightarrow> int \<Rightarrow> 'a kv_model \<Rightarrow> (cache_key, 'a blob) fair_backend engine \<Rightarrow> request
     \<Rightarrow> (cache_key, 'a blob) fair_backend engine result" where
  "serve sha row es mdl e (StoreReq toks skip flag env) =
     bindr (fair_store sha row es env toks (kv_blob mdl (eng_fmt e) toks skip (length toks))
              (Some (suffix_mask (length toks) skip)) flag e) (\<lambda>(n, e'). Inr e')"
| "serve sha row es mdl e (RetrieveReq toks skip a clock) =
     bindr (fair_retrieve sha a clock toks (Some (suffix_mask (length toks) skip)) e) (\<lambda>(r, e'). Inr e')"

definition history_inputs :: "(int list \<Rightarrow> string) \<Rightarrow> nat \<Rightarrow> request list \<Rightarrow> int list \<Rightarrow> int list set" where
  "history_inputs sha c rs toks = byte_inputs sha c (insert toks (req_tokens ` set rs))"

definition engine_inv :: "(int list \<Rightarrow> string) \<Rightarrow> 'a kv_model \<Rightarrow> int list set \<Rightarrow> (cache_key, 'a blob) fair_backend engine \<Rightarrow> bool" where
  "engine_inv sha mdl H e \<longleftrightarrow> fb_mem_ok (eng_store e) []
     \<and> (\<forall>k v. content (eng_store e) k = Some v \<longrightarrow> genuine sha mdl e H k v)
     \<and> int (eng_chunk e) \<le> pool_chunk_size (fb_pool (eng_store e)) \<and> eng_fmt e = ''vllm''
     \<and> 0 \<le> eng_hit e \<and> 0 \<le> eng_miss e"

lemma vllm_known [simp]: "known_format ''vllm''"
  by (simp add: known_format_def)

lemma blob_dim2_tokens: "blob_dim2 v = int (blob_tokens ''vllm'' v)"
  by (simp add: blob_dim2_def blob_tokens_def token_extent_def split: list.splits)

lemma sound_iff:
  fixes e :: "(cache_key, 'a blob) fair_backend engine"
  shows "fair_chunks.sound row es sha mdl e H \<longleftrightarrow> fb_mem_ok (eng_store e) []
     \<and> (\<forall>k v. content (eng_store e) k = Some v \<longrightarrow> genuine sha mdl e H k v)
     \<and> (\<forall>v :: 'a blob. blob_tokens (eng_fmt e) v \<le> eng_chunk e \<longrightarrow> blob_dim2 v \<le> pool_chunk_size (fb_pool (eng_store e)))"
  unfolding fair_chunks.sound_def fair_chunks.all_stored_def by (simp add: as_tensor_def)

lemma engine_inv_sound: "engine_inv sha mdl H e \<Longrightarrow> fair_chunks.sound row es sha mdl e H"
  unfolding sound_iff engine_inv_def by (auto simp: blob_dim2_tokens)

lemma sound_engine_inv:
  fixes e' :: "(cache_key, 'a blob) fair_backend engine"
  assumes "fair_chunks.sound row es sha mdl e' H'" "same_meta e e'" "engine_inv sha mdl H e"
    and "eng_hit e \<le> eng_hit e'" "eng_miss e \<le> eng_miss e'"
  shows "engine_inv sha mdl H' e'"
proof -
  note snd = assms(1) [unfolded sound_iff]
  have fmt: "eng_fmt e' = ''vllm''" using assms(2,3) by (simp add: engine_inv_def same_meta_def)
  define v :: "'a blob" where "v = [[replicate (eng_chunk e') []]]"
  have "blob_tokens (eng_fmt e') v \<le> eng_chunk e'" by (simp add: v_def fmt blob_tokens_def token_extent_def)
  with snd have "blob_dim2 v \<le> pool_chunk_size (fb_pool (eng_store e'))" by blast
  then have "int (eng_chunk e') \<le> pool_chunk_size (fb_pool (eng_store e'))" by (simp add: v_def blob_dim2_def)
  moreover have "0 \<le> eng_hit e'" "0 \<le> eng_miss e'" using assms(3-5) by (simp_all add: engine_inv_def)
  ultimately show ?thesis using snd fmt unfolding engine_inv_def by blast
qed

lemma serve_inv:
  assumes inv: "engine_inv sha mdl H e" and mdl: "model_ok mdl" and req: "req_ok r"
    and sha: "sha_ok sha (byte_inputs sha (eng_chunk e) (insert (req_tokens r) H))" and val: "\<forall>ts \<in> H. valid_tokens ts"
    and sv: "serve sha row es mdl e r = Inr e'"
  shows "engine_inv sha mdl (insert (req_tokens r) H) e' \<and> same_meta e e'"
proof -
  have fmt: "eng_fmt e = ''vllm''" using inv by (simp add: engine_inv_def)
  then have kf: "known_format (eng_fmt e)" by simp
  note snd = engine_inv_sound [OF inv, of row es]
  show ?thesis
  proof (cases r)
    case (StoreReq toks skip flag env)
    with sv obtain n where st: "store sha fb_contains (chunk_put row es) env toks (kv_blob mdl (eng_fmt e) toks skip (length toks))
        (Some (suffix_mask (length toks) skip)) flag e = Inr (n, e')"
      by (auto simp: fair_store_def)
    from fair_chunks.store_sound [OF snd mdl kf _ st] req StoreReq
    have "fair_chunks.sound row es sha mdl e' (insert toks H)" "same_meta e e'" "eng_hit e' = eng_hit e" "eng_miss e' = eng_miss e"
      by auto
    with sound_engine_inv [OF this(1,2) inv] StoreReq show ?thesis by simp
  next
    case (RetrieveReq toks skip a clock)
    with sv obtain rr where rt: "retrieve sha fb_contains chunk_get (Some (get_attribution_info (call_client a)))
       (chunk_touch (call_client a, clock)) (\<lambda>_. a) toks (Some (suffix_mask (length toks) skip)) e = Inr (rr, e')"
      by (auto simp: fair_retrieve_def)
    from RetrieveReq req have skip: "skip \<le> length toks" and v: "valid_tokens toks" by auto
    have sha': "sha_ok sha (byte_inputs sha (eng_chunk e) (insert toks H))" using sha RetrieveReq by simp
    have val': "\<forall>ts \<in> insert toks H. valid_tokens ts" using val v by simp
    from fair_chunks.retrieve_sound [OF snd mdl kf skip sha' val' rt]
    have s: "fair_chunks.sound row es sha mdl e' H" "same_meta e e'" "eng_hit e \<le> eng_hit e'" "eng_miss e \<le> eng_miss e'"
      by blast+
    have "engine_inv sha mdl H e'" by (rule sound_engine_inv [OF s(1,2) inv s(3,4)])
    then have "engine_inv sha mdl (insert toks H) e'" by (auto simp: engine_inv_def intro: genuine_mono)
    with s(2) RetrieveReq show ?thesis by simp
  qed
qed

lemma history_inv:
  assumes "model_ok mdl" "\<forall>r \<in> set rs. req_ok r" "\<forall>ts \<in> H. valid_tokens ts" "engine_inv sha mdl H e"
    and "sha_ok sha (byte_inputs sha (eng_chunk e) (H \<union> req_tokens ` set rs))"
    and "foldM (serve sha row es mdl) e rs = Inr e'"
  shows "engine_inv sha mdl (H \<union> req_tokens ` set rs) e' \<and> same_meta e e'"
  using assms(2-6)
proof (induction rs arbitrary: e H)
  case (Cons r rs)
  from Cons.prems(5) obtain e1 where e1: "serve sha row es mdl e r = Inr e1" "foldM (serve sha row es mdl) e1 rs = Inr e'"
    by auto
  have "sha_ok sha (byte_inputs sha (eng_chunk e) (insert (req_tokens r) H))"
    by (rule sha_ok_mono [OF Cons.prems(4)]) (auto simp: byte_inputs_def)
  from serve_inv [OF Cons.prems(3) assms(1) _ this Cons.prems(2) e1(1)] Cons.prems(1)
  have s: "engine_inv sha mdl (insert (req_tokens r) H) e1" "same_meta e e1" by auto
  have eq: "insert (req_tokens r) H \<union> req_tokens ` set rs = H \<union> req_tokens ` set (r # rs)" by auto
  have val: "\<forall>ts \<in> insert (req_tokens r) H. valid_tokens ts"
    using Cons.prems(1,2) by (cases r) auto
  have c: "eng_chunk e1 = eng_chunk e" using s(2) by (simp add: same_meta_def)
  have "engine_inv sha mdl (insert (req_tokens r) H \<union> req_tokens ` set rs) e' \<and> same_meta e1 e'"
    using Cons.IH [OF _ val s(1) _ e1(2)] Cons.prems(1,4) unfolding c eq by simp
  then show ?case unfolding eq using same_meta_trans [OF s(2)] by blast
qed simp

definition fresh_engine ::
  "pool_metadata \<Rightarrow> (nat \<Rightarrow> 'a blob) \<Rightarrow> nat \<Rightarrow> string \<Rightarrow> int \<Rightarrow> int \<Rightarrow> (cache_key, 'a blob) fair_backend engine result" where
  "fresh_engine md junk c name ws wid =
     bindr (new_fair_backend md junk) (\<lambda>b. Inr (new_engine c ''vllm'' name ws wid b))"

lemma fresh_engine_inv:
  assumes "fresh_engine md junk c name ws wid = Inr e" "py_nth (kv_shape md) 2 = Inr (int c)"
  shows "engine_inv sha mdl {} e \<and> eng_chunk e = c"
proof -
  from assms(1) obtain b where b: "new_fair_backend md junk = Inr b" and e: "e = new_engine c ''vllm'' name ws wid b"
    by (auto simp: fresh_engine_def)
  from new_fair_backend_ok [OF b] assms(2) show ?thesis
    by (auto simp: e engine_inv_def new_engine_def fb_ok_def content_def)
qed

section \<open>Properties\<close>

lemma history_state:
  assumes "fresh_engine md junk c name ws wid = Inr e0" "py_nth (kv_shape md) 2 = Inr (int c)" "model_ok mdl"
    and "\<forall>r \<in> set rs. req_ok r" "sha_ok sha (history_inputs sha c rs toks)" "foldM (serve sha row es mdl) e0 rs = Inr e"
  shows "engine_inv sha mdl (req_tokens ` set rs) e \<and> eng_chunk e = c
     \<and> sha_ok sha (byte_inputs sha (eng_chunk e) (insert toks (req_tokens ` set rs)))
     \<and> (\<forall>ts \<in> req_tokens ` set rs. valid_tokens ts)"
proof -
  have e0: "engine_inv sha mdl {} e0" "eng_chunk e0 = c" using fresh_engine_inv [OF assms(1,2)] by blast+
  have "sha_ok sha (byte_inputs sha (eng_chunk e0) ({} \<union> req_tokens ` set rs))"
    by (rule sha_ok_mono [OF assms(5)]) (auto simp: byte_inputs_def history_inputs_def e0(2))
  from history_inv [OF assms(3,4) _ e0(1) this assms(6)] e0(2)
  have "engine_inv sha mdl (req_tokens ` set rs) e" "eng_chunk e = c" by (auto simp: same_meta_def)
  moreover have "\<forall>ts \<in> req_tokens ` set rs. valid_tokens ts"
  proof
    fix ts assume "ts \<in> req_tokens ` set rs"
    then obtain r where "r \<in> set rs" "ts = req_tokens r" by auto
    with assms(4) show "valid_tokens ts" by (cases r) auto
  qed
  ultimately show ?thesis using assms(5) by (simp add: history_inputs_def)
qed

lemma count_true_window:
  assumes "skip + n \<le> len"
  shows "count_true (map (\<lambda>i. skip \<le> i \<and> i < skip + n) [0..<len]) = n"
proof -
  have "filter (\<lambda>i. skip \<le> i \<and> i < skip + n) [0..<skip + n + k] = [skip..<skip + n]" for k
  proof (induction k)
    case 0
    have "filter (\<lambda>i. skip \<le> i \<and> i < skip + n) [0..<skip] = []" by (simp add: filter_empty_conv)
    moreover have "filter (\<lambda>i. skip \<le> i \<and> i < skip + n) [skip..<skip + n] = [skip..<skip + n]" by simp
    ultimately show ?case using upt_add_eq_append [of 0 skip n] by simp
  qed simp
  from this [of "len - (skip + n)"] assms show ?thesis
    by (simp add: count_true_def filter_map comp_def)
qed

lemma round_up:
  assumes "0 < c" "(q - 1) * c < len" "len \<le> q * (c :: nat)"
  shows "int (q * c) = int len + int ((c - len mod c) mod c)"
proof -
  define d where "d = q * c - len"
  have q: "0 < q" using assms(2,3) by (cases q) auto
  have d: "len + d = q * c" "d < c" using assms q by (auto simp: d_def) (cases q; simp)
  have "(c - len mod c) mod c = d"
  proof (cases "d = 0")
    case True
    with d have "len mod c = 0" by (metis add.right_neutral mod_mult_self2_is_0)
    with True assms(1) show ?thesis by simp
  next
    case False
    have "len = (c - d) + (q - 1) * c" using d q by (cases q) auto
    then have "len mod c = c - d" using False d(2) by (metis diff_less mod_less mod_mult_self1 neq0_conv assms(1))
    with d(2) False show ?thesis by simp
  qed
  with d(1) show ?thesis by (metis of_nat_add)
qed

lemma attributed_sum:
  assumes "info \<noteq> []" "extra \<le> c"
  shows "sum_list (map (\<lambda>(w, old, n). n) (attributed c extra info)) = int (length info * c) - int extra"
proof -
  obtain x xs where info: "info = x # xs" using assms(1) by (cases info) auto
  have "sum_list (map (\<lambda>(w, old, n). n) (map (\<lambda>(i, was_new, old). (was_new, old, if i = 0 then int c - int extra else int c)) (zip [Suc 0..<Suc (length ys)] ys)))
      = int (length ys * c)" for ys :: "(bool \<times> int list) list"
  proof -
    have "map (\<lambda>(w, old, n). n) (map (\<lambda>(i, was_new, old). (was_new, old, if i = 0 then int c - int extra else int c)) (zip [Suc 0..<Suc (length ys)] ys))
        = replicate (length ys) (int c)"
      by (rule nth_equalityI) (auto simp: split_beta simp del: upt_Suc)
    then show ?thesis by (simp add: sum_list_replicate del: upt_Suc)
  qed
  from this [of xs] show ?thesis
    by (simp add: attributed_def info upt_conv_Cons split_beta algebra_simps del: upt_Suc)
qed

lemma served_retrieval:
  fixes mdl :: "'a kv_model"
  assumes "fresh_engine md junk c name ws wid = Inr e0" "py_nth (kv_shape md) 2 = Inr (int c)" "model_ok mdl"
    and "\<forall>r \<in> set rs. req_ok r" "valid_tokens toks" "skip \<le> length toks"
    and "sha_ok sha (history_inputs sha c rs toks)" "foldM (serve sha row es mdl) e0 rs = Inr e"
    and "fair_retrieve sha a clock toks (Some (suffix_mask (length toks) skip)) e = Inr (r, e')"
  shows "\<exists>n. skip + n \<le> length toks \<and> ret_mask r = map (\<lambda>i. skip \<le> i \<and> i < skip + n) [0..<length toks]
     \<and> ret_kv r = (if ret_keys r = [] then [] else kv_blob mdl ''vllm'' toks skip (skip + n))
     \<and> (ret_keys r \<noteq> [] \<longrightarrow> skip + n = min (length toks) ((skip div c + length (ret_keys r)) * c)
          \<and> skip div c + length (ret_keys r) \<le> length (chunk_list c toks)
          \<and> (\<exists>s :: (cache_key, 'a blob) fair_backend.
                ret_attribution r = attributed c (skip - skip div c * c) (get_attribution_info (call_client a) (ret_keys r) s)))"
proof -
  from history_state [OF assms(1-4,7,8)]
  have inv: "engine_inv sha mdl (req_tokens ` set rs) e" and c: "eng_chunk e = c"
    and sha: "sha_ok sha (byte_inputs sha (eng_chunk e) (insert toks (req_tokens ` set rs)))"
    and val: "\<forall>ts \<in> insert toks (req_tokens ` set rs). valid_tokens ts" using assms(5) by auto
  have fmt: "eng_fmt e = ''vllm''" using inv by (simp add: engine_inv_def)
  then have kf: "known_format (eng_fmt e)" by simp
  note facts = fair_chunks.retrieve_sound [OF engine_inv_sound [OF inv, of row es] assms(3) kf assms(6) sha val
      assms(9) [unfolded fair_retrieve_def], unfolded fmt c option.inject]
  show ?thesis using facts
    by (elim conjE exE) (intro exI conjI, assumption+, simp only: simp_thms)
qed

text \<open>
  C3.  The cache is transparent.  Serve any history of stores and retrievals, by any clients at any
  times, with a fresh engine over the fair backend, as long as the digests of the byte strings
  hashed are hexadecimal and do not collide.  Then whatever a retrieval returns is a prefix of
  the asked tokens (after the skipped ones), it is exactly the KV cache the model computes for
  these tokens, and the mask marks exactly them.
\<close>

theorem retrieved_kv_is_the_models:
  assumes "fresh_engine md junk c name ws wid = Inr e0" "py_nth (kv_shape md) 2 = Inr (int c)" "model_ok mdl"
    and "\<forall>r \<in> set rs. req_ok r" "valid_tokens toks" "skip \<le> length toks"
    and "sha_ok sha (history_inputs sha c rs toks)" "foldM (serve sha row es mdl) e0 rs = Inr e"
    and "fair_retrieve sha a clock toks (Some (suffix_mask (length toks) skip)) e = Inr (r, e')"
  shows "\<exists>n. skip + n \<le> length toks \<and> ret_mask r = map (\<lambda>i. skip \<le> i \<and> i < skip + n) [0..<length toks]
     \<and> ret_kv r = (if ret_keys r = [] then [] else kv_blob mdl ''vllm'' toks skip (skip + n))"
  using served_retrieval [OF assms] by blast

text \<open>
  C4.  What \<open>lookup\<close> announces is what \<open>retrieve\<close> delivers, for a request with a client: after any
  history \<open>retrieve\<close> raises nothing and returns exactly the announced number of tokens, the hit
  and miss counters grow by the tokens delivered and not delivered.
\<close>

theorem lookup_announces_retrieval:
  assumes "fresh_engine md junk c name ws wid = Inr e0" "py_nth (kv_shape md) 2 = Inr (int c)" "model_ok mdl"
    and "\<forall>r \<in> set rs. req_ok r" "valid_tokens toks" "0 < c" "has_client a"
    and "sha_ok sha (history_inputs sha c rs toks)" "foldM (serve sha row es mdl) e0 rs = Inr e"
  shows "\<exists>n r e'. fair_lookup sha toks e = Inr n \<and> n \<le> length toks \<and> fair_retrieve sha a clock toks None e = Inr (r, e')
     \<and> ret_mask r = map (\<lambda>i. i < n) [0..<length toks]
     \<and> ret_kv r = (if n = 0 then [] else kv_blob mdl ''vllm'' toks 0 n)
     \<and> eng_hit e' = eng_hit e + int n \<and> eng_miss e' = eng_miss e + int (length toks - n)"
proof -
  from history_state [OF assms(1-4,8,9)]
  have inv: "engine_inv sha mdl (req_tokens ` set rs) e" and c: "0 < eng_chunk e"
    and sha: "sha_ok sha (byte_inputs sha (eng_chunk e) (insert toks (req_tokens ` set rs)))"
    and val: "\<forall>ts \<in> insert toks (req_tokens ` set rs). valid_tokens ts" using assms(5,6) by auto
  have fmt: "eng_fmt e = ''vllm''" and cnt: "0 \<le> eng_hit e" "0 \<le> eng_miss e" using inv by (simp_all add: engine_inv_def)
  then have kf: "known_format (eng_fmt e)" by simp
  have touch: "\<exists>s'. chunk_touch u ks s = Inr s'" for u ks and s :: "(cache_key, 'a blob) fair_backend"
    by (simp add: chunk_touch_def)
  show ?thesis unfolding fair_lookup_def fair_retrieve_def
    by (rule fair_chunks.retrieve_announced [OF engine_inv_sound [OF inv, of row es] assms(3) kf c sha val assms(7) touch cnt,
          unfolded fmt])
qed

text \<open>
  C27.  Cost attribution counts whole chunks.  When a retrieval reaches the end of a prompt whose
  length is no multiple of the chunk size, the token counts it hands to the cost attribution
  exceed the tokens retrieved by the missing rest of the last chunk; otherwise they agree.
\<close>

theorem attribution_counts_whole_chunks:
  fixes mdl :: "'a kv_model"
  assumes "fresh_engine md junk c name ws wid = Inr e0" "py_nth (kv_shape md) 2 = Inr (int c)" "model_ok mdl"
    and "\<forall>r \<in> set rs. req_ok r" "valid_tokens toks" "skip < length toks"
    and "sha_ok sha (history_inputs sha c rs toks)" "foldM (serve sha row es mdl) e0 rs = Inr e"
    and "fair_retrieve sha a clock toks (Some (suffix_mask (length toks) skip)) e = Inr (r, e')" "ret_keys r \<noteq> []"
  shows "sum_list (map (\<lambda>(was_new, old, n). n) (ret_attribution r)) =
     int (count_true (ret_mask r))
       + (if skip + count_true (ret_mask r) = length toks then int ((c - length toks mod c) mod c) else 0)"
proof -
  from assms(6) have skip: "skip \<le> length toks" by simp
  let ?sk = "skip div c" and ?m = "length (ret_keys r)" and ?L = "length toks"
  from served_retrieval [OF assms(1-5) skip assms(7-9)] assms(10)
  obtain n and s :: "(cache_key, 'a blob) fair_backend" where n: "skip + n \<le> ?L" "ret_mask r = map (\<lambda>i. skip \<le> i \<and> i < skip + n) [0..<?L]"
    "skip + n = min ?L ((?sk + ?m) * c)" "?sk + ?m \<le> length (chunk_list c toks)"
    and att: "ret_attribution r = attributed c (skip - ?sk * c) (get_attribution_info (call_client a) (ret_keys r) s)"
    by blast
  have m: "0 < ?m" using assms(10) by simp
  have cpos: "0 < c" using n(4) m by (cases c) (simp_all add: chunk_list.simps)
  have info: "length (get_attribution_info cl ks s) = length ks" for cl ks
    by (simp add: get_attribution_info_def split: option.splits)
  have ne: "get_attribution_info (call_client a) (ret_keys r) s \<noteq> []"
    using assms(10) info [of "call_client a" "ret_keys r"] by (metis length_0_conv)
  have ex: "skip - ?sk * c \<le> c" using cpos
    by (metis less_imp_le minus_div_mult_eq_mod mod_less_divisor)
  have "sum_list (map (\<lambda>(was_new, old, n). n) (ret_attribution r)) = int (?m * c) - int (skip - ?sk * c)"
    unfolding att using attributed_sum [OF ne ex] info by simp
  also have "\<dots> = int ((?sk + ?m) * c) - int skip"
    by (simp add: of_nat_diff add_mult_distrib)
  finally have sum: "sum_list (map (\<lambda>(was_new, old, n). n) (ret_attribution r)) = int ((?sk + ?m) * c) - int skip" .
  have ct: "count_true (ret_mask r) = n" using n(1,2) count_true_window by simp
  show ?thesis
  proof (cases "skip + n = ?L")
    case True
    have "(?sk + ?m - 1) * c < ?L"
    proof -
      have "?sk + ?m - 1 < length (chunk_list c toks)" using n(4) m by linarith
      then show ?thesis by (simp only: chunk_list_index [OF cpos])
    qed
    moreover have "?L \<le> (?sk + ?m) * c" using True n(3) by simp
    ultimately have "int ((?sk + ?m) * c) = int ?L + int ((c - ?L mod c) mod c)"
      using round_up [OF cpos] by blast
    then show ?thesis using True sum ct by simp
  next
    case False
    then have "skip + n = (?sk + ?m) * c" using n(1,3) by simp
    then have "int ((?sk + ?m) * c) = int skip + int n" by (metis of_nat_add)
    then show ?thesis using False sum ct by simp
  qed
qed

text \<open>
  On the process that reports (the only one, or rank 0) no store succeeds: \<open>put\<close> calls a method
  the backend does not have, so that a store with at least one chunk to put raises after the
  first put; a store that returns has put nothing.
\<close>

theorem reporting_process_never_stores:
  assumes "fair_store sha row es env toks raw msk flag e = Inr (n, e')" "call_reports (env 0)" "has_client (env 0)"
  shows "n = 0 \<and> e' = e"
proof -
  have never: "chunk_put row es (env 0) k v s = Inr s' \<Longrightarrow> False" for k v s s'
    using assms(2,3) by (auto simp: chunk_put_def fair_put_def fb_put_def has_client_def split: option.splits)
  from store_puts [OF assms(1) [unfolded fair_store_def]] obtain kvs s where bp: "batched_put (chunk_put row es) env kvs (eng_store e) = Inr (n, s)"
    and e': "e' = e\<lparr>eng_store := s\<rparr>"
    by blast
  have "rev kvs = []"
    using bp never by (cases "rev kvs") (auto simp: batched_put_def)
  with bp e' show ?thesis by (simp add: batched_put_def)
qed

definition demo_model :: "int kv_model" where
  "demo_model = \<lparr>mdl_layers = 1, mdl_heads = 1, mdl_kv = (\<lambda>l j ts. [sum_list ts])\<rparr>"

definition demo_sha :: "int list \<Rightarrow> string" where
  "demo_sha bs = replicate 64 (if bs = token_bytes 5 then CHR ''a'' else CHR ''b'')"

definition demo_metadata :: pool_metadata where
  "demo_metadata = \<lparr>kv_shape = [1, 2, 1, 1, 1], kv_itemsize = 1, max_local_cache_size = 2 / 1024 ^ 3\<rparr>"

definition demo_call :: "cache_key fair_call" where
  "demo_call = \<lparr>call_client = Some 7, call_type = ''chat'', call_reports = False, call_retrieved = [],
     call_lambda = None, call_time = 0\<rparr>"

definition demo_pool_state :: "int blob local_pool" where
  "demo_pool_state = \<lparr>pool_chunk_size = 1, max_chunk_num = 2, size_per_chunk = 2, mem_pool = [[], []], free_pool = [0, 1]\<rparr>"

lemma demo_pool_eq: "new_pool demo_metadata (\<lambda>_. []) = Inr demo_pool_state"
  by (simp add: new_pool_def demo_metadata_def shape_size_def init_max_chunk_num_def py_nth_def demo_pool_state_def
      Let_def numeral_2_eq_2 upt_rec)

definition demo_engine :: "(cache_key, int blob) fair_backend engine" where
  "demo_engine = new_engine 1 ''vllm'' ''m'' 1 0
     \<lparr>fb_dict = [], fb_ev = fe_init (2 / 1024 ^ 3) 2 (1 / 100), fb_pool = demo_pool_state\<rparr>"

lemma demo_engine_fresh: "fresh_engine demo_metadata (\<lambda>_. []) 1 ''m'' 1 0 = Inr demo_engine"
  by (simp add: fresh_engine_def new_fair_backend_def demo_pool_eq demo_engine_def)
     (simp add: demo_metadata_def demo_pool_state_def)

section \<open>A served history\<close>

text \<open>One prompt of one token is stored and retrieved.\<close>

lemma payload_as_tensor [simp]: "payload (as_tensor tok num es p) = p"
  by (simp add: as_tensor_def)

definition demo_request :: request where
  "demo_request = StoreReq [5] 0 True (\<lambda>_. demo_call)"

definition demo_key :: cache_key where
  "demo_key = make_key demo_engine (replicate 64 CHR ''a'')"

definition demo_chunk :: "int blob" where
  "demo_chunk = [[[[5]], [[5]]]]"

definition demo_stored :: "(cache_key, int blob) fair_backend" where
  "demo_stored =
     \<lparr>fb_dict = [(demo_key, \<lparr>entry_obj = \<lparr>chunk_idx = Suc 0, kv_size = 2, view_tok = 1\<rparr>, last_access_time = 0,
                            access_map = [(7, 0)], lambda_val = 1 / 100, entry_value = 0\<rparr>)],
      fb_ev = \<lparr>max_size = 2, fe_chunk = 2, threshold = 1 / 100, cur_size = 2,
               client_heaps = [(7, [(1 / 100, [(0, demo_key)])])], global_heaps = [(1 / 100, [(0, demo_key)])],
               client_sizes = [(7, 2)], key_to_clients = [(demo_key, {7})]\<rparr>,
      fb_pool = \<lparr>pool_chunk_size = 1, max_chunk_num = 2, size_per_chunk = 2, mem_pool = [[], demo_chunk], free_pool = [0]\<rparr>\<rparr>"

lemma demo_put_begin:
  "fb_put_begin k (as_tensor blob_dim2 (blob_numel 1) 1 demo_chunk) [] 0 (eng_store demo_engine) =
     Inr (Some \<lparr>chunk_idx = Suc 0, kv_size = 2, view_tok = 1\<rparr>,
       \<lparr>fb_dict = [], fb_ev = \<lparr>max_size = 2, fe_chunk = 2, threshold = 1 / 100, cur_size = 2, client_heaps = [],
                              global_heaps = [], client_sizes = [], key_to_clients = []\<rparr>,
        fb_pool = \<lparr>pool_chunk_size = 1, max_chunk_num = 2, size_per_chunk = 2, mem_pool = [[], []], free_pool = [0]\<rparr>\<rparr>)"
  by (simp add: demo_chunk_def demo_engine_def new_engine_def fb_put_begin_def fe_update_on_put_def as_tensor_def
      blob_dim2_def blob_numel_def tensor_size_def mat_cols_def demo_pool_state_def pool_allocate_def pool_view_def
      fe_init_def evict_below_threshold.simps evict_from_clients.simps Let_def dhas_def)

lemma demo_put: "chunk_put 1 1 demo_call demo_key demo_chunk (eng_store demo_engine) = Inr demo_stored"
  by (simp add: chunk_put_def fair_put_def fb_put_def demo_call_def fb_put_blocking_def demo_put_begin choose_lambda_def
      lambda_low_def lambda_high_def fb_put_copy_def fb_put_finish_def pool_write_def register_new_cache_def new_entry_def
      update_value_def update_access_time_def calculate_value_def note_client_def update_client_heap_def
      update_global_heap_def heappush_def add_size_def dget_or_def Let_def entry_size_def demo_stored_def
      del: bindr_Inr_iff)

lemma demo_chain: "hash_chain demo_sha '''' (chunk_list 1 [5]) = [replicate 64 CHR ''a'']"
  by (simp add: chunk_list.simps chunk_hash_def demo_sha_def ascii_bytes_def)

lemma demo_blob: "kv_blob demo_model ''vllm'' [5] 0 1 = demo_chunk"
  by (simp add: kv_blob_def kv_mat_def demo_model_def mat_of_def demo_chunk_def)

lemma demo_num: "num_tokens_in_kv ''vllm'' demo_chunk = Inr 1" "tuple_kv_to_blob demo_chunk = Inr demo_chunk"
  "slice_kv_at 1 0 ''vllm'' demo_chunk = Inr [demo_chunk]"
  by (simp_all add: num_tokens_in_kv_def tuple_kv_to_blob_def demo_chunk_def py_nth_def stack_def mat_shape_def mat_cols_def
      slice_kv_at_def known_format_def map_blob_def drop_tokens_def take_tokens_def blob_tokens_def token_extent_def Let_def)

lemma demo_engine_simps:
  "eng_chunk demo_engine = 1" "eng_fmt demo_engine = ''vllm''" "fb_dict (eng_store demo_engine) = []"
  "eng_hit demo_engine = 0" "eng_miss demo_engine = 0"
  by (simp_all add: demo_engine_def new_engine_def)

lemma demo_served: "foldM (serve demo_sha 1 1 demo_model) demo_engine [demo_request] = Inr (demo_engine\<lparr>eng_store := demo_stored\<rparr>)"
proof -
  have "make_chunks demo_sha fb_contains demo_engine [5] demo_chunk 0 True = Inr [(replicate 64 CHR ''a'', demo_chunk)]"
    by (simp add: make_chunks_def make_chunks_skip_existing_def chunk_tokens_def prefix_hash_def demo_chain [simplified]
        demo_engine_simps demo_num [simplified] Let_def fb_contains_def dhas_def del: bindr_Inr_iff)
  moreover have "batched_put (chunk_put 1 1) (\<lambda>_. demo_call) [(demo_key, demo_chunk)] (eng_store demo_engine) = Inr (1, demo_stored)"
    by (simp add: batched_put_def demo_put del: bindr_Inr_iff)
  ultimately show ?thesis
    by (simp add: demo_request_def fair_store_def store_def demo_engine_simps demo_blob [simplified] demo_num [simplified]
        suffix_mask_def count_true_def Let_def demo_key_def [symmetric] del: bindr_Inr_iff)
qed

lemma demo_retrieved:
  "\<exists>r e'. fair_retrieve demo_sha demo_call (\<lambda>_. 1) [5] (Some (suffix_mask (length [5 :: int]) 0)) (demo_engine\<lparr>eng_store := demo_stored\<rparr>) = Inr (r, e')
     \<and> ret_keys r = [demo_key] \<and> ret_kv r = demo_chunk"
proof -
  let ?e = "demo_engine\<lparr>eng_store := demo_stored\<rparr>"
  have keys: "map (make_key ?e) (prefix_hash demo_sha 0 (chunk_list 1 [5])) = [demo_key]"
    by (simp add: prefix_hash_def demo_chain [simplified] make_key_def demo_key_def)
  have got: "take_until_missing fb_contains chunk_get (\<lambda>_. demo_call) [demo_key] demo_stored = Inr ([(demo_key, demo_chunk)], demo_stored)"
    by (simp add: get_one_def fb_contains_def demo_stored_def dhas_def chunk_get_def fb_get_def demo_call_def pool_read_def
        del: bindr_Inr_iff)
  have cat: "cat_blobs ''vllm'' [demo_chunk] = Inr demo_chunk" "blob_tokens ''vllm'' demo_chunk = 1"
    "blob_to_tuple_kv demo_chunk = demo_chunk"
    by (simp_all add: cat_blobs_def demo_chunk_def cat_mats_def upt_rec blob_tokens_def token_extent_def blob_to_tuple_kv_def)
  define s2 where "s2 = update_after_get (call_client demo_call) [(demo_key, 1)] demo_stored"
  define info where "info = get_attribution_info (call_client demo_call) [demo_key] demo_stored"
  have "fair_retrieve demo_sha demo_call (\<lambda>_. 1) [5] (Some (suffix_mask (length [5 :: int]) 0)) ?e
      = retrieve_finish 0 0 [5] [(demo_key, demo_chunk)] info (demo_engine\<lparr>eng_store := s2\<rparr>)"
    by (simp add: fair_retrieve_def retrieve_def suffix_mask_def count_true_def demo_engine_simps chunk_tokens_def
        keys [simplified] got chunk_touch_def s2_def info_def Let_def del: bindr_Inr_iff take_until_missing.simps)
  moreover have "\<exists>r e'. retrieve_finish 0 0 [5] [(demo_key, demo_chunk)] info (demo_engine\<lparr>eng_store := s2\<rparr>) = Inr (r, e')
      \<and> ret_keys r = [demo_key] \<and> ret_kv r = demo_chunk"
    by (simp add: retrieve_finish_def Let_def demo_engine_simps demo_num [simplified] cat [simplified])
  ultimately show ?thesis by simp
qed

lemma demo_sha_ok: "sha_ok demo_sha (history_inputs demo_sha 1 [demo_request] [5])"
proof -
  have "history_inputs demo_sha 1 [demo_request] [5] = {token_bytes 5}"
    by (simp add: history_inputs_def byte_inputs_def demo_request_def chunk_list.simps ascii_bytes_def)
  then show ?thesis by (simp add: sha_ok_def hex_digest_def demo_sha_def)
qed

lemma demo_model_ok: "model_ok demo_model"
  by (simp add: model_ok_def demo_model_def)

lemma demo_requests: "\<forall>r \<in> set [demo_request]. req_ok r" "valid_tokens [5]" "has_client demo_call"
  "py_nth (kv_shape demo_metadata) 2 = Inr (int 1)"
  by (simp_all add: demo_request_def valid_tokens_def has_client_def demo_call_def demo_metadata_def py_nth_def)

lemma retrieved_kv_is_the_models_witness:
  "\<exists>r e' n. fair_retrieve demo_sha demo_call (\<lambda>_. 1) [5] (Some (suffix_mask (length [5 :: int]) 0)) (demo_engine\<lparr>eng_store := demo_stored\<rparr>) = Inr (r, e')
     \<and> ret_keys r = [demo_key] \<and> ret_mask r = map (\<lambda>i. 0 \<le> i \<and> i < 0 + n) [0..<length [5 :: int]]
     \<and> ret_kv r = (if ret_keys r = [] then [] else kv_blob demo_model ''vllm'' [5] 0 (0 + n))"
proof -
  obtain r e' where r: "fair_retrieve demo_sha demo_call (\<lambda>_. 1) [5] (Some (suffix_mask (length [5 :: int]) 0))
      (demo_engine\<lparr>eng_store := demo_stored\<rparr>) = Inr (r, e')" "ret_keys r = [demo_key]"
    using demo_retrieved by blast
  from retrieved_kv_is_the_models [OF demo_engine_fresh demo_requests(4) demo_model_ok demo_requests(1,2) _ demo_sha_ok demo_served r(1)]
  show ?thesis using r by blast
qed

lemma lookup_announces_retrieval_witness:
  "\<exists>n r e'. fair_lookup demo_sha [5] (demo_engine\<lparr>eng_store := demo_stored\<rparr>) = Inr n
     \<and> fair_retrieve demo_sha demo_call (\<lambda>_. 1) [5] None (demo_engine\<lparr>eng_store := demo_stored\<rparr>) = Inr (r, e')"
  using lookup_announces_retrieval [OF demo_engine_fresh demo_requests(4) demo_model_ok demo_requests(1,2) _ demo_requests(3)
      demo_sha_ok demo_served, of "\<lambda>_. 1"]
  by auto

lemma attribution_counts_whole_chunks_witness:
  "\<exists>r e'. fair_retrieve demo_sha demo_call (\<lambda>_. 1) [5] (Some (suffix_mask (length [5 :: int]) 0)) (demo_engine\<lparr>eng_store := demo_stored\<rparr>) = Inr (r, e')
     \<and> sum_list (map (\<lambda>(was_new, old, n). n) (ret_attribution r)) = int (count_true (ret_mask r))"
proof -
  obtain r e' where r: "fair_retrieve demo_sha demo_call (\<lambda>_. 1) [5] (Some (suffix_mask (length [5 :: int]) 0))
      (demo_engine\<lparr>eng_store := demo_stored\<rparr>) = Inr (r, e')" "ret_keys r = [demo_key]"
    using demo_retrieved by blast
  from attribution_counts_whole_chunks [OF demo_engine_fresh demo_requests(4) demo_model_ok demo_requests(1,2) _ demo_sha_ok
      demo_served r(1)] r show ?thesis by auto
qed

lemma reporting_process_never_stores_witness:
  "\<exists>e. fair_store demo_sha 1 1 (\<lambda>_. demo_call\<lparr>call_reports := True\<rparr>) [5] (kv_blob demo_model ''vllm'' [5] 0 1) None True
         (demo_engine\<lparr>eng_store := demo_stored\<rparr>) = Inr (0, e)
     \<and> e = demo_engine\<lparr>eng_store := demo_stored\<rparr>"
proof -
  let ?e = "demo_engine\<lparr>eng_store := demo_stored\<rparr>"
  have "make_key ?e (replicate 64 CHR ''a'') = demo_key" by (simp add: make_key_def demo_key_def)
  then have "make_chunks demo_sha fb_contains ?e [5] demo_chunk 0 True = Inr []"
    by (simp add: make_chunks_def make_chunks_skip_existing_def chunk_tokens_def prefix_hash_def demo_chain [simplified]
        demo_engine_simps demo_num [simplified] Let_def fb_contains_def dhas_def demo_stored_def del: bindr_Inr_iff)
  then have st: "fair_store demo_sha 1 1 (\<lambda>_. demo_call\<lparr>call_reports := True\<rparr>) [5] (kv_blob demo_model ''vllm'' [5] 0 1) None True ?e
      = Inr (0, ?e)"
    by (simp add: fair_store_def store_def demo_engine_simps demo_blob [simplified] demo_num [simplified]
        count_true_def Let_def batched_put_def del: bindr_Inr_iff)
  from reporting_process_never_stores [OF st] st show ?thesis by (simp add: has_client_def demo_call_def)
qed

end
