(* ===== verification/Sequence.thy ===== *)
theory Sequence
  imports Prelude
begin

text \<open>
  The requests the scheduler handles, from \<open>vllm-0.6.2/vllm/sequence.py\<close>: the status and stage
  enumerations, \<open>SequenceData\<close> (\<open>seq_data\<close>: prompt and output tokens, the cached concatenation,
  the count of computed tokens and the tokens not yet sent to the workers), \<open>Sequence\<close>
  (\<open>sequence\<close>) and \<open>SequenceGroup\<close> (\<open>seq_group\<close>), each as a record whose fields are the
  attributes, with one definition per method.  A method that assigns to \<open>self\<close> returns the
  updated record; one that can raise returns a \<open>result\<close>.

  A group's \<open>seqs\<close> and \<open>seqs_dict\<close> hold the same objects, so the dictionary is modelled by
  its keys and a lookup reads the sequence from \<open>seqs\<close>.  The shared lemmas are the
  well-formedness of sequence data, the delta exchange with a worker's copy, and the group's
  counts.
\<close>

section \<open>Status and stage\<close>

datatype seq_status =
    WAITING
  | RUNNING
  | SWAPPED
  | FINISHED_STOPPED
  | FINISHED_LENGTH_CAPPED
  | FINISHED_ABORTED
  | FINISHED_IGNORED

primrec status_value :: "seq_status \<Rightarrow> int" where
  "status_value WAITING = 0"
| "status_value RUNNING = 1"
| "status_value SWAPPED = 2"
| "status_value FINISHED_STOPPED = 3"
| "status_value FINISHED_LENGTH_CAPPED = 4"
| "status_value FINISHED_ABORTED = 5"
| "status_value FINISHED_IGNORED = 6"

definition is_finished :: "seq_status \<Rightarrow> bool" where
  "is_finished st \<longleftrightarrow> status_value st > status_value SWAPPED"

definition get_finished_reason :: "seq_status \<Rightarrow> string option" where
  "get_finished_reason st =
     (if st = FINISHED_STOPPED then Some ''stop''
      else if st = FINISHED_LENGTH_CAPPED then Some ''length''
      else if st = FINISHED_ABORTED then Some ''abort''
      else if st = FINISHED_IGNORED then Some ''length''
      else None)"

datatype seq_stage = PREFILL | DECODE

lemma is_finished_iff [simp]:
  "is_finished st \<longleftrightarrow> st \<notin> {WAITING, RUNNING, SWAPPED}"
  by (cases st) (simp_all add: is_finished_def)

lemma finished_reason_iff: "get_finished_reason st \<noteq> None \<longleftrightarrow> is_finished st"
  by (cases st) (simp_all add: get_finished_reason_def)

section \<open>SequenceData\<close>

record seq_data =
  prompt_toks :: "int list"
  output_toks :: "int list"
  cum_logprob :: real
  num_computed :: int
  sd_stage :: seq_stage
  cached_all :: "int list"
  new_appended :: "int list"

record seq_delta =
  new_output_token_ids :: "int list"
  new_cumulative_logprob :: real
  new_num_computed_tokens :: int
  new_stage :: seq_stage

definition update_cached_all_tokens :: "seq_data \<Rightarrow> seq_data" where
  "update_cached_all_tokens d = d\<lparr>cached_all := prompt_toks d @ output_toks d\<rparr>"

definition from_seqs :: "int list \<Rightarrow> int list option \<Rightarrow> seq_data" where
  "from_seqs prompt out =
     update_cached_all_tokens
       \<lparr>prompt_toks = prompt, output_toks = (case out of None \<Rightarrow> [] | Some ts \<Rightarrow> ts),
        cum_logprob = 0, num_computed = 0, sd_stage = PREFILL, cached_all = [],
        new_appended = []\<rparr>"

definition from_token_counts :: "(int \<times> nat) list \<Rightarrow> seq_data" where
  "from_token_counts tcs = from_seqs (concat (map (\<lambda>(t, n). replicate n t) tcs)) None"

definition set_output_token_ids :: "int list \<Rightarrow> seq_data \<Rightarrow> seq_data" where
  "set_output_token_ids ts d = update_cached_all_tokens (d\<lparr>output_toks := ts\<rparr>)"

definition sd_append_token_id :: "int \<Rightarrow> real \<Rightarrow> seq_data \<Rightarrow> seq_data" where
  "sd_append_token_id t lp d =
     d\<lparr>output_toks := output_toks d @ [t], new_appended := new_appended d @ [t],
       cached_all := cached_all d @ [t], cum_logprob := cum_logprob d + lp\<rparr>"

definition sd_len :: "seq_data \<Rightarrow> int" where
  "sd_len d = int (length (output_toks d)) + int (length (prompt_toks d))"

definition sd_prompt_len :: "seq_data \<Rightarrow> int" where
  "sd_prompt_len d = int (length (prompt_toks d))"

definition sd_output_len :: "seq_data \<Rightarrow> int" where
  "sd_output_len d = int (length (output_toks d))"

definition get_prefix_token_ids :: "seq_data \<Rightarrow> int \<Rightarrow> int list \<times> int list option" where
  "get_prefix_token_ids d n =
     (if n > sd_prompt_len d
      then (prompt_toks d, Some (slice_to (output_toks d) (n - sd_prompt_len d)))
      else (slice_to (prompt_toks d) n, None))"

definition sd_num_uncomputed :: "seq_data \<Rightarrow> int" where
  "sd_num_uncomputed d = sd_len d - num_computed d"

definition sd_update_num_computed :: "int \<Rightarrow> seq_data \<Rightarrow> seq_data result" where
  "sd_update_num_computed n d =
     (let d1 = d\<lparr>num_computed := num_computed d + n\<rparr> in
      assert_py (num_computed d1 \<le> sd_len d1)
        (Inr (if sd_num_uncomputed d1 = 0 then d1\<lparr>sd_stage := DECODE\<rparr> else d1)))"

definition sd_reset_for_recompute :: "seq_data \<Rightarrow> seq_data" where
  "sd_reset_for_recompute d = d\<lparr>num_computed := 0, sd_stage := PREFILL, new_appended := []\<rparr>"

definition sd_last_token_id :: "seq_data \<Rightarrow> int result" where
  "sd_last_token_id d =
     (if output_toks d = [] then py_nth (prompt_toks d) (- 1)
      else py_nth (output_toks d) (- 1))"

definition get_delta_and_reset :: "seq_data \<Rightarrow> seq_delta \<times> seq_data" where
  "get_delta_and_reset d =
     (\<lparr>new_output_token_ids = new_appended d, new_cumulative_logprob = cum_logprob d,
       new_num_computed_tokens = num_computed d, new_stage = sd_stage d\<rparr>,
      d\<lparr>new_appended := []\<rparr>)"

definition apply_delta :: "seq_delta \<Rightarrow> seq_data \<Rightarrow> seq_data" where
  "apply_delta dl d =
     d\<lparr>num_computed := new_num_computed_tokens dl,
       cum_logprob := new_cumulative_logprob dl,
       sd_stage := new_stage dl,
       output_toks := output_toks d @ new_output_token_ids dl,
       cached_all := cached_all d @ new_output_token_ids dl\<rparr>"

text \<open>
  Well-formed data: the cached list is the concatenation, the computed count lies between zero
  and the length, and in the prefill stage of a sequence some token is still to be computed only
  when the count is below the length.
\<close>

definition sd_ok :: "seq_data \<Rightarrow> bool" where
  "sd_ok d \<longleftrightarrow> cached_all d = prompt_toks d @ output_toks d
     \<and> 0 \<le> num_computed d \<and> num_computed d \<le> sd_len d"

lemmas sd_defs = sd_ok_def sd_len_def sd_prompt_len_def sd_output_len_def sd_num_uncomputed_def
  update_cached_all_tokens_def

lemma sd_ok_from_seqs [intro]: "sd_ok (from_seqs p out)"
  by (simp add: from_seqs_def sd_defs)

lemma sd_ok_append [intro]: "sd_ok d \<Longrightarrow> sd_ok (sd_append_token_id t lp d)"
  by (simp add: sd_append_token_id_def sd_defs)

lemma sd_ok_reset [intro]: "sd_ok d \<Longrightarrow> sd_ok (sd_reset_for_recompute d)"
  by (simp add: sd_reset_for_recompute_def sd_defs)

lemma sd_ok_update:
  "sd_ok d \<Longrightarrow> 0 \<le> n \<Longrightarrow> sd_update_num_computed n d = Inr d' \<Longrightarrow> sd_ok d'"
  by (auto simp: sd_update_num_computed_def sd_defs Let_def split: if_splits)

lemma sd_ok_delta [intro]: "sd_ok d \<Longrightarrow> sd_ok (snd (get_delta_and_reset d))"
  by (simp add: get_delta_and_reset_def sd_defs)

lemma sd_update_num_computed_total:
  "(\<exists>d'. sd_update_num_computed n d = Inr d') \<longleftrightarrow> num_computed d + n \<le> sd_len d"
  by (auto simp: sd_update_num_computed_def sd_len_def Let_def assert_py_def)

lemma sd_update_decode:
  assumes "sd_update_num_computed n d = Inr d'" "n = sd_num_uncomputed d"
  shows "sd_stage d' = DECODE" "sd_num_uncomputed d' = 0"
  using assms by (auto simp: sd_update_num_computed_def sd_defs Let_def split: if_splits)

lemma sd_last_token_total:
  "(\<exists>t. sd_last_token_id d = Inr t) \<longleftrightarrow> sd_len d > 0"
  by (cases "prompt_toks d"; cases "output_toks d")
    (simp_all add: sd_last_token_id_def py_nth_def sd_len_def Let_def)

text \<open>
  The worker's copy.  \<open>sd_synced d w\<close> says that the copy \<open>w\<close> lacks exactly the tokens
  recorded in \<open>new_appended\<close>, which is what a delta carries.
\<close>

definition sd_synced :: "seq_data \<Rightarrow> seq_data \<Rightarrow> bool" where
  "sd_synced d w \<longleftrightarrow> prompt_toks w = prompt_toks d
     \<and> output_toks d = output_toks w @ new_appended d
     \<and> cached_all d = cached_all w @ new_appended d"

lemma sd_synced_append: "sd_synced d w \<Longrightarrow> sd_synced (sd_append_token_id t lp d) w"
  by (simp add: sd_synced_def sd_append_token_id_def)

lemma sd_synced_update:
  "sd_synced d w \<Longrightarrow> sd_update_num_computed n d = Inr d' \<Longrightarrow> sd_synced d' w"
  by (auto simp: sd_synced_def sd_update_num_computed_def Let_def split: if_splits)

lemma apply_delta_synced:
  assumes "sd_synced d w" "get_delta_and_reset d = (dl, d')"
  shows "sd_synced d' (apply_delta dl w)"
    and "num_computed (apply_delta dl w) = num_computed d"
    and "sd_stage (apply_delta dl w) = sd_stage d"
    and "cum_logprob (apply_delta dl w) = cum_logprob d"
  using assms by (auto simp: sd_synced_def get_delta_and_reset_def apply_delta_def)

lemma sd_synced_equal:
  "sd_synced d w \<Longrightarrow> new_appended d = [] \<Longrightarrow>
     output_toks w = output_toks d \<and> cached_all w = cached_all d"
  by (simp add: sd_synced_def)

text \<open>What the driver does to the data between two deltas.\<close>

datatype sd_event = Appended int real | Computed int

primrec sd_event_step :: "sd_event \<Rightarrow> seq_data \<Rightarrow> seq_data result" where
  "sd_event_step (Appended t lp) d = Inr (sd_append_token_id t lp d)"
| "sd_event_step (Computed n) d = sd_update_num_computed n d"

definition sd_run :: "sd_event list \<Rightarrow> seq_data \<Rightarrow> seq_data result" where
  "sd_run evs d = foldM (\<lambda>d e. sd_event_step e d) d evs"

lemma sd_run_synced: "sd_synced d w \<Longrightarrow> sd_run evs d = Inr d' \<Longrightarrow> sd_synced d' w"
  unfolding sd_run_def
proof (erule foldM_invariant [where P = "\<lambda>d. sd_synced d w", rotated])
  fix s e t
  assume "sd_synced s w" "sd_event_step e s = Inr t"
  then show "sd_synced t w"
    by (cases e) (auto intro: sd_synced_append sd_synced_update)
qed assumption

text \<open>
  C21.  The delta protocol between the driver and its workers is exact: start with equal
  copies and nothing pending, let the driver append tokens and count computed ones in any order
  that does not raise, send one delta; then the worker's copy equals the driver's in every
  field both maintain, and nothing is pending.  Iterating the statement gives it for any number
  of deltas.
\<close>

theorem delta_protocol_exact:
  assumes "output_toks w = output_toks d" "cached_all w = cached_all d"
    and "prompt_toks w = prompt_toks d" "new_appended d = []"
    and "sd_run evs d = Inr d1" "get_delta_and_reset d1 = (dl, d2)"
  shows "apply_delta dl w = d2\<lparr>new_appended := new_appended w\<rparr> \<and> new_appended d2 = []"
proof -
  have "sd_synced d w" using assms by (simp add: sd_synced_def)
  from sd_run_synced [OF this assms(5)] have s: "sd_synced d1 w" .
  from apply_delta_synced [OF s assms(6)] assms(6) s show ?thesis
    by (auto simp: get_delta_and_reset_def apply_delta_def sd_synced_def
        intro!: seq_data.equality)
qed

lemma delta_protocol_exact_witness:
  "apply_delta \<lparr>new_output_token_ids = [9], new_cumulative_logprob = - 1,
      new_num_computed_tokens = 2, new_stage = PREFILL\<rparr> (from_seqs [5, 6] None)
    = (sd_append_token_id 9 (- 1) (from_seqs [5, 6] None))
        \<lparr>num_computed := 2, new_appended := []\<rparr>"
  using delta_protocol_exact [of "from_seqs [5, 6] None" "from_seqs [5, 6] None"
      "[Appended 9 (- 1), Computed 2]"
      "(sd_append_token_id 9 (- 1) (from_seqs [5, 6] None))\<lparr>num_computed := 2\<rparr>"
      "\<lparr>new_output_token_ids = [9], new_cumulative_logprob = - 1,
        new_num_computed_tokens = 2, new_stage = PREFILL\<rparr>"
      "(sd_append_token_id 9 (- 1) (from_seqs [5, 6] None))
        \<lparr>num_computed := 2, new_appended := []\<rparr>"]
  by (simp add: from_seqs_def sd_run_def sd_append_token_id_def sd_update_num_computed_def
      get_delta_and_reset_def sd_defs assert_py_def)

section \<open>Sequence\<close>

record sequence =
  seq_id :: int
  seq_block_size :: int
  eos_token_id :: "int option"
  seq_lora :: "int option"
  seq_data :: seq_data
  output_logprobs :: "(int, real) dict list"
  output_text :: string
  seq_status :: seq_status
  last_ids_offset :: int
  last_text_offset :: int

definition new_sequence :: "int \<Rightarrow> int list \<Rightarrow> int \<Rightarrow> int option \<Rightarrow> int option \<Rightarrow> sequence" where
  "new_sequence sid prompt bs eos lora =
     \<lparr>seq_id = sid, seq_block_size = bs, eos_token_id = eos, seq_lora = lora,
      seq_data = from_seqs prompt None, output_logprobs = [], output_text = [],
      seq_status = WAITING, last_ids_offset = 0, last_text_offset = 0\<rparr>"

definition seq_len :: "sequence \<Rightarrow> int" where
  "seq_len s = sd_len (seq_data s)"

definition seq_prompt_len :: "sequence \<Rightarrow> int" where
  "seq_prompt_len s = sd_prompt_len (seq_data s)"

definition seq_output_len :: "sequence \<Rightarrow> int" where
  "seq_output_len s = sd_output_len (seq_data s)"

definition seq_token_ids :: "sequence \<Rightarrow> int list" where
  "seq_token_ids s = cached_all (seq_data s)"

definition n_blocks :: "sequence \<Rightarrow> int" where
  "n_blocks s = (seq_len s + seq_block_size s - 1) div seq_block_size s"

definition lora_int_id :: "sequence \<Rightarrow> int" where
  "lora_int_id s = (case seq_lora s of None \<Rightarrow> 0 | Some i \<Rightarrow> i)"

definition seq_is_finished :: "sequence \<Rightarrow> bool" where
  "seq_is_finished s \<longleftrightarrow> is_finished (seq_status s)"

definition seq_is_prefill :: "sequence \<Rightarrow> bool" where
  "seq_is_prefill s \<longleftrightarrow> sd_stage (seq_data s) = PREFILL"

definition seq_num_new_tokens :: "sequence \<Rightarrow> int" where
  "seq_num_new_tokens s =
     (if sd_stage (seq_data s) = DECODE then 1 else sd_num_uncomputed (seq_data s))"

definition seq_reset_for_recompute :: "sequence \<Rightarrow> sequence" where
  "seq_reset_for_recompute s = s\<lparr>seq_data := sd_reset_for_recompute (seq_data s)\<rparr>"

definition seq_append_token_id :: "int \<Rightarrow> (int, real) dict \<Rightarrow> sequence \<Rightarrow> sequence result" where
  "seq_append_token_id t lps s =
     (case map_of lps t of
        None \<Rightarrow> Inl AssertionError
      | Some lp \<Rightarrow>
          Inr (s\<lparr>output_logprobs := output_logprobs s @ [lps],
                  seq_data := sd_append_token_id t lp (seq_data s)\<rparr>))"

definition num_hashed_tokens_of_block :: "sequence \<Rightarrow> int \<Rightarrow> int" where
  "num_hashed_tokens_of_block s i = i * seq_block_size s + seq_block_size s"

definition hash_of_block ::
  "((int list \<times> int list option) \<times> int \<Rightarrow> int) \<Rightarrow> sequence \<Rightarrow> int \<Rightarrow> int" where
  "hash_of_block hsh s i =
     hsh (get_prefix_token_ids (seq_data s) (num_hashed_tokens_of_block s i), lora_int_id s)"

definition output_text_to_return :: "int \<Rightarrow> bool \<Rightarrow> sequence \<Rightarrow> string \<times> sequence" where
  "output_text_to_return buf delta s =
     (let truncate = (buf \<noteq> 0 \<and> \<not> seq_is_finished s) in
      if \<not> delta then
        (if truncate then slice_to (output_text s) (- buf) else output_text s, s)
      else
        (let n = int (length (output_text s));
             m = (if truncate then n - buf else n);
             off = last_text_offset s in
         if off < m then (slice (output_text s) off m, s\<lparr>last_text_offset := m\<rparr>)
         else ([], s)))"

definition output_ids_to_return :: "bool \<Rightarrow> sequence \<Rightarrow> int list result \<times> sequence" where
  "output_ids_to_return delta s =
     (if \<not> delta then (Inr (output_toks (seq_data s)), s)
      else
        (let outlen = seq_output_len s;
             new = outlen - last_ids_offset s;
             s' = s\<lparr>last_ids_offset := outlen\<rparr> in
         if new = 1 then (bindr (py_nth (seq_token_ids s) (- 1)) (\<lambda>t. Inr [t]), s')
         else (Inr (slice_from (seq_token_ids s) (- new)), s')))"

definition seq_fork :: "int \<Rightarrow> sequence \<Rightarrow> sequence" where
  "seq_fork sid s = s\<lparr>seq_id := sid\<rparr>"

lemma n_blocks_cdiv:
  assumes "0 < seq_block_size s"
  shows "n_blocks s * seq_block_size s \<ge> seq_len s"
    and "n_blocks s * seq_block_size s < seq_len s + seq_block_size s"
proof -
  let ?b = "seq_block_size s" and ?m = "seq_len s + seq_block_size s - 1"
  have "?m = ?b * n_blocks s + ?m mod ?b" by (simp add: n_blocks_def)
  moreover have "0 \<le> ?m mod ?b" "?m mod ?b < ?b" using assms by simp_all
  ultimately show "n_blocks s * ?b \<ge> seq_len s" "n_blocks s * ?b < seq_len s + ?b"
    by (simp_all add: mult.commute)
qed

lemma get_prefix_flat:
  assumes "0 \<le> n"
  shows "(case get_prefix_token_ids d n of (p, None) \<Rightarrow> p | (p, Some q) \<Rightarrow> p @ q)
           = take (nat n) (prompt_toks d @ output_toks d)"
proof (cases "n > sd_prompt_len d")
  case True
  then obtain m where m: "n = sd_prompt_len d + int m"
    using zle_iff_zadd [of "sd_prompt_len d" n] by auto
  with True show ?thesis
    by (simp add: get_prefix_token_ids_def sd_prompt_len_def nat_add_distrib)
next
  case False
  then have "nat n \<le> length (prompt_toks d)" by (simp add: sd_prompt_len_def)
  with assms False show ?thesis
    by (simp add: get_prefix_token_ids_def sd_prompt_len_def slice_to_def slice_index_def)
qed

text \<open>
  Delta outputs are the tokens generated since the last call, in order, whenever at least
  one token was generated: \<open>[-n:]\<close> on the cached list of all tokens is the tail of the output.
\<close>

theorem delta_output_new_tokens:
  assumes "sd_ok (seq_data s)"
    and "0 \<le> last_ids_offset s" "last_ids_offset s < seq_output_len s"
  shows "output_ids_to_return True s =
     (Inr (drop (nat (last_ids_offset s)) (output_toks (seq_data s))),
      s\<lparr>last_ids_offset := seq_output_len s\<rparr>)"
proof -
  define ys where "ys = output_toks (seq_data s)"
  define k where "k = nat (last_ids_offset s)"
  have k: "last_ids_offset s = int k" and kl: "k < length ys"
    using assms by (auto simp: k_def ys_def seq_output_len_def sd_output_len_def)
  have all: "seq_token_ids s = prompt_toks (seq_data s) @ ys"
    using assms(1) by (simp add: seq_token_ids_def sd_ok_def ys_def)
  have new: "seq_output_len s - last_ids_offset s = int (length ys - k)"
    using k kl by (simp add: seq_output_len_def sd_output_len_def ys_def of_nat_diff)
  show ?thesis
  proof (cases "length ys - k = 1")
    case True
    with kl obtain zs z where "ys = zs @ [z]" "length zs = k"
      by (metis Suc_diff_Suc Suc_eq_plus1 add_diff_cancel_right' append_butlast_last_id
          diff_is_0_eq' length_butlast list.size(3) not_less_zero diff_diff_cancel
          less_imp_le_nat One_nat_def)
    then show ?thesis
      using py_nth_last [of "prompt_toks (seq_data s) @ zs" z] new
      by (simp add: output_ids_to_return_def all Let_def flip: ys_def k_def)
  next
    case False
    have "slice_from (seq_token_ids s) (- int (length ys - k)) = drop k ys"
      unfolding all using kl by (subst slice_from_last) auto
    with False new show ?thesis
      by (simp add: output_ids_to_return_def Let_def flip: ys_def k_def)
  qed
qed

lemma delta_output_new_tokens_witness:
  "fst (output_ids_to_return True
      ((new_sequence 0 [7, 8] 16 None None)
         \<lparr>seq_data := sd_append_token_id 4 0 (sd_append_token_id 3 0 (from_seqs [7, 8] None))\<rparr>))
    = Inr [3, 4]"
  using delta_output_new_tokens
    [of "(new_sequence 0 [7, 8] 16 None None)
         \<lparr>seq_data := sd_append_token_id 4 0 (sd_append_token_id 3 0 (from_seqs [7, 8] None))\<rparr>"]
  by (simp add: new_sequence_def from_seqs_def sd_append_token_id_def sd_defs
      seq_output_len_def)

text \<open>
  When no token was generated since the last call, \<open>[-0:]\<close> is the whole list: the delta
  repeats the prompt and every output token instead of being empty.
\<close>

theorem delta_output_no_new_tokens:
  assumes "sd_ok (seq_data s)" "last_ids_offset s = seq_output_len s"
  shows "output_ids_to_return True s =
     (Inr (prompt_toks (seq_data s) @ output_toks (seq_data s)), s)"
  using assms slice_from_nonneg [of _ 0]
  by (simp add: output_ids_to_return_def seq_token_ids_def sd_ok_def Let_def)

lemma delta_output_no_new_tokens_witness:
  "output_ids_to_return True (new_sequence 0 [7, 8] 16 None None)
     = (Inr [7, 8], new_sequence 0 [7, 8] 16 None None)"
  using delta_output_no_new_tokens [of "new_sequence 0 [7, 8] 16 None None"]
  by (simp add: new_sequence_def from_seqs_def sd_defs seq_output_len_def)

section \<open>SequenceGroup\<close>

record sampling_params =
  sp_client_id :: "int option"
  sp_best_of :: int
  sp_use_beam_search :: bool
  sp_preempted :: bool

record request_metrics =
  arrival_time :: real
  last_token_time :: real
  first_scheduled_time :: "real option"
  first_token_time :: "real option"
  time_in_queue :: "real option"
  finished_time :: "real option"

record seq_group =
  request_id :: string
  seqs :: "sequence list"
  is_single_seq :: bool
  seqs_ids :: "int list"
  sampling :: "sampling_params option"
  metrics :: request_metrics
  num_steps :: int
  current_step :: int
  encoder_seq :: "sequence option"
  group_lora :: "int option"
  priority :: int

definition new_seq_group ::
  "string \<Rightarrow> sequence list \<Rightarrow> real \<Rightarrow> sampling_params option \<Rightarrow> int option \<Rightarrow> sequence option \<Rightarrow> int
     \<Rightarrow> seq_group" where
  "new_seq_group rid ss t sp lora enc pr =
     \<lparr>request_id = rid, seqs = ss, is_single_seq = (length ss = 1),
      seqs_ids = remdups (map seq_id ss), sampling = sp,
      metrics = \<lparr>arrival_time = t, last_token_time = t, first_scheduled_time = None,
        first_token_time = None, time_in_queue = None, finished_time = None\<rparr>,
      num_steps = 1, current_step = 0, encoder_seq = enc, group_lora = lora, priority = pr\<rparr>"

definition client_id :: "seq_group \<Rightarrow> int result" where
  "client_id g =
     (case sampling g of
        None \<Rightarrow> Inl AttributeError
      | Some sp \<Rightarrow> (case sp_client_id sp of None \<Rightarrow> Inr (- 1) | Some c \<Rightarrow> Inr c))"

definition first_seq :: "seq_group \<Rightarrow> sequence result" where
  "first_seq g = (case seqs g of [] \<Rightarrow> Inl IndexError | s # _ \<Rightarrow> Inr s)"

definition group_lora_int_id :: "seq_group \<Rightarrow> int" where
  "group_lora_int_id g = (case group_lora g of None \<Rightarrow> 0 | Some i \<Rightarrow> i)"

definition remaining_steps :: "seq_group \<Rightarrow> int" where
  "remaining_steps g = num_steps g - current_step g"

definition init_multi_step :: "int \<Rightarrow> seq_group \<Rightarrow> seq_group" where
  "init_multi_step n g = g\<lparr>num_steps := n, current_step := 0\<rparr>"

definition sg_is_prefill :: "seq_group \<Rightarrow> bool result" where
  "sg_is_prefill g = bindr (first_seq g) (\<lambda>s. Inr (seq_is_prefill s))"

definition get_last_latency :: "real \<Rightarrow> seq_group \<Rightarrow> (real \<times> seq_group) result" where
  "get_last_latency now g =
     bindr (sg_is_prefill g) (\<lambda>p.
       if p then Inl ValueError
       else Inr (now - last_token_time (metrics g),
                 g\<lparr>metrics := (metrics g)\<lparr>last_token_time := now\<rparr>\<rparr>))"

definition maybe_set_first_token_time :: "real \<Rightarrow> seq_group \<Rightarrow> seq_group result" where
  "maybe_set_first_token_time t g =
     (if first_token_time (metrics g) \<noteq> None then Inr g
      else bindr (first_seq g) (\<lambda>s.
        Inr (if seq_output_len s = 1
             then g\<lparr>metrics := (metrics g)\<lparr>first_token_time := Some t\<rparr>\<rparr> else g)))"

definition maybe_set_first_scheduled_time :: "real \<Rightarrow> seq_group \<Rightarrow> seq_group" where
  "maybe_set_first_scheduled_time t g =
     (if first_scheduled_time (metrics g) = None
      then g\<lparr>metrics := (metrics g)\<lparr>first_scheduled_time := Some t,
                                   time_in_queue := Some (t - arrival_time (metrics g))\<rparr>\<rparr>
      else g)"

definition set_finished_time :: "real option \<Rightarrow> seq_group \<Rightarrow> seq_group" where
  "set_finished_time t g = g\<lparr>metrics := (metrics g)\<lparr>finished_time := t\<rparr>\<rparr>"

definition get_seqs :: "seq_status option \<Rightarrow> seq_group \<Rightarrow> sequence list result" where
  "get_seqs st g =
     (case st of
        None \<Rightarrow> Inr (seqs g)
      | Some st' \<Rightarrow>
          if is_single_seq g
          then bindr (first_seq g) (\<lambda>s. Inr (if seq_status s = st' then seqs g else []))
          else Inr (filter (\<lambda>s. seq_status s = st') (seqs g)))"

definition get_unfinished_seqs :: "seq_group \<Rightarrow> sequence list result" where
  "get_unfinished_seqs g =
     (if is_single_seq g
      then bindr (first_seq g) (\<lambda>s. Inr (if \<not> seq_is_finished s then seqs g else []))
      else Inr (filter (\<lambda>s. \<not> seq_is_finished s) (seqs g)))"

definition get_finished_seqs :: "seq_group \<Rightarrow> sequence list result" where
  "get_finished_seqs g =
     (if is_single_seq g
      then bindr (first_seq g) (\<lambda>s. Inr (if seq_is_finished s then seqs g else []))
      else Inr (filter seq_is_finished (seqs g)))"

definition num_seqs :: "seq_status option \<Rightarrow> seq_group \<Rightarrow> int result" where
  "num_seqs st g =
     (case st of
        None \<Rightarrow> Inr (int (length (seqs g)))
      | Some st' \<Rightarrow>
          if is_single_seq g
          then bindr (first_seq g) (\<lambda>s. Inr (if seq_status s = st' then 1 else 0))
          else bindr (get_seqs st g) (\<lambda>ss. Inr (int (length ss))))"

definition num_unfinished_seqs :: "seq_group \<Rightarrow> int result" where
  "num_unfinished_seqs g =
     (if is_single_seq g
      then bindr (first_seq g) (\<lambda>s. Inr (if \<not> seq_is_finished s then 1 else 0))
      else bindr (get_unfinished_seqs g) (\<lambda>ss. Inr (int (length ss))))"

definition num_finished_seqs :: "seq_group \<Rightarrow> int result" where
  "num_finished_seqs g =
     (if is_single_seq g
      then bindr (first_seq g) (\<lambda>s. Inr (if seq_is_finished s then 1 else 0))
      else bindr (get_finished_seqs g) (\<lambda>ss. Inr (int (length ss))))"

definition get_max_num_running_seqs :: "seq_group \<Rightarrow> int result" where
  "get_max_num_running_seqs g =
     (case sampling g of
        None \<Rightarrow> num_unfinished_seqs g
      | Some sp \<Rightarrow>
          if sp_use_beam_search sp then Inr (sp_best_of sp)
          else if sp_best_of sp > int (length (seqs g)) then Inr (sp_best_of sp)
          else num_unfinished_seqs g)"

definition update_num_computed_tokens :: "int \<Rightarrow> seq_group \<Rightarrow> seq_group result" where
  "update_num_computed_tokens n g =
     bindr (foldM (\<lambda>done s.
        if \<not> seq_is_finished s
        then bindr (sd_update_num_computed n (seq_data s))
               (\<lambda>d. Inr (done @ [s\<lparr>seq_data := d\<rparr>]))
        else Inr (done @ [s])) [] (seqs g))
       (\<lambda>ss. Inr (g\<lparr>seqs := ss\<rparr>))"

definition sg_num_uncomputed :: "seq_group \<Rightarrow> int" where
  "sg_num_uncomputed g =
     foldl (\<lambda>n s. if \<not> seq_is_finished s then n + sd_num_uncomputed (seq_data s) else n) 0 (seqs g)"

definition find_seq :: "int \<Rightarrow> seq_group \<Rightarrow> sequence result" where
  "find_seq sid g =
     (if sid \<notin> set (seqs_ids g) then Inl ValueError
      else (case find (\<lambda>s. seq_id s = sid) (rev (seqs g)) of
              None \<Rightarrow> Inl ValueError | Some s \<Rightarrow> Inr s))"

definition add_seq :: "sequence \<Rightarrow> seq_group \<Rightarrow> seq_group result" where
  "add_seq s g =
     (if seq_id s \<in> set (seqs_ids g) then Inl ValueError
      else (let ss = seqs g @ [s] in
            Inr (g\<lparr>seqs_ids := seqs_ids g @ [seq_id s], seqs := ss,
                   is_single_seq := (length ss = 1)\<rparr>)))"

definition remove_seq :: "int \<Rightarrow> seq_group \<Rightarrow> seq_group result" where
  "remove_seq sid g =
     bindr (find_seq sid g) (\<lambda>s.
       let ss = remove1 s (seqs g) in
       Inr (g\<lparr>seqs_ids := remove1 sid (seqs_ids g), seqs := ss,
              is_single_seq := (length ss = 1)\<rparr>))"

definition sg_is_finished :: "seq_group \<Rightarrow> bool result" where
  "sg_is_finished g =
     (if is_single_seq g then bindr (first_seq g) (\<lambda>s. Inr (seq_is_finished s))
      else Inr (list_all seq_is_finished (seqs g)))"

text \<open>
  The invariant of a group: the flag and the dictionary agree with the list.
\<close>

definition sg_ok :: "seq_group \<Rightarrow> bool" where
  "sg_ok g \<longleftrightarrow> is_single_seq g = (length (seqs g) = 1)
     \<and> seqs_ids g = map seq_id (seqs g) \<and> distinct (seqs_ids g)"

lemma sg_ok_new: "distinct (map seq_id ss) \<Longrightarrow> sg_ok (new_seq_group rid ss t sp lora enc pr)"
  by (simp add: sg_ok_def new_seq_group_def distinct_remdups_id)

lemma sg_single:
  "sg_ok g \<Longrightarrow> is_single_seq g \<Longrightarrow> \<exists>s. seqs g = [s] \<and> first_seq g = Inr s"
  by (auto simp: sg_ok_def length_Suc_conv first_seq_def)

lemma get_seqs_filter:
  "sg_ok g \<Longrightarrow> get_seqs (Some st) g = Inr (filter (\<lambda>s. seq_status s = st) (seqs g))"
  using sg_single [of g] by (cases "is_single_seq g") (auto simp: get_seqs_def)

lemma get_unfinished_filter:
  "sg_ok g \<Longrightarrow> get_unfinished_seqs g = Inr (filter (\<lambda>s. \<not> seq_is_finished s) (seqs g))"
  using sg_single [of g] by (cases "is_single_seq g") (auto simp: get_unfinished_seqs_def)

lemma get_finished_filter:
  "sg_ok g \<Longrightarrow> get_finished_seqs g = Inr (filter seq_is_finished (seqs g))"
  using sg_single [of g] by (cases "is_single_seq g") (auto simp: get_finished_seqs_def)

lemma num_seqs_length:
  "sg_ok g \<Longrightarrow> num_seqs (Some st) g = Inr (int (length (filter (\<lambda>s. seq_status s = st) (seqs g))))"
  using sg_single [of g] by (cases "is_single_seq g") (auto simp: num_seqs_def get_seqs_filter)

lemma num_unfinished_length:
  "sg_ok g \<Longrightarrow> num_unfinished_seqs g = Inr (int (length (filter (\<lambda>s. \<not> seq_is_finished s) (seqs g))))"
  using sg_single [of g] by (cases "is_single_seq g") (auto simp: num_unfinished_seqs_def get_unfinished_filter)

lemma num_finished_length:
  "sg_ok g \<Longrightarrow> num_finished_seqs g = Inr (int (length (filter seq_is_finished (seqs g))))"
  using sg_single [of g] by (cases "is_single_seq g") (auto simp: num_finished_seqs_def get_finished_filter)

lemma sg_is_finished_all:
  "sg_ok g \<Longrightarrow> sg_is_finished g = Inr (list_all seq_is_finished (seqs g))"
  using sg_single [of g] by (cases "is_single_seq g") (auto simp: sg_is_finished_def)

lemma sg_num_uncomputed_sum:
  "sg_num_uncomputed g =
     sum_list (map (\<lambda>s. sd_num_uncomputed (seq_data s)) (filter (\<lambda>s. \<not> seq_is_finished s) (seqs g)))"
proof -
  have "foldl (\<lambda>n s. if \<not> seq_is_finished s then n + sd_num_uncomputed (seq_data s) else n) a ss
      = a + sum_list (map (\<lambda>s. sd_num_uncomputed (seq_data s)) (filter (\<lambda>s. \<not> seq_is_finished s) ss))"
    for a ss by (induction ss arbitrary: a) auto
  then show ?thesis by (simp add: sg_num_uncomputed_def)
qed

text \<open>
  The single-sequence shortcuts never change an answer: on a well-formed group every count
  equals the length of the filtered list, the finished and unfinished counts add up to the
  group, and the group is finished exactly when no sequence is unfinished.
\<close>

theorem single_seq_shortcuts:
  assumes "sg_ok g"
  shows "num_seqs (Some st) g = Inr (int (length (filter (\<lambda>s. seq_status s = st) (seqs g))))
     \<and> get_seqs (Some st) g = Inr (filter (\<lambda>s. seq_status s = st) (seqs g))
     \<and> (\<exists>f u. num_finished_seqs g = Inr f \<and> num_unfinished_seqs g = Inr u
          \<and> num_seqs None g = Inr (f + u) \<and> sg_is_finished g = Inr (u = 0))"
proof -
  have "int (length (seqs g)) = int (length (filter seq_is_finished (seqs g)))
      + int (length (filter (\<lambda>s. \<not> seq_is_finished s) (seqs g)))"
    by (simp add: sum_length_filter_compl flip: of_nat_add)
  moreover have "list_all seq_is_finished (seqs g)
      \<longleftrightarrow> length (filter (\<lambda>s. \<not> seq_is_finished s) (seqs g)) = 0"
    by (simp add: list_all_iff filter_empty_conv)
  ultimately show ?thesis
    using assms by (simp add: num_seqs_length get_seqs_filter num_finished_length
        num_unfinished_length sg_is_finished_all num_seqs_def [of None] del: length_0_conv)
qed

lemma single_seq_shortcuts_witness:
  "num_seqs (Some WAITING) (new_seq_group [] [new_sequence 1 [5] 16 None None] 0 None None None 0)
     = Inr 1"
  using single_seq_shortcuts
    [of "new_seq_group [] [new_sequence 1 [5] 16 None None] 0 None None None 0" WAITING]
  by (simp add: sg_ok_def new_seq_group_def new_sequence_def)

lemma find_seq_present:
  assumes "sg_ok g" "s \<in> set (seqs g)"
  shows "find_seq (seq_id s) g = Inr s"
proof -
  have "find (\<lambda>t. seq_id t = seq_id s) (rev (seqs g)) \<noteq> None"
    using assms(2) by (auto simp: find_None_iff)
  then obtain t where t: "find (\<lambda>t. seq_id t = seq_id s) (rev (seqs g)) = Some t" by blast
  then have "t \<in> set (seqs g)" "seq_id t = seq_id s"
    by (auto simp: find_Some_iff) (metis length_rev nth_mem set_rev)
  with assms have "t = s" by (auto simp: sg_ok_def distinct_map inj_on_def)
  with t assms show ?thesis by (simp add: find_seq_def sg_ok_def)
qed

lemma add_seq_ok:
  "sg_ok g \<Longrightarrow> add_seq s g = Inr g' \<Longrightarrow> sg_ok g'"
  by (auto simp: sg_ok_def add_seq_def Let_def split: if_splits)

lemma remove_seq_ok:
  assumes "sg_ok g" "remove_seq i g = Inr g'"
  shows "sg_ok g'"
proof -
  from assms obtain s where s: "find_seq i g = Inr s"
    and g': "g' = g\<lparr>seqs_ids := remove1 i (seqs_ids g), seqs := remove1 s (seqs g),
      is_single_seq := (length (remove1 s (seqs g)) = 1)\<rparr>"
    by (auto simp: remove_seq_def Let_def)
  have "s \<in> set (seqs g)" "seq_id s = i"
    using s by (auto simp: find_seq_def find_Some_iff split: if_splits option.splits)
      (metis length_rev nth_mem set_rev)
  moreover have "map seq_id (remove1 s xs) = remove1 (seq_id s) (map seq_id xs)"
    if "s \<in> set xs" "distinct (map seq_id xs)" for xs
    using that by (induction xs) (auto simp: rev_image_eqI)
  ultimately show ?thesis
    using assms(1) by (auto simp: sg_ok_def g' distinct_remove1)
qed

text \<open>
  Adding a sequence with a fresh id keeps the group well formed, makes the sequence
  findable, and removing it again gives the group back; adding a known id raises and so does
  removing an unknown one.
\<close>

theorem add_find_remove:
  assumes "sg_ok g"
  shows "(if seq_id s \<in> set (map seq_id (seqs g)) then add_seq s g = Inl ValueError
          else remove_seq (seq_id s) g = Inl ValueError
            \<and> (\<exists>g'. add_seq s g = Inr g' \<and> sg_ok g' \<and> find_seq (seq_id s) g' = Inr s
                  \<and> remove_seq (seq_id s) g' = Inr g))"
proof (cases "seq_id s \<in> set (map seq_id (seqs g))")
  case True
  with assms show ?thesis by (simp add: add_seq_def sg_ok_def)
next
  case False
  define g' where "g' = g\<lparr>seqs_ids := seqs_ids g @ [seq_id s], seqs := seqs g @ [s],
    is_single_seq := (length (seqs g @ [s]) = 1)\<rparr>"
  have ids: "seqs_ids g = map seq_id (seqs g)" using assms by (simp add: sg_ok_def)
  have add: "add_seq s g = Inr g'" using False ids by (simp add: add_seq_def g'_def)
  have ok: "sg_ok g'" using add_seq_ok [OF assms add] .
  have fnd: "find_seq (seq_id s) g' = Inr s"
    using find_seq_present [OF ok] by (simp add: g'_def)
  have "s \<notin> set (seqs g)" using False by auto
  then have "remove_seq (seq_id s) g' = Inr g"
    using fnd assms False ids
    by (auto simp: remove_seq_def g'_def sg_ok_def remove1_append intro!: seq_group.equality)
  with False add ok fnd ids show ?thesis
    by (simp add: remove_seq_def find_seq_def)
qed

lemma add_find_remove_witness:
  "find_seq 3 (new_seq_group [] [] 0 None None None 0) = Inl ValueError
   \<and> (\<exists>g'. add_seq (new_sequence 3 [5] 16 None None) (new_seq_group [] [] 0 None None None 0) = Inr g')"
  using add_find_remove [of "new_seq_group [] [] 0 None None None 0" "new_sequence 3 [5] 16 None None"]
  by (auto simp: sg_ok_def new_seq_group_def new_sequence_def find_seq_def)

end
