(* ===== verification/Waiting_Queue.thy ===== *)
theory Waiting_Queue
  imports Sequence
begin

text \<open>
  The interface through which the scheduler uses a waiting queue, whichever of \<open>CPIReqQueue\<close> and
  \<open>ReqQueue\<close> is configured: \<open>append\<close>, \<open>popleft\<close>, truth value and \<open>len\<close>.  The locale
  \<open>waiting_queue\<close> states what a provider promises in terms of the multiset of waiting requests;
  its lemmas show what any client of the interface gets: appending a batch never raises, and
  popping as often as there are requests returns every one of them.
\<close>

fun drain :: "('q \<Rightarrow> (seq_group \<times> 'q) result) \<Rightarrow> nat \<Rightarrow> 'q \<Rightarrow> (seq_group list \<times> 'q) result" where
  "drain pop 0 q = Inr ([], q)"
| "drain pop (Suc n) q =
     bindr (pop q) (\<lambda>(g, q'). bindr (drain pop n q') (\<lambda>(gs, q''). Inr (g # gs, q'')))"

definition append_all :: "(seq_group \<Rightarrow> 'q \<Rightarrow> 'q result) \<Rightarrow> seq_group list \<Rightarrow> 'q \<Rightarrow> 'q result" where
  "append_all push gs q = foldM (\<lambda>q g. push g q) q gs"

definition has_client :: "seq_group \<Rightarrow> bool" where
  "has_client g \<longleftrightarrow> sampling g \<noteq> None"

lemma has_client_iff: "has_client g \<longleftrightarrow> (\<exists>c. client_id g = Inr c)"
  by (auto simp: has_client_def client_id_def split: option.splits)

locale waiting_queue =
  fixes inv :: "'q \<Rightarrow> bool"
    and contents :: "'q \<Rightarrow> seq_group multiset"
    and push :: "seq_group \<Rightarrow> 'q \<Rightarrow> 'q result"
    and pop :: "'q \<Rightarrow> (seq_group \<times> 'q) result"
    and nonempty :: "'q \<Rightarrow> bool"
    and len :: "'q \<Rightarrow> int"
  assumes push_law: "inv q \<Longrightarrow> client_id g = Inr c \<Longrightarrow>
      \<exists>q'. push g q = Inr q' \<and> inv q' \<and> contents q' = add_mset g (contents q)"
    and pop_law: "inv q \<Longrightarrow> contents q \<noteq> {#} \<Longrightarrow>
      \<exists>g q'. pop q = Inr (g, q') \<and> inv q' \<and> add_mset g (contents q') = contents q"
    and pop_empty: "inv q \<Longrightarrow> contents q = {#} \<Longrightarrow> \<exists>e. pop q = Inl e"
    and nonempty_law: "inv q \<Longrightarrow> nonempty q \<longleftrightarrow> contents q \<noteq> {#}"
    and len_law: "inv q \<Longrightarrow> len q = int (size (contents q))"
begin

lemma append_all_contents:
  assumes "inv q" "\<forall>g \<in> set gs. has_client g"
  shows "\<exists>q'. append_all push gs q = Inr q' \<and> inv q' \<and> contents q' = contents q + mset gs"
  using assms
proof (induction gs arbitrary: q)
  case Nil
  then show ?case by (simp add: append_all_def)
next
  case (Cons g gs)
  then obtain c where "client_id g = Inr c" by (auto simp: has_client_iff)
  from push_law [OF Cons.prems(1) this] obtain q1
    where q1: "push g q = Inr q1" "inv q1" "contents q1 = add_mset g (contents q)" by blast
  from Cons.IH [OF q1(2)] Cons.prems(2) obtain q'
    where "append_all push gs q1 = Inr q'" "inv q'" "contents q' = contents q1 + mset gs" by auto
  with q1 show ?case by (auto simp: append_all_def)
qed

lemma drain_contents:
  assumes "inv q" "n \<le> size (contents q)"
  shows "\<exists>gs q'. drain pop n q = Inr (gs, q') \<and> inv q' \<and> length gs = n
     \<and> mset gs + contents q' = contents q"
  using assms
proof (induction n arbitrary: q)
  case 0
  then show ?case by simp
next
  case (Suc n)
  then have "contents q \<noteq> {#}" by auto
  from pop_law [OF Suc.prems(1) this] obtain g q1
    where q1: "pop q = Inr (g, q1)" "inv q1" "add_mset g (contents q1) = contents q" by blast
  then have "n \<le> size (contents q1)" using Suc.prems(2) by (metis Suc_le_mono size_add_mset)
  from Suc.IH [OF q1(2) this] obtain gs q'
    where "drain pop n q1 = Inr (gs, q')" "inv q'" "length gs = n"
      "mset gs + contents q' = contents q1" by blast
  with q1 show ?case by (intro exI [of _ "g # gs"] exI [of _ q']) auto
qed

lemma append_drain:
  assumes "inv q" "contents q = {#}" "\<forall>g \<in> set gs. has_client g"
  shows "\<exists>q1 hs q2. append_all push gs q = Inr q1 \<and> len q1 = int (length gs)
     \<and> drain pop (length gs) q1 = Inr (hs, q2) \<and> mset hs = mset gs
     \<and> \<not> nonempty q2 \<and> (\<exists>e. pop q2 = Inl e)"
proof -
  from append_all_contents [OF assms(1,3)] assms(2) obtain q1
    where q1: "append_all push gs q = Inr q1" "inv q1" "contents q1 = mset gs" by auto
  from drain_contents [OF q1(2), of "length gs"] q1(3) obtain hs q2
    where q2: "drain pop (length gs) q1 = Inr (hs, q2)" "inv q2" "length hs = length gs"
      "mset hs + contents q2 = mset gs" by auto
  have "contents q2 = {#}"
    using arg_cong [OF q2(4), of size] q2(3) by simp
  with q1 q2 show ?thesis
    using len_law nonempty_law pop_empty by auto
qed

end

end
