(* ===== verification/CPI_Queue.thy ===== *)
theory CPI_Queue
  imports Waiting_Queue
begin

text \<open>
  The fair waiting queue \<open>CPIReqQueue\<close> of \<open>vllm-0.6.2/vllm/core/cpi_req_queue.py\<close>: one deque per
  client, a score \<open>served\<close> per client, credits that offset future cost, and counters of what
  was served.  The record \<open>cpi_queue\<close> has the attributes of the object, every operation is a
  definition, and every exception the code can raise is a value.

  The theory shows that the loop in \<open>popleft\<close> that discards idle clients is one minimum over
  the clients with waiting requests, that requests are conserved, that the invariant
  \<open>cq_ok\<close> keeps every operation from raising, and that the score and the credits account for the
  cost exactly.  How far the scores of competing clients drift apart is the subject of \<open>Contention\<close>.
\<close>

section \<open>State and operations\<close>

record cpi_queue =
  hit_weight :: real
  prefill_weight :: real
  decode_weight :: real
  eta :: real
  served :: "(int, real) dict"
  credits :: "(int, real) dict"
  client_waiting_queues :: "(int, seq_group list) dict"
  served_requests :: "(int, int) dict"
  served_tokens :: "(int, real) dict"
  hit_tokens_count :: "(int, real) dict"
  miss_tokens_count :: "(int, real) dict"

definition cq_init :: "real \<Rightarrow> real \<Rightarrow> real \<Rightarrow> real \<Rightarrow> cpi_queue" where
  "cq_init hw pw dw et =
     \<lparr>hit_weight = hw, prefill_weight = pw, decode_weight = dw, eta = et, served = [],
      credits = [], client_waiting_queues = [], served_requests = [], served_tokens = [],
      hit_tokens_count = [], miss_tokens_count = []\<rparr>"

definition cq_active_scores :: "int \<Rightarrow> cpi_queue \<Rightarrow> real list result" where
  "cq_active_scores c q =
     foldM (\<lambda>acc (k, v). bindr (dindex (client_waiting_queues q) k) (\<lambda>ws.
        Inr (if ws \<noteq> [] \<and> k \<noteq> c then acc @ [v] else acc))) [] (served q)"

definition cq_lift :: "int \<Rightarrow> cpi_queue \<Rightarrow> cpi_queue result" where
  "cq_lift c q =
     bindr (cq_active_scores c q) (\<lambda>cnts.
       case pick (<) (\<lambda>x. x) cnts of
         None \<Rightarrow> Inr q
       | Some m \<Rightarrow> bindr (dindex (served q) c) (\<lambda>s.
           Inr (q\<lparr>served := AList.update c (max s m) (served q)\<rparr>)))"

definition cq_append :: "seq_group \<Rightarrow> cpi_queue \<Rightarrow> cpi_queue result" where
  "cq_append g q =
     bindr (client_id g) (\<lambda>c.
       let q1 = (case map_of (client_waiting_queues q) c of
                   None \<Rightarrow> q\<lparr>client_waiting_queues := AList.update c [g] (client_waiting_queues q),
                             served := AList.update c 0 (served q)\<rparr>
                 | Some ws \<Rightarrow>
                     q\<lparr>client_waiting_queues := AList.update c (ws @ [g]) (client_waiting_queues q)\<rparr>)
       in bindr (dindex (client_waiting_queues q1) c) (\<lambda>ws.
            if length ws = 1 then cq_lift c q1 else Inr q1))"

definition cq_appendleft :: "seq_group \<Rightarrow> cpi_queue \<Rightarrow> cpi_queue result" where
  "cq_appendleft g q =
     bindr (client_id g) (\<lambda>c. bindr (dindex (client_waiting_queues q) c) (\<lambda>ws.
       Inr (q\<lparr>client_waiting_queues := AList.update c (g # ws) (client_waiting_queues q)\<rparr>)))"

definition cq_extendleft :: "seq_group list \<Rightarrow> cpi_queue \<Rightarrow> cpi_queue result" where
  "cq_extendleft gs q = foldM (\<lambda>q g. cq_appendleft g q) q gs"

function select_client :: "(int, real) dict \<Rightarrow> (int, seq_group list) dict \<Rightarrow> int result" where
  "select_client act cwq =
     (case pick (<) snd act of
        None \<Rightarrow> Inl ValueError
      | Some cv \<Rightarrow>
          (case dindex cwq (fst cv) of
             Inl e \<Rightarrow> Inl e
           | Inr ws \<Rightarrow>
               if length ws > 0 then Inr (fst cv)
               else select_client (AList.delete (fst cv) act) cwq))"
  by pat_completeness auto
termination
proof (relation "measure (\<lambda>(act, cwq). length act)")
  fix act :: "(int, real) dict" and cwq :: "(int, seq_group list) dict" and cv ws
  assume "pick (<) snd act = Some cv"
  then have "fst cv \<in> set (dkeys act)" using min_sel.sel_in by fastforce
  then show "((AList.delete (fst cv) act, cwq), act, cwq) \<in> measure (\<lambda>(act, cwq). length act)"
    by (simp add: length_delete_less)
qed simp

declare select_client.simps [simp del]

definition cq_popleft :: "cpi_queue \<Rightarrow> (seq_group \<times> cpi_queue) result" where
  "cq_popleft q =
     bindr (select_client (served q) (client_waiting_queues q)) (\<lambda>c.
       bindr (dindex (client_waiting_queues q) c) (\<lambda>ws.
         case ws of
           [] \<Rightarrow> Inl IndexError
         | g # rest \<Rightarrow>
             Inr (g, q\<lparr>client_waiting_queues := AList.update c rest (client_waiting_queues q)\<rparr>)))"

definition cq_getitem :: "cpi_queue \<Rightarrow> int \<Rightarrow> seq_group result" where
  "cq_getitem q i =
     assert_py (i = 0)
       (bindr (select_client (served q) (client_waiting_queues q)) (\<lambda>c.
          bindr (dindex (client_waiting_queues q) c) (\<lambda>ws. py_nth ws 0)))"

definition cq_bool :: "cpi_queue \<Rightarrow> bool" where
  "cq_bool q \<longleftrightarrow> list_ex (\<lambda>cw. snd cw \<noteq> []) (client_waiting_queues q)"

definition cq_len :: "cpi_queue \<Rightarrow> int" where
  "cq_len q = foldl (\<lambda>n cw. if snd cw \<noteq> [] then n + int (length (snd cw)) else n) 0
                (client_waiting_queues q)"

definition cq_client_queue_lengths :: "cpi_queue \<Rightarrow> (int, int) dict" where
  "cq_client_queue_lengths q =
     foldl (\<lambda>d cw. AList.update (fst cw) (int (length (snd cw))) d) [] (client_waiting_queues q)"

definition cq_iter :: "cpi_queue \<Rightarrow> seq_group list" where
  "cq_iter q = concat (map snd (client_waiting_queues q))"

fun remove_from_first :: "seq_group \<Rightarrow> (int, seq_group list) dict \<Rightarrow> (int, seq_group list) dict" where
  "remove_from_first g [] = []"
| "remove_from_first g ((c, ws) # rest) =
     (if g \<in> set ws then (c, remove1 g ws) # rest else (c, ws) # remove_from_first g rest)"

definition cq_remove :: "seq_group \<Rightarrow> cpi_queue \<Rightarrow> cpi_queue" where
  "cq_remove g q = q\<lparr>client_waiting_queues := remove_from_first g (client_waiting_queues q)\<rparr>"

definition cq_grant :: "cpi_queue \<Rightarrow> int \<times> real \<Rightarrow> cpi_queue" where
  "cq_grant q cc =
     q\<lparr>credits := AList.update (fst cc) (dget_or (credits q) (fst cc) 0 + snd cc) (credits q)\<rparr>"

definition cq_cost :: "cpi_queue \<Rightarrow> real \<times> real \<Rightarrow> real" where
  "cq_cost q hm = hit_weight q * fst hm + prefill_weight q * snd hm"

text \<open>
  The four counters get their entries together, so that \<open>+=\<close> on them misses no key.
\<close>

definition cq_count :: "int \<Rightarrow> real \<Rightarrow> real \<Rightarrow> cpi_queue \<Rightarrow> cpi_queue" where
  "cq_count c hit miss q =
     (let q2 = (if dhas (served_requests q) c then q
                else q\<lparr>served_requests := AList.update c 0 (served_requests q),
                       served_tokens := AList.update c 0 (served_tokens q),
                       hit_tokens_count := AList.update c 0 (hit_tokens_count q),
                       miss_tokens_count := AList.update c 0 (miss_tokens_count q)\<rparr>)
      in q2\<lparr>served_requests := AList.update c (dget_or (served_requests q2) c 0 + 1)
                               (served_requests q2),
            served_tokens := AList.update c (dget_or (served_tokens q2) c 0 + (hit + miss))
                               (served_tokens q2),
            hit_tokens_count := AList.update c (dget_or (hit_tokens_count q2) c 0 + hit)
                               (hit_tokens_count q2),
            miss_tokens_count := AList.update c (dget_or (miss_tokens_count q2) c 0 + miss)
                               (miss_tokens_count q2)\<rparr>)"

definition cq_charge :: "cpi_queue \<Rightarrow> int \<times> real \<times> real \<Rightarrow> cpi_queue" where
  "cq_charge q chm =
     (let c = fst chm; hit = fst (snd chm); miss = snd (snd chm);
          cost = cq_cost q (hit, miss);
          D = dget_or (credits q) c 0;
          net_cost = max 0 (cost - D)
      in cq_count c hit miss
           (q\<lparr>served := AList.update c (dget_or (served q) c 0 + net_cost) (served q),
              credits := AList.update c (max 0 (D - cost)) (credits q)\<rparr>))"

definition cq_update_prefill_served ::
  "(int \<times> real \<times> real) list \<Rightarrow> (int, real) dict option \<Rightarrow> cpi_queue \<Rightarrow> cpi_queue" where
  "cq_update_prefill_served prefill_served creds q =
     foldl cq_charge (foldl cq_grant q (case creds of None \<Rightarrow> [] | Some cs \<Rightarrow> cs)) prefill_served"

section \<open>Invariant and vocabulary\<close>

text \<open>
  \<open>waiting_of q c\<close> is the queue of client \<open>c\<close> (empty for an unknown client), \<open>score q c\<close> its
  entry in \<open>served\<close>, \<open>active q\<close> the scores of the clients with a waiting request.
  \<open>cq_ok\<close>: the dictionaries have distinct keys, every scored client has a queue and every client
  with a queue a score, and each queue holds requests of its own client.
\<close>

definition waiting_of :: "cpi_queue \<Rightarrow> int \<Rightarrow> seq_group list" where
  "waiting_of q c = dget_or (client_waiting_queues q) c []"

definition backlogged :: "cpi_queue \<Rightarrow> int \<Rightarrow> bool" where
  "backlogged q c \<longleftrightarrow> waiting_of q c \<noteq> []"

definition score :: "cpi_queue \<Rightarrow> int \<Rightarrow> real" where
  "score q c = dget_or (served q) c 0"

definition credit :: "cpi_queue \<Rightarrow> int \<Rightarrow> real" where
  "credit q c = dget_or (credits q) c 0"

definition active :: "cpi_queue \<Rightarrow> (int, real) dict" where
  "active q = filter (\<lambda>kv. backlogged q (fst kv)) (served q)"

definition cq_items :: "cpi_queue \<Rightarrow> seq_group multiset" where
  "cq_items q = mset (cq_iter q)"

definition cq_ok :: "cpi_queue \<Rightarrow> bool" where
  "cq_ok q \<longleftrightarrow> wf_dict (served q) \<and> wf_dict (client_waiting_queues q)
     \<and> set (dkeys (served q)) = set (dkeys (client_waiting_queues q))
     \<and> (\<forall>(c, ws) \<in> set (client_waiting_queues q). \<forall>g \<in> set ws. client_id g = Inr c)"

lemma cq_okD:
  assumes "cq_ok q"
  shows "wf_dict (served q)" "wf_dict (client_waiting_queues q)"
    and "map_of (client_waiting_queues q) c = None \<longleftrightarrow> map_of (served q) c = None"
    and "g \<in> set (waiting_of q c) \<Longrightarrow> client_id g = Inr c"
proof -
  show "wf_dict (served q)" "wf_dict (client_waiting_queues q)"
    using assms by (auto simp: cq_ok_def)
  show "map_of (client_waiting_queues q) c = None \<longleftrightarrow> map_of (served q) c = None"
    using assms by (simp add: cq_ok_def map_of_eq_None_iff)
  show "client_id g = Inr c" if "g \<in> set (waiting_of q c)"
    using that assms
    by (auto simp: waiting_of_def dget_or_def cq_ok_def dest!: map_of_SomeD split: option.splits)
qed

lemma cq_key_iff:
  "cq_ok q \<Longrightarrow> c \<in> set (dkeys (served q)) \<longleftrightarrow> (\<exists>ws. map_of (client_waiting_queues q) c = Some ws)"
  using cq_okD(3) [of q c] by (metis in_dkeys_map_of map_of_in_dkeys not_Some_eq)

lemma waiting_of_Some: "map_of (client_waiting_queues q) c = Some ws \<Longrightarrow> waiting_of q c = ws"
  by (simp add: waiting_of_def dget_or_def)

lemma backlogged_queue:
  "backlogged q c \<longleftrightarrow> (\<exists>ws. map_of (client_waiting_queues q) c = Some ws \<and> ws \<noteq> [])"
  by (auto simp: backlogged_def waiting_of_def dget_or_def split: option.splits)

lemma active_iff:
  "cq_ok q \<Longrightarrow> (c, v) \<in> set (active q) \<longleftrightarrow> backlogged q c \<and> v = score q c"
  by (auto simp: active_def score_def dget_or_def backlogged_queue
      wf_dict_map_of_iff [OF cq_okD(1), symmetric] cq_okD(3) [of q c] split: option.splits)
    (metis cq_okD(3) not_Some_eq option.distinct(1))

lemma cq_ok_init [intro]: "cq_ok (cq_init hw pw dw et)"
  by (simp add: cq_ok_def cq_init_def)

lemma waiting_of_init [simp]: "waiting_of (cq_init hw pw dw et) = (\<lambda>_. [])"
  by (simp add: waiting_of_def cq_init_def fun_eq_iff)

lemma cq_ok_queues:
  assumes "cq_ok q" "c \<in> set (dkeys (served q))" "\<forall>g \<in> set ws. client_id g = Inr c"
  shows "cq_ok (q\<lparr>client_waiting_queues := AList.update c ws (client_waiting_queues q)\<rparr>)"
  using assms by (auto simp: cq_ok_def dest!: set_update_cases intro: rev_image_eqI)

section \<open>Choosing a client\<close>

lemma delete_idle:
  assumes "wf_dict act" "map_of cwq c = Some []"
  shows "filter (\<lambda>kv. map_of cwq (fst kv) \<noteq> Some []) (AList.delete c act)
       = filter (\<lambda>kv. map_of cwq (fst kv) \<noteq> Some []) act"
  using assms(2) by (auto simp: AList.delete_eq filter_filter intro!: filter_cong)

lemma select_client_spec:
  assumes "wf_dict act" "\<And>k. k \<in> set (dkeys act) \<Longrightarrow> map_of cwq k \<noteq> None"
  shows "select_client act cwq =
     (case pick (<) snd (filter (\<lambda>kv. map_of cwq (fst kv) \<noteq> Some []) act) of
        None \<Rightarrow> Inl ValueError | Some cv \<Rightarrow> Inr (fst cv))"
  using assms
proof (induction act cwq rule: select_client.induct)
  case (1 act cwq)
  show ?case
  proof (cases "pick (<) snd act")
    case None
    then show ?thesis by (simp add: select_client.simps min_sel.sel_None)
  next
    case (Some cv)
    then have "fst cv \<in> set (dkeys act)" using min_sel.sel_in [of snd act cv] by auto
    with "1.prems"(2) obtain ws where ws: "map_of cwq (fst cv) = Some ws" by auto
    then have ix: "dindex cwq (fst cv) = Inr ws" by simp
    show ?thesis
    proof (cases "ws = []")
      case True
      have "select_client (AList.delete (fst cv) act) cwq =
         (case pick (<) snd (filter (\<lambda>kv. map_of cwq (fst kv) \<noteq> Some [])
                               (AList.delete (fst cv) act)) of
            None \<Rightarrow> Inl ValueError | Some cv \<Rightarrow> Inr (fst cv))"
        using "1.prems" by (intro "1.IH" [OF Some ix]) (auto simp: True)
      also have "filter (\<lambda>kv. map_of cwq (fst kv) \<noteq> Some []) (AList.delete (fst cv) act)
          = filter (\<lambda>kv. map_of cwq (fst kv) \<noteq> Some []) act"
        using delete_idle [OF "1.prems"(1), of cwq "fst cv"] ws True by simp
      finally show ?thesis
        using Some ix True by (simp add: select_client.simps [of act])
    next
      case False
      with ws have "pick (<) snd (filter (\<lambda>kv. map_of cwq (fst kv) \<noteq> Some []) act) = Some cv"
        by (intro min_sel.sel_filter [OF Some]) simp
      with Some ix False show ?thesis by (simp add: select_client.simps [of act])
    qed
  qed
qed

lemma select_client_active:
  assumes "cq_ok q"
  shows "select_client (served q) (client_waiting_queues q) =
     (case pick (<) snd (active q) of None \<Rightarrow> Inl ValueError | Some cv \<Rightarrow> Inr (fst cv))"
proof -
  have known: "map_of (client_waiting_queues q) k \<noteq> None" if "k \<in> set (dkeys (served q))" for k
    using that assms cq_okD(3) [OF assms, of k] in_dkeys_map_of [of k "served q"] by auto
  then have "filter (\<lambda>kv. map_of (client_waiting_queues q) (fst kv) \<noteq> Some []) (served q) = active q"
    unfolding active_def
    by (intro filter_cong refl) (force simp: backlogged_queue)
  with select_client_spec [OF cq_okD(1) [OF assms] known] show ?thesis by simp
qed

lemma select_client_min:
  assumes "cq_ok q" "select_client (served q) (client_waiting_queues q) = Inr c"
  shows "backlogged q c" and "\<And>k. backlogged q k \<Longrightarrow> score q c \<le> score q k"
proof -
  from assms obtain v where v: "pick (<) snd (active q) = Some (c, v)"
    by (auto simp: select_client_active split: option.splits)
  then have "(c, v) \<in> set (active q)" by (rule min_sel.sel_in)
  then show "backlogged q c" and "\<And>k. backlogged q k \<Longrightarrow> score q c \<le> score q k"
    using min_sel.sel_best [OF v] active_iff [OF assms(1)] by fastforce+
qed

lemma select_client_total:
  assumes "cq_ok q" "backlogged q c"
  shows "\<exists>c'. select_client (served q) (client_waiting_queues q) = Inr c'"
proof -
  have "active q \<noteq> []"
    using assms active_iff [OF assms(1), of c "score q c"] by auto
  then have "pick (<) snd (active q) \<noteq> None" by (simp add: min_sel.sel_None)
  then show ?thesis using select_client_active [OF assms(1)] by auto
qed

lemma active_empty: "cq_ok q \<Longrightarrow> active q = [] \<longleftrightarrow> (\<forall>c. \<not> backlogged q c)"
  using active_iff [of q] by (metis empty_iff last_in_set list.set(1) surj_pair)

section \<open>Contents\<close>

lemma cq_iter_mem:
  assumes "cq_ok q"
  shows "g \<in> set (cq_iter q) \<longleftrightarrow> (\<exists>c. g \<in> set (waiting_of q c))"
proof
  assume "g \<in> set (cq_iter q)"
  then obtain c ws where "(c, ws) \<in> set (client_waiting_queues q)" "g \<in> set ws"
    by (auto simp: cq_iter_def)
  then show "\<exists>c. g \<in> set (waiting_of q c)"
    using wf_dict_map_of_iff [OF cq_okD(2) [OF assms]] waiting_of_Some by metis
next
  assume "\<exists>c. g \<in> set (waiting_of q c)"
  then obtain c where c: "g \<in> set (waiting_of q c)" ..
  then obtain ws where "map_of (client_waiting_queues q) c = Some ws" "g \<in> set ws"
    by (cases "map_of (client_waiting_queues q) c") (auto simp: waiting_of_def)
  then show "g \<in> set (cq_iter q)"
    unfolding cq_iter_def set_concat set_map by (fastforce dest: map_of_SomeD)
qed

lemma cq_iter_empty: "cq_ok q \<Longrightarrow> cq_iter q = [] \<longleftrightarrow> (\<forall>c. \<not> backlogged q c)"
  using cq_iter_mem [of q] unfolding backlogged_def
  by (metis ex_in_conv list.set(1) set_empty)

lemma cq_bool_iff: "cq_bool q \<longleftrightarrow> cq_iter q \<noteq> []"
  by (auto simp: cq_bool_def cq_iter_def list_ex_iff)

lemma cq_len_iter: "cq_len q = int (length (cq_iter q))"
proof -
  have "foldl (\<lambda>n cw. if snd cw \<noteq> [] then n + int (length (snd cw)) else n) a d
      = a + int (length (concat (map snd d)))" for a and d :: "(int, seq_group list) dict"
    by (induction d arbitrary: a) auto
  then show ?thesis by (simp add: cq_len_def cq_iter_def)
qed

lemma mset_concat_update:
  "map_of d c = Some ws \<Longrightarrow>
     mset (concat (map snd (AList.update c ws' d))) + mset ws = mset (concat (map snd d)) + mset ws'"
  by (induction d) (auto simp: ac_simps split: if_splits)

lemma mset_concat_update_new:
  "map_of d c = None \<Longrightarrow>
     mset (concat (map snd (AList.update c ws' d))) = mset (concat (map snd d)) + mset ws'"
  by (induction d) (auto simp: ac_simps split: if_splits)

section \<open>Effect of each operation\<close>

lemma cq_items_update:
  assumes "cq_ok q"
  shows "cq_items (q\<lparr>client_waiting_queues := AList.update c ws (client_waiting_queues q)\<rparr>)
           + mset (waiting_of q c) = cq_items q + mset ws"
  using mset_concat_update [of "client_waiting_queues q" c _ ws]
    mset_concat_update_new [of "client_waiting_queues q" c ws]
  by (cases "map_of (client_waiting_queues q) c")
    (auto simp: cq_items_def cq_iter_def waiting_of_def)

lemma waiting_of_update [simp]:
  "waiting_of (q\<lparr>client_waiting_queues := AList.update c ws (client_waiting_queues q)\<rparr>) k
     = (if k = c then ws else waiting_of q k)"
  by (simp add: waiting_of_def dict_simps)

lemma waiting_of_served [simp]: "waiting_of (q\<lparr>served := sv\<rparr>) = waiting_of q"
  by (simp add: waiting_of_def fun_eq_iff)

lemma score_queues [simp]: "score (q\<lparr>client_waiting_queues := cw\<rparr>) = score q"
  by (simp add: score_def fun_eq_iff)

lemma score_update [simp]:
  "score (q\<lparr>served := AList.update c v (served q)\<rparr>) k = (if k = c then v else score q k)"
  by (simp add: score_def dict_simps)

lemma cq_items_served [simp]: "cq_items (q\<lparr>served := sv\<rparr>) = cq_items q"
  by (simp add: cq_items_def cq_iter_def)

lemma cq_ok_served:
  "cq_ok q \<Longrightarrow> c \<in> set (dkeys (served q)) \<Longrightarrow>
     cq_ok (q\<lparr>served := AList.update c v (served q)\<rparr>)"
  by (auto simp: cq_ok_def)

text \<open>The comprehension in \<open>append\<close> never misses a key, and collects the competing scores.\<close>

definition others :: "cpi_queue \<Rightarrow> int \<Rightarrow> real list" where
  "others q c = map snd (filter (\<lambda>kv. backlogged q (fst kv) \<and> fst kv \<noteq> c) (served q))"

lemma others_filter:
  assumes "waiting_of q1 = (waiting_of q)(c := ws)"
  shows "filter (\<lambda>kv. backlogged q1 (fst kv) \<and> fst kv \<noteq> c) d
       = filter (\<lambda>kv. backlogged q (fst kv) \<and> fst kv \<noteq> c) d"
  using assms by (intro filter_cong) (auto simp: backlogged_def)

lemma others_iff: "cq_ok q \<Longrightarrow> v \<in> set (others q c) \<longleftrightarrow> (\<exists>k. k \<noteq> c \<and> backlogged q k \<and> v = score q k)"
proof -
  assume ok: "cq_ok q"
  have "v \<in> set (others q c) \<longleftrightarrow> (\<exists>k. (k, v) \<in> set (active q) \<and> k \<noteq> c)"
    by (force simp: others_def active_def)
  then show ?thesis using active_iff [OF ok] by blast
qed

lemma cq_active_scores_eq:
  assumes "cq_ok q"
  shows "cq_active_scores c q = Inr (others q c)"
proof -
  have "foldM (\<lambda>acc (k, v). bindr (dindex (client_waiting_queues q) k) (\<lambda>ws.
          Inr (if ws \<noteq> [] \<and> k \<noteq> c then acc @ [v] else acc))) a d
      = Inr (a @ map snd (filter (\<lambda>kv. backlogged q (fst kv) \<and> fst kv \<noteq> c) d))"
    if "set d \<subseteq> set (served q)" for a d
    using that
  proof (induction d arbitrary: a)
    case Nil
    then show ?case by simp
  next
    case (Cons p d)
    obtain k v where p: "p = (k, v)" by (cases p)
    have "map_of (served q) k = Some v"
      using Cons.prems p wf_dict_map_of_iff [OF cq_okD(1) [OF assms]] by auto
    then obtain ws where ws: "map_of (client_waiting_queues q) k = Some ws"
      using cq_okD(3) [OF assms, of k] by auto
    then have "backlogged q k \<longleftrightarrow> ws \<noteq> []" by (simp add: backlogged_queue)
    with ws p Cons show ?case by simp
  qed
  then show ?thesis by (simp add: cq_active_scores_def others_def)
qed

definition lifted :: "cpi_queue \<Rightarrow> int \<Rightarrow> real" where
  "lifted q c = (case pick (<) (\<lambda>x. x) (others q c) of None \<Rightarrow> score q c | Some m \<Rightarrow> max (score q c) m)"

lemma cq_lift_eq:
  assumes "cq_ok q" "c \<in> set (dkeys (served q))"
  shows "\<exists>q'. cq_lift c q = Inr q' \<and> cq_ok q' \<and> cq_items q' = cq_items q
     \<and> waiting_of q' = waiting_of q \<and> score q' = (score q)(c := lifted q c)"
proof -
  from assms(2) obtain s where s: "map_of (served q) c = Some s"
    using in_dkeys_map_of by metis
  then have sc: "score q c = s" by (simp add: score_def)
  show ?thesis
  proof (cases "pick (<) (\<lambda>x. x) (others q c)")
    case None
    with assms show ?thesis by (simp add: cq_lift_def cq_active_scores_eq lifted_def)
  next
    case (Some m)
    with assms s sc cq_ok_served [OF assms] show ?thesis
      by (auto simp: cq_lift_def cq_active_scores_eq lifted_def fun_eq_iff)
  qed
qed

lemma cq_append_eq:
  assumes ok: "cq_ok q" and c: "client_id g = Inr c"
  shows "\<exists>q'. cq_append g q = Inr q' \<and> cq_ok q' \<and> cq_items q' = add_mset g (cq_items q)
     \<and> waiting_of q' = (waiting_of q)(c := waiting_of q c @ [g])
     \<and> score q' = (score q)(c := (if backlogged q c then score q c else lifted q c))"
proof (cases "map_of (client_waiting_queues q) c")
  case None
  define q1 where "q1 = q\<lparr>client_waiting_queues := AList.update c [g] (client_waiting_queues q),
    served := AList.update c 0 (served q)\<rparr>"
  have new: "map_of (served q) c = None" using None cq_okD(3) [OF ok] by simp
  have ok1: "cq_ok q1"
    using ok c by (auto simp: q1_def cq_ok_def dest!: set_update_cases intro: rev_image_eqI)
  have w1: "waiting_of q1 = (waiting_of q)(c := [g])"
    by (auto simp: q1_def waiting_of_def dict_simps)
  have s1: "score q1 = score q"
    using new by (auto simp: q1_def score_def dict_simps)
  have i1: "cq_items q1 = add_mset g (cq_items q)"
    using None by (simp add: q1_def cq_items_def cq_iter_def mset_concat_update_new)
  have "others q1 c = others q c"
    using new unfolding others_def others_filter [OF w1]
    by (simp add: q1_def map_of_eq_None_iff update_new)
  moreover have "c \<in> set (dkeys (served q1))" by (simp add: q1_def)
  moreover have "map_of (client_waiting_queues q1) c = Some [g]"
    by (simp add: q1_def dict_simps)
  moreover have "cq_append g q = cq_lift c q1"
    using None c by (simp add: cq_append_def q1_def Let_def dict_simps)
  moreover from calculation(1) have "lifted q1 c = lifted q c" unfolding lifted_def s1 by simp
  ultimately show ?thesis
    using cq_lift_eq [OF ok1, of c] None w1 s1 i1 c
    by (simp add: backlogged_def waiting_of_def)
next
  case (Some ws)
  define q1 where
    "q1 = q\<lparr>client_waiting_queues := AList.update c (ws @ [g]) (client_waiting_queues q)\<rparr>"
  have ws: "waiting_of q c = ws" using Some by (rule waiting_of_Some)
  have key: "c \<in> set (dkeys (served q))"
    using Some cq_key_iff [OF ok, of c] by simp
  have ok1: "cq_ok q1" unfolding q1_def
    using ok key c cq_okD(4) [OF ok, of _ c] ws by (intro cq_ok_queues) auto
  have w1: "waiting_of q1 = (waiting_of q)(c := ws @ [g])" by (auto simp: q1_def)
  have i1: "cq_items q1 = add_mset g (cq_items q)"
    using cq_items_update [OF ok, of c "ws @ [g]"] ws by (simp add: q1_def)
  have "others q1 c = others q c"
    unfolding others_def others_filter [OF w1] by (simp add: q1_def)
  moreover have s1: "score q1 = score q" by (simp add: q1_def)
  ultimately have l1: "lifted q1 c = lifted q c" unfolding lifted_def s1 by simp
  have key1: "c \<in> set (dkeys (served q1))" using key by (simp add: q1_def)
  have app: "cq_append g q = (if ws = [] then cq_lift c q1 else Inr q1)"
    using Some c by (simp add: cq_append_def q1_def Let_def dict_simps)
  show ?thesis
  proof (cases "ws = []")
    case True
    with cq_lift_eq [OF ok1 key1] app ws w1 i1 s1 l1 show ?thesis
      by (simp add: backlogged_def)
  next
    case False
    with app ws w1 i1 s1 ok1 show ?thesis by (simp add: backlogged_def)
  qed
qed

lemma cq_cost_weights:
  "hit_weight q' = hit_weight q \<Longrightarrow> prefill_weight q' = prefill_weight q \<Longrightarrow> cq_cost q' = cq_cost q"
  by (simp add: cq_cost_def fun_eq_iff)

lemma cq_popleft_eq:
  assumes ok: "cq_ok q" and b: "backlogged q k"
  obtains c g rest q' where
    "select_client (served q) (client_waiting_queues q) = Inr c"
    "cq_popleft q = Inr (g, q')" "waiting_of q c = g # rest" "cq_ok q'"
    "waiting_of q' = (waiting_of q)(c := rest)" "score q' = score q"
    "add_mset g (cq_items q') = cq_items q" "credits q' = credits q" "client_id g = Inr c"
    "served q' = served q" "cq_cost q' = cq_cost q"
proof -
  from select_client_total [OF ok b] obtain c
    where sel: "select_client (served q) (client_waiting_queues q) = Inr c" ..
  from select_client_min(1) [OF ok sel] obtain ws
    where ws: "map_of (client_waiting_queues q) c = Some ws" "ws \<noteq> []"
    by (auto simp: backlogged_queue)
  then obtain g rest where gr: "ws = g # rest" by (cases ws) auto
  define q' where "q' = q\<lparr>client_waiting_queues := AList.update c rest (client_waiting_queues q)\<rparr>"
  have w: "waiting_of q c = g # rest" using ws gr by (simp add: waiting_of_Some)
  have key: "c \<in> set (dkeys (served q))"
    using ws cq_key_iff [OF ok, of c] by simp
  have "cq_ok q'" unfolding q'_def
    using ok key cq_okD(4) [OF ok, of _ c] w by (intro cq_ok_queues) auto
  moreover have "add_mset g (cq_items q') = cq_items q"
    using cq_items_update [OF ok, of c rest] w by (simp add: q'_def)
  moreover have "cq_popleft q = Inr (g, q')"
    using sel ws gr by (simp add: cq_popleft_def q'_def)
  moreover have "client_id g = Inr c" using cq_okD(4) [OF ok, of g c] w by simp
  moreover have "waiting_of q' = (waiting_of q)(c := rest)" by (rule ext) (simp add: q'_def)
  moreover have "score q' = score q" "credits q' = credits q" "served q' = served q"
    by (simp_all add: q'_def)
  moreover have "cq_cost q' = cq_cost q" by (rule cq_cost_weights) (simp_all add: q'_def)
  ultimately show thesis using that sel w by blast
qed

lemma cq_popleft_empty:
  assumes "cq_ok q" "\<forall>c. \<not> backlogged q c"
  shows "cq_popleft q = Inl ValueError"
proof -
  have "active q = []" using assms active_empty by blast
  with assms(1) show ?thesis by (simp add: cq_popleft_def select_client_active)
qed

lemma cq_appendleft_eq:
  assumes ok: "cq_ok q" and c: "client_id g = Inr c" and k: "c \<in> set (dkeys (served q))"
  shows "\<exists>q'. cq_appendleft g q = Inr q' \<and> cq_ok q' \<and> cq_items q' = add_mset g (cq_items q)
     \<and> waiting_of q' = (waiting_of q)(c := g # waiting_of q c) \<and> score q' = score q
     \<and> served q' = served q"
proof -
  from k cq_key_iff [OF ok, of c] obtain ws
    where ws: "map_of (client_waiting_queues q) c = Some ws" by auto
  define q' where "q' = q\<lparr>client_waiting_queues := AList.update c (g # ws) (client_waiting_queues q)\<rparr>"
  have w: "waiting_of q c = ws" using ws by (rule waiting_of_Some)
  have "cq_ok q'" unfolding q'_def
    using ok k c cq_okD(4) [OF ok, of _ c] w by (intro cq_ok_queues) auto
  moreover have "cq_items q' = add_mset g (cq_items q)"
    using cq_items_update [OF ok, of c "g # ws"] w by (simp add: q'_def)
  ultimately show ?thesis
    using c ws w by (auto simp: cq_appendleft_def q'_def fun_eq_iff)
qed

lemma remove_from_first_keys [simp]: "map fst (remove_from_first g d) = map fst d"
  by (induction g d rule: remove_from_first.induct) auto

lemma mset_minus_left: "g \<in># A \<Longrightarrow> A - {#g#} + M = A + M - {#g#}"
  by (metis diff_union_single_conv union_commute)

lemma mset_minus_right: "g \<notin># A \<Longrightarrow> A + (M - {#g#}) = A + M - {#g#}"
  by (metis diff_single_trivial diff_union_single_conv union_iff)

lemma remove_from_first_mset:
  "mset (concat (map snd (remove_from_first g d))) = mset (concat (map snd d)) - {#g#}"
proof (induction g d rule: remove_from_first.induct)
  case (2 g c ws rest)
  show ?case
  proof (cases "g \<in> set ws")
    case True
    with mset_minus_left [of g "mset ws"] show ?thesis by simp
  next
    case False
    with 2 mset_minus_right [of g "mset ws"] show ?thesis by simp
  qed
qed simp

lemma remove_from_first_set:
  "(c, ws) \<in> set (remove_from_first g d) \<Longrightarrow> \<exists>ws'. (c, ws') \<in> set d \<and> set ws \<subseteq> set ws'"
proof (induction g d rule: remove_from_first.induct)
  case (2 g k us rest)
  have sub: "set (remove1 g us) \<subseteq> set us" by (rule set_remove1_subset)
  consider (here) "c = k" "set ws \<subseteq> set us" | (rest) "(c, ws) \<in> set rest"
    | (later) "g \<notin> set us" "(c, ws) \<in> set (remove_from_first g rest)"
    using "2.prems" sub by (cases "g \<in> set us") auto
  then show ?case
  proof cases
    case later
    from "2.IH" [OF this] show ?thesis by auto
  qed auto
qed simp

lemma cq_remove_ok:
  assumes "cq_ok q"
  shows "cq_ok (cq_remove g q)"
proof -
  have "client_id h = Inr c"
    if "(c, ws) \<in> set (remove_from_first g (client_waiting_queues q))" "h \<in> set ws" for c ws h
    using remove_from_first_set [OF that(1)] that(2) assms by (fastforce simp: cq_ok_def)
  then have "\<forall>(c, ws) \<in> set (client_waiting_queues (cq_remove g q)). \<forall>g \<in> set ws. client_id g = Inr c"
    by (auto simp: cq_remove_def)
  moreover have "map fst (client_waiting_queues (cq_remove g q)) = map fst (client_waiting_queues q)"
    "served (cq_remove g q) = served q" by (simp_all add: cq_remove_def)
  ultimately show ?thesis using assms unfolding cq_ok_def by argo
qed

lemma cq_remove_backlogged:
  assumes "cq_ok q" "backlogged (cq_remove g q) k"
  shows "backlogged q k"
proof -
  from assms(2) obtain ws where
    "map_of (remove_from_first g (client_waiting_queues q)) k = Some ws" "ws \<noteq> []"
    by (auto simp: backlogged_queue cq_remove_def)
  from remove_from_first_set [OF map_of_SomeD [OF this(1)]] this(2) obtain ws'
    where "(k, ws') \<in> set (client_waiting_queues q)" "ws' \<noteq> []" by fastforce
  with wf_dict_map_of_iff [OF cq_okD(2) [OF assms(1)]] show ?thesis
    by (auto simp: backlogged_queue)
qed

lemma cq_remove_items: "cq_items (cq_remove g q) = cq_items q - {#g#}"
  by (simp add: cq_items_def cq_iter_def cq_remove_def remove_from_first_mset)

lemma cq_items_empty: "cq_ok q \<Longrightarrow> cq_items q = {#} \<longleftrightarrow> (\<forall>c. \<not> backlogged q c)"
  by (simp add: cq_items_def cq_iter_empty)

interpretation cpi: waiting_queue cq_ok cq_items cq_append cq_popleft cq_bool cq_len
proof
  fix q g c
  assume q: "cq_ok q"
  show "\<exists>q'. cq_append g q = Inr q' \<and> cq_ok q' \<and> cq_items q' = add_mset g (cq_items q)"
    if "client_id g = Inr c" using cq_append_eq [OF q that] by blast
  show "\<exists>g q'. cq_popleft q = Inr (g, q') \<and> cq_ok q' \<and> add_mset g (cq_items q') = cq_items q"
    if "cq_items q \<noteq> {#}"
    using that cq_items_empty [OF q] cq_popleft_eq [OF q] by metis
  show "\<exists>e. cq_popleft q = Inl e" if "cq_items q = {#}"
    using that cq_items_empty [OF q] cq_popleft_empty [OF q] by blast
  show "cq_bool q \<longleftrightarrow> cq_items q \<noteq> {#}" by (simp add: cq_bool_iff cq_items_def)
  show "cq_len q = int (size (cq_items q))" by (simp add: cq_len_iter cq_items_def)
qed

section \<open>Accounting\<close>

text \<open>The balance of a client: what it was charged less the credit it still holds.\<close>

definition balance :: "cpi_queue \<Rightarrow> int \<Rightarrow> real" where
  "balance q c = score q c - credit q c"

definition cost_of :: "cpi_queue \<Rightarrow> int \<Rightarrow> (int \<times> real \<times> real) list \<Rightarrow> real" where
  "cost_of q c ps = sum_list (map (\<lambda>p. cq_cost q (snd p)) (filter (\<lambda>p. fst p = c) ps))"

definition granted_to :: "int \<Rightarrow> (int, real) dict \<Rightarrow> real" where
  "granted_to c cs = sum_list (map snd (filter (\<lambda>p. fst p = c) cs))"

lemma cq_count_simps [simp]:
  "served (cq_count c h m q) = served q"
  "credits (cq_count c h m q) = credits q"
  "client_waiting_queues (cq_count c h m q) = client_waiting_queues q"
  "hit_weight (cq_count c h m q) = hit_weight q"
  "prefill_weight (cq_count c h m q) = prefill_weight q"
  by (cases "dhas (served_requests q) c"; simp add: cq_count_def Let_def)+

lemma cq_charge_score:
  "score (cq_charge q p) k =
     (if k = fst p then score q k + max 0 (cq_cost q (snd p) - credit q k) else score q k)"
  by (simp add: cq_charge_def Let_def score_def credit_def dict_simps)

lemma cq_charge_credit:
  "credit (cq_charge q p) k =
     (if k = fst p then max 0 (credit q k - cq_cost q (snd p)) else credit q k)"
  by (simp add: cq_charge_def Let_def credit_def dict_simps)

lemma cq_charge_queues [simp]:
  "client_waiting_queues (cq_charge q p) = client_waiting_queues q"
  "hit_weight (cq_charge q p) = hit_weight q"
  "prefill_weight (cq_charge q p) = prefill_weight q"
  by (simp_all add: cq_charge_def Let_def)

lemma cq_grant_simps [simp]:
  "score (cq_grant q p) = score q"
  "credit (cq_grant q p) k = credit q k + (if k = fst p then snd p else 0)"
  "client_waiting_queues (cq_grant q p) = client_waiting_queues q"
  "served (cq_grant q p) = served q"
  "hit_weight (cq_grant q p) = hit_weight q"
  "prefill_weight (cq_grant q p) = prefill_weight q"
  by (auto simp: cq_grant_def score_def credit_def dict_simps)

lemma cq_charge_balance:
  "balance (cq_charge q p) k = balance q k + (if k = fst p then cq_cost q (snd p) else 0)"
  by (simp add: balance_def cq_charge_score cq_charge_credit max_def)

lemma charges_effect:
  "balance (foldl cq_charge q ps) c = balance q c + cost_of q c ps
     \<and> score q c \<le> score (foldl cq_charge q ps) c"
proof (induction ps arbitrary: q)
  case Nil
  then show ?case by (simp add: cost_of_def)
next
  case (Cons p ps)
  have "cost_of (cq_charge q p) = cost_of q"
    by (simp add: cost_of_def fun_eq_iff cq_cost_weights [of "cq_charge q p" q])
  moreover have "score q c \<le> score (cq_charge q p) c" by (simp add: cq_charge_score)
  ultimately show ?case
    using Cons.IH [of "cq_charge q p"] by (auto simp: cq_charge_balance cost_of_def)
qed

lemma charges_credit_nonneg:
  "0 \<le> credit q c \<Longrightarrow> 0 \<le> credit (foldl cq_charge q ps) c"
  by (rule foldl_invariant [where P = "\<lambda>q. 0 \<le> credit q c"]) (auto simp: cq_charge_credit)

lemma grants_effect:
  "score (foldl cq_grant q cs) = score q
     \<and> credit (foldl cq_grant q cs) c = credit q c + granted_to c cs
     \<and> cq_cost (foldl cq_grant q cs) = cq_cost q"
proof (induction cs arbitrary: q)
  case Nil
  then show ?case by (simp add: granted_to_def)
next
  case (Cons p cs)
  then show ?case
    using cq_cost_weights [of "cq_grant q p" q] by (auto simp: granted_to_def)
qed

lemma granted_nonneg: "\<forall>p \<in> set cs. 0 \<le> snd p \<Longrightarrow> 0 \<le> granted_to c cs"
  by (auto simp: granted_to_def intro!: sum_list_nonneg)

lemma cq_charge_served: "fst ` set (served (cq_charge q p)) = insert (fst p) (fst ` set (served q))"
  by (simp add: cq_charge_def Let_def)

lemma cq_charge_ok: "cq_ok q \<Longrightarrow> fst p \<in> set (dkeys (served q)) \<Longrightarrow> cq_ok (cq_charge q p)"
  by (auto simp: cq_ok_def cq_charge_def Let_def)

lemma cq_grant_ok: "cq_ok q \<Longrightarrow> cq_ok (cq_grant q p)"
  by (simp add: cq_ok_def)

lemma waiting_of_queues: "client_waiting_queues q' = client_waiting_queues q \<Longrightarrow> waiting_of q' = waiting_of q"
  by (simp add: waiting_of_def fun_eq_iff)

lemma update_prefill_ok:
  assumes "cq_ok q" "\<forall>p \<in> set ps. fst p \<in> set (dkeys (served q))"
  shows "cq_ok (cq_update_prefill_served ps cs q)"
    and "client_waiting_queues (cq_update_prefill_served ps cs q) = client_waiting_queues q"
proof -
  define q1 where "q1 = foldl cq_grant q (case cs of None \<Rightarrow> [] | Some cs \<Rightarrow> cs)"
  have q1: "cq_ok q1 \<and> served q1 = served q \<and> client_waiting_queues q1 = client_waiting_queues q"
    unfolding q1_def by (rule foldl_invariant) (use assms(1) in \<open>auto simp: cq_grant_ok\<close>)
  have "cq_ok (foldl cq_charge q1 ps)
      \<and> set (dkeys (served q)) \<subseteq> set (dkeys (served (foldl cq_charge q1 ps)))
      \<and> client_waiting_queues (foldl cq_charge q1 ps) = client_waiting_queues q"
  proof (rule foldl_invariant)
    fix s p
    assume p: "p \<in> set ps" and s: "cq_ok s \<and> set (dkeys (served q)) \<subseteq> set (dkeys (served s))
      \<and> client_waiting_queues s = client_waiting_queues q"
    then have "fst p \<in> set (dkeys (served s))" using assms(2) by blast
    with s show "cq_ok (cq_charge s p)
      \<and> set (dkeys (served q)) \<subseteq> set (dkeys (served (cq_charge s p)))
      \<and> client_waiting_queues (cq_charge s p) = client_waiting_queues q"
      by (auto simp: cq_charge_served cq_charge_ok)
  qed (use q1 in auto)
  then show "cq_ok (cq_update_prefill_served ps cs q)"
    and "client_waiting_queues (cq_update_prefill_served ps cs q) = client_waiting_queues q"
    by (auto simp: cq_update_prefill_served_def q1_def)
qed

section \<open>Properties\<close>

text \<open>
  C5.  \<open>popleft\<close> serves a client with the lowest score among those with a waiting request and
  takes that client's oldest request; it raises only when nothing waits.
\<close>

theorem popleft_least_served:
  assumes "cq_ok q"
  shows "if cq_bool q
     then \<exists>c g q'. cq_popleft q = Inr (g, q') \<and> client_id g = Inr c
            \<and> waiting_of q c = g # waiting_of q' c
            \<and> (\<forall>k. k \<noteq> c \<longrightarrow> waiting_of q' k = waiting_of q k)
            \<and> (\<forall>k. backlogged q k \<longrightarrow> score q c \<le> score q k)
            \<and> cq_ok q' \<and> score q' = score q
     else cq_popleft q = Inl ValueError"
proof (cases "\<exists>k. backlogged q k")
  case True
  then obtain k where "backlogged q k" ..
  from cq_popleft_eq [OF assms this] obtain c g rest q' where
    *: "select_client (served q) (client_waiting_queues q) = Inr c"
    "cq_popleft q = Inr (g, q')" "waiting_of q c = g # rest" "cq_ok q'"
    "waiting_of q' = (waiting_of q)(c := rest)" "score q' = score q" "client_id g = Inr c" .
  have "cq_bool q" using True cq_iter_empty [OF assms] by (simp add: cq_bool_iff)
  with * select_client_min [OF assms *(1)] show ?thesis by auto
next
  case False
  then have "\<not> cq_bool q" using cq_iter_empty [OF assms] by (simp add: cq_bool_iff)
  with False show ?thesis using cq_popleft_empty [OF assms] by simp
qed

definition demo_group :: "int \<Rightarrow> string \<Rightarrow> seq_group" where
  "demo_group c rid =
     new_seq_group rid [] 0 (Some \<lparr>sp_client_id = Some c, sp_best_of = 1, sp_use_beam_search = False, sp_preempted = False\<rparr>)
       None None 0"

lemma demo_client [simp]: "client_id (demo_group c rid) = Inr c"
  by (simp add: demo_group_def new_seq_group_def client_id_def)

lemma popleft_least_served_witness:
  "\<exists>q. cq_append (demo_group 7 ''a'') (cq_init 0 1 1 1) = Inr q
      \<and> (\<exists>g q'. cq_popleft q = Inr (g, q') \<and> waiting_of q 7 = g # waiting_of q' 7)"
proof -
  from cq_append_eq [of "cq_init 0 1 1 1" "demo_group 7 ''a''" 7, OF cq_ok_init demo_client] obtain q
    where q: "cq_append (demo_group 7 ''a'') (cq_init 0 1 1 1) = Inr q" "cq_ok q"
      "waiting_of q = (waiting_of (cq_init 0 1 1 1))(7 := waiting_of (cq_init 0 1 1 1) 7 @ [demo_group 7 ''a''])"
    by (elim exE conjE)
  then have "backlogged q 7" by (simp add: backlogged_def)
  then have "cq_bool q" using cq_iter_empty [OF q(2)] by (auto simp: cq_bool_iff)
  with popleft_least_served [OF q(2)] obtain c g q'
    where p: "cq_popleft q = Inr (g, q')" "waiting_of q c = g # waiting_of q' c" by auto
  moreover from this(2) q(3) have "c = 7" by (simp split: if_splits)
  ultimately show ?thesis using q(1) by blast
qed

lemma select_client_nonempty:
  "select_client act cwq = Inr c \<Longrightarrow> \<exists>g ws. dindex cwq c = Inr (g # ws)"
proof (induction act cwq rule: select_client.induct)
  case (1 act cwq)
  obtain cv where cv: "pick (<) snd act = Some cv"
    using "1.prems" by (subst (asm) select_client.simps) (auto split: option.splits)
  obtain ws where ws: "dindex cwq (fst cv) = Inr ws"
    using "1.prems" cv by (subst (asm) select_client.simps) (auto split: sum.splits)
  show ?case
  proof (cases ws)
    case Nil
    with "1.prems" cv ws have "select_client (AList.delete (fst cv) act) cwq = Inr c"
      by (subst (asm) select_client.simps) simp
    with "1.IH" [OF cv ws] Nil show ?thesis by simp
  next
    case (Cons g rest)
    with "1.prems" cv ws have "c = fst cv" by (subst (asm) select_client.simps) simp
    with ws Cons show ?thesis by blast
  qed
qed

text \<open>
  C20.  The loop of \<open>popleft\<close> and \<open>__getitem__\<close>, which repeatedly takes a minimum and discards
  idle clients, computes one minimum over the clients with a waiting request, the first one on
  ties; and \<open>waiting[0]\<close> is always the request the next \<open>popleft\<close> returns, errors included.
\<close>

theorem peek_refines_minimum:
  "cq_getitem q 0 = bindr (cq_popleft q) (\<lambda>(g, q'). Inr g)
   \<and> (cq_ok q \<longrightarrow> cq_getitem q 0 =
      (case pick (<) snd (active q) of
         None \<Rightarrow> Inl ValueError | Some cv \<Rightarrow> Inr (hd (waiting_of q (fst cv)))))"
proof (intro conjI impI)
  show peek: "cq_getitem q 0 = bindr (cq_popleft q) (\<lambda>(g, q'). Inr g)"
  proof (cases "select_client (served q) (client_waiting_queues q)")
    case (Inr c)
    from select_client_nonempty [OF this] Inr show ?thesis
      by (auto simp: cq_getitem_def cq_popleft_def py_nth_def)
  qed (simp add: cq_getitem_def cq_popleft_def)
  assume ok: "cq_ok q"
  show "cq_getitem q 0 = (case pick (<) snd (active q) of
      None \<Rightarrow> Inl ValueError | Some cv \<Rightarrow> Inr (hd (waiting_of q (fst cv))))"
  proof (cases "pick (<) snd (active q)")
    case None
    with ok show ?thesis by (simp add: cq_getitem_def select_client_active)
  next
    case (Some cv)
    then have sel: "select_client (served q) (client_waiting_queues q) = Inr (fst cv)"
      using ok by (simp add: select_client_active)
    from select_client_nonempty [OF this] obtain g ws
      where "map_of (client_waiting_queues q) (fst cv) = Some (g # ws)" by auto
    with sel Some show ?thesis
      by (simp add: cq_getitem_def waiting_of_Some py_nth_def)
  qed
qed

lemma peek_refines_minimum_witness:
  "cq_getitem (cq_init 0 1 1 1) 0 = Inl ValueError"
proof -
  have "active (cq_init 0 1 1 1) = []" by (simp add: active_def cq_init_def)
  moreover have "cq_getitem (cq_init 0 1 1 1) 0 =
      (case pick (<) snd (active (cq_init 0 1 1 1)) of
         None \<Rightarrow> Inl ValueError
       | Some cv \<Rightarrow> Inr (hd (waiting_of (cq_init 0 1 1 1) (fst cv))))"
    using peek_refines_minimum [of "cq_init 0 1 1 1"] cq_ok_init by blast
  ultimately show ?thesis by simp
qed

text \<open>
  C7.  \<open>append\<close> never raises on a request that has sampling parameters, puts it at the end of
  its client's queue, and lifts the score of a client that was idle to at least the lowest
  score of the other active clients, never above the larger of its own score and that minimum;
  no other score changes.
\<close>

theorem append_lifts_idle_client:
  assumes "cq_ok q" "client_id g = Inr c"
  shows "\<exists>q'. cq_append g q = Inr q' \<and> cq_ok q'
     \<and> waiting_of q' = (waiting_of q)(c := waiting_of q c @ [g])
     \<and> (\<forall>k. k \<noteq> c \<or> backlogged q k \<longrightarrow> score q' k = score q k)
     \<and> (\<not> backlogged q c \<longrightarrow>
          (if \<exists>k. backlogged q k
           then \<exists>k. backlogged q k \<and> score q' c = max (score q c) (score q k)
                  \<and> (\<forall>j. backlogged q j \<longrightarrow> score q k \<le> score q j)
           else score q' c = score q c))"
proof -
  from cq_append_eq [OF assms] obtain q' where
    q': "cq_append g q = Inr q'" "cq_ok q'" "waiting_of q' = (waiting_of q)(c := waiting_of q c @ [g])"
    "score q' = (score q)(c := (if backlogged q c then score q c else lifted q c))" by blast
  have lift: "if \<exists>k. backlogged q k
     then \<exists>k. backlogged q k \<and> score q' c = max (score q c) (score q k)
            \<and> (\<forall>j. backlogged q j \<longrightarrow> score q k \<le> score q j)
     else score q' c = score q c" if idle: "\<not> backlogged q c"
  proof -
    have mem: "v \<in> set (others q c) \<longleftrightarrow> (\<exists>k. backlogged q k \<and> v = score q k)" for v
      using others_iff [OF assms(1), of v c] idle by metis
    show ?thesis
    proof (cases "pick (<) (\<lambda>x. x) (others q c)")
      case None
      then have "others q c = []" by (simp add: min_sel.sel_None)
      with mem None q'(4) idle show ?thesis by (auto simp: lifted_def)
    next
      case (Some m)
      then have "m \<in> set (others q c)" by (rule min_sel.sel_in)
      with mem obtain k where k: "backlogged q k" "m = score q k" by blast
      have "score q k \<le> score q j" if "backlogged q j" for j
        using min_sel.sel_best [OF Some, of "score q j"] mem that k by fastforce
      moreover have "score q' c = max (score q c) (score q k)"
        using q'(4) idle Some k by (simp add: lifted_def)
      ultimately show ?thesis using k by auto
    qed
  qed
  show ?thesis
  proof (intro exI [of _ q'] conjI)
    show "\<not> backlogged q c \<longrightarrow>
          (if \<exists>k. backlogged q k
           then \<exists>k. backlogged q k \<and> score q' c = max (score q c) (score q k)
                  \<and> (\<forall>j. backlogged q j \<longrightarrow> score q k \<le> score q j)
           else score q' c = score q c)" using lift by blast
  qed (use q' in auto)
qed

lemma append_lifts_idle_client_witness:
  "\<exists>q'. cq_append (demo_group 7 ''a'') (cq_init 0 1 1 1) = Inr q' \<and> score q' 7 = 0"
proof -
  have "\<not> backlogged (cq_init 0 1 1 1) k" "score (cq_init 0 1 1 1) 7 = 0" for k
    by (simp_all add: backlogged_def) (simp add: score_def cq_init_def)
  with append_lifts_idle_client [OF cq_ok_init [of 0 1 1 1] demo_client [of 7 "''a''"]]
  show ?thesis by fastforce
qed

text \<open>
  C18.  Exact accounting of a prefill report: the balance of every client (score less unspent
  credit) grows by the weighted cost reported for it and drops by the credit granted to it, no
  score ever decreases, and credits stay non-negative when the granted ones are.
\<close>

theorem prefill_accounting:
  "balance (cq_update_prefill_served ps cs q) c
     = balance q c + cost_of q c ps - granted_to c (case cs of None \<Rightarrow> [] | Some xs \<Rightarrow> xs)
   \<and> score q c \<le> score (cq_update_prefill_served ps cs q) c
   \<and> (0 \<le> credit q c \<and> (\<forall>p \<in> set (case cs of None \<Rightarrow> [] | Some xs \<Rightarrow> xs). 0 \<le> snd p)
        \<longrightarrow> 0 \<le> credit (cq_update_prefill_served ps cs q) c)"
proof -
  define xs where "xs = (case cs of None \<Rightarrow> [] | Some xs \<Rightarrow> xs)"
  define q1 where "q1 = foldl cq_grant q xs"
  have q1: "score q1 = score q" "credit q1 c = credit q c + granted_to c xs"
    and cc: "cq_cost q1 = cq_cost q"
    using grants_effect [of q xs c] by (simp_all only: q1_def)
  have co: "cost_of q1 = cost_of q" by (intro ext) (simp only: cost_of_def cc)
  have "cq_update_prefill_served ps cs q = foldl cq_charge q1 ps"
    by (simp add: cq_update_prefill_served_def q1_def xs_def)
  with charges_effect [of q1 ps c] charges_credit_nonneg [of q1 c ps] q1 co
    granted_nonneg [of xs c]
  show ?thesis by (auto simp: balance_def simp flip: xs_def)
qed

lemma prefill_accounting_witness:
  "0 \<le> credit (cq_update_prefill_served [(1, 100, 20)] (Some [(1, 5)]) (cq_init 0.02 0.1 0.2 1)) 1"
  using prefill_accounting [of "[(1, 100, 20)]" "Some [(1, 5)]" "cq_init 0.02 0.1 0.2 1" 1]
  by (simp add: credit_def cq_init_def)

text \<open>
  C19.  No request is lost, duplicated or stuck: append any requests to a new queue and pop as
  often; nothing raises, \<open>len\<close> is right in between, what comes out is a permutation of what
  went in, and the queue ends empty.
\<close>

theorem requests_conserved:
  assumes "\<forall>g \<in> set gs. has_client g"
  shows "\<exists>q1 hs q2. append_all cq_append gs (cq_init hw pw dw et) = Inr q1
     \<and> cq_len q1 = int (length gs) \<and> drain cq_popleft (length gs) q1 = Inr (hs, q2)
     \<and> mset hs = mset gs \<and> \<not> cq_bool q2 \<and> (\<exists>e. cq_popleft q2 = Inl e)"
  by (rule cpi.append_drain [OF cq_ok_init _ assms]) (simp add: cq_items_def cq_iter_def cq_init_def)

lemma requests_conserved_witness:
  "\<exists>q1. append_all cq_append [demo_group 7 ''a''] (cq_init 0 1 1 1) = Inr q1 \<and> cq_len q1 = 1"
  using requests_conserved [of "[demo_group 7 ''a'']" 0 1 1 1] by (auto simp: has_client_iff)

end
