(* ===== verification/Adapter.thy ===== *)
theory Adapter
  imports Fair_Engine CPI_Queue
begin

text \<open>
  The adapter between vLLM and the cache engine, \<open>lmcache-vllm/lmcache_vllm/vllm_adapter.py\<close>: it
  decides per batch whether to retrieve and to store, puts the retrieved KV cache into vLLM's paged
  memory, rebuilds the model input so that only the missing tokens are computed, splits the cost
  of shared chunks between clients, and hands the computed KV cache to the engine.

  The paged memory of a layer is its key and its value cache, each seen as the list of its slots
  (\<open>[num_blocks, block_size]\<close> flattened), one row per slot; \<open>kv_cache_dtype\<close> is \<open>auto\<close>, so a row is
  copied as it is.  The engine's \<open>retrieve\<close>, \<open>lookup\<close> and \<open>store\<close> are arguments; the first two
  arguments of \<open>retrieve\<close> and \<open>store\<close> are the index of the call and the client.
\<close>

section \<open>Batches\<close>

text \<open>
  \<open>SequenceGroupMetadata\<close>, the attention and sampling metadata and the model input, with the fields
  the adapter reads or writes; the fields it passes on are left out.  A sequence of a batch is
  its token list; \<open>sm_query_lens\<close> are the \<open>query_len\<close> of the sampling metadata's \<open>seq_groups\<close>.
\<close>

record group_meta =
  gm_request_id :: string
  gm_is_prompt :: bool
  gm_client :: "int option"
  gm_preempted :: bool
  gm_do_sample :: bool
  gm_seq_data :: "(int, int list) dict"
  gm_block_tables :: "(int, int list) dict"

definition gm_client_id :: "group_meta \<Rightarrow> int" where
  "gm_client_id g = (case gm_client g of None \<Rightarrow> - 1 | Some c \<Rightarrow> c)"

record attn_meta =
  am_num_prefills :: int
  am_num_prefill_tokens :: int
  am_slot_mapping :: "int list"
  am_seq_lens :: "nat list"
  am_has_prefill :: bool
  am_max_query_len :: int
  am_block_tables :: "int list list"
  am_query_start_loc :: "int list"
  am_context_lens :: "int list"
  am_blended_layers :: "int option"

record sampling_meta =
  sm_query_lens :: "int list option"
  sm_selected :: "int list"

record model_input =
  mi_input_tokens :: "int list"
  mi_input_positions :: "int list"
  mi_query_lens :: "int list"
  mi_attn :: attn_meta
  mi_seq_ids :: "(string, int list) dict"
  mi_sampling :: "sampling_meta option"
  mi_groups :: "group_meta list"

section \<open>Slots\<close>

text \<open>
  \<open>compute_slot_mapping\<close> of \<open>vllm/attention/backends/utils.py\<close>: the slot of every position of a
  sequence, through its block table, by a Python loop for few positions and by NumPy for many.
\<close>

definition slots_python :: "int list \<Rightarrow> int \<Rightarrow> int \<Rightarrow> int \<Rightarrow> int list result" where
  "slots_python table a b bs =
     mapM (\<lambda>i. if bs = 0 then Inl ZeroDivisionError
                else bindr (py_nth table (i div bs)) (\<lambda>blk. Inr (blk * bs + i mod bs))) [a..b - 1]"

definition slots_numpy :: "int list \<Rightarrow> int \<Rightarrow> int \<Rightarrow> int \<Rightarrow> int list result" where
  "slots_numpy table a b bs =
     (let idx = [a..b - 1];
          offsets = map (\<lambda>i. if bs = 0 then 0 else i mod bs) idx;
          blocks = map (\<lambda>i. i div bs) idx
      in bindr (mapM (py_nth table) blocks) (\<lambda>ns. Inr (map2 (+) (map (\<lambda>n. n * bs) ns) offsets)))"

definition compute_slot_mapping ::
  "bool \<Rightarrow> int list \<Rightarrow> int \<Rightarrow> int \<Rightarrow> int \<Rightarrow> int \<Rightarrow> int \<Rightarrow> (int, int list) dict \<Rightarrow> int list result" where
  "compute_slot_mapping profiling acc sid len context start bs tables =
     (if profiling then Inr (acc @ replicate (nat len) (- 1))
      else (let acc1 = acc @ replicate (nat (max 0 (start - context))) (- 1);
                a = max start context
            in bindr (dindex tables sid) (\<lambda>table.
                 bindr (if len - a < 256 then slots_python table a len bs else slots_numpy table a len bs)
                   (\<lambda>slots. Inr (acc1 @ slots)))))"

text \<open>
  The CUDA kernel behind \<open>reshape_and_cache_flash\<close> writes row \<open>i\<close> of the keys and the values to the
  slot at index \<open>i\<close> of the slot mapping and skips negative slots.  It runs once per row and not
  once per slot: the slot tensor is a slice of the batch's mapping, and a row past the end of the
  slice goes to the slot that follows in the mapping.
\<close>

definition scatter_rows :: "'a list list \<Rightarrow> int list \<Rightarrow> 'a mat \<Rightarrow> 'a mat" where
  "scatter_rows rows slots cache =
     foldl (\<lambda>m (r, s). if s < 0 then m else m[nat s := r]) cache (zip rows slots)"

definition gather_rows :: "'a mat \<Rightarrow> int list \<Rightarrow> 'a mat result" where
  "gather_rows cache slots = mapM (py_nth cache) slots"

definition inject_kv :: "nat \<Rightarrow> 'a blob \<Rightarrow> int list \<Rightarrow> 'a blob \<Rightarrow> 'a blob result" where
  "inject_kv layers kv slots mem =
     foldM (\<lambda>mem l.
       bindr (py_nth mem (int l)) (\<lambda>layer. bindr (py_nth layer 0) (\<lambda>kc. bindr (py_nth layer 1) (\<lambda>vc.
         bindr (py_nth kv (int l)) (\<lambda>t. bindr (py_nth t 0) (\<lambda>ks. bindr (py_nth t 1) (\<lambda>vs.
           Inr (mem[l := [scatter_rows ks slots kc, scatter_rows vs slots vc]]))))))))
       mem [0..<layers]"

definition collect_kv :: "nat \<Rightarrow> int list \<Rightarrow> 'a blob \<Rightarrow> 'a blob result" where
  "collect_kv layers slots mem =
     mapM (\<lambda>l.
       bindr (py_nth mem (int l)) (\<lambda>layer. bindr (py_nth layer 0) (\<lambda>kc. bindr (py_nth layer 1) (\<lambda>vc.
         bindr (gather_rows kc slots) (\<lambda>ks. bindr (gather_rows vc slots) (\<lambda>vs. Inr [ks, vs]))))))
       [0..<layers]"

definition mask_from :: "nat \<Rightarrow> int \<Rightarrow> bool list" where
  "mask_from n k = suffix_mask n (slice_index (replicate n True) k)"

section \<open>What to retrieve and what to store\<close>

datatype store_status =
    StorePREFILL | StoreCHUNK_PREFILL | StoreDECODE | StoreSUFFIX_PREFILL | StoreNONE

datatype retrieve_status =
    RetrievePREFILL | RetrieveCHUNK_PREFILL | RetrieveCHUNK_PREFILL_LAST | RetrieveNONE

text \<open>
  The paged memory is \<open>None\<close> in a profiling run, where \<open>kv_caches\<close> or its first element is \<open>None\<close>.
\<close>

definition all_prefill :: "attn_meta \<Rightarrow> bool" where
  "all_prefill am \<longleftrightarrow> am_num_prefills am = int (length (am_seq_lens am)) \<and> am_has_prefill am"

definition lmcache_should_retrieve :: "bool \<Rightarrow> 'a blob option \<Rightarrow> model_input \<Rightarrow> retrieve_status result" where
  "lmcache_should_retrieve has_engine mem mi =
     (if \<not> has_engine then Inr RetrieveNONE
      else case mem of
        None \<Rightarrow> Inr RetrieveNONE
      | Some m \<Rightarrow>
          if m = [] then Inl IndexError
          else if all_prefill (mi_attn mi) then
            (case mi_sampling mi of
               None \<Rightarrow> Inl AttributeError
             | Some sm \<Rightarrow>
                 if sm_selected sm = [] then assert_py (length (am_seq_lens (mi_attn mi)) = 1) (Inr RetrieveCHUNK_PREFILL)
                 else if length (sm_selected sm) = length (am_seq_lens (mi_attn mi)) then Inr RetrievePREFILL
                 else Inr RetrieveNONE)
          else Inr RetrieveNONE)"

definition set_status :: "store_status list \<Rightarrow> nat \<Rightarrow> store_status \<Rightarrow> store_status list result" where
  "set_status st i v = (if i < length st then Inr (st[i := v]) else Inl IndexError)"

definition store_status_seq ::
  "int list \<Rightarrow> store_status list \<times> nat \<times> nat \<Rightarrow> int \<times> int list \<Rightarrow> (store_status list \<times> nat \<times> nat) result" where
  "store_status_seq selected = (\<lambda>(st, d, s) (sid, toks).
     bindr (py_nth selected (int s)) (\<lambda>v.
       bindr (set_status st d (if int (length toks) - 1 \<noteq> v then StoreSUFFIX_PREFILL else StorePREFILL)) (\<lambda>st'.
         Inr (st', Suc d, Suc s))))"

definition store_status_group ::
  "int list \<Rightarrow> store_status list \<times> nat \<times> nat \<Rightarrow> group_meta \<Rightarrow> (store_status list \<times> nat \<times> nat) result" where
  "store_status_group selected = (\<lambda>(st, d, s) g.
     if \<not> gm_do_sample g then bindr (set_status st d StoreCHUNK_PREFILL) (\<lambda>st'. Inr (st', Suc d, s))
     else foldM (store_status_seq selected) (st, d, s) (gm_seq_data g))"

definition lmcache_should_store ::
  "nat option \<Rightarrow> bool \<Rightarrow> 'a blob option \<Rightarrow> model_input \<Rightarrow> store_status list result" where
  "lmcache_should_store chunk save_decode mem mi =
     (let lens = am_seq_lens (mi_attn mi); none = replicate (length lens) StoreNONE in
      case chunk of
        None \<Rightarrow> Inr none
      | Some c \<Rightarrow>
          if (case am_blended_layers (mi_attn mi) of None \<Rightarrow> False | Some n \<Rightarrow> n > 0) then Inr none
          else (case mem of
            None \<Rightarrow> Inr none
          | Some m \<Rightarrow>
              if m = [] then Inl IndexError
              else if all_prefill (mi_attn mi) then
                (case mi_sampling mi of
                   None \<Rightarrow> Inl AttributeError
                 | Some sm \<Rightarrow> bindr (foldM (store_status_group (sm_selected sm)) (none, 0, 0) (mi_groups mi)) (\<lambda>(st, _). Inr st))
              else if save_decode then
                (if lens \<noteq> [] \<and> c = 0 then Inl ZeroDivisionError
                 else Inr (map (\<lambda>len. if len mod c = 0 then StoreDECODE else StoreNONE) lens))
              else Inr none))"

section \<open>Storing\<close>

text \<open>
  \<open>lmcache_store_kv\<close>: \<open>d\<close> and \<open>r\<close> are \<open>seq_data_idx\<close> and \<open>retrieved_keys_idx\<close>.  The slot mapping of
  a sequence with tokens left to store is never empty.  The memory layout of Turing GPUs, which
  is only permuted, is left out.
\<close>

definition request_kind :: "group_meta \<Rightarrow> string" where
  "request_kind g = (if take 5 (gm_request_id g) = ''chat-'' then ''chat'' else ''api'')"

definition store_tokens ::
  "(int list \<Rightarrow> 'e \<Rightarrow> nat result)
     \<Rightarrow> (nat \<Rightarrow> int \<Rightarrow> string \<Rightarrow> cache_key list \<Rightarrow> int list \<Rightarrow> 'a blob \<Rightarrow> bool list \<Rightarrow> 'e \<Rightarrow> (nat \<times> 'e) result)
     \<Rightarrow> nat \<Rightarrow> int \<Rightarrow> nat \<Rightarrow> 'a blob \<Rightarrow> group_meta \<Rightarrow> nat \<Rightarrow> cache_key list \<Rightarrow> int \<Rightarrow> nat \<Rightarrow> int list \<Rightarrow> 'e \<Rightarrow> 'e result" where
  "store_tokens look put c bs layers mem g d keys sid len toks e =
     (let current = take len toks in
      bindr (look current e) (\<lambda>skip.
        assert_py (skip \<le> len)
          (if skip < len then
             (if c = 0 then Inl ZeroDivisionError
              else assert_py (skip mod c = 0)
                (bindr (compute_slot_mapping False [] sid (int len) (int skip) 0 bs (gm_block_tables g)) (\<lambda>slots.
                   bindr (collect_kv layers slots mem) (\<lambda>kv.
                     bindr (put d (gm_client_id g) (request_kind g) keys current kv
                              (mask_from (length current) (int len - int (length slots))) e) (\<lambda>(n, e').
                       Inr e')))))
           else Inr e)))"

definition store_seq ::
  "(int list \<Rightarrow> 'e \<Rightarrow> nat result)
     \<Rightarrow> (nat \<Rightarrow> int \<Rightarrow> string \<Rightarrow> cache_key list \<Rightarrow> int list \<Rightarrow> 'a blob \<Rightarrow> bool list \<Rightarrow> 'e \<Rightarrow> (nat \<times> 'e) result)
     \<Rightarrow> nat \<Rightarrow> int \<Rightarrow> nat \<Rightarrow> 'a blob \<Rightarrow> nat list \<Rightarrow> store_status list \<Rightarrow> cache_key list list option
     \<Rightarrow> group_meta \<Rightarrow> nat \<times> nat \<times> 'e \<Rightarrow> int \<times> int list \<Rightarrow> (nat \<times> nat \<times> 'e) result" where
  "store_seq look put c bs layers mem lens statuses keys_list g = (\<lambda>(d, r, e) (sid, toks).
     bindr (py_nth statuses (int d)) (\<lambda>status.
     bindr (case keys_list of None \<Rightarrow> Inr [] | Some kss \<Rightarrow> py_nth kss (int r)) (\<lambda>keys.
       if status = StoreNONE then Inr (d, r, e)
       else bindr (if status = StoreSUFFIX_PREFILL \<or> status = StoreCHUNK_PREFILL then py_nth lens (int d)
                   else Inr (length toks)) (\<lambda>len.
         if status = StoreDECODE \<and> c = 0 then Inl ZeroDivisionError
         else if status = StoreDECODE \<and> len mod c \<noteq> 0 then Inr (d, r, e)
         else bindr (store_tokens look put c bs layers mem g d keys sid len toks e) (\<lambda>e'.
           Inr (Suc d, Suc r, e'))))))"

definition lmcache_store_kv ::
  "(int list \<Rightarrow> 'e \<Rightarrow> nat result)
     \<Rightarrow> (nat \<Rightarrow> int \<Rightarrow> string \<Rightarrow> cache_key list \<Rightarrow> int list \<Rightarrow> 'a blob \<Rightarrow> bool list \<Rightarrow> 'e \<Rightarrow> (nat \<times> 'e) result)
     \<Rightarrow> nat \<Rightarrow> int \<Rightarrow> nat \<Rightarrow> model_input \<Rightarrow> 'a blob \<Rightarrow> store_status list \<Rightarrow> cache_key list list option \<Rightarrow> 'e \<Rightarrow> 'e result" where
  "lmcache_store_kv look put c bs layers mi mem statuses keys_list e =
     bindr (foldM (\<lambda>st g. foldM (store_seq look put c bs layers mem (am_seq_lens (mi_attn mi)) statuses keys_list g)
                             st (gm_seq_data g)) (0, 0, e) (mi_groups mi)) (\<lambda>(d, r, e'). Inr e')"

section \<open>Attribution\<close>

text \<open>
  A chunk that \<open>k\<close> clients paid for and a further one hits is shared by \<open>k + 1\<close>: the newcomer is
  charged the \<open>1 / (k + 1)\<close> share of its tokens as if it had missed them, and each of the \<open>k\<close> is
  credited with what its share shrinks by, at the prefill weight \<open>0.1\<close> and \<open>ETA_ATTRIBUTION = 1\<close>.
  \<open>py_round\<close> is Python's \<open>round\<close>, half to even.
\<close>

definition prefill_weight_cost :: real where
  "prefill_weight_cost = 1 / 10"

definition eta_attribution :: real where
  "eta_attribution = 1"

definition py_round :: "real \<Rightarrow> int" where
  "py_round x =
     (let f = \<lfloor>x\<rfloor>; d = x - real_of_int f in
      if d < 1 / 2 then f else if d > 1 / 2 then f + 1 else if even f then f else f + 1)"

definition attribute_chunk ::
  "real \<times> (int, real) dict \<Rightarrow> bool \<times> int list \<times> int \<Rightarrow> real \<times> (int, real) dict" where
  "attribute_chunk = (\<lambda>(delta, creds) (was_new, old, tok).
     if was_new \<and> 0 < length old then
       (let k = real (length old);
            cost = prefill_weight_cost * real_of_int tok;
            credit_per_old = eta_attribution * (cost / k - cost / (k + 1))
        in (delta + real_of_int tok / (k + 1),
            foldl (\<lambda>cs c. AList.update c (dget_or cs c 0 + credit_per_old) cs) creds old))
     else (delta, creds))"

definition adjusted_hit_miss :: "real \<Rightarrow> int \<Rightarrow> int \<Rightarrow> int \<times> int" where
  "adjusted_hit_miss delta computed whole =
     (if delta > 0 then (let hit = computed - py_round delta in (hit, whole - hit))
      else (computed, whole - computed))"

definition charge_client :: "int \<Rightarrow> int \<times> int \<Rightarrow> (int, int \<times> int) dict \<Rightarrow> (int, int \<times> int) dict" where
  "charge_client c hm d =
     (case map_of d c of
        None \<Rightarrow> AList.update c hm d
      | Some old \<Rightarrow> AList.update c (fst old + fst hm, snd old + snd hm) d)"

section \<open>Retrieving\<close>

text \<open>
  \<open>lmcache_retrieve_kv\<close>.  A \<open>batch_item\<close> is one entry of the six parallel lists \<open>full_tokens_list\<close>,
  \<open>num_computed_tokens_list\<close>, \<open>lmc_num_computed_tokens_list\<close>, \<open>start_pos_list\<close>, \<open>is_prefill_list\<close> and
  \<open>temp_block_table_list\<close>; \<open>retrieving\<close> are the loop's variables with the paged memory and the
  engine; \<open>Leave\<close> is the early return inside the loop.
\<close>

record batch_item =
  it_tokens :: "int list"
  it_computed :: int
  it_injected :: int
  it_start :: int
  it_prefill :: bool
  it_table :: "int list"

record ('a, 'e) retrieving =
  rt_engine :: 'e
  rt_mem :: "'a blob"
  rt_items :: "batch_item list"
  rt_next_start :: int
  rt_not_found :: nat
  rt_idx :: nat
  rt_served :: "(int, int \<times> int) dict"
  rt_credits :: "(int, real) dict"
  rt_keys :: "cache_key list list"

datatype 's flow = Next 's | Leave 's

fun forM_until :: "('s \<Rightarrow> 'x \<Rightarrow> 's flow result) \<Rightarrow> 's \<Rightarrow> 'x list \<Rightarrow> 's flow result" where
  "forM_until f s [] = Inr (Next s)"
| "forM_until f s (x # xs) =
     bindr (f s x) (\<lambda>r. case r of Leave s' \<Rightarrow> Inr (Leave s') | Next s' \<Rightarrow> forM_until f s' xs)"

definition bill_seq ::
  "group_meta \<Rightarrow> (bool \<times> int list \<times> int) list \<Rightarrow> int \<Rightarrow> int \<Rightarrow> ('a, 'e) retrieving \<Rightarrow> ('a, 'e) retrieving" where
  "bill_seq g attribution computed whole st =
     (let (delta, creds) = foldl attribute_chunk (0, rt_credits st) attribution in
      st\<lparr>rt_credits := creds,
         rt_served := (if gm_preempted g then rt_served st
                       else charge_client (gm_client_id g) (adjusted_hit_miss delta computed whole) (rt_served st))\<rparr>)"

definition place_seq ::
  "nat \<Rightarrow> model_input \<Rightarrow> 'a blob \<Rightarrow> int \<Rightarrow> int \<Rightarrow> ('a, 'e) retrieving \<Rightarrow> ('a, 'e) retrieving result" where
  "place_seq layers mi kv start lmc st =
     (if lmc = 0 then Inr (st\<lparr>rt_not_found := Suc (rt_not_found st), rt_idx := Suc (rt_idx st)\<rparr>)
      else bindr (inject_kv layers kv (slice_from (am_slot_mapping (mi_attn mi)) start) (rt_mem st)) (\<lambda>mem.
             Inr (st\<lparr>rt_mem := mem, rt_idx := Suc (rt_idx st)\<rparr>)))"

definition retrieve_seq ::
  "(nat \<Rightarrow> int \<Rightarrow> int list \<Rightarrow> bool list \<Rightarrow> 'e \<Rightarrow> ('a retrieval \<times> 'e) result) \<Rightarrow> nat \<Rightarrow> model_input \<Rightarrow> retrieve_status
     \<Rightarrow> group_meta \<Rightarrow> ('a, 'e) retrieving \<Rightarrow> int \<Rightarrow> ('a, 'e) retrieving flow result" where
  "retrieve_seq retr layers mi status g st sid =
     bindr (dindex (gm_seq_data g) sid) (\<lambda>toks.
     bindr (if status = RetrieveCHUNK_PREFILL then py_nth (am_seq_lens (mi_attn mi)) (int (rt_idx st))
            else Inr (length toks)) (\<lambda>len.
     bindr (py_nth (am_query_start_loc (mi_attn mi)) (int (Suc (rt_idx st)))) (\<lambda>q1.
     bindr (py_nth (am_query_start_loc (mi_attn mi)) (int (rt_idx st))) (\<lambda>q0.
     bindr (dindex (gm_block_tables g) sid) (\<lambda>table.
       let full = take len toks;
           required = q1 - q0;
           start = rt_next_start st;
           vllm_computed = int len - required
       in bindr (retr (rt_idx st) (gm_client_id g) full (mask_from (length full) vllm_computed) (rt_engine st)) (\<lambda>(r, e').
            let lmc0 = int (count_true (ret_mask r));
                computed0 = vllm_computed + lmc0
            in if status = RetrieveCHUNK_PREFILL \<and> computed0 \<noteq> int len then Inr (Leave (st\<lparr>rt_engine := e'\<rparr>))
               else (let back = (if status \<noteq> RetrieveCHUNK_PREFILL \<and> computed0 = int len then 1 else 0);
                         lmc = lmc0 - back;
                         computed = computed0 - back;
                         item = \<lparr>it_tokens = full, it_computed = computed, it_injected = lmc, it_start = start,
                                 it_prefill = gm_is_prompt g, it_table = table\<rparr>;
                         st1 = st\<lparr>rt_engine := e', rt_items := rt_items st @ [item], rt_next_start := start + required,
                                  rt_keys := rt_keys st @ [ret_keys r]\<rparr>
                     in bindr (place_seq layers mi (ret_kv r) start lmc (bill_seq g (ret_attribution r) computed (int len) st1))
                          (\<lambda>st2. Inr (Next st2)))))))))"

definition retrieve_group ::
  "(nat \<Rightarrow> int \<Rightarrow> int list \<Rightarrow> bool list \<Rightarrow> 'e \<Rightarrow> ('a retrieval \<times> 'e) result) \<Rightarrow> nat \<Rightarrow> model_input \<Rightarrow> retrieve_status
     \<Rightarrow> ('a, 'e) retrieving \<Rightarrow> group_meta \<Rightarrow> ('a, 'e) retrieving flow result" where
  "retrieve_group retr layers mi status st g =
     bindr (dindex (mi_seq_ids mi) (gm_request_id g)) (\<lambda>sids. forM_until (retrieve_seq retr layers mi status g) st sids)"

subsection \<open>The rebuilt input\<close>

text \<open>
  \<open>build_partial_prefill_input\<close>: the fields of \<open>rebuilding\<close> are its \<open>rebuilt_*\<close> lists and counters.
\<close>

record rebuilding =
  rb_tokens :: "int list list"
  rb_positions :: "int list list"
  rb_query_lens :: "int list"
  rb_num_prefills :: int
  rb_num_prefill_tokens :: int
  rb_slots :: "int list list"
  rb_max_query_len :: int
  rb_tables :: "int list list"
  rb_query_start :: "int list"
  rb_contexts :: "int list"
  rb_selected :: "int list"
  rb_last_start :: int

definition rebuild_item :: "model_input \<Rightarrow> rebuilding \<Rightarrow> batch_item \<Rightarrow> rebuilding result" where
  "rebuild_item mi b it =
     (let q = int (length (it_tokens it)) - it_computed it;
          from = it_start it + it_injected it;
          last = rb_last_start b + q
      in assert_py (q > 0) (assert_py (it_prefill it \<or> q = 1)
           (Inr (b\<lparr>rb_tokens := rb_tokens b @ [slice_from (it_tokens it) (it_computed it)],
                   rb_positions := rb_positions b @ [slice (mi_input_positions mi) from (from + q)],
                   rb_query_lens := rb_query_lens b @ [q],
                   rb_num_prefills := rb_num_prefills b + (if it_prefill it then 1 else 0),
                   rb_num_prefill_tokens := rb_num_prefill_tokens b + (if it_prefill it then q else 0),
                   rb_slots := rb_slots b @ [slice (am_slot_mapping (mi_attn mi)) from (from + q)],
                   rb_max_query_len := max q (rb_max_query_len b),
                   rb_tables := rb_tables b @ [it_table it],
                   rb_query_start := rb_query_start b @ [last],
                   rb_contexts := rb_contexts b @ [it_computed it],
                   rb_selected := rb_selected b @ [last - 1],
                   rb_last_start := last\<rparr>))))"

definition rebuild_start :: rebuilding where
  "rebuild_start =
     \<lparr>rb_tokens = [], rb_positions = [], rb_query_lens = [], rb_num_prefills = 0, rb_num_prefill_tokens = 0,
      rb_slots = [], rb_max_query_len = 0, rb_tables = [], rb_query_start = [0], rb_contexts = [], rb_selected = [],
      rb_last_start = 0\<rparr>"

definition pad_sequence :: "int list list \<Rightarrow> int list list" where
  "pad_sequence xss = (let w = Max (insert 0 (set (map length xss))) in map (\<lambda>xs. xs @ replicate (w - length xs) 0) xss)"

definition set_query_lens :: "int list \<Rightarrow> int list option \<Rightarrow> int list option result" where
  "set_query_lens qs groups =
     (case groups of
        None \<Rightarrow> Inr None
      | Some old \<Rightarrow> if length old < length qs then Inl IndexError else Inr (Some (qs @ drop (length qs) old)))"

definition rebuild_sampling :: "rebuilding \<Rightarrow> sampling_meta option \<Rightarrow> sampling_meta option result" where
  "rebuild_sampling b sm =
     (case sm of
        None \<Rightarrow> Inr None
      | Some s \<Rightarrow> bindr (set_query_lens (rb_query_lens b) (sm_query_lens s)) (\<lambda>ql.
          Inr (Some (s\<lparr>sm_query_lens := ql, sm_selected := rb_selected b\<rparr>))))"

definition rebuilt_attn :: "rebuilding \<Rightarrow> attn_meta \<Rightarrow> attn_meta" where
  "rebuilt_attn b am =
     am\<lparr>am_num_prefills := rb_num_prefills b, am_num_prefill_tokens := rb_num_prefill_tokens b,
        am_slot_mapping := concat (rb_slots b), am_max_query_len := rb_max_query_len b,
        am_block_tables := pad_sequence (rb_tables b), am_query_start_loc := rb_query_start b,
        am_context_lens := rb_contexts b\<rparr>"

definition build_partial_prefill_input :: "model_input \<Rightarrow> batch_item list \<Rightarrow> model_input result" where
  "build_partial_prefill_input mi items =
     bindr (foldM (rebuild_item mi) rebuild_start items) (\<lambda>b.
       bindr (rebuild_sampling b (mi_sampling mi)) (\<lambda>sm.
         Inr (mi\<lparr>mi_input_tokens := concat (rb_tokens b), mi_input_positions := concat (rb_positions b),
                 mi_query_lens := rb_query_lens b, mi_attn := rebuilt_attn b (mi_attn mi), mi_sampling := sm\<rparr>)))"

subsection \<open>The whole retrieval\<close>

record ('a, 'e) retrieve_outcome =
  ro_input :: model_input
  ro_skip :: bool
  ro_served :: "(int, int \<times> int) dict option"
  ro_keys :: "cache_key list list option"
  ro_credits :: "(int, real) dict option"
  ro_mem :: "'a blob"
  ro_engine :: 'e

definition retrieve_done ::
  "retrieve_status \<Rightarrow> model_input \<Rightarrow> ('a, 'e) retrieving \<Rightarrow> ('a, 'e) retrieve_outcome result" where
  "retrieve_done status mi st =
     (let seq_cnt = int (length (am_query_start_loc (mi_attn mi))) - 1;
          out = (\<lambda>input skip.
            \<lparr>ro_input = input, ro_skip = skip, ro_served = Some (rt_served st), ro_keys = Some (rt_keys st),
             ro_credits = (if rt_credits st = [] then None else Some (rt_credits st)),
             ro_mem = rt_mem st, ro_engine = rt_engine st\<rparr>)
      in assert_py (int (rt_idx st) = seq_cnt) (assert_py (int (length (rt_items st)) = seq_cnt)
           (if status = RetrieveCHUNK_PREFILL \<and> rt_not_found st = 0 then Inr (out mi True)
            else if int (rt_not_found st) < seq_cnt then
              bindr (build_partial_prefill_input mi (rt_items st)) (\<lambda>mi'. Inr (out mi' False))
            else Inr (out mi False))))"

definition lmcache_retrieve_kv ::
  "(nat \<Rightarrow> int \<Rightarrow> int list \<Rightarrow> bool list \<Rightarrow> 'e \<Rightarrow> ('a retrieval \<times> 'e) result) \<Rightarrow> bool \<Rightarrow> nat \<Rightarrow> retrieve_status
     \<Rightarrow> model_input \<Rightarrow> 'a blob \<Rightarrow> 'e \<Rightarrow> ('a, 'e) retrieve_outcome result" where
  "lmcache_retrieve_kv retr blending layers status mi mem e =
     (let unchanged = (\<lambda>mem e. \<lparr>ro_input = mi, ro_skip = False, ro_served = None, ro_keys = None, ro_credits = None,
                                ro_mem = mem, ro_engine = e\<rparr>)
      in if blending then Inr (unchanged mem e)
         else bindr (forM_until (retrieve_group retr layers mi status)
                       \<lparr>rt_engine = e, rt_mem = mem, rt_items = [], rt_next_start = 0, rt_not_found = 0, rt_idx = 0,
                        rt_served = [], rt_credits = [], rt_keys = []\<rparr> (mi_groups mi))
                (\<lambda>fl. case fl of
                   Leave st \<Rightarrow> Inr (unchanged (rt_mem st) (rt_engine st))
                 | Next st \<Rightarrow> retrieve_done status mi st))"

text \<open>
  The part of \<open>new_execute_model\<close> of \<open>vllm_injection.py\<close> around the model: retrieval, the forward pass
  unless the whole prefill is skipped, storing.  The model executable is an argument: it maps
  the input and the paged memory to the memory it leaves.
\<close>

record ('a, 'e) lmc_calls =
  lc_retrieve :: "nat \<Rightarrow> int \<Rightarrow> int list \<Rightarrow> bool list \<Rightarrow> 'e \<Rightarrow> ('a retrieval \<times> 'e) result"
  lc_lookup :: "int list \<Rightarrow> 'e \<Rightarrow> nat result"
  lc_store :: "nat \<Rightarrow> int \<Rightarrow> string \<Rightarrow> cache_key list \<Rightarrow> int list \<Rightarrow> 'a blob \<Rightarrow> bool list \<Rightarrow> 'e \<Rightarrow> (nat \<times> 'e) result"
  lc_chunk_size :: nat
  lc_blending :: bool
  lc_save_decode :: bool
  lc_block_size :: int
  lc_layers :: nat

definition no_retrieval :: "model_input \<Rightarrow> 'a blob \<Rightarrow> 'e \<Rightarrow> ('a, 'e) retrieve_outcome" where
  "no_retrieval mi mem e =
     \<lparr>ro_input = mi, ro_skip = False, ro_served = None, ro_keys = None, ro_credits = None, ro_mem = mem, ro_engine = e\<rparr>"

definition new_execute_model ::
  "('a, 'e) lmc_calls \<Rightarrow> (model_input \<Rightarrow> 'a blob \<Rightarrow> 'a blob) \<Rightarrow> model_input \<Rightarrow> 'a blob \<Rightarrow> 'e
     \<Rightarrow> ('a, 'e) retrieve_outcome result" where
  "new_execute_model lc model mi mem e =
     bindr (lmcache_should_retrieve True (Some mem) mi) (\<lambda>status.
     bindr (if status = RetrieveNONE then Inr (no_retrieval mi mem e)
            else lmcache_retrieve_kv (lc_retrieve lc) (lc_blending lc) (lc_layers lc) status mi mem e) (\<lambda>ro.
       if ro_skip ro then Inr ro
       else (let mem' = model (ro_input ro) (ro_mem ro) in
         bindr (lmcache_should_store (Some (lc_chunk_size lc)) (lc_save_decode lc) (Some mem') (ro_input ro)) (\<lambda>statuses.
           if list_ex (\<lambda>s. s \<noteq> StoreNONE) statuses then
             bindr (lmcache_store_kv (lc_lookup lc) (lc_store lc) (lc_chunk_size lc) (lc_block_size lc) (lc_layers lc)
                      (ro_input ro) mem' statuses (ro_keys ro) (ro_engine ro)) (\<lambda>e'.
               Inr (ro\<lparr>ro_mem := mem', ro_engine := e'\<rparr>))
           else Inr (ro\<lparr>ro_mem := mem'\<rparr>)))))"


section \<open>Facts about slots\<close>

lemma mapM_bindr_pure:
  "mapM (\<lambda>i. bindr (f i) (\<lambda>x. Inr (g i x))) xs = bindr (mapM f xs) (\<lambda>ys. Inr (map2 g xs ys))"
proof (induction xs)
  case (Cons x xs)
  then show ?case by (cases "f x"; cases "mapM f xs") simp_all
qed simp

lemma mapM_length: "mapM f xs = Inr ys \<Longrightarrow> length ys = length xs"
  by (induction xs arbitrary: ys) auto

lemma mapM_compose: "mapM f (map g xs) = mapM (\<lambda>x. f (g x)) xs"
  by (induction xs) simp_all

lemma map2_split: "map2 (+) (map (\<lambda>n. n * (b :: int)) ns) (map m xs) = map2 (\<lambda>x n. n * b + m x) xs ns"
  by (induction xs arbitrary: ns) (auto simp: zip_Cons1 zip_Cons split: list.splits)

lemma slots_numpy_python:
  assumes "bs \<noteq> 0"
  shows "slots_numpy table a b bs = slots_python table a b bs"
  using assms
  by (simp add: slots_numpy_def slots_python_def mapM_bindr_pure mapM_compose map2_split Let_def)

definition table_slot :: "int list \<Rightarrow> int \<Rightarrow> int \<Rightarrow> int" where
  "table_slot table bs i = table ! nat (i div bs) * bs + i mod bs"

lemma slots_python_covered:
  assumes "0 < bs" "0 \<le> a" "b \<le> int (length table) * bs"
  shows "slots_python table a b bs = Inr (map (table_slot table bs) [a..b - 1])"
  unfolding slots_python_def
proof (rule mapM_map)
  fix i assume i: "i \<in> set [a..b - 1]"
  then have "0 \<le> i div bs" "i < int (length table) * bs" using assms by (auto simp: pos_imp_zdiv_nonneg_iff)
  moreover from this(2) have "i div bs < int (length table)"
  proof -
    assume lt: "i < int (length table) * bs"
    have "i div bs * bs \<le> i" using assms(1) by (simp add: minus_mod_eq_div_mult [symmetric])
    then have "i div bs * bs < int (length table) * bs" using lt by linarith
    then show ?thesis using assms(1) by (simp add: mult_less_cancel_right)
  qed
  ultimately show "(if bs = 0 then Inl ZeroDivisionError
      else bindr (py_nth table (i div bs)) (\<lambda>blk. Inr (blk * bs + i mod bs))) = Inr (table_slot table bs i)"
    using assms(1) by (simp add: py_nth_def table_slot_def)
qed

lemma compute_slot_mapping_covered:
  assumes "0 < bs" "0 \<le> context" "dindex tables sid = Inr table" "len \<le> int (length table) * bs"
  shows "compute_slot_mapping False acc sid len context start bs tables
           = Inr (acc @ replicate (nat (start - context)) (- 1) @ map (table_slot table bs) [max start context..len - 1])"
proof -
  have "0 \<le> max start context" using assms(2) by simp
  from slots_python_covered [OF assms(1) this assms(4)]
  have sp: "slots_python table (max start context) len bs = Inr (map (table_slot table bs) [max start context..len - 1])" .
  have "nat (max 0 (start - context)) = nat (start - context)" by simp
  then show ?thesis using assms(1,3) sp
    by (simp add: compute_slot_mapping_def slots_numpy_python Let_def)
qed

text \<open>
  Rows scattered to distinct slots are found there, and every other slot is as before.
\<close>

lemma scatter_length [simp]: "length (scatter_rows rows slots cache) = length cache"
proof -
  have "length (foldl (\<lambda>m (r, s). if s < 0 then m else m[nat s := r]) c ps) = length c" for c and ps :: "('a list \<times> int) list"
    by (induction ps arbitrary: c) auto
  then show ?thesis by (simp add: scatter_rows_def)
qed

lemma scatter_Cons:
  "scatter_rows (r # rows) (s # slots) cache = scatter_rows rows slots (if s < 0 then cache else cache[nat s := r])"
  by (simp add: scatter_rows_def)

lemma scatter_Nil [simp]: "scatter_rows [] slots cache = cache" "scatter_rows rows [] cache = cache"
  by (simp_all add: scatter_rows_def)

lemma scatter_elsewhere:
  assumes "\<And>i. i < length rows \<Longrightarrow> i < length slots \<Longrightarrow> slots ! i \<noteq> int p"
  shows "scatter_rows rows slots cache ! p = cache ! p"
  using assms
proof (induction rows arbitrary: slots cache)
  case (Cons r rows)
  show ?case
  proof (cases slots)
    case (Cons s slots')
    have "\<And>i. i < length rows \<Longrightarrow> i < length slots' \<Longrightarrow> slots' ! i \<noteq> int p"
      using Cons.prems [of "Suc i" for i] Cons by auto
    moreover have "s \<noteq> int p" using Cons.prems [of 0] Cons by auto
    ultimately show ?thesis using Cons.IH Cons by (simp add: scatter_Cons nth_list_update)
  qed simp
qed simp

lemma scatter_there:
  assumes "i < length rows" "i < length slots" "slots ! i = int p" "p < length cache"
    and "\<And>j. j < length rows \<Longrightarrow> j < length slots \<Longrightarrow> slots ! j = int p \<Longrightarrow> j = i"
  shows "scatter_rows rows slots cache ! p = rows ! i"
  using assms
proof (induction rows arbitrary: slots cache i)
  case (Cons r rows)
  from Cons.prems(2) obtain s slots' where sl: "slots = s # slots'" by (cases slots) auto
  show ?case
  proof (cases i)
    case 0
    have "slots' ! j \<noteq> int p" if "j < length rows" "j < length slots'" for j
      using Cons.prems(5) [of "Suc j"] that 0 sl by auto
    then show ?thesis using 0 sl Cons.prems(3,4) by (simp add: scatter_Cons scatter_elsewhere)
  next
    case (Suc k)
    have "scatter_rows rows slots' c ! p = rows ! k" if "length c = length cache" for c
    proof (rule Cons.IH)
      show "k < length rows" "k < length slots'" "slots' ! k = int p" "p < length c"
        using Cons.prems(1-4) that Suc sl by simp_all
      show "j = k" if "j < length rows" "j < length slots'" "slots' ! j = int p" for j
        using Cons.prems(5) [of "Suc j"] that Suc sl by simp
    qed
    then show ?thesis using Suc sl by (simp add: scatter_Cons)
  qed
qed simp

section \<open>The paged memory\<close>

text \<open>
  \<open>paged L N mem\<close>: the memory has \<open>L\<close> layers of \<open>N\<close> slots.  \<open>in_slot mdl mem toks p s\<close>: slot \<open>s\<close> of every
  layer holds what the model computes for position \<open>p\<close> of the tokens.
\<close>

definition paged :: "nat \<Rightarrow> nat \<Rightarrow> 'a blob \<Rightarrow> bool" where
  "paged L N mem \<longleftrightarrow> length mem = L
     \<and> (\<forall>l < L. length (mem ! l) = 2 \<and> (\<forall>j < 2. length (mem ! l ! j) = N))"

definition in_slot :: "'a kv_model \<Rightarrow> 'a blob \<Rightarrow> int list \<Rightarrow> nat \<Rightarrow> nat \<Rightarrow> bool" where
  "in_slot mdl mem toks p s \<longleftrightarrow>
     (\<forall>l < mdl_layers mdl. \<forall>j < 2. mem ! l ! j ! s = mdl_kv mdl l j (take (Suc p) toks))"

definition same_slot :: "nat \<Rightarrow> 'a blob \<Rightarrow> 'a blob \<Rightarrow> nat \<Rightarrow> bool" where
  "same_slot L mem mem' s \<longleftrightarrow> (\<forall>l < L. \<forall>j < 2. mem' ! l ! j ! s = mem ! l ! j ! s)"

lemma same_slot_refl [simp]: "same_slot L mem mem s"
  by (simp add: same_slot_def)

lemma same_slot_trans: "same_slot L a b s \<Longrightarrow> same_slot L b c s \<Longrightarrow> same_slot L a c s"
  by (simp add: same_slot_def)

lemma in_slot_same: "same_slot (mdl_layers mdl) mem mem' s \<Longrightarrow> in_slot mdl mem' toks p s \<longleftrightarrow> in_slot mdl mem toks p s"
  by (auto simp: in_slot_def same_slot_def)

lemma less2_iff: "(\<forall>j < 2. P j) \<longleftrightarrow> P 0 \<and> P (Suc 0)"
  by (auto simp: numeral_2_eq_2 less_Suc_eq)

lemma py_nth_pair: "length xs = 2 \<Longrightarrow> py_nth xs 0 = Inr (xs ! 0) \<and> py_nth xs 1 = Inr (xs ! 1)"
  by (simp add: py_nth_def)

lemma inject_kv_eq:
  assumes "paged L N mem" "n \<le> L" "n \<le> length kv" "\<forall>l < n. length (kv ! l) = 2"
  shows "\<exists>mem'. inject_kv n kv slots mem = Inr mem' \<and> paged L N mem'
     \<and> (\<forall>l < L. \<forall>j < 2. mem' ! l ! j = (if l < n then scatter_rows (kv ! l ! j) slots (mem ! l ! j) else mem ! l ! j))"
  using assms(2-4)
proof (induction n)
  case 0
  then show ?case using assms(1) by (simp add: inject_kv_def)
next
  case (Suc n)
  then obtain mem1 where m1: "inject_kv n kv slots mem = Inr mem1" "paged L N mem1"
    "\<forall>l < L. \<forall>j < 2. mem1 ! l ! j = (if l < n then scatter_rows (kv ! l ! j) slots (mem ! l ! j) else mem ! l ! j)"
    by auto
  define new where "new = [scatter_rows (kv ! n ! 0) slots (mem1 ! n ! 0), scatter_rows (kv ! n ! 1) slots (mem1 ! n ! 1)]"
  have nL: "n < length mem1" "n < L" "n < length kv" using Suc.prems m1(2) by (auto simp: paged_def)
  have two: "length (mem1 ! n) = 2" "length (kv ! n) = 2" using m1(2) nL Suc.prems(3) by (auto simp: paged_def)
  have "inject_kv (Suc n) kv slots mem = Inr (mem1[n := new])"
    using m1(1) nL py_nth_pair [OF two(1)] py_nth_pair [OF two(2)] by (simp add: inject_kv_def new_def)
  moreover have "paged L N (mem1[n := new])"
    using m1(2) nL(1) by (auto simp: paged_def nth_list_update new_def less2_iff)
  moreover have "(mem1[n := new]) ! l ! j = (if l < Suc n then scatter_rows (kv ! l ! j) slots (mem ! l ! j) else mem ! l ! j)"
    if "l < L" "j < 2" for l j
  proof (cases "l = n")
    case True
    have "mem1 ! n ! j = mem ! n ! j" using m1(3) nL(2) that(2) by simp
    then show ?thesis using True nL that(2) by (auto simp: new_def less_2_cases_iff)
  next
    case False
    then show ?thesis using m1(3) that by simp
  qed
  ultimately show ?case by blast
qed

lemma kv_plane_nth:
  assumes "l < mdl_layers mdl" "j < 2"
  shows "kv_blob mdl ''vllm'' toks a b ! l ! j = map (\<lambda>i. mdl_kv mdl l j (take (Suc i) toks)) [a..<b]"
  using assms by (auto simp: kv_blob_def kv_mat_def mat_of_def less_2_cases_iff)

lemma kv_blob_shape:
  "length (kv_blob mdl fmt toks a b) = mdl_layers mdl"
  "l < mdl_layers mdl \<Longrightarrow> length (kv_blob mdl fmt toks a b ! l) = 2"
  by (simp_all add: kv_blob_def)

text \<open>
  What an injection of the retrieved KV cache of positions \<open>a\<close> to \<open>b - 1\<close> does to the memory, when
  the slot mapping that follows names distinct slots.
\<close>

lemma inject_kv_blob:
  assumes "paged (mdl_layers mdl) N mem" "a \<le> b" "b - a \<le> length slots"
    and inj: "distinct (take (b - a) slots)" and rng: "\<forall>s \<in> set (take (b - a) slots). 0 \<le> s \<and> s < int N"
  shows "\<exists>mem'. inject_kv (mdl_layers mdl) (kv_blob mdl ''vllm'' toks a b) slots mem = Inr mem'
     \<and> paged (mdl_layers mdl) N mem'
     \<and> (\<forall>i < b - a. in_slot mdl mem' toks (a + i) (nat (slots ! i)))
     \<and> (\<forall>s. int s \<notin> set (take (b - a) slots) \<longrightarrow> same_slot (mdl_layers mdl) mem mem' s)"
proof -
  let ?L = "mdl_layers mdl" and ?kv = "kv_blob mdl ''vllm'' toks a b"
  have "\<forall>l < ?L. length (?kv ! l) = 2" by (simp add: kv_blob_shape)
  from inject_kv_eq [OF assms(1) order_refl _ this, of slots] obtain mem' where m: "inject_kv ?L ?kv slots mem = Inr mem'" "paged ?L N mem'"
    "\<forall>l < ?L. \<forall>j < 2. mem' ! l ! j = scatter_rows (?kv ! l ! j) slots (mem ! l ! j)"
    by (auto simp: kv_blob_shape)
  have "in_slot mdl mem' toks (a + i) (nat (slots ! i))" if i: "i < b - a" for i
    unfolding in_slot_def
  proof (intro allI impI)
    fix l and j :: nat assume lj: "l < ?L" "j < 2"
    have si: "slots ! i \<in> set (take (b - a) slots)" using i assms(3) by (auto simp: in_set_conv_nth intro!: exI [of _ i])
    then have r: "0 \<le> slots ! i" "slots ! i < int N" using rng by auto
    have "scatter_rows (?kv ! l ! j) slots (mem ! l ! j) ! nat (slots ! i) = ?kv ! l ! j ! i"
    proof (rule scatter_there)
      show "i < length (?kv ! l ! j)" using lj i by (simp add: kv_plane_nth)
      show "i < length slots" using i assms(3) by simp
      show "slots ! i = int (nat (slots ! i))" using r by simp
      show "nat (slots ! i) < length (mem ! l ! j)" using assms(1) lj r by (auto simp: paged_def)
      show "k = i" if "k < length (?kv ! l ! j)" "slots ! k = int (nat (slots ! i))" for k
      proof -
        have "k < b - a" using that(1) lj by (simp add: kv_plane_nth)
        then show ?thesis using nth_eq_iff_index_eq [OF inj, of k i] i assms(3) that(2) r by simp
      qed
    qed
    then show "mem' ! l ! j ! nat (slots ! i) = mdl_kv mdl l j (take (Suc (a + i)) toks)"
      using m(3) lj i by (simp add: kv_plane_nth)
  qed
  moreover have "same_slot ?L mem mem' s" if s: "int s \<notin> set (take (b - a) slots)" for s
    unfolding same_slot_def
  proof (intro allI impI)
    fix l and j :: nat assume lj: "l < ?L" "j < 2"
    have "slots ! i \<noteq> int s" if "i < length (?kv ! l ! j)" "i < length slots" for i
    proof
      assume "slots ! i = int s"
      then have "int s \<in> set (take (b - a) slots)"
        using that lj by (auto simp: kv_plane_nth in_set_conv_nth intro!: exI [of _ i])
      with s show False by simp
    qed
    then show "mem' ! l ! j ! s = mem ! l ! j ! s" using m(3) lj by (simp add: scatter_elsewhere)
  qed
  ultimately show ?thesis using m(1,2) by blast
qed

lemma collect_kv_blob:
  assumes "paged (mdl_layers mdl) N mem" "\<forall>p. a \<le> p \<and> p < b \<longrightarrow> sl p < N \<and> in_slot mdl mem toks p (sl p)"
  shows "collect_kv (mdl_layers mdl) (map (\<lambda>p. int (sl p)) [a..<b]) mem = Inr (kv_blob mdl ''vllm'' toks a b)"
proof -
  let ?L = "mdl_layers mdl" and ?slots = "map (\<lambda>p. int (sl p)) [a..<b]"
  have g: "gather_rows (mem ! l ! j) ?slots = Inr (map (\<lambda>i. mdl_kv mdl l j (take (Suc i) toks)) [a..<b])"
    if "l < ?L" "j < 2" for l j
  proof -
    have "mapM (\<lambda>p. py_nth (mem ! l ! j) (int (sl p))) [a..<b] = Inr (map (\<lambda>i. mdl_kv mdl l j (take (Suc i) toks)) [a..<b])"
    proof (rule mapM_map)
      fix p assume "p \<in> set [a..<b]"
      with assms(2) have "sl p < N" "in_slot mdl mem toks p (sl p)" by auto
      moreover have "length (mem ! l ! j) = N" using assms(1) that by (auto simp: paged_def)
      ultimately show "py_nth (mem ! l ! j) (int (sl p)) = Inr (mdl_kv mdl l j (take (Suc p) toks))"
        using that by (simp add: in_slot_def)
    qed
    then show ?thesis by (simp add: gather_rows_def mapM_compose)
  qed
  show ?thesis unfolding collect_kv_def kv_blob_def
  proof (rule mapM_map)
    fix l assume "l \<in> set [0..<?L]"
    then have l: "l < ?L" by simp
    then have "l < length mem" "length (mem ! l) = 2" using assms(1) by (auto simp: paged_def)
    with py_nth_pair [OF this(2)] g [OF l, of 0] g [OF l, of 1]
    show "bindr (py_nth mem (int l)) (\<lambda>layer. bindr (py_nth layer 0) (\<lambda>kc. bindr (py_nth layer 1) (\<lambda>vc.
         bindr (gather_rows kc ?slots) (\<lambda>ks. bindr (gather_rows vc ?slots) (\<lambda>vs. Inr [ks, vs])))))
       = Inr [kv_mat mdl ''vllm'' toks a b l 0, kv_mat mdl ''vllm'' toks a b l 1]"
      by (simp add: kv_mat_def mat_of_def)
  qed
qed


section \<open>The two slot computations\<close>

text \<open>
  C12.  The NumPy slot computation is the Python loop: for every table and every range of positions
  they give the same slots or both raise \<open>IndexError\<close>, so that the switch at 256 positions does not
  show in \<open>compute_slot_mapping\<close>.
\<close>

theorem slot_computations_agree:
  assumes "bs \<noteq> 0"
  shows "slots_numpy table a b bs = slots_python table a b bs
   \<and> compute_slot_mapping False acc sid len context start bs tables
       = bindr (dindex tables sid) (\<lambda>table. bindr (slots_python table (max start context) len bs) (\<lambda>slots.
           Inr (acc @ replicate (nat (start - context)) (- 1) @ slots)))"
proof -
  have "nat (max 0 (start - context)) = nat (start - context)" by simp
  then show ?thesis using assms
    by (simp add: slots_numpy_python compute_slot_mapping_def Let_def cong: if_cong)
qed

lemma slot_computations_agree_witness:
  "slots_numpy [7, 4] 1 4 2 = Inr [15, 8, 9] \<and> slots_numpy [7, 4] 1 4 2 = slots_python [7, 4] 1 4 2"
proof
  show "slots_numpy [7, 4] 1 4 2 = Inr [15, 8, 9]" by code_simp
  show "slots_numpy [7, 4] 1 4 2 = slots_python [7, 4] 1 4 2"
    using slot_computations_agree [of 2 "[7, 4]" 1 4 "[]" 0 0 0 0 "[]"] by simp
qed

end
