(* ===== verification/Prefill_Batch.thy ===== *)
theory Prefill_Batch
  imports Adapter
begin

text \<open>
  What the adapter does to one batch of prefills: the paged memory gets exactly the retrieved KV
  cache, the rebuilt input asks exactly for what is missing, and what is stored afterwards is the
  KV cache of the model.  The engine is an interface, the locale \<open>kv_engine\<close>, interpreted on the
  cache engine over the fair backend and its worker in \<open>Prefill_Step\<close>.
\<close>

section \<open>Batches as lists of sequences\<close>

definition job_ids :: "model_input \<Rightarrow> group_meta \<Rightarrow> int list" where
  "job_ids mi g = dget_or (mi_seq_ids mi) (gm_request_id g) []"

definition jobs :: "model_input \<Rightarrow> (group_meta \<times> int) list" where
  "jobs mi = concat (map (\<lambda>g. map (Pair g) (job_ids mi g)) (mi_groups mi))"

definition job_tokens :: "group_meta \<times> int \<Rightarrow> int list" where
  "job_tokens = (\<lambda>(g, sid). dget_or (gm_seq_data g) sid [])"

text \<open>
  \<open>asks_for mi slot tss cs\<close>: the input asks the model to compute, of each sequence \<open>tss ! i\<close>, the
  positions from \<open>cs ! i\<close> on; position \<open>p\<close> of sequence \<open>i\<close> has slot \<open>slot i p\<close>.
\<close>

definition query_start :: "int list list \<Rightarrow> nat list \<Rightarrow> nat \<Rightarrow> nat" where
  "query_start tss cs n = (\<Sum>i < n. length (tss ! i) - cs ! i)"

definition asks_for :: "model_input \<Rightarrow> (nat \<Rightarrow> nat \<Rightarrow> nat) \<Rightarrow> int list list \<Rightarrow> nat list \<Rightarrow> bool" where
  "asks_for mi slot tss cs \<longleftrightarrow>
     length cs = length tss \<and> (\<forall>i < length tss. cs ! i < length (tss ! i))
     \<and> mi_input_tokens mi = concat (map (\<lambda>i. drop (cs ! i) (tss ! i)) [0..<length tss])
     \<and> mi_input_positions mi = concat (map (\<lambda>i. map int [cs ! i..<length (tss ! i)]) [0..<length tss])
     \<and> am_slot_mapping (mi_attn mi) = concat (map (\<lambda>i. map (\<lambda>p. int (slot i p)) [cs ! i..<length (tss ! i)]) [0..<length tss])
     \<and> am_query_start_loc (mi_attn mi) = map (\<lambda>n. int (query_start tss cs n)) [0..<Suc (length tss)]
     \<and> am_context_lens (mi_attn mi) = map int cs
     \<and> am_seq_lens (mi_attn mi) = map length tss
     \<and> (\<forall>sm. mi_sampling mi = Some sm \<longrightarrow>
            sm_selected sm = map (\<lambda>i. int (query_start tss cs (Suc i)) - 1) [0..<length tss])"

text \<open>
  The slots of a batch: distinct for all positions that are computed, and inside the memory.
\<close>

definition batch_cells :: "int list list \<Rightarrow> nat list \<Rightarrow> (nat \<times> nat) set" where
  "batch_cells tss cs = {(i, p). i < length tss \<and> cs ! i \<le> p \<and> p < length (tss ! i)}"

definition slots_ok :: "nat \<Rightarrow> (nat \<Rightarrow> nat \<Rightarrow> nat) \<Rightarrow> int list list \<Rightarrow> nat list \<Rightarrow> bool" where
  "slots_ok N slot tss cs \<longleftrightarrow>
     inj_on (\<lambda>(i, p). slot i p) (batch_cells tss cs) \<and> (\<forall>(i, p) \<in> batch_cells tss cs. slot i p < N)"

lemma concat_block:
  assumes "n < m"
  shows "take (length (f n)) (drop (\<Sum>i < n. length (f i)) (concat (map f [0..<m]))) = f n"
proof -
  have "[0..<m] = [0..<n] @ n # [Suc n..<m]" using assms
    by (metis le_add_same_cancel1 less_imp_add_positive less_or_eq_imp_le upt_add_eq_append upt_conv_Cons zero_le)
  moreover have "length (concat (map f [0..<n])) = (\<Sum>i < n. length (f i))"
    by (induction n) simp_all
  ultimately show ?thesis by simp
qed

lemma concat_slice:
  assumes "n < m" "k \<le> length (f n)"
  shows "slice (concat (map f [0..<m])) (int ((\<Sum>i < n. length (f i)) + k)) (int ((\<Sum>i < n. length (f i)) + length (f n)))
           = drop k (f n)"
proof -
  let ?xs = "concat (map f [0..<m])" and ?o = "\<Sum>i < n. length (f i)"
  have "slice ?xs (int (?o + k)) (int (?o + length (f n))) = drop k (take (length (f n)) (drop ?o ?xs))"
    unfolding slice_nonneg by (simp add: drop_take add.commute)
  then show ?thesis by (simp add: concat_block [OF assms(1)])
qed

lemma concat_from:
  assumes "n < m" "k \<le> length (f n)"
  shows "take k (slice_from (concat (map f [0..<m])) (int (\<Sum>i < n. length (f i)))) = take k (f n)"
  using arg_cong [OF concat_block [OF assms(1), of f], of "take k"] assms(2)
  by (simp add: min_def del: of_nat_sum)

section \<open>The loops as one loop over the batch\<close>

lemma forM_until_append:
  "forM_until f s (xs @ ys) =
     bindr (forM_until f s xs) (\<lambda>r. case r of Leave s' \<Rightarrow> Inr (Leave s') | Next s' \<Rightarrow> forM_until f s' ys)"
proof (induction xs arbitrary: s)
  case (Cons x xs)
  show ?case
  proof (cases "f s x")
    case (Inr r)
    then show ?thesis by (cases r) (simp_all add: Cons.IH)
  qed simp
qed simp

lemma forM_until_map: "forM_until f s (map g xs) = forM_until (\<lambda>s x. f s (g x)) s xs"
proof (induction xs arbitrary: s)
  case (Cons x xs)
  have "(\<lambda>r. case r of Leave s' \<Rightarrow> Inr (Leave s') | Next s' \<Rightarrow> forM_until f s' (map g xs))
      = (\<lambda>r. case r of Leave s' \<Rightarrow> Inr (Leave s') | Next s' \<Rightarrow> forM_until (\<lambda>s x. f s (g x)) s' xs)"
    by (simp add: Cons.IH cong: flow.case_cong)
  then show ?case by simp
qed simp

lemma forM_until_cong:
  "(\<And>s x. x \<in> set xs \<Longrightarrow> f s x = g s x) \<Longrightarrow> forM_until f s xs = forM_until g s xs"
proof (induction xs arbitrary: s)
  case (Cons x xs)
  have "g s x = f s x" using Cons.prems by simp
  moreover have "forM_until f s' xs = forM_until g s' xs" for s' using Cons by simp
  ultimately show ?case by (cases "f s x") (auto split: flow.split)
qed simp

lemma forM_until_concat:
  "forM_until (\<lambda>s xs. forM_until f s xs) s xss = forM_until f s (concat xss)"
proof (induction xss arbitrary: s)
  case (Cons xs xss)
  show ?case
  proof (cases "forM_until f s xs")
    case (Inr r)
    then show ?thesis by (cases r) (simp_all add: Cons.IH forM_until_append)
  qed (simp add: forM_until_append)
qed simp

lemma forM_until_indexed:
  assumes "forM_until f s xs = Inr r" "P 0 s"
    and "\<And>n st fl. n < length xs \<Longrightarrow> P n st \<Longrightarrow> f st (xs ! n) = Inr fl \<Longrightarrow> \<exists>st'. fl = Next st' \<and> P (Suc n) st'"
  shows "\<exists>s'. r = Next s' \<and> P (length xs) s'"
  using assms
proof (induction xs arbitrary: s P)
  case (Cons x xs)
  from Cons.prems(1) obtain fl where fl: "f s x = Inr fl" by (cases "f s x") auto
  from Cons.prems(3) [of 0 s fl] fl Cons.prems(2) obtain s1 where s1: "fl = Next s1" "P (Suc 0) s1" by auto
  have "\<exists>s'. r = Next s' \<and> P (Suc (length xs)) s'"
  proof (rule Cons.IH [of s1 "\<lambda>n. P (Suc n)"])
    show "forM_until f s1 xs = Inr r" using Cons.prems(1) fl s1(1) by simp
    show "P (Suc 0) s1" by (rule s1(2))
    show "\<exists>st'. fl = Next st' \<and> P (Suc (Suc n)) st'" if "n < length xs" "P (Suc n) st" "f st (xs ! n) = Inr fl" for n st fl
      using Cons.prems(3) [of "Suc n" st fl] that by simp
  qed
  then show ?case by simp
qed auto

lemma retrieve_loop_flat:
  assumes "\<forall>g \<in> set (mi_groups mi). dhas (mi_seq_ids mi) (gm_request_id g)"
  shows "forM_until (retrieve_group retr layers mi status) st (mi_groups mi)
           = forM_until (\<lambda>st (g, sid). retrieve_seq retr layers mi status g st sid) st (jobs mi)"
proof -
  let ?f = "\<lambda>st (g, sid). retrieve_seq retr layers mi status g st sid"
  have "forM_until (retrieve_group retr layers mi status) st (mi_groups mi)
      = forM_until (\<lambda>s g. forM_until ?f s (map (Pair g) (job_ids mi g))) st (mi_groups mi)"
  proof (rule forM_until_cong)
    fix s g assume "g \<in> set (mi_groups mi)"
    with assms obtain sids where "map_of (mi_seq_ids mi) (gm_request_id g) = Some sids" by (auto simp: dhas_map_of)
    then show "retrieve_group retr layers mi status s g = forM_until ?f s (map (Pair g) (job_ids mi g))"
      by (simp add: retrieve_group_def job_ids_def forM_until_map)
  qed
  also have "\<dots> = forM_until ?f st (jobs mi)"
    by (simp add: jobs_def forM_until_concat [symmetric] forM_until_map)
  finally show ?thesis .
qed

section \<open>One sequence\<close>

lemma bill_seq_sel [simp]:
  "rt_engine (bill_seq g a c n st) = rt_engine st" "rt_mem (bill_seq g a c n st) = rt_mem st"
  "rt_items (bill_seq g a c n st) = rt_items st" "rt_next_start (bill_seq g a c n st) = rt_next_start st"
  "rt_not_found (bill_seq g a c n st) = rt_not_found st" "rt_idx (bill_seq g a c n st) = rt_idx st"
  "rt_keys (bill_seq g a c n st) = rt_keys st"
  by (simp_all add: bill_seq_def split_beta)

lemma retrieve_seq_prefill:
  assumes "retrieve_seq retr layers mi RetrievePREFILL g st sid = Inr fl"
    and "map_of (gm_seq_data g) sid = Some toks"
    and "py_nth (am_query_start_loc (mi_attn mi)) (int (Suc (rt_idx st))) = Inr q1"
    and "py_nth (am_query_start_loc (mi_attn mi)) (int (rt_idx st)) = Inr q0"
    and "int (length toks) - (q1 - q0) = int c" "c \<le> length toks"
  obtains r e' table dec item st2 where
    "retr (rt_idx st) (gm_client_id g) toks (suffix_mask (length toks) c) (rt_engine st) = Inr (r, e')"
    "dec = (if c + count_true (ret_mask r) = length toks then 1 else 0)"
    "item = \<lparr>it_tokens = toks, it_computed = int (c + count_true (ret_mask r)) - dec,
             it_injected = int (count_true (ret_mask r)) - dec, it_start = rt_next_start st,
             it_prefill = gm_is_prompt g, it_table = table\<rparr>"
    "place_seq layers mi (ret_kv r) (rt_next_start st) (it_injected item)
       (bill_seq g (ret_attribution r) (it_computed item) (int (length toks))
          (st\<lparr>rt_engine := e', rt_items := rt_items st @ [item], rt_next_start := rt_next_start st + (q1 - q0),
              rt_keys := rt_keys st @ [ret_keys r]\<rparr>)) = Inr st2"
    "fl = Next st2"
proof -
  have mask: "mask_from (length toks) (int c) = suffix_mask (length toks) c"
    using assms(6) by (simp add: mask_from_def slice_index_def)
  have ne: "(RetrievePREFILL = RetrieveCHUNK_PREFILL) = False" by simp
  from assms(1) obtain table p where
    p: "retr (rt_idx st) (gm_client_id g) toks (suffix_mask (length toks) c) (rt_engine st) = Inr p" and
    rest: "(case p of (r, e') \<Rightarrow>
            let lmc0 = int (count_true (ret_mask r));
                computed0 = int c + lmc0;
                dec = (if computed0 = int (length toks) then 1 else 0);
                lmc = lmc0 - dec;
                computed = computed0 - dec;
                item = \<lparr>it_tokens = toks, it_computed = computed, it_injected = lmc, it_start = rt_next_start st,
                        it_prefill = gm_is_prompt g, it_table = table\<rparr>;
                st1 = st\<lparr>rt_engine := e', rt_items := rt_items st @ [item],
                          rt_next_start := rt_next_start st + (q1 - q0), rt_keys := rt_keys st @ [ret_keys r]\<rparr>
            in bindr (place_seq layers mi (ret_kv r) (rt_next_start st) lmc
                        (bill_seq g (ret_attribution r) computed (int (length toks)) st1)) (\<lambda>st2. Inr (Next st2))) = Inr fl"
    unfolding retrieve_seq_def Let_def ne if_False dindex_Some [OF assms(2)] bindr.simps assms(3,4,5) take_all [OF order_refl] mask
      simp_thms not_False_eq_True
    by (simp only: bindr_Inr_iff) blast
  obtain r e' where pe: "p = (r, e')" by (cases p)
  have eq: "int c + int (count_true (ret_mask r)) = int (length toks) \<longleftrightarrow> c + count_true (ret_mask r) = length toks"
    by linarith
  define dec :: int where "dec = (if c + count_true (ret_mask r) = length toks then 1 else 0)"
  from rest [unfolded pe Let_def prod.case eq, folded dec_def] obtain st2 where
    st2: "place_seq layers mi (ret_kv r) (rt_next_start st) (int (count_true (ret_mask r)) - dec)
       (bill_seq g (ret_attribution r) (int c + int (count_true (ret_mask r)) - dec) (int (length toks))
          (st\<lparr>rt_engine := e', rt_items := rt_items st @
             [\<lparr>it_tokens = toks, it_computed = int c + int (count_true (ret_mask r)) - dec,
               it_injected = int (count_true (ret_mask r)) - dec, it_start = rt_next_start st,
               it_prefill = gm_is_prompt g, it_table = table\<rparr>],
             rt_next_start := rt_next_start st + (q1 - q0), rt_keys := rt_keys st @ [ret_keys r]\<rparr>)) = Inr st2"
    and fl: "fl = Next st2"
    by (auto simp only: bindr_Inr_iff sum.inject)
  show thesis
    by (rule that [OF p [unfolded pe] dec_def refl _ fl, of table]) (use st2 in simp)
qed

section \<open>The engine as the adapter sees it\<close>

text \<open>
  An engine for a model: as long as \<open>inv\<close> holds, a retrieval for an accepted token list returns the
  model's KV cache of a window after the skipped tokens and marks it in the mask, and both
  retrieving and storing the model's KV cache keep \<open>inv\<close>.
\<close>

locale kv_engine =
  fixes mdl :: "'a kv_model" and good :: "int list set" and inv :: "'e \<Rightarrow> bool"
    and retr :: "nat \<Rightarrow> int \<Rightarrow> int list \<Rightarrow> bool list \<Rightarrow> 'e \<Rightarrow> ('a retrieval \<times> 'e) result"
    and put :: "nat \<Rightarrow> int \<Rightarrow> string \<Rightarrow> cache_key list \<Rightarrow> int list \<Rightarrow> 'a blob \<Rightarrow> bool list \<Rightarrow> 'e \<Rightarrow> (nat \<times> 'e) result"
  assumes retr_law: "inv e \<Longrightarrow> toks \<in> good \<Longrightarrow> skip \<le> length toks \<Longrightarrow>
      retr i c toks (suffix_mask (length toks) skip) e = Inr (r, e') \<Longrightarrow>
      inv e' \<and> (\<exists>n. skip + n \<le> length toks \<and> count_true (ret_mask r) = n
        \<and> (n \<noteq> 0 \<longrightarrow> ret_kv r = kv_blob mdl ''vllm'' toks skip (skip + n)))"
    and put_law: "inv e \<Longrightarrow> toks \<in> good \<Longrightarrow> skip \<le> length toks \<Longrightarrow>
      put i c ty keys toks (kv_blob mdl ''vllm'' toks skip (length toks)) (suffix_mask (length toks) skip) e = Inr (n, e') \<Longrightarrow>
      inv e'"

definition item_for :: "int list list \<Rightarrow> nat list \<Rightarrow> nat list \<Rightarrow> nat \<Rightarrow> batch_item \<Rightarrow> bool" where
  "item_for tss cs ds i it \<longleftrightarrow> it_tokens it = tss ! i \<and> it_computed it = int (ds ! i)
     \<and> it_injected it = int (ds ! i - cs ! i) \<and> it_start it = int (query_start tss cs i)"

definition memory_for ::
  "'a kv_model \<Rightarrow> nat \<Rightarrow> (nat \<Rightarrow> nat \<Rightarrow> nat) \<Rightarrow> int list list \<Rightarrow> nat list \<Rightarrow> 'a blob \<Rightarrow> nat list \<Rightarrow> 'a blob \<Rightarrow> bool" where
  "memory_for mdl N slot tss cs mem0 ds mem \<longleftrightarrow>
     paged (mdl_layers mdl) N mem
     \<and> (\<forall>i < length ds. \<forall>p. cs ! i \<le> p \<and> p < ds ! i \<longrightarrow> in_slot mdl mem (tss ! i) p (slot i p))
     \<and> (\<forall>s. s \<notin> (\<lambda>(i, p). slot i p) ` batch_cells tss cs \<longrightarrow> same_slot (mdl_layers mdl) mem0 mem s)"

definition batch_inv ::
  "'a kv_model \<Rightarrow> nat \<Rightarrow> (nat \<Rightarrow> nat \<Rightarrow> nat) \<Rightarrow> int list list \<Rightarrow> nat list \<Rightarrow> 'a blob \<Rightarrow> nat list \<Rightarrow> ('a, 'e) retrieving \<Rightarrow> bool" where
  "batch_inv mdl N slot tss cs mem0 ds st \<longleftrightarrow>
     rt_idx st = length ds \<and> length (rt_items st) = length ds
     \<and> rt_next_start st = int (query_start tss cs (length ds))
     \<and> (\<forall>i < length ds. cs ! i \<le> ds ! i \<and> ds ! i < length (tss ! i) \<and> item_for tss cs ds i (rt_items st ! i))
     \<and> rt_not_found st = length (filter (\<lambda>i. ds ! i = cs ! i) [0..<length ds])
     \<and> memory_for mdl N slot tss cs mem0 ds (rt_mem st)"

lemma query_start_Suc: "query_start tss cs (Suc n) = query_start tss cs n + (length (tss ! n) - cs ! n)"
  by (simp add: query_start_def)

lemma memory_for_inject:
  assumes mem: "memory_for mdl N slot tss cs mem0 ds mem" and asks: "asks_for mi slot tss cs" and ok: "slots_ok N slot tss cs"
    and n: "n = length ds" "n < length tss" "\<forall>i < n. ds ! i < length (tss ! i)" and k: "cs ! n + k \<le> length (tss ! n)" "d \<le> cs ! n + k"
    and inj: "inject_kv (mdl_layers mdl) (kv_blob mdl ''vllm'' (tss ! n) (cs ! n) (cs ! n + k))
                (slice_from (am_slot_mapping (mi_attn mi)) (int (query_start tss cs n))) mem = Inr mem'"
  shows "memory_for mdl N slot tss cs mem0 (ds @ [d]) mem'"
proof -
  let ?L = "mdl_layers mdl" and ?c = "cs ! n"
  define f where "f = (\<lambda>i. map (\<lambda>p. int (slot i p)) [cs ! i..<length (tss ! i)])"
  define sl where "sl = slice_from (am_slot_mapping (mi_attn mi)) (int (query_start tss cs n))"
  have "query_start tss cs n = (\<Sum>i < n. length (f i))" by (simp add: query_start_def f_def)
  then have "take k sl = take k (f n)"
    using concat_from [of n "length tss" k f] n(2) k(1) asks by (simp add: sl_def asks_for_def f_def del: of_nat_sum)
  then have tk: "take k sl = map (\<lambda>p. int (slot n p)) [?c..<?c + k]"
    using k(1) by (simp add: f_def take_map take_upt_min min_def)
  have lk: "k \<le> length sl" using arg_cong [OF tk, of length] by (simp add: min_def split: if_splits)
  have cell: "(n, p) \<in> batch_cells tss cs" if "?c \<le> p" "p < ?c + k" for p
    using that n(2) k(1) by (simp add: batch_cells_def)
  have "inj_on (\<lambda>p. int (slot n p)) {?c..<?c + k}"
  proof (rule inj_onI)
    fix p q assume pq: "p \<in> {?c..<?c + k}" "q \<in> {?c..<?c + k}" "int (slot n p) = int (slot n q)"
    have io: "inj_on (\<lambda>(i, p). slot i p) (batch_cells tss cs)" using ok by (simp add: slots_ok_def)
    have "(n, p) = (n, q)" by (rule inj_onD [OF io]) (use pq cell in auto)
    then show "p = q" by simp
  qed
  then have dist: "distinct (take k sl)" unfolding tk by (simp add: distinct_map)
  have rng: "\<forall>s \<in> set (take k sl). 0 \<le> s \<and> s < int N"
    unfolding tk using ok cell by (fastforce simp: slots_ok_def)
  have "paged ?L N mem" using mem by (simp add: memory_for_def)
  from inject_kv_blob [of mdl N mem ?c "?c + k" sl "tss ! n", OF this _ _ _ _] lk dist rng inj
  have pg: "paged ?L N mem'" and there: "\<And>i. i < k \<Longrightarrow> in_slot mdl mem' (tss ! n) (?c + i) (nat (sl ! i))"
    and else: "\<And>s. int s \<notin> set (take k sl) \<Longrightarrow> same_slot ?L mem mem' s"
    by (auto simp: sl_def)
  have new: "in_slot mdl mem' (tss ! n) p (slot n p)" if "?c \<le> p" "p < ?c + k" for p
  proof -
    have "sl ! (p - ?c) = take k sl ! (p - ?c)" using that by simp
    also have "\<dots> = int (slot n p)"
    proof -
      have j: "p = ?c + (p - ?c)" "p - ?c < k" using that by simp_all
      then show ?thesis unfolding tk by (metis (no_types, lifting) add_diff_cancel_left' length_upt nth_map nth_upt that(2))
    qed
    finally show ?thesis using there [of "p - ?c"] that by simp
  qed
  have keep: "same_slot ?L mem mem' s" if "\<And>p. ?c \<le> p \<Longrightarrow> p < ?c + k \<Longrightarrow> slot n p \<noteq> s" for s
    by (rule else) (use that in \<open>fastforce simp: tk\<close>)
  have old: "in_slot mdl mem' (tss ! i) p (slot i p)" if i: "i < n" "cs ! i \<le> p" "p < ds ! i" for i p
  proof -
    have "slot n q \<noteq> slot i p" if "?c \<le> q" "q < ?c + k" for q
    proof
      assume eq: "slot n q = slot i p"
      have io: "inj_on (\<lambda>(i, p). slot i p) (batch_cells tss cs)" using ok by (simp add: slots_ok_def)
      have "(i, p) \<in> batch_cells tss cs" using i n(2) n(3) [rule_format, OF i(1)] by (simp add: batch_cells_def)
      with inj_onD [OF io, of "(n, q)" "(i, p)"] eq cell [OF that] have "n = i" by simp
      with i(1) show False by simp
    qed
    from in_slot_same [OF keep [OF this], of "tss ! i" p] show ?thesis
      using mem i n(1) by (simp add: memory_for_def)
  qed
  have "in_slot mdl mem' (tss ! i) p (slot i p)" if "i < length (ds @ [d])" "cs ! i \<le> p" "p < (ds @ [d]) ! i" for i p
  proof (cases "i = n")
    case True
    then show ?thesis using new [of p] that k(2) n(1) by simp
  next
    case False
    then show ?thesis using old [of i p] that n(1) by (simp add: nth_append)
  qed
  moreover have "same_slot ?L mem0 mem' s" if s: "s \<notin> (\<lambda>(i, p). slot i p) ` batch_cells tss cs" for s
  proof (rule same_slot_trans)
    show "same_slot ?L mem0 mem s" using mem s by (simp add: memory_for_def)
    show "same_slot ?L mem mem' s" by (rule keep) (use s cell in force)
  qed
  ultimately show ?thesis using pg by (simp add: memory_for_def)
qed


lemma memory_for_skip:
  assumes "memory_for mdl N slot tss cs mem0 ds mem"
  shows "memory_for mdl N slot tss cs mem0 (ds @ [cs ! length ds]) mem"
  using assms by (auto simp: memory_for_def nth_append less_Suc_eq)

lemma items_snoc:
  assumes "\<forall>i < length ds. cs ! i \<le> ds ! i \<and> ds ! i < length (tss ! i) \<and> item_for tss cs ds i (its ! i)"
    and "length its = length ds" "cs ! length ds \<le> d" "d < length (tss ! length ds)" "item_for tss cs (ds @ [d]) (length ds) it"
  shows "\<forall>i < length (ds @ [d]). cs ! i \<le> (ds @ [d]) ! i \<and> (ds @ [d]) ! i < length (tss ! i)
     \<and> item_for tss cs (ds @ [d]) i ((its @ [it]) ! i)"
proof (intro allI impI)
  fix i assume i: "i < length (ds @ [d])"
  show "cs ! i \<le> (ds @ [d]) ! i \<and> (ds @ [d]) ! i < length (tss ! i) \<and> item_for tss cs (ds @ [d]) i ((its @ [it]) ! i)"
  proof (cases "i = length ds")
    case True
    then show ?thesis using assms(2-5) by (simp add: nth_append)
  next
    case False
    then show ?thesis using assms(1,2) i by (simp add: nth_append item_for_def)
  qed
qed

context kv_engine
begin

lemma batch_step:
  assumes inv: "inv (rt_engine st)" and b: "batch_inv mdl N slot tss cs mem0 ds st"
    and asks: "asks_for mi slot tss cs" and ok: "slots_ok N slot tss cs"
    and n: "length ds < length tss" "map_of (gm_seq_data g) sid = Some (tss ! length ds)" "tss ! length ds \<in> good"
    and run: "retrieve_seq retr (mdl_layers mdl) mi RetrievePREFILL g st sid = Inr fl"
  shows "\<exists>st' d. fl = Next st' \<and> inv (rt_engine st') \<and> batch_inv mdl N slot tss cs mem0 (ds @ [d]) st'"
proof -
  let ?n = "length ds" and ?toks = "tss ! length ds" and ?c = "cs ! length ds"
  have idx: "rt_idx st = ?n" and nxt: "rt_next_start st = int (query_start tss cs ?n)" using b by (simp_all add: batch_inv_def)
  have qsl: "am_query_start_loc (mi_attn mi) = map (\<lambda>n. int (query_start tss cs n)) [0..<Suc (length tss)]"
    and cl: "?c < length ?toks" using asks n(1) by (auto simp: asks_for_def)
  have q0: "py_nth (am_query_start_loc (mi_attn mi)) (int (rt_idx st)) = Inr (int (query_start tss cs ?n))"
    using n(1) by (simp add: qsl idx del: upt_Suc)
  have q1: "py_nth (am_query_start_loc (mi_attn mi)) (int (Suc (rt_idx st))) = Inr (int (query_start tss cs (Suc ?n)))"
    using n(1) by (simp add: qsl idx py_nth_nat del: upt_Suc of_nat_Suc)
  have len: "int (length ?toks) - (int (query_start tss cs (Suc ?n)) - int (query_start tss cs ?n)) = int ?c"
    using cl by (simp add: query_start_Suc)
  obtain r e' table dec item st2 where
    rt: "retr (rt_idx st) (gm_client_id g) ?toks (suffix_mask (length ?toks) ?c) (rt_engine st) = Inr (r, e')" and
    dec: "dec = (if ?c + count_true (ret_mask r) = length ?toks then 1 else 0 :: int)" and
    item: "item = \<lparr>it_tokens = ?toks, it_computed = int (?c + count_true (ret_mask r)) - dec,
             it_injected = int (count_true (ret_mask r)) - dec, it_start = rt_next_start st,
             it_prefill = gm_is_prompt g, it_table = table\<rparr>" and
    place: "place_seq (mdl_layers mdl) mi (ret_kv r) (rt_next_start st) (it_injected item)
       (bill_seq g (ret_attribution r) (it_computed item) (int (length ?toks))
          (st\<lparr>rt_engine := e', rt_items := rt_items st @ [item],
              rt_next_start := rt_next_start st + (int (query_start tss cs (Suc ?n)) - int (query_start tss cs ?n)),
              rt_keys := rt_keys st @ [ret_keys r]\<rparr>)) = Inr st2" and
    fl: "fl = Next st2"
    by (rule retrieve_seq_prefill [OF run n(2) q1 q0 len less_imp_le [OF cl]])
  let ?k = "count_true (ret_mask r)"
  from retr_law [OF inv n(3) less_imp_le [OF cl] rt]
  have e': "inv e'" and k: "?c + ?k \<le> length ?toks" and kv: "?k \<noteq> 0 \<Longrightarrow> ret_kv r = kv_blob mdl ''vllm'' ?toks ?c (?c + ?k)"
    by auto
  define d where "d = (if ?c + ?k = length ?toks then ?c + ?k - 1 else ?c + ?k)"
  have d: "?c \<le> d" "d < length ?toks" "d \<le> ?c + ?k" "int d = int (?c + ?k) - dec" "int (d - ?c) = int ?k - dec"
    "?k = 0 \<Longrightarrow> d = ?c"
    using k cl by (auto simp: d_def dec of_nat_diff)
  have inj: "it_injected item = int (d - ?c)" by (simp add: item d)
  have ifor: "item_for tss cs (ds @ [d]) ?n item" using d nxt by (simp add: item_for_def item)
  have st2: "rt_engine st2 = e'" "rt_items st2 = rt_items st @ [item]" "rt_idx st2 = Suc ?n"
    "rt_next_start st2 = int (query_start tss cs (Suc ?n))"
    using place by (auto simp: place_seq_def idx nxt split: if_splits)
  have mem: "memory_for mdl N slot tss cs mem0 (ds @ [d]) (rt_mem st2)
     \<and> rt_not_found st2 = rt_not_found st + (if d = ?c then 1 else 0)"
  proof (cases "d = ?c")
    case True
    with place inj have "rt_mem st2 = rt_mem st" "rt_not_found st2 = Suc (rt_not_found st)" by (auto simp: place_seq_def)
    with True memory_for_skip b show ?thesis by (fastforce simp: batch_inv_def)
  next
    case False
    with d(6) have k0: "?k \<noteq> 0" by blast
    from False place inj d(1) kv [OF k0] have
      i: "inject_kv (mdl_layers mdl) (kv_blob mdl ''vllm'' ?toks ?c (?c + ?k))
           (slice_from (am_slot_mapping (mi_attn mi)) (int (query_start tss cs ?n))) (rt_mem st) = Inr (rt_mem st2)"
      and nf: "rt_not_found st2 = rt_not_found st"
      by (auto simp: place_seq_def nxt)
    have ds: "\<forall>i < ?n. ds ! i < length (tss ! i)" using b by (simp add: batch_inv_def)
    have "memory_for mdl N slot tss cs mem0 ds (rt_mem st)" using b by (simp add: batch_inv_def)
    from memory_for_inject [OF this asks ok refl n(1) ds k d(3) i] nf False show ?thesis by simp
  qed
  have "\<forall>i < length (ds @ [d]). cs ! i \<le> (ds @ [d]) ! i \<and> (ds @ [d]) ! i < length (tss ! i)
     \<and> item_for tss cs (ds @ [d]) i (rt_items st2 ! i)"
    unfolding st2(2) by (rule items_snoc [OF _ _ d(1,2) ifor]) (use b in \<open>simp_all add: batch_inv_def\<close>)
  moreover have "rt_not_found st2 = length (filter (\<lambda>i. (ds @ [d]) ! i = cs ! i) [0..<length (ds @ [d])])"
  proof -
    have "filter (\<lambda>i. (ds @ [d]) ! i = cs ! i) [0..<?n] = filter (\<lambda>i. ds ! i = cs ! i) [0..<?n]"
      by (rule filter_cong) (simp_all add: nth_append)
    then show ?thesis using mem b by (simp add: batch_inv_def)
  qed
  moreover have "length (rt_items st) = ?n" using b by (simp add: batch_inv_def)
  ultimately have "batch_inv mdl N slot tss cs mem0 (ds @ [d]) st2"
    using mem st2 by (simp add: batch_inv_def)
  with st2(1) e' fl show ?thesis by blast
qed

end

section \<open>The rebuilt input\<close>

lemma foldM_indexed:
  assumes "foldM f s xs = Inr s'" "P 0 s"
    and "\<And>n st t. n < length xs \<Longrightarrow> P n st \<Longrightarrow> f st (xs ! n) = Inr t \<Longrightarrow> P (Suc n) t"
  shows "P (length xs) s'"
  using assms
proof (induction xs arbitrary: s P)
  case (Cons x xs)
  from Cons.prems(1) obtain t where t: "f s x = Inr t" "foldM f t xs = Inr s'" by auto
  have "P (Suc (length xs)) s'"
    by (rule Cons.IH [of t "\<lambda>n. P (Suc n)", OF t(2)])
       (use Cons.prems(3) [of 0 s t] Cons.prems(2) t(1) Cons.prems(3) [of "Suc n" for n] in auto)
  then show ?case by simp
qed auto

definition rebuilt_upto :: "(nat \<Rightarrow> nat \<Rightarrow> nat) \<Rightarrow> int list list \<Rightarrow> nat list \<Rightarrow> nat \<Rightarrow> rebuilding \<Rightarrow> bool" where
  "rebuilt_upto slot tss ds n b \<longleftrightarrow>
     rb_tokens b = map (\<lambda>i. drop (ds ! i) (tss ! i)) [0..<n]
     \<and> rb_positions b = map (\<lambda>i. map int [ds ! i..<length (tss ! i)]) [0..<n]
     \<and> rb_slots b = map (\<lambda>i. map (\<lambda>p. int (slot i p)) [ds ! i..<length (tss ! i)]) [0..<n]
     \<and> rb_query_lens b = map (\<lambda>i. int (length (tss ! i) - ds ! i)) [0..<n]
     \<and> rb_query_start b = map (\<lambda>k. int (query_start tss ds k)) [0..<Suc n]
     \<and> rb_contexts b = map (\<lambda>i. int (ds ! i)) [0..<n]
     \<and> rb_selected b = map (\<lambda>i. int (query_start tss ds (Suc i)) - 1) [0..<n]
     \<and> rb_last_start b = int (query_start tss ds n)"

lemma block_slice:
  assumes "n < length tss" "cs ! n \<le> d" "d \<le> length (tss ! n)"
  shows "slice (concat (map (\<lambda>i. map (h i) [cs ! i..<length (tss ! i)]) [0..<length tss]))
           (int (query_start tss cs n) + int (d - cs ! n))
           (int (query_start tss cs n) + int (d - cs ! n) + (int (length (tss ! n)) - int d))
         = map (h n) [d..<length (tss ! n)]"
proof -
  let ?f = "\<lambda>i. map (h i) [cs ! i..<length (tss ! i)]"
  have q: "query_start tss cs n = (\<Sum>i < n. length (?f i))" by (simp add: query_start_def)
  have e1: "int (query_start tss cs n) + int (d - cs ! n) = int (query_start tss cs n + (d - cs ! n))" by simp
  have e2: "int (query_start tss cs n) + int (d - cs ! n) + (int (length (tss ! n)) - int d)
       = int (query_start tss cs n + length (?f n))"
    using assms by (simp add: of_nat_diff)
  have k: "d - cs ! n \<le> length (?f n)" using assms by simp
  have "drop (d - cs ! n) (?f n) = map (h n) [d..<length (tss ! n)]" using assms by (simp add: drop_map)
  with concat_slice [of n _ _ ?f, OF assms(1) k, folded q] show ?thesis
    by (rule trans [OF arg_cong2 [OF e1 e2, of "slice _"] trans])
qed

lemma rebuild_item_step:
  assumes asks: "asks_for mi slot tss cs" and b: "rebuilt_upto slot tss ds n b" and n: "n < length tss"
    and it: "item_for tss cs ds n it" "cs ! n \<le> ds ! n" "ds ! n < length (tss ! n)"
    and run: "rebuild_item mi b it = Inr b'"
  shows "rebuilt_upto slot tss ds (Suc n) b'"
proof -
  let ?d = "ds ! n" and ?c = "cs ! n" and ?t = "tss ! n"
  have pos: "slice (mi_input_positions mi) (int (query_start tss cs n) + int (?d - ?c))
      (int (query_start tss cs n) + int (?d - ?c) + (int (length ?t) - int ?d)) = map int [?d..<length ?t]"
    using block_slice [of n tss cs ?d "\<lambda>i. int"] n it asks by (simp add: asks_for_def)
  have sl: "slice (am_slot_mapping (mi_attn mi)) (int (query_start tss cs n) + int (?d - ?c))
      (int (query_start tss cs n) + int (?d - ?c) + (int (length ?t) - int ?d)) = map (\<lambda>p. int (slot n p)) [?d..<length ?t]"
    using block_slice [of n tss cs ?d "\<lambda>i p. int (slot i p)"] n it asks by (simp add: asks_for_def)
  have q: "int (length ?t) - int ?d = int (length ?t - ?d)" using it(3) by simp
  have fields: "it_tokens it = ?t" "it_computed it = int ?d" "it_injected it = int (?d - ?c)"
    "it_start it = int (query_start tss cs n)" using it(1) by (simp_all add: item_for_def)
  have ls: "rb_last_start b + (int (length ?t) - int ?d) = int (query_start tss ds (Suc n))"
    using b it(3) by (simp add: rebuilt_upto_def query_start_Suc)
  from run have "b' = b\<lparr>rb_tokens := rb_tokens b @ [drop ?d ?t],
                   rb_positions := rb_positions b @ [map int [?d..<length ?t]],
                   rb_query_lens := rb_query_lens b @ [int (length ?t - ?d)],
                   rb_num_prefills := rb_num_prefills b + (if it_prefill it then 1 else 0),
                   rb_num_prefill_tokens := rb_num_prefill_tokens b + (if it_prefill it then int (length ?t - ?d) else 0),
                   rb_slots := rb_slots b @ [map (\<lambda>p. int (slot n p)) [?d..<length ?t]],
                   rb_max_query_len := max (int (length ?t - ?d)) (rb_max_query_len b),
                   rb_tables := rb_tables b @ [it_table it],
                   rb_query_start := rb_query_start b @ [int (query_start tss ds (Suc n))],
                   rb_contexts := rb_contexts b @ [int ?d],
                   rb_selected := rb_selected b @ [int (query_start tss ds (Suc n)) - 1],
                   rb_last_start := int (query_start tss ds (Suc n))\<rparr>"
    unfolding rebuild_item_def Let_def fields pos sl ls unfolding q slice_from_nonneg
    by (simp only: assert_py_Inr_iff sum.inject)
  then show ?thesis using b by (simp add: rebuilt_upto_def)
qed

lemma rebuild_start_upto: "rebuilt_upto slot tss ds 0 rebuild_start"
  by (simp add: rebuilt_upto_def rebuild_start_def query_start_def)

lemma rebuild_asks:
  assumes asks: "asks_for mi slot tss cs" and len: "length ds = length tss" "length its = length tss"
    and its: "\<forall>i < length tss. cs ! i \<le> ds ! i \<and> ds ! i < length (tss ! i) \<and> item_for tss cs ds i (its ! i)"
    and run: "build_partial_prefill_input mi its = Inr mi'"
  shows "asks_for mi' slot tss ds"
proof -
  from run obtain b sm where b: "foldM (rebuild_item mi) rebuild_start its = Inr b"
    and sm: "rebuild_sampling b (mi_sampling mi) = Inr sm"
    and mi': "mi' = mi\<lparr>mi_input_tokens := concat (rb_tokens b), mi_input_positions := concat (rb_positions b),
                 mi_query_lens := rb_query_lens b, mi_attn := rebuilt_attn b (mi_attn mi), mi_sampling := sm\<rparr>"
    by (auto simp: build_partial_prefill_input_def)
  have "rebuilt_upto slot tss ds (length its) b"
    by (rule foldM_indexed [where P = "rebuilt_upto slot tss ds", OF b rebuild_start_upto])
       (use rebuild_item_step [OF asks] its len in metis)
  then have up: "rebuilt_upto slot tss ds (length tss) b" using len by simp
  have ctx: "rb_contexts b = map int ds"
    using up len by (auto simp: rebuilt_upto_def intro!: nth_equalityI)
  have "sm_selected s = rb_selected b" if "sm = Some s" for s
    using sm that by (auto simp: rebuild_sampling_def split: option.splits)
  then show ?thesis using up asks len its ctx
    by (simp add: asks_for_def mi' rebuilt_attn_def rebuilt_upto_def)
qed

section \<open>The whole batch\<close>

text \<open>
  \<open>prefill_batch\<close>: every group is a prompt to be sampled, its sequence ids are those of its
  sequence data, the token lists are \<open>tss\<close> in this order, and the block tables, with blocks of
  \<open>bs\<close> slots, cover every sequence and give its positions the slots \<open>slot i p\<close> below \<open>N\<close>.
\<close>

definition batch_seqs :: "model_input \<Rightarrow> (group_meta \<times> int \<times> int list) list" where
  "batch_seqs mi = concat (map (\<lambda>g. map (Pair g) (gm_seq_data g)) (mi_groups mi))"

definition prefill_batch :: "int \<Rightarrow> nat \<Rightarrow> (nat \<Rightarrow> nat \<Rightarrow> nat) \<Rightarrow> int list list \<Rightarrow> model_input \<Rightarrow> bool" where
  "prefill_batch bs N slot tss mi \<longleftrightarrow>
     0 < bs \<and> map (snd \<circ> snd) (batch_seqs mi) = tss
     \<and> (\<forall>g \<in> set (mi_groups mi). gm_do_sample g \<and> wf_dict (gm_seq_data g)
          \<and> map_of (mi_seq_ids mi) (gm_request_id g) = Some (dkeys (gm_seq_data g)))
     \<and> (\<forall>n < length tss. \<exists>table. map_of (gm_block_tables (fst (batch_seqs mi ! n))) (fst (snd (batch_seqs mi ! n))) = Some table
          \<and> int (length (tss ! n)) \<le> int (length table) * bs
          \<and> (\<forall>p < length (tss ! n). table_slot table bs (int p) = int (slot n p) \<and> slot n p < N))"

lemma batch_length: "prefill_batch bs N slot tss mi \<Longrightarrow> length (batch_seqs mi) = length tss"
  by (auto simp: prefill_batch_def)

lemma jobs_of_ids:
  assumes "\<forall>g \<in> set (mi_groups mi). map_of (mi_seq_ids mi) (gm_request_id g) = Some (dkeys (gm_seq_data g))"
  shows "jobs mi = map (\<lambda>(g, sid, toks). (g, sid)) (batch_seqs mi)"
proof -
  have "map (Pair g) (job_ids mi g) = map (\<lambda>(g, sid, toks). (g, sid)) (map (Pair g) (gm_seq_data g))"
    if "g \<in> set (mi_groups mi)" for g
    using assms that by (simp add: job_ids_def split_beta comp_def)
  then have "map (\<lambda>g. map (Pair g) (job_ids mi g)) (mi_groups mi)
      = map (\<lambda>g. map (\<lambda>(g, sid, toks). (g, sid)) (map (Pair g) (gm_seq_data g))) (mi_groups mi)"
    by (intro map_cong refl)
  then show ?thesis by (simp only: jobs_def batch_seqs_def map_concat map_map comp_def)
qed

lemma jobs_batch: "prefill_batch bs N slot tss mi \<Longrightarrow> jobs mi = map (\<lambda>(g, sid, toks). (g, sid)) (batch_seqs mi)"
  by (rule jobs_of_ids) (simp add: prefill_batch_def)

lemma batch_seq:
  assumes "prefill_batch bs N slot tss mi" "n < length tss" "batch_seqs mi ! n = (g, sid, toks)"
  shows "g \<in> set (mi_groups mi) \<and> map_of (gm_seq_data g) sid = Some toks \<and> toks = tss ! n \<and> jobs mi ! n = (g, sid)"
proof -
  have len: "length (batch_seqs mi) = length tss" by (rule batch_length [OF assms(1)])
  then have "(g, sid, toks) \<in> set (batch_seqs mi)" using assms(2,3) by (metis nth_mem)
  then have g: "g \<in> set (mi_groups mi)" "(sid, toks) \<in> set (gm_seq_data g)" by (auto simp: batch_seqs_def)
  moreover have "wf_dict (gm_seq_data g)" using assms(1) g(1) by (simp add: prefill_batch_def)
  moreover have "tss ! n = (snd \<circ> snd) (batch_seqs mi ! n)"
    using assms(1,2) len by (metis nth_map prefill_batch_def)
  ultimately show ?thesis using assms(2,3) len by (simp add: jobs_batch [OF assms(1)] wf_dict_map_of_iff)
qed

lemma batch_inv_start:
  assumes "paged (mdl_layers mdl) N mem"
  shows "batch_inv mdl N slot tss cs mem []
     \<lparr>rt_engine = e, rt_mem = mem, rt_items = [], rt_next_start = 0, rt_not_found = 0, rt_idx = 0,
      rt_served = [], rt_credits = [], rt_keys = []\<rparr>"
  using assms by (simp add: batch_inv_def memory_for_def query_start_def)

lemma rebuilt_same:
  assumes "build_partial_prefill_input mi its = Inr mi'"
  shows "mi_groups mi' = mi_groups mi \<and> mi_seq_ids mi' = mi_seq_ids mi
     \<and> (mi_sampling mi' = None \<longleftrightarrow> mi_sampling mi = None) \<and> am_has_prefill (mi_attn mi') = am_has_prefill (mi_attn mi)
     \<and> am_blended_layers (mi_attn mi') = am_blended_layers (mi_attn mi)"
proof -
  from assms obtain b sm where sm: "rebuild_sampling b (mi_sampling mi) = Inr sm" and
    mi': "mi' = mi\<lparr>mi_input_tokens := concat (rb_tokens b), mi_input_positions := concat (rb_positions b),
                 mi_query_lens := rb_query_lens b, mi_attn := rebuilt_attn b (mi_attn mi), mi_sampling := sm\<rparr>"
    by (auto simp: build_partial_prefill_input_def)
  have "sm = None \<longleftrightarrow> mi_sampling mi = None"
    using sm by (cases "mi_sampling mi") (auto simp: rebuild_sampling_def)
  then show ?thesis by (simp add: mi' rebuilt_attn_def)
qed

lemma all_unmoved:
  assumes "length ds = length cs" "length (filter (\<lambda>i. ds ! i = cs ! i) [0..<length ds]) = length ds"
  shows "ds = cs"
proof (rule nth_equalityI)
  fix i assume i: "i < length ds"
  show "ds ! i = cs ! i"
  proof (rule ccontr)
    assume "ds ! i \<noteq> cs ! i"
    with length_filter_less [of i "[0..<length ds]" "\<lambda>i. ds ! i = cs ! i"] i show False using assms(2) by simp
  qed
qed (use assms in simp)

context kv_engine
begin

lemma retrieve_prefill:
  assumes inv: "inv e" and asks: "asks_for mi slot tss cs" and ok: "slots_ok N slot tss cs"
    and batch: "prefill_batch bs N slot tss mi" and good: "set tss \<subseteq> good" and mem: "paged (mdl_layers mdl) N mem"
    and run: "lmcache_retrieve_kv retr False (mdl_layers mdl) RetrievePREFILL mi mem e = Inr ro"
  shows "\<exists>ds. asks_for (ro_input ro) slot tss ds \<and> (\<forall>i < length tss. cs ! i \<le> ds ! i)
     \<and> memory_for mdl N slot tss cs mem ds (ro_mem ro) \<and> inv (ro_engine ro) \<and> \<not> ro_skip ro
     \<and> prefill_batch bs N slot tss (ro_input ro)
     \<and> (mi_sampling (ro_input ro) = None \<longleftrightarrow> mi_sampling mi = None)"
proof -
  let ?st = "\<lparr>rt_engine = e, rt_mem = mem, rt_items = [], rt_next_start = 0, rt_not_found = 0, rt_idx = 0,
      rt_served = [], rt_credits = [], rt_keys = []\<rparr>"
  let ?f = "\<lambda>st (g, sid). retrieve_seq retr (mdl_layers mdl) mi RetrievePREFILL g st sid"
  have known: "\<forall>g \<in> set (mi_groups mi). dhas (mi_seq_ids mi) (gm_request_id g)"
    using batch by (auto simp: prefill_batch_def dhas_map_of)
  from run obtain fl where fl: "forM_until ?f ?st (jobs mi) = Inr fl"
    and out: "(case fl of
                   Leave st \<Rightarrow> Inr \<lparr>ro_input = mi, ro_skip = False, ro_served = None, ro_keys = None, ro_credits = None,
                                ro_mem = rt_mem st, ro_engine = rt_engine st\<rparr>
                 | Next st \<Rightarrow> retrieve_done RetrievePREFILL mi st) = Inr ro"
    by (auto simp: lmcache_retrieve_kv_def Let_def retrieve_loop_flat [OF known])
  have lb: "length (batch_seqs mi) = length tss" by (rule batch_length [OF batch])
  then have lj: "length (jobs mi) = length tss" by (simp add: jobs_batch [OF batch])
  let ?P = "\<lambda>n st. inv (rt_engine st) \<and> (\<exists>ds. length ds = n \<and> batch_inv mdl N slot tss cs mem ds st)"
  have "\<exists>s'. fl = Next s' \<and> ?P (length (jobs mi)) s'"
  proof (rule forM_until_indexed [OF fl])
    show "?P 0 ?st" using inv batch_inv_start [OF mem] by auto
  next
    fix n and st :: "('a, 'e) retrieving" and fl
    assume n: "n < length (jobs mi)" and P: "?P n st" and step: "?f st (jobs mi ! n) = Inr fl"
    obtain g sid toks where s: "batch_seqs mi ! n = (g, sid, toks)" by (cases "batch_seqs mi ! n")
    have nt: "n < length tss" using n lj by simp
    from batch_seq [OF batch nt s] step
    have sd: "map_of (gm_seq_data g) sid = Some (tss ! n)"
      and step: "retrieve_seq retr (mdl_layers mdl) mi RetrievePREFILL g st sid = Inr fl" by auto
    from P obtain ds where ds: "length ds = n" "batch_inv mdl N slot tss cs mem ds st" and i: "inv (rt_engine st)" by blast
    have "tss ! n \<in> good" using good nt by auto
    from batch_step [OF i ds(2) asks ok, unfolded ds(1), OF nt sd this step] ds(1)
    show "\<exists>st'. fl = Next st' \<and> ?P (Suc n) st'" by (metis length_append_singleton)
  qed
  then obtain st ds where st: "fl = Next st" "inv (rt_engine st)" and ds: "length ds = length tss"
    and b: "batch_inv mdl N slot tss cs mem ds st"
    using lj by auto
  have idx: "rt_idx st = length tss" "length (rt_items st) = length tss"
    and nf: "rt_not_found st = length (filter (\<lambda>i. ds ! i = cs ! i) [0..<length ds])"
    and mf: "memory_for mdl N slot tss cs mem ds (rt_mem st)"
    and its: "\<forall>i < length tss. cs ! i \<le> ds ! i \<and> ds ! i < length (tss ! i) \<and> item_for tss cs ds i (rt_items st ! i)"
    using b ds by (simp_all add: batch_inv_def)
  have qn: "length (am_query_start_loc (mi_attn mi)) = Suc (length tss)" using asks by (simp add: asks_for_def)
  from out st(1) have fin: "retrieve_done RetrievePREFILL mi st = Inr ro" by simp
  have eng: "ro_mem ro = rt_mem st" "ro_engine ro = rt_engine st" "\<not> ro_skip ro"
    using fin by (auto simp: retrieve_done_def Let_def split: if_splits)
  show ?thesis
  proof (cases "rt_not_found st < length tss")
    case True
    with fin qn have bp: "build_partial_prefill_input mi (rt_items st) = Inr (ro_input ro)"
      by (auto simp: retrieve_done_def Let_def)
    from rebuild_asks [OF asks ds idx(2) its bp] have "asks_for (ro_input ro) slot tss ds" .
    moreover note same = rebuilt_same [OF bp]
    moreover have "prefill_batch bs N slot tss (ro_input ro)"
      using batch same by (simp add: prefill_batch_def batch_seqs_def)
    ultimately show ?thesis using mf eng st(2) its by (intro exI [of _ ds]) simp
  next
    case False
    have lc: "length cs = length tss" using asks by (simp add: asks_for_def)
    have "length (filter (\<lambda>i. ds ! i = cs ! i) [0..<length ds]) \<le> length ds"
      by (metis diff_zero length_filter_le length_upt)
    with False nf ds have "ds = cs" by (intro all_unmoved) (simp_all add: lc)
    moreover from False fin qn have "ro_input ro = mi"
      by (auto simp: retrieve_done_def Let_def)
    ultimately show ?thesis using mf eng st(2) asks batch by (intro exI [of _ ds]) simp
  qed
qed

end

section \<open>Storing the batch\<close>

definition holds_upto ::
  "'a kv_model \<Rightarrow> nat \<Rightarrow> (nat \<Rightarrow> nat \<Rightarrow> nat) \<Rightarrow> int list list \<Rightarrow> nat list \<Rightarrow> 'a blob \<Rightarrow> bool" where
  "holds_upto mdl N slot tss cs mem \<longleftrightarrow> paged (mdl_layers mdl) N mem
     \<and> (\<forall>i < length tss. \<forall>p < cs ! i. in_slot mdl mem (tss ! i) p (slot i p))"

lemma upto_upt: "[int a..int b - 1] = map int [a..<b]"
  by (rule nth_equalityI) (auto simp: nth_upto)

lemma foldM_map: "foldM f s (map g xs) = foldM (\<lambda>s x. f s (g x)) s xs"
  by (induction xs arbitrary: s) simp_all

lemma foldM_nested:
  "foldM (\<lambda>s g. foldM (f g) s (h g)) s gs = foldM (\<lambda>s (g, x). f g s x) s (concat (map (\<lambda>g. map (Pair g) (h g)) gs))"
proof (induction gs arbitrary: s)
  case (Cons g gs)
  then show ?case by (simp add: foldM_map)
qed simp

definition prompt_status :: "store_status \<Rightarrow> bool" where
  "prompt_status s \<longleftrightarrow> s = StorePREFILL \<or> s = StoreSUFFIX_PREFILL"

definition decode_status :: "store_status \<Rightarrow> bool" where
  "decode_status s \<longleftrightarrow> s = StoreDECODE \<or> s = StoreNONE"

lemma should_store_statuses:
  assumes "lmcache_should_store chunk sd mem mi = Inr sts" "\<forall>g \<in> set (mi_groups mi). gm_do_sample g"
    and "length (batch_seqs mi) = length (am_seq_lens (mi_attn mi))"
  shows "length sts = length (am_seq_lens (mi_attn mi)) \<and> (list_all prompt_status sts \<or> list_all decode_status sts)"
proof -
  let ?L = "length (am_seq_lens (mi_attn mi))"
  let ?none = "replicate ?L StoreNONE"
  have prompts: "length st = ?L \<and> list_all prompt_status st"
    if run: "foldM (store_status_group sel) (?none, 0, 0) (mi_groups mi) = Inr (st, d, s)" for sel st d s
  proof -
    have grp: "store_status_group sel z g = foldM (store_status_seq sel) z (gm_seq_data g)" if "g \<in> set (mi_groups mi)" for z g
      using assms(2) that by (cases z) (simp add: store_status_group_def)
    have "foldM (store_status_group sel) z gs = foldM (\<lambda>z g. foldM (store_status_seq sel) z (gm_seq_data g)) z gs"
      if "set gs \<subseteq> set (mi_groups mi)" for z gs
      using that
    proof (induction gs arbitrary: z)
      case (Cons g gs)
      then show ?case using grp by (cases "foldM (store_status_seq sel) z (gm_seq_data g)") simp_all
    qed simp
    with run have flat: "foldM (\<lambda>z (g, x). store_status_seq sel z x) (?none, 0, 0) (batch_seqs mi) = Inr (st, d, s)"
      by (simp add: foldM_nested batch_seqs_def)
    let ?P = "\<lambda>n (st, d, s). length st = ?L \<and> d = n \<and> (\<forall>i < n. i < ?L \<longrightarrow> prompt_status (st ! i))"
    have "?P (length (batch_seqs mi)) (st, d, s)"
    proof (rule foldM_indexed [OF flat])
      fix n and z z' :: "store_status list \<times> nat \<times> nat"
      assume "?P n z" "(\<lambda>(g, x). store_status_seq sel z x) (batch_seqs mi ! n) = Inr z'"
      then show "?P (Suc n) z'"
        by (cases z; cases z'; cases "batch_seqs mi ! n")
           (auto simp: store_status_seq_def set_status_def prompt_status_def nth_list_update less_Suc_eq split: if_splits)
    qed simp
    then show ?thesis using assms(3) by (auto simp: list_all_length)
  qed
  show ?thesis
    using assms(1) prompts
    by (auto simp: lmcache_should_store_def Let_def decode_status_def list_all_iff split: option.splits if_splits)
qed

lemma table_slots_upto:
  assumes "\<forall>p < length toks. table_slot table bs (int p) = int (sl p)" "a \<le> length toks"
  shows "map (table_slot table bs) [int a..int (length toks) - 1] = map (\<lambda>p. int (sl p)) [a..<length toks]"
  using assms by (simp add: upto_upt)

context kv_engine
begin

lemma store_tokens_keeps:
  assumes inv: "inv e" and "toks \<in> good" "0 < bs" "map_of (gm_block_tables g) sid = Some table"
    and "int (length toks) \<le> int (length table) * bs" and sl: "\<forall>p < length toks. table_slot table bs (int p) = int (sl p) \<and> sl p < N"
    and mem: "paged (mdl_layers mdl) N mem" "\<forall>p < length toks. in_slot mdl mem toks p (sl p)"
    and run: "store_tokens look put c bs (mdl_layers mdl) mem g d keys sid (length toks) toks e = Inr e'"
  shows "inv e'"
proof -
  from run obtain skip where skip: "skip \<le> length toks" and
    rest: "skip < length toks \<Longrightarrow> bindr (compute_slot_mapping False [] sid (int (length toks)) (int skip) 0 bs (gm_block_tables g)) (\<lambda>slots.
             bindr (collect_kv (mdl_layers mdl) slots mem) (\<lambda>kv.
               bindr (put d (gm_client_id g) (request_kind g) keys toks kv
                        (mask_from (length toks) (int (length toks) - int (length slots))) e) (\<lambda>(n, e'). Inr e'))) = Inr e'"
    and same: "\<not> skip < length toks \<Longrightarrow> e' = e"
    unfolding store_tokens_def Let_def take_all [OF order_refl]
    by (simp only: bindr_Inr_iff assert_py_Inr_iff split: if_split_asm) blast+
  show ?thesis
  proof (cases "skip < length toks")
    case True
    have "compute_slot_mapping False [] sid (int (length toks)) (int skip) 0 bs (gm_block_tables g)
        = Inr (map (\<lambda>p. int (sl p)) [skip..<length toks])"
      using compute_slot_mapping_covered [of bs "int skip" "gm_block_tables g" sid table "int (length toks)" "[]" 0]
        table_slots_upto [of toks table bs sl skip] assms(3-6) skip by simp
    moreover have "collect_kv (mdl_layers mdl) (map (\<lambda>p. int (sl p)) [skip..<length toks]) mem
        = Inr (kv_blob mdl ''vllm'' toks skip (length toks))"
      by (rule collect_kv_blob [OF mem(1)]) (use sl mem(2) in auto)
    moreover have "mask_from (length toks) (int (length toks) - int (length toks - skip)) = suffix_mask (length toks) skip"
      using skip by (simp add: mask_from_def slice_index_def of_nat_diff)
    ultimately obtain n where "put d (gm_client_id g) (request_kind g) keys toks (kv_blob mdl ''vllm'' toks skip (length toks))
        (suffix_mask (length toks) skip) e = Inr (n, e')"
      using rest [OF True] by (auto simp del: of_nat_diff)
    from put_law [OF inv assms(2) skip this] show ?thesis .
  qed (use same inv in simp)
qed

lemma store_batch_keeps:
  assumes inv: "inv e" and batch: "prefill_batch bs N slot tss mi" and good: "set tss \<subseteq> good"
    and lens: "am_seq_lens (mi_attn mi) = map length tss"
    and sts: "length sts = length tss" "list_all prompt_status sts \<or> list_all decode_status sts"
    and mem: "holds_upto mdl N slot tss (map length tss) mem"
    and run: "lmcache_store_kv look put c bs (mdl_layers mdl) mi mem sts keys e = Inr e'"
  shows "inv e'"
proof -
  let ?f = "\<lambda>st (g, x). store_seq look put c bs (mdl_layers mdl) mem (am_seq_lens (mi_attn mi)) sts keys g st x"
  have lb: "length (batch_seqs mi) = length tss" by (rule batch_length [OF batch])
  from run obtain d r where flat: "foldM ?f (0, 0, e) (batch_seqs mi) = Inr (d, r, e')"
    unfolding lmcache_store_kv_def foldM_nested batch_seqs_def [symmetric] by auto
  let ?P = "\<lambda>n (d, r :: nat, e). inv e \<and> (list_all prompt_status sts \<longrightarrow> d = n)"
  have "?P (length (batch_seqs mi)) (d, r, e')"
  proof (rule foldM_indexed [OF flat])
    show "?P 0 (0, 0, e)" using inv by simp
    fix n z z' assume n: "n < length (batch_seqs mi)" and P: "?P n z" and step: "?f z (batch_seqs mi ! n) = Inr z'"
    obtain g sid toks where s: "batch_seqs mi ! n = (g, sid, toks)" by (cases "batch_seqs mi ! n")
    obtain d r e where z: "z = (d, r, e)" by (cases z)
    obtain d' r' e' where z': "z' = (d', r', e')" by (cases z')
    have nt: "n < length tss" using n lb by simp
    have toks: "toks = tss ! n" using batch_seq [OF batch nt s] by blast
    from batch nt s obtain table where table: "map_of (gm_block_tables g) sid = Some table"
      "int (length (tss ! n)) \<le> int (length table) * bs"
      "\<forall>p < length (tss ! n). table_slot table bs (int p) = int (slot n p) \<and> slot n p < N" and bs: "0 < bs"
      by (fastforce simp: prefill_batch_def)
    have hold: "paged (mdl_layers mdl) N mem" "\<forall>p < length (tss ! n). in_slot mdl mem (tss ! n) p (slot n p)"
      using mem nt by (simp_all add: holds_upto_def)
    have gd: "tss ! n \<in> good" using good nt by auto
    note keeps = store_tokens_keeps [OF _ gd bs table hold]
    have e: "inv e" and al: "list_all prompt_status sts \<Longrightarrow> d = n" using P z by auto
    from step [unfolded s z z'] obtain status ks where status: "py_nth sts (int d) = Inr status"
      and rest: "(if status = StoreNONE then Inr (d, r, e)
       else bindr (if status = StoreSUFFIX_PREFILL \<or> status = StoreCHUNK_PREFILL then py_nth (am_seq_lens (mi_attn mi)) (int d)
                   else Inr (length toks)) (\<lambda>len.
         if status = StoreDECODE \<and> c = 0 then Inl ZeroDivisionError
         else if status = StoreDECODE \<and> len mod c \<noteq> 0 then Inr (d, r, e)
         else bindr (store_tokens look put c bs (mdl_layers mdl) mem g d ks sid len toks e) (\<lambda>e'.
           Inr (Suc d, Suc r, e')))) = Inr (d', r', e')"
      unfolding store_seq_def prod.case by (simp only: bindr_Inr_iff) blast
    have sin: "status \<in> set sts" using status by (auto simp: py_nth_def Let_def split: if_splits)
    show "?P (Suc n) z'"
    proof (cases "list_all prompt_status sts")
      case True
      with sin have st: "prompt_status status" by (simp add: list_all_iff)
      have "py_nth (am_seq_lens (mi_attn mi)) (int d) = Inr (length toks)"
        using al [OF True] nt toks by (simp add: lens)
      with rest st have "store_tokens look put c bs (mdl_layers mdl) mem g d ks sid (length toks) toks e = Inr e'" "d' = Suc d"
        by (auto simp: prompt_status_def split: if_splits)
      with keeps [OF e] al [OF True] show ?thesis by (simp add: z' toks)
    next
      case False
      with sts(2) sin have st: "decode_status status" by (auto simp: list_all_iff)
      with rest have "e' = e \<or> store_tokens look put c bs (mdl_layers mdl) mem g d ks sid (length toks) toks e = Inr e'"
        by (auto simp: decode_status_def split: if_splits)
      with keeps [OF e] e False show ?thesis by (auto simp: z' toks)
    qed
  qed
  then show ?thesis by simp
qed

end

end
