(* ===== verification/Put_Worker.thy ===== *)
theory Put_Worker
  imports Fair_Engine
begin

text \<open>
  The fair backend with its worker thread, as the vLLM adapter uses it: a put with
  \<open>blocking=False\<close> goes into \<open>put_queue\<close>, and \<open>put_worker\<close> carries the queued puts out later, one after
  the other.  Lookups and retrievals see the puts carried out so far.
\<close>

section \<open>The queue of puts\<close>

text \<open>An item of \<open>put_queue\<close>: client, key, chunk, the keys just retrieved and the lambda.\<close>

type_synonym ('k, 'p) put_item = "int \<times> 'k \<times> 'p kv_tensor \<times> 'k list \<times> real"

record ('k, 'p) queued_backend =
  qb_store :: "('k, 'p) fair_backend"
  qb_queue :: "('k, 'p) put_item list"

definition queue_put ::
  "'k::linorder fair_call \<Rightarrow> 'k \<Rightarrow> 'p kv_tensor \<Rightarrow> ('k, 'p) queued_backend \<Rightarrow> ('k, 'p) queued_backend result" where
  "queue_put a k t s =
     (case call_client a of
        None \<Rightarrow> Inr s
      | Some c \<Rightarrow>
          if c = - 1 then Inr s
          else (let lam = choose_lambda (call_lambda a) (call_type a);
                    s' = s\<lparr>qb_queue := qb_queue s @ [(c, k, t, call_retrieved a, lam)]\<rparr>
                in if call_reports a then Inl AttributeError else Inr s'))"

text \<open>One turn of the worker, with the clock the put reads.  It waits when nothing is queued.\<close>

definition worker_turn :: "real \<Rightarrow> ('k::linorder, 'p) queued_backend \<Rightarrow> ('k, 'p) queued_backend result" where
  "worker_turn now s =
     (case qb_queue s of
        [] \<Rightarrow> Inr s
      | (c, k, t, retrieved, lam) # q \<Rightarrow>
          bindr (fb_put_blocking c k t retrieved lam now (qb_store s)) (\<lambda>b. Inr \<lparr>qb_store = b, qb_queue = q\<rparr>))"

definition worker_turns :: "real list \<Rightarrow> ('k::linorder, 'p) queued_backend engine \<Rightarrow> ('k, 'p) queued_backend engine result" where
  "worker_turns ts e = bindr (foldM (\<lambda>s now. worker_turn now s) (eng_store e) ts) (\<lambda>s. Inr (e\<lparr>eng_store := s\<rparr>))"

section \<open>The cache engine over the queue\<close>

definition queued_contains :: "cache_key \<Rightarrow> (cache_key, 'a blob) queued_backend \<Rightarrow> bool" where
  "queued_contains k s = fb_contains k (qb_store s)"

definition chunk_queue ::
  "int \<Rightarrow> int \<Rightarrow> cache_key fair_call \<Rightarrow> cache_key \<Rightarrow> 'a blob \<Rightarrow> (cache_key, 'a blob) queued_backend
     \<Rightarrow> (cache_key, 'a blob) queued_backend result" where
  "chunk_queue row es a k v = queue_put a k (as_tensor blob_dim2 (blob_numel row) es v)"

definition queued_get ::
  "cache_key fair_call \<Rightarrow> cache_key \<Rightarrow> (cache_key, 'a blob) queued_backend
     \<Rightarrow> ('a blob option \<times> (cache_key, 'a blob) queued_backend) result" where
  "queued_get a k s = bindr (chunk_get a k (qb_store s)) (\<lambda>(r, b). Inr (r, s\<lparr>qb_store := b\<rparr>))"

definition queued_touch ::
  "int option \<times> (nat \<Rightarrow> real) \<Rightarrow> cache_key list \<Rightarrow> (cache_key, 'a blob) queued_backend
     \<Rightarrow> (cache_key, 'a blob) queued_backend result" where
  "queued_touch u ks s = bindr (chunk_touch u ks (qb_store s)) (\<lambda>b. Inr (s\<lparr>qb_store := b\<rparr>))"

definition queued_store ::
  "(int list \<Rightarrow> string) \<Rightarrow> int \<Rightarrow> int \<Rightarrow> (nat \<Rightarrow> cache_key fair_call) \<Rightarrow> int list \<Rightarrow> 'a mat list list \<Rightarrow> bool list option
     \<Rightarrow> bool \<Rightarrow> (cache_key, 'a blob) queued_backend engine \<Rightarrow> (nat \<times> (cache_key, 'a blob) queued_backend engine) result" where
  "queued_store sha row es env = store sha queued_contains (chunk_queue row es) env"

definition queued_retrieve ::
  "(int list \<Rightarrow> string) \<Rightarrow> cache_key fair_call \<Rightarrow> (nat \<Rightarrow> real) \<Rightarrow> int list \<Rightarrow> bool list option
     \<Rightarrow> (cache_key, 'a blob) queued_backend engine \<Rightarrow> ('a retrieval \<times> (cache_key, 'a blob) queued_backend engine) result" where
  "queued_retrieve sha a clock =
     retrieve sha queued_contains queued_get (Some (\<lambda>ks s. get_attribution_info (call_client a) ks (qb_store s)))
       (queued_touch (call_client a, clock)) (\<lambda>_. a)"

definition queued_lookup ::
  "(int list \<Rightarrow> string) \<Rightarrow> int list \<Rightarrow> (cache_key, 'a blob) queued_backend engine \<Rightarrow> nat result" where
  "queued_lookup sha = lookup sha queued_contains"

definition fresh_queued ::
  "pool_metadata \<Rightarrow> (nat \<Rightarrow> 'a blob) \<Rightarrow> nat \<Rightarrow> string \<Rightarrow> int \<Rightarrow> int \<Rightarrow> (cache_key, 'a blob) queued_backend engine result" where
  "fresh_queued md junk c name ws wid =
     bindr (new_fair_backend md junk) (\<lambda>b. Inr (new_engine c ''vllm'' name ws wid \<lparr>qb_store = b, qb_queue = []\<rparr>))"

lemma queue_put_store: "queue_put a k t s = Inr s' \<Longrightarrow> qb_store s' = qb_store s"
  by (auto simp: queue_put_def Let_def split: option.splits if_splits)

lemma queue_put_queue:
  "queue_put a k t s = Inr s' \<Longrightarrow> it \<in> set (qb_queue s') \<Longrightarrow> it \<in> set (qb_queue s) \<or> (\<exists>c rk lam. it = (c, k, t, rk, lam))"
  by (auto simp: queue_put_def Let_def split: option.splits if_splits)

text \<open>Queueing leaves the contents alone, so the queued backend keeps the contract of a chunk store.\<close>

interpretation queued_chunks: chunk_store "\<lambda>s. fb_mem_ok (qb_store s) []"
    "\<lambda>s p. num_tok (as_tensor blob_dim2 (blob_numel row) es p) \<le> pool_chunk_size (fb_pool (qb_store s))" "\<lambda>s. content (qb_store s)"
    queued_contains "chunk_queue row es" queued_get has_client queued_touch
  for row es :: int
proof unfold_locales
  fix s s' :: "(cache_key, 'a blob) queued_backend" and k x :: cache_key and v :: "'a blob" and a r u ks
  show "fb_mem_ok (qb_store s) [] \<Longrightarrow> queued_contains k s = (content (qb_store s) k \<noteq> None)"
    using fair_chunks.contains_stored by (simp add: queued_contains_def)
  { assume "fb_mem_ok (qb_store s) []" "queued_get a k s = Inr (r, s')"
    then show "fb_mem_ok (qb_store s') [] \<and> (\<lambda>p. num_tok (as_tensor blob_dim2 (blob_numel row) es p) \<le> pool_chunk_size (fb_pool (qb_store s')))
        = (\<lambda>p. num_tok (as_tensor blob_dim2 (blob_numel row) es p) \<le> pool_chunk_size (fb_pool (qb_store s)))"
      and "content (qb_store s') x \<in> {None, content (qb_store s) x}" and "r \<in> {None, content (qb_store s) k}"
      by (auto simp: queued_get_def chunk_get_def fb_get_def content_def split: if_splits option.splits) }
  show "\<exists>s'. queued_get a k s = Inr (content (qb_store s) k, s') \<and> content (qb_store s') = content (qb_store s)"
    if "has_client a" "fb_mem_ok (qb_store s) []"
    using fair_chunks.get_total [OF that, of k] by (auto simp: queued_get_def chunk_get_def)
  { assume "fb_mem_ok (qb_store s) []" "queued_touch u ks s = Inr s'"
    then show "fb_mem_ok (qb_store s') [] \<and> (\<lambda>p. num_tok (as_tensor blob_dim2 (blob_numel row) es p) \<le> pool_chunk_size (fb_pool (qb_store s')))
        = (\<lambda>p. num_tok (as_tensor blob_dim2 (blob_numel row) es p) \<le> pool_chunk_size (fb_pool (qb_store s)))
        \<and> content (qb_store s') = content (qb_store s)"
      by (auto simp: queued_touch_def chunk_touch_def update_after_get_law) }
qed (auto simp: chunk_queue_def dest: queue_put_store)

section \<open>Soundness with puts in flight\<close>

text \<open>
  With puts in flight the engine is sound when the chunks stored and the chunks queued are those of the model, and all
  fit the pool.
\<close>

definition item_ok :: "(int list \<Rightarrow> string) \<Rightarrow> 'a kv_model \<Rightarrow> int list set \<Rightarrow> (cache_key, 'a blob) queued_backend engine
     \<Rightarrow> (cache_key, 'a blob) put_item \<Rightarrow> bool" where
  "item_ok sha mdl H e it \<longleftrightarrow> (case it of (c, k, t, rk, lam) \<Rightarrow>
     genuine sha mdl e H k (payload t) \<and> num_tok t \<le> pool_chunk_size (fb_pool (qb_store (eng_store e))))"

definition queued_inv :: "(int list \<Rightarrow> string) \<Rightarrow> 'a kv_model \<Rightarrow> int list set \<Rightarrow> (cache_key, 'a blob) queued_backend engine \<Rightarrow> bool" where
  "queued_inv sha mdl H e \<longleftrightarrow> fb_mem_ok (qb_store (eng_store e)) []
     \<and> (\<forall>k v. content (qb_store (eng_store e)) k = Some v \<longrightarrow> genuine sha mdl e H k v)
     \<and> (\<forall>it \<in> set (qb_queue (eng_store e)). item_ok sha mdl H e it)
     \<and> int (eng_chunk e) \<le> pool_chunk_size (fb_pool (qb_store (eng_store e))) \<and> eng_fmt e = ''vllm''"

lemma queued_inv_sound: "queued_inv sha mdl H e \<Longrightarrow> queued_chunks.sound row es sha mdl e H"
  unfolding queued_inv_def queued_chunks.sound_def queued_chunks.all_stored_def
  by (auto simp: blob_dim2_tokens as_tensor_def)

lemma worker_turn_keeps:
  assumes inv: "queued_inv sha mdl H e" and run: "worker_turn now (eng_store e) = Inr s'"
  shows "queued_inv sha mdl H (e\<lparr>eng_store := s'\<rparr>)"
proof (cases "qb_queue (eng_store e)")
  case Nil
  with run have "s' = eng_store e" by (simp add: worker_turn_def)
  with inv show ?thesis by simp
next
  case (Cons it q)
  obtain c k t rk lam where it: "it = (c, k, t, rk, lam)" by (cases it) auto
  with Cons run obtain b where b: "fb_put_blocking c k t rk lam now (qb_store (eng_store e)) = Inr b"
    and s': "s' = \<lparr>qb_store = b, qb_queue = q\<rparr>" by (auto simp: worker_turn_def)
  have ok: "item_ok sha mdl H e it" using inv Cons by (simp add: queued_inv_def)
  then have g: "genuine sha mdl e H k (payload t)" and n: "num_tok t \<le> pool_chunk_size (fb_pool (qb_store (eng_store e)))"
    by (simp_all add: item_ok_def it)
  have mem: "fb_mem_ok (qb_store (eng_store e)) []" using inv by (simp add: queued_inv_def)
  have law: "fb_mem_ok b []" "content b k \<in> {None, Some (payload t)}"
      "\<And>x. x \<noteq> k \<Longrightarrow> content b x \<in> {None, content (qb_store (eng_store e)) x}"
    using fb_put_blocking_cases [OF mem n, of c k rk lam now] b by auto
  have pool: "pool_chunk_size (fb_pool b) = pool_chunk_size (fb_pool (qb_store (eng_store e)))"
    by (rule fb_put_blocking_chunk_size [OF b])
  have gen: "genuine sha mdl (e\<lparr>eng_store := x\<rparr>) = genuine sha mdl e" for x by (rule genuine_same_meta) simp
  have "genuine sha mdl e H x v" if "content b x = Some v" for x v
  proof (cases "x = k")
    case True
    with law(2) that g show ?thesis by auto
  next
    case False
    with law(3) [OF False] that inv show ?thesis by (auto simp: queued_inv_def)
  qed
  with law(1) pool inv Cons show ?thesis by (auto simp: queued_inv_def item_ok_def gen s')
qed

lemma worker_turns_keep:
  assumes "queued_inv sha mdl H e" "worker_turns ts e = Inr e'"
  shows "queued_inv sha mdl H e' \<and> same_meta e e' \<and> eng_hit e' = eng_hit e \<and> eng_miss e' = eng_miss e"
proof -
  from assms(2) obtain s where s: "foldM (\<lambda>s now. worker_turn now s) (eng_store e) ts = Inr s" and e': "e' = e\<lparr>eng_store := s\<rparr>"
    by (auto simp: worker_turns_def)
  from s have "queued_inv sha mdl H (e\<lparr>eng_store := s\<rparr>)"
  proof (rule foldM_invariant [where P = "\<lambda>s. queued_inv sha mdl H (e\<lparr>eng_store := s\<rparr>)"])
    show "queued_inv sha mdl H (e\<lparr>eng_store := t'\<rparr>)"
      if "now \<in> set ts" "queued_inv sha mdl H (e\<lparr>eng_store := t\<rparr>)" "worker_turn now t = Inr t'" for now t t'
      using worker_turn_keeps [OF that(2), of now t'] that(3) by simp
  qed (simp add: assms(1))
  then show ?thesis by (simp add: e')
qed

lemma queued_store_keeps:
  fixes e :: "(cache_key, 'a blob) queued_backend engine"
  assumes inv: "queued_inv sha mdl H e" and mdl: "model_ok mdl" and skip: "skip \<le> length toks"
    and st: "queued_store sha row es env toks (kv_blob mdl (eng_fmt e) toks skip (length toks))
               (Some (suffix_mask (length toks) skip)) flag e = Inr (n, e')"
  shows "queued_inv sha mdl (insert toks H) e' \<and> same_meta e e'"
proof -
  have fmt: "eng_fmt e = ''vllm''" using inv by (simp add: queued_inv_def)
  then have kf: "known_format (eng_fmt e)" by simp
  from store_genuine_puts [OF mdl kf skip st [unfolded queued_store_def]] obtain kvs s' where
    bp: "batched_put (chunk_queue row es) env kvs (eng_store e) = Inr (n, s')" and e': "e' = e\<lparr>eng_store := s'\<rparr>"
    and gen: "\<forall>(k, v) \<in> set kvs. genuine sha mdl e {toks} k v \<and> blob_tokens (eng_fmt e) v \<le> eng_chunk e" by blast
  let ?pool = "pool_chunk_size (fb_pool (qb_store (eng_store e)))"
  let ?ok = "\<lambda>(c, k, t, rk, lam). genuine sha mdl e (insert toks H) k (payload t) \<and> num_tok t \<le> ?pool"
  let ?P = "\<lambda>(n, s). qb_store s = qb_store (eng_store e) \<and> (\<forall>it \<in> set (qb_queue s). ?ok it)"
  have "?P (n, s')"
    using bp unfolding batched_put_def
  proof (rule foldM_invariant)
    show "?P (0, eng_store e)" using inv by (auto simp: queued_inv_def item_ok_def intro: genuine_mono)
    fix x ms y assume x: "x \<in> set (rev kvs)" and P: "?P ms"
      and step: "(case ms of (n, s) \<Rightarrow> \<lambda>(k, v). bindr (chunk_queue row es (env n) k v s) (\<lambda>s'. Inr (Suc n, s'))) x = Inr y"
    obtain k v where x': "x = (k, v)" by (cases x)
    obtain m s where ms: "ms = (m, s)" by (cases ms)
    from step obtain s1 where eq: "x = (k, v)" "ms = (m, s)" "y = (Suc m, s1)"
      and q: "queue_put (env m) k (as_tensor blob_dim2 (blob_numel row) es v) s = Inr s1"
      unfolding x' ms by (auto simp: chunk_queue_def)
    have kv: "genuine sha mdl e {toks} k v" "blob_tokens ''vllm'' v \<le> eng_chunk e" using gen x eq fmt by auto
    then have "num_tok (as_tensor blob_dim2 (blob_numel row) es v) \<le> ?pool"
      using inv by (simp add: queued_inv_def as_tensor_def blob_dim2_tokens)
    moreover have "genuine sha mdl e (insert toks H) k v" using kv(1) by (rule genuine_mono) simp
    ultimately show "?P y" using P queue_put_store [OF q] queue_put_queue [OF q] by (fastforce simp: eq)
  qed
  moreover have "genuine sha mdl (e\<lparr>eng_store := s'\<rparr>) = genuine sha mdl e" by (rule genuine_same_meta) simp
  ultimately show ?thesis using inv by (auto simp: e' queued_inv_def item_ok_def intro: genuine_mono)
qed

lemma take_queued_same: "take_until_missing queued_contains queued_get env ks s = Inr (kvs, s') \<Longrightarrow> s' = s"
  by (induction ks arbitrary: env kvs)
     (auto simp: get_one_def queued_get_def chunk_get_def split: if_splits option.splits)

lemma retrieve_finish_store: "retrieve_finish a b toks got info e = Inr (r, e') \<Longrightarrow> eng_store e' = eng_store e"
  by (auto simp: retrieve_finish_def Let_def split: if_splits)

lemma queued_retrieve_rest:
  assumes "queued_retrieve sha a clock toks msk e = Inr (r, e')" "fb_mem_ok (qb_store (eng_store e)) []"
  shows "qb_queue (eng_store e') = qb_queue (eng_store e) \<and> fb_pool (qb_store (eng_store e')) = fb_pool (qb_store (eng_store e))"
proof -
  obtain u ks where t: "queued_touch u ks (eng_store e) = Inr (eng_store e')"
    using assms(1) unfolding queued_retrieve_def retrieve_def Let_def
    by (auto dest!: take_queued_same retrieve_finish_store split: if_splits)
  then have "eng_store e' = (eng_store e)\<lparr>qb_store := update_after_get (fst u) (zip ks (map (snd u) [0..<length ks])) (qb_store (eng_store e))\<rparr>"
    by (simp add: queued_touch_def chunk_touch_def)
  with update_after_get_law [OF assms(2)] show ?thesis by simp
qed

lemma queued_retrieve_keeps:
  fixes e :: "(cache_key, 'a blob) queued_backend engine"
  assumes inv: "queued_inv sha mdl H e" and mdl: "model_ok mdl" and skip: "skip \<le> length toks"
    and sha: "sha_ok sha (byte_inputs sha (eng_chunk e) (insert toks H))" and val: "\<forall>ts \<in> insert toks H. valid_tokens ts"
    and rt: "queued_retrieve sha a clock toks (Some (suffix_mask (length toks) skip)) e = Inr (r, e')"
  shows "queued_inv sha mdl H e' \<and> same_meta e e'
     \<and> (\<exists>n. skip + n \<le> length toks \<and> ret_mask r = map (\<lambda>i. skip \<le> i \<and> i < skip + n) [0..<length toks]
          \<and> ret_kv r = (if ret_keys r = [] then [] else kv_blob mdl ''vllm'' toks skip (skip + n)))"
proof -
  have fmt: "eng_fmt e = ''vllm''" using inv by (simp add: queued_inv_def)
  then have kf: "known_format (eng_fmt e)" by simp
  note facts = queued_chunks.retrieve_sound [OF queued_inv_sound [OF inv, of 0 0] mdl kf skip sha val
      rt [unfolded queued_retrieve_def], unfolded fmt]
  have snd: "queued_chunks.sound 0 0 sha mdl e' H" and sm: "same_meta e e'" using facts by blast+
  have fmt': "eng_fmt e' = ''vllm''" "eng_chunk e' = eng_chunk e" using sm fmt by (simp_all add: same_meta_def)
  have gen: "genuine sha mdl e' = genuine sha mdl e" by (rule genuine_same_meta [OF sm])
  from queued_retrieve_rest [OF rt] inv
  have rest: "qb_queue (eng_store e') = qb_queue (eng_store e)" "fb_pool (qb_store (eng_store e')) = fb_pool (qb_store (eng_store e))"
    by (simp_all add: queued_inv_def)
  have "queued_inv sha mdl H e'"
    using snd inv fmt' unfolding queued_inv_def queued_chunks.sound_def queued_chunks.all_stored_def item_ok_def gen rest by simp
  with facts show ?thesis by blast
qed

lemma fresh_queued_inv:
  assumes "fresh_queued md junk c name ws wid = Inr e" "py_nth (kv_shape md) 2 = Inr (int c)"
  shows "queued_inv sha mdl H e \<and> eng_chunk e = c"
proof -
  from assms(1) obtain b where b: "new_fair_backend md junk = Inr b"
    and e: "e = new_engine c ''vllm'' name ws wid \<lparr>qb_store = b, qb_queue = []\<rparr>" by (auto simp: fresh_queued_def)
  from new_fair_backend_ok [OF b] assms(2) show ?thesis
    by (auto simp: e queued_inv_def new_engine_def fb_ok_def content_def)
qed

end
