(* ===== verification/Prefill_Step.thy ===== *)
theory Prefill_Step
  imports Prefill_Batch Put_Worker
begin

text \<open>
  The adapter on the fair engine: the instance of the interface \<open>kv_engine\<close>, and one model step
  with retrieval and storing around it.  The adapter stores with \<open>blocking=False\<close>: a chunk is queued and stored by the
  worker thread some time later.
\<close>

section \<open>The adapter's calls of the fair engine\<close>

text \<open>
  \<open>clocks i n\<close> is the clock the \<open>n\<close>-th chunk of the \<open>i\<close>-th retrieval reads.  \<open>turns i\<close> are the turns the worker
  takes between the call before and the \<open>i\<close>-th retrieval or store, with the clocks they read: it may lag behind or catch up in any
  way.
\<close>

definition client_call :: "int \<Rightarrow> string \<Rightarrow> bool \<Rightarrow> cache_key list \<Rightarrow> cache_key fair_call" where
  "client_call c ty reports keys =
     \<lparr>call_client = Some c, call_type = ty, call_reports = reports, call_retrieved = keys, call_lambda = None, call_time = 0\<rparr>"

definition adapter_retrieve ::
  "(int list \<Rightarrow> string) \<Rightarrow> (nat \<Rightarrow> real list) \<Rightarrow> (nat \<Rightarrow> nat \<Rightarrow> real) \<Rightarrow> nat \<Rightarrow> int \<Rightarrow> int list \<Rightarrow> bool list
     \<Rightarrow> (cache_key, 'a blob) queued_backend engine \<Rightarrow> ('a retrieval \<times> (cache_key, 'a blob) queued_backend engine) result" where
  "adapter_retrieve sha turns clocks i c toks msk e =
     bindr (worker_turns (turns i) e) (\<lambda>e'.
       queued_retrieve sha (client_call c '''' False []) (clocks i) toks (Some msk) e')"

definition adapter_store ::
  "(int list \<Rightarrow> string) \<Rightarrow> int \<Rightarrow> int \<Rightarrow> bool \<Rightarrow> (nat \<Rightarrow> real list) \<Rightarrow> nat \<Rightarrow> int \<Rightarrow> string \<Rightarrow> cache_key list
     \<Rightarrow> int list \<Rightarrow> 'a blob \<Rightarrow> bool list \<Rightarrow> (cache_key, 'a blob) queued_backend engine
     \<Rightarrow> (nat \<times> (cache_key, 'a blob) queued_backend engine) result" where
  "adapter_store sha row es reports turns i c ty keys toks kv msk e =
     bindr (worker_turns (turns i) e) (\<lambda>e'.
       queued_store sha row es (\<lambda>_. client_call c ty reports keys) toks kv (Some msk) True e')"

definition serving_inv ::
  "(int list \<Rightarrow> string) \<Rightarrow> 'a kv_model \<Rightarrow> int list set \<Rightarrow> (cache_key, 'a blob) queued_backend engine \<Rightarrow> bool" where
  "serving_inv sha mdl U e \<longleftrightarrow> queued_inv sha mdl U e \<and> model_ok mdl \<and> (\<forall>ts \<in> U. valid_tokens ts)
     \<and> sha_ok sha (byte_inputs sha (eng_chunk e) U)"

lemma retrieve_no_keys:
  assumes "retrieve sha contains get attr upd env toks msk e = Inr (r, e')" "ret_keys r = []"
  shows "ret_mask r = replicate (length toks) False"
  using assms by (auto simp: retrieve_def retrieve_finish_def Let_def split: if_splits)

lemma count_true_none [simp]: "count_true (replicate n False) = 0"
  by (simp add: count_true_def)

lemma serving_inv_same:
  assumes "serving_inv sha mdl U e" "queued_inv sha mdl U e'" "same_meta e e'"
  shows "serving_inv sha mdl U e'"
  using assms by (simp add: serving_inv_def same_meta_def)

lemma turns_serving:
  assumes "serving_inv sha mdl U e" "worker_turns ts e = Inr e'"
  shows "serving_inv sha mdl U e'"
  using worker_turns_keep [OF _ assms(2)] assms(1) serving_inv_same [OF assms(1)] by (auto simp: serving_inv_def)

interpretation queued_kv: kv_engine mdl U "serving_inv sha mdl U" "adapter_retrieve sha turns clocks" "adapter_store sha row es reports turns'"
  for mdl :: "'a kv_model" and U sha turns clocks row es reports turns'
proof
  fix e :: "(cache_key, 'a blob) queued_backend engine" and toks skip i c r e'
  assume inv: "serving_inv sha mdl U e" and U: "toks \<in> U" and skip: "skip \<le> length toks"
    and rt: "adapter_retrieve sha turns clocks i c toks (suffix_mask (length toks) skip) e = Inr (r, e')"
  from rt obtain e1 where e1: "worker_turns (turns i) e = Inr e1" and
    fr: "queued_retrieve sha (client_call c '''' False []) (clocks i) toks (Some (suffix_mask (length toks) skip)) e1 = Inr (r, e')"
    by (auto simp: adapter_retrieve_def)
  note inv1 = turns_serving [OF inv e1]
  from inv1 have f: "queued_inv sha mdl U e1" "model_ok mdl" "\<forall>ts \<in> insert toks U. valid_tokens ts"
      "sha_ok sha (byte_inputs sha (eng_chunk e1) (insert toks U))"
    using U by (auto simp: serving_inv_def insert_absorb)
  from queued_retrieve_keeps [OF f(1,2) skip f(4,3) fr] obtain n where
    keep: "queued_inv sha mdl U e'" "same_meta e1 e'" and n: "skip + n \<le> length toks"
      "ret_mask r = map (\<lambda>i. skip \<le> i \<and> i < skip + n) [0..<length toks]"
      "ret_kv r = (if ret_keys r = [] then [] else kv_blob mdl ''vllm'' toks skip (skip + n))" by blast
  have ct: "count_true (ret_mask r) = n" using n(1,2) count_true_window by simp
  have "\<exists>n. skip + n \<le> length toks \<and> count_true (ret_mask r) = n
        \<and> (n \<noteq> 0 \<longrightarrow> ret_kv r = kv_blob mdl ''vllm'' toks skip (skip + n))"
  proof (cases "ret_keys r = []")
    case True
    with retrieve_no_keys [OF fr [unfolded queued_retrieve_def]] ct have "n = 0" by simp
    with n(1) ct show ?thesis by auto
  next
    case False
    with n ct show ?thesis by auto
  qed
  with serving_inv_same [OF inv1 keep] show "serving_inv sha mdl U e' \<and> (\<exists>n. skip + n \<le> length toks \<and> count_true (ret_mask r) = n
        \<and> (n \<noteq> 0 \<longrightarrow> ret_kv r = kv_blob mdl ''vllm'' toks skip (skip + n)))" ..
next
  fix e :: "(cache_key, 'a blob) queued_backend engine" and toks skip i c ty keys n e'
  assume inv: "serving_inv sha mdl U e" and U: "toks \<in> U" and skip: "skip \<le> length toks"
    and st: "adapter_store sha row es reports turns' i c ty keys toks (kv_blob mdl ''vllm'' toks skip (length toks))
               (suffix_mask (length toks) skip) e = Inr (n, e')"
  from st obtain e1 where e1: "worker_turns (turns' i) e = Inr e1" and
    fs: "queued_store sha row es (\<lambda>_. client_call c ty reports keys) toks (kv_blob mdl ''vllm'' toks skip (length toks))
           (Some (suffix_mask (length toks) skip)) True e1 = Inr (n, e')"
    by (auto simp: adapter_store_def)
  note inv1 = turns_serving [OF inv e1]
  then have q: "queued_inv sha mdl U e1" "model_ok mdl" and fmt: "eng_fmt e1 = ''vllm''"
    by (simp_all add: serving_inv_def queued_inv_def)
  have "insert toks U = U" using U by (simp add: insert_absorb)
  with queued_store_keeps [OF q skip fs [folded fmt]] serving_inv_same [OF inv1] show "serving_inv sha mdl U e'" by simp
qed

section \<open>Model steps\<close>

text \<open>
  One call of the model runner for a batch of prompts: the input, the paged memory, and what they
  are about, the forward pass of the model, the clocks the engine reads and the turns of the worker.  \<open>computes\<close> is what vLLM's models do: asked for
  the positions from \<open>ds ! i\<close> on, with all earlier ones in the memory, the forward pass leaves all
  of them in it and writes no other slot.
\<close>

record 'a prefill_step =
  ps_input :: model_input
  ps_mem :: "'a blob"
  ps_slot :: "nat \<Rightarrow> nat \<Rightarrow> nat"
  ps_tokens :: "int list list"
  ps_cached :: "nat list"
  ps_model :: "model_input \<Rightarrow> 'a blob \<Rightarrow> 'a blob"
  ps_clocks :: "nat \<Rightarrow> nat \<Rightarrow> real"
  ps_turns :: "nat \<Rightarrow> real list"
  ps_store_turns :: "nat \<Rightarrow> real list"

definition untouched :: "'a kv_model \<Rightarrow> (nat \<Rightarrow> nat \<Rightarrow> nat) \<Rightarrow> int list list \<Rightarrow> nat list \<Rightarrow> 'a blob \<Rightarrow> 'a blob \<Rightarrow> bool" where
  "untouched mdl slot tss cs mem mem' \<longleftrightarrow>
     (\<forall>s. s \<notin> (\<lambda>(i, p). slot i p) ` batch_cells tss cs \<longrightarrow> same_slot (mdl_layers mdl) mem mem' s)"

definition computes :: "'a kv_model \<Rightarrow> nat \<Rightarrow> 'a prefill_step \<Rightarrow> bool" where
  "computes mdl N s \<longleftrightarrow>
     (\<forall>mi ds mem. asks_for mi (ps_slot s) (ps_tokens s) ds \<and> holds_upto mdl N (ps_slot s) (ps_tokens s) ds mem \<longrightarrow>
        holds_upto mdl N (ps_slot s) (ps_tokens s) (map length (ps_tokens s)) (ps_model s mi mem)
        \<and> untouched mdl (ps_slot s) (ps_tokens s) ds mem (ps_model s mi mem))"

text \<open>
  A step vLLM can make: the input asks for what is not cached by vLLM itself, the memory holds the
  cached prefix in slots the batch does not write, and the slots to write are distinct.
\<close>

definition step_ok :: "'a kv_model \<Rightarrow> int \<Rightarrow> nat \<Rightarrow> int list set \<Rightarrow> 'a prefill_step \<Rightarrow> bool" where
  "step_ok mdl bs N U s \<longleftrightarrow>
     asks_for (ps_input s) (ps_slot s) (ps_tokens s) (ps_cached s)
     \<and> slots_ok N (ps_slot s) (ps_tokens s) (ps_cached s)
     \<and> prefill_batch bs N (ps_slot s) (ps_tokens s) (ps_input s)
     \<and> set (ps_tokens s) \<subseteq> U
     \<and> holds_upto mdl N (ps_slot s) (ps_tokens s) (ps_cached s) (ps_mem s)
     \<and> (\<forall>i < length (ps_tokens s). \<forall>p < ps_cached s ! i.
          ps_slot s i p \<notin> (\<lambda>(i, p). ps_slot s i p) ` batch_cells (ps_tokens s) (ps_cached s))
     \<and> computes mdl N s"

definition adapter_calls ::
  "(int list \<Rightarrow> string) \<Rightarrow> int \<Rightarrow> int \<Rightarrow> bool \<Rightarrow> nat \<Rightarrow> bool \<Rightarrow> int \<Rightarrow> nat \<Rightarrow> 'a prefill_step
     \<Rightarrow> ('a, (cache_key, 'a blob) queued_backend engine) lmc_calls" where
  "adapter_calls sha row es reports c save_decode bs layers s =
     \<lparr>lc_retrieve = adapter_retrieve sha (ps_turns s) (ps_clocks s), lc_lookup = queued_lookup sha,
      lc_store = adapter_store sha row es reports (ps_store_turns s), lc_chunk_size = c, lc_blending = False,
      lc_save_decode = save_decode, lc_block_size = bs, lc_layers = layers\<rparr>"

definition run_step ::
  "(int list \<Rightarrow> string) \<Rightarrow> int \<Rightarrow> int \<Rightarrow> bool \<Rightarrow> nat \<Rightarrow> bool \<Rightarrow> int \<Rightarrow> nat
     \<Rightarrow> (cache_key, 'a blob) queued_backend engine \<Rightarrow> 'a prefill_step
     \<Rightarrow> ('a, (cache_key, 'a blob) queued_backend engine) retrieve_outcome result" where
  "run_step sha row es reports c save_decode bs layers e s =
     new_execute_model (adapter_calls sha row es reports c save_decode bs layers s) (ps_model s) (ps_input s) (ps_mem s) e"

definition run_steps ::
  "(int list \<Rightarrow> string) \<Rightarrow> int \<Rightarrow> int \<Rightarrow> bool \<Rightarrow> nat \<Rightarrow> bool \<Rightarrow> int \<Rightarrow> nat
     \<Rightarrow> (cache_key, 'a blob) queued_backend engine \<Rightarrow> 'a prefill_step list \<Rightarrow> (cache_key, 'a blob) queued_backend engine result" where
  "run_steps sha row es reports c save_decode bs layers =
     foldM (\<lambda>e s. bindr (run_step sha row es reports c save_decode bs layers e s) (\<lambda>ro. Inr (ro_engine ro)))"

lemma batch_cells_mono:
  assumes "\<forall>i < length tss. cs ! i \<le> ds ! i"
  shows "batch_cells tss ds \<subseteq> batch_cells tss cs"
  using assms by (force simp: batch_cells_def)

lemma untouched_mono:
  "batch_cells tss ds \<subseteq> batch_cells tss cs \<Longrightarrow> untouched mdl slot tss ds mem mem' \<Longrightarrow> untouched mdl slot tss cs mem mem'"
  unfolding untouched_def by blast

lemma untouched_trans:
  "untouched mdl slot tss cs a b \<Longrightarrow> untouched mdl slot tss cs b c \<Longrightarrow> untouched mdl slot tss cs a c"
  unfolding untouched_def using same_slot_trans by blast

lemma memory_for_holds:
  assumes "memory_for mdl N slot tss cs mem ds mem'" "holds_upto mdl N slot tss cs mem" "length ds = length tss"
    and "\<forall>i < length tss. \<forall>p < cs ! i. slot i p \<notin> (\<lambda>(i, p). slot i p) ` batch_cells tss cs"
  shows "holds_upto mdl N slot tss ds mem' \<and> untouched mdl slot tss cs mem mem'"
proof -
  have "in_slot mdl mem' (tss ! i) p (slot i p)" if "i < length tss" "p < ds ! i" for i p
  proof (cases "p < cs ! i")
    case True
    with assms(1,4) that have "same_slot (mdl_layers mdl) mem mem' (slot i p)" by (simp add: memory_for_def)
    from in_slot_same [OF this] assms(2) True that(1) show ?thesis by (simp add: holds_upto_def)
  next
    case False
    with assms(1,3) that show ?thesis by (simp add: memory_for_def)
  qed
  with assms(1) show ?thesis by (simp add: holds_upto_def untouched_def memory_for_def)
qed

text \<open>
  Which status a batch gets: no batch that asks for something is taken for a chunk of a prefill.
\<close>

lemma batch_status:
  assumes "lmcache_should_retrieve has mem mi = Inr status" "asks_for mi slot tss cs"
  shows "status = RetrieveNONE \<or> status = RetrievePREFILL"
proof -
  have "sm_selected sm \<noteq> [] \<or> length (am_seq_lens (mi_attn mi)) \<noteq> 1" if "mi_sampling mi = Some sm" for sm
  proof (cases "tss = []")
    case True
    then show ?thesis using assms(2) by (simp add: asks_for_def)
  next
    case False
    have "length (sm_selected sm) = length tss" using assms(2) that by (simp add: asks_for_def)
    with False show ?thesis by auto
  qed
  with assms(1) show ?thesis
    by (auto simp: lmcache_should_retrieve_def split: option.splits if_splits)
qed

lemma step_transparent:
  fixes e :: "(cache_key, 'a blob) queued_backend engine"
  assumes inv: "serving_inv sha mdl U e" and ok: "step_ok mdl bs N U s"
    and run: "run_step sha row es reports c sd bs (mdl_layers mdl) e s = Inr ro"
  shows "holds_upto mdl N (ps_slot s) (ps_tokens s) (map length (ps_tokens s)) (ro_mem ro)
     \<and> untouched mdl (ps_slot s) (ps_tokens s) (ps_cached s) (ps_mem s) (ro_mem ro) \<and> serving_inv sha mdl U (ro_engine ro)"
proof -
  let ?slot = "ps_slot s" and ?tss = "ps_tokens s" and ?cs = "ps_cached s" and ?mem = "ps_mem s" and ?mi = "ps_input s"
  let ?L = "mdl_layers mdl"
  have asks: "asks_for ?mi ?slot ?tss ?cs" and slots: "slots_ok N ?slot ?tss ?cs" and batch: "prefill_batch bs N ?slot ?tss ?mi"
    and good: "set ?tss \<subseteq> U" and hold: "holds_upto mdl N ?slot ?tss ?cs ?mem" and comp: "computes mdl N s"
    and pre: "\<forall>i < length ?tss. \<forall>p < ?cs ! i. ?slot i p \<notin> (\<lambda>(i, p). ?slot i p) ` batch_cells ?tss ?cs"
    using ok by (simp_all add: step_ok_def)
  from run obtain status ro1 where status: "lmcache_should_retrieve True (Some ?mem) ?mi = Inr status"
    and ro1: "(if status = RetrieveNONE then Inr (no_retrieval ?mi ?mem e)
            else lmcache_retrieve_kv (adapter_retrieve sha (ps_turns s) (ps_clocks s)) False ?L status ?mi ?mem e) = Inr ro1"
    and rest: "(if ro_skip ro1 then Inr ro1
       else (let mem' = ps_model s (ro_input ro1) (ro_mem ro1) in
         bindr (lmcache_should_store (Some c) sd (Some mem') (ro_input ro1)) (\<lambda>statuses.
           if list_ex (\<lambda>s. s \<noteq> StoreNONE) statuses then
             bindr (lmcache_store_kv (queued_lookup sha) (adapter_store sha row es reports (ps_store_turns s)) c bs ?L
                      (ro_input ro1) mem' statuses (ro_keys ro1) (ro_engine ro1)) (\<lambda>e'.
               Inr (ro1\<lparr>ro_mem := mem', ro_engine := e'\<rparr>))
           else Inr (ro1\<lparr>ro_mem := mem'\<rparr>)))) = Inr ro"
    unfolding run_step_def new_execute_model_def adapter_calls_def lmc_calls.select_convs by (simp only: bindr_Inr_iff) blast
  have pg: "paged ?L N ?mem" using hold by (simp add: holds_upto_def)
  have "\<exists>ds. asks_for (ro_input ro1) ?slot ?tss ds \<and> (\<forall>i < length ?tss. ?cs ! i \<le> ds ! i)
     \<and> memory_for mdl N ?slot ?tss ?cs ?mem ds (ro_mem ro1) \<and> serving_inv sha mdl U (ro_engine ro1) \<and> \<not> ro_skip ro1
     \<and> prefill_batch bs N ?slot ?tss (ro_input ro1)"
  proof (cases "status = RetrieveNONE")
    case True
    with ro1 have r1: "ro1 = no_retrieval ?mi ?mem e" by simp
    have "memory_for mdl N ?slot ?tss ?cs ?mem ?cs ?mem" using pg by (auto simp: memory_for_def)
    with asks inv batch show ?thesis by (intro exI [of _ ?cs]) (simp add: r1 no_retrieval_def)
  next
    case False
    with batch_status [OF status asks] ro1
    have "lmcache_retrieve_kv (adapter_retrieve sha (ps_turns s) (ps_clocks s)) False ?L RetrievePREFILL ?mi ?mem e = Inr ro1" by auto
    from queued_kv.retrieve_prefill [OF inv asks slots batch good pg this] show ?thesis by blast
  qed
  then obtain ds where ds: "asks_for (ro_input ro1) ?slot ?tss ds" "\<forall>i < length ?tss. ?cs ! i \<le> ds ! i"
    and mf: "memory_for mdl N ?slot ?tss ?cs ?mem ds (ro_mem ro1)" and inv1: "serving_inv sha mdl U (ro_engine ro1)"
    and skip: "\<not> ro_skip ro1" and batch1: "prefill_batch bs N ?slot ?tss (ro_input ro1)" by blast
  have "length ds = length ?tss" using ds(1) by (simp add: asks_for_def)
  from memory_for_holds [OF mf hold this pre]
  have h1: "holds_upto mdl N ?slot ?tss ds (ro_mem ro1)" and u1: "untouched mdl ?slot ?tss ?cs ?mem (ro_mem ro1)" by blast+
  define mem' where "mem' = ps_model s (ro_input ro1) (ro_mem ro1)"
  have full: "holds_upto mdl N ?slot ?tss (map length ?tss) mem'" and u2: "untouched mdl ?slot ?tss ds (ro_mem ro1) mem'"
    using comp ds(1) h1 unfolding computes_def mem'_def by blast+
  have u: "untouched mdl ?slot ?tss ?cs ?mem mem'"
    using untouched_trans [OF u1 untouched_mono [OF batch_cells_mono [OF ds(2)] u2]] .
  from rest skip obtain sts where sts: "lmcache_should_store (Some c) sd (Some mem') (ro_input ro1) = Inr sts"
    and st: "(if list_ex (\<lambda>s. s \<noteq> StoreNONE) sts then
             bindr (lmcache_store_kv (queued_lookup sha) (adapter_store sha row es reports (ps_store_turns s)) c bs ?L
                      (ro_input ro1) mem' sts (ro_keys ro1) (ro_engine ro1)) (\<lambda>e'.
               Inr (ro1\<lparr>ro_mem := mem', ro_engine := e'\<rparr>))
           else Inr (ro1\<lparr>ro_mem := mem'\<rparr>)) = Inr ro"
    unfolding Let_def mem'_def by (auto simp only: if_False bindr_Inr_iff)
  have lens: "am_seq_lens (mi_attn (ro_input ro1)) = map length ?tss" using ds(1) by (simp add: asks_for_def)
  have nb: "length (batch_seqs (ro_input ro1)) = length ?tss" by (rule batch_length [OF batch1])
  have samp: "\<forall>g \<in> set (mi_groups (ro_input ro1)). gm_do_sample g" using batch1 by (simp add: prefill_batch_def)
  from should_store_statuses [OF sts samp] lens nb
  have ss: "length sts = length ?tss" "list_all prompt_status sts \<or> list_all decode_status sts"
    by simp_all
  have mem_ro: "ro_mem ro = mem'" using st by (auto split: if_splits)
  have "serving_inv sha mdl U (ro_engine ro)"
  proof (cases "list_ex (\<lambda>s. s \<noteq> StoreNONE) sts")
    case True
    with st obtain e' where "lmcache_store_kv (queued_lookup sha) (adapter_store sha row es reports (ps_store_turns s)) c bs ?L
                      (ro_input ro1) mem' sts (ro_keys ro1) (ro_engine ro1) = Inr e'" and e': "ro_engine ro = e'"
      by auto
    from queued_kv.store_batch_keeps [OF inv1 batch1 good lens ss full this(1)] e' show ?thesis by simp
  next
    case False
    with st inv1 show ?thesis by auto
  qed
  with full u show ?thesis by (simp add: mem_ro)
qed

lemma steps_keep:
  assumes "serving_inv sha mdl U e0" "\<forall>s \<in> set steps. step_ok mdl bs N U s"
    and "run_steps sha row es reports c sd bs (mdl_layers mdl) e0 steps = Inr e"
  shows "serving_inv sha mdl U e"
  using assms(3) unfolding run_steps_def
proof (rule foldM_invariant [where P = "serving_inv sha mdl U"])
  show "serving_inv sha mdl U e0" by (rule assms(1))
  fix s x t assume "x \<in> set steps" "serving_inv sha mdl U s"
    "bindr (run_step sha row es reports c sd bs (mdl_layers mdl) s x) (\<lambda>ro. Inr (ro_engine ro)) = Inr t"
  then show "serving_inv sha mdl U t" using step_transparent assms(2) by fastforce
qed

lemma fresh_inv:
  assumes "fresh_queued md junk c name ws wid = Inr e" "py_nth (kv_shape md) 2 = Inr (int c)" "model_ok mdl"
    and "\<forall>ts \<in> U. valid_tokens ts" "sha_ok sha (byte_inputs sha c U)"
  shows "serving_inv sha mdl U e"
proof -
  from fresh_queued_inv [OF assms(1,2)] have "queued_inv sha mdl U e" "eng_chunk e = c" by blast+
  with assms(3-5) show ?thesis by (simp add: serving_inv_def)
qed

text \<open>
  C1.  Caching is invisible to the model.  Start with an empty fair engine and let any number of
  prompt batches run, by any clients at any times, each looking up, computing and queueing chunks, which the worker
  thread stores at any time between two calls of the engine, with digests that do not collide.  After a further batch the paged memory holds the model's KV cache for
  every position of every sequence of the batch, retrieved or computed, and no slot outside
  the batch's has changed.
\<close>

theorem serving_is_transparent:
  assumes "fresh_queued md junk c name ws wid = Inr e0" "py_nth (kv_shape md) 2 = Inr (int c)" "model_ok mdl"
    and "\<forall>ts \<in> U. valid_tokens ts" "sha_ok sha (byte_inputs sha c U)"
    and "\<forall>s \<in> set steps. step_ok mdl bs N U s" "step_ok mdl bs N U s"
    and "run_steps sha row es reports c sd bs (mdl_layers mdl) e0 steps = Inr e"
    and "run_step sha row es reports c sd bs (mdl_layers mdl) e s = Inr ro"
  shows "holds_upto mdl N (ps_slot s) (ps_tokens s) (map length (ps_tokens s)) (ro_mem ro)
     \<and> untouched mdl (ps_slot s) (ps_tokens s) (ps_cached s) (ps_mem s) (ro_mem ro)"
  using step_transparent [OF steps_keep [OF fresh_inv [OF assms(1-5)] assms(6,8)] assms(7,9)] by blast

text \<open>
  C2.  The retrieval of a prompt batch splits the work exactly.  For every sequence \<open>i\<close> there is a
  position \<open>ds ! i\<close>, short of the last token, so that the positions from what vLLM had cached up
  to it were put into their slots as the model computes them, the rebuilt input asks for
  precisely the tokens, positions and slots from it on, and no other slot has changed.
\<close>

theorem rebuilt_input_asks_for_missing:
  fixes e :: "(cache_key, 'a blob) queued_backend engine"
  assumes "serving_inv sha mdl U e" "asks_for mi slot tss cs" "slots_ok N slot tss cs" "prefill_batch bs N slot tss mi"
    and "set tss \<subseteq> U" "paged (mdl_layers mdl) N mem"
    and "lmcache_retrieve_kv (adapter_retrieve sha turns clocks) False (mdl_layers mdl) RetrievePREFILL mi mem e = Inr ro"
  shows "\<exists>ds. asks_for (ro_input ro) slot tss ds
     \<and> (\<forall>i < length tss. cs ! i \<le> ds ! i \<and> (\<forall>p. cs ! i \<le> p \<and> p < ds ! i \<longrightarrow> in_slot mdl (ro_mem ro) (tss ! i) p (slot i p)))
     \<and> untouched mdl slot tss cs mem (ro_mem ro) \<and> \<not> ro_skip ro"
proof -
  from queued_kv.retrieve_prefill [OF assms] obtain ds where
    ds: "asks_for (ro_input ro) slot tss ds" "\<forall>i < length tss. cs ! i \<le> ds ! i" "\<not> ro_skip ro"
      and mf: "memory_for mdl N slot tss cs mem ds (ro_mem ro)" by blast
  have "length ds = length tss" using ds(1) by (simp add: asks_for_def)
  with mf have "\<forall>i < length tss. \<forall>p. cs ! i \<le> p \<and> p < ds ! i \<longrightarrow> in_slot mdl (ro_mem ro) (tss ! i) p (slot i p)"
    "untouched mdl slot tss cs mem (ro_mem ro)"
    by (simp_all add: memory_for_def untouched_def)
  with ds show ?thesis by blast
qed

section \<open>A served prompt\<close>

definition demo_group_meta :: "int list \<Rightarrow> int list \<Rightarrow> group_meta" where
  "demo_group_meta toks table =
     \<lparr>gm_request_id = ''chat-1'', gm_is_prompt = True, gm_client = Some 7, gm_preempted = False, gm_do_sample = True,
      gm_seq_data = [(0, toks)], gm_block_tables = [(0, table)]\<rparr>"

definition demo_input :: "int list \<Rightarrow> model_input" where
  "demo_input toks = (let n = length toks; pos = map int [0..<n] in
     \<lparr>mi_input_tokens = toks, mi_input_positions = pos, mi_query_lens = [int n],
      mi_attn = \<lparr>am_num_prefills = 1, am_num_prefill_tokens = int n, am_slot_mapping = pos, am_seq_lens = [n],
                 am_has_prefill = True, am_max_query_len = int n, am_block_tables = [], am_query_start_loc = [0, int n],
                 am_context_lens = [0], am_blended_layers = None\<rparr>,
      mi_seq_ids = [(''chat-1'', [0])],
      mi_sampling = Some \<lparr>sm_query_lens = Some [int n], sm_selected = [int n - 1]\<rparr>,
      mi_groups = [demo_group_meta toks pos]\<rparr>)"

definition demo_step :: "int prefill_step" where
  "demo_step =
     \<lparr>ps_input = demo_input [5], ps_mem = [[[[0]], [[0]]]], ps_slot = (\<lambda>_ p. p), ps_tokens = [[5]], ps_cached = [0],
      ps_model = (\<lambda>_ _. demo_chunk), ps_clocks = (\<lambda>_ _. 1), ps_turns = (\<lambda>_. [0]), ps_store_turns = (\<lambda>_. [])\<rparr>"

lemma demo_asks: "asks_for (demo_input toks) (\<lambda>_ p. p) [toks] [0]" if "toks \<noteq> []"
  using that by (simp add: asks_for_def demo_input_def Let_def query_start_def map_nth)

lemma demo_slots: "slots_ok n (\<lambda>_ p. p) [toks] [0]" if "length toks \<le> n"
  using that by (auto simp: slots_ok_def batch_cells_def inj_on_def)

lemma demo_batch: "prefill_batch 1 n (\<lambda>_ p. p) [toks] (demo_input toks)" if "length toks \<le> n"
  using that
  by (auto simp: prefill_batch_def demo_input_def batch_seqs_def demo_group_meta_def table_slot_def Let_def)

lemma demo_computes: "computes demo_model 1 demo_step"
proof -
  have "holds_upto demo_model 1 (\<lambda>_ p. p) [[5]] [1] demo_chunk"
    by (simp add: holds_upto_def paged_def in_slot_def demo_chunk_def demo_model_def less_2_cases_iff)
  moreover have "untouched demo_model (\<lambda>_ p. p) [[5]] ds mem demo_chunk"
    if a: "asks_for mi (\<lambda>_ p. p) [[5]] ds" and h: "holds_upto demo_model 1 (\<lambda>_ p. p) [[5]] ds mem" for mi ds mem
  proof -
    from a have ds: "ds = [0]" by (cases ds) (auto simp: asks_for_def)
    have one: "mem ! 0 ! j ! Suc q = demo_chunk ! 0 ! j ! Suc q" if "j < 2" for j q
    proof -
      have "length (mem ! 0 ! j) = 1" using h that by (simp add: holds_upto_def paged_def demo_model_def)
      then obtain x where "mem ! 0 ! j = [x]" by (metis One_nat_def length_0_conv length_Suc_conv)
      then show ?thesis using that by (auto simp: demo_chunk_def less_2_cases_iff)
    qed
    have "same_slot 1 mem demo_chunk s" if "s \<noteq> 0" for s
      using one [of _ "s - 1"] that by (cases s) (simp_all add: same_slot_def)
    moreover have "s \<noteq> 0" if "s \<notin> (\<lambda>(i, p). p) ` batch_cells [[5 :: int]] [0]" for s :: nat
      using that by (force simp: batch_cells_def)
    ultimately show ?thesis by (simp add: untouched_def ds demo_model_def)
  qed
  ultimately show ?thesis unfolding computes_def demo_step_def by simp blast
qed

lemma demo_step_ok: "[5] \<in> U \<Longrightarrow> step_ok demo_model 1 1 U demo_step"
  using demo_computes demo_asks [of "[5]"] demo_slots [of "[5]" 1] demo_batch [of "[5]" 1]
  by (simp add: step_ok_def demo_step_def holds_upto_def paged_def demo_model_def less_2_cases_iff)

text \<open>
  The engine at the start, after the first batch, whose chunk is still queued, and when the worker has stored it.
\<close>

definition demo_queued :: "(cache_key, int blob) queued_backend engine" where
  "demo_queued = new_engine 1 ''vllm'' ''m'' 1 0 \<lparr>qb_store = eng_store demo_engine, qb_queue = []\<rparr>"

definition demo_item :: "(cache_key, int blob) put_item" where
  "demo_item = (7, demo_key, as_tensor blob_dim2 (blob_numel 1) 1 demo_chunk, [], lambda_low)"

definition demo_after :: "(cache_key, int blob) queued_backend engine" where
  "demo_after = demo_queued\<lparr>eng_miss := 1, eng_store := \<lparr>qb_store = eng_store demo_engine, qb_queue = [demo_item]\<rparr>\<rparr>"

definition demo_later :: "(cache_key, int blob) queued_backend engine" where
  "demo_later = demo_queued\<lparr>eng_miss := 1, eng_store := \<lparr>qb_store = demo_stored, qb_queue = []\<rparr>\<rparr>"

lemma demo_queued_fresh: "fresh_queued demo_metadata (\<lambda>_. []) 1 ''m'' 1 0 = Inr demo_queued"
proof -
  obtain b where b: "new_fair_backend demo_metadata (\<lambda>_. []) = Inr b" "demo_engine = new_engine 1 ''vllm'' ''m'' 1 0 b"
    using demo_engine_fresh by (auto simp: fresh_engine_def)
  have "eng_store demo_engine = b" using arg_cong [OF b(2), of eng_store] by (simp add: new_engine_def)
  with b(1) show ?thesis by (simp add: fresh_queued_def demo_queued_def)
qed

lemma demo_queued_simps:
  "eng_chunk demo_queued = 1" "eng_fmt demo_queued = ''vllm''" "eng_hit demo_queued = 0" "eng_miss demo_queued = 0"
  "eng_store demo_queued = \<lparr>qb_store = eng_store demo_engine, qb_queue = []\<rparr>"
  by (simp_all add: demo_queued_def new_engine_def)

lemma demo_key_queued: "make_key demo_queued (replicate 64 CHR ''a'') = demo_key"
  by (simp add: make_key_def demo_key_def demo_queued_def demo_engine_def new_engine_def)

lemma demo_idle: "worker_turns [0] demo_queued = Inr demo_queued"
  by (simp add: worker_turns_def worker_turn_def demo_queued_def new_engine_def)

lemma demo_caught_up: "worker_turns [0] demo_after = Inr demo_later"
proof -
  have "fb_put_blocking 7 demo_key (as_tensor blob_dim2 (blob_numel 1) 1 demo_chunk) [] lambda_low 0 (eng_store demo_engine) = Inr demo_stored"
    using demo_put by (simp add: chunk_put_def fair_put_def fb_put_def demo_call_def choose_lambda_def)
  then show ?thesis
    by (simp add: worker_turns_def worker_turn_def demo_after_def demo_later_def demo_item_def demo_queued_def new_engine_def
        del: bindr_Inr_iff)
qed

lemma demo_missed:
  "adapter_retrieve demo_sha (\<lambda>_. [0]) (\<lambda>_ _. 1) i 7 [5] [True] demo_queued =
     Inr (\<lparr>ret_kv = [], ret_mask = [False], ret_keys = [], ret_attribution = []\<rparr>, demo_queued\<lparr>eng_miss := 1\<rparr>)"
proof -
  have "queued_contains (make_key demo_queued h) (eng_store demo_queued) = False" for h
    by (simp add: queued_contains_def fb_contains_def dhas_def demo_queued_simps demo_engine_simps)
  then show ?thesis
    by (simp add: adapter_retrieve_def demo_idle queued_retrieve_def retrieve_def retrieve_finish_def demo_queued_simps(1-4) chunk_tokens_def
        prefix_hash_def demo_chain [simplified] count_true_def get_one_def queued_touch_def chunk_touch_def update_after_get_def Let_def
        del: bindr_Inr_iff)
       (simp add: client_call_def demo_queued_def new_engine_def)
qed

lemma demo_first_slots: "compute_slot_mapping False [] 0 1 0 0 1 [(0, [0])] = Inr [0]"
  by (simp add: compute_slot_mapping_def slots_python_def py_nth_def Let_def)

lemma demo_first_store:
  "adapter_store demo_sha 1 1 False (\<lambda>_. []) i 7 ''chat'' [] [5] demo_chunk [True] (demo_queued\<lparr>eng_miss := 1\<rparr>) = Inr (1, demo_after)"
proof -
  let ?e = "demo_queued\<lparr>eng_miss := 1\<rparr>"
  have key: "make_key ?e (replicate 64 CHR ''a'') = demo_key" using demo_key_queued by (simp add: make_key_def)
  have "worker_turns [] ?e = Inr ?e" by (simp add: worker_turns_def)
  moreover have "make_chunks demo_sha queued_contains ?e [5] demo_chunk 0 True = Inr [(replicate 64 CHR ''a'', demo_chunk)]"
    by (simp add: make_chunks_def make_chunks_skip_existing_def chunk_tokens_def prefix_hash_def demo_chain [simplified]
        demo_queued_simps demo_engine_simps demo_num [simplified] Let_def queued_contains_def fb_contains_def dhas_def del: bindr_Inr_iff)
  moreover have "batched_put (chunk_queue 1 1) (\<lambda>_. client_call 7 ''chat'' False []) [(demo_key, demo_chunk)] (eng_store demo_queued)
      = Inr (1, eng_store demo_after)"
    by (simp add: batched_put_def chunk_queue_def queue_put_def client_call_def demo_queued_simps demo_after_def demo_item_def
        choose_lambda_def Let_def del: bindr_Inr_iff)
  ultimately show ?thesis
    by (simp add: adapter_store_def queued_store_def store_def demo_queued_simps(1-4) demo_num [simplified]
        count_true_def Let_def key [simplified] del: bindr_Inr_iff)
       (simp add: demo_after_def)
qed

lemma demo_lookup: "queued_lookup demo_sha [5] (demo_queued\<lparr>eng_miss := 1\<rparr>) = Inr 0" "queued_lookup demo_sha [5] demo_later = Inr 1"
proof -
  have "make_key demo_later (replicate 64 CHR ''a'') = demo_key" using demo_key_queued by (simp add: make_key_def demo_later_def)
  then show "queued_lookup demo_sha [5] demo_later = Inr 1"
    by (simp add: queued_lookup_def lookup_def chunk_tokens_def prefix_hash_def demo_chain [simplified] demo_queued_simps
        queued_contains_def fb_contains_def dhas_def demo_later_def demo_stored_def)
  show "queued_lookup demo_sha [5] (demo_queued\<lparr>eng_miss := 1\<rparr>) = Inr 0"
    by (simp add: queued_lookup_def lookup_def chunk_tokens_def prefix_hash_def demo_chain [simplified] demo_queued_simps
        queued_contains_def fb_contains_def dhas_def demo_engine_simps)
qed

lemma demo_collect: "collect_kv 1 [0] demo_chunk = Inr demo_chunk"
  by (simp add: collect_kv_def gather_rows_def py_nth_def demo_chunk_def)

lemma demo_chunk_ne [simp]: "demo_chunk \<noteq> []"
  by (simp add: demo_chunk_def)

lemmas demo_run_simps = run_step_def new_execute_model_def adapter_calls_def demo_step_def demo_input_def
  lmcache_should_retrieve_def all_prefill_def lmcache_retrieve_kv_def retrieve_group_def demo_group_meta_def retrieve_seq_def
  gm_client_id_def mask_from_def slice_index_def suffix_mask_def retrieve_done_def place_seq_def bill_seq_def
  lmcache_should_store_def store_status_group_def store_status_seq_def set_status_def lmcache_store_kv_def store_seq_def
  store_tokens_def request_kind_def py_nth_def

lemma demo_first_run:
  "\<exists>ro. run_step demo_sha 1 1 False 1 False 1 1 demo_queued demo_step = Inr ro \<and> ro_engine ro = demo_after \<and> ro_mem ro = demo_chunk"
  by (simp add: demo_run_simps demo_missed [simplified] count_true_def demo_lookup demo_first_slots [simplified]
      demo_collect [simplified] demo_first_store [simplified] Let_def del: bindr_Inr_iff)

lemma demo_later_ok: "fb_mem_ok demo_stored []"
  using history_state [OF demo_engine_fresh demo_requests(4) demo_model_ok demo_requests(1) demo_sha_ok demo_served]
  by (simp add: engine_inv_def)

lemma demo_later_simps:
  "eng_store demo_later = \<lparr>qb_store = demo_stored, qb_queue = []\<rparr>" "eng_chunk demo_later = 1" "eng_fmt demo_later = ''vllm''"
  "eng_hit demo_later = 0" "eng_miss demo_later = 1"
  by (simp_all add: demo_later_def demo_queued_simps)

lemma demo_key_later: "make_key demo_later (replicate 64 CHR ''a'') = demo_key"
  using demo_key_queued by (simp add: make_key_def demo_later_def)

lemma demo_found:
  "\<exists>r e'. adapter_retrieve demo_sha (\<lambda>_. [0]) (\<lambda>_ _. 1) i 7 [5] [True] demo_after = Inr (r, e') \<and> ret_mask r = [True]
     \<and> queued_lookup demo_sha [5] e' = Inr 1"
proof -
  let ?a = "client_call 7 '''' False []"
  let ?s = "\<lparr>qb_store = demo_stored, qb_queue = []\<rparr>"
  have keys: "map (make_key demo_later) (prefix_hash demo_sha 0 (chunk_list 1 [5])) = [demo_key]"
    using demo_key_later by (simp add: prefix_hash_def demo_chain [simplified])
  have got: "take_until_missing queued_contains queued_get (\<lambda>_. ?a) [demo_key] ?s = Inr ([(demo_key, demo_chunk)], ?s)"
    by (simp add: get_one_def queued_contains_def queued_get_def fb_contains_def demo_stored_def dhas_def chunk_get_def fb_get_def
        client_call_def pool_read_def del: bindr_Inr_iff)
  have cat: "cat_blobs ''vllm'' [demo_chunk] = Inr demo_chunk" "blob_tokens ''vllm'' demo_chunk = 1"
    by (simp_all add: cat_blobs_def demo_chunk_def cat_mats_def upt_rec blob_tokens_def token_extent_def)
  define b2 where "b2 = update_after_get (call_client ?a) [(demo_key, 1)] demo_stored"
  define s2 where "s2 = \<lparr>qb_store = b2, qb_queue = [] :: (cache_key, int blob) put_item list\<rparr>"
  define info where "info = get_attribution_info (call_client ?a) [demo_key] demo_stored"
  have rt: "adapter_retrieve demo_sha (\<lambda>_. [0]) (\<lambda>_ _. 1) i 7 [5] [True] demo_after
      = retrieve_finish 0 0 [5] [(demo_key, demo_chunk)] info (demo_later\<lparr>eng_store := s2\<rparr>)"
    by (simp add: adapter_retrieve_def demo_caught_up queued_retrieve_def retrieve_def count_true_def demo_later_simps chunk_tokens_def
        keys [simplified] got queued_touch_def chunk_touch_def s2_def b2_def info_def Let_def del: bindr_Inr_iff take_until_missing.simps)
  obtain r e' where fin: "retrieve_finish 0 0 [5] [(demo_key, demo_chunk)] info (demo_later\<lparr>eng_store := s2\<rparr>) = Inr (r, e')"
    "ret_mask r = [True]" "eng_store e' = s2" "same_meta demo_later e'"
    by (simp add: retrieve_finish_def Let_def demo_later_simps demo_num [simplified] cat [simplified] same_meta_def)
  from update_after_get_law [OF demo_later_ok] have "content b2 = content demo_stored" by (simp add: b2_def)
  moreover have "content demo_stored demo_key \<noteq> None" by (simp add: content_def demo_stored_def)
  ultimately have "content b2 demo_key \<noteq> None" by (simp only: not_False_eq_True)
  then have "queued_contains demo_key s2" by (simp add: s2_def queued_contains_def content_def fb_contains_def dhas_map_of)
  moreover have "make_key e' (replicate 64 CHR ''a'') = demo_key"
    using fin(4) demo_key_later by (simp add: make_key_def same_meta_def)
  moreover have "eng_chunk e' = 1" using fin(4) demo_later_simps by (simp add: same_meta_def)
  ultimately have "queued_lookup demo_sha [5] e' = Inr 1"
    by (simp add: queued_lookup_def lookup_def chunk_tokens_def prefix_hash_def demo_chain [simplified] fin(3))
  with rt fin show ?thesis by auto
qed

lemma demo_second_run: "\<exists>ro. run_step demo_sha 1 1 False 1 False 1 1 demo_after demo_step = Inr ro \<and> ro_mem ro = demo_chunk"
proof -
  obtain r e' where r: "adapter_retrieve demo_sha (\<lambda>_. [0]) (\<lambda>_ _. 1) 0 7 [5] [True] demo_after = Inr (r, e')" "ret_mask r = [True]"
    "queued_lookup demo_sha [5] e' = Inr 1"
    using demo_found by blast
  show ?thesis
    by (simp add: demo_run_simps r [simplified] count_true_def Let_def split_beta del: bindr_Inr_iff)
qed

lemma demo_sha_set: "sha_ok demo_sha (byte_inputs demo_sha 1 {[5]})"
  using demo_sha_ok by (simp add: history_inputs_def demo_request_def)

lemma serving_is_transparent_witness:
  "\<exists>ro. run_steps demo_sha 1 1 False 1 False 1 1 demo_queued [demo_step] = Inr demo_after
     \<and> run_step demo_sha 1 1 False 1 False 1 1 demo_after demo_step = Inr ro
     \<and> holds_upto demo_model 1 (ps_slot demo_step) [[5]] [1] (ro_mem ro)"
proof -
  have L: "mdl_layers demo_model = 1" by (simp add: demo_model_def)
  have steps: "run_steps demo_sha 1 1 False 1 False 1 (mdl_layers demo_model) demo_queued [demo_step] = Inr demo_after"
    using demo_first_run by (auto simp: run_steps_def L)
  obtain ro where ro: "run_step demo_sha 1 1 False 1 False 1 (mdl_layers demo_model) demo_after demo_step = Inr ro"
    using demo_second_run by (auto simp: L)
  have "\<forall>ts \<in> {[5]}. valid_tokens ts" using demo_requests(2) by simp
  from serving_is_transparent [OF demo_queued_fresh demo_requests(4) demo_model_ok this demo_sha_set _ demo_step_ok steps ro] demo_step_ok [of "{[5]}"]
  have "holds_upto demo_model 1 (ps_slot demo_step) (ps_tokens demo_step) (map length (ps_tokens demo_step)) (ro_mem ro)" by simp
  then show ?thesis using steps ro by (auto simp: L demo_step_def)
qed

lemma longer_bytes [simp]: "xs \<noteq> [] \<Longrightarrow> xs @ token_bytes a \<noteq> token_bytes b"
  by (rule notI, drule arg_cong [of _ _ length]) (simp add: token_bytes_def)

lemma demo_chain2: "hash_chain demo_sha '''' (chunk_list 1 [5, 6]) = [replicate 64 CHR ''a'', replicate 64 CHR ''b'']"
  by (simp add: chunk_list.simps chunk_hash_def demo_sha_def ascii_bytes_def)

lemma demo_sha_set2: "sha_ok demo_sha (byte_inputs demo_sha 1 {[5], [5, 6]})"
proof -
  have "byte_inputs demo_sha 1 {[5], [5, 6]} = {token_bytes 5, ascii_bytes (replicate 64 CHR ''a'') @ token_bytes 6}"
    by (auto simp: byte_inputs_def chunk_list.simps chunk_hash_def ascii_bytes_def demo_sha_def)
  then show ?thesis by (auto simp: sha_ok_def hex_digest_def demo_sha_def ascii_bytes_def replicate_eq_replicate)
qed

lemma demo_after_inv: "serving_inv demo_sha demo_model {[5], [5, 6]} demo_after"
proof -
  have v: "\<forall>ts \<in> {[5], [5, 6]}. valid_tokens ts" by (simp add: valid_tokens_def)
  have "run_steps demo_sha 1 1 False 1 False 1 (mdl_layers demo_model) demo_queued [demo_step] = Inr demo_after"
    using demo_first_run by (auto simp: run_steps_def demo_model_def)
  from steps_keep [OF fresh_inv [OF demo_queued_fresh demo_requests(4) demo_model_ok v demo_sha_set2] _ this]
    demo_step_ok [of "{[5], [5, 6]}"]
  show ?thesis by simp
qed

lemma demo_found2:
  "\<exists>r e'. adapter_retrieve demo_sha (\<lambda>_. [0]) (\<lambda>_ _. 1) i 7 [5, 6] [True, True] demo_after = Inr (r, e') \<and> ret_mask r = [True, False]
     \<and> ret_kv r = demo_chunk"
proof -
  let ?a = "client_call 7 '''' False []"
  let ?s = "\<lparr>qb_store = demo_stored, qb_queue = []\<rparr>"
  let ?k2 = "make_key demo_later (replicate 64 CHR ''b'')"
  have keys: "map (make_key demo_later) (prefix_hash demo_sha 0 (chunk_list 1 [5, 6])) = [demo_key, ?k2]"
    using demo_key_later by (simp add: prefix_hash_def demo_chain2 [simplified])
  have "?k2 \<noteq> demo_key" by (simp add: make_key_def demo_key_def)
  then have got: "take_until_missing queued_contains queued_get (\<lambda>_. ?a) [demo_key, ?k2] ?s = Inr ([(demo_key, demo_chunk)], ?s)"
    by (simp add: get_one_def queued_contains_def queued_get_def fb_contains_def demo_stored_def dhas_def chunk_get_def fb_get_def
        client_call_def pool_read_def del: bindr_Inr_iff)
  have cat: "cat_blobs ''vllm'' [demo_chunk] = Inr demo_chunk" "blob_tokens ''vllm'' demo_chunk = 1"
    "blob_to_tuple_kv demo_chunk = demo_chunk"
    by (simp_all add: cat_blobs_def demo_chunk_def cat_mats_def upt_rec blob_tokens_def token_extent_def blob_to_tuple_kv_def)
  define s2 where "s2 = \<lparr>qb_store = update_after_get (call_client ?a) [(demo_key, 1)] demo_stored, qb_queue = [] :: (cache_key, int blob) put_item list\<rparr>"
  define info where "info = get_attribution_info (call_client ?a) [demo_key] demo_stored"
  have "adapter_retrieve demo_sha (\<lambda>_. [0]) (\<lambda>_ _. 1) i 7 [5, 6] [True, True] demo_after
      = retrieve_finish 0 0 [5, 6] [(demo_key, demo_chunk)] info (demo_later\<lparr>eng_store := s2\<rparr>)"
    by (simp add: adapter_retrieve_def demo_caught_up queued_retrieve_def retrieve_def count_true_def demo_later_simps chunk_tokens_def
        keys [simplified] got queued_touch_def chunk_touch_def s2_def info_def Let_def del: bindr_Inr_iff take_until_missing.simps)
  moreover have "\<exists>r e'. retrieve_finish 0 0 [5, 6] [(demo_key, demo_chunk)] info (demo_later\<lparr>eng_store := s2\<rparr>) = Inr (r, e')
      \<and> ret_mask r = [True, False] \<and> ret_kv r = demo_chunk"
    by (simp add: retrieve_finish_def Let_def demo_later_simps demo_num [simplified] cat [simplified] upt_rec)
  ultimately show ?thesis by simp
qed

lemma rebuilt_input_asks_for_missing_witness:
  "\<exists>ro ds. lmcache_retrieve_kv (adapter_retrieve demo_sha (\<lambda>_. [0]) (\<lambda>_ _. 1)) False 1 RetrievePREFILL (demo_input [5, 6])
       [[[[0], [0]], [[0], [0]]]] demo_after = Inr ro
     \<and> mi_input_tokens (ro_input ro) = [6] \<and> asks_for (ro_input ro) (\<lambda>_ p. p) [[5, 6]] ds"
proof -
  let ?mem = "[[[[0], [0]], [[0], [0]]]] :: int blob"
  have L: "mdl_layers demo_model = 1" by (simp add: demo_model_def)
  obtain r e' where r: "adapter_retrieve demo_sha (\<lambda>_. [0]) (\<lambda>_ _. 1) 0 7 [5, 6] [True, True] demo_after = Inr (r, e')"
    "ret_mask r = [True, False]" "ret_kv r = demo_chunk"
    using demo_found2 by blast
  have inj: "inject_kv 1 demo_chunk [0, 1] ?mem = Inr [[[[5], [0]], [[5], [0]]]]"
    by (simp add: inject_kv_def py_nth_def demo_chunk_def scatter_rows_def)
  have "\<exists>ro. lmcache_retrieve_kv (adapter_retrieve demo_sha (\<lambda>_. [0]) (\<lambda>_ _. 1)) False 1 RetrievePREFILL (demo_input [5, 6]) ?mem demo_after = Inr ro
     \<and> mi_input_tokens (ro_input ro) = [6]"
    by (simp add: demo_run_simps r [simplified] count_true_def Let_def split_beta inj [simplified] slice_from_def
        build_partial_prefill_input_def rebuild_item_def rebuild_start_def rebuild_sampling_def set_query_lens_def
        numeral_2_eq_2 del: bindr_Inr_iff)
  then obtain ro where ro: "lmcache_retrieve_kv (adapter_retrieve demo_sha (\<lambda>_. [0]) (\<lambda>_ _. 1)) False (mdl_layers demo_model) RetrievePREFILL
      (demo_input [5, 6]) ?mem demo_after = Inr ro" "mi_input_tokens (ro_input ro) = [6]"
    by (auto simp: L)
  have "paged (mdl_layers demo_model) 2 ?mem" by (simp add: paged_def L less_2_cases_iff)
  from rebuilt_input_asks_for_missing [OF demo_after_inv demo_asks demo_slots demo_batch _ this ro(1)] ro
  show ?thesis by (auto simp: L)
qed

end
