(* ===== verification/Attribution.thy ===== *)
theory Attribution
  imports Prefill_Step
begin

text \<open>
  The money side of the adapter: what a prompt batch is billed, how the cost of a shared chunk is
  split between the clients that use it, and which batches are not stored.
\<close>

section \<open>Bills\<close>

definition billed :: "int \<Rightarrow> (int, int \<times> int) dict \<Rightarrow> int" where
  "billed c d = (case map_of d c of None \<Rightarrow> 0 | Some hm \<Rightarrow> fst hm + snd hm)"

lemma billed_charge: "billed c (charge_client c' hm d) = billed c d + (if c = c' then fst hm + snd hm else 0)"
  by (auto simp: billed_def charge_client_def dict_simps split: option.splits)

lemma adjusted_sum: "fst (adjusted_hit_miss delta computed whole) + snd (adjusted_hit_miss delta computed whole) = whole"
  by (simp add: adjusted_hit_miss_def Let_def)

lemma billed_bill_seq:
  "billed c (rt_served (bill_seq g att computed whole st))
     = billed c (rt_served st) + (if gm_client_id g = c \<and> \<not> gm_preempted g then whole else 0)"
  by (auto simp: bill_seq_def split_beta billed_charge adjusted_sum)

lemma place_seq_served: "place_seq layers mi kv start lmc st = Inr st2 \<Longrightarrow> rt_served st2 = rt_served st"
  by (auto simp: place_seq_def split: if_splits)

lemma retrieve_seq_billed:
  assumes "retrieve_seq retr layers mi RetrievePREFILL g st sid = Inr fl" "map_of (gm_seq_data g) sid = Some toks"
  shows "\<exists>st2. fl = Next st2 \<and> (\<forall>c. billed c (rt_served st2)
     = billed c (rt_served st) + (if gm_client_id g = c \<and> \<not> gm_preempted g then int (length toks) else 0))"
proof -
  have ne: "(RetrievePREFILL = RetrieveCHUNK_PREFILL) = False" by simp
  from assms(1) obtain st1 computed kv start lmc att st2 where
    p: "place_seq layers mi kv start lmc (bill_seq g att computed (int (length toks)) st1) = Inr st2"
    and fl: "fl = Next st2" and same: "rt_served st1 = rt_served st"
    unfolding retrieve_seq_def Let_def ne if_False dindex_Some [OF assms(2)] bindr.simps take_all [OF order_refl] simp_thms
    by (auto simp: split_beta simp del: bill_seq_sel)
  show ?thesis using fl by (simp add: place_seq_served [OF p] billed_bill_seq same)
qed

text \<open>
  C9.  A prompt batch bills every client exactly its prompts: after a retrieval of whole
  prompts, what a client is charged, hits and misses together, is the number of tokens of its
  sequences in the batch, those of preempted requests excepted, whatever the engine returned and however
  attribution shifted tokens between hits and misses.
\<close>

theorem prefill_bill_exact:
  assumes "\<forall>g \<in> set (mi_groups mi). wf_dict (gm_seq_data g)
             \<and> map_of (mi_seq_ids mi) (gm_request_id g) = Some (dkeys (gm_seq_data g))"
    and "lmcache_retrieve_kv retr False layers RetrievePREFILL mi mem e = Inr ro"
  shows "\<exists>d. ro_served ro = Some d \<and> (\<forall>c. billed c d
     = sum_list (map (\<lambda>(g, sid, toks). if gm_client_id g = c \<and> \<not> gm_preempted g then int (length toks) else 0) (batch_seqs mi)))"
proof -
  let ?st = "\<lparr>rt_engine = e, rt_mem = mem, rt_items = [], rt_next_start = 0, rt_not_found = 0, rt_idx = 0,
      rt_served = [], rt_credits = [], rt_keys = []\<rparr>"
  let ?f = "\<lambda>st (g, sid). retrieve_seq retr layers mi RetrievePREFILL g st sid"
  let ?due = "\<lambda>c (g, sid :: int, toks :: int list). if gm_client_id g = c \<and> \<not> gm_preempted g then int (length toks) else 0"
  have known: "\<forall>g \<in> set (mi_groups mi). dhas (mi_seq_ids mi) (gm_request_id g)"
    and ids: "\<forall>g \<in> set (mi_groups mi). map_of (mi_seq_ids mi) (gm_request_id g) = Some (dkeys (gm_seq_data g))"
    using assms(1) by (auto simp: dhas_map_of)
  have jobs: "jobs mi = map (\<lambda>(g, sid, toks). (g, sid)) (batch_seqs mi)" by (rule jobs_of_ids [OF ids])
  from assms(2) obtain fl where fl: "forM_until ?f ?st (jobs mi) = Inr fl"
    and out: "(case fl of
                   Leave st \<Rightarrow> Inr \<lparr>ro_input = mi, ro_skip = False, ro_served = None, ro_keys = None, ro_credits = None,
                                ro_mem = rt_mem st, ro_engine = rt_engine st\<rparr>
                 | Next st \<Rightarrow> retrieve_done RetrievePREFILL mi st) = Inr ro"
    by (auto simp: lmcache_retrieve_kv_def Let_def retrieve_loop_flat [OF known])
  let ?P = "\<lambda>n st. \<forall>c. billed c (rt_served st) = sum_list (map (?due c) (take n (batch_seqs mi)))"
  have "\<exists>s'. fl = Next s' \<and> ?P (length (jobs mi)) s'"
  proof (rule forM_until_indexed [OF fl])
    show "?P 0 ?st" by (simp add: billed_def)
    fix n and st :: "('a, 'b) retrieving" and fl
    assume n: "n < length (jobs mi)" and P: "?P n st" and step: "?f st (jobs mi ! n) = Inr fl"
    have nb: "n < length (batch_seqs mi)" using n by (simp add: jobs)
    obtain g sid toks where s: "batch_seqs mi ! n = (g, sid, toks)" by (cases "batch_seqs mi ! n")
    then have "(g, sid, toks) \<in> set (batch_seqs mi)" using nb by (metis nth_mem)
    then have "g \<in> set (mi_groups mi)" "(sid, toks) \<in> set (gm_seq_data g)" by (auto simp: batch_seqs_def)
    with assms(1) have sd: "map_of (gm_seq_data g) sid = Some toks" by (simp add: wf_dict_map_of_iff)
    from step s nb have "retrieve_seq retr layers mi RetrievePREFILL g st sid = Inr fl" by (simp add: jobs)
    from retrieve_seq_billed [OF this sd] P s nb
    show "\<exists>st'. fl = Next st' \<and> ?P (Suc n) st'" by (auto simp: take_Suc_conv_app_nth)
  qed
  then obtain st where "fl = Next st" "?P (length (batch_seqs mi)) st" by (auto simp: jobs)
  moreover from this(1) out have "ro_served ro = Some (rt_served st)" by (auto simp: retrieve_done_def Let_def split: if_splits)
  ultimately show ?thesis by simp
qed

lemma prefill_bill_exact_witness:
  "\<exists>ro d. lmcache_retrieve_kv
       (\<lambda>i c toks m e. Inr (\<lparr>ret_kv = [], ret_mask = map (\<lambda>_. False) toks, ret_keys = [], ret_attribution = []\<rparr>, e))
       False 1 RetrievePREFILL (demo_input [5, 6]) [[[[0 :: int], [0]], [[0], [0]]]] () = Inr ro
     \<and> ro_served ro = Some d \<and> billed 7 d = 2"
proof -
  let ?r = "\<lambda>i c toks m e. Inr (\<lparr>ret_kv = [], ret_mask = map (\<lambda>_. False) toks, ret_keys = [], ret_attribution = []\<rparr>, e)"
  obtain ro where ro: "lmcache_retrieve_kv ?r False 1 RetrievePREFILL (demo_input [5, 6]) [[[[0 :: int], [0]], [[0], [0]]]] () = Inr ro"
    by (simp add: lmcache_retrieve_kv_def retrieve_group_def retrieve_seq_def demo_input_def demo_group_meta_def py_nth_def
        place_seq_def bill_seq_def retrieve_done_def count_true_def Let_def)
  have "\<forall>g \<in> set (mi_groups (demo_input [5, 6])). wf_dict (gm_seq_data g)
      \<and> map_of (mi_seq_ids (demo_input [5, 6])) (gm_request_id g) = Some (dkeys (gm_seq_data g))"
    by (simp add: demo_input_def demo_group_meta_def Let_def)
  from prefill_bill_exact [OF this ro] obtain d where "ro_served ro = Some d" "billed 7 d = 2"
    by (auto simp: batch_seqs_def demo_input_def demo_group_meta_def gm_client_id_def Let_def)
  with ro show ?thesis by blast
qed

section \<open>Shared chunks\<close>

lemma sum_update: "sum_list (map snd (AList.update k v d)) = sum_list (map snd d) + (v - dget_or d k 0)" for v :: real
  by (induction d) (auto simp: dget_or_def)

lemma credit_all:
  "sum_list (map snd (foldl (\<lambda>cs c. AList.update c (dget_or cs c 0 + x) cs) creds old))
     = sum_list (map snd creds) + real (length old) * x" for x :: real
  by (induction old arbitrary: creds) (simp_all add: sum_update algebra_simps)

lemma credit_one:
  "distinct old \<Longrightarrow> dget_or (foldl (\<lambda>cs c. AList.update c (dget_or cs c 0 + x) cs) creds old) a 0
     = dget_or creds a 0 + (if a \<in> set old then x else 0)" for x :: real
  by (induction old arbitrary: creds) (auto simp: dict_simps)

lemma share_step: "0 < k \<Longrightarrow> k * (x / k - x / (k + 1)) = x / (k + 1)" for k x :: real
  by (simp add: divide_simps) (simp add: algebra_simps)

lemma attribute_chunk_balance:
  assumes "attribute_chunk (delta, creds) a = (delta', creds')"
  shows "sum_list (map snd creds') - sum_list (map snd creds) = prefill_weight_cost * (delta' - delta)"
proof -
  obtain w old tok where a: "a = (w, old, tok)" by (cases a)
  show ?thesis
  proof (cases "w \<and> 0 < length old")
    case True
    define k where "k = real (length old)"
    have k: "0 < k" using True by (simp add: k_def)
    from assms a True have d: "delta' = delta + real_of_int tok / (k + 1)"
      and c: "creds' = foldl (\<lambda>cs c. AList.update c (dget_or cs c 0 + (prefill_weight_cost * real_of_int tok / k
          - prefill_weight_cost * real_of_int tok / (k + 1))) cs) creds old"
      by (simp_all add: attribute_chunk_def Let_def k_def eta_attribution_def)
    have "sum_list (map snd creds') - sum_list (map snd creds) = prefill_weight_cost * real_of_int tok / (k + 1)"
      unfolding c credit_all using share_step [OF k] by (simp add: k_def)
    then show ?thesis by (simp add: d)
  next
    case False
    with assms a show ?thesis by (auto simp: attribute_chunk_def)
  qed
qed

lemma attribution_balance:
  assumes "foldl attribute_chunk (delta, creds) att = (delta', creds')"
  shows "sum_list (map snd creds') - sum_list (map snd creds) = prefill_weight_cost * (delta' - delta)"
  using assms
proof (induction att arbitrary: delta creds)
  case (Cons a att)
  obtain d1 c1 where 1: "attribute_chunk (delta, creds) a = (d1, c1)" by (cases "attribute_chunk (delta, creds) a")
  with Cons.prems have "foldl attribute_chunk (d1, c1) att = (delta', creds')" by simp
  from Cons.IH [OF this] attribute_chunk_balance [OF 1] show ?case by (simp add: algebra_simps)
qed simp

lemma py_round_near: "\<bar>x - real_of_int (py_round x)\<bar> \<le> 1 / 2"
proof -
  define f where "f = real_of_int \<lfloor>x\<rfloor>"
  have f: "f \<le> x" "x < f + 1" by (simp_all add: f_def)
  have "real_of_int (py_round x) = f \<and> x - f \<le> 1 / 2 \<or> real_of_int (py_round x) = f + 1 \<and> 1 / 2 \<le> x - f"
    by (simp add: py_round_def Let_def f_def [symmetric])
  with f show ?thesis by (auto simp: abs_le_iff)
qed

text \<open>
  C10.  The books of a shared prompt.  With the queue's prefill weight equal to the adapter's,
  the credits issued for one retrieval exceed the surcharge of the newcomer (the price of the
  shifted bill less that of the plain one) by the hit weight of the shifted tokens and by the
  rounding, at most half a token: they cancel exactly only if hits are free.
\<close>

theorem attribution_budget:
  assumes "foldl attribute_chunk (0, creds) att = (delta, creds')" "0 < delta" "prefill_weight q = prefill_weight_cost"
    and "adjusted_hit_miss delta computed whole = (hit, miss)"
  shows "sum_list (map snd creds') - sum_list (map snd creds)
       - (cq_cost q (real_of_int hit, real_of_int miss) - cq_cost q (real_of_int computed, real_of_int (whole - computed)))
     = hit_weight q * real_of_int (py_round delta) + prefill_weight q * (delta - real_of_int (py_round delta))
   \<and> \<bar>delta - real_of_int (py_round delta)\<bar> \<le> 1 / 2"
proof -
  have hm: "hit = computed - py_round delta" "miss = whole - hit" using assms(2,4) by (auto simp: adjusted_hit_miss_def Let_def)
  have "sum_list (map snd creds') - sum_list (map snd creds) = prefill_weight q * delta"
    using attribution_balance [OF assms(1)] assms(3) by simp
  moreover have "cq_cost q (real_of_int hit, real_of_int miss) - cq_cost q (real_of_int computed, real_of_int (whole - computed))
      = (prefill_weight q - hit_weight q) * real_of_int (py_round delta)"
    by (simp add: cq_cost_def hm algebra_simps)
  ultimately show ?thesis using py_round_near [of delta] by (simp add: algebra_simps)
qed

lemma attribution_budget_witness:
  "foldl attribute_chunk (0, []) [(True, [3], 256)] = (128, [(3, 64 / 5)])
   \<and> sum_list (map snd [(3 :: int, 64 / 5 :: real)]) - sum_list (map snd ([] :: (int, real) dict))
       - (cq_cost (cq_init (1 / 50) (1 / 10) (1 / 5) 1) (real_of_int 127, real_of_int 129)
          - cq_cost (cq_init (1 / 50) (1 / 10) (1 / 5) 1) (real_of_int 255, real_of_int (256 - 255)))
     = hit_weight (cq_init (1 / 50) (1 / 10) (1 / 5) 1) * real_of_int (py_round 128)
       + prefill_weight (cq_init (1 / 50) (1 / 10) (1 / 5) 1) * (128 - real_of_int (py_round 128))"
proof -
  have f: "foldl attribute_chunk (0, []) [(True, [3], 256)] = (128, [(3, 64 / 5)])"
    by (simp add: attribute_chunk_def prefill_weight_cost_def eta_attribution_def Let_def)
  have a: "adjusted_hit_miss 128 255 256 = (127, 129)" by (simp add: adjusted_hit_miss_def py_round_def Let_def)
  have "prefill_weight (cq_init (1 / 50) (1 / 10) (1 / 5) 1) = prefill_weight_cost" by (simp add: cq_init_def prefill_weight_cost_def)
  from attribution_budget [OF f _ this a] f show ?thesis by simp
qed

text \<open>
  \<open>joined clients tok n\<close>: the credits after the first \<open>n\<close> clients of the list hit a chunk of \<open>tok\<close> tokens in
  this order, the first having computed it, so that each newcomer finds those before it in the chunk's
  \<open>access_map\<close>.
\<close>

definition arrival :: "int list \<Rightarrow> int \<Rightarrow> nat \<Rightarrow> bool \<times> int list \<times> int" where
  "arrival clients tok j = (True, take j clients, tok)"

definition joined :: "int list \<Rightarrow> int \<Rightarrow> nat \<Rightarrow> (int, real) dict" where
  "joined clients tok n = foldl (\<lambda>cs j. snd (attribute_chunk (0, cs) (arrival clients tok j))) [] [1..<n]"

lemma joined_Suc:
  assumes "0 < n" "n < length clients" "distinct clients"
  shows "dget_or (joined clients tok (Suc n)) c 0 = dget_or (joined clients tok n) c 0
     + (if c \<in> set (take n clients) then prefill_weight_cost * real_of_int tok / real n - prefill_weight_cost * real_of_int tok / (real n + 1) else 0)"
proof -
  have "[1..<Suc n] = [1..<n] @ [n]" using assms(1) by simp
  then have "joined clients tok (Suc n) = snd (attribute_chunk (0, joined clients tok n) (arrival clients tok n))"
    by (simp add: joined_def)
  also have "\<dots> = foldl (\<lambda>cs c. AList.update c (dget_or cs c 0 + (prefill_weight_cost * real_of_int tok / real n
      - prefill_weight_cost * real_of_int tok / (real n + 1))) cs) (joined clients tok n) (take n clients)"
    using assms by (simp add: attribute_chunk_def arrival_def Let_def eta_attribution_def min_def)
  finally show ?thesis using assms(3) by (simp add: credit_one distinct_take)
qed

text \<open>
  C8.  Credits telescope.  When clients come one after the other to use a chunk of \<open>tok\<close> tokens, the
  one that comes after \<open>i\<close> others is shifted \<open>tok / (i + 1)\<close> tokens from hits to misses, and when \<open>n\<close>
  clients have come it has received in credits, at the adapter's prefill weight, the difference between
  that share and \<open>tok / n\<close>.  So its share at that weight less its credits is the same for all, an equal part of the
  chunk; the first client, which computed the chunk, has \<open>tok\<close> for its share.  This is what the adapter intends with
  \<open>ETA_ATTRIBUTION = 1\<close>; what the queue charges for the shift differs by the hit weight and by rounding, as above.
\<close>

theorem credits_telescope:
  assumes "distinct clients" "i < length clients"
  shows "dget_or (joined clients tok (length clients)) (clients ! i) 0
       = prefill_weight_cost * (real_of_int tok / real (Suc i) - real_of_int tok / real (length clients))
     \<and> (0 < i \<longrightarrow> fst (attribute_chunk (0, creds) (arrival clients tok i)) = real_of_int tok / real (Suc i))"
proof
  let ?x = "prefill_weight_cost * real_of_int tok"
  have "dget_or (joined clients tok n) (clients ! i) 0 = (if i < n then ?x / real (Suc i) - ?x / real n else 0)"
    if "0 < n" "n \<le> length clients" for n
    using that
  proof (induction n)
    case (Suc n)
    show ?case
    proof (cases "n = 0")
      case True
      then show ?thesis by (auto simp: joined_def dget_or_def)
    next
      case False
      have mem: "clients ! i \<in> set (take n clients) \<longleftrightarrow> i < n"
        using assms Suc.prems by (auto simp: in_set_conv_nth nth_eq_iff_index_eq)
      have "dget_or (joined clients tok n) (clients ! i) 0 = (if i < n then ?x / real (Suc i) - ?x / real n else 0)"
        using Suc False by simp
      then show ?thesis
        using joined_Suc [of n clients tok "clients ! i"] False Suc.prems assms(1) unfolding mem
        by (auto simp: add.commute less_Suc_eq)
    qed
  qed simp
  moreover have "0 < length clients" using assms(2) by linarith
  ultimately show "dget_or (joined clients tok (length clients)) (clients ! i) 0
      = prefill_weight_cost * (real_of_int tok / real (Suc i) - real_of_int tok / real (length clients))"
    using assms(2) by (simp add: right_diff_distrib)
  show "0 < i \<longrightarrow> fst (attribute_chunk (0, creds) (arrival clients tok i)) = real_of_int tok / real (Suc i)"
    using assms(2) by (auto simp: attribute_chunk_def arrival_def Let_def min_def add.commute)
qed

lemma credits_telescope_witness:
  "dget_or (joined [4, 9, 2] 256 (length [4 :: int, 9, 2])) ([4, 9, 2] ! 1) 0
     = prefill_weight_cost * (real_of_int 256 / real (Suc 1) - real_of_int 256 / real (length [4 :: int, 9, 2]))"
  by (rule credits_telescope [THEN conjunct1]) simp_all

text \<open>
  A prompt shorter than a chunk that another client has cached: the bill counts the whole chunk, so
  that the misses billed can exceed the prompt and the hits become negative.
\<close>

lemma short_prompt_overcharged:
  assumes "0 < whole" "2 * whole \<le> c" "computed = whole - 1"
    and "foldl attribute_chunk (0, []) [(True, [owner], c)] = (delta, creds)"
    and "adjusted_hit_miss delta computed whole = (hit, miss)"
  shows "hit < 0 \<and> whole < miss"
proof -
  have d: "delta = real_of_int c / 2" using assms(4) by (simp add: attribute_chunk_def Let_def split: if_splits)
  have "real_of_int whole \<le> delta" using assms(2) d by simp
  then have "whole \<le> py_round delta" using le_floor_iff [of whole delta] by (auto simp: py_round_def Let_def)
  moreover have "0 < delta" using assms(1,2) d by simp
  ultimately show ?thesis using assms(3,5) by (auto simp: adjusted_hit_miss_def Let_def)
qed

section \<open>Batches that are not stored\<close>

text \<open>
  \<open>stored_under c st x\<close>: the loop of \<open>lmcache_store_kv\<close> does not \<open>continue\<close> for the sequence \<open>x\<close> when it finds
  the status \<open>st\<close> at its index: it looks the sequence up, stores what is missing and advances the index.
\<close>

definition stored_under :: "nat \<Rightarrow> store_status \<Rightarrow> group_meta \<times> int \<times> int list \<Rightarrow> bool" where
  "stored_under c st x \<longleftrightarrow> st \<noteq> StoreNONE \<and> (st = StoreDECODE \<longrightarrow> length (snd (snd x)) mod c = 0)"

definition store_flat ::
  "(int list \<Rightarrow> 'e \<Rightarrow> nat result)
     \<Rightarrow> (nat \<Rightarrow> int \<Rightarrow> string \<Rightarrow> cache_key list \<Rightarrow> int list \<Rightarrow> 'a blob \<Rightarrow> bool list \<Rightarrow> 'e \<Rightarrow> (nat \<times> 'e) result)
     \<Rightarrow> nat \<Rightarrow> int \<Rightarrow> nat \<Rightarrow> model_input \<Rightarrow> 'a blob \<Rightarrow> store_status list \<Rightarrow> cache_key list list option
     \<Rightarrow> nat \<times> nat \<times> 'e \<Rightarrow> group_meta \<times> int \<times> int list \<Rightarrow> (nat \<times> nat \<times> 'e) result" where
  "store_flat look put c bs layers mi mem statuses keys_list st =
     (\<lambda>(g, x). store_seq look put c bs layers mem (am_seq_lens (mi_attn mi)) statuses keys_list g st x)"

lemma store_kv_flat:
  "lmcache_store_kv look put c bs layers mi mem statuses keys_list e
     = bindr (foldM (store_flat look put c bs layers mi mem statuses keys_list) (0, 0, e) (batch_seqs mi)) (\<lambda>(d, r, e'). Inr e')"
proof -
  let ?F = "store_flat look put c bs layers mi mem statuses keys_list"
  have "foldM (\<lambda>st g. foldM (store_seq look put c bs layers mem (am_seq_lens (mi_attn mi)) statuses keys_list g) st (gm_seq_data g)) st gs
      = foldM ?F st (concat (map (\<lambda>g. map (Pair g) (gm_seq_data g)) gs))" for st gs
  proof (induction gs arbitrary: st)
    case (Cons g gs)
    have "foldM (store_seq look put c bs layers mem (am_seq_lens (mi_attn mi)) statuses keys_list g) st xs
        = foldM ?F st (map (Pair g) xs)" for xs st
    proof (induction xs arbitrary: st)
      case (Cons x xs)
      then show ?case by (cases x) (simp add: store_flat_def)
    qed simp
    with Cons show ?case by simp
  qed simp
  then show ?thesis by (simp add: lmcache_store_kv_def batch_seqs_def)
qed

lemma store_flat_skips:
  assumes "store_flat look put c bs layers mi mem statuses keys_list (n, r, e) x = Inr st" "n < length statuses"
    and "\<not> stored_under c (statuses ! n) x"
  shows "st = (n, r, e)"
  using assms
  by (cases x) (auto simp: store_flat_def store_seq_def stored_under_def split: if_splits)

lemma store_flat_advances:
  assumes "store_flat look put c bs layers mi mem statuses keys_list (n, r, e) x = Inr st" "n < length statuses"
    and "stored_under c (statuses ! n) x"
  shows "\<exists>e'. st = (Suc n, Suc r, e')"
  using assms
  by (cases x) (auto simp: store_flat_def store_seq_def stored_under_def split: if_splits)

text \<open>
  C11.  One sequence that needs no storing stops the rest of the batch.  \<open>lmcache_store_kv\<close> skips it without
  advancing its index, so that every later sequence is looked up at the same status.  If the first
  \<open>n\<close> sequences are stored and the status at index \<open>n\<close> lets none of the others be stored (it is \<open>NONE\<close>, which is
  so for any others; or it is \<open>DECODE\<close> and they do not end a chunk), then the engine ends in the state after
  those \<open>n\<close>, whatever statuses the others have.
\<close>

theorem unstored_sequence_blocks_batch:
  assumes "lmcache_store_kv look put c bs layers mi mem statuses keys_list e = Inr e'"
    and "n < length statuses" "n \<le> length (batch_seqs mi)" "\<forall>i < n. stored_under c (statuses ! i) (batch_seqs mi ! i)"
    and "statuses ! n = StoreNONE \<or> (\<forall>x \<in> set (drop n (batch_seqs mi)). \<not> stored_under c (statuses ! n) x)"
  shows "foldM (store_flat look put c bs layers mi mem statuses keys_list) (0, 0, e) (take n (batch_seqs mi)) = Inr (n, n, e')"
proof -
  let ?F = "store_flat look put c bs layers mi mem statuses keys_list"
  from assms(1) obtain d r where all: "foldM ?F (0, 0, e) (batch_seqs mi) = Inr (d, r, e')" by (auto simp: store_kv_flat)
  have "foldM ?F (0, 0, e) (take n (batch_seqs mi) @ drop n (batch_seqs mi)) = Inr (d, r, e')"
    using all by (simp only: append_take_drop_id)
  then obtain st where st: "foldM ?F (0, 0, e) (take n (batch_seqs mi)) = Inr st"
    "foldM ?F st (drop n (batch_seqs mi)) = Inr (d, r, e')" unfolding foldM_append bindr_Inr_iff by blast
  have adv: "foldM ?F (0, 0, e) (take k (batch_seqs mi)) = Inr st \<Longrightarrow> k \<le> n \<Longrightarrow> \<exists>e1. st = (k, k, e1)" for k st
  proof (induction k arbitrary: st)
    case (Suc k)
    have "take (Suc k) (batch_seqs mi) = take k (batch_seqs mi) @ [batch_seqs mi ! k]"
      using Suc.prems(2) assms(3) by (simp add: take_Suc_conv_app_nth)
    with Suc.prems(1) obtain st1 where 1: "foldM ?F (0, 0, e) (take k (batch_seqs mi)) = Inr st1" "?F st1 (batch_seqs mi ! k) = Inr st"
      by auto
    from Suc.IH [OF 1(1)] Suc.prems(2) obtain e1 where "st1 = (k, k, e1)" by auto
    with 1(2) store_flat_advances [of look put c bs layers mi mem statuses keys_list k k e1 "batch_seqs mi ! k" st] Suc.prems(2) assms(2,4)
    show ?case by auto
  qed simp
  then obtain e1 where e1: "st = (n, n, e1)" using st(1) by blast
  have blocked: "\<forall>x \<in> set (drop n (batch_seqs mi)). \<not> stored_under c (statuses ! n) x" using assms(5) by (auto simp: stored_under_def)
  have stop: "foldM ?F (n, n, e1) xs = Inr st' \<Longrightarrow> \<forall>x \<in> set xs. \<not> stored_under c (statuses ! n) x \<Longrightarrow> st' = (n, n, e1)" for xs st'
  proof (induction xs)
    case (Cons x xs)
    from Cons.prems(1) obtain st1 where 1: "?F (n, n, e1) x = Inr st1" "foldM ?F st1 xs = Inr st'" by auto
    have "st1 = (n, n, e1)" by (rule store_flat_skips [OF 1(1) assms(2)]) (use Cons.prems(2) in simp)
    with Cons 1(2) show ?case by simp
  qed simp
  from stop [OF st(2) [unfolded e1] blocked] st(1) e1 show ?thesis by simp
qed

text \<open>A decoding batch of three sequences with two tokens per chunk: the first is stored, the second is not, and so the third is not.\<close>

lemma unstored_sequence_blocks_batch_witness:
  "\<exists>mi e'. lmcache_store_kv (\<lambda>toks e. Inr 0) (\<lambda>i c ty keys toks kv m e. Inr (1, e + 1)) 2 2 1 mi
     [[[[0 :: int], [0]], [[0], [0]]]] [StoreDECODE, StoreNONE, StoreDECODE] None (3 :: nat) = Inr e'
     \<and> length (batch_seqs mi) = 3 \<and> e' = 4"
proof -
  let ?mi = "demo_input [5]\<lparr>mi_groups := [demo_group_meta [5, 6] [0, 1], demo_group_meta [5] [0], demo_group_meta [7, 8] [0, 1]]\<rparr>"
  have r: "lmcache_store_kv (\<lambda>toks e. Inr 0) (\<lambda>i c ty keys toks kv m e. Inr (1, e + 1)) 2 2 1 ?mi
     [[[[0 :: int], [0]], [[0], [0]]]] [StoreDECODE, StoreNONE, StoreDECODE] None (3 :: nat) = Inr 4"
    by (simp add: lmcache_store_kv_def store_seq_def store_tokens_def demo_group_meta_def py_nth_def Let_def
        compute_slot_mapping_def slots_python_def upto.simps collect_kv_def gather_rows_def)
  have b: "batch_seqs ?mi = [(demo_group_meta [5, 6] [0, 1], 0, [5, 6]), (demo_group_meta [5] [0], 0, [5]), (demo_group_meta [7, 8] [0, 1], 0, [7, 8])]"
    by (simp add: batch_seqs_def demo_group_meta_def)
  have "foldM (store_flat (\<lambda>toks e. Inr 0) (\<lambda>i c ty keys toks kv m e. Inr (1, e + 1)) 2 2 1 ?mi
     [[[[0 :: int], [0]], [[0], [0]]]] [StoreDECODE, StoreNONE, StoreDECODE] None) (0, 0, 3 :: nat) (take 1 (batch_seqs ?mi)) = Inr (1, 1, 4)"
    by (rule unstored_sequence_blocks_batch [OF r]) (simp_all add: b stored_under_def)
  with r b show ?thesis by (intro exI [of _ ?mi] exI [of _ 4]) simp
qed

text \<open>
  The statuses of a decoding batch whose first sequence does not end a chunk start with \<open>NONE\<close>.
\<close>

lemma decode_statuses:
  assumes "\<not> all_prefill (mi_attn mi)" "am_blended_layers (mi_attn mi) = None" "mem \<noteq> []" "c \<noteq> 0"
  shows "lmcache_should_store (Some c) True (Some mem) mi
     = Inr (map (\<lambda>len. if len mod c = 0 then StoreDECODE else StoreNONE) (am_seq_lens (mi_attn mi)))"
  using assms by (simp add: lmcache_should_store_def Let_def)

end
