(* ===== verification/Req_Queue.thy ===== *)
theory Req_Queue
  imports Waiting_Queue
begin

text \<open>
  The first-come-first-served waiting queue \<open>ReqQueue\<close> of \<open>vllm-0.6.2/vllm/core/cpi_req_queue.py\<close>:
  one deque for all clients and a \<open>Counter\<close> of the waiting requests per client, which decides
  when a client's score is reset and lifted.  A missing key of the \<open>Counter\<close> reads as zero.  The
  JSON files written at the end of \<open>update_prefill_served\<close> are not modelled.
\<close>

section \<open>State and operations\<close>

record req_queue =
  rq_hit_weight :: real
  rq_prefill_weight :: real
  rq_decode_weight :: real
  rq_served :: "(int, real) dict"
  waiting_queue_items :: "seq_group list"
  client_counter :: "(int, int) dict"
  rq_served_requests :: "(int, int) dict"
  rq_served_tokens :: "(int, real) dict"
  rq_hit_tokens :: "(int, real) dict"
  rq_miss_tokens :: "(int, real) dict"

definition rq_init :: "real \<Rightarrow> real \<Rightarrow> real \<Rightarrow> req_queue" where
  "rq_init hw pw dw =
     \<lparr>rq_hit_weight = hw, rq_prefill_weight = pw, rq_decode_weight = dw, rq_served = [],
      waiting_queue_items = [], client_counter = [], rq_served_requests = [],
      rq_served_tokens = [], rq_hit_tokens = [], rq_miss_tokens = []\<rparr>"

definition counter_of :: "req_queue \<Rightarrow> int \<Rightarrow> int" where
  "counter_of q c = dget_or (client_counter q) c 0"

definition bump :: "int \<Rightarrow> int \<Rightarrow> req_queue \<Rightarrow> req_queue" where
  "bump c n q = q\<lparr>client_counter := AList.update c (counter_of q c + n) (client_counter q)\<rparr>"

definition rq_active_scores :: "int \<Rightarrow> req_queue \<Rightarrow> real list" where
  "rq_active_scores c q =
     map snd (filter (\<lambda>kv. counter_of q (fst kv) > 0 \<and> fst kv \<noteq> c) (rq_served q))"

definition rq_lift :: "int \<Rightarrow> req_queue \<Rightarrow> req_queue result" where
  "rq_lift c q =
     (case pick (<) (\<lambda>x. x) (rq_active_scores c q) of
        None \<Rightarrow> Inr q
      | Some m \<Rightarrow> bindr (dindex (rq_served q) c) (\<lambda>s.
          Inr (q\<lparr>rq_served := AList.update c (max s m) (rq_served q)\<rparr>)))"

definition rq_append :: "seq_group \<Rightarrow> req_queue \<Rightarrow> req_queue result" where
  "rq_append g q =
     bindr (client_id g) (\<lambda>c.
       let q1 = (if counter_of q c = 0 then q\<lparr>rq_served := AList.update c 0 (rq_served q)\<rparr> else q);
           q2 = bump c 1 q1;
           q3 = q2\<lparr>waiting_queue_items := waiting_queue_items q2 @ [g]\<rparr>
       in if counter_of q3 c = 1 then rq_lift c q3 else Inr q3)"

definition rq_appendleft :: "seq_group \<Rightarrow> req_queue \<Rightarrow> req_queue result" where
  "rq_appendleft g q =
     bindr (client_id g) (\<lambda>c.
       Inr (bump c 1 (q\<lparr>waiting_queue_items := g # waiting_queue_items q\<rparr>)))"

definition rq_extendleft :: "seq_group list \<Rightarrow> req_queue \<Rightarrow> req_queue result" where
  "rq_extendleft gs q = foldM (\<lambda>q g. rq_appendleft g q) q gs"

definition rq_popleft :: "req_queue \<Rightarrow> (seq_group \<times> req_queue) result" where
  "rq_popleft q =
     (case waiting_queue_items q of
        [] \<Rightarrow> Inl IndexError
      | g # rest \<Rightarrow>
          bindr (client_id g) (\<lambda>c.
            let q1 = bump c (- 1) (q\<lparr>waiting_queue_items := rest\<rparr>) in
            Inr (g, if counter_of q1 c = 0
                    then q1\<lparr>client_counter := AList.delete c (client_counter q1)\<rparr> else q1)))"

definition rq_getitem :: "req_queue \<Rightarrow> int \<Rightarrow> seq_group result" where
  "rq_getitem q i = py_nth (waiting_queue_items q) i"

definition rq_bool :: "req_queue \<Rightarrow> bool" where
  "rq_bool q \<longleftrightarrow> waiting_queue_items q \<noteq> []"

definition rq_len :: "req_queue \<Rightarrow> int" where
  "rq_len q = int (length (waiting_queue_items q))"

definition rq_remove :: "seq_group \<Rightarrow> req_queue \<Rightarrow> req_queue result" where
  "rq_remove g q =
     (if g \<in> set (waiting_queue_items q)
      then Inr (q\<lparr>waiting_queue_items := remove1 g (waiting_queue_items q)\<rparr>)
      else Inl ValueError)"

definition rq_charge :: "req_queue \<Rightarrow> int \<times> real \<times> real \<Rightarrow> req_queue" where
  "rq_charge q chm =
     (let c = fst chm; hit = fst (snd chm); miss = snd (snd chm);
          q1 = q\<lparr>rq_served := AList.update c (dget_or (rq_served q) c 0
                   + (rq_hit_weight q * hit + rq_prefill_weight q * miss)) (rq_served q)\<rparr>;
          q2 = (if dhas (rq_served_requests q1) c then q1
                else q1\<lparr>rq_served_requests := AList.update c 0 (rq_served_requests q1),
                        rq_served_tokens := AList.update c 0 (rq_served_tokens q1),
                        rq_hit_tokens := AList.update c 0 (rq_hit_tokens q1),
                        rq_miss_tokens := AList.update c 0 (rq_miss_tokens q1)\<rparr>)
      in q2\<lparr>rq_served_requests := AList.update c (dget_or (rq_served_requests q2) c 0 + 1)
                                  (rq_served_requests q2),
            rq_served_tokens := AList.update c (dget_or (rq_served_tokens q2) c 0 + (hit + miss))
                                  (rq_served_tokens q2),
            rq_hit_tokens := AList.update c (dget_or (rq_hit_tokens q2) c 0 + hit) (rq_hit_tokens q2),
            rq_miss_tokens := AList.update c (dget_or (rq_miss_tokens q2) c 0 + miss)
                                (rq_miss_tokens q2)\<rparr>)"

definition rq_update_prefill_served ::
  "(int \<times> real \<times> real) list \<Rightarrow> (int, real) dict option \<Rightarrow> req_queue \<Rightarrow> req_queue" where
  "rq_update_prefill_served prefill_served creds q = foldl rq_charge q prefill_served"

section \<open>Invariant\<close>

text \<open>
  The counter of a client is the number of its waiting requests, an entry exists only for a
  client with one, every waiting request names a client, and a client with waiting requests has
  a score.
\<close>

definition waiting_count :: "int \<Rightarrow> seq_group list \<Rightarrow> int" where
  "waiting_count c gs = int (length (filter (\<lambda>g. client_id g = Inr c) gs))"

definition rq_ok :: "req_queue \<Rightarrow> bool" where
  "rq_ok q \<longleftrightarrow> wf_dict (client_counter q)
     \<and> list_all has_client (waiting_queue_items q)
     \<and> (\<forall>c. map_of (client_counter q) c =
              (if waiting_count c (waiting_queue_items q) = 0 then None
               else Some (waiting_count c (waiting_queue_items q))))
     \<and> (\<forall>c. waiting_count c (waiting_queue_items q) > 0 \<longrightarrow> dhas (rq_served q) c)"

lemma waiting_count_simps [simp]:
  "waiting_count c [] = 0"
  "waiting_count c (g # gs) = waiting_count c gs + (if client_id g = Inr c then 1 else 0)"
  "waiting_count c (gs @ hs) = waiting_count c gs + waiting_count c hs"
  by (simp_all add: waiting_count_def)

lemma waiting_count_nonneg [simp]: "0 \<le> waiting_count c gs"
  by (simp add: waiting_count_def)

lemma counter_of_ok: "rq_ok q \<Longrightarrow> counter_of q c = waiting_count c (waiting_queue_items q)"
  by (simp add: counter_of_def dget_or_def rq_ok_def)

lemma rq_ok_init [intro]: "rq_ok (rq_init hw pw dw)"
  by (simp add: rq_ok_def rq_init_def)

lemma waiting_count_0: "waiting_count c gs \<le> 0 \<longleftrightarrow> waiting_count c gs = 0"
  using waiting_count_nonneg [of c gs] by linarith

lemma rq_append_ok:
  assumes ok: "rq_ok q" and c: "client_id g = Inr c"
  shows "\<exists>q'. rq_append g q = Inr q' \<and> rq_ok q' \<and> waiting_queue_items q' = waiting_queue_items q @ [g]"
proof -
  define sv where "sv = (if counter_of q c = 0 then AList.update c 0 (rq_served q) else rq_served q)"
  define q3 where "q3 = q\<lparr>rq_served := sv,
    client_counter := AList.update c (counter_of q c + 1) (client_counter q),
    waiting_queue_items := waiting_queue_items q @ [g]\<rparr>"
  have h: "has_client g" using c by (auto simp: has_client_iff)
  have sv: "dhas sv k \<longleftrightarrow> k = c \<or> dhas (rq_served q) k" for k
  proof (cases "counter_of q c = 0")
    case False
    then have "waiting_count c (waiting_queue_items q) > 0"
      using counter_of_ok [OF ok, of c] waiting_count_nonneg [of c "waiting_queue_items q"] by linarith
    with ok have "dhas (rq_served q) c" by (simp add: rq_ok_def)
    with False show ?thesis by (auto simp: sv_def)
  qed (simp add: sv_def dict_simps)
  have pos: "waiting_count c (waiting_queue_items q) + 1 \<noteq> 0"
    using waiting_count_nonneg [of c "waiting_queue_items q"] by linarith
  have ok3: "rq_ok q3"
    using ok h sv pos c counter_of_ok [OF ok, of c] unfolding q3_def rq_ok_def
    by (auto simp: dict_simps)
  have c3: "counter_of q3 c = counter_of q c + 1"
    by (simp add: q3_def counter_of_def dict_simps)
  obtain s where s: "map_of (rq_served q3) c = Some s"
    using sv [of c] by (auto simp: q3_def dhas_map_of)
  have app: "rq_append g q = (if counter_of q3 c = 1 then rq_lift c q3 else Inr q3)"
    using c unfolding q3_def sv_def
    by (cases "counter_of q c = 0")
      (simp_all add: rq_append_def bump_def counter_of_def Let_def)
  have "rq_ok (q3\<lparr>rq_served := AList.update c v (rq_served q3)\<rparr>)" for v
    using ok3 by (simp add: rq_ok_def dict_simps)
  with app ok3 s show ?thesis
    by (cases "pick (<) (\<lambda>x. x) (rq_active_scores c q3)") (auto simp: rq_lift_def q3_def)
qed

lemma rq_popleft_ok:
  assumes ok: "rq_ok q" and ne: "waiting_queue_items q = g # rest"
  shows "\<exists>q'. rq_popleft q = Inr (g, q') \<and> rq_ok q' \<and> waiting_queue_items q' = rest
     \<and> rq_served q' = rq_served q"
proof -
  from ok ne obtain c where c: "client_id g = Inr c" by (auto simp: rq_ok_def has_client_iff)
  define n where "n = waiting_count c rest"
  have pos: "waiting_count c rest + 1 \<noteq> 0" using waiting_count_nonneg [of c rest] by linarith
  have cnt: "map_of (client_counter q) k =
      (if k = c then Some (n + 1) else
       if waiting_count k rest = 0 then None else Some (waiting_count k rest))" for k
    using ok ne c pos by (auto simp: rq_ok_def n_def)
  have sv: "dhas (rq_served q) k" if "waiting_count k rest > 0" for k
    using ok ne that by (auto simp: rq_ok_def)
  have wf: "wf_dict (client_counter q)" "list_all has_client rest"
    using ok ne by (auto simp: rq_ok_def)
  show ?thesis
  proof (cases "n = 0")
    case True
    have "rq_popleft q = Inr (g, q\<lparr>waiting_queue_items := rest,
        client_counter := AList.delete c (AList.update c 0 (client_counter q))\<rparr>)"
      using ne c cnt [of c] True
      by (simp add: rq_popleft_def bump_def counter_of_def Let_def dict_simps)
    moreover have "rq_ok (q\<lparr>waiting_queue_items := rest,
        client_counter := AList.delete c (AList.update c 0 (client_counter q))\<rparr>)"
      using wf cnt sv True by (auto simp: rq_ok_def dict_simps n_def)
    ultimately show ?thesis by simp
  next
    case False
    have "rq_popleft q = Inr (g, q\<lparr>waiting_queue_items := rest,
        client_counter := AList.update c n (client_counter q)\<rparr>)"
      using ne c cnt [of c] False
      by (simp add: rq_popleft_def bump_def counter_of_def Let_def dict_simps)
    moreover have "rq_ok (q\<lparr>waiting_queue_items := rest,
        client_counter := AList.update c n (client_counter q)\<rparr>)"
      using wf cnt sv False by (auto simp: rq_ok_def dict_simps n_def)
    ultimately show ?thesis by simp
  qed
qed

definition rq_items :: "req_queue \<Rightarrow> seq_group multiset" where
  "rq_items q = mset (waiting_queue_items q)"

interpretation fcfs: waiting_queue rq_ok rq_items rq_append rq_popleft rq_bool rq_len
proof
  fix q g c
  assume q: "rq_ok q"
  show "\<exists>q'. rq_append g q = Inr q' \<and> rq_ok q' \<and> rq_items q' = add_mset g (rq_items q)"
    if "client_id g = Inr c" using rq_append_ok [OF q that] by (auto simp: rq_items_def)
  show "\<exists>g q'. rq_popleft q = Inr (g, q') \<and> rq_ok q' \<and> add_mset g (rq_items q') = rq_items q"
    if "rq_items q \<noteq> {#}"
    using that rq_popleft_ok [OF q] by (cases "waiting_queue_items q") (auto simp: rq_items_def)
  show "\<exists>e. rq_popleft q = Inl e" if "rq_items q = {#}"
    using that by (simp add: rq_items_def rq_popleft_def)
  show "rq_bool q \<longleftrightarrow> rq_items q \<noteq> {#}" by (simp add: rq_bool_def rq_items_def)
  show "rq_len q = int (size (rq_items q))" by (simp add: rq_len_def rq_items_def)
qed

section \<open>Properties\<close>

lemma rq_drain_order:
  "rq_ok q \<Longrightarrow> n \<le> length (waiting_queue_items q) \<Longrightarrow>
     \<exists>q'. drain rq_popleft n q = Inr (take n (waiting_queue_items q), q')"
proof (induction n arbitrary: q)
  case 0
  then show ?case by simp
next
  case (Suc n)
  then obtain g rest where gr: "waiting_queue_items q = g # rest"
    by (cases "waiting_queue_items q") auto
  from rq_popleft_ok [OF Suc.prems(1) gr] obtain q1 where q1: "rq_popleft q = Inr (g, q1)"
    "rq_ok q1" "waiting_queue_items q1 = rest" by blast
  with Suc.IH [OF q1(2)] Suc.prems(2) gr show ?case by auto
qed

lemma rq_append_all_items:
  "rq_ok q \<Longrightarrow> \<forall>g \<in> set gs. has_client g \<Longrightarrow>
     \<exists>q'. append_all rq_append gs q = Inr q' \<and> rq_ok q'
       \<and> waiting_queue_items q' = waiting_queue_items q @ gs"
proof (induction gs arbitrary: q)
  case Nil
  then show ?case by (simp add: append_all_def)
next
  case (Cons g gs)
  then obtain c where "client_id g = Inr c" by (auto simp: has_client_iff)
  from rq_append_ok [OF Cons.prems(1) this] obtain q1
    where q1: "rq_append g q = Inr q1" "rq_ok q1"
      "waiting_queue_items q1 = waiting_queue_items q @ [g]" by blast
  with Cons.IH [OF q1(2)] Cons.prems(2) show ?case by (auto simp: append_all_def)
qed

text \<open>
  \<open>ReqQueue\<close> is first come, first served: whatever requests are appended to a new queue
  come out in the same order, nothing raises, and afterwards the counter has no entry left.
\<close>

theorem req_queue_fifo:
  assumes "\<forall>g \<in> set gs. has_client g"
  shows "\<exists>q1 q2. append_all rq_append gs (rq_init hw pw dw) = Inr q1
     \<and> drain rq_popleft (length gs) q1 = Inr (gs, q2)
     \<and> rq_len q2 = 0 \<and> (\<forall>c. map_of (client_counter q2) c = None)"
proof -
  from rq_append_all_items [OF rq_ok_init assms, of hw pw dw] obtain q1 where
    q1: "append_all rq_append gs (rq_init hw pw dw) = Inr q1" "rq_ok q1" "waiting_queue_items q1 = gs"
    by (auto simp: rq_init_def)
  from fcfs.drain_contents [OF q1(2), of "length gs"] rq_drain_order [OF q1(2), of "length gs"] q1(3)
  obtain q2 where q2: "drain rq_popleft (length gs) q1 = Inr (gs, q2)" "rq_ok q2"
    "mset gs + rq_items q2 = mset gs" by (auto simp: rq_items_def)
  then have "waiting_queue_items q2 = []" by (simp add: rq_items_def)
  with q2(2) have "rq_len q2 = 0 \<and> (\<forall>c. map_of (client_counter q2) c = None)"
    by (simp add: rq_len_def rq_ok_def)
  with q1(1) q2(1) show ?thesis by blast
qed

definition rq_demo_group :: "int \<Rightarrow> string \<Rightarrow> seq_group" where
  "rq_demo_group c rid =
     new_seq_group rid [] 0 (Some \<lparr>sp_client_id = Some c, sp_best_of = 1, sp_use_beam_search = False, sp_preempted = False\<rparr>)
       None None 0"

lemma rq_demo_client [simp]: "client_id (rq_demo_group c rid) = Inr c"
  by (simp add: rq_demo_group_def new_seq_group_def client_id_def)

lemma req_queue_fifo_witness:
  "\<exists>q1 q2. append_all rq_append [rq_demo_group 1 ''a'', rq_demo_group 2 ''b''] (rq_init 0 1 1) = Inr q1
     \<and> drain rq_popleft 2 q1 = Inr ([rq_demo_group 1 ''a'', rq_demo_group 2 ''b''], q2)"
  using req_queue_fifo [of "[rq_demo_group 1 ''a'', rq_demo_group 2 ''b'']" 0 1 1]
  by (auto simp: has_client_iff numeral_2_eq_2)

text \<open>
  \<open>remove\<close> takes the request out of the deque and leaves the counter alone: the counter
  then exceeds the number of the client's waiting requests, so that the client, although idle,
  is never again treated as one that returns.
\<close>

theorem remove_leaves_counter:
  assumes "rq_ok q" "g \<in> set (waiting_queue_items q)" "client_id g = Inr c"
  shows "\<exists>q'. rq_remove g q = Inr q' \<and> \<not> rq_ok q'
     \<and> counter_of q' c = waiting_count c (waiting_queue_items q') + 1"
proof -
  define q' where "q' = q\<lparr>waiting_queue_items := remove1 g (waiting_queue_items q)\<rparr>"
  have "waiting_count c gs = waiting_count c (remove1 g gs) + 1" if "g \<in> set gs" for gs
    using that assms(3) by (induction gs) auto
  from this [OF assms(2)] have "counter_of q' c = waiting_count c (waiting_queue_items q') + 1"
    using counter_of_ok [OF assms(1), of c] by (simp add: q'_def counter_of_def)
  moreover from this have "\<not> rq_ok q'" using counter_of_ok [of q' c] by fastforce
  ultimately show ?thesis using assms(2) by (simp add: rq_remove_def q'_def)
qed

lemma remove_leaves_counter_witness:
  "\<exists>q1 q'. rq_append (rq_demo_group 1 ''a'') (rq_init 0 1 1) = Inr q1
     \<and> rq_remove (rq_demo_group 1 ''a'') q1 = Inr q' \<and> \<not> rq_ok q'"
proof -
  from rq_append_ok [of "rq_init 0 1 1" "rq_demo_group 1 ''a''" 1, OF rq_ok_init rq_demo_client] obtain q1 where
    "rq_append (rq_demo_group 1 ''a'') (rq_init 0 1 1) = Inr q1" "rq_ok q1"
    "rq_demo_group 1 ''a'' \<in> set (waiting_queue_items q1)" by auto
  with remove_leaves_counter [OF this(2,3) rq_demo_client] show ?thesis by blast
qed

end
