(* ===== verification/LRU_Evictors.thy ===== *)
theory LRU_Evictors
  imports Fair_Evictor
begin

text \<open>
  The least-recently-used evictors of \<open>LMCache/lmcache/storage_backend/evictor\<close>: \<open>LRUEvictor\<close>
  (\<open>lru_evictor.py\<close>), which evicts from the front of one ordered dictionary, and
  \<open>LRUClientEvictor\<close> (\<open>lru_client_evictor.py\<close>), which first chooses a client by one of three
  policies and then evicts from the front of that client's dictionary.  \<open>get_size\<close> of the stored
  objects is a parameter \<open>sz_of\<close>; an exhausted iterator raises \<open>StopIteration\<close>.
\<close>

section \<open>LRUEvictor\<close>

record lru_evictor =
  lru_max :: real
  lru_cur :: real

definition lru_init :: "real \<Rightarrow> lru_evictor" where
  "lru_init mx = \<lparr>lru_max = of_int \<lfloor>mx * 1024 ^ 3\<rfloor>, lru_cur = 0\<rparr>"

definition lru_update_on_get :: "'k \<Rightarrow> ('k, 'v) dict \<Rightarrow> ('k, 'v) dict result" where
  "lru_update_on_get k d = move_to_end d k"

fun lru_loop ::
  "('v \<Rightarrow> real) \<Rightarrow> real \<Rightarrow> ('k, 'v) dict \<Rightarrow> lru_evictor \<Rightarrow> 'k list \<Rightarrow> (lru_evictor \<times> 'k list) result" where
  "lru_loop sz_of sz it ev ks =
     (if sz + lru_cur ev > lru_max ev then
        (case it of
           [] \<Rightarrow> Inl StopIteration
         | (k, v) # rest \<Rightarrow>
             lru_loop sz_of sz rest (ev\<lparr>lru_cur := lru_cur ev - sz_of v\<rparr>) (ks @ [k]))
      else Inr (ev, ks))"

declare lru_loop.simps [simp del]

definition lru_update_on_put ::
  "('v \<Rightarrow> real) \<Rightarrow> ('k, 'v) dict \<Rightarrow> real \<Rightarrow> lru_evictor \<Rightarrow> (lru_evictor \<times> 'k list \<times> put_status) result" where
  "lru_update_on_put sz_of d sz ev =
     (if sz > lru_max ev then Inr (ev, [], ILLEGAL)
      else bindr (lru_loop sz_of sz d ev []) (\<lambda>(ev1, ks).
             Inr (ev1\<lparr>lru_cur := lru_cur ev1 + sz\<rparr>, ks, LEGAL)))"

definition dummy_update_on_put :: "('k list \<times> put_status)" where
  "dummy_update_on_put = ([], LEGAL)"

lemma lru_loop_prefix:
  assumes "sz \<le> lru_max ev + dsum sz_of it - lru_cur ev" "\<forall>p \<in> set it. 0 \<le> sz_of (snd p)"
  shows "\<exists>n \<le> length it. lru_loop sz_of sz it ev ks
       = Inr (ev\<lparr>lru_cur := lru_cur ev - dsum sz_of (take n it)\<rparr>, ks @ dkeys (take n it))
     \<and> sz + lru_cur ev - dsum sz_of (take n it) \<le> lru_max ev
     \<and> (\<forall>m < n. sz + lru_cur ev - dsum sz_of (take m it) > lru_max ev)"
  using assms
proof (induction it arbitrary: ev ks)
  case Nil
  then show ?case by (subst lru_loop.simps) auto
next
  case (Cons p it)
  obtain k v where p: "p = (k, v)" by (cases p)
  show ?case
  proof (cases "sz + lru_cur ev > lru_max ev")
    case False
    then show ?thesis by (intro exI [of _ 0]) (subst lru_loop.simps, simp)
  next
    case True
    let ?ev = "ev\<lparr>lru_cur := lru_cur ev - sz_of v\<rparr>"
    from Cons.IH [of ?ev "ks @ [k]"] Cons.prems p obtain n where
      n: "n \<le> length it" "lru_loop sz_of sz it ?ev (ks @ [k])
         = Inr (?ev\<lparr>lru_cur := lru_cur ?ev - dsum sz_of (take n it)\<rparr>, (ks @ [k]) @ dkeys (take n it))"
      "sz + lru_cur ?ev - dsum sz_of (take n it) \<le> lru_max ?ev"
      "\<forall>m < n. sz + lru_cur ?ev - dsum sz_of (take m it) > lru_max ?ev" by auto
    show ?thesis
    proof (intro exI [of _ "Suc n"] conjI)
      show "lru_loop sz_of sz (p # it) ev ks = Inr (ev\<lparr>lru_cur := lru_cur ev - dsum sz_of (take (Suc n) (p # it))\<rparr>,
          ks @ dkeys (take (Suc n) (p # it)))"
        using True n(2) p by (subst lru_loop.simps) (simp add: algebra_simps)
      show "\<forall>m < Suc n. sz + lru_cur ev - dsum sz_of (take m (p # it)) > lru_max ev"
      proof (intro allI impI)
        fix m assume "m < Suc n"
        with n(4) True p show "sz + lru_cur ev - dsum sz_of (take m (p # it)) > lru_max ev"
          by (cases m) (auto simp: algebra_simps)
      qed
    qed (use n p in \<open>auto simp: algebra_simps\<close>)
  qed
qed

lemma lru_put_prefix:
  assumes "lru_cur ev = dsum sz_of d" "\<forall>p \<in> set d. 0 \<le> sz_of (snd p)"
  shows "if sz > lru_max ev then lru_update_on_put sz_of d sz ev = Inr (ev, [], ILLEGAL)
     else \<exists>n ev'. lru_update_on_put sz_of d sz ev = Inr (ev', dkeys (take n d), LEGAL)
            \<and> lru_cur ev' = dsum sz_of (drop n d) + sz \<and> lru_cur ev' \<le> lru_max ev
            \<and> lru_max ev' = lru_max ev
            \<and> (\<forall>m < n. dsum sz_of (drop m d) + sz > lru_max ev)"
proof (cases "sz > lru_max ev")
  case True
  then show ?thesis by (simp add: lru_update_on_put_def)
next
  case False
  have split: "dsum sz_of d = dsum sz_of (take m d) + dsum sz_of (drop m d)" for m
    by (metis append_take_drop_id dsum_append)
  from lru_loop_prefix [of sz ev sz_of d "[]"] False assms obtain n where
    n: "lru_loop sz_of sz d ev []
       = Inr (ev\<lparr>lru_cur := lru_cur ev - dsum sz_of (take n d)\<rparr>, dkeys (take n d))"
    "sz + lru_cur ev - dsum sz_of (take n d) \<le> lru_max ev"
    "\<forall>m < n. sz + lru_cur ev - dsum sz_of (take m d) > lru_max ev" by auto
  have "dsum sz_of (drop m d) + sz > lru_max ev" if "m < n" for m
    using n(3) that split [of m] assms(1) by (auto simp: algebra_simps)
  moreover have "lru_cur ev - dsum sz_of (take n d) = dsum sz_of (drop n d)"
    using split [of n] assms(1) by simp
  ultimately show ?thesis
    using False n(1,2) by (auto simp: lru_update_on_put_def algebra_simps)
qed

text \<open>
  \<open>LRUEvictor.update_on_put\<close> on a cache whose byte count is right: an object larger than the
  limit is refused and nothing changes; otherwise nothing is raised, the keys evicted are the
  shortest prefix of the recency order that makes room, and the byte count is right for the
  dictionary without them plus the new object, within the limit.
\<close>

theorem lru_evicts_shortest_prefix:
  assumes "lru_cur ev = dsum sz_of d" "\<forall>p \<in> set d. 0 \<le> sz_of (snd p)"
  shows "if sz > lru_max ev then lru_update_on_put sz_of d sz ev = Inr (ev, [], ILLEGAL)
     else \<exists>n ev'. lru_update_on_put sz_of d sz ev = Inr (ev', dkeys (take n d), LEGAL)
            \<and> lru_cur ev' = dsum sz_of (drop n d) + sz \<and> lru_cur ev' \<le> lru_max ev
            \<and> lru_max ev' = lru_max ev
            \<and> (\<forall>m < n. dsum sz_of (drop m d) + sz > lru_max ev)"
  using assms by (rule lru_put_prefix)

lemma lru_evicts_shortest_prefix_witness:
  "\<exists>n ev'. lru_update_on_put id [(1::nat, 4::real), (2, 5), (3, 6)] 3 \<lparr>lru_max = 15, lru_cur = 15\<rparr>
     = Inr (ev', dkeys (take n [(1::nat, 4::real), (2, 5), (3, 6)]), LEGAL) \<and> lru_cur ev' \<le> 15"
  using lru_evicts_shortest_prefix [of "\<lparr>lru_max = 15, lru_cur = 15\<rparr>" id "[(1::nat, 4::real), (2, 5), (3, 6)]" 3]
  by auto

section \<open>LRUClientEvictor\<close>

type_synonym 'k client_cache = "(int, ('k, cache_entry) dict) dict"

record lru_client_evictor =
  lc_max :: real
  lc_max_per_client :: real
  lc_chunk :: real
  lc_cur :: real
  time_window :: real

definition lc_init :: "real \<Rightarrow> real \<Rightarrow> lru_client_evictor" where
  "lc_init mx chunk =
     \<lparr>lc_max = of_int \<lfloor>mx * 1024 ^ 3\<rfloor>, lc_max_per_client = of_int \<lfloor>mx * 1024 ^ 3 / 5\<rfloor>,
      lc_chunk = chunk, lc_cur = 0, time_window = 100\<rparr>"

definition lc_update_on_get :: "real \<Rightarrow> 'k \<Rightarrow> int \<Rightarrow> 'k client_cache \<Rightarrow> 'k client_cache result" where
  "lc_update_on_get now k c cd =
     bindr (dindex cd c) (\<lambda>d. bindr (dindex d k) (\<lambda>e.
       bindr (move_to_end (AList.update k (update_access_time now None e) d) k) (\<lambda>d'.
         Inr (AList.update c d' cd))))"

definition client_bytes :: "'k client_cache \<Rightarrow> (int, real) dict" where
  "client_bytes cd = map (\<lambda>cc. (fst cc, dsum entry_size (snd cc))) cd"

definition cold_bytes :: "real \<Rightarrow> lru_client_evictor \<Rightarrow> 'k client_cache \<Rightarrow> (int, real) dict" where
  "cold_bytes now ev cd =
     map (\<lambda>cc. (fst cc,
       dsum (\<lambda>e. if now - last_access_time e > time_window ev then entry_size e else 0) (snd cc))) cd"

definition first_fitting :: "(int, real) dict \<Rightarrow> real \<Rightarrow> int list \<Rightarrow> int option" where
  "first_fitting sizes sz cs = find (\<lambda>c. dget_or sizes c 0 \<ge> sz) cs"

definition mmf_client_to_evict :: "'k client_cache \<Rightarrow> real \<Rightarrow> int result" where
  "mmf_client_to_evict cd sz =
     (let sizes = client_bytes cd in
      case first_fitting sizes sz (sort_key (\<lambda>c. - dget_or sizes c 0) (dkeys sizes)) of
        None \<Rightarrow> Inl ValueError | Some c \<Rightarrow> Inr c)"

definition client_stamps :: "'k client_cache \<Rightarrow> (int, real) dict" where
  "client_stamps cd =
     concat (map (\<lambda>cc. case snd cc of [] \<Rightarrow> [] | (k, e) # _ \<Rightarrow> [(fst cc, last_access_time e)]) cd)"

definition lru_client_to_evict :: "'k client_cache \<Rightarrow> real \<Rightarrow> int result" where
  "lru_client_to_evict cd sz =
     (let stamps = client_stamps cd;
          sizes = client_bytes cd
      in case first_fitting sizes sz (sort_key (\<lambda>c. dget_or stamps c 0) (dkeys stamps)) of
           None \<Rightarrow> Inl ValueError | Some c \<Rightarrow> Inr c)"

definition wac_client_to_evict ::
  "real \<Rightarrow> lru_client_evictor \<Rightarrow> 'k client_cache \<Rightarrow> real \<Rightarrow> int \<Rightarrow> int result" where
  "wac_client_to_evict now ev cd sz cur =
     (let cold = cold_bytes now ev cd; total = client_bytes cd in
      case first_fitting total sz
             (sort_key (\<lambda>c. (- dget_or cold c 0, - dget_or total c 0)) (dkeys cold)) of
        None \<Rightarrow> Inl ValueError
      | Some c \<Rightarrow>
          if c = cur \<or> \<not> dhas cd cur then Inr c
          else if dget_or cold c 0 > dget_or cold cur 0 then Inr c
          else if dget_or total c 0 - dget_or total cur 0 \<le> lc_chunk ev then Inr cur
          else Inr c)"

fun lc_loop ::
  "real \<Rightarrow> 'k list \<Rightarrow> ('k, cache_entry) dict \<Rightarrow> lru_client_evictor \<Rightarrow> 'k list
     \<Rightarrow> (lru_client_evictor \<times> 'k list option) result" where
  "lc_loop sz retrieved it ev ks =
     (if sz + lc_cur ev > lc_max ev then
        (case it of
           [] \<Rightarrow> Inl StopIteration
         | (k, e) # rest \<Rightarrow>
             if k \<in> set retrieved then Inr (ev, None)
             else lc_loop sz retrieved rest (ev\<lparr>lc_cur := lc_cur ev - entry_size e\<rparr>) (ks @ [k]))
      else Inr (ev, Some ks))"

declare lc_loop.simps [simp del]

definition lc_update_on_put ::
  "'k client_cache \<Rightarrow> real \<Rightarrow> 'k list \<Rightarrow> lru_client_evictor
     \<Rightarrow> (lru_client_evictor \<times> int option \<times> 'k list \<times> put_status) result" where
  "lc_update_on_put cd sz retrieved ev =
     (if sz > lc_max ev then Inr (ev, None, [], ILLEGAL)
      else if sz + lc_cur ev > lc_max ev then
        bindr (lru_client_to_evict cd sz) (\<lambda>c. bindr (dindex cd c) (\<lambda>d.
          bindr (lc_loop sz retrieved d ev []) (\<lambda>(ev1, r).
            case r of
              None \<Rightarrow> Inr (ev1, None, [], ILLEGAL)
            | Some ks \<Rightarrow> Inr (ev1\<lparr>lc_cur := lc_cur ev1 + sz\<rparr>, Some c, ks, LEGAL))))
      else Inr (ev\<lparr>lc_cur := lc_cur ev + sz\<rparr>, None, [], LEGAL))"

lemma first_fitting_sorted:
  assumes "first_fitting sizes sz (sort_key f cs) = Some c"
  shows "c \<in> set cs" "sz \<le> dget_or sizes c 0"
    and "\<And>x. x \<in> set cs \<Longrightarrow> sz \<le> dget_or sizes x 0 \<Longrightarrow> f c \<le> (f x :: 'b::linorder)"
proof -
  from assms obtain i where i: "i < length (sort_key f cs)" "c = sort_key f cs ! i"
    "sz \<le> dget_or sizes c 0" "\<forall>j < i. \<not> sz \<le> dget_or sizes (sort_key f cs ! j) 0"
    by (auto simp: first_fitting_def find_Some_iff)
  then have "c \<in> set (sort_key f cs)" using nth_mem by blast
  then show "c \<in> set cs" by simp
  show "sz \<le> dget_or sizes c 0" by (rule i(3))
  fix x assume x: "x \<in> set cs" "sz \<le> dget_or sizes x 0"
  then have "x \<in> set (sort_key f cs)" by simp
  then obtain j where j: "j < length (sort_key f cs)" "x = sort_key f cs ! j"
    by (metis in_set_conv_nth)
  with i(4) x(2) have "i \<le> j" by (metis not_le)
  have "sorted (map f (sort_key f cs))" by simp
  from sorted_nth_mono [OF this \<open>i \<le> j\<close>] i(1,2) j show "f c \<le> f x" by simp
qed

lemma first_fitting_None:
  "first_fitting sizes sz (sort_key f cs) = None \<longleftrightarrow> (\<forall>x \<in> set cs. dget_or sizes x 0 < sz)"
  by (auto simp: first_fitting_def find_None_iff not_le)

lemma client_stamps_keys:
  "c \<in> set (dkeys (client_stamps cd)) \<longleftrightarrow> (\<exists>d. (c, d) \<in> set cd \<and> d \<noteq> [])"
proof (induction cd)
  case Nil
  then show ?case by (simp add: client_stamps_def)
next
  case (Cons cc cd)
  have "client_stamps (cc # cd) = (case snd cc of [] \<Rightarrow> [] | (k, e) # _ \<Rightarrow> [(fst cc, last_access_time e)]) @ client_stamps cd"
    by (simp add: client_stamps_def)
  with Cons show ?case by (cases cc; cases "snd cc") auto
qed

lemma dkeys_client_bytes [simp]: "dkeys (client_bytes cd) = dkeys cd"
  by (simp add: client_bytes_def o_def)

text \<open>
  The max-min-fair policy evicts from a client that holds the most bytes: it raises only
  when every client holds fewer bytes than the new object needs, and otherwise the chosen
  client holds at least as many as any other.
\<close>

theorem mmf_chooses_largest:
  "(if \<forall>c \<in> set (dkeys cd). dget_or (client_bytes cd) c 0 < sz
    then mmf_client_to_evict cd sz = Inl ValueError
    else \<exists>c \<in> set (dkeys cd). mmf_client_to_evict cd sz = Inr c
           \<and> sz \<le> dget_or (client_bytes cd) c 0
           \<and> (\<forall>x \<in> set (dkeys cd). dget_or (client_bytes cd) x 0 \<le> dget_or (client_bytes cd) c 0))"
proof -
  let ?s = "client_bytes cd" and ?f = "\<lambda>c. - dget_or (client_bytes cd) c 0"
  show ?thesis
  proof (cases "first_fitting ?s sz (sort_key ?f (dkeys ?s))")
    case None
    then show ?thesis using first_fitting_None [of ?s sz ?f "dkeys ?s"]
      by (simp add: mmf_client_to_evict_def Let_def)
  next
    case (Some c)
    note ff = first_fitting_sorted [OF Some]
    have "dget_or ?s x 0 \<le> dget_or ?s c 0" if "x \<in> set (dkeys cd)" for x
      using ff(2) ff(3) [of x] that by (cases "sz \<le> dget_or ?s x 0") auto
    moreover have "mmf_client_to_evict cd sz = Inr c"
      using Some by (simp add: mmf_client_to_evict_def Let_def)
    moreover have "\<not> (\<forall>c \<in> set (dkeys cd). dget_or ?s c 0 < sz)" using ff(1,2) by force
    ultimately show ?thesis using ff(1,2) by auto
  qed
qed

lemma mmf_chooses_largest_witness:
  "mmf_client_to_evict [(1, [(7::nat, demo_entry 1 [])]), (2, [])] 1 = Inr 1"
  using mmf_chooses_largest [of "[(1, [(7::nat, demo_entry 1 [])]), (2, [])]" 1]
  by (auto simp: client_bytes_def entry_size_def demo_entry_def dget_or_def)

lemma lc_loop_enough:
  assumes "sz + lc_cur ev - dsum entry_size it \<le> lc_max ev"
  shows "\<exists>ev' r. lc_loop sz rk it ev ks = Inr (ev', r)
     \<and> (case r of None \<Rightarrow> True
        | Some ks' \<Rightarrow> \<exists>n \<le> length it. ks' = ks @ dkeys (take n it)
            \<and> ev' = ev\<lparr>lc_cur := lc_cur ev - dsum entry_size (take n it)\<rparr>
            \<and> sz + lc_cur ev' \<le> lc_max ev' \<and> set (dkeys (take n it)) \<inter> set rk = {})"
  using assms
proof (induction it arbitrary: ev ks)
  case Nil
  then show ?case by (subst lc_loop.simps) auto
next
  case (Cons p it)
  obtain k e where p: "p = (k, e)" by (cases p)
  let ?ev = "ev\<lparr>lc_cur := lc_cur ev - entry_size e\<rparr>"
  show ?case
  proof (cases "sz + lc_cur ev > lc_max ev \<and> k \<notin> set rk")
    case False
    then show ?thesis using p by (subst lc_loop.simps) (force split: if_splits)
  next
    case True
    then have eq: "lc_loop sz rk (p # it) ev ks = lc_loop sz rk it ?ev (ks @ [k])"
      using p by (subst lc_loop.simps) simp
    from Cons.IH [of ?ev "ks @ [k]"] Cons.prems p obtain ev' r where
      r: "lc_loop sz rk it ?ev (ks @ [k]) = Inr (ev', r)"
      "case r of None \<Rightarrow> True
        | Some ks' \<Rightarrow> \<exists>n \<le> length it. ks' = (ks @ [k]) @ dkeys (take n it)
            \<and> ev' = ?ev\<lparr>lc_cur := lc_cur ?ev - dsum entry_size (take n it)\<rparr>
            \<and> sz + lc_cur ev' \<le> lc_max ev' \<and> set (dkeys (take n it)) \<inter> set rk = {}"
      by (auto simp: algebra_simps)
    show ?thesis
    proof (cases r)
      case None
      with r eq show ?thesis by simp
    next
      case (Some ks')
      with r(2) obtain n where n: "n \<le> length it" "ks' = (ks @ [k]) @ dkeys (take n it)"
        "ev' = ?ev\<lparr>lc_cur := lc_cur ?ev - dsum entry_size (take n it)\<rparr>"
        "sz + lc_cur ev' \<le> lc_max ev'" "set (dkeys (take n it)) \<inter> set rk = {}" by auto
      have disj: "set (dkeys (take (Suc n) (p # it))) \<inter> set rk = {}" using n(5) True p by simp
      show ?thesis
        unfolding eq r(1) Some
        by (intro exI [of _ ev'] exI [of _ "Some ks'"])
          (use n(1-4) disj p in \<open>simp, intro exI [of _ "Suc n"], simp add: algebra_simps\<close>)
    qed
  qed
qed

text \<open>
  The per-client evictor, from a state within its limit, never exhausts the iterator: the client
  the policy chooses holds at least the bytes needed.  It raises only when no client with a
  cached entry does; on \<open>LEGAL\<close> the byte count fits the limit and no retrieved key is evicted.
\<close>

theorem lru_client_put_outcome:
  assumes "wf_dict cd" "lc_cur ev \<le> lc_max ev"
  shows "case lc_update_on_put cd sz retrieved ev of
       Inl e \<Rightarrow> e = ValueError
         \<and> (\<forall>c d. map_of cd c = Some d \<and> d \<noteq> [] \<longrightarrow> dsum entry_size d < sz)
     | Inr (ev', ec, ks, st) \<Rightarrow>
         if st = LEGAL then lc_cur ev' \<le> lc_max ev' \<and> set ks \<inter> set retrieved = {}
           \<and> (\<forall>c. ec = Some c \<longrightarrow> (\<exists>d n. map_of cd c = Some d \<and> ks = dkeys (take n d)
                \<and> lc_cur ev' = lc_cur ev - dsum entry_size (take n d) + sz))
         else ec = None \<and> ks = []"
proof (cases "sz > lc_max ev \<or> sz + lc_cur ev \<le> lc_max ev")
  case True
  then show ?thesis by (auto simp: lc_update_on_put_def algebra_simps)
next
  case False
  define stamps where "stamps = client_stamps cd"
  have st: "c \<in> set (dkeys stamps) \<longleftrightarrow> (\<exists>d. (c, d) \<in> set cd \<and> d \<noteq> [])" for c
    unfolding stamps_def by (rule client_stamps_keys)
  have sz_of: "dget_or (client_bytes cd) c 0 = dsum entry_size d" if "map_of cd c = Some d" for c d
  proof -
    have "map_of (client_bytes cd) c = map_option (dsum entry_size) (map_of cd c)"
      unfolding client_bytes_def by (induction cd) auto
    with that show ?thesis by (simp add: dget_or_def)
  qed
  let ?f = "\<lambda>c. dget_or stamps c 0"
  have pol: "lru_client_to_evict cd sz = (case first_fitting (client_bytes cd) sz (sort_key ?f (dkeys stamps)) of
      None \<Rightarrow> Inl ValueError | Some c \<Rightarrow> Inr c)"
    by (simp add: lru_client_to_evict_def stamps_def Let_def)
  show ?thesis
  proof (cases "first_fitting (client_bytes cd) sz (sort_key ?f (dkeys stamps))")
    case None
    have "dsum entry_size d < sz" if "map_of cd c = Some d" "d \<noteq> []" for c d
      using None [unfolded first_fitting_None] st [of c] map_of_SomeD [OF that(1)] that sz_of [OF that(1)]
      by auto
    with None False pol show ?thesis by (auto simp: lc_update_on_put_def)
  next
    case (Some c)
    note ff = first_fitting_sorted [OF Some]
    from ff(1) st obtain d where "(c, d) \<in> set cd" by blast
    then have d: "map_of cd c = Some d" using assms(1) by simp
    then have "sz + lc_cur ev - dsum entry_size d \<le> lc_max ev"
      using ff(2) sz_of [OF d] assms(2) by simp
    from lc_loop_enough [OF this, of retrieved "[]"] obtain ev' r where
      r: "lc_loop sz retrieved d ev [] = Inr (ev', r)"
      "case r of None \<Rightarrow> True
        | Some ks' \<Rightarrow> \<exists>n \<le> length d. ks' = [] @ dkeys (take n d)
            \<and> ev' = ev\<lparr>lc_cur := lc_cur ev - dsum entry_size (take n d)\<rparr>
            \<and> sz + lc_cur ev' \<le> lc_max ev' \<and> set (dkeys (take n d)) \<inter> set retrieved = {}" by blast
    have put: "lc_update_on_put cd sz retrieved ev = (case r of
              None \<Rightarrow> Inr (ev', None, [], ILLEGAL)
            | Some ks \<Rightarrow> Inr (ev'\<lparr>lc_cur := lc_cur ev' + sz\<rparr>, Some c, ks, LEGAL))"
      using False Some pol d r(1) by (simp add: lc_update_on_put_def)
    show ?thesis
    proof (cases r)
      case None
      with put show ?thesis by simp
    next
      case (Some ks)
      with r(2) obtain n where n: "ks = dkeys (take n d)"
        "ev' = ev\<lparr>lc_cur := lc_cur ev - dsum entry_size (take n d)\<rparr>"
        "sz + lc_cur ev' \<le> lc_max ev'" "set (dkeys (take n d)) \<inter> set retrieved = {}" by auto
      with put Some d show ?thesis by (auto simp: algebra_simps)
    qed
  qed
qed

lemma lru_client_put_outcome_witness:
  "case lc_update_on_put [(1, [(7::nat, demo_entry 1 [])])] 1 [] ((lc_init 0 1)\<lparr>lc_max := 1, lc_cur := 1\<rparr>) of
     Inl e \<Rightarrow> False | Inr (ev', ec, ks, st) \<Rightarrow> st = LEGAL \<and> lc_cur ev' \<le> 1"
proof -
  have "lc_update_on_put [(1, [(7::nat, demo_entry 1 [])])] 1 [] ((lc_init 0 1)\<lparr>lc_max := 1, lc_cur := 1\<rparr>)
      = Inr ((lc_init 0 1)\<lparr>lc_max := 1, lc_cur := 1\<rparr>, Some 1, [7], LEGAL)"
    by (simp add: lc_update_on_put_def lru_client_to_evict_def client_bytes_def first_fitting_def
        client_stamps_def Let_def lc_loop.simps lc_init_def entry_size_def demo_entry_def dget_or_def)
  with lru_client_put_outcome [of "[(1, [(7::nat, demo_entry 1 [])])]" "(lc_init 0 1)\<lparr>lc_max := 1, lc_cur := 1\<rparr>" 1 "[]"]
  show ?thesis by (simp add: lc_init_def)
qed

end
