(* ===== verification/Local_Backend.thy ===== *)
theory Local_Backend
  imports KV_Store LRU_Evictors
begin

text \<open>
  \<open>LMCLocalBackend\<close> of \<open>LMCache/lmcache/storage_backend/local_backend.py\<close>: a dictionary from keys to
  pool objects in recency order, the LRU evictor and the pool.  As in the fair backend a
  non-blocking put is two locked sections with the copy between them; a blocking put runs in one
  go but removes the replaced object before it evicts.
\<close>

section \<open>State and operations\<close>

record ('k, 'p) local_backend =
  lb_dict :: "('k, kv_obj) dict"
  lb_ev :: lru_evictor
  lb_pool :: "'p local_pool"

definition new_local_backend :: "pool_metadata \<Rightarrow> (nat \<Rightarrow> 'p) \<Rightarrow> ('k, 'p) local_backend result" where
  "new_local_backend md junk =
     bindr (new_pool md junk) (\<lambda>p.
       Inr \<lparr>lb_dict = [], lb_ev = lru_init (max_local_cache_size md), lb_pool = p\<rparr>)"

definition lb_contains :: "'k \<Rightarrow> ('k, 'p) local_backend \<Rightarrow> bool" where
  "lb_contains k b \<longleftrightarrow> dhas (lb_dict b) k"

definition lb_remove :: "'k \<Rightarrow> ('k, 'p) local_backend \<Rightarrow> ('k, 'p) local_backend result" where
  "lb_remove k b =
     bindr (dindex (lb_dict b) k) (\<lambda>obj.
       Inr (b\<lparr>lb_dict := AList.delete k (lb_dict b), lb_pool := pool_free obj (lb_pool b)\<rparr>))"

definition lb_evict :: "'k list \<Rightarrow> ('k, 'p) local_backend \<Rightarrow> ('k, 'p) local_backend result" where
  "lb_evict ks b = foldM (\<lambda>b k. lb_remove k b) b ks"

definition lb_drop :: "'k \<Rightarrow> ('k, 'p) local_backend \<Rightarrow> ('k, 'p) local_backend result" where
  "lb_drop k b = (if dhas (lb_dict b) k then lb_remove k b else Inr b)"

definition obj_size :: "kv_obj \<Rightarrow> real" where
  "obj_size obj = of_int (kv_size obj)"

definition lb_select :: "('k, 'p) local_backend \<Rightarrow> (lru_evictor \<times> 'k list \<times> put_status) result" where
  "lb_select b = lru_update_on_put obj_size (lb_dict b) (of_int (size_per_chunk (lb_pool b))) (lb_ev b)"

definition lb_allocate :: "'p kv_tensor \<Rightarrow> ('k, 'p) local_backend \<Rightarrow> (kv_obj \<times> ('k, 'p) local_backend) result" where
  "lb_allocate t b = bindr (pool_allocate t (lb_pool b)) (\<lambda>(obj, p). Inr (obj, b\<lparr>lb_pool := p\<rparr>))"

definition lb_copy :: "kv_obj \<Rightarrow> 'p kv_tensor \<Rightarrow> ('k, 'p) local_backend \<Rightarrow> ('k, 'p) local_backend" where
  "lb_copy obj t b = b\<lparr>lb_pool := pool_write obj t (lb_pool b)\<rparr>"

definition lb_insert :: "'k \<Rightarrow> kv_obj \<Rightarrow> ('k, 'p) local_backend \<Rightarrow> ('k, 'p) local_backend" where
  "lb_insert k obj b = b\<lparr>lb_dict := AList.update k obj (lb_dict b)\<rparr>"

definition lb_put_begin ::
  "'k \<Rightarrow> 'p kv_tensor \<Rightarrow> ('k, 'p) local_backend \<Rightarrow> (kv_obj option \<times> ('k, 'p) local_backend) result" where
  "lb_put_begin k t b =
     bindr (lb_select b) (\<lambda>(ev, ks, st).
       let b1 = b\<lparr>lb_ev := ev\<rparr> in
       if st = ILLEGAL then Inr (None, b1)
       else bindr (lb_evict ks b1) (\<lambda>b2. bindr (lb_drop k b2) (\<lambda>b3.
              bindr (lb_allocate t b3) (\<lambda>(obj, b4). Inr (Some obj, b4)))))"

definition lb_put_nonblocking :: "'k \<Rightarrow> 'p kv_tensor \<Rightarrow> ('k, 'p) local_backend \<Rightarrow> ('k, 'p) local_backend result" where
  "lb_put_nonblocking k t b =
     bindr (lb_put_begin k t b) (\<lambda>(r, b1).
       case r of None \<Rightarrow> Inr b1 | Some obj \<Rightarrow> Inr (lb_insert k obj (lb_copy obj t b1)))"

definition lb_put_blocking :: "'k \<Rightarrow> 'p kv_tensor \<Rightarrow> ('k, 'p) local_backend \<Rightarrow> ('k, 'p) local_backend result" where
  "lb_put_blocking k t b =
     bindr (lb_select b) (\<lambda>(ev, ks, st).
       let b1 = b\<lparr>lb_ev := ev\<rparr> in
       if st = ILLEGAL then Inr b1
       else bindr (lb_drop k b1) (\<lambda>b2. bindr (lb_evict ks b2) (\<lambda>b3.
              bindr (lb_allocate t b3) (\<lambda>(obj, b4). Inr (lb_insert k obj (lb_copy obj t b4))))))"

text \<open>\<open>put\<close> either puts at once or appends to the queue that the worker thread empties.\<close>

definition lb_put ::
  "bool \<Rightarrow> 'k \<Rightarrow> 'p kv_tensor \<Rightarrow> ('k, 'p) local_backend \<times> ('k \<times> 'p kv_tensor) list
     \<Rightarrow> (('k, 'p) local_backend \<times> ('k \<times> 'p kv_tensor) list) result" where
  "lb_put blocking k t bq =
     (if blocking then bindr (lb_put_blocking k t (fst bq)) (\<lambda>b'. Inr (b', snd bq))
      else Inr (fst bq, snd bq @ [(k, t)]))"

fun lb_worker ::
  "('k \<times> 'p kv_tensor) list \<Rightarrow> ('k, 'p) local_backend \<Rightarrow> ('k, 'p) local_backend result" where
  "lb_worker [] b = Inr b"
| "lb_worker ((k, t) # q) b = bindr (lb_put_nonblocking k t b) (\<lambda>b'. lb_worker q b')"

definition lb_get :: "'k \<Rightarrow> ('k, 'p) local_backend \<Rightarrow> ('p option \<times> ('k, 'p) local_backend) result" where
  "lb_get k b =
     (case map_of (lb_dict b) k of
        None \<Rightarrow> Inr (None, b)
      | Some obj \<Rightarrow> bindr (lru_update_on_get k (lb_dict b)) (\<lambda>d.
          Inr (Some (pool_read obj (lb_pool b)), b\<lparr>lb_dict := d\<rparr>)))"

section \<open>Invariant\<close>

definition obj_chunks :: "('k, kv_obj) dict \<Rightarrow> nat list" where
  "obj_chunks d = map (\<lambda>kv. chunk_idx (snd kv)) d"

definition lb_ok :: "('k, 'p) local_backend \<Rightarrow> bool" where
  "lb_ok b \<longleftrightarrow> wf_dict (lb_dict b) \<and> pool_ok (lb_pool b) (obj_chunks (lb_dict b))
     \<and> (\<forall>kv \<in> set (lb_dict b). kv_size (snd kv) = size_per_chunk (lb_pool b))"

definition lb_content :: "('k, 'p) local_backend \<Rightarrow> 'k \<Rightarrow> 'p option" where
  "lb_content b k = map_option (\<lambda>obj. pool_read obj (lb_pool b)) (map_of (lb_dict b) k)"

definition same_limits :: "('k, 'p) local_backend \<Rightarrow> ('k, 'p) local_backend \<Rightarrow> bool" where
  "same_limits b b' \<longleftrightarrow> pool_chunk_size (lb_pool b') = pool_chunk_size (lb_pool b)
     \<and> size_per_chunk (lb_pool b') = size_per_chunk (lb_pool b)
     \<and> max_chunk_num (lb_pool b') = max_chunk_num (lb_pool b)"

lemma obj_chunks_delete:
  "wf_dict d \<Longrightarrow> map_of d k = Some obj \<Longrightarrow>
     add_mset (chunk_idx obj) (mset (obj_chunks (AList.delete k d))) = mset (obj_chunks d)"
proof (induction d)
  case (Cons p d)
  then show ?case by (cases "fst p = k") (auto simp: obj_chunks_def split: if_splits)
qed simp

lemma obj_chunks_in: "map_of d k = Some obj \<Longrightarrow> chunk_idx obj \<in> set (obj_chunks d)"
  by (force simp: obj_chunks_def dest: map_of_SomeD)

lemma lb_remove_law:
  assumes "lb_ok b" "lb_remove k b = Inr b'"
  shows "lb_ok b' \<and> same_limits b b' \<and> lb_dict b' = AList.delete k (lb_dict b) \<and> lb_ev b' = lb_ev b
     \<and> mem_pool (lb_pool b') = mem_pool (lb_pool b)"
proof -
  from assms(2) obtain obj where obj: "map_of (lb_dict b) k = Some obj"
    and b': "b' = b\<lparr>lb_dict := AList.delete k (lb_dict b), lb_pool := pool_free obj (lb_pool b)\<rparr>"
    by (auto simp: lb_remove_def)
  have "pool_ok (lb_pool b) (chunk_idx obj # obj_chunks (AList.delete k (lb_dict b)))"
    using pool_ok_mset obj_chunks_delete [OF _ obj] assms(1) by (fastforce simp: lb_ok_def)
  from pool_free_ok [OF this] assms(1) show ?thesis
    by (auto simp: b' lb_ok_def same_limits_def pool_free_def set_delete_eq)
qed

lemma lb_remove_present: "map_of (lb_dict b) k = Some obj \<Longrightarrow> \<exists>b'. lb_remove k b = Inr b'"
  by (simp add: lb_remove_def)

lemma lb_content_same:
  "mem_pool (lb_pool b') = mem_pool (lb_pool b) \<Longrightarrow> map_of (lb_dict b') x = map_of (lb_dict b) x \<Longrightarrow> lb_content b' x = lb_content b x"
  by (simp add: lb_content_def pool_read_def)

definition deleted :: "'k list \<Rightarrow> ('k, 'v) dict \<Rightarrow> ('k, 'v) dict" where
  "deleted ks d = foldl (\<lambda>d k. AList.delete k d) d ks"

lemma map_of_deleted: "map_of (deleted ks d) x = (if x \<in> set ks then None else map_of d x)"
  by (induction ks arbitrary: d) (auto simp: deleted_def map_of_delete)

lemma lb_evict_law:
  assumes "lb_ok b" "lb_evict ks b = Inr b'"
  shows "lb_ok b' \<and> same_limits b b' \<and> lb_dict b' = deleted ks (lb_dict b) \<and> lb_ev b' = lb_ev b
     \<and> mem_pool (lb_pool b') = mem_pool (lb_pool b)"
  using assms
proof (induction ks arbitrary: b)
  case (Cons k ks)
  then obtain b1 where b1: "lb_remove k b = Inr b1" "lb_evict ks b1 = Inr b'" by (auto simp: lb_evict_def)
  from lb_remove_law [OF Cons.prems(1) b1(1)] Cons.IH [OF _ b1(2)] show ?case
    by (auto simp: deleted_def same_limits_def)
qed (simp add: lb_evict_def deleted_def same_limits_def)

lemma lb_drop_law:
  assumes "lb_ok b" "lb_drop k b = Inr b'"
  shows "lb_ok b' \<and> same_limits b b' \<and> lb_dict b' = AList.delete k (lb_dict b) \<and> lb_ev b' = lb_ev b
     \<and> mem_pool (lb_pool b') = mem_pool (lb_pool b)"
proof (cases "dhas (lb_dict b) k")
  case True
  with lb_remove_law [OF assms(1)] assms(2) show ?thesis by (simp add: lb_drop_def)
next
  case False
  then have "AList.delete k (lb_dict b) = lb_dict b" by (auto simp: dhas_map_of map_of_eq_None_iff)
  with False assms show ?thesis by (auto simp: lb_drop_def same_limits_def)
qed

lemma lb_store_law:
  assumes ok: "lb_ok b" and k: "map_of (lb_dict b) k = None" and al: "lb_allocate t b = Inr (obj, b1)"
    and b': "b' = lb_insert k obj (lb_copy obj t b1)"
  shows "lb_ok b' \<and> same_limits b b' \<and> lb_content b' k = Some (payload t) \<and> lb_ev b' = lb_ev b
     \<and> lb_dict b' = lb_dict b @ [(k, obj)] \<and> (\<forall>x. x \<noteq> k \<longrightarrow> lb_content b' x = lb_content b x)"
proof -
  from al obtain p where p: "pool_allocate t (lb_pool b) = Inr (obj, p)" "b1 = b\<lparr>lb_pool := p\<rparr>"
    by (auto simp: lb_allocate_def)
  then have tok: "num_tok t \<le> pool_chunk_size (lb_pool b)" and free: "free_pool (lb_pool b) \<noteq> []"
    by (auto simp: pool_allocate_def split: if_splits)
  have po: "pool_ok (lb_pool b) (obj_chunks (lb_dict b))" using ok by (simp add: lb_ok_def)
  from pool_allocate_ok [OF po tok free] p(1) have
    n: "pool_ok p (chunk_idx obj # obj_chunks (lb_dict b))" "chunk_idx obj \<notin> set (obj_chunks (lb_dict b))"
      "chunk_idx obj < length (mem_pool (lb_pool b))" "kv_size obj = size_per_chunk (lb_pool b)"
      "p = (lb_pool b)\<lparr>free_pool := butlast (free_pool (lb_pool b))\<rparr>" by auto
  have d': "lb_dict b' = lb_dict b @ [(k, obj)]"
    using k by (simp add: b' lb_insert_def lb_copy_def p(2) update_new map_of_eq_None_iff)
  have p': "lb_pool b' = pool_write obj t p" by (simp add: b' lb_insert_def lb_copy_def p(2))
  have "pool_ok (lb_pool b') (obj_chunks (lb_dict b'))"
    using pool_ok_mset [OF n(1)] by (simp add: p' d' obj_chunks_def)
  moreover have "wf_dict (lb_dict b')" using ok k by (simp add: d' lb_ok_def map_of_eq_None_iff)
  ultimately have ok': "lb_ok b'" using ok n(4,5) by (auto simp: lb_ok_def d' p' pool_write_def)
  have kn: "k \<notin> fst ` set (lb_dict b)" using k by (simp add: map_of_eq_None_iff)
  have mp: "map_of (lb_dict b') x = (if x = k then Some obj else map_of (lb_dict b) x)" for x
    using k by (simp add: d' map_add_def split: option.splits)
  have "lb_content b' k = Some (payload t)"
    using n(3,5) by (simp add: lb_content_def mp p' pool_read_write)
  moreover have "lb_content b' x = lb_content b x" if "x \<noteq> k" for x
  proof (cases "map_of (lb_dict b) x")
    case (Some o')
    then have "chunk_idx o' \<noteq> chunk_idx obj" using obj_chunks_in n(2) by fastforce
    with Some that n(3,5) show ?thesis by (simp add: lb_content_def mp p' pool_read_write)
  qed (use that in \<open>simp add: lb_content_def mp\<close>)
  moreover have "same_limits b b'" using n(5) by (simp add: same_limits_def p' pool_write_def)
  ultimately show ?thesis using ok' d' by (simp add: b' lb_insert_def lb_copy_def p(2))
qed


section \<open>The backend is a store\<close>

text \<open>What any put that returns leaves behind, whichever keys were evicted.\<close>

definition put_law :: "'k \<Rightarrow> 'p \<Rightarrow> ('k, 'p) local_backend \<Rightarrow> ('k, 'p) local_backend \<Rightarrow> bool" where
  "put_law k v b b' \<longleftrightarrow> lb_ok b' \<and> same_limits b b' \<and> lb_content b' k \<in> {lb_content b k, Some v}
     \<and> (\<forall>x. x \<noteq> k \<longrightarrow> lb_content b' x \<in> {None, lb_content b x})"

lemma put_law_refused: "lb_ok b \<Longrightarrow> put_law k v b (b\<lparr>lb_ev := ev\<rparr>)"
  by (simp add: put_law_def lb_ok_def same_limits_def lb_content_def)

lemma put_law_store:
  assumes "lb_ok b1" "same_limits b b1" "map_of (lb_dict b1) k = None"
    and "\<And>x. map_of (lb_dict b1) x \<in> {None, map_of (lb_dict b) x}"
    and "mem_pool (lb_pool b1) = mem_pool (lb_pool b)" "lb_allocate t b1 = Inr (obj, b2)"
  shows "put_law k (payload t) b (lb_insert k obj (lb_copy obj t b2))"
proof -
  note law = lb_store_law [OF assms(1,3,6) refl]
  have "lb_content b1 x \<in> {None, lb_content b x}" for x
    using assms(4) [of x] assms(5) by (auto simp: lb_content_def pool_read_def)
  then show ?thesis using law assms(2) by (auto simp: put_law_def same_limits_def)
qed

lemma lb_put_blocking_law:
  assumes "lb_ok b" "lb_put_blocking k t b = Inr b'"
  shows "put_law k (payload t) b b'"
proof -
  from assms(2) obtain ev ks st where sel: "lb_select b = Inr (ev, ks, st)"
    by (auto simp: lb_put_blocking_def)
  show ?thesis
  proof (cases "st = ILLEGAL")
    case True
    with assms sel show ?thesis by (auto simp: lb_put_blocking_def put_law_refused)
  next
    case False
    with assms(2) sel obtain b2 b3 b4 obj where s: "lb_drop k (b\<lparr>lb_ev := ev\<rparr>) = Inr b2"
      "lb_evict ks b2 = Inr b3" "lb_allocate t b3 = Inr (obj, b4)" "b' = lb_insert k obj (lb_copy obj t b4)"
      by (auto simp: lb_put_blocking_def Let_def)
    have ok: "lb_ok (b\<lparr>lb_ev := ev\<rparr>)" using assms(1) by (simp add: lb_ok_def)
    note l1 = lb_drop_law [OF ok s(1)]
    then have ok2: "lb_ok b2" by simp
    note l2 = lb_evict_law [OF ok2 s(2)]
    show ?thesis unfolding s(4)
      using l1 l2 s(3) by (intro put_law_store) (auto simp: same_limits_def map_of_deleted map_of_delete)
  qed
qed

lemma lb_put_nonblocking_law:
  assumes "lb_ok b" "lb_put_nonblocking k t b = Inr b'"
  shows "put_law k (payload t) b b'"
proof -
  from assms(2) obtain ev ks st where sel: "lb_select b = Inr (ev, ks, st)"
    by (auto simp: lb_put_nonblocking_def lb_put_begin_def)
  show ?thesis
  proof (cases "st = ILLEGAL")
    case True
    with assms sel show ?thesis by (auto simp: lb_put_nonblocking_def lb_put_begin_def put_law_refused)
  next
    case False
    with assms(2) sel obtain b2 b3 b4 obj where s: "lb_evict ks (b\<lparr>lb_ev := ev\<rparr>) = Inr b2"
      "lb_drop k b2 = Inr b3" "lb_allocate t b3 = Inr (obj, b4)" "b' = lb_insert k obj (lb_copy obj t b4)"
      by (auto simp: lb_put_nonblocking_def lb_put_begin_def Let_def)
    have ok: "lb_ok (b\<lparr>lb_ev := ev\<rparr>)" using assms(1) by (simp add: lb_ok_def)
    note l1 = lb_evict_law [OF ok s(1)]
    then have ok2: "lb_ok b2" by simp
    note l2 = lb_drop_law [OF ok2 s(2)]
    show ?thesis unfolding s(4)
      using l1 l2 s(3) by (intro put_law_store) (auto simp: same_limits_def map_of_deleted map_of_delete)
  qed
qed

lemma lb_get_law:
  assumes "lb_ok b"
  shows "\<exists>b'. lb_get k b = Inr (lb_content b k, b') \<and> lb_ok b' \<and> same_limits b b' \<and> lb_content b' = lb_content b
     \<and> lb_ev b' = lb_ev b \<and> lb_pool b' = lb_pool b"
proof (cases "map_of (lb_dict b) k")
  case None
  with assms show ?thesis by (auto simp: lb_get_def lb_content_def same_limits_def)
next
  case (Some obj)
  then obtain d where d: "move_to_end (lb_dict b) k = Inr d" "d = AList.delete k (lb_dict b) @ [(k, obj)]"
    by (simp add: move_to_end_def)
  have "mset (obj_chunks d) = mset (obj_chunks (lb_dict b))"
    using obj_chunks_delete [OF _ Some] assms by (simp add: d(2) obj_chunks_def lb_ok_def)
  then have "pool_ok (lb_pool b) (obj_chunks d)" using assms pool_ok_mset by (fastforce simp: lb_ok_def)
  moreover have "wf_dict d" using wf_dict_move_to_end [OF _ d(1)] assms by (simp add: lb_ok_def)
  moreover have "kv_size (snd kv) = size_per_chunk (lb_pool b)" if "kv \<in> set d" for kv
    using that Some assms by (auto simp: d(2) lb_ok_def set_delete_eq dest: map_of_SomeD)
  ultimately have "lb_ok (b\<lparr>lb_dict := d\<rparr>)" by (simp add: lb_ok_def)
  moreover have "lb_content (b\<lparr>lb_dict := d\<rparr>) = lb_content b"
    using map_of_move_to_end [OF d(1)] by (simp add: lb_content_def fun_eq_iff)
  ultimately show ?thesis using Some d(1)
    by (simp add: lb_get_def lru_update_on_get_def lb_content_def same_limits_def)
qed

interpretation local: stable_store lb_ok
    "\<lambda>b p. num_tok (as_tensor tok num es p) \<le> pool_chunk_size (lb_pool b)" lb_content lb_contains
    "\<lambda>(_ :: unit) k p. lb_put_blocking k (as_tensor tok num es p)" "\<lambda>_. lb_get" "\<lambda>_. True"
  for tok :: "'p \<Rightarrow> int" and num :: "'p \<Rightarrow> int" and es :: int
proof unfold_locales
  fix b b' :: "('k, 'p) local_backend" and k :: 'k and p :: 'p
  assume "lb_ok b" "lb_put_blocking k (as_tensor tok num es p) b = Inr b'"
  note law = lb_put_blocking_law [OF this]
  from law show "lb_ok b' \<and> (\<lambda>p. num_tok (as_tensor tok num es p) \<le> pool_chunk_size (lb_pool b')) =
      (\<lambda>p. num_tok (as_tensor tok num es p) \<le> pool_chunk_size (lb_pool b))"
    by (simp add: put_law_def same_limits_def)
  from law show "lb_content b' k \<in> {None, lb_content b k, Some p}" by (auto simp: put_law_def as_tensor_def)
  show "lb_content b' x \<in> {None, lb_content b x}" if "x \<noteq> k" for x using law that by (simp add: put_law_def)
next
  fix b b' :: "('k, 'p) local_backend" and k x :: 'k and r
  assume a: "lb_ok b" "lb_get k b = Inr (r, b')"
  from lb_get_law [OF a(1), of k] a(2) have
    g: "lb_ok b'" "same_limits b b'" "lb_content b' = lb_content b" "r = lb_content b k" by auto
  from g show "lb_ok b' \<and> (\<lambda>p. num_tok (as_tensor tok num es p) \<le> pool_chunk_size (lb_pool b')) =
      (\<lambda>p. num_tok (as_tensor tok num es p) \<le> pool_chunk_size (lb_pool b))" by (simp add: same_limits_def)
  from g show "lb_content b' x \<in> {None, lb_content b x}" "r \<in> {None, lb_content b k}" by auto
next
  fix b :: "('k, 'p) local_backend" and k :: 'k
  show "lb_contains k b \<longleftrightarrow> lb_content b k \<noteq> None" by (simp add: lb_contains_def lb_content_def dhas_map_of)
  show "\<exists>b'. lb_get k b = Inr (lb_content b k, b') \<and> lb_content b' = lb_content b" if "lb_ok b"
    using lb_get_law [OF that, of k] by blast
qed


section \<open>Properties\<close>

text \<open>The byte count is right and the pool holds more chunks than the limit allows.\<close>

definition lb_counted :: "('k, 'p) local_backend \<Rightarrow> bool" where
  "lb_counted b \<longleftrightarrow> lb_ok b \<and> 0 < size_per_chunk (lb_pool b) \<and> lru_cur (lb_ev b) = dsum obj_size (lb_dict b)
     \<and> lru_max (lb_ev b) < of_int (size_per_chunk (lb_pool b)) * real (max_chunk_num (lb_pool b))"

lemma dsum_obj_size:
  "\<forall>kv \<in> set d. kv_size (snd kv) = s \<Longrightarrow> dsum obj_size d = of_int s * real (length d)"
  by (induction d) (auto simp: obj_size_def algebra_simps)

lemma deleted_prefix: "wf_dict d \<Longrightarrow> deleted (dkeys (take n d)) d = drop n d"
proof (induction n arbitrary: d)
  case (Suc n)
  show ?case
  proof (cases d)
    case (Cons p d')
    with Suc show ?thesis by (cases p) (auto simp: deleted_def)
  qed (simp add: deleted_def)
qed (simp add: deleted_def)

lemma lb_evict_total: "distinct ks \<Longrightarrow> set ks \<subseteq> set (dkeys (lb_dict b)) \<Longrightarrow> \<exists>b'. lb_evict ks b = Inr b'"
proof (induction ks arbitrary: b)
  case (Cons k ks)
  then obtain obj where obj: "map_of (lb_dict b) k = Some obj" by (meson in_dkeys_map_of list.set_intros(1) subsetD)
  let ?b = "b\<lparr>lb_dict := AList.delete k (lb_dict b), lb_pool := pool_free obj (lb_pool b)\<rparr>"
  have "set ks \<subseteq> set (dkeys (lb_dict ?b))" using Cons.prems by auto
  with Cons.IH [of ?b] Cons.prems obj show ?case by (simp add: lb_evict_def lb_remove_def)
qed (simp add: lb_evict_def)

lemma lb_evict_prefix:
  assumes "lb_ok b"
  obtains b' where "lb_evict (dkeys (take n (lb_dict b))) b = Inr b'" "lb_ok b'" "same_limits b b'"
    "lb_dict b' = drop n (lb_dict b)" "lb_ev b' = lb_ev b" "mem_pool (lb_pool b') = mem_pool (lb_pool b)"
proof -
  have wf: "wf_dict (lb_dict b)" using assms by (simp add: lb_ok_def)
  have "distinct (dkeys (take n (lb_dict b)))" using wf distinct_take by (simp add: take_map [symmetric])
  moreover have "set (dkeys (take n (lb_dict b))) \<subseteq> set (dkeys (lb_dict b))" by (auto dest: in_set_takeD)
  ultimately obtain b' where e: "lb_evict (dkeys (take n (lb_dict b))) b = Inr b'"
    using lb_evict_total by blast
  from lb_evict_law [OF assms e] deleted_prefix [OF wf] that [OF e] show thesis by simp
qed

lemma lb_select_prefix:
  assumes "lb_counted b"
  shows "if of_int (size_per_chunk (lb_pool b)) > lru_max (lb_ev b) then lb_select b = Inr (lb_ev b, [], ILLEGAL)
    else \<exists>n ev. lb_select b = Inr (ev, dkeys (take n (lb_dict b)), LEGAL)
      \<and> lru_cur ev = dsum obj_size (drop n (lb_dict b)) + of_int (size_per_chunk (lb_pool b))
      \<and> lru_cur ev \<le> lru_max (lb_ev b) \<and> lru_max ev = lru_max (lb_ev b)
      \<and> (\<forall>m < n. dsum obj_size (drop m (lb_dict b)) + of_int (size_per_chunk (lb_pool b)) > lru_max (lb_ev b))"
  using lru_put_prefix [of "lb_ev b" obj_size "lb_dict b" "of_int (size_per_chunk (lb_pool b))"] assms
  unfolding lb_select_def by (force simp: lb_counted_def lb_ok_def obj_size_def)

lemma lb_room:
  assumes "lb_counted b" "lb_ok b1" "same_limits b b1" "num_tok t \<le> pool_chunk_size (lb_pool b)"
    and "dsum obj_size (lb_dict b1) + of_int (size_per_chunk (lb_pool b)) \<le> lru_max (lb_ev b)"
  obtains obj b2 where "lb_allocate t b1 = Inr (obj, b2)" "kv_size obj = size_per_chunk (lb_pool b)"
proof -
  let ?s = "size_per_chunk (lb_pool b)"
  have po: "pool_ok (lb_pool b1) (obj_chunks (lb_dict b1))" using assms(2) by (simp add: lb_ok_def)
  have "dsum obj_size (lb_dict b1) = of_int ?s * real (length (lb_dict b1))"
    using assms(2,3) by (intro dsum_obj_size) (simp add: lb_ok_def same_limits_def)
  then have "of_int ?s * real (length (lb_dict b1) + 1) < of_int ?s * real (max_chunk_num (lb_pool b1))"
    using assms(1,3,5) by (simp add: lb_counted_def same_limits_def algebra_simps)
  then have "length (lb_dict b1) + 1 < max_chunk_num (lb_pool b1)"
    using assms(1) by (simp add: lb_counted_def mult_less_cancel_left)
  then have ne: "free_pool (lb_pool b1) \<noteq> []" using pool_okD(5) [OF po] by (auto simp: obj_chunks_def)
  have tok: "num_tok t \<le> pool_chunk_size (lb_pool b1)" using assms(3,4) by (simp add: same_limits_def)
  from pool_allocate_ok [OF po tok ne] obtain obj p where
    "pool_allocate t (lb_pool b1) = Inr (obj, p)" "kv_size obj = size_per_chunk (lb_pool b1)" by blast
  with assms(3) that [of obj "b1\<lparr>lb_pool := p\<rparr>"] show thesis by (simp add: lb_allocate_def same_limits_def)
qed

lemma lb_evict_missing:
  assumes "k \<in> set ks" "distinct ks" "map_of (lb_dict b) k = None" "set ks - {k} \<subseteq> set (dkeys (lb_dict b))"
  shows "lb_evict ks b = Inl KeyError"
  using assms
proof (induction ks arbitrary: b)
  case (Cons x ks)
  show ?case
  proof (cases "x = k")
    case True
    with Cons.prems show ?thesis by (simp add: lb_evict_def lb_remove_def)
  next
    case False
    with Cons.prems obtain obj where obj: "map_of (lb_dict b) x = Some obj"
      by (meson DiffI in_dkeys_map_of list.set_intros(1) singletonD subsetD)
    have "lb_evict ks (b\<lparr>lb_dict := AList.delete x (lb_dict b), lb_pool := pool_free obj (lb_pool b)\<rparr>) = Inl KeyError"
      using False Cons.prems by (intro Cons.IH) (auto simp: map_of_delete)
    with obj show ?thesis by (simp add: lb_evict_def lb_remove_def)
  qed
qed simp

text \<open>One put of a chunk that is not too large, for both ways to put.\<close>

lemma lb_put_cases:
  assumes cnt: "lb_counted b" and tok: "num_tok t \<le> pool_chunk_size (lb_pool b)"
    and fit: "of_int (size_per_chunk (lb_pool b)) \<le> lru_max (lb_ev b)"
  obtains n b' where "lb_put_nonblocking k t b = Inr b'" "lb_ok b'" "same_limits b b'"
    "lb_content b' k = Some (payload t)"
    "\<And>x. x \<noteq> k \<Longrightarrow> lb_content b' x = (if x \<in> set (dkeys (take n (lb_dict b))) then None else lb_content b x)"
    "\<And>m. m < n \<Longrightarrow> dsum obj_size (drop m (lb_dict b)) + of_int (size_per_chunk (lb_pool b)) > lru_max (lb_ev b)"
    "lru_cur (lb_ev b') = dsum obj_size (drop n (lb_dict b)) + of_int (size_per_chunk (lb_pool b))"
    "lru_cur (lb_ev b') \<le> lru_max (lb_ev b)" "lru_max (lb_ev b') = lru_max (lb_ev b)"
    "dsum obj_size (lb_dict b') = dsum obj_size (AList.delete k (drop n (lb_dict b))) + of_int (size_per_chunk (lb_pool b))"
    "k \<notin> set (dkeys (lb_dict b)) \<Longrightarrow> lb_put_blocking k t b = Inr b'"
    "k \<in> set (dkeys (take n (lb_dict b))) \<Longrightarrow> lb_put_blocking k t b = Inl KeyError"
proof -
  let ?d = "lb_dict b" and ?s = "real_of_int (size_per_chunk (lb_pool b))"
  have ok: "lb_ok b" and wf: "wf_dict ?d" using cnt by (simp_all add: lb_counted_def lb_ok_def)
  from lb_select_prefix [OF cnt] fit obtain n ev where sel: "lb_select b = Inr (ev, dkeys (take n ?d), LEGAL)"
    "lru_cur ev = dsum obj_size (drop n ?d) + ?s" "lru_cur ev \<le> lru_max (lb_ev b)" "lru_max ev = lru_max (lb_ev b)"
    "\<And>m. m < n \<Longrightarrow> dsum obj_size (drop m ?d) + ?s > lru_max (lb_ev b)" by auto
  let ?b1 = "b\<lparr>lb_ev := ev\<rparr>"
  have ok1: "lb_ok ?b1" using ok by (simp add: lb_ok_def)
  from lb_evict_prefix [OF ok1, of n] obtain b2 where b2: "lb_evict (dkeys (take n ?d)) ?b1 = Inr b2"
    "lb_ok b2" "same_limits b b2" "lb_dict b2 = drop n ?d" "lb_ev b2 = ev" "mem_pool (lb_pool b2) = mem_pool (lb_pool b)"
    by (auto simp: same_limits_def)
  obtain b3 where b3: "lb_drop k b2 = Inr b3"
    by (cases "dhas (lb_dict b2) k") (auto simp: lb_drop_def lb_remove_def dhas_map_of)
  note l3 = lb_drop_law [OF b2(2) b3]
  have lim3: "same_limits b b3" using l3 b2(3) by (auto simp: same_limits_def)
  have nonneg: "0 \<le> obj_size v" if "(x, v) \<in> set ?d" for x v
    using that cnt by (force simp: lb_counted_def lb_ok_def obj_size_def)
  have less: "dsum obj_size (AList.delete k (drop n ?d)) \<le> dsum obj_size (drop n ?d)"
  proof (cases "map_of (drop n ?d) k")
    case (Some v)
    then have "0 \<le> obj_size v" using nonneg by (meson in_set_dropD map_of_SomeD)
    moreover have "wf_dict (drop n ?d)" using wf by (simp add: drop_map [symmetric])
    ultimately show ?thesis using dsum_delete [of "drop n ?d" k v obj_size] Some by simp
  qed (simp add: map_of_eq_None_iff)
  have "dsum obj_size (lb_dict b3) + ?s \<le> lru_max (lb_ev b)" using less sel(2,3) l3 b2(4) by simp
  from lb_room [OF cnt _ lim3 tok this] l3 obtain obj b4 where
    al: "lb_allocate t b3 = Inr (obj, b4)" "kv_size obj = size_per_chunk (lb_pool b)" by blast
  define b' where "b' = lb_insert k obj (lb_copy obj t b4)"
  have ok3: "lb_ok b3" and k3: "map_of (lb_dict b3) k = None" using l3 by (auto simp: map_of_delete)
  note st = lb_store_law [OF ok3 k3 al(1) b'_def]
  have nb: "lb_put_nonblocking k t b = Inr b'"
    by (simp add: lb_put_nonblocking_def lb_put_begin_def sel(1) b2(1) b3 al(1) b'_def Let_def del: bindr_Inr_iff)
  have mp: "map_of (drop n ?d) x = (if x \<in> set (dkeys (take n ?d)) then None else map_of ?d x)" for x
    using deleted_prefix [OF wf, of n] map_of_deleted by metis
  have content: "lb_content b' x = (if x \<in> set (dkeys (take n ?d)) then None else lb_content b x)" if "x \<noteq> k" for x
  proof -
    have "lb_content b' x = lb_content b3 x" using st that by simp
    also have "\<dots> = (if x \<in> set (dkeys (take n ?d)) then None else lb_content b x)"
      using that l3 b2(4,6) mp by (simp add: lb_content_def map_of_delete pool_read_def)
    finally show ?thesis .
  qed
  have blk: "lb_put_blocking k t b = Inr b'" if "k \<notin> set (dkeys ?d)"
  proof -
    have "lb_drop k ?b1 = Inr ?b1" using that by (simp add: lb_drop_def dhas_def)
    moreover have "k \<notin> fst ` set (drop n ?d)" using that by (auto dest: in_set_dropD)
    then have "b3 = b2" using b3 b2(4) by (simp add: lb_drop_def dhas_def)
    ultimately show ?thesis
      using al(1) by (simp add: lb_put_blocking_def sel(1) b2(1) b'_def Let_def del: bindr_Inr_iff)
  qed
  have kerr: "lb_put_blocking k t b = Inl KeyError" if k: "k \<in> set (dkeys (take n ?d))"
  proof -
    have "k \<in> set (dkeys ?d)" using k by (auto dest: in_set_takeD)
    then obtain ob where ob: "map_of ?d k = Some ob" using in_dkeys_map_of by fast
    then have dr: "lb_drop k ?b1 = Inr (?b1\<lparr>lb_dict := AList.delete k ?d, lb_pool := pool_free ob (lb_pool b)\<rparr>)"
      by (simp add: lb_drop_def lb_remove_def dhas_map_of)
    have "distinct (dkeys (take n ?d))" using wf distinct_take by (simp add: take_map [symmetric])
    moreover have "set (dkeys (take n ?d)) - {k} \<subseteq> set (dkeys (AList.delete k ?d))"
      by (auto dest: in_set_takeD)
    ultimately have "lb_evict (dkeys (take n ?d)) (?b1\<lparr>lb_dict := AList.delete k ?d, lb_pool := pool_free ob (lb_pool b)\<rparr>)
        = Inl KeyError" using k by (intro lb_evict_missing) (simp_all add: map_of_delete)
    then show ?thesis by (simp add: lb_put_blocking_def sel(1) dr Let_def del: bindr_Inr_iff)
  qed
  have "dsum obj_size (lb_dict b') = dsum obj_size (AList.delete k (drop n ?d)) + ?s"
    using st l3 b2(4) al(2) by (simp add: obj_size_def)
  moreover have "same_limits b b'" using st lim3 by (simp add: same_limits_def)
  moreover have "lb_ev b' = ev" using st l3 b2(5) by simp
  ultimately show thesis using st sel(2-5) by (intro that [OF nb _ _ _ content _ _ _ _ _ blk kerr]) simp_all
qed


text \<open>
  C33.  A put of a new key into a local backend whose byte count is right never raises and comes
  out the same blocking or not: the key reads back the tensor, exactly the shortest prefix of the
  recency order that makes room is evicted, every other key keeps its contents, and the byte count
  is right again and within the limit.
\<close>

theorem local_put_evicts_shortest_prefix:
  assumes "lb_counted b" "num_tok t \<le> pool_chunk_size (lb_pool b)"
    and "of_int (size_per_chunk (lb_pool b)) \<le> lru_max (lb_ev b)" "\<not> lb_contains k b"
  shows "\<exists>n b'. lb_put_blocking k t b = Inr b' \<and> lb_put_nonblocking k t b = Inr b' \<and> lb_counted b'
     \<and> (\<exists>b''. lb_get k b' = Inr (Some (payload t), b''))
     \<and> (\<forall>x. x \<noteq> k \<longrightarrow> lb_content b' x = (if x \<in> set (take n (dkeys (lb_dict b))) then None else lb_content b x))
     \<and> lru_cur (lb_ev b') \<le> lru_max (lb_ev b)
     \<and> (\<forall>m < n. dsum obj_size (drop m (lb_dict b)) + of_int (size_per_chunk (lb_pool b)) > lru_max (lb_ev b))"
proof -
  from lb_put_cases [OF assms(1-3), of k] assms(4) obtain n b' where p: "lb_put_nonblocking k t b = Inr b'"
    "lb_put_blocking k t b = Inr b'" "lb_ok b'" "same_limits b b'" "lb_content b' k = Some (payload t)"
    "\<And>x. x \<noteq> k \<Longrightarrow> lb_content b' x = (if x \<in> set (dkeys (take n (lb_dict b))) then None else lb_content b x)"
    "\<And>m. m < n \<Longrightarrow> dsum obj_size (drop m (lb_dict b)) + of_int (size_per_chunk (lb_pool b)) > lru_max (lb_ev b)"
    "lru_cur (lb_ev b') = dsum obj_size (drop n (lb_dict b)) + of_int (size_per_chunk (lb_pool b))"
    "lru_cur (lb_ev b') \<le> lru_max (lb_ev b)" "lru_max (lb_ev b') = lru_max (lb_ev b)"
    "dsum obj_size (lb_dict b') = dsum obj_size (AList.delete k (drop n (lb_dict b))) + of_int (size_per_chunk (lb_pool b))"
    unfolding lb_contains_def dhas_def by metis
  have "k \<notin> fst ` set (drop n (lb_dict b))"
    using assms(4) by (auto simp: lb_contains_def dhas_def dest: in_set_dropD)
  then have "lb_counted b'" using p assms(1) by (simp add: lb_counted_def same_limits_def)
  moreover obtain b'' where "lb_get k b' = Inr (Some (payload t), b'')"
    using lb_get_law [OF p(3), of k] p(5) by auto
  ultimately show ?thesis using p(1,2,6,7,9) by (auto simp: take_map)
qed

text \<open>
  Replacing a cached key goes wrong in both ways of putting.  The non-blocking put
  counts the replaced object as if it were still there, unless the evictor happened to choose it;
  and when the evictor did choose it, which is so for the oldest key of a full cache, the blocking
  put, which has already removed the object, removes it a second time and raises \<open>KeyError\<close>.
\<close>

theorem replacing_a_key_goes_wrong:
  assumes "lb_counted b" "num_tok t \<le> pool_chunk_size (lb_pool b)"
    and "of_int (size_per_chunk (lb_pool b)) \<le> lru_max (lb_ev b)" "lb_contains k b"
  shows "\<exists>b'. lb_put_nonblocking k t b = Inr b' \<and> lb_content b' k = Some (payload t)
     \<and> lru_cur (lb_ev b') - dsum obj_size (lb_dict b') \<in> {0, of_int (size_per_chunk (lb_pool b))}
     \<and> (dsum obj_size (lb_dict b) + of_int (size_per_chunk (lb_pool b)) \<le> lru_max (lb_ev b) \<longrightarrow>
          lru_cur (lb_ev b') = dsum obj_size (lb_dict b') + of_int (size_per_chunk (lb_pool b)))
     \<and> (dsum obj_size (lb_dict b) + of_int (size_per_chunk (lb_pool b)) > lru_max (lb_ev b)
          \<and> fst (hd (lb_dict b)) = k \<longrightarrow>
          lru_cur (lb_ev b') = dsum obj_size (lb_dict b') \<and> lb_put_blocking k t b = Inl KeyError)"
proof -
  let ?d = "lb_dict b" and ?s = "real_of_int (size_per_chunk (lb_pool b))"
  have wf: "wf_dict ?d" and sz: "\<And>x v. (x, v) \<in> set ?d \<Longrightarrow> obj_size v = ?s"
    using assms(1) by (auto simp: lb_counted_def lb_ok_def obj_size_def)
  obtain n b' where p: "lb_put_nonblocking k t b = Inr b'" "lb_content b' k = Some (payload t)"
    "lru_cur (lb_ev b') = dsum obj_size (drop n ?d) + ?s" "lru_cur (lb_ev b') \<le> lru_max (lb_ev b)"
    "dsum obj_size (lb_dict b') = dsum obj_size (AList.delete k (drop n ?d)) + ?s"
    "\<And>m. m < n \<Longrightarrow> dsum obj_size (drop m ?d) + ?s > lru_max (lb_ev b)"
    "k \<in> set (dkeys (take n ?d)) \<Longrightarrow> lb_put_blocking k t b = Inl KeyError"
    using lb_put_cases [OF assms(1-3), of k] by metis
  have diff: "lru_cur (lb_ev b') - dsum obj_size (lb_dict b') = (if k \<in> set (dkeys (drop n ?d)) then ?s else 0)"
  proof (cases "k \<in> set (dkeys (drop n ?d))")
    case True
    then obtain v where v: "map_of (drop n ?d) k = Some v" using in_dkeys_map_of by fast
    have "wf_dict (drop n ?d)" using wf by (simp add: drop_map [symmetric])
    from dsum_delete_diff [OF this v, of obj_size] v sz True p(3,5) show ?thesis
      by (auto dest!: map_of_SomeD in_set_dropD)
  qed (use p(3,5) in simp)
  have fits: "n = 0" if "dsum obj_size ?d + ?s \<le> lru_max (lb_ev b)" using p(6) [of 0] that by (cases n) auto
  have oldest: "0 < n" "k \<in> set (dkeys (take n ?d))" "k \<notin> set (dkeys (drop n ?d))"
    if "dsum obj_size ?d + ?s > lru_max (lb_ev b)" "fst (hd ?d) = k"
  proof -
    show n: "0 < n" using p(3,4) that(1) by (cases n) auto
    have ne: "?d \<noteq> []" using assms(4) by (auto simp: lb_contains_def dhas_def)
    with n that(2) show "k \<in> set (dkeys (take n ?d))" by (cases ?d; cases n) auto
    moreover have "distinct (dkeys (take n ?d) @ dkeys (drop n ?d))"
      using wf by (metis append_take_drop_id map_append)
    ultimately show "k \<notin> set (dkeys (drop n ?d))" by (metis disjoint_iff distinct_append)
  qed
  have k: "k \<in> set (dkeys ?d)" using assms(4) by (simp add: lb_contains_def dhas_def)
  show ?thesis using p(1,2,7) diff fits oldest k by (intro exI [of _ b'] conjI) (auto split: if_splits)
qed

definition demo_local :: "(nat, int list) local_backend" where
  "demo_local = \<lparr>lb_dict = [(5, \<lparr>chunk_idx = 1, kv_size = 8, view_tok = 256\<rparr>)],
     lb_ev = \<lparr>lru_max = 9, lru_cur = 8\<rparr>, lb_pool = demo_pool\<lparr>free_pool := [0]\<rparr>\<rparr>"

lemma demo_local_counted: "lb_counted demo_local"
  by (simp add: demo_local_def lb_counted_def lb_ok_def pool_ok_def obj_chunks_def demo_pool_def obj_size_def
      numeral_2_eq_2)

lemma local_put_evicts_shortest_prefix_witness:
  "\<exists>b'. lb_put_blocking 7 demo_tensor demo_local = Inr b' \<and> lb_counted b'"
  using local_put_evicts_shortest_prefix [OF demo_local_counted, of demo_tensor 7]
  by (auto simp: demo_local_def demo_tensor_def demo_pool_def lb_contains_def dhas_def)

lemma replacing_a_key_goes_wrong_witness: "lb_put_blocking 5 demo_tensor demo_local = Inl KeyError"
  using replacing_a_key_goes_wrong [OF demo_local_counted, of demo_tensor 5]
  by (auto simp: demo_local_def demo_tensor_def demo_pool_def lb_contains_def dhas_def obj_size_def)

end
