(* ===== verification/Wire.thy ===== *)
theory Wire
  imports LRU_Evictors Cache_Key "HOL-Library.Word"
begin

text \<open>
  The cache server and its connector: the messages of \<open>LMCache/lmcache/protocol.py\<close>, the server
  of \<open>server/__main__.py\<close> with its store \<open>server/server_storage_backend/local_backend.py\<close>
  (\<open>LMSLocalBackend\<close>), and \<open>LMCServerConnector\<close> of \<open>storage_backend/connector/lm_connector.py\<close>.

  A connection is a pair of byte streams, one per direction; TCP delivers what was sent, in order,
  but in pieces: \<open>cuts\<close> lists how many bytes the next calls of \<open>recv\<close> on the client side are given
  (at least one; once the list is empty, all that is there).  A client call sends its request, lets
  the server run until it waits for more bytes, and reads the reply: a header with one \<open>recv\<close>, which may come
  short, a payload with a loop.  The server reads with a loop only, so the pieces in that direction do not matter.
  A handler that raises closes the connection; the model stops there with the exception.
  Texts are over the code points below 256; \<open>struct\<close> uses little-endian 32-bit integers for \<open>i\<close>.
\<close>

unbundle bit_operations_syntax

section \<open>Bytes, integers and texts\<close>

type_synonym bytes = "8 word list"

definition int_bytes :: "32 word \<Rightarrow> bytes" where
  "int_bytes w = [ucast w, ucast (drop_bit 8 w), ucast (drop_bit 16 w), ucast (drop_bit 24 w)]"

fun bytes_int :: "bytes \<Rightarrow> 32 word" where
  "bytes_int [] = 0"
| "bytes_int (b # bs) = ucast b OR push_bit 8 (bytes_int bs)"

definition pack_int :: "int \<Rightarrow> bytes result" where
  "pack_int x = (if - (2 ^ 31) \<le> x \<and> x < 2 ^ 31 then Inr (int_bytes (word_of_int x)) else Inl StructError)"

definition unpack_int :: "bytes \<Rightarrow> int" where
  "unpack_int bs = sint (bytes_int bs)"

lemma bytes_int_bytes: "bytes_int (int_bytes w) = w"
proof (rule bit_word_eqI)
  fix n assume n: "n < LENGTH(32)"
  have "n < 8 \<or> (\<exists>m < 8. n = 8 + m) \<or> (\<exists>m < 8. n = 16 + m) \<or> (\<exists>m < 8. n = 24 + m)"
    using n by (simp, presburger)
  with n show "bit (bytes_int (int_bytes w)) n = bit w n"
    by (elim disjE exE) (auto simp: int_bytes_def bit_simps)
qed

lemma sint_small: "- (2 ^ 31) \<le> x \<Longrightarrow> x < 2 ^ 31 \<Longrightarrow> sint (word_of_int x :: 32 word) = x"
  by (simp add: signed_take_bit_int_eq_self sint_sbintrunc')

lemma unpack_pack: "pack_int x = Inr bs \<Longrightarrow> unpack_int bs = x \<and> length bs = 4"
  using bytes_int_bytes [of "word_of_int x"] sint_small [of x]
  by (auto simp: pack_int_def unpack_int_def split: if_splits) (simp add: int_bytes_def)

definition utf8_char :: "char \<Rightarrow> bytes" where
  "utf8_char c =
     (let n = of_char c :: nat in
      if n < 128 then [of_nat n] else [of_nat (192 + n div 64), of_nat (128 + n mod 64)])"

definition utf8_encode :: "string \<Rightarrow> bytes" where
  "utf8_encode s = concat (map utf8_char s)"

fun utf8_decode :: "bytes \<Rightarrow> string result" where
  "utf8_decode [] = Inr []"
| "utf8_decode (b # bs) =
     (if unat b < 128 then bindr (utf8_decode bs) (\<lambda>s. Inr (char_of (unat b) # s))
      else case bs of
        [] \<Rightarrow> Inl ValueError
      | b' # bs' \<Rightarrow>
          if 194 \<le> unat b \<and> unat b < 196 \<and> 128 \<le> unat b' \<and> unat b' < 192
          then bindr (utf8_decode bs') (\<lambda>s. Inr (char_of ((unat b - 192) * 64 + (unat b' - 128)) # s))
          else Inl ValueError)"

lemma utf8_char_decode: "utf8_decode (utf8_char c @ bs) = bindr (utf8_decode bs) (\<lambda>s. Inr (c # s))"
proof -
  define n where "n = (of_char c :: nat)"
  have n: "n < 256" by (simp add: n_def)
  have c: "char_of n = c" by (simp add: n_def)
  show ?thesis
  proof (cases "n < 128")
    case True
    then have "unat (of_nat n :: 8 word) = n" by (simp add: unat_of_nat)
    with True c show ?thesis by (simp add: utf8_char_def n_def [symmetric] Let_def)
  next
    case False
    then have "n div 64 \<in> {2, 3}" using n by auto
    moreover have "n mod 64 < 64" by simp
    ultimately have "unat (of_nat (192 + n div 64) :: 8 word) = 192 + n div 64"
      "unat (of_nat (128 + n mod 64) :: 8 word) = 128 + n mod 64" "194 \<le> 192 + n div 64" "192 + n div 64 < 196"
      "128 + n mod 64 < 192"
      by (auto simp: unat_of_nat simp del: of_nat_add of_nat_numeral)
    with False c show ?thesis
      by (simp add: utf8_char_def n_def [symmetric] Let_def del: of_nat_add of_nat_numeral)
  qed
qed

lemma utf8_roundtrip: "utf8_decode (utf8_encode s @ bs) = bindr (utf8_decode bs) (\<lambda>t. Inr (s @ t))"
  by (induction s) (cases "utf8_decode bs"; simp_all add: utf8_encode_def utf8_char_decode)+

definition ljust :: "nat \<Rightarrow> bytes \<Rightarrow> bytes" where
  "ljust n bs = bs @ replicate (n - length bs) 32"

lemma strip_spaces: "strip s = s \<Longrightarrow> strip (s @ replicate n (CHR '' '')) = s"
proof -
  assume s: "strip s = s"
  have sp: "is_space (CHR '' '')" by (simp add: is_space_def)
  have pre: "dropWhile is_space s = s"
  proof (rule ccontr)
    assume "dropWhile is_space s \<noteq> s"
    then have "length (dropWhile is_space s) < length s"
      by (metis length_append add.commute append_Nil length_0_conv less_add_same_cancel1 neq0_conv takeWhile_dropWhile_id)
    moreover have "length (strip s) \<le> length (dropWhile is_space s)"
      by (simp add: strip_def) (metis length_dropWhile_le length_rev)
    ultimately show False using s by simp
  qed
  show ?thesis
  proof (cases s)
    case Nil
    then show ?thesis by (simp add: strip_def sp)
  next
    case (Cons c cs)
    then have "dropWhile is_space (s @ replicate n (CHR '' '')) = s @ replicate n (CHR '' '')"
      using pre length_dropWhile_le [of is_space cs] by (cases "is_space c") auto
    then have "strip (s @ replicate n (CHR '' '')) = rev (dropWhile is_space (replicate n (CHR '' '') @ rev s))"
      by (simp add: strip_def)
    also have "\<dots> = rev (dropWhile is_space (rev s))" by (subst dropWhile_append2) (auto simp: sp)
    also have "\<dots> = s" using s pre by (simp add: strip_def)
    finally show ?thesis .
  qed
qed

section \<open>Messages\<close>

definition MAX_KEY_LENGTH :: nat where
  "MAX_KEY_LENGTH = 150"

definition CLIENT_PUT :: int where "CLIENT_PUT = 1"
definition CLIENT_GET :: int where "CLIENT_GET = 2"
definition CLIENT_EXIST :: int where "CLIENT_EXIST = 3"
definition CLIENT_LIST :: int where "CLIENT_LIST = 4"
definition SERVER_SUCCESS :: int where "SERVER_SUCCESS = 200"
definition SERVER_FAIL :: int where "SERVER_FAIL = 400"

lemmas message_codes = CLIENT_PUT_def CLIENT_GET_def CLIENT_EXIST_def CLIENT_LIST_def SERVER_SUCCESS_def SERVER_FAIL_def

record client_msg =
  command :: int
  msg_key :: string
  msg_length :: int

record server_msg =
  code :: int
  reply_length :: int

definition client_packlength :: nat where
  "client_packlength = 4 * 2 + MAX_KEY_LENGTH"

definition server_packlength :: nat where
  "server_packlength = 8"

text \<open>\<open>struct.pack\<close> of a text field cuts it to its length or fills it with zero bytes.\<close>

definition pack_str :: "nat \<Rightarrow> bytes \<Rightarrow> bytes" where
  "pack_str n bs = take n bs @ replicate (n - length bs) 0"

definition client_serialize :: "client_msg \<Rightarrow> bytes result" where
  "client_serialize m =
     assert_py (length (msg_key m) \<le> MAX_KEY_LENGTH)
       (bindr (pack_int (command m)) (\<lambda>c. bindr (pack_int (msg_length m)) (\<lambda>l.
          Inr (c @ l @ pack_str MAX_KEY_LENGTH (ljust MAX_KEY_LENGTH (utf8_encode (msg_key m)))))))"

definition client_deserialize :: "bytes \<Rightarrow> client_msg result" where
  "client_deserialize s =
     (if length s \<noteq> client_packlength then Inl StructError
      else bindr (utf8_decode (drop 8 s)) (\<lambda>key.
             Inr \<lparr>command = unpack_int (take 4 s), msg_key = strip key,
                  msg_length = unpack_int (take 4 (drop 4 s))\<rparr>))"

definition server_serialize :: "server_msg \<Rightarrow> bytes result" where
  "server_serialize m = bindr (pack_int (code m)) (\<lambda>c. bindr (pack_int (reply_length m)) (\<lambda>l. Inr (c @ l)))"

definition server_deserialize :: "bytes \<Rightarrow> server_msg result" where
  "server_deserialize s =
     (if length s \<noteq> server_packlength then Inl StructError
      else Inr \<lparr>code = unpack_int (take 4 s), reply_length = unpack_int (drop 4 s)\<rparr>)"

text \<open>A key that survives the wire: short once encoded, and without white space at its ends.\<close>

definition wire_key :: "string \<Rightarrow> bool" where
  "wire_key k \<longleftrightarrow> length (utf8_encode k) \<le> MAX_KEY_LENGTH \<and> strip k = k"

lemma length_utf8_char: "1 \<le> length (utf8_char c)"
  by (simp add: utf8_char_def Let_def)

lemma length_utf8: "length s \<le> length (utf8_encode s)"
proof (induction s)
  case (Cons c s)
  with length_utf8_char [of c] show ?case by (simp add: utf8_encode_def)
qed (simp add: utf8_encode_def)

lemma utf8_decode_spaces: "utf8_decode (replicate n 32) = Inr (replicate n (CHR '' ''))"
proof (induction n)
  case (Suc n)
  have "char_of (32 :: nat) = CHR '' ''" by code_simp
  with Suc show ?case by simp
qed simp

lemma client_wire_law:
  assumes "wire_key (msg_key m)" "- (2 ^ 31) \<le> command m" "command m < 2 ^ 31"
    and "- (2 ^ 31) \<le> msg_length m" "msg_length m < 2 ^ 31"
  shows "\<exists>bs. client_serialize m = Inr bs \<and> length bs = client_packlength \<and> client_deserialize bs = Inr m"
proof -
  obtain c l where cl: "pack_int (command m) = Inr c" "pack_int (msg_length m) = Inr l"
    using assms(2-5) by (simp add: pack_int_def)
  let ?key = "utf8_encode (msg_key m)"
  let ?pad = "replicate (MAX_KEY_LENGTH - length ?key) 32 :: bytes"
  have len: "length ?key \<le> MAX_KEY_LENGTH" using assms(1) by (simp add: wire_key_def)
  then have fld: "pack_str MAX_KEY_LENGTH (ljust MAX_KEY_LENGTH ?key) = ?key @ ?pad"
    by (simp add: pack_str_def ljust_def)
  have ser: "client_serialize m = Inr (c @ l @ ?key @ ?pad)"
    using len length_utf8 [of "msg_key m"] cl by (simp add: client_serialize_def fld)
  have n: "length c = 4" "length l = 4" "unpack_int c = command m" "unpack_int l = msg_length m"
    using unpack_pack cl by auto
  have "utf8_decode (?key @ ?pad) = Inr (msg_key m @ replicate (MAX_KEY_LENGTH - length ?key) (CHR '' ''))"
    by (simp add: utf8_roundtrip utf8_decode_spaces)
  then have "client_deserialize (c @ l @ ?key @ ?pad) = Inr m"
    using n len strip_spaces assms(1) by (simp add: client_deserialize_def client_packlength_def wire_key_def)
  then show ?thesis using ser n len by (simp add: client_packlength_def)
qed

lemma server_wire_law:
  assumes "- (2 ^ 31) \<le> code m" "code m < 2 ^ 31" "- (2 ^ 31) \<le> reply_length m" "reply_length m < 2 ^ 31"
  shows "\<exists>bs. server_serialize m = Inr bs \<and> length bs = server_packlength \<and> server_deserialize bs = Inr m"
proof -
  obtain c l where cl: "pack_int (code m) = Inr c" "pack_int (reply_length m) = Inr l"
    using assms by (simp add: pack_int_def)
  then have "length c = 4" "length l = 4" "unpack_int c = code m" "unpack_int l = reply_length m"
    using unpack_pack by auto
  with cl show ?thesis by (simp add: server_serialize_def server_deserialize_def server_packlength_def)
qed

section \<open>The server\<close>

text \<open>
  \<open>LMSLocalBackend\<close>: a dictionary without a limit.  \<open>DummyEvictor\<close> evicts nothing and never
  refuses, so \<open>put\<close> always stores.
\<close>

type_synonym server_store = "(string, bytes) dict"

definition ls_list_keys :: "server_store \<Rightarrow> string list" where
  "ls_list_keys d = dkeys d"

definition ls_contains :: "string \<Rightarrow> server_store \<Rightarrow> bool" where
  "ls_contains k d \<longleftrightarrow> dhas d k"

definition ls_remove :: "string \<Rightarrow> server_store \<Rightarrow> server_store result" where
  "ls_remove k d = bindr (dindex d k) (\<lambda>_. Inr (AList.delete k d))"

definition ls_put :: "string \<Rightarrow> bytes \<Rightarrow> server_store \<Rightarrow> server_store result" where
  "ls_put k v d =
     (case dummy_update_on_put of (evict_keys, st) \<Rightarrow>
        if st = ILLEGAL then Inr d
        else bindr (foldM (\<lambda>d x. ls_remove x d) d evict_keys) (\<lambda>d'. Inr (AList.update k v d')))"

definition ls_get :: "string \<Rightarrow> server_store \<Rightarrow> bytes option" where
  "ls_get k d = map_of d k"

lemma ls_put_eq: "ls_put k v d = Inr (AList.update k v d)"
  by (simp add: ls_put_def dummy_update_on_put_def)

text \<open>
  One round of \<open>handle_client\<close>: \<open>None\<close> while it waits for the rest of a header or of a payload;
  otherwise the store, the bytes not yet read and the reply.
\<close>

definition reply :: "int \<Rightarrow> bytes \<Rightarrow> bytes result" where
  "reply c data = bindr (server_serialize \<lparr>code = c, reply_length = int (length data)\<rparr>) (\<lambda>h. Inr (h @ data))"

definition dispatch ::
  "server_store \<Rightarrow> client_msg \<Rightarrow> bytes \<Rightarrow> (server_store \<times> bytes \<times> bytes) option result" where
  "dispatch d meta body =
     (if command meta = CLIENT_PUT then
        (if length body < nat (msg_length meta) then Inr None
         else bindr (ls_put (msg_key meta) (take (nat (msg_length meta)) body) d) (\<lambda>d'.
                Inr (Some (d', drop (nat (msg_length meta)) body, []))))
      else if command meta = CLIENT_GET then
        (case ls_get (msg_key meta) d of
           Some data \<Rightarrow> bindr (reply SERVER_SUCCESS data) (\<lambda>r. Inr (Some (d, body, r)))
         | None \<Rightarrow> bindr (reply SERVER_FAIL []) (\<lambda>r. Inr (Some (d, body, r))))
      else if command meta = CLIENT_EXIST then
        bindr (reply (if msg_key meta \<in> set (ls_list_keys d) then SERVER_SUCCESS else SERVER_FAIL) []) (\<lambda>r.
          Inr (Some (d, body, r)))
      else if command meta = CLIENT_LIST then
        bindr (reply SERVER_SUCCESS (utf8_encode (join_with (CHR 0x0A) (ls_list_keys d)))) (\<lambda>r. Inr (Some (d, body, r)))
      else Inr (Some (d, body, [])))"

definition handle_one :: "server_store \<Rightarrow> bytes \<Rightarrow> (server_store \<times> bytes \<times> bytes) option result" where
  "handle_one d inb =
     (if length inb < client_packlength then Inr None
      else bindr (client_deserialize (take client_packlength inb)) (\<lambda>meta.
             dispatch d meta (drop client_packlength inb)))"

lemma dispatch_append:
  assumes "dispatch d meta body = Inr (Some (d', rest, out))"
  shows "dispatch d meta (body @ xs) = Inr (Some (d', rest @ xs, out)) \<and> length rest \<le> length body"
proof (cases "command meta = CLIENT_PUT")
  case True
  with assms show ?thesis by (auto simp: dispatch_def ls_put_eq split: if_splits)
next
  case False
  with assms show ?thesis
    by (cases "ls_get (msg_key meta) d") (auto simp: dispatch_def split: if_splits)
qed

lemma handle_one_less:
  assumes "handle_one d inb = Inr (Some (d', inb', out))"
  shows "length inb' < length inb"
proof -
  from assms obtain meta where "\<not> length inb < client_packlength"
    "dispatch d meta (drop client_packlength inb) = Inr (Some (d', inb', out))"
    by (auto simp: handle_one_def split: if_splits)
  moreover have "0 < client_packlength" by (simp add: client_packlength_def)
  ultimately show ?thesis using dispatch_append by fastforce
qed

text \<open>\<open>handle_client\<close> until it waits: the store, what is left unread and all replies.\<close>

function handle_client :: "server_store \<Rightarrow> bytes \<Rightarrow> (server_store \<times> bytes \<times> bytes) result" where
  "handle_client d inb =
     (case handle_one d inb of
        Inl e \<Rightarrow> Inl e
      | Inr None \<Rightarrow> Inr (d, inb, [])
      | Inr (Some (d', inb', out)) \<Rightarrow>
          bindr (handle_client d' inb') (\<lambda>(d2, inb2, out2). Inr (d2, inb2, out @ out2)))"
  by auto
termination
  by (relation "measure (\<lambda>(d, inb). length inb)") (auto dest: handle_one_less)

declare handle_client.simps [simp del]

section \<open>The connector\<close>

record connection =
  srv_store :: server_store
  inbox :: bytes
  outbox :: bytes
  cuts :: "nat list"

definition send_all :: "bytes \<Rightarrow> connection \<Rightarrow> connection" where
  "send_all bs c = c\<lparr>inbox := inbox c @ bs\<rparr>"

definition run_server :: "connection \<Rightarrow> connection result" where
  "run_server c =
     bindr (handle_client (srv_store c) (inbox c)) (\<lambda>(d, inb, out).
       Inr (c\<lparr>srv_store := d, inbox := inb, outbox := outbox c @ out\<rparr>))"

text \<open>One \<open>recv\<close> of at most \<open>n\<close> bytes: it waits for the first byte, not for the last.\<close>

definition piece :: "nat \<Rightarrow> connection \<Rightarrow> nat" where
  "piece n c = (case cuts c of [] \<Rightarrow> n | k # _ \<Rightarrow> min n (max 1 k))"

definition recv :: "nat \<Rightarrow> connection \<Rightarrow> (bytes \<times> connection) result" where
  "recv n c =
     (if outbox c = [] then Inl Blocked
      else Inr (take (piece n c) (outbox c), c\<lparr>outbox := drop (piece n c) (outbox c), cuts := tl (cuts c)\<rparr>))"

lemma recv_progress: "recv n c = Inr (bs, c') \<Longrightarrow> 0 < n \<Longrightarrow> 0 < length bs \<and> length bs \<le> n"
  by (auto simp: recv_def piece_def split: if_splits list.splits)

function receive_loop :: "nat \<Rightarrow> bytes \<Rightarrow> connection \<Rightarrow> (bytes \<times> connection) result" where
  "receive_loop n received c =
     (if n \<le> length received then Inr (received, c)
      else case recv (n - length received) c of
        Inl e \<Rightarrow> Inl e
      | Inr (bs, c') \<Rightarrow> receive_loop n (received @ bs) c')"
  by auto
termination
  by (relation "measure (\<lambda>(n, received, c). n - length received)") (auto dest!: recv_progress simp flip: length_greater_0_conv)

declare receive_loop.simps [simp del]

definition receive_all :: "nat \<Rightarrow> connection \<Rightarrow> (bytes \<times> connection) result" where
  "receive_all n c = bindr (run_server c) (receive_loop n [])"

definition receive_meta :: "connection \<Rightarrow> (server_msg \<times> connection) result" where
  "receive_meta c =
     bindr (run_server c) (\<lambda>c1. bindr (recv server_packlength c1) (\<lambda>(data, c2).
       bindr (server_deserialize data) (\<lambda>m. Inr (m, c2))))"

definition request :: "int \<Rightarrow> string \<Rightarrow> int \<Rightarrow> connection \<Rightarrow> connection result" where
  "request cmd k n c =
     bindr (client_serialize \<lparr>command = cmd, msg_key = k, msg_length = n\<rparr>) (\<lambda>h. Inr (send_all h c))"

definition conn_exists :: "string \<Rightarrow> connection \<Rightarrow> (bool \<times> connection) result" where
  "conn_exists k c =
     bindr (request CLIENT_EXIST k 0 c) (\<lambda>c1. bindr (receive_meta c1) (\<lambda>(m, c2).
       Inr (code m = SERVER_SUCCESS, c2)))"

definition conn_set :: "string \<Rightarrow> bytes \<Rightarrow> connection \<Rightarrow> connection result" where
  "conn_set k obj c =
     bindr (request CLIENT_PUT k (int (length obj)) c) (\<lambda>c1. Inr (send_all obj c1))"

definition conn_get :: "string \<Rightarrow> connection \<Rightarrow> (bytes option \<times> connection) result" where
  "conn_get k c =
     bindr (request CLIENT_GET k 0 c) (\<lambda>c1. bindr (receive_meta c1) (\<lambda>(m, c2).
       if code m \<noteq> SERVER_SUCCESS then Inr (None, c2)
       else bindr (receive_all (nat (reply_length m)) c2) (\<lambda>(data, c3). Inr (Some data, c3))))"

definition conn_list :: "connection \<Rightarrow> (string list \<times> connection) result" where
  "conn_list c =
     bindr (request CLIENT_LIST [] 0 c) (\<lambda>c1. bindr (receive_meta c1) (\<lambda>(m, c2).
       if code m \<noteq> SERVER_SUCCESS then Inr ([], c2)
       else bindr (receive_all (nat (reply_length m)) c2) (\<lambda>(data, c3).
         bindr (utf8_decode data) (\<lambda>s. Inr (filter (\<lambda>l. length l > 0) (split_on (CHR 0x0A) s), c3)))))"

section \<open>Laws of the conversation\<close>

lemma handle_one_append:
  assumes "handle_one d inb = Inr (Some (d', rest, out))"
  shows "handle_one d (inb @ xs) = Inr (Some (d', rest @ xs, out))"
proof -
  from assms obtain meta where n: "\<not> length inb < client_packlength"
    and meta: "client_deserialize (take client_packlength inb) = Inr meta"
    and disp: "dispatch d meta (drop client_packlength inb) = Inr (Some (d', rest, out))"
    by (auto simp: handle_one_def split: if_splits)
  from n have "take client_packlength (inb @ xs) = take client_packlength inb"
    "drop client_packlength (inb @ xs) = drop client_packlength inb @ xs" by simp_all
  with n meta dispatch_append [OF disp, of xs] show ?thesis
    by (simp add: handle_one_def del: bindr_Inr_iff)
qed

lemma handle_client_append:
  "handle_client d inb = Inr (d', [], out) \<Longrightarrow>
     handle_client d (inb @ xs) = bindr (handle_client d' xs) (\<lambda>(d2, r, o2). Inr (d2, r, out @ o2))"
proof (induction d inb arbitrary: out rule: handle_client.induct)
  case (1 d inb)
  show ?case
  proof (cases "handle_one d inb")
    case (Inl e)
    with 1(2) show ?thesis by (simp add: handle_client.simps [of d inb])
  next
    case one: (Inr r)
    show ?thesis
    proof (cases r)
      case None
      with one 1(2) have "inb = []" "d' = d" "out = []" by (auto simp: handle_client.simps [of d inb])
      then show ?thesis by (cases "handle_client d xs") auto
    next
      case (Some t)
      then obtain d1 inb1 o1 where t: "r = Some (d1, inb1, o1)" by (cases t) auto
      from one 1(2) t obtain o2 where o2: "handle_client d1 inb1 = Inr (d', [], o2)" "out = o1 @ o2"
        by (auto simp: handle_client.simps [of d inb])
      from 1(1) [OF one t refl refl o2(1)] handle_one_append [OF one [unfolded t]] show ?thesis
        by (cases "handle_client d' xs")
          (simp_all add: handle_client.simps [of d "inb @ xs"] o2(2) split_beta del: bindr_Inr_iff)
    qed
  qed
qed

lemma handle_client_Nil: "handle_client d [] = Inr (d, [], [])"
  by (simp add: handle_client.simps [of d "[]"] handle_one_def client_packlength_def)

text \<open>
  What the server will hold once it has read everything the client has sent.  Between two calls
  no reply is pending.
\<close>

definition settled :: "connection \<Rightarrow> server_store \<Rightarrow> bool" where
  "settled c d \<longleftrightarrow> outbox c = [] \<and> handle_client (srv_store c) (inbox c) = Inr (d, [], [])"

lemma request_law:
  assumes "wire_key k" "cmd \<in> {1..4}" "0 \<le> n" "n < 2 ^ 31"
  obtains h where "request cmd k n c = Inr (send_all h c)" "length h = client_packlength"
    "client_deserialize h = Inr \<lparr>command = cmd, msg_key = k, msg_length = n\<rparr>"
proof -
  from client_wire_law [of "\<lparr>command = cmd, msg_key = k, msg_length = n\<rparr>"] assms obtain h where
    "client_serialize \<lparr>command = cmd, msg_key = k, msg_length = n\<rparr> = Inr h" "length h = client_packlength"
    "client_deserialize h = Inr \<lparr>command = cmd, msg_key = k, msg_length = n\<rparr>" by auto
  with that show thesis by (simp add: request_def)
qed

text \<open>After a request the server has answered as soon as the client reads.\<close>

lemma reply_law:
  assumes "int (length data) < 2 ^ 31" "c \<in> {200, 400}"
  obtains h where "reply c data = Inr (h @ data)" "length h = server_packlength"
    "server_deserialize h = Inr \<lparr>code = c, reply_length = int (length data)\<rparr>"
proof -
  from server_wire_law [of "\<lparr>code = c, reply_length = int (length data)\<rparr>"] assms obtain h where
    "server_serialize \<lparr>code = c, reply_length = int (length data)\<rparr> = Inr h" "length h = server_packlength"
    "server_deserialize h = Inr \<lparr>code = c, reply_length = int (length data)\<rparr>" by auto
  with that show thesis by (simp add: reply_def)
qed

text \<open>
  The header of a reply comes short when the first piece of it has fewer than 8 bytes: the one
  \<open>recv\<close> then returns an incomplete header, and decoding raises \<open>struct.error\<close>.
\<close>

definition header_short :: "connection \<Rightarrow> bool" where
  "header_short c \<longleftrightarrow> piece server_packlength c < server_packlength"

lemma answered:
  assumes "settled c d" "handle_one d h = Inr (Some (d', [], hdr @ data))" "length hdr = server_packlength"
    "server_deserialize hdr = Inr m"
  shows "if header_short c then receive_meta (send_all h c) = Inl StructError
     else \<exists>c'. receive_meta (send_all h c) = Inr (m, c') \<and> outbox c' = data \<and> srv_store c' = d' \<and> inbox c' = []
       \<and> cuts c' = tl (cuts c)"
proof -
  have "handle_client d h = Inr (d', [], hdr @ data)"
    by (simp add: handle_client.simps [of d h] assms(2) handle_client_Nil del: bindr_Inr_iff)
  then have "handle_client (srv_store c) (inbox c @ h) = Inr (d', [], hdr @ data)"
    using handle_client_append [of "srv_store c" "inbox c" d "[]" h] assms(1)
    by (simp add: settled_def del: bindr_Inr_iff)
  then have run: "run_server (send_all h c) = Inr (c\<lparr>srv_store := d', inbox := [], outbox := hdr @ data\<rparr>)"
    using assms(1) by (simp add: run_server_def send_all_def settled_def del: bindr_Inr_iff)
  let ?c1 = "c\<lparr>srv_store := d', inbox := [], outbox := hdr @ data\<rparr>"
  have ne: "hdr \<noteq> []" using assms(3) by (auto simp: server_packlength_def)
  have p: "piece server_packlength ?c1 = piece server_packlength c" by (simp add: piece_def)
  have le: "piece server_packlength c \<le> server_packlength" by (auto simp: piece_def split: list.splits)
  have rc: "recv server_packlength ?c1 = Inr (take (piece server_packlength c) hdr,
      ?c1\<lparr>outbox := drop (piece server_packlength c) (hdr @ data), cuts := tl (cuts c)\<rparr>)"
    using ne le assms(3) by (simp add: recv_def p)
  show ?thesis
  proof (cases "header_short c")
    case True
    then have "length (take (piece server_packlength c) hdr) \<noteq> server_packlength"
      using assms(3) by (simp add: header_short_def)
    then have "receive_meta (send_all h c) = Inl StructError"
      by (simp add: receive_meta_def run rc server_deserialize_def del: bindr_Inr_iff)
    with True show ?thesis by simp
  next
    case False
    then have eq: "piece server_packlength c = server_packlength" using le by (simp add: header_short_def)
    have "receive_meta (send_all h c) = Inr (m, ?c1\<lparr>outbox := data, cuts := tl (cuts c)\<rparr>)"
      using assms(3,4) by (simp add: receive_meta_def run rc eq del: bindr_Inr_iff)
    with False show ?thesis by simp
  qed
qed

text \<open>The loop of \<open>receive_all\<close> reads the same bytes in whatever pieces they come.\<close>

lemma receive_loop_law:
  "length received \<le> n \<Longrightarrow> n - length received \<le> length (outbox c) \<Longrightarrow>
     \<exists>ks. receive_loop n received c = Inr (received @ take (n - length received) (outbox c),
       c\<lparr>outbox := drop (n - length received) (outbox c), cuts := ks\<rparr>) \<and> (cuts c = [] \<longrightarrow> ks = [])"
proof (induction n received c rule: receive_loop.induct)
  case (1 n received c)
  show ?case
  proof (cases "n \<le> length received")
    case True
    with 1(2) show ?thesis by (intro exI [of _ "cuts c"]) (simp add: receive_loop.simps [of n received c])
  next
    case False
    let ?m = "n - length received"
    define p where "p = piece ?m c"
    have p: "0 < p" "p \<le> ?m" using False by (auto simp: p_def piece_def split: list.splits)
    then have ne: "outbox c \<noteq> []" using 1(3) False by auto
    let ?c1 = "c\<lparr>outbox := drop p (outbox c), cuts := tl (cuts c)\<rparr>"
    have rc: "recv ?m c = Inr (take p (outbox c), ?c1)" using ne by (simp add: recv_def p_def)
    have len: "length (take p (outbox c)) = p" using p(2) 1(3) by simp
    have left: "n - length (received @ take p (outbox c)) = ?m - p" using len by simp
    have "\<exists>ks. receive_loop n (received @ take p (outbox c)) ?c1
        = Inr ((received @ take p (outbox c)) @ take (n - length (received @ take p (outbox c))) (outbox ?c1),
            ?c1\<lparr>outbox := drop (n - length (received @ take p (outbox c))) (outbox ?c1), cuts := ks\<rparr>)
        \<and> (cuts ?c1 = [] \<longrightarrow> ks = [])"
      by (rule 1(1) [OF False rc refl]) (use len p False 1(3) in simp_all)
    then obtain ks where "receive_loop n (received @ take p (outbox c)) ?c1
        = Inr ((received @ take p (outbox c)) @ take (?m - p) (outbox ?c1), ?c1\<lparr>outbox := drop (?m - p) (outbox ?c1), cuts := ks\<rparr>)"
      and none: "cuts ?c1 = [] \<longrightarrow> ks = []" unfolding left by blast
    then have ks: "receive_loop n (received @ take p (outbox c)) ?c1
        = Inr ((received @ take p (outbox c)) @ take (?m - p) (drop p (outbox c)), ?c1\<lparr>outbox := drop (?m - p) (drop p (outbox c)), cuts := ks\<rparr>)"
      by (simp del: drop_drop)
    have "take p (outbox c) @ take (?m - p) (drop p (outbox c)) = take ?m (outbox c)"
      using take_add [of p "?m - p" "outbox c", symmetric] by (simp only: le_add_diff_inverse [OF p(2)])
    moreover have "drop (?m - p) (drop p (outbox c)) = drop ?m (outbox c)"
      by (simp only: drop_drop add.commute [of _ p] le_add_diff_inverse [OF p(2)])
    moreover have "cuts c = [] \<longrightarrow> ks = []" using none by simp
    ultimately show ?thesis using False rc ks
      by (intro exI [of _ ks]) (simp add: receive_loop.simps [of n received c] del: drop_drop)
  qed
qed

lemma receive_rest:
  assumes "outbox c = data" "inbox c = []"
  shows "\<exists>ks. receive_all (nat (int (length data))) c = Inr (data, c\<lparr>outbox := [], cuts := ks\<rparr>) \<and> (cuts c = [] \<longrightarrow> ks = [])"
proof -
  have "run_server c = Inr c" using assms by (cases c) (simp add: run_server_def handle_client_Nil)
  then show ?thesis using receive_loop_law [of "[]" "length data" c] assms(1) by (simp add: receive_all_def)
qed

lemma settled_idle: "outbox c = [] \<Longrightarrow> inbox c = [] \<Longrightarrow> settled c (srv_store c)"
  by (simp add: settled_def handle_client_Nil)

lemma conn_set_law:
  assumes "settled c d" "wire_key k" "length v < 2 ^ 31"
  shows "\<exists>c'. conn_set k v c = Inr c' \<and> settled c' (AList.update k v d)"
proof -
  obtain h where h: "request CLIENT_PUT k (int (length v)) c = Inr (send_all h c)" "length h = client_packlength"
    "client_deserialize h = Inr \<lparr>command = CLIENT_PUT, msg_key = k, msg_length = int (length v)\<rparr>"
    using request_law [of k CLIENT_PUT "int (length v)" c] assms(2,3) by (auto simp: message_codes)
  have "handle_one d (h @ v) = Inr (Some (AList.update k v d, [], []))"
    using h(2,3) by (simp add: handle_one_def dispatch_def ls_put_eq del: bindr_Inr_iff)
  then have "handle_client d (h @ v) = Inr (AList.update k v d, [], [])"
    by (simp add: handle_client.simps [of d "h @ v"] handle_client_Nil del: bindr_Inr_iff)
  then have "settled (send_all v (send_all h c)) (AList.update k v d)"
    using handle_client_append [of "srv_store c" "inbox c" d "[]" "h @ v"] assms(1)
    by (simp add: settled_def send_all_def del: bindr_Inr_iff)
  then show ?thesis using h(1) by (simp add: conn_set_def del: bindr_Inr_iff)
qed

lemma conn_get_law:
  assumes "settled c d" "wire_key k" "\<And>v. map_of d k = Some v \<Longrightarrow> length v < 2 ^ 31"
  shows "if header_short c then conn_get k c = Inl StructError else \<exists>c'. conn_get k c = Inr (map_of d k, c') \<and> settled c' d
     \<and> (cuts c = [] \<longrightarrow> cuts c' = [])"
proof -
  obtain h where h: "request CLIENT_GET k 0 c = Inr (send_all h c)" "length h = client_packlength"
    "client_deserialize h = Inr \<lparr>command = CLIENT_GET, msg_key = k, msg_length = 0\<rparr>"
    using request_law [of k CLIENT_GET 0 c] assms(2) by (auto simp: message_codes)
  define cd where "cd = (case map_of d k of None \<Rightarrow> SERVER_FAIL | Some _ \<Rightarrow> SERVER_SUCCESS)"
  define data where "data = (case map_of d k of None \<Rightarrow> [] | Some v \<Rightarrow> v)"
  have lt: "int (length data) < 2 ^ 31" using assms(3) by (auto simp: data_def split: option.splits)
  have cd: "cd \<in> {200, 400}" by (auto simp: cd_def message_codes split: option.splits)
  obtain r where r: "reply cd data = Inr (r @ data)" "length r = server_packlength"
    "server_deserialize r = Inr \<lparr>code = cd, reply_length = int (length data)\<rparr>"
    using reply_law [OF lt cd] by metis
  have "handle_one d h = Inr (Some (d, [], r @ data))"
    using h(2,3) r(1) by (cases "map_of d k")
      (simp_all add: handle_one_def dispatch_def ls_get_def message_codes cd_def data_def del: bindr_Inr_iff)
  note ans = answered [OF assms(1) this r(2,3)]
  show ?thesis
  proof (cases "header_short c")
    case True
    with ans h(1) show ?thesis by (simp add: conn_get_def del: bindr_Inr_iff)
  next
    case False
    with ans obtain c' where
      c': "receive_meta (send_all h c) = Inr (\<lparr>code = cd, reply_length = int (length data)\<rparr>, c')"
      "outbox c' = data" "srv_store c' = d" "inbox c' = []" "cuts c' = tl (cuts c)" by auto
    show ?thesis
    proof (cases "map_of d k")
      case None
      then have "outbox c' = []" using c'(2) by (simp add: data_def)
      with None h(1) c' settled_idle [of c'] False show ?thesis
        by (simp add: conn_get_def cd_def message_codes del: bindr_Inr_iff)
    next
      case (Some v)
      have "data = v" by (simp add: data_def Some)
      moreover obtain ks where "receive_all (nat (int (length data))) c' = Inr (data, c'\<lparr>outbox := [], cuts := ks\<rparr>)"
          "cuts c' = [] \<longrightarrow> ks = []" using receive_rest [OF c'(2,4)] by blast
      moreover have "settled (c'\<lparr>outbox := [], cuts := ks\<rparr>) d" for ks
        using settled_idle [of "c'\<lparr>outbox := [], cuts := ks\<rparr>"] c'(3,4) by simp
      ultimately show ?thesis using Some h(1) c'(1,5) False
        by (simp add: conn_get_def cd_def message_codes del: bindr_Inr_iff)
    qed
  qed
qed

lemma conn_exists_law:
  assumes "settled c d" "wire_key k"
  shows "if header_short c then conn_exists k c = Inl StructError
     else \<exists>c'. conn_exists k c = Inr (map_of d k \<noteq> None, c') \<and> settled c' d \<and> cuts c' = tl (cuts c)"
proof -
  obtain h where h: "request CLIENT_EXIST k 0 c = Inr (send_all h c)" "length h = client_packlength"
    "client_deserialize h = Inr \<lparr>command = CLIENT_EXIST, msg_key = k, msg_length = 0\<rparr>"
    using request_law [of k CLIENT_EXIST 0 c] assms(2) by (auto simp: message_codes)
  define cd where "cd = (if map_of d k \<noteq> None then SERVER_SUCCESS else SERVER_FAIL)"
  have cd: "cd \<in> {200, 400}" by (auto simp: cd_def message_codes)
  obtain r where r: "reply cd [] = Inr (r @ [])" "length r = server_packlength"
    "server_deserialize r = Inr \<lparr>code = cd, reply_length = int (length ([] :: bytes))\<rparr>"
  proof (rule reply_law [OF _ cd])
    show "int (length ([] :: bytes)) < 2 ^ 31" by simp
  qed
  have "handle_one d h = Inr (Some (d, [], r @ []))"
    using h(2,3) r(1)
    by (simp add: handle_one_def dispatch_def ls_list_keys_def message_codes cd_def map_of_eq_None_iff del: bindr_Inr_iff)
  note ans = answered [OF assms(1) this r(2,3)]
  show ?thesis
  proof (cases "header_short c")
    case True
    with ans h(1) show ?thesis by (simp add: conn_exists_def del: bindr_Inr_iff)
  next
    case False
    with ans obtain c' where
      c': "receive_meta (send_all h c) = Inr (\<lparr>code = cd, reply_length = 0\<rparr>, c')"
      "outbox c' = []" "srv_store c' = d" "inbox c' = []" "cuts c' = tl (cuts c)" by auto
    with h(1) settled_idle [of c'] False show ?thesis
      by (simp add: conn_exists_def cd_def message_codes del: bindr_Inr_iff)
  qed
qed

lemma split_join_lines:
  assumes "\<forall>k \<in> set ks. k \<noteq> [] \<and> CHR 0x0A \<notin> set k"
  shows "filter (\<lambda>l. length l > 0) (split_on (CHR 0x0A) (join_with (CHR 0x0A) ks)) = ks"
proof (cases "ks = []")
  case False
  with assms have "split_on (CHR 0x0A) (join_with (CHR 0x0A) ks) = ks" by (intro split_on_join) auto
  with assms show ?thesis by (simp add: filter_id_conv)
qed simp

lemma conn_list_law:
  assumes "settled c d" "\<forall>k \<in> set (dkeys d). k \<noteq> [] \<and> CHR 0x0A \<notin> set k"
    and "length (utf8_encode (join_with (CHR 0x0A) (dkeys d))) < 2 ^ 31"
  shows "if header_short c then conn_list c = Inl StructError else \<exists>c'. conn_list c = Inr (dkeys d, c') \<and> settled c' d"
proof -
  have "wire_key []" by (simp add: wire_key_def utf8_encode_def strip_def)
  then obtain h where h: "request CLIENT_LIST [] 0 c = Inr (send_all h c)" "length h = client_packlength"
    "client_deserialize h = Inr \<lparr>command = CLIENT_LIST, msg_key = [], msg_length = 0\<rparr>"
    using request_law [of "[]" CLIENT_LIST 0 c] by (auto simp: message_codes)
  let ?data = "utf8_encode (join_with (CHR 0x0A) (dkeys d))"
  obtain r where r: "reply SERVER_SUCCESS ?data = Inr (r @ ?data)" "length r = server_packlength"
    "server_deserialize r = Inr \<lparr>code = SERVER_SUCCESS, reply_length = int (length ?data)\<rparr>"
  proof (rule reply_law [of ?data SERVER_SUCCESS])
    show "int (length ?data) < 2 ^ 31" using assms(3) by simp
    show "SERVER_SUCCESS \<in> {200, 400}" by (simp add: SERVER_SUCCESS_def)
  qed
  have "handle_one d h = Inr (Some (d, [], r @ ?data))"
    using h(2,3) r(1) by (simp add: handle_one_def dispatch_def ls_list_keys_def message_codes del: bindr_Inr_iff)
  note ans = answered [OF assms(1) this r(2,3)]
  show ?thesis
  proof (cases "header_short c")
    case True
    with ans h(1) show ?thesis by (simp add: conn_list_def del: bindr_Inr_iff)
  next
    case False
    with ans obtain c' where
      c': "receive_meta (send_all h c) = Inr (\<lparr>code = SERVER_SUCCESS, reply_length = int (length ?data)\<rparr>, c')"
      "outbox c' = ?data" "srv_store c' = d" "inbox c' = []" by auto
    obtain ks where "receive_all (nat (int (length ?data))) c' = Inr (?data, c'\<lparr>outbox := [], cuts := ks\<rparr>)"
      using receive_rest [OF c'(2,4)] by blast
    moreover have "utf8_decode ?data = Inr (join_with (CHR 0x0A) (dkeys d))" using utf8_roundtrip [of _ "[]"] by simp
    moreover have "settled (c'\<lparr>outbox := [], cuts := ks\<rparr>) d"
      using settled_idle [of "c'\<lparr>outbox := [], cuts := ks\<rparr>"] c'(3,4) by simp
    ultimately show ?thesis
      using h(1) c'(1) split_join_lines [OF assms(2)] False
      by (simp add: conn_list_def del: bindr_Inr_iff)
  qed
qed

section \<open>Properties\<close>

text \<open>
  C32.  Decoding inverts encoding for every message with a key of at most 150 encoded bytes without
  white space at its ends and integers of 32 bits; every such request is 158 bytes and every reply
  header 8 bytes, which is what the reader of the other side waits for.
\<close>

theorem wire_roundtrip:
  assumes "wire_key (msg_key m)" "- (2 ^ 31) \<le> command m" "command m < 2 ^ 31"
    and "- (2 ^ 31) \<le> msg_length m" "msg_length m < 2 ^ 31"
    and "- (2 ^ 31) \<le> code r" "code r < 2 ^ 31" "- (2 ^ 31) \<le> reply_length r" "reply_length r < 2 ^ 31"
  shows "(\<exists>bs. client_serialize m = Inr bs \<and> length bs = 158 \<and> client_deserialize bs = Inr m)
     \<and> (\<exists>bs. server_serialize r = Inr bs \<and> length bs = 8 \<and> server_deserialize bs = Inr r)"
  using client_wire_law [OF assms(1-5)] server_wire_law [OF assms(6-9)]
  by (simp add: client_packlength_def server_packlength_def MAX_KEY_LENGTH_def)

lemma wire_roundtrip_witness:
  "\<exists>bs. client_serialize \<lparr>command = 1, msg_key = ''some-random-key'', msg_length = 50\<rparr> = Inr bs
     \<and> client_deserialize bs = Inr \<lparr>command = 1, msg_key = ''some-random-key'', msg_length = 50\<rparr>"
proof -
  have "wire_key ''some-random-key''" by code_simp
  then show ?thesis
    using wire_roundtrip [of "\<lparr>command = 1, msg_key = ''some-random-key'', msg_length = 50\<rparr>" "\<lparr>code = 400, reply_length = 0\<rparr>"]
    by auto
qed

text \<open>
  The check of the key counts characters while the field counts bytes: when the encoding of
  a prefix already fills the field, keys that differ after it are sent as the same bytes, so the
  server cannot tell them apart.
\<close>

theorem long_keys_collide:
  assumes "length (utf8_encode p) = MAX_KEY_LENGTH" "length (p @ k) \<le> MAX_KEY_LENGTH" "length (p @ l) \<le> MAX_KEY_LENGTH"
  shows "client_serialize \<lparr>command = cmd, msg_key = p @ k, msg_length = n\<rparr>
     = client_serialize \<lparr>command = cmd, msg_key = p @ l, msg_length = n\<rparr>"
proof -
  have "pack_str MAX_KEY_LENGTH (ljust MAX_KEY_LENGTH (utf8_encode (p @ x))) = utf8_encode p" for x
    using assms(1) by (simp add: pack_str_def ljust_def utf8_encode_def)
  then show ?thesis using assms(2,3) by (simp add: client_serialize_def)
qed

lemma long_keys_collide_witness:
  "client_serialize \<lparr>command = 2, msg_key = replicate 75 (CHR 0xE9) @ ''a'', msg_length = 0\<rparr>
     = client_serialize \<lparr>command = 2, msg_key = replicate 75 (CHR 0xE9) @ ''b'', msg_length = 0\<rparr>"
proof (rule long_keys_collide)
  show "length (utf8_encode (replicate 75 (CHR 0xE9))) = MAX_KEY_LENGTH" by code_simp
qed (simp_all add: MAX_KEY_LENGTH_def)

text \<open>
  C31.  The connector and the server together behave as one dictionary: whatever has been sent and
  not yet read, \<open>set\<close> updates it, and \<open>get\<close>, \<open>exists\<close> and \<open>list\<close> answer from it as it is after every
  put sent before them, after which the two streams are in step again, however the network cuts the reply into pieces; with one
  exception: when the first piece of a reply has fewer than the 8 bytes of its header, the call raises
  \<open>struct.error\<close>.
\<close>

theorem connection_refines_dictionary:
  assumes "settled c d" "wire_key k" "length v < 2 ^ 31"
    and "\<forall>(x, w) \<in> set d. x \<noteq> [] \<and> CHR 0x0A \<notin> set x \<and> length w < 2 ^ 31"
    and "length (utf8_encode (join_with (CHR 0x0A) (dkeys d))) < 2 ^ 31"
  shows "(\<exists>c'. conn_set k v c = Inr c' \<and> settled c' (AList.update k v d))
     \<and> (if header_short c
        then conn_get k c = Inl StructError \<and> conn_exists k c = Inl StructError \<and> conn_list c = Inl StructError
        else (\<exists>c'. conn_get k c = Inr (map_of d k, c') \<and> settled c' d)
          \<and> (\<exists>c'. conn_exists k c = Inr (map_of d k \<noteq> None, c') \<and> settled c' d)
          \<and> (\<exists>c'. conn_list c = Inr (dkeys d, c') \<and> settled c' d))"
proof
  show "\<exists>c'. conn_set k v c = Inr c' \<and> settled c' (AList.update k v d)" by (rule conn_set_law [OF assms(1-3)])
  have lens: "length w < 2 ^ 31" if "map_of d k = Some w" for w using assms(4) that by (auto dest: map_of_SomeD)
  have "\<forall>x \<in> set (dkeys d). x \<noteq> [] \<and> CHR 0x0A \<notin> set x" using assms(4) by auto
  note laws = conn_get_law [OF assms(1,2) lens] conn_exists_law [OF assms(1,2)] conn_list_law [OF assms(1) this assms(5)]
  show "if header_short c
      then conn_get k c = Inl StructError \<and> conn_exists k c = Inl StructError \<and> conn_list c = Inl StructError
      else (\<exists>c'. conn_get k c = Inr (map_of d k, c') \<and> settled c' d)
        \<and> (\<exists>c'. conn_exists k c = Inr (map_of d k \<noteq> None, c') \<and> settled c' d)
        \<and> (\<exists>c'. conn_list c = Inr (dkeys d, c') \<and> settled c' d)"
  proof (cases "header_short c")
    case True
    with laws show ?thesis unfolding if_P [OF True] by blast
  next
    case False
    with laws show ?thesis unfolding if_not_P [OF False] by blast
  qed
qed

text \<open>The reply of the demo connection comes as its 8 header bytes and then byte by byte.\<close>

definition demo_conn :: connection where
  "demo_conn = \<lparr>srv_store = [(''k'', [1, 2])], inbox = [], outbox = [], cuts = [8, 1, 1]\<rparr>"

lemma connection_refines_dictionary_witness:
  "(\<exists>c'. conn_get ''k'' demo_conn = Inr (Some [1, 2], c')) \<and> conn_get ''k'' (demo_conn\<lparr>cuts := [7]\<rparr>) = Inl StructError"
proof -
  have w: "wire_key ''k''" "length (utf8_encode (join_with (CHR 0x0A) [''k''])) = 1" by code_simp+
  have "settled demo_conn [(''k'', [1, 2])]" "settled (demo_conn\<lparr>cuts := [7]\<rparr>) [(''k'', [1, 2])]"
    using settled_idle [of demo_conn] settled_idle [of "demo_conn\<lparr>cuts := [7]\<rparr>"] by (simp_all add: demo_conn_def)
  moreover have "\<not> header_short demo_conn" "header_short (demo_conn\<lparr>cuts := [7]\<rparr>)"
    by (simp_all add: header_short_def piece_def demo_conn_def server_packlength_def)
  ultimately show ?thesis
    using w connection_refines_dictionary [of demo_conn "[(''k'', [1, 2])]" "''k''" "[]"]
      connection_refines_dictionary [of "demo_conn\<lparr>cuts := [7]\<rparr>" "[(''k'', [1, 2])]" "''k''" "[]"]
    by auto
qed

end
