(* ===== verification/Remote_Backend.thy ===== *)
theory Remote_Backend
  imports KV_Store Wire
begin

text \<open>
  \<open>LMCRemoteBackend\<close> and \<open>LMCPipelinedRemoteBackend\<close> of
  \<open>LMCache/lmcache/storage_backend/remote_backend.py\<close> over the connector of \<open>Wire\<close>.  The
  serializer pair of \<open>storage_backend/serde\<close> is a parameter, \<open>to_bytes\<close> and \<open>from_bytes\<close>: the torch,
  safetensors and fast ones restore what they encode, the CacheGen one quantizes, so that nothing here
  assumes that decoding inverts encoding.  What a reader of the backend gets is
  \<open>from_bytes (to_bytes v)\<close>.  The backend relies on encodings that are not empty (\<open>get\<close>
  takes an empty payload for a miss) and shorter than 2 GiB, a condition on the chunks put.
\<close>

section \<open>The remote backend\<close>

definition rb_contains :: "cache_key \<Rightarrow> connection \<Rightarrow> (bool \<times> connection) result" where
  "rb_contains k c = conn_exists (key_to_string k) c"

definition rb_list :: "connection \<Rightarrow> (cache_key list \<times> connection) result" where
  "rb_list c = bindr (conn_list c) (\<lambda>(ks, c'). bindr (mapM key_from_string ks) (\<lambda>keys. Inr (keys, c')))"

definition rb_put_blocking :: "('v \<Rightarrow> bytes) \<Rightarrow> cache_key \<Rightarrow> 'v \<Rightarrow> connection \<Rightarrow> connection result" where
  "rb_put_blocking to_bytes k v c = conn_set (key_to_string k) (to_bytes v) c"

definition rb_put ::
  "('v \<Rightarrow> bytes) \<Rightarrow> bool \<Rightarrow> cache_key \<Rightarrow> 'v \<Rightarrow> connection \<times> (cache_key \<times> 'v) list
     \<Rightarrow> (connection \<times> (cache_key \<times> 'v) list) result" where
  "rb_put to_bytes blocking k v cq =
     (if blocking then bindr (rb_put_blocking to_bytes k v (fst cq)) (\<lambda>c'. Inr (c', snd cq))
      else Inr (fst cq, snd cq @ [(k, v)]))"

definition rb_worker :: "('v \<Rightarrow> bytes) \<Rightarrow> (cache_key \<times> 'v) list \<Rightarrow> connection \<Rightarrow> connection result" where
  "rb_worker to_bytes q c = foldM (\<lambda>c (k, v). rb_put_blocking to_bytes k v c) c q"

definition rb_get :: "(bytes \<Rightarrow> 'v) \<Rightarrow> cache_key \<Rightarrow> connection \<Rightarrow> ('v option \<times> connection) result" where
  "rb_get from_bytes k c =
     bindr (rb_contains k c) (\<lambda>(b, c1).
       if \<not> b then Inr (None, c1)
       else bindr (conn_get (key_to_string k) c1) (\<lambda>(obj, c2).
         case obj of
           None \<Rightarrow> Inr (None, c2)
         | Some bs \<Rightarrow> if length bs = 0 then Inr (None, c2) else Inr (Some (from_bytes bs), c2)))"

text \<open>
  The pipelined backend hands the keys to a network thread, which passes on the data of those that
  exist, and a second thread appends what it decodes to the result list.  A missing payload fails an
  assertion in the thread, and \<open>join\<close> then waits for ever.
\<close>

definition network_worker :: "cache_key list \<Rightarrow> connection \<Rightarrow> (bytes list \<times> connection) result" where
  "network_worker keys c =
     foldM (\<lambda>(q, c) k. bindr (rb_contains k c) (\<lambda>(b, c1).
         if \<not> b then Inr (q, c1)
         else bindr (conn_get (key_to_string k) c1) (\<lambda>(data, c2).
           case data of None \<Rightarrow> Inl Blocked | Some bs \<Rightarrow> Inr (q @ [bs], c2)))) ([], c) keys"

definition deserialize_worker :: "(bytes \<Rightarrow> 'v) \<Rightarrow> bytes list \<Rightarrow> 'v option list" where
  "deserialize_worker from_bytes q = map (\<lambda>bs. Some (from_bytes bs)) q"

definition pipelined_batched_get ::
  "(bytes \<Rightarrow> 'v) \<Rightarrow> cache_key list \<Rightarrow> connection \<Rightarrow> ('v option list \<times> connection) result" where
  "pipelined_batched_get from_bytes keys c =
     bindr (network_worker keys c) (\<lambda>(q, c'). Inr (deserialize_worker from_bytes q, c'))"

section \<open>The backend is a store\<close>

definition rb_valid :: "cache_key \<Rightarrow> bool" where
  "rb_valid k \<longleftrightarrow> key_plain k \<and> wire_key (key_to_string k)"

definition rb_fits :: "('v \<Rightarrow> bytes) \<Rightarrow> 'v \<Rightarrow> bool" where
  "rb_fits to_bytes v \<longleftrightarrow> to_bytes v \<noteq> [] \<and> length (to_bytes v) < 2 ^ 31"

text \<open>The dictionary the server will hold once it has read what was sent.\<close>

definition rb_seen :: "connection \<Rightarrow> server_store" where
  "rb_seen c = (case handle_client (srv_store c) (inbox c) of Inl e \<Rightarrow> [] | Inr (d, _, _) \<Rightarrow> d)"

definition rb_ok :: "connection \<Rightarrow> bool" where
  "rb_ok c \<longleftrightarrow> settled c (rb_seen c) \<and> (\<forall>k v. map_of (rb_seen c) k = Some v \<longrightarrow> v \<noteq> [] \<and> length v < 2 ^ 31)"

definition rb_stored :: "(bytes \<Rightarrow> 'v) \<Rightarrow> connection \<Rightarrow> cache_key \<Rightarrow> 'v option" where
  "rb_stored from_bytes c k = map_option from_bytes (map_of (rb_seen c) (key_to_string k))"

lemma settled_seen: "settled c d \<Longrightarrow> rb_seen c = d"
  by (simp add: settled_def rb_seen_def)

lemma rb_okI: "settled c d \<Longrightarrow> (\<And>k v. map_of d k = Some v \<Longrightarrow> v \<noteq> [] \<and> length v < 2 ^ 31) \<Longrightarrow> rb_ok c"
  using settled_seen by (simp add: rb_ok_def)

lemma plain_keys_differ: "rb_valid k \<Longrightarrow> rb_valid x \<Longrightarrow> x \<noteq> k \<Longrightarrow> key_to_string x \<noteq> key_to_string k"
  using key_to_string_inject by (auto simp: rb_valid_def)

lemma rb_put_law:
  assumes "rb_ok c" "rb_valid k" "rb_fits to_bytes v"
  shows "\<exists>c'. rb_put_blocking to_bytes k v c = Inr c' \<and> rb_ok c' \<and> rb_stored from_bytes c' k = Some (from_bytes (to_bytes v))
     \<and> (\<forall>x. rb_valid x \<longrightarrow> x \<noteq> k \<longrightarrow> rb_stored from_bytes c' x = rb_stored from_bytes c x)"
proof -
  from assms conn_set_law [of c "rb_seen c" "key_to_string k" "to_bytes v"] obtain c' where
    c': "conn_set (key_to_string k) (to_bytes v) c = Inr c'"
    "settled c' (AList.update (key_to_string k) (to_bytes v) (rb_seen c))"
    by (auto simp: rb_ok_def rb_valid_def rb_fits_def)
  have "rb_ok c'" using assms(1,3)
    by (intro rb_okI [OF c'(2)]) (auto simp: map_of_update rb_ok_def rb_fits_def split: if_splits)
  with c' settled_seen [OF c'(2)] assms plain_keys_differ show ?thesis
    by (auto simp: rb_put_blocking_def rb_stored_def map_of_update)
qed

text \<open>Lookups raise when the header of a reply comes short; otherwise they answer from the dictionary.\<close>

lemma rb_contains_law:
  assumes "rb_ok c" "rb_valid k"
  shows "if header_short c then rb_contains k c = Inl StructError
     else \<exists>c'. rb_contains k c = Inr (rb_stored from_bytes c k \<noteq> None, c') \<and> rb_ok c' \<and> rb_seen c' = rb_seen c
       \<and> cuts c' = tl (cuts c)"
proof (cases "header_short c")
  case False
  with assms conn_exists_law [of c "rb_seen c" "key_to_string k"] obtain c' where
    "conn_exists (key_to_string k) c = Inr (map_of (rb_seen c) (key_to_string k) \<noteq> None, c')" "settled c' (rb_seen c)"
    "cuts c' = tl (cuts c)"
    by (auto simp: rb_ok_def rb_valid_def)
  with False assms(1) settled_seen show ?thesis by (auto simp: rb_contains_def rb_stored_def rb_ok_def)
qed (use assms conn_exists_law [of c "rb_seen c" "key_to_string k"] in \<open>simp add: rb_contains_def rb_ok_def rb_valid_def\<close>)

lemma rb_contains_Inr:
  assumes "rb_ok c" "rb_valid k" "rb_contains k c = Inr (b, c')"
  shows "(b \<longleftrightarrow> rb_stored from_bytes c k \<noteq> None) \<and> rb_ok c' \<and> rb_seen c' = rb_seen c"
  using rb_contains_law [OF assms(1,2), of from_bytes] assms(3) by (auto split: if_splits)

text \<open>The reply to the second request of \<open>get\<close> may be cut too.\<close>

lemma conn_get_seen:
  assumes "rb_ok c" "rb_valid k"
  shows "if header_short c then conn_get (key_to_string k) c = Inl StructError
     else \<exists>c'. conn_get (key_to_string k) c = Inr (map_of (rb_seen c) (key_to_string k), c') \<and> rb_ok c' \<and> rb_seen c' = rb_seen c
       \<and> (cuts c = [] \<longrightarrow> cuts c' = [])"
proof -
  have "length v < 2 ^ 31" if "map_of (rb_seen c) (key_to_string k) = Some v" for v
    using assms(1) that by (auto simp: rb_ok_def)
  from conn_get_law [of c "rb_seen c" "key_to_string k", OF _ _ this] assms have law: "if header_short c then conn_get (key_to_string k) c = Inl StructError
     else \<exists>c'. conn_get (key_to_string k) c = Inr (map_of (rb_seen c) (key_to_string k), c') \<and> settled c' (rb_seen c)
       \<and> (cuts c = [] \<longrightarrow> cuts c' = [])"
    by (simp add: rb_ok_def rb_valid_def)
  show ?thesis
  proof (cases "header_short c")
    case False
    with law obtain c' where c': "conn_get (key_to_string k) c = Inr (map_of (rb_seen c) (key_to_string k), c')"
      "settled c' (rb_seen c)" "cuts c = [] \<longrightarrow> cuts c' = []" by auto
    have "rb_ok c'" "rb_seen c' = rb_seen c" using settled_seen [OF c'(2)] c'(2) assms(1) by (simp_all add: rb_ok_def)
    with c' False show ?thesis by auto
  qed (use law in simp)
qed

lemma rb_get_Inr:
  assumes "rb_ok c" "rb_valid k" "rb_get from_bytes k c = Inr (r, c')"
  shows "r = rb_stored from_bytes c k \<and> rb_ok c' \<and> rb_seen c' = rb_seen c"
proof -
  from assms(3) obtain b c1 where b: "rb_contains k c = Inr (b, c1)" by (auto simp: rb_get_def)
  note c1 = rb_contains_Inr [OF assms(1,2) b, of from_bytes]
  show ?thesis
  proof (cases "map_of (rb_seen c) (key_to_string k)")
    case None
    with assms(3) b c1 show ?thesis by (auto simp: rb_get_def rb_stored_def)
  next
    case (Some bs)
    then have t: "b" "bs \<noteq> []" using c1 assms(1) by (auto simp: rb_stored_def rb_ok_def)
    with assms(3) b obtain obj c2 where g: "conn_get (key_to_string k) c1 = Inr (obj, c2)" by (auto simp: rb_get_def)
    have "rb_ok c1" using c1 by simp
    from conn_get_seen [OF this assms(2)] g c1 Some have "obj = Some bs" "rb_ok c2" "rb_seen c2 = rb_seen c"
      by (auto split: if_splits)
    with assms(3) b t g Some show ?thesis by (simp add: rb_get_def rb_stored_def)
  qed
qed

text \<open>With uncut replies a lookup always returns.\<close>

lemma uncut: "cuts c = [] \<Longrightarrow> \<not> header_short c"
  by (simp add: header_short_def piece_def)

lemma rb_get_total:
  assumes "rb_ok c" "rb_valid k" "cuts c = []"
  shows "\<exists>c'. rb_get from_bytes k c = Inr (rb_stored from_bytes c k, c')"
proof -
  from rb_contains_law [OF assms(1,2), of from_bytes] uncut [OF assms(3)] assms(3) obtain c1 where
    c1: "rb_contains k c = Inr (rb_stored from_bytes c k \<noteq> None, c1)" "rb_ok c1" "rb_seen c1 = rb_seen c" "cuts c1 = []"
    by auto
  from conn_get_seen [OF c1(2) assms(2)] uncut [OF c1(4)] obtain c2 where
    c2: "conn_get (key_to_string k) c1 = Inr (map_of (rb_seen c) (key_to_string k), c2)" by (auto simp: c1(3))
  show ?thesis
  proof (cases "map_of (rb_seen c) (key_to_string k)")
    case None
    with c1(1) show ?thesis by (simp add: rb_get_def rb_stored_def)
  next
    case (Some bs)
    then have "bs \<noteq> []" using assms(1) by (auto simp: rb_ok_def)
    with Some c1(1) c2 show ?thesis by (simp add: rb_get_def rb_stored_def del: bindr_Inr_iff)
  qed
qed

interpretation remote: keyed_store rb_ok rb_valid "\<lambda>_. rb_fits to_bytes" "rb_stored from_bytes" "\<lambda>v. from_bytes (to_bytes v)" rb_contains
    "\<lambda>(_ :: unit). rb_put_blocking to_bytes" "\<lambda>_. rb_get from_bytes"
  for to_bytes :: "'v \<Rightarrow> bytes" and from_bytes :: "bytes \<Rightarrow> 'v"
proof unfold_locales
  fix c c' k and b :: bool
  assume "rb_ok c" "rb_valid k" "rb_contains k c = Inr (b, c')"
  from rb_contains_Inr [OF this, of from_bytes] show "(b \<longleftrightarrow> rb_stored from_bytes c k \<noteq> None) \<and> rb_ok c'
      \<and> rb_fits to_bytes = rb_fits to_bytes \<and> rb_stored from_bytes c' = rb_stored from_bytes c"
    by (auto simp: rb_stored_def fun_eq_iff)
next
  fix c c' k v
  assume a: "rb_ok c" "rb_valid k" "rb_fits to_bytes v" "rb_put_blocking to_bytes k v c = Inr c'"
  with rb_put_law [OF a(1-3), of from_bytes] show "rb_ok c' \<and> rb_fits to_bytes = rb_fits to_bytes
      \<and> rb_stored from_bytes c' k \<in> {None, rb_stored from_bytes c k, Some (from_bytes (to_bytes v))}" by auto
  show "rb_stored from_bytes c' x \<in> {None, rb_stored from_bytes c x}" if "rb_valid x" "x \<noteq> k" for x
    using rb_put_law [OF a(1-3), of from_bytes] that a(4) by auto
next
  fix c c' k and r :: "'v option"
  assume a: "rb_ok c" "rb_valid k" "rb_get from_bytes k c = Inr (r, c')"
  from rb_get_Inr [OF a] show "rb_ok c' \<and> rb_fits to_bytes = rb_fits to_bytes
      \<and> r \<in> {None, rb_stored from_bytes c k}" by auto
  show "rb_stored from_bytes c' x \<in> {None, rb_stored from_bytes c x}" for x
    using rb_get_Inr [OF a] by (auto simp: rb_stored_def)
qed

end
