(* ===== verification/Hybrid_Backend.thy ===== *)
theory Hybrid_Backend
  imports Local_Backend Remote_Backend
begin

text \<open>
  \<open>LMCHybridBackend\<close> of \<open>LMCache/lmcache/storage_backend/hybrid_backend.py\<close>: a write-through,
  read-through pair of a local and a remote backend.  The operations are written over the
  operations of the two backends; the locale \<open>hybrid\<close> combines two stores that keep their contract,
  and is interpreted on \<open>LMCLocalBackend\<close> over \<open>LMCRemoteBackend\<close>.
\<close>

section \<open>Operations\<close>

type_synonym ('k, 's) contains_op = "'k \<Rightarrow> 's \<Rightarrow> (bool \<times> 's) result"
type_synonym ('k, 'v, 's) put_op = "'k \<Rightarrow> 'v \<Rightarrow> 's \<Rightarrow> 's result"
type_synonym ('k, 'v, 's) get_op = "'k \<Rightarrow> 's \<Rightarrow> ('v option \<times> 's) result"
type_synonym ('k, 'v, 's) batch_op = "'k list \<Rightarrow> 's \<Rightarrow> ('v option list \<times> 's) result"

definition hy_contains :: "('k, 'l) contains_op \<Rightarrow> ('k, 'r) contains_op \<Rightarrow> ('k, 'l \<times> 'r) contains_op" where
  "hy_contains lc rc k s =
     bindr (lc k (fst s)) (\<lambda>(b, l). if b then Inr (True, l, snd s)
       else bindr (rc k (snd s)) (\<lambda>(c, r). Inr (c, l, r)))"

definition hy_put :: "('k, 'v, 'l) put_op \<Rightarrow> ('k, 'v, 'r) put_op \<Rightarrow> ('k, 'v, 'l \<times> 'r) put_op" where
  "hy_put lp rp k v s = bindr (lp k v (fst s)) (\<lambda>l. bindr (rp k v (snd s)) (\<lambda>r. Inr (l, r)))"

definition hy_get ::
  "('k, 'v, 'l) get_op \<Rightarrow> ('k, 'v, 'l) put_op \<Rightarrow> ('k, 'v, 'r) get_op \<Rightarrow> ('k, 'v, 'l \<times> 'r) get_op" where
  "hy_get lg lp rg k s =
     bindr (lg k (fst s)) (\<lambda>(v, l).
       case v of
         Some x \<Rightarrow> Inr (Some x, l, snd s)
       | None \<Rightarrow> bindr (rg k (snd s)) (\<lambda>(w, r).
           case w of
             None \<Rightarrow> Inr (None, l, r)
           | Some x \<Rightarrow> bindr (lp k x l) (\<lambda>l'. Inr (Some x, l', r))))"

text \<open>The default \<open>batched_get\<close> of a backend, run to its end.\<close>

fun default_batched_get :: "('k, 's) contains_op \<Rightarrow> ('k, 'v, 's) get_op \<Rightarrow> ('k, 'v, 's) batch_op" where
  "default_batched_get c g [] s = Inr ([], s)"
| "default_batched_get c g (k # ks) s =
     bindr (c k s) (\<lambda>(b, s1). bindr (if b then g k s1 else Inr (None, s1)) (\<lambda>(v, s2).
       bindr (default_batched_get c g ks s2) (\<lambda>(vs, s3). Inr (v # vs, s3))))"

text \<open>First every key is looked up locally, keeping the misses and their positions.\<close>

fun local_pass ::
  "('k, 'v, 'l) get_op \<Rightarrow> nat \<Rightarrow> 'k list \<Rightarrow> 'l \<Rightarrow> ('v option list \<times> (nat \<times> 'k) list \<times> 'l) result" where
  "local_pass lg i [] l = Inr ([], [], l)"
| "local_pass lg i (k # ks) l =
     bindr (lg k l) (\<lambda>(v, l1). bindr (local_pass lg (Suc i) ks l1) (\<lambda>(vs, qs, l2).
       Inr (v # vs, (if v = None then (i, k) # qs else qs), l2)))"

text \<open>Then each result of the remote store fills its position and is stored locally.\<close>

fun remote_pass ::
  "('k, 'v, 'l) put_op \<Rightarrow> ((nat \<times> 'k) \<times> 'v option) list \<Rightarrow> 'v option list \<times> 'l \<Rightarrow> ('v option list \<times> 'l) result" where
  "remote_pass lp [] st = Inr st"
| "remote_pass lp (((i, k), res) # rest) st =
     (case res of
        None \<Rightarrow> remote_pass lp rest st
      | Some v \<Rightarrow> bindr (lp k v (snd st)) (\<lambda>l. remote_pass lp rest ((fst st)[i := Some v], l)))"

definition hy_batched_get ::
  "('k, 'v, 'l) get_op \<Rightarrow> ('k, 'v, 'l) put_op \<Rightarrow> ('k, 'v, 'r) batch_op \<Rightarrow> ('k, 'v, 'l \<times> 'r) batch_op" where
  "hy_batched_get lg lp rb ks s =
     bindr (local_pass lg 0 ks (fst s)) (\<lambda>(ret, qs, l).
       bindr (rb (map snd qs) (snd s)) (\<lambda>(res, r).
         bindr (remote_pass lp (zip qs res) (ret, l)) (\<lambda>(ret', l'). Inr (ret', l', r))))"

definition hy_prefetch ::
  "('s \<Rightarrow> (cache_key list \<times> 's) result) \<Rightarrow> (cache_key, 'v, 's) get_op \<Rightarrow> (cache_key, 'v, 'l) put_op
     \<Rightarrow> string \<times> int \<times> int \<Rightarrow> 'l \<times> 's \<Rightarrow> (nat \<times> 'l \<times> 's) result" where
  "hy_prefetch rl rg lp meta s =
     bindr (rl (snd s)) (\<lambda>(keys, r0).
       foldM (\<lambda>(n, l, r) k.
         if (key_model k, key_worker_id k, key_world_size k) \<noteq> meta then Inr (n, l, r)
         else bindr (rg k r) (\<lambda>(v, r').
           case v of
             None \<Rightarrow> Inr (n, l, r')
           | Some x \<Rightarrow> bindr (lp k x l) (\<lambda>l'. Inr (Suc n, l', r')))) (0, fst s, r0) keys)"

section \<open>Two stores that keep their contract\<close>

locale hybrid =
  l: keyed_store okl vl fl sl "\<lambda>v. v" cl "\<lambda>_ :: unit. lp" "\<lambda>_ :: unit. lg"
  + r: keyed_store okr vr fr sr kr cr "\<lambda>_ :: unit. rp" "\<lambda>_ :: unit. rg"
  for okl :: "'l \<Rightarrow> bool" and vl :: "'k \<Rightarrow> bool" and fl :: "'l \<Rightarrow> 'v \<Rightarrow> bool" and sl :: "'l \<Rightarrow> 'k \<Rightarrow> 'v option"
    and cl :: "('k, 'l) contains_op" and lp :: "('k, 'v, 'l) put_op" and lg :: "('k, 'v, 'l) get_op"
    and okr :: "'r \<Rightarrow> bool" and vr :: "'k \<Rightarrow> bool" and fr :: "'r \<Rightarrow> 'v \<Rightarrow> bool" and sr :: "'r \<Rightarrow> 'k \<Rightarrow> 'v option"
    and kr :: "'v \<Rightarrow> 'v" and cr :: "('k, 'r) contains_op" and rp :: "('k, 'v, 'r) put_op" and rg :: "('k, 'v, 'r) get_op"
begin

definition both :: "('k \<Rightarrow> 'v \<Rightarrow> bool) \<Rightarrow> 'l \<times> 'r \<Rightarrow> bool" where
  "both P s \<longleftrightarrow> okl (fst s) \<and> okr (snd s) \<and> l.holds P (fst s) \<and> r.holds P (snd s)
     \<and> (\<forall>k v. P k v \<longrightarrow> fl (fst s) v)"

definition usable :: "'k \<Rightarrow> bool" where
  "usable k \<longleftrightarrow> vl k \<and> vr k"

lemma hy_put_both:
  assumes "both P s" "usable k" "P k v" "P k (kr v)" "fr (snd s) v" "hy_put lp rp k v s = Inr s'"
  shows "both P s' \<and> fr (snd s') = fr (snd s)"
proof -
  from assms(6) obtain l1 r1 where s: "lp k v (fst s) = Inr l1" "rp k v (snd s) = Inr r1" "s' = (l1, r1)"
    by (auto simp: hy_put_def)
  from l.holds_put [OF _ _ _ s(1), of P] r.holds_put [OF _ _ _ s(2), of P] assms(1-5) s(3) show ?thesis
    by (simp add: both_def usable_def)
qed

lemma hy_get_both:
  assumes "both P s" "usable k" "hy_get lg lp rg k s = Inr (res, s')"
  shows "both P s' \<and> (\<forall>v. res = Some v \<longrightarrow> P k v)"
proof -
  from assms(3) obtain v l1 where v: "lg k (fst s) = Inr (v, l1)" by (auto simp: hy_get_def)
  have l1: "okl l1" "fl l1 = fl (fst s)" "l.holds P l1" "\<And>x. v = Some x \<Longrightarrow> P k x"
    using l.holds_get [OF _ _ v, of P] assms(1,2) by (simp_all add: both_def usable_def)
  show ?thesis
  proof (cases v)
    case (Some x)
    with assms v l1 show ?thesis by (auto simp: hy_get_def both_def)
  next
    case None
    with assms(3) v obtain w r1 where w: "rg k (snd s) = Inr (w, r1)" by (auto simp: hy_get_def)
    have r1: "okr r1" "fr r1 = fr (snd s)" "r.holds P r1" "\<And>x. w = Some x \<Longrightarrow> P k x"
      using r.holds_get [OF _ _ w, of P] assms(1,2) by (simp_all add: both_def usable_def)
    show ?thesis
    proof (cases w)
      case None
      with \<open>v = None\<close> assms v w l1 r1 show ?thesis by (auto simp: hy_get_def both_def)
    next
      case (Some x)
      with \<open>v = None\<close> assms(3) v w obtain l2 where l2: "lp k x l1 = Inr l2" "res = Some x" "s' = (l2, r1)"
        by (auto simp: hy_get_def)
      have "vl k" "fl l1 x" using assms(1,2) r1(4) [OF Some] l1(2) by (simp_all add: both_def usable_def)
      from l.holds_put [OF l1(1) this l2(1) l1(3) r1(4) [OF Some]] show ?thesis
        using assms(1) l1(2) l2 r1 Some by (simp add: both_def)
    qed
  qed
qed

lemma default_batched_get_law:
  assumes "okr r" "\<forall>k \<in> set ks. vr k" "r.holds P r" "default_batched_get cr rg ks r = Inr (vs, r')"
  shows "okr r' \<and> fr r' = fr r \<and> r.holds P r' \<and> length vs = length ks \<and> (\<forall>(k, v) \<in> set (zip ks vs). \<forall>x. v = Some x \<longrightarrow> P k x)"
  using assms
proof (induction ks arbitrary: r vs)
  case (Cons k ks)
  from Cons.prems(4) obtain b r1 v r2 vs2 where s: "cr k r = Inr (b, r1)"
    "(if b then rg k r1 else Inr (None, r1)) = Inr (v, r2)" "default_batched_get cr rg ks r2 = Inr (vs2, r')"
    "vs = v # vs2" by auto
  have k: "vr k" using Cons.prems(2) by simp
  have r1: "okr r1" "fr r1 = fr r" "r.holds P r1" using r.holds_contains [OF Cons.prems(1) k s(1) Cons.prems(3)] by simp_all
  have r2: "okr r2" "fr r2 = fr r" "r.holds P r2" "\<forall>x. v = Some x \<longrightarrow> P k x"
    using s(2) r1 r.holds_get [OF r1(1) k _ r1(3)] by (auto split: if_splits)
  have "\<forall>k \<in> set ks. vr k" using Cons.prems(2) by simp
  from Cons.IH [OF r2(1) this r2(3) s(3)] r2 s(4) show ?case by auto
qed simp

lemma local_pass_law:
  assumes "okl l" "\<forall>k \<in> set ks. vl k" "l.holds P l" "local_pass lg i ks l = Inr (vs, qs, l')"
  shows "okl l' \<and> fl l' = fl l \<and> l.holds P l' \<and> length vs = length ks
     \<and> (\<forall>j < length ks. \<forall>x. vs ! j = Some x \<longrightarrow> P (ks ! j) x)
     \<and> (\<forall>(n, k) \<in> set qs. i \<le> n \<and> n - i < length ks \<and> k = ks ! (n - i))"
  using assms
proof (induction ks arbitrary: i l vs qs)
  case (Cons k ks)
  from Cons.prems(4) obtain v l1 vs2 qs2 where s: "lg k l = Inr (v, l1)"
    "local_pass lg (Suc i) ks l1 = Inr (vs2, qs2, l')" "vs = v # vs2" "qs = (if v = None then (i, k) # qs2 else qs2)"
    by auto
  have k: "vl k" using Cons.prems(2) by simp
  have l1: "okl l1" "fl l1 = fl l" "l.holds P l1" "\<forall>x. v = Some x \<longrightarrow> P k x"
    using l.holds_get [OF Cons.prems(1) k s(1) Cons.prems(3)] by simp_all
  have "\<forall>k \<in> set ks. vl k" using Cons.prems(2) by simp
  note ih = Cons.IH [OF l1(1) this l1(3) s(2)]
  have "i \<le> n \<and> n - i < length (k # ks) \<and> x = (k # ks) ! (n - i)" if "(n, x) \<in> set qs" for n x
  proof (cases "(n, x) \<in> set qs2")
    case True
    with ih have "Suc i \<le> n" "n - Suc i < length ks" "x = ks ! (n - Suc i)" by auto
    then show ?thesis by (cases n) (auto simp: Suc_diff_le)
  qed (use that s(4) in \<open>auto split: if_splits\<close>)
  moreover have "P ((k # ks) ! j) x" if "j < length (k # ks)" "vs ! j = Some x" for j x
    using that ih l1(4) s(3) by (cases j) auto
  ultimately show ?case using ih l1(2) s(3) by auto
qed simp

lemma remote_pass_law:
  assumes "okl l" "l.holds P l" "\<forall>((n, k), res) \<in> set todo. vl k \<and> n < length ks \<and> k = ks ! n \<and> (\<forall>x. res = Some x \<longrightarrow> P k x)"
    and "\<forall>k v. P k v \<longrightarrow> fl l v" "length vs = length ks" "\<forall>j < length ks. \<forall>x. vs ! j = Some x \<longrightarrow> P (ks ! j) x"
    and "remote_pass lp todo (vs, l) = Inr (vs', l')"
  shows "okl l' \<and> fl l' = fl l \<and> l.holds P l' \<and> length vs' = length ks \<and> (\<forall>j < length ks. \<forall>x. vs' ! j = Some x \<longrightarrow> P (ks ! j) x)"
  using assms
proof (induction todo arbitrary: l vs)
  case (Cons t todo)
  obtain n k res where t: "t = ((n, k), res)" by (metis prod.exhaust)
  with Cons.prems(3) have tk: "vl k" "n < length ks" "k = ks ! n" "\<forall>x. res = Some x \<longrightarrow> P k x" by auto
  have rest: "\<forall>((n, k), res) \<in> set todo. vl k \<and> n < length ks \<and> k = ks ! n \<and> (\<forall>x. res = Some x \<longrightarrow> P k x)"
    using Cons.prems(3) by auto
  show ?case
  proof (cases res)
    case None
    with Cons.IH [OF Cons.prems(1,2) rest Cons.prems(4-6)] Cons.prems(7) t show ?thesis by simp
  next
    case (Some x)
    with Cons.prems(7) t obtain l1 where l1: "lp k x l = Inr l1" "remote_pass lp todo (vs[n := Some x], l1) = Inr (vs', l')"
      by auto
    have px: "P k x" using tk Some by simp
    have fx: "fl l x" using px Cons.prems(4) by simp
    have h: "okl l1" "fl l1 = fl l" "l.holds P l1"
      using l.holds_put [OF Cons.prems(1) tk(1) fx l1(1) Cons.prems(2) px] by simp_all
    have "\<forall>j < length ks. \<forall>y. vs[n := Some x] ! j = Some y \<longrightarrow> P (ks ! j) y"
      using Cons.prems(5,6) px tk by (auto simp: nth_list_update)
    from Cons.IH [OF h(1,3) rest _ _ this l1(2)] Cons.prems(4,5) h(2) show ?thesis by simp
  qed
qed simp

lemma hy_batched_get_both:
  assumes "both P s" "\<forall>k \<in> set ks. usable k" "hy_batched_get lg lp (default_batched_get cr rg) ks s = Inr (vs, s')"
  shows "both P s' \<and> length vs = length ks \<and> (\<forall>j < length ks. \<forall>x. vs ! j = Some x \<longrightarrow> P (ks ! j) x)"
proof -
  from assms(3) obtain ret qs l1 res r1 l2 where s: "local_pass lg 0 ks (fst s) = Inr (ret, qs, l1)"
    "default_batched_get cr rg (map snd qs) (snd s) = Inr (res, r1)" "remote_pass lp (zip qs res) (ret, l1) = Inr (vs, l2)"
    "s' = (l2, r1)" by (auto simp: hy_batched_get_def)
  have b: "okl (fst s)" "okr (snd s)" "l.holds P (fst s)" "r.holds P (snd s)" using assms(1) by (simp_all add: both_def)
  have vl: "\<forall>k \<in> set ks. vl k" using assms(2) by (simp add: usable_def)
  note lp1 = local_pass_law [OF b(1) vl b(3) s(1)]
  have qs: "n < length ks \<and> k = ks ! n" if "(n, k) \<in> set qs" for n k using lp1 that by auto
  have "\<forall>k \<in> set (map snd qs). vr k" using qs assms(2) by (fastforce simp: usable_def)
  note rp1 = default_batched_get_law [OF b(2) this b(4) s(2)]
  have todo: "\<forall>((n, k), res) \<in> set (zip qs res). vl k \<and> n < length ks \<and> k = ks ! n \<and> (\<forall>x. res = Some x \<longrightarrow> P k x)"
  proof clarify
    fix n k v assume z: "((n, k), v) \<in> set (zip qs res)"
    then have "(k, v) \<in> set (zip (map snd qs) res)" by (force simp: zip_map1)
    moreover have "(n, k) \<in> set qs" using z by (rule set_zip_leftD)
    ultimately show "vl k \<and> n < length ks \<and> k = ks ! n \<and> (\<forall>x. v = Some x \<longrightarrow> P k x)"
      using qs [of n k] rp1 assms(2) by (auto simp: usable_def)
  qed
  have "\<forall>k v. P k v \<longrightarrow> fl l1 v" using assms(1) lp1 by (simp add: both_def)
  from remote_pass_law [OF _ _ todo this _ _ s(3)] lp1 rp1 assms(1) s(4) show ?thesis by (simp add: both_def)
qed

end

section \<open>The backend of the system\<close>

text \<open>
  The local backend over the remote one.  A chunk is a tensor of \<open>tok p\<close> tokens and \<open>num p\<close> elements
  of \<open>es\<close> bytes.
\<close>

definition lput :: "('p \<Rightarrow> int) \<Rightarrow> ('p \<Rightarrow> int) \<Rightarrow> int \<Rightarrow> (cache_key, 'p, (cache_key, 'p) local_backend) put_op" where
  "lput tok num es k p = lb_put_blocking k (as_tensor tok num es p)"

type_synonym 'p hybrid_state = "(cache_key, 'p) local_backend \<times> connection"

datatype 'p hybrid_request = HPut cache_key 'p | HGet cache_key | HBatch "cache_key list"

fun hybrid_serve ::
  "('p \<Rightarrow> int) \<Rightarrow> ('p \<Rightarrow> int) \<Rightarrow> int \<Rightarrow> ('p \<Rightarrow> bytes) \<Rightarrow> (bytes \<Rightarrow> 'p) \<Rightarrow> 'p hybrid_request \<Rightarrow> 'p hybrid_state
     \<Rightarrow> ((cache_key \<times> 'p option) list \<times> 'p hybrid_state) result" where
  "hybrid_serve tok num es tb fb (HPut k p) s =
     bindr (hy_put (lput tok num es) (rb_put_blocking tb) k p s) (\<lambda>s'. Inr ([], s'))"
| "hybrid_serve tok num es tb fb (HGet k) s =
     bindr (hy_get lb_get (lput tok num es) (rb_get fb) k s) (\<lambda>(v, s'). Inr ([(k, v)], s'))"
| "hybrid_serve tok num es tb fb (HBatch ks) s =
     bindr (hy_batched_get lb_get (lput tok num es) (default_batched_get rb_contains (rb_get fb)) ks s)
       (\<lambda>(vs, s'). Inr (zip ks vs, s'))"

fun hybrid_history ::
  "('p \<Rightarrow> int) \<Rightarrow> ('p \<Rightarrow> int) \<Rightarrow> int \<Rightarrow> ('p \<Rightarrow> bytes) \<Rightarrow> (bytes \<Rightarrow> 'p) \<Rightarrow> 'p hybrid_request list \<Rightarrow> 'p hybrid_state
     \<Rightarrow> ((cache_key \<times> 'p option) list \<times> 'p hybrid_state) result" where
  "hybrid_history tok num es tb fb [] s = Inr ([], s)"
| "hybrid_history tok num es tb fb (q # qs) s =
     bindr (hybrid_serve tok num es tb fb q s) (\<lambda>(a, s1).
       bindr (hybrid_history tok num es tb fb qs s1) (\<lambda>(as, s2). Inr (a @ as, s2)))"

fun request_keys :: "'p hybrid_request \<Rightarrow> cache_key list" where
  "request_keys (HPut k p) = [k]"
| "request_keys (HGet k) = [k]"
| "request_keys (HBatch ks) = ks"

fun request_puts :: "'p hybrid_request \<Rightarrow> (cache_key \<times> 'p) list" where
  "request_puts (HPut k p) = [(k, p)]"
| "request_puts (HGet k) = []"
| "request_puts (HBatch ks) = []"

interpretation hyb: hybrid lb_ok "\<lambda>_. True"
    "\<lambda>b p. num_tok (as_tensor tok num es p) \<le> pool_chunk_size (lb_pool b)" lb_content
    "\<lambda>k s. Inr (lb_contains k s, s)" "lput tok num es" lb_get
    rb_ok rb_valid "\<lambda>_. rb_fits tb" "rb_stored fb" "\<lambda>v. fb (tb v)" rb_contains "rb_put_blocking tb" "rb_get fb"
  for tok :: "'p \<Rightarrow> int" and num :: "'p \<Rightarrow> int" and es :: int and tb :: "'p \<Rightarrow> bytes" and fb :: "bytes \<Rightarrow> 'p"
  unfolding lput_def by (intro hybrid.intro local.keyed.keyed_store_axioms remote.keyed_store_axioms)

lemma hybrid_serve_both:
  assumes "hyb.both tok num es fb P s" "\<forall>k \<in> set (request_keys q). rb_valid k"
    and "\<forall>(k, p) \<in> set (request_puts q). rb_fits tb p \<and> P k p \<and> P k (fb (tb p))"
    and "hybrid_serve tok num es tb fb q s = Inr (as, s')"
  shows "hyb.both tok num es fb P s' \<and> (\<forall>(k, v) \<in> set as. \<forall>p. v = Some p \<longrightarrow> P k p)"
proof (cases q)
  case (HPut k p)
  have "hyb.usable k" using assms(2) HPut by (simp add: hyb.usable_def)
  with hyb.hy_put_both [OF assms(1) this, where v = p and tb = tb and s' = s'] assms(3,4) HPut show ?thesis by auto
next
  case (HGet k)
  then obtain v where v: "hy_get lb_get (lput tok num es) (rb_get fb) k s = Inr (v, s')" "as = [(k, v)]"
    using assms(4) by auto
  have "hyb.usable k" using assms(2) HGet by (simp add: hyb.usable_def)
  from hyb.hy_get_both [OF assms(1) this v(1)] v(2) show ?thesis by simp
next
  case (HBatch ks)
  then obtain vs where v: "hy_batched_get lb_get (lput tok num es) (default_batched_get rb_contains (rb_get fb)) ks s
      = Inr (vs, s')" "as = zip ks vs" using assms(4) by auto
  have "\<forall>k \<in> set ks. hyb.usable k" using assms(2) HBatch by (simp add: hyb.usable_def)
  from hyb.hy_batched_get_both [OF assms(1) this v(1)] v(2) show ?thesis by (auto simp: set_zip)
qed

lemma hybrid_history_both:
  assumes "hyb.both tok num es fb P s" "\<forall>q \<in> set qs. (\<forall>k \<in> set (request_keys q). rb_valid k) 
       \<and> (\<forall>(k, p) \<in> set (request_puts q). rb_fits tb p \<and> P k p \<and> P k (fb (tb p)))"
    and "hybrid_history tok num es tb fb qs s = Inr (as, s')"
  shows "hyb.both tok num es fb P s' \<and> (\<forall>(k, v) \<in> set as. \<forall>p. v = Some p \<longrightarrow> P k p)"
  using assms
proof (induction qs arbitrary: s as)
  case (Cons q qs)
  from Cons.prems(3) obtain a s1 b where s: "hybrid_serve tok num es tb fb q s = Inr (a, s1)"
    "hybrid_history tok num es tb fb qs s1 = Inr (b, s')" "as = a @ b" by auto
  have h: "hyb.both tok num es fb P s1" "\<forall>(k, v) \<in> set a. \<forall>p. v = Some p \<longrightarrow> P k p"
    using hybrid_serve_both [OF Cons.prems(1) _ _ s(1)] Cons.prems(2) by simp_all
  from Cons.IH [OF h(1) _ s(2)] Cons.prems(2) h(2) s(3) show ?case by auto
qed simp

text \<open>The remote store never forgets: only puts change what it holds.\<close>

lemma batched_get_keeps_remote:
  assumes "rb_ok c" "\<forall>k \<in> set ks. rb_valid k" "default_batched_get rb_contains (rb_get fb) ks c = Inr (vs, c')"
  shows "rb_ok c' \<and> rb_seen c' = rb_seen c"
  using assms
proof (induction ks arbitrary: c vs)
  case (Cons k ks)
  from Cons.prems(3) obtain b c1 v c2 vs2 where s: "rb_contains k c = Inr (b, c1)"
    "(if b then rb_get fb k c1 else Inr (None, c1)) = Inr (v, c2)"
    "default_batched_get rb_contains (rb_get fb) ks c2 = Inr (vs2, c')" by auto
  have k: "rb_valid k" using Cons.prems(2) by simp
  have c1: "rb_ok c1" "rb_seen c1 = rb_seen c" using rb_contains_Inr [OF Cons.prems(1) k s(1), of fb] by auto
  have c2: "rb_ok c2" "rb_seen c2 = rb_seen c"
    using rb_get_Inr [OF c1(1) k, of fb] s(2) c1 by (auto split: if_splits)
  from Cons.IH [OF c2(1) _ s(3)] Cons.prems(2) c2(2) show ?case by simp
qed simp

lemma local_pass_keys: "local_pass lg i ks l = Inr (vs, qs, l') \<Longrightarrow> snd ` set qs \<subseteq> set ks"
proof (induction ks arbitrary: i l vs qs)
  case (Cons k ks)
  then obtain v l1 vs2 qs2 where s: "lg k l = Inr (v, l1)" "local_pass lg (Suc i) ks l1 = Inr (vs2, qs2, l')"
    "qs = (if v = None then (i, k) # qs2 else qs2)" by auto
  from Cons.IH [OF s(2)] s(3) show ?case by (auto split: if_splits)
qed simp

lemma hybrid_serve_remote:
  assumes "rb_ok (snd s)" "\<forall>k \<in> set (request_keys q). rb_valid k" "\<forall>(x, w) \<in> set (request_puts q). rb_fits tb w \<and> (x = k \<longrightarrow> w = p)"
    and "rb_valid k" "rb_stored fb (snd s) k = Some (fb (tb p)) \<or> (k, p) \<in> set (request_puts q)"
    and "hybrid_serve tok num es tb fb q s = Inr (as, s')"
  shows "rb_ok (snd s') \<and> rb_stored fb (snd s') k = Some (fb (tb p))"
proof (cases q)
  case (HPut x w)
  with assms(6) obtain c where "rb_put_blocking tb x w (snd s) = Inr c" "snd s' = c" by (auto simp: hy_put_def)
  with rb_put_law [OF assms(1), of x tb w fb] assms(2-5) HPut show ?thesis by (cases "x = k") auto
next
  case (HGet x)
  have x: "rb_valid x" using assms(2) HGet by simp
  from HGet assms(6) have "snd s' = snd s \<or> (\<exists>v. rb_get fb x (snd s) = Inr (v, snd s'))"
    by (auto simp: hy_get_def split: option.splits)
  with rb_get_Inr [OF assms(1) x, of fb] assms(1,5) HGet show ?thesis by (auto simp: rb_stored_def)
next
  case (HBatch ks)
  with assms(6) obtain ret qs l res where b: "local_pass lb_get 0 ks (fst s) = Inr (ret, qs, l)"
    "default_batched_get rb_contains (rb_get fb) (map snd qs) (snd s) = Inr (res, snd s')"
    by (auto simp: hy_batched_get_def)
  have "\<forall>x \<in> set (map snd qs). rb_valid x" using local_pass_keys [OF b(1)] assms(2) HBatch by auto
  from batched_get_keeps_remote [OF assms(1) this b(2)] assms(5) HBatch show ?thesis by (simp add: rb_stored_def)
qed

lemma hybrid_history_remote:
  assumes "rb_ok (snd s)" "rb_valid k" "rb_stored fb (snd s) k = Some (fb (tb p))"
    and "\<forall>q \<in> set qs. (\<forall>x \<in> set (request_keys q). rb_valid x) \<and> (\<forall>(x, w) \<in> set (request_puts q). rb_fits tb w \<and> (x = k \<longrightarrow> w = p))"
    and "hybrid_history tok num es tb fb qs s = Inr (as, s')"
  shows "rb_ok (snd s') \<and> rb_stored fb (snd s') k = Some (fb (tb p))"
  using assms
proof (induction qs arbitrary: s as)
  case (Cons q qs)
  from Cons.prems(5) obtain a s1 b where s: "hybrid_serve tok num es tb fb q s = Inr (a, s1)"
    "hybrid_history tok num es tb fb qs s1 = Inr (b, s')" by auto
  have "rb_ok (snd s1) \<and> rb_stored fb (snd s1) k = Some (fb (tb p))"
    using Cons.prems(1-4) by (intro hybrid_serve_remote [OF _ _ _ _ _ s(1)]) simp_all
  with Cons.IH [OF _ Cons.prems(2) _ _ s(2)] Cons.prems(4) show ?case by simp
qed simp

text \<open>The pipelined backend leaves out the missing keys.\<close>

lemma network_worker_law:
  assumes "rb_ok c" "\<forall>k \<in> set ks. rb_valid k" "cuts c = []"
  shows "\<exists>c'. foldM (\<lambda>(q, c) k. bindr (rb_contains k c) (\<lambda>(b, c1).
         if \<not> b then Inr (q, c1)
         else bindr (conn_get (key_to_string k) c1) (\<lambda>(data, c2).
           case data of None \<Rightarrow> Inl Blocked | Some bs \<Rightarrow> Inr (q @ [bs], c2)))) (q, c) ks
       = Inr (q @ concat (map (\<lambda>k. case map_of (rb_seen c) (key_to_string k) of None \<Rightarrow> [] | Some bs \<Rightarrow> [bs]) ks), c')
     \<and> rb_ok c' \<and> rb_seen c' = rb_seen c"
  using assms
proof (induction ks arbitrary: q c)
  case (Cons k ks)
  have k: "rb_valid k" using Cons.prems(2) by simp
  obtain c1 where c1: "rb_contains k c = Inr (map_of (rb_seen c) (key_to_string k) \<noteq> None, c1)" "rb_ok c1" "rb_seen c1 = rb_seen c"
    "cuts c1 = []"
    using rb_contains_law [OF Cons.prems(1) k, of id] uncut [OF Cons.prems(3)] Cons.prems(3) by (auto simp: rb_stored_def)
  show ?case
  proof (cases "map_of (rb_seen c) (key_to_string k)")
    case None
    with Cons.IH [OF c1(2), of q] Cons.prems(2) c1 show ?thesis by (simp del: bindr_Inr_iff)
  next
    case (Some bs)
    obtain c2 where c2: "conn_get (key_to_string k) c1 = Inr (Some bs, c2)" "rb_ok c2" "rb_seen c2 = rb_seen c" "cuts c2 = []"
      using conn_get_seen [OF c1(2) k] uncut [OF c1(4)] c1(3,4) Some by auto
    with Cons.IH [of c2 "q @ [bs]"] Cons.prems(2) c1(1) c2 Some show ?thesis by (simp del: bindr_Inr_iff)
  qed
qed simp

lemma pipelined_law:
  assumes "rb_ok c" "\<forall>k \<in> set ks. rb_valid k" "cuts c = []"
  shows "\<exists>c'. pipelined_batched_get fb ks c = Inr (filter (\<lambda>v. v \<noteq> None) (map (rb_stored fb c) ks), c')
     \<and> rb_ok c' \<and> rb_seen c' = rb_seen c"
proof -
  have "map (\<lambda>bs. Some (fb bs)) (concat (map (\<lambda>k. case map_of (rb_seen c) (key_to_string k) of None \<Rightarrow> [] | Some bs \<Rightarrow> [bs]) ks))
      = filter (\<lambda>v. v \<noteq> None) (map (rb_stored fb c) ks)"
    by (induction ks) (auto simp: rb_stored_def split: option.splits)
  with network_worker_law [OF assms, of "[]"] show ?thesis
    by (auto simp: pipelined_batched_get_def network_worker_def deserialize_worker_def)
qed

section \<open>Properties\<close>

text \<open>
  \<open>small\<close> chunks fit a chunk of the local pool; \<open>storable\<close> ones are small before and after a pass
  through the serializer and have an encoding the connector can carry.
\<close>

definition small :: "('p \<Rightarrow> int) \<Rightarrow> 'p hybrid_state \<Rightarrow> 'p \<Rightarrow> bool" where
  "small tok s p \<longleftrightarrow> tok p \<le> pool_chunk_size (lb_pool (fst s))"

definition storable :: "('p \<Rightarrow> int) \<Rightarrow> ('p \<Rightarrow> bytes) \<Rightarrow> (bytes \<Rightarrow> 'p) \<Rightarrow> 'p hybrid_state \<Rightarrow> 'p \<Rightarrow> bool" where
  "storable tok tb fb s p \<longleftrightarrow> small tok s p \<and> small tok s (fb (tb p)) \<and> rb_fits tb p"

definition held :: "(bytes \<Rightarrow> 'p) \<Rightarrow> 'p hybrid_state \<Rightarrow> cache_key \<Rightarrow> 'p \<Rightarrow> bool" where
  "held fb s k p \<longleftrightarrow> lb_content (fst s) k = Some p \<or> rb_valid k \<and> rb_stored fb (snd s) k = Some p"

lemma bothI:
  assumes "lb_ok (fst s)" "rb_ok (snd s)" "\<And>x q. lb_content (fst s) x = Some q \<Longrightarrow> P x q"
    and "\<And>x q. rb_valid x \<Longrightarrow> rb_stored fb (snd s) x = Some q \<Longrightarrow> P x q" "\<And>x q. P x q \<Longrightarrow> small tok s q"
  shows "hyb.both tok num es fb P s"
  unfolding hyb.both_def local.keyed.holds_def remote.holds_def
  using assms by (simp add: small_def as_tensor_def)

text \<open>
  C29.  The hybrid backend, over the remote backend that is not pipelined, never answers with a chunk of another
  key: after any history of puts, gets and batched gets that ran without an exception, a chunk returned
  for a key was held under that key before, or was put under it in the history and is returned as it was put or as
  the serializer restores it.  For the serializers that lose nothing both are the chunk put.
\<close>

theorem hybrid_returns_what_was_put:
  assumes "lb_ok (fst s)" "rb_ok (snd s)" "\<forall>q \<in> set qs. \<forall>k \<in> set (request_keys q). rb_valid k"
    and "\<forall>q \<in> set qs. \<forall>(k, p) \<in> set (request_puts q). storable tok tb fb s p" "\<forall>k p. held fb s k p \<longrightarrow> small tok s p"
    and "hybrid_history tok num es tb fb qs s = Inr (as, s')" "(k, Some p) \<in> set as"
  shows "(\<exists>q \<in> set qs. \<exists>v. (k, v) \<in> set (request_puts q) \<and> (p = v \<or> p = fb (tb v))) \<or> held fb s k p"
proof -
  let ?P = "\<lambda>k p. (\<exists>q \<in> set qs. \<exists>v. (k, v) \<in> set (request_puts q) \<and> (p = v \<or> p = fb (tb v))) \<or> held fb s k p"
  have "\<forall>k p. ?P k p \<longrightarrow> small tok s p" using assms(4,5) by (fastforce simp: storable_def)
  then have "hyb.both tok num es fb ?P s"
    using assms(1,2) by (intro bothI) (auto simp: held_def)
  moreover have "\<forall>q \<in> set qs. (\<forall>k \<in> set (request_keys q). rb_valid k)
      \<and> (\<forall>(k, p) \<in> set (request_puts q). rb_fits tb p \<and> ?P k p \<and> ?P k (fb (tb p)))"
    using assms(3,4) by (fastforce simp: storable_def)
  ultimately have "\<forall>(k, v) \<in> set as. \<forall>p. v = Some p \<longrightarrow> ?P k p"
    by (rule hybrid_history_both [OF _ _ assms(6), THEN conjunct2])
  with assms(7) show ?thesis by fastforce
qed

lemma hybrid_put_state:
  assumes "lb_ok (fst s)" "rb_ok (snd s)" "rb_valid k" "rb_fits tb p"
    and "hybrid_serve tok num es tb fb (HPut k p) s = Inr (as, s')"
  shows "lb_ok (fst s') \<and> rb_ok (snd s') \<and> pool_chunk_size (lb_pool (fst s')) = pool_chunk_size (lb_pool (fst s))
     \<and> lb_content (fst s') k \<in> {lb_content (fst s) k, Some p} \<and> rb_stored fb (snd s') k = Some (fb (tb p))
     \<and> (\<forall>x. x \<noteq> k \<longrightarrow> lb_content (fst s') x \<in> {None, lb_content (fst s) x})
     \<and> (\<forall>x. rb_valid x \<longrightarrow> x \<noteq> k \<longrightarrow> rb_stored fb (snd s') x = rb_stored fb (snd s) x)"
proof -
  from assms(5) obtain l c where lc: "lb_put_blocking k (as_tensor tok num es p) (fst s) = Inr l"
    "rb_put_blocking tb k p (snd s) = Inr c" "s' = (l, c)" by (auto simp: hy_put_def lput_def)
  have "put_law k p (fst s) l" using lb_put_blocking_law [OF assms(1) lc(1)] by (simp add: as_tensor_def)
  with rb_put_law [OF assms(2-4), of fb] lc(2,3) show ?thesis by (auto simp: put_law_def same_limits_def)
qed

text \<open>
  C30.  What has been put survives local eviction: once a put has succeeded (on the remote backend that is not
  pipelined, with no other chunk held locally under the key), any later history that puts no other chunk under the key leaves
  the chunk on the server, as the serializer restores it, and every later get of the key that returns
  returns it, as it was put or as restored.
\<close>

theorem hybrid_put_survives:
  assumes "lb_ok (fst s)" "rb_ok (snd s)" "rb_valid k" "storable tok tb fb s p" "lb_content (fst s) k \<in> {None, Some p}"
    and "\<forall>x q. held fb s x q \<longrightarrow> small tok s q"
    and "\<forall>q \<in> set qs. (\<forall>x \<in> set (request_keys q). rb_valid x)
           \<and> (\<forall>(x, w) \<in> set (request_puts q). storable tok tb fb s w \<and> (x = k \<longrightarrow> w = p))"
    and "hybrid_history tok num es tb fb (HPut k p # qs) s = Inr (as, s')"
  shows "rb_stored fb (snd s') k = Some (fb (tb p))
     \<and> (\<forall>v s''. hybrid_serve tok num es tb fb (HGet k) s' = Inr ([(k, v)], s'') \<longrightarrow> v \<in> {Some p, Some (fb (tb p))})"
proof -
  let ?P = "\<lambda>x q. small tok s q \<and> (x = k \<longrightarrow> q = p \<or> q = fb (tb p))"
  from assms(8) obtain s1 a b where s1: "hybrid_serve tok num es tb fb (HPut k p) s = Inr (a, s1)"
    "hybrid_history tok num es tb fb qs s1 = Inr (b, s')" by auto
  have fit: "rb_fits tb p" "small tok s p" "small tok s (fb (tb p))" using assms(4) by (simp_all add: storable_def)
  note st = hybrid_put_state [OF assms(1-3) fit(1) s1(1)]
  have "rb_stored fb (snd s1) k = Some (fb (tb p))" "rb_ok (snd s1)" using st by simp_all
  then have "rb_ok (snd s') \<and> rb_stored fb (snd s') k = Some (fb (tb p))"
    using assms(7) by (intro hybrid_history_remote [OF _ assms(3) _ _ s1(2)]) (auto simp: storable_def)
  then have r: "rb_stored fb (snd s') k = Some (fb (tb p))" "rb_ok (snd s')" by simp_all
  have "?P x q" if "lb_content (fst s1) x = Some q" for x q
  proof (cases "x = k")
    case True
    with that st assms(5) fit show ?thesis by auto
  next
    case False
    with that st have "lb_content (fst s) x = Some q" by (metis empty_iff insert_iff option.distinct(1))
    with False assms(6) show ?thesis by (simp add: held_def)
  qed
  moreover have "?P x q" if "rb_valid x" "rb_stored fb (snd s1) x = Some q" for x q
    using that st assms(6) fit by (cases "x = k") (auto simp: held_def)
  moreover have "small tok s1 q" if "?P x q" for x q using that st by (simp add: small_def)
  ultimately have "hyb.both tok num es fb ?P s1" using st by (intro bothI) blast+
  moreover have "\<forall>q \<in> set qs. (\<forall>x \<in> set (request_keys q). rb_valid x)
      \<and> (\<forall>(x, w) \<in> set (request_puts q). rb_fits tb w \<and> ?P x w \<and> ?P x (fb (tb w)))"
    using assms(7) by (fastforce simp: storable_def)
  ultimately have inv: "hyb.both tok num es fb ?P s'"
    by (rule hybrid_history_both [OF _ _ s1(2), THEN conjunct1])
  have "v \<in> {Some p, Some (fb (tb p))}" if g: "hybrid_serve tok num es tb fb (HGet k) s' = Inr ([(k, v)], s'')" for v s''
  proof -
    have "\<forall>q. v = Some q \<longrightarrow> q = p \<or> q = fb (tb p)"
      using hybrid_serve_both [OF inv _ _ g] assms(3) by auto
    moreover have "v \<noteq> None"
      using g rb_get_Inr [OF r(2) assms(3), of fb] r(1) by (auto simp: hy_get_def split: option.splits)
    ultimately show ?thesis by auto
  qed
  with r(1) show ?thesis by simp
qed

text \<open>
  With the pipelined remote backend the results of a batch shift: it returns no entry for a
  missing key, so the chunk of the second of two keys is returned for the first and stored locally
  under it.
\<close>

theorem pipelined_batch_shifts:
  assumes "lb_counted b" "\<not> lb_contains k1 b" "\<not> lb_contains k2 b" "rb_ok c" "rb_valid k1" "rb_valid k2"
    and "rb_stored fb c k1 = None" "rb_stored fb c k2 = Some p" "cuts c = []" "tok p \<le> pool_chunk_size (lb_pool b)"
    and "of_int (size_per_chunk (lb_pool b)) \<le> lru_max (lb_ev b)"
  shows "\<exists>b' c'. hy_batched_get lb_get (lput tok num es) (pipelined_batched_get fb) [k1, k2] (b, c)
       = Inr ([Some p, None], b', c') \<and> lb_content b' k1 = Some p"
proof -
  have g: "lb_get k b = Inr (None, b)" if "\<not> lb_contains k b" for k
    using that by (simp add: lb_get_def lb_contains_def dhas_map_of)
  obtain c' where c': "pipelined_batched_get fb [k1, k2] c = Inr ([Some p], c')"
    using pipelined_law [OF assms(4), of "[k1, k2]" fb] assms(5-9) by auto
  have tok: "num_tok (as_tensor tok num es p) \<le> pool_chunk_size (lb_pool b)" using assms(10) by (simp add: as_tensor_def)
  have "k1 \<notin> set (dkeys (lb_dict b))" using assms(2) by (simp add: lb_contains_def dhas_def)
  with lb_put_cases [OF assms(1) tok assms(11), of k1] obtain b' where
    b': "lb_put_blocking k1 (as_tensor tok num es p) b = Inr b'" "lb_content b' k1 = Some p"
    by (metis as_tensor_def kv_tensor.select_convs(4))
  have "local_pass lb_get 0 [k1, k2] b = Inr ([None, None], [(0, k1), (Suc 0, k2)], b)"
    by (simp add: g [OF assms(2)] g [OF assms(3)] del: bindr_Inr_iff)
  then show ?thesis using c' b' by (simp add: hy_batched_get_def lput_def del: bindr_Inr_iff)
qed

section \<open>A concrete pair\<close>

text \<open>Chunks are byte lists, encoded by prepending a zero byte.\<close>

definition demo_keys :: "cache_key \<times> cache_key" where
  "demo_keys = (CacheEngineKey ''vllm'' ''m'' 2 0 ''a1'', CacheEngineKey ''vllm'' ''m'' 2 0 ''b2'')"

definition demo_pair :: "bytes hybrid_state" where
  "demo_pair = (\<lparr>lb_dict = [], lb_ev = \<lparr>lru_max = 9, lru_cur = 0\<rparr>,
       lb_pool = \<lparr>pool_chunk_size = 256, max_chunk_num = 2, size_per_chunk = 8, mem_pool = [[], []], free_pool = [0, 1]\<rparr>\<rparr>,
     \<lparr>srv_store = [(''vllm@m@2@0@b2'', [0, 7])], inbox = [], outbox = [], cuts = []\<rparr>)"

lemma demo_strings: "key_to_string (fst demo_keys) = ''vllm@m@2@0@a1''" "key_to_string (snd demo_keys) = ''vllm@m@2@0@b2''"
  by (simp_all add: demo_keys_def key_to_string_def show_int_def show_nat.simps digit_char_def char_of_def) code_simp+

lemma demo_valid: "rb_valid (fst demo_keys)" "rb_valid (snd demo_keys)"
proof -
  have "wire_key ''vllm@m@2@0@a1''" "wire_key ''vllm@m@2@0@b2''" by code_simp+
  then show "rb_valid (fst demo_keys)" "rb_valid (snd demo_keys)"
    unfolding rb_valid_def demo_strings by (simp_all add: demo_keys_def key_plain_def)
qed

lemma demo_pair_ok:
  "lb_counted (fst demo_pair)" "rb_ok (snd demo_pair)" "rb_seen (snd demo_pair) = [(''vllm@m@2@0@b2'', [0, 7])]"
proof -
  show "lb_counted (fst demo_pair)"
    by (simp add: demo_pair_def lb_counted_def lb_ok_def pool_ok_def obj_chunks_def numeral_2_eq_2)
  have "settled (snd demo_pair) [(''vllm@m@2@0@b2'', [0, 7])]"
    using settled_idle [of "snd demo_pair"] by (simp add: demo_pair_def)
  then show "rb_ok (snd demo_pair)" "rb_seen (snd demo_pair) = [(''vllm@m@2@0@b2'', [0, 7])]"
    by (auto intro!: rb_okI settled_seen split: if_splits)
qed

lemma demo_held: "held tl demo_pair x q \<Longrightarrow> q = [7]"
  unfolding held_def rb_stored_def demo_pair_ok by (auto simp: demo_pair_def lb_content_def split: if_splits)

lemma demo_fits:
  "small (\<lambda>_. 16) demo_pair q" "length q = 1 \<Longrightarrow> storable (\<lambda>_. 16) (Cons 0) tl demo_pair q"
  by (simp_all add: small_def storable_def demo_pair_def rb_fits_def)

lemma pipelined_batch_shifts_witness:
  "\<exists>b' c'. hy_batched_get lb_get (lput (\<lambda>_. 16) (\<lambda>_. 4) 2) (pipelined_batched_get tl) [fst demo_keys, snd demo_keys] demo_pair
     = Inr ([Some [7], None], b', c') \<and> lb_content b' (fst demo_keys) = Some [7 :: 8 word]"
proof -
  have "rb_stored tl (snd demo_pair) (fst demo_keys) = None" "rb_stored tl (snd demo_pair) (snd demo_keys) = Some [7]"
    unfolding rb_stored_def demo_pair_ok demo_strings by simp_all
  with pipelined_batch_shifts [of "fst demo_pair" "fst demo_keys" "snd demo_keys" "snd demo_pair" tl "[7]" "\<lambda>_. 16" "\<lambda>_. 4" 2]
    demo_pair_ok(1,2) demo_valid
  show ?thesis by (simp add: demo_pair_def lb_contains_def dhas_def)
qed


lemma demo_put_runs:
  assumes "\<not> lb_contains k (fst demo_pair)"
  obtains b' where "lput (\<lambda>_. 16) (\<lambda>_. 4) 2 k v (fst demo_pair) = Inr b'"
proof -
  have tok: "num_tok (as_tensor (\<lambda>_. 16) (\<lambda>_. 4) 2 v) \<le> pool_chunk_size (lb_pool (fst demo_pair))"
    and fit: "of_int (size_per_chunk (lb_pool (fst demo_pair))) \<le> lru_max (lb_ev (fst demo_pair))"
    by (simp_all add: demo_pair_def as_tensor_def)
  show thesis
  proof (rule lb_put_cases [OF demo_pair_ok(1) tok fit, of k])
    fix n b'
    assume "k \<notin> set (dkeys (lb_dict (fst demo_pair))) \<Longrightarrow>
      lb_put_blocking k (as_tensor (\<lambda>_. 16) (\<lambda>_. 4) 2 v) (fst demo_pair) = Inr b'"
    with assms that show thesis by (simp add: lput_def lb_contains_def dhas_def)
  qed
qed

lemma demo_local_empty: "lb_ok (fst demo_pair)" "\<not> lb_contains k (fst demo_pair)"
    "lb_content (fst demo_pair) k = None" "lb_get k (fst demo_pair) = Inr (None, fst demo_pair)"
  using demo_pair_ok(1) by (simp_all add: lb_counted_def demo_pair_def lb_contains_def dhas_def lb_content_def lb_get_def)

lemma hybrid_returns_what_was_put_witness:
  "\<exists>s'. hybrid_history (\<lambda>_. 16) (\<lambda>_. 4) 2 (Cons 0) tl [HGet (snd demo_keys)] demo_pair
     = Inr ([(snd demo_keys, Some [7])], s') \<and> held tl demo_pair (snd demo_keys) [7]"
proof -
  have "rb_stored tl (snd demo_pair) (snd demo_keys) = Some [7]"
    unfolding rb_stored_def demo_pair_ok demo_strings by simp
  with rb_get_total [OF demo_pair_ok(2) demo_valid(2), of tl] obtain c where
    c: "rb_get tl (snd demo_keys) (snd demo_pair) = Inr (Some [7], c)" by (auto simp: demo_pair_def)
  obtain b' where b': "lput (\<lambda>_. 16) (\<lambda>_. 4) 2 (snd demo_keys) [7 :: 8 word] (fst demo_pair) = Inr b'"
    using demo_put_runs [OF demo_local_empty(2)] by blast
  have run: "hybrid_history (\<lambda>_. 16) (\<lambda>_. 4) 2 (Cons 0) tl [HGet (snd demo_keys)] demo_pair
      = Inr ([(snd demo_keys, Some [7])], b', c)"
    using b' c demo_local_empty(4) by (simp add: hy_get_def del: bindr_Inr_iff)
  have "(\<exists>q \<in> set [HGet (snd demo_keys)]. \<exists>v. (snd demo_keys, v) \<in> set (request_puts q) \<and> ([7 :: 8 word] = v \<or> [7] = tl (0 # v)))
      \<or> held tl demo_pair (snd demo_keys) [7]"
    by (rule hybrid_returns_what_was_put [OF demo_local_empty(1) demo_pair_ok(2) _ _ _ run])
      (use demo_valid demo_fits in simp_all)
  with run show ?thesis by auto
qed

lemma hybrid_put_survives_witness:
  "\<exists>as s'. hybrid_history (\<lambda>_. 16) (\<lambda>_. 4) 2 (Cons 0) tl [HPut (fst demo_keys) [9]] demo_pair = Inr (as, s')
     \<and> rb_stored tl (snd s') (fst demo_keys) = Some [9]"
proof -
  have "\<not> lb_contains (fst demo_keys) (fst demo_pair)" by (simp add: demo_pair_def lb_contains_def dhas_def)
  from demo_put_runs [OF this] obtain b' where
    b': "lput (\<lambda>_. 16) (\<lambda>_. 4) 2 (fst demo_keys) [9 :: 8 word] (fst demo_pair) = Inr b'" by blast
  have "rb_fits (Cons 0) [9 :: 8 word]" by (simp add: rb_fits_def)
  from rb_put_law [OF demo_pair_ok(2) demo_valid(1) this, of tl] obtain c where
    "rb_put_blocking (Cons 0) (fst demo_keys) [9] (snd demo_pair) = Inr c" by blast
  with b' have run: "hybrid_history (\<lambda>_. 16) (\<lambda>_. 4) 2 (Cons 0) tl [HPut (fst demo_keys) [9]] demo_pair = Inr ([], b', c)"
    by (simp add: hy_put_def del: bindr_Inr_iff)
  have "rb_stored tl (snd (b', c)) (fst demo_keys) = Some (tl (0 # [9]))"
    by (rule hybrid_put_survives [OF demo_local_empty(1) demo_pair_ok(2) demo_valid(1) _ _ _ _ run, THEN conjunct1])
      (use demo_local_empty(3) demo_fits in simp_all)
  with run show ?thesis by fastforce
qed

end
