(* ===== verification/Block_Allocator.thy ===== *)
theory Block_Allocator
  imports Prelude
begin

text \<open>
  The physical blocks of vLLM's block manager and their two allocators: \<open>vllm/block.py\<close>
  (\<open>PhysicalTokenBlock\<close>, \<open>BlockTable\<close>), \<open>vllm/core/evictor_v1.py\<close> (\<open>LRUEvictor\<close>),
  \<open>CacheMetricData\<close> of \<open>vllm/core/block/common.py\<close>, and the allocators of
  \<open>vllm/core/block_manager_v1.py\<close>.

  Block objects are shared and mutable, so an allocator holds a store of them: an allocator creates
  one object per block number, and a reference to a block is that number.
\<close>

section \<open>Blocks and block tables\<close>

record phys_block =
  block_hash :: int
  num_hashed :: int
  ref_count :: int
  last_accessed :: real
  computed :: bool

definition new_block :: "int \<Rightarrow> int \<Rightarrow> phys_block" where
  "new_block h n = \<lparr>block_hash = h, num_hashed = n, ref_count = 0, last_accessed = - 1, computed = False\<rparr>"

datatype device = GPU | CPU

type_synonym bref = "device \<times> nat"

record block_table =
  tb_blocks :: "bref list"
  tb_ids :: "nat list"

definition bt_empty :: block_table where
  "bt_empty = \<lparr>tb_blocks = [], tb_ids = []\<rparr>"

definition bt_append :: "bref \<Rightarrow> block_table \<Rightarrow> block_table" where
  "bt_append b t = \<lparr>tb_blocks = tb_blocks t @ [b], tb_ids = tb_ids t @ [snd b]\<rparr>"

definition bt_of :: "bref list \<Rightarrow> block_table" where
  "bt_of bs = foldl (\<lambda>t b. bt_append b t) bt_empty bs"

definition bt_len :: "block_table \<Rightarrow> int" where
  "bt_len t = int (length (tb_blocks t))"

definition bt_get :: "block_table \<Rightarrow> int \<Rightarrow> bref result" where
  "bt_get t i = py_nth (tb_blocks t) i"

definition bt_set_last :: "bref \<Rightarrow> block_table \<Rightarrow> block_table result" where
  "bt_set_last b t =
     (if tb_blocks t = [] then Inl IndexError
      else Inr \<lparr>tb_blocks = butlast (tb_blocks t) @ [b], tb_ids = butlast (tb_ids t) @ [snd b]\<rparr>)"

definition bt_reset :: "block_table \<Rightarrow> block_table" where
  "bt_reset t = bt_empty"

definition bt_copy :: "block_table \<Rightarrow> block_table" where
  "bt_copy t = bt_of (tb_blocks t)"

text \<open>The cached list of numbers always agrees with the list of blocks.\<close>

definition bt_ok :: "block_table \<Rightarrow> bool" where
  "bt_ok t \<longleftrightarrow> tb_ids t = map snd (tb_blocks t)"

lemma bt_append_simps [simp]: "tb_blocks (bt_append b t) = tb_blocks t @ [b]" "bt_ok t \<Longrightarrow> bt_ok (bt_append b t)"
  by (simp_all add: bt_append_def bt_ok_def)

lemma bt_empty_simps [simp]: "tb_blocks bt_empty = []" "bt_ok bt_empty"
  by (simp_all add: bt_empty_def bt_ok_def)

lemma bt_fold: "tb_blocks (foldl (\<lambda>t b. bt_append b t) t bs) = tb_blocks t @ bs \<and> (bt_ok t \<longrightarrow> bt_ok (foldl (\<lambda>t b. bt_append b t) t bs))"
  by (induction bs arbitrary: t) auto

lemma bt_of_simps [simp]: "tb_blocks (bt_of bs) = bs" "bt_ok (bt_of bs)"
  using bt_fold [of bt_empty bs] by (simp_all add: bt_of_def)

lemma bt_copy_simps [simp]: "tb_blocks (bt_copy t) = tb_blocks t" "bt_ok (bt_copy t)"
  by (simp_all add: bt_copy_def)

lemma bt_set_last_law:
  "tb_blocks t \<noteq> [] \<Longrightarrow> \<exists>t'. bt_set_last b t = Inr t' \<and> tb_blocks t' = butlast (tb_blocks t) @ [b] \<and> (bt_ok t \<longrightarrow> bt_ok t')"
  by (auto simp: bt_set_last_def bt_ok_def map_butlast)

section \<open>Hit rates\<close>

record cache_metric =
  completed_blocks :: int
  completed_rate :: real
  incomplete_queries :: int
  incomplete_hits :: int
  metric_block :: int

definition new_metric :: cache_metric where
  "new_metric = \<lparr>completed_blocks = 0, completed_rate = 0, incomplete_queries = 0, incomplete_hits = 0, metric_block = 1000\<rparr>"

definition metric_query :: "bool \<Rightarrow> cache_metric \<Rightarrow> cache_metric" where
  "metric_query hit m =
     (let m1 = m\<lparr>incomplete_queries := incomplete_queries m + 1,
                 incomplete_hits := incomplete_hits m + (if hit then 1 else 0)\<rparr> in
      if incomplete_queries m1 = metric_block m1 then
        (let rate = of_int (incomplete_hits m1) / of_int (incomplete_queries m1) in
         m1\<lparr>completed_rate := (completed_rate m1 * of_int (completed_blocks m1) + rate) / of_int (completed_blocks m1 + 1),
            incomplete_queries := 0, incomplete_hits := 0, completed_blocks := completed_blocks m1 + 1\<rparr>)
      else m1)"

definition get_hit_rate :: "cache_metric \<Rightarrow> real" where
  "get_hit_rate m =
     (let ratio = of_int (incomplete_queries m) / of_int (metric_block m);
          total = of_int (completed_blocks m) + ratio in
      if total = 0 then 0
      else
        (let ch = (if completed_blocks m > 0 then completed_rate m * of_int (completed_blocks m) else 0);
             ih = (if incomplete_queries m > 0
                   then of_int (incomplete_hits m) / of_int (incomplete_queries m) * ratio else 0)
         in (ch + ih) / total))"

definition metric_counts :: "cache_metric \<Rightarrow> int \<Rightarrow> int \<Rightarrow> bool" where
  "metric_counts m hits n \<longleftrightarrow> 0 < metric_block m \<and> 0 \<le> completed_blocks m \<and> 0 \<le> incomplete_queries m
     \<and> incomplete_queries m < metric_block m
     \<and> completed_rate m * of_int (completed_blocks m) * of_int (metric_block m) + of_int (incomplete_hits m) = of_int hits
     \<and> completed_blocks m * metric_block m + incomplete_queries m = n
     \<and> (incomplete_queries m = 0 \<longrightarrow> incomplete_hits m = 0)"

lemma mean_step: "b \<noteq> 0 \<Longrightarrow> c + 1 \<noteq> 0 \<Longrightarrow> (r * c + h / b) / (c + 1) * (c + 1) * b = r * c * b + (h :: real)"
proof -
  assume "b \<noteq> 0" "c + 1 \<noteq> 0"
  then have "(r * c + h / b) / (c + 1) * (c + 1) = r * c + h / b" by (simp only: times_divide_eq_left) (simp add: nonzero_mult_div_cancel_right)
  with \<open>b \<noteq> 0\<close> show ?thesis by (simp add: distrib_right)
qed

lemma metric_query_counts:
  assumes "metric_counts m hits n"
  shows "metric_counts (metric_query hit m) (hits + (if hit then 1 else 0)) (n + 1)"
proof (cases "incomplete_queries m + 1 = metric_block m")
  case False
  with assms show ?thesis by (auto simp: metric_counts_def metric_query_def Let_def)
next
  case True
  let ?h = "of_int (incomplete_hits m + (if hit then 1 else 0)) :: real" and ?c = "of_int (completed_blocks m) :: real"
  let ?b = "of_int (metric_block m) :: real"
  have b: "?b > 0" "?c + 1 > 0" "?c + 1 \<noteq> 0" using assms by (simp_all add: metric_counts_def)
  have "(completed_rate m * ?c + ?h / ?b) / (?c + 1) * (?c + 1) * ?b = completed_rate m * ?c * ?b + ?h"
    by (rule mean_step) (use b in simp_all)
  also have "\<dots> = of_int (hits + (if hit then 1 else 0))"
    using assms by (simp add: metric_counts_def)
  finally show ?thesis using True assms by (auto simp: metric_counts_def metric_query_def Let_def algebra_simps)
qed

lemma metric_counts_rate:
  assumes "metric_counts m hits n"
  shows "get_hit_rate m = (if n = 0 then 0 else of_int hits / of_int n)"
proof -
  let ?c = "of_int (completed_blocks m) :: real" and ?q = "of_int (incomplete_queries m) :: real"
  let ?b = "of_int (metric_block m) :: real" and ?h = "of_int (incomplete_hits m) :: real"
  have b: "?b > 0" "0 \<le> completed_blocks m" "0 \<le> incomplete_queries m" using assms by (simp_all add: metric_counts_def)
  have n: "of_int n = ?c * ?b + ?q" and h: "completed_rate m * ?c * ?b + ?h = of_int hits"
    using assms by (auto simp: metric_counts_def)
  have tot: "(?c + ?q / ?b) * ?b = of_int n" using b(1) n by (simp add: algebra_simps)
  have zero: "?c + ?q / ?b = 0 \<longleftrightarrow> n = 0" using tot b(1) by (metis mult_eq_0_iff of_int_eq_0_iff less_irrefl)
  have ch: "(if completed_blocks m > 0 then completed_rate m * ?c else 0) = completed_rate m * ?c" using b(2) by auto
  have ih: "(if incomplete_queries m > 0 then ?h / ?q * (?q / ?b) else 0) = ?h / ?b"
    using b(3) assms by (auto simp: metric_counts_def)
  show ?thesis
  proof (cases "n = 0")
    case True
    with zero show ?thesis by (simp add: get_hit_rate_def Let_def)
  next
    case False
    then have nz: "?c + ?q / ?b \<noteq> 0" using zero by simp
    then have "get_hit_rate m = (completed_rate m * ?c + ?h / ?b) / (?c + ?q / ?b)"
      unfolding get_hit_rate_def Let_def ch ih by simp
    also have "\<dots> = ((completed_rate m * ?c + ?h / ?b) * ?b) / ((?c + ?q / ?b) * ?b)" using b(1) by simp
    also have "(completed_rate m * ?c + ?h / ?b) * ?b = of_int hits" using b(1) h by (simp add: algebra_simps)
    finally show ?thesis using False tot by simp
  qed
qed

text \<open>
  The hit rate kept block by block is exact: after any sequence of queries it is the number of
  hits divided by the number of queries, and 0 before the first.
\<close>

theorem hit_rate_is_exact:
  "get_hit_rate (foldl (\<lambda>m hit. metric_query hit m) new_metric qs)
     = (if qs = [] then 0 else real (length (filter id qs)) / real (length qs))"
proof -
  have "metric_counts (foldl (\<lambda>m hit. metric_query hit m) m qs) (h + int (length (filter id qs))) (n + int (length qs))"
    if "metric_counts m h n" for m h n
    using that
  proof (induction qs arbitrary: m h n)
    case (Cons q qs)
    from Cons.IH [OF metric_query_counts [OF Cons.prems, of q]] show ?case by (cases q) (simp_all add: algebra_simps)
  qed simp
  moreover have "metric_counts new_metric 0 0" by (simp add: metric_counts_def new_metric_def)
  ultimately have "metric_counts (foldl (\<lambda>m hit. metric_query hit m) new_metric qs) (int (length (filter id qs))) (int (length qs))"
    by fastforce
  from metric_counts_rate [OF this] show ?thesis by simp
qed

section \<open>The evictor\<close>

text \<open>The free table maps the hash of a block to the block; \<open>heap ! b\<close> is the block object.\<close>

fun evict_scan :: "phys_block list \<Rightarrow> nat \<Rightarrow> (int \<times> nat) list \<Rightarrow> nat" where
  "evict_scan heap best [] = best"
| "evict_scan heap best (p # rest) =
     (if last_accessed (heap ! best) < last_accessed (heap ! snd p) then best
      else evict_scan heap (if num_hashed (heap ! best) < num_hashed (heap ! snd p) then snd p else best) rest)"

definition ev_evict :: "phys_block list \<Rightarrow> (int, nat) dict \<Rightarrow> (nat \<times> phys_block list \<times> (int, nat) dict) result" where
  "ev_evict heap table =
     (case table of
        [] \<Rightarrow> Inl ValueError
      | p # _ \<Rightarrow>
          let b = evict_scan heap (snd p) table in
          bindr (dindex table (block_hash (heap ! b))) (\<lambda>_.
            Inr (b, heap[b := (heap ! b)\<lparr>computed := False\<rparr>], AList.delete (block_hash (heap ! b)) table)))"

definition ev_add :: "phys_block list \<Rightarrow> nat \<Rightarrow> (int, nat) dict \<Rightarrow> (int, nat) dict" where
  "ev_add heap b table = AList.update (block_hash (heap ! b)) b table"

definition ev_remove :: "int \<Rightarrow> (int, nat) dict \<Rightarrow> (nat \<times> (int, nat) dict) result" where
  "ev_remove h table =
     (case map_of table h of None \<Rightarrow> Inl ValueError | Some b \<Rightarrow> Inr (b, AList.delete h table))"

lemma evict_scan_in: "evict_scan heap best ps \<in> insert best (snd ` set ps)"
  by (induction ps arbitrary: best) auto

section \<open>The allocator with prefix caching\<close>

text \<open>\<open>current_num_blocks\<close> is the number of block objects created, the length of the store.\<close>

record cached_allocator =
  ca_total :: nat
  ca_heap :: "phys_block list"
  cached_blocks :: "(int, nat) dict"
  free_table :: "(int, nat) dict"
  default_hash_ctr :: int
  cache_metric_data :: cache_metric

definition new_cached :: "nat \<Rightarrow> cached_allocator" where
  "new_cached n = \<lparr>ca_total = n, ca_heap = [], cached_blocks = [], free_table = [], default_hash_ctr = 0,
     cache_metric_data = new_metric\<rparr>"

definition ca_allocate_block :: "int \<Rightarrow> int \<Rightarrow> cached_allocator \<Rightarrow> (nat \<times> cached_allocator) result" where
  "ca_allocate_block h n a =
     (if length (ca_heap a) = ca_total a then
        bindr (ev_evict (ca_heap a) (free_table a)) (\<lambda>(b, heap, table).
          Inr (b, a\<lparr>ca_heap := heap[b := (heap ! b)\<lparr>block_hash := h, num_hashed := n\<rparr>], free_table := table\<rparr>))
      else Inr (length (ca_heap a), a\<lparr>ca_heap := ca_heap a @ [new_block h n]\<rparr>))"

definition ca_revive :: "int \<Rightarrow> cached_allocator \<Rightarrow> cached_allocator result" where
  "ca_revive h a =
     (if dhas (free_table a) h then
        assert_py (\<not> dhas (cached_blocks a) h)
          (bindr (ev_remove h (free_table a)) (\<lambda>(b, table).
             assert_py (ref_count (ca_heap a ! b) = 0)
               (Inr (a\<lparr>free_table := table, cached_blocks := AList.update h b (cached_blocks a)\<rparr>))))
      else Inr a)"

definition ca_lookup :: "int \<Rightarrow> int \<Rightarrow> cached_allocator \<Rightarrow> cached_allocator result" where
  "ca_lookup h n a =
     (if dhas (cached_blocks a) h
      then Inr (a\<lparr>cache_metric_data := metric_query True (cache_metric_data a)\<rparr>)
      else bindr (ca_allocate_block h n (a\<lparr>cache_metric_data := metric_query False (cache_metric_data a)\<rparr>)) (\<lambda>(b, a').
             Inr (a'\<lparr>cached_blocks := AList.update h b (cached_blocks a')\<rparr>)))"

definition ca_upd :: "nat \<Rightarrow> (phys_block \<Rightarrow> phys_block) \<Rightarrow> cached_allocator \<Rightarrow> cached_allocator" where
  "ca_upd b f a = a\<lparr>ca_heap := (ca_heap a)[b := f (ca_heap a ! b)]\<rparr>"

definition ca_take :: "int \<Rightarrow> cached_allocator \<Rightarrow> (nat \<times> cached_allocator) result" where
  "ca_take h a =
     bindr (dindex (cached_blocks a) h) (\<lambda>b.
       assert_py (block_hash (ca_heap a ! b) = h)
         (Inr (b, ca_upd b (\<lambda>p. p\<lparr>ref_count := ref_count p + 1\<rparr>) a)))"

definition ca_allocate :: "int option \<Rightarrow> int \<Rightarrow> cached_allocator \<Rightarrow> (nat \<times> cached_allocator) result" where
  "ca_allocate hopt n a =
     (case hopt of
        None \<Rightarrow> let h = default_hash_ctr a in
                bindr (ca_revive h (a\<lparr>default_hash_ctr := default_hash_ctr a + 1\<rparr>)) (\<lambda>a1.
                  bindr (ca_lookup h n a1) (ca_take h))
      | Some h \<Rightarrow> bindr (ca_revive h a) (\<lambda>a1. bindr (ca_lookup h n a1) (ca_take h)))"

definition ca_free :: "nat \<Rightarrow> cached_allocator \<Rightarrow> cached_allocator result" where
  "ca_free b a =
     (if ref_count (ca_heap a ! b) = 0 then Inl ValueError
      else let a1 = ca_upd b (\<lambda>p. p\<lparr>ref_count := ref_count p - 1\<rparr>) a; h = block_hash (ca_heap a1 ! b) in
           if ref_count (ca_heap a1 ! b) = 0 then
             assert_py (\<not> dhas (free_table a1) h)
               (bindr (dindex (cached_blocks a1) h) (\<lambda>_.
                  Inr (a1\<lparr>free_table := ev_add (ca_heap a1) b (free_table a1),
                          cached_blocks := AList.delete h (cached_blocks a1)\<rparr>)))
           else Inr a1)"

definition ca_num_free :: "cached_allocator \<Rightarrow> int" where
  "ca_num_free a = int (ca_total a) - int (length (ca_heap a)) + int (length (free_table a))"

definition ca_contains :: "int \<Rightarrow> cached_allocator \<Rightarrow> bool" where
  "ca_contains h a \<longleftrightarrow> dhas (cached_blocks a) h \<or> dhas (free_table a) h"

definition ca_update_hash :: "int \<Rightarrow> nat \<Rightarrow> cached_allocator \<Rightarrow> cached_allocator result" where
  "ca_update_hash h b a =
     assert_py (\<not> ca_contains h a)
       (let old = block_hash (ca_heap a ! b); a1 = ca_upd b (\<lambda>p. p\<lparr>block_hash := h\<rparr>) a in
        bindr (dindex (cached_blocks a1) old) (\<lambda>_.
          Inr (a1\<lparr>cached_blocks := AList.update h b (AList.delete old (cached_blocks a1))\<rparr>)))"

section \<open>The allocator without caching\<close>

record uncached_allocator =
  ua_total :: nat
  ua_heap :: "phys_block list"
  free_blocks :: "nat list"

definition new_uncached :: "nat \<Rightarrow> uncached_allocator" where
  "new_uncached n = \<lparr>ua_total = n, ua_heap = map (\<lambda>_. new_block (- 1) 0) [0..<n], free_blocks = [0..<n]\<rparr>"

definition ua_upd :: "nat \<Rightarrow> (phys_block \<Rightarrow> phys_block) \<Rightarrow> uncached_allocator \<Rightarrow> uncached_allocator" where
  "ua_upd b f a = a\<lparr>ua_heap := (ua_heap a)[b := f (ua_heap a ! b)]\<rparr>"

definition ua_allocate :: "uncached_allocator \<Rightarrow> (nat \<times> uncached_allocator) result" where
  "ua_allocate a =
     (if free_blocks a = [] then Inl ValueError
      else let b = last (free_blocks a) in
           Inr (b, ua_upd b (\<lambda>p. p\<lparr>ref_count := 1\<rparr>) (a\<lparr>free_blocks := butlast (free_blocks a)\<rparr>)))"

definition ua_free :: "nat \<Rightarrow> uncached_allocator \<Rightarrow> uncached_allocator result" where
  "ua_free b a =
     (if ref_count (ua_heap a ! b) = 0 then Inl ValueError
      else let a1 = ua_upd b (\<lambda>p. p\<lparr>ref_count := ref_count p - 1\<rparr>) a in
           if ref_count (ua_heap a1 ! b) = 0 then Inr (a1\<lparr>free_blocks := free_blocks a1 @ [b]\<rparr>) else Inr a1)"

definition ua_num_free :: "uncached_allocator \<Rightarrow> int" where
  "ua_num_free a = int (length (free_blocks a))"

section \<open>Either allocator\<close>

datatype allocator = Cached cached_allocator | Uncached uncached_allocator

fun al_heap :: "allocator \<Rightarrow> phys_block list" where
  "al_heap (Cached a) = ca_heap a"
| "al_heap (Uncached a) = ua_heap a"

fun al_allocate :: "int option \<Rightarrow> int \<Rightarrow> allocator \<Rightarrow> (nat \<times> allocator) result" where
  "al_allocate h n (Cached a) = bindr (ca_allocate h n a) (\<lambda>(b, a'). Inr (b, Cached a'))"
| "al_allocate h n (Uncached a) = bindr (ua_allocate a) (\<lambda>(b, a'). Inr (b, Uncached a'))"

fun al_free :: "nat \<Rightarrow> allocator \<Rightarrow> allocator result" where
  "al_free b (Cached a) = bindr (ca_free b a) (\<lambda>a'. Inr (Cached a'))"
| "al_free b (Uncached a) = bindr (ua_free b a) (\<lambda>a'. Inr (Uncached a'))"

fun al_num_free :: "allocator \<Rightarrow> int" where
  "al_num_free (Cached a) = ca_num_free a"
| "al_num_free (Uncached a) = ua_num_free a"

fun al_num_total :: "allocator \<Rightarrow> int" where
  "al_num_total (Cached a) = int (ca_total a)"
| "al_num_total (Uncached a) = int (ua_total a)"

fun al_contains :: "int \<Rightarrow> allocator \<Rightarrow> bool result" where
  "al_contains h (Cached a) = Inr (ca_contains h a)"
| "al_contains h (Uncached a) = Inl NotImplementedError"

fun al_update_hash :: "int \<Rightarrow> nat \<Rightarrow> allocator \<Rightarrow> allocator result" where
  "al_update_hash h b (Cached a) = bindr (ca_update_hash h b a) (\<lambda>a'. Inr (Cached a'))"
| "al_update_hash h b (Uncached a) = Inl NotImplementedError"

fun al_hit_rate :: "allocator \<Rightarrow> real" where
  "al_hit_rate (Cached a) = get_hit_rate (cache_metric_data a)"
| "al_hit_rate (Uncached a) = - 1"

fun al_upd :: "nat \<Rightarrow> (phys_block \<Rightarrow> phys_block) \<Rightarrow> allocator \<Rightarrow> allocator" where
  "al_upd b f (Cached a) = Cached (ca_upd b f a)"
| "al_upd b f (Uncached a) = Uncached (ua_upd b f a)"

definition al_refs :: "allocator \<Rightarrow> nat \<Rightarrow> int" where
  "al_refs a b = (if b < length (al_heap a) then ref_count (al_heap a ! b) else 0)"

section \<open>Invariant of the caching allocator\<close>

text \<open>
  Every block object is in exactly one table under its own hash: in \<open>cached_blocks\<close> while it is
  referenced, in the free table of the evictor when it is not.  During \<open>allocate\<close> a block \<open>b\<close>
  whose count is still to be raised (\<open>b \<in> X\<close>) counts as referenced.
\<close>

definition held_block :: "nat set \<Rightarrow> cached_allocator \<Rightarrow> nat \<Rightarrow> bool" where
  "held_block X a b \<longleftrightarrow> 0 < ref_count (ca_heap a ! b) \<or> b \<in> X"

definition ca_okx :: "nat set \<Rightarrow> cached_allocator \<Rightarrow> bool" where
  "ca_okx X a \<longleftrightarrow> length (ca_heap a) \<le> ca_total a \<and> wf_dict (cached_blocks a) \<and> wf_dict (free_table a)
     \<and> (\<forall>b < length (ca_heap a). 0 \<le> ref_count (ca_heap a ! b))
     \<and> (\<forall>h b. map_of (cached_blocks a) h = Some b \<longleftrightarrow>
            b < length (ca_heap a) \<and> block_hash (ca_heap a ! b) = h \<and> held_block X a b)
     \<and> (\<forall>h b. map_of (free_table a) h = Some b \<longleftrightarrow>
            b < length (ca_heap a) \<and> block_hash (ca_heap a ! b) = h \<and> \<not> held_block X a b)
     \<and> (\<forall>h. map_of (cached_blocks a) h = None \<or> map_of (free_table a) h = None)"

definition ca_ok :: "cached_allocator \<Rightarrow> bool" where
  "ca_ok a \<longleftrightarrow> ca_okx {} a"

lemma ca_okxD:
  assumes "ca_okx X a"
  shows "length (ca_heap a) \<le> ca_total a" "wf_dict (cached_blocks a)" "wf_dict (free_table a)"
    and "\<And>b. b < length (ca_heap a) \<Longrightarrow> 0 \<le> ref_count (ca_heap a ! b)"
    and "\<And>h b. map_of (cached_blocks a) h = Some b \<longleftrightarrow> b < length (ca_heap a) \<and> block_hash (ca_heap a ! b) = h \<and> held_block X a b"
    and "\<And>h b. map_of (free_table a) h = Some b \<longleftrightarrow> b < length (ca_heap a) \<and> block_hash (ca_heap a ! b) = h \<and> \<not> held_block X a b"
    and "\<And>h. map_of (cached_blocks a) h = None \<or> map_of (free_table a) h = None"
proof -
  note a = assms [unfolded ca_okx_def]
  note b = a [THEN conjunct2, THEN conjunct2, THEN conjunct2]
  show "length (ca_heap a) \<le> ca_total a" "wf_dict (cached_blocks a)" "wf_dict (free_table a)" using a by fast+
  show "b < length (ca_heap a) \<Longrightarrow> 0 \<le> ref_count (ca_heap a ! b)" for b using b [THEN conjunct1] by simp
  show "map_of (cached_blocks a) h = Some b \<longleftrightarrow> b < length (ca_heap a) \<and> block_hash (ca_heap a ! b) = h \<and> held_block X a b" for h b
    by (rule b [THEN conjunct2, THEN conjunct1, rule_format])
  show "map_of (free_table a) h = Some b \<longleftrightarrow> b < length (ca_heap a) \<and> block_hash (ca_heap a ! b) = h \<and> \<not> held_block X a b" for h b
    by (rule b [THEN conjunct2, THEN conjunct2, THEN conjunct1, rule_format])
  show "map_of (cached_blocks a) h = None \<or> map_of (free_table a) h = None" for h
    by (rule b [THEN conjunct2, THEN conjunct2, THEN conjunct2, rule_format])
qed

lemma ca_okxI:
  assumes "length (ca_heap a) \<le> ca_total a" "wf_dict (cached_blocks a)" "wf_dict (free_table a)"
    and "\<And>b. b < length (ca_heap a) \<Longrightarrow> 0 \<le> ref_count (ca_heap a ! b)"
    and "\<And>h b. map_of (cached_blocks a) h = Some b \<longleftrightarrow> b < length (ca_heap a) \<and> block_hash (ca_heap a ! b) = h \<and> held_block X a b"
    and "\<And>h b. map_of (free_table a) h = Some b \<longleftrightarrow> b < length (ca_heap a) \<and> block_hash (ca_heap a ! b) = h \<and> \<not> held_block X a b"
    and "\<And>h. map_of (cached_blocks a) h = None \<or> map_of (free_table a) h = None"
  shows "ca_okx X a"
  unfolding ca_okx_def
  by (intro conjI allI impI) (fact assms)+

text \<open>Hashes name blocks: two blocks never have one hash.\<close>

lemma hash_inject:
  assumes "ca_okx X a" "b < length (ca_heap a)" "c < length (ca_heap a)" "block_hash (ca_heap a ! b) = block_hash (ca_heap a ! c)"
  shows "b = c"
proof -
  note d = ca_okxD [OF assms(1)]
  let ?h = "block_hash (ca_heap a ! b)"
  have "map_of (cached_blocks a) ?h = Some b \<or> map_of (free_table a) ?h = Some b" using d(5,6) assms(2) by blast
  moreover have "map_of (cached_blocks a) ?h = Some c \<or> map_of (free_table a) ?h = Some c"
    using d(5,6) assms(3,4) by metis
  ultimately show ?thesis using d(7) [of ?h] by auto
qed

lemma ev_evict_law:
  assumes "table \<noteq> []" "wf_dict table" "\<And>k c. (k, c) \<in> set table \<Longrightarrow> block_hash (heap ! c) = k"
  shows "\<exists>b. ev_evict heap table = Inr (b, heap[b := (heap ! b)\<lparr>computed := False\<rparr>], AList.delete (block_hash (heap ! b)) table)
     \<and> map_of table (block_hash (heap ! b)) = Some b"
proof -
  obtain p ps where p: "table = p # ps" using assms(1) by (cases table) auto
  let ?b = "evict_scan heap (snd p) table"
  have "?b \<in> snd ` set table" using evict_scan_in [of heap "snd p" table] p by auto
  then obtain k where k: "(k, ?b) \<in> set table" by auto
  then have "map_of table (block_hash (heap ! ?b)) = Some ?b" using assms(2,3) by simp
  with p show ?thesis by (intro exI [of _ ?b]) (simp add: ev_evict_def Let_def del: map_of_eq_Some_iff evict_scan.simps)
qed

lemma ca_revive_law:
  assumes "ca_ok a"
  shows "\<exists>a' X. ca_revive h a = Inr a' \<and> ca_okx X a' \<and> ca_heap a' = ca_heap a \<and> ca_total a' = ca_total a
     \<and> map_of (free_table a') h = None \<and> X = {b. map_of (free_table a) h = Some b}
     \<and> (map_of (cached_blocks a') h = None \<longleftrightarrow> \<not> ca_contains h a) \<and> (\<not> ca_contains h a \<longrightarrow> a' = a)"
proof (cases "map_of (free_table a) h")
  case None
  then show ?thesis using assms by (auto simp: ca_revive_def dhas_map_of ca_ok_def ca_contains_def)
next
  case (Some b)
  note d = ca_okxD [OF assms [unfolded ca_ok_def]]
  have b: "b < length (ca_heap a)" "block_hash (ca_heap a ! b) = h" "ref_count (ca_heap a ! b) = 0"
    using Some d(6) [of h b] d(4) [of b] by (auto simp: held_block_def)
  have hc: "map_of (cached_blocks a) h = None" using d(7) [of h] Some by simp
  let ?a = "a\<lparr>free_table := AList.delete h (free_table a), cached_blocks := AList.update h b (cached_blocks a)\<rparr>"
  have run: "ca_revive h a = Inr ?a" using Some hc b(3) by (simp add: ca_revive_def ev_remove_def dhas_map_of)
  have uniq: "block_hash (ca_heap a ! c) = h \<longleftrightarrow> c = b" if "c < length (ca_heap a)" for c
    using hash_inject [OF assms [unfolded ca_ok_def] that b(1)] b(2) by metis
  have held: "held_block {b} ?a c \<longleftrightarrow> held_block {} a c \<or> c = b" for c by (auto simp: held_block_def)
  have "ca_okx {b} ?a"
  proof (rule ca_okxI)
    show "map_of (cached_blocks ?a) x = Some c \<longleftrightarrow> c < length (ca_heap ?a) \<and> block_hash (ca_heap ?a ! c) = x \<and> held_block {b} ?a c" for x c
      unfolding held using b uniq [of c] d(5) [of x c]
      by (cases "c < length (ca_heap a)"; cases "x = h"; cases "c = b") (simp_all add: map_of_update del: map_of_eq_Some_iff)
    show "map_of (free_table ?a) x = Some c \<longleftrightarrow> c < length (ca_heap ?a) \<and> block_hash (ca_heap ?a ! c) = x \<and> \<not> held_block {b} ?a c" for x c
      unfolding held using b uniq [of c] d(6) [of x c]
      by (cases "c < length (ca_heap a)"; cases "x = h"; cases "c = b") (simp_all add: map_of_delete del: map_of_eq_Some_iff)
    show "map_of (cached_blocks ?a) x = None \<or> map_of (free_table ?a) x = None" for x
      using d(7) by (auto simp: map_of_update map_of_delete)
  qed (use d in auto)
  with run Some show ?thesis by (auto simp: map_of_delete map_of_update ca_contains_def dhas_map_of)
qed

lemma ca_allocate_block_law:
  assumes "ca_ok a" "\<not> ca_contains h a"
  shows "if length (ca_heap a) = ca_total a \<and> free_table a = [] then ca_allocate_block h n a = Inl ValueError
     else \<exists>b a'. ca_allocate_block h n a = Inr (b, a') \<and> ca_okx {b} (a'\<lparr>cached_blocks := AList.update h b (cached_blocks a')\<rparr>)
        \<and> ca_total a' = ca_total a \<and> b < length (ca_heap a') \<and> length (ca_heap a) \<le> length (ca_heap a')
        \<and> block_hash (ca_heap a' ! b) = h \<and> ref_count (ca_heap a' ! b) = 0 \<and> (b < length (ca_heap a) \<longrightarrow> ref_count (ca_heap a ! b) = 0)
        \<and> (\<forall>c < length (ca_heap a'). c \<noteq> b \<longrightarrow> c < length (ca_heap a) \<and> ca_heap a' ! c = ca_heap a ! c)"
proof -
  note d = ca_okxD [OF assms(1) [unfolded ca_ok_def]]
  have new: "map_of (cached_blocks a) h = None" "map_of (free_table a) h = None"
    using assms(2) by (simp_all add: ca_contains_def dhas_map_of)
  have nohash: "block_hash (ca_heap a ! c) \<noteq> h" if "c < length (ca_heap a)" for c
    using d(5,6) [of h c] new that by auto
  show ?thesis
  proof (cases "length (ca_heap a) = ca_total a")
    case False
    let ?b = "length (ca_heap a)"
    let ?a = "a\<lparr>ca_heap := ca_heap a @ [new_block h n], cached_blocks := AList.update h ?b (cached_blocks a)\<rparr>"
    have held: "held_block {?b} ?a c \<longleftrightarrow> (if c < ?b then held_block {} a c else True)" if "c < Suc ?b" for c
      using that by (cases "c = ?b") (auto simp: held_block_def nth_append)
    have "ca_okx {?b} ?a"
    proof (rule ca_okxI)
      show "map_of (cached_blocks ?a) x = Some c \<longleftrightarrow> c < length (ca_heap ?a) \<and> block_hash (ca_heap ?a ! c) = x \<and> held_block {?b} ?a c" for x c
        using d(5) [of x c] nohash [of c] held [of c] new
        by (cases "c < ?b"; cases "c = ?b") (auto simp: map_of_update nth_append new_block_def)
      show "map_of (free_table ?a) x = Some c \<longleftrightarrow> c < length (ca_heap ?a) \<and> block_hash (ca_heap ?a ! c) = x \<and> \<not> held_block {?b} ?a c" for x c
        using d(6) [of x c] held [of c] by (cases "c < ?b"; cases "c = ?b") (auto simp: nth_append)
      show "map_of (cached_blocks ?a) x = None \<or> map_of (free_table ?a) x = None" for x
        using d(7) [of x] new by (auto simp: map_of_update)
    qed (use d False in \<open>auto simp: nth_append new_block_def less_Suc_eq\<close>)
    with False show ?thesis by (auto simp: ca_allocate_block_def nth_append new_block_def less_Suc_eq)
  next
    case full: True
    show ?thesis
    proof (cases "free_table a")
      case Nil
      with full show ?thesis by (simp add: ca_allocate_block_def ev_evict_def)
    next
      case (Cons p ps)
      then have ne: "free_table a \<noteq> []" by simp
      have "block_hash (ca_heap a ! c) = k" if "(k, c) \<in> set (free_table a)" for k c
        using that d(3) d(6) [of k c] by simp
      from ev_evict_law [OF ne d(3) this] obtain b where ev: "ev_evict (ca_heap a) (free_table a)
          = Inr (b, (ca_heap a)[b := (ca_heap a ! b)\<lparr>computed := False\<rparr>], AList.delete (block_hash (ca_heap a ! b)) (free_table a))"
        and mk: "map_of (free_table a) (block_hash (ca_heap a ! b)) = Some b" by blast
      define g where "g = block_hash (ca_heap a ! b)"
      have b: "b < length (ca_heap a)" "ref_count (ca_heap a ! b) = 0"
        using mk d(6) [of _ b] d(4) [of b] by (auto simp: held_block_def)
      have g: "map_of (free_table a) g = Some b" "map_of (cached_blocks a) g = None" "g \<noteq> h"
        using mk d(7) [of g] new by (auto simp: g_def)
      let ?p = "(ca_heap a ! b)\<lparr>computed := False, block_hash := h, num_hashed := n\<rparr>"
      let ?a1 = "a\<lparr>ca_heap := (ca_heap a)[b := ?p], free_table := AList.delete g (free_table a)\<rparr>"
      let ?a = "?a1\<lparr>cached_blocks := AList.update h b (cached_blocks a)\<rparr>"
      have run: "ca_allocate_block h n a = Inr (b, ?a1)"
        using full b(1) by (simp add: ca_allocate_block_def ev g_def del: bindr_Inr_iff)
      have held: "held_block {b} ?a c \<longleftrightarrow> held_block {} a c \<or> c = b" for c
        using b by (cases "c = b") (auto simp: held_block_def)
      have uniq: "block_hash (ca_heap a ! c) = g \<longleftrightarrow> c = b" if "c < length (ca_heap a)" for c
        using hash_inject [OF assms(1) [unfolded ca_ok_def] that b(1)] unfolding g_def by blast
      have nb: "\<not> held_block {} a b" using b(2) by (simp add: held_block_def)
      have "ca_okx {b} ?a"
      proof (rule ca_okxI)
        show "map_of (cached_blocks ?a) x = Some c \<longleftrightarrow> c < length (ca_heap ?a) \<and> block_hash (ca_heap ?a ! c) = x \<and> held_block {b} ?a c" for x c
          unfolding held using b(1) d(5) [of x c] nohash [of c] nb new
          by (cases "x = h"; cases "c = b") (auto simp: map_of_update simp del: map_of_eq_Some_iff)
        show "map_of (free_table ?a) x = Some c \<longleftrightarrow> c < length (ca_heap ?a) \<and> block_hash (ca_heap ?a ! c) = x \<and> \<not> held_block {b} ?a c" for x c
          unfolding held using b(1) d(6) [of x c] uniq [of c] g
          by (cases "x = g"; cases "c = b") (auto simp: map_of_delete simp del: map_of_eq_Some_iff)
        show "map_of (cached_blocks ?a) x = None \<or> map_of (free_table ?a) x = None" for x
          using d(7) [of x] new by (auto simp: map_of_update map_of_delete)
        show "0 \<le> ref_count (ca_heap ?a ! c)" if "c < length (ca_heap ?a)" for c
          using that d(4) [of c] b by (cases "c = b") auto
      qed (use d in auto)
      with run full Cons b show ?thesis by auto
    qed
  qed
qed


text \<open>Changing the count of a referenced block, to a positive count, keeps the tables right.\<close>

lemma ca_upd_ok:
  assumes "ca_okx X a" "X \<subseteq> {b}" "b < length (ca_heap a)" "held_block X a b"
    and "block_hash (f (ca_heap a ! b)) = block_hash (ca_heap a ! b)" "0 < ref_count (f (ca_heap a ! b))"
  shows "ca_ok (ca_upd b f a)"
  unfolding ca_ok_def
proof (rule ca_okxI)
  note d = ca_okxD [OF assms(1)]
  have held: "held_block {} (ca_upd b f a) c \<longleftrightarrow> held_block X a c" if "c < length (ca_heap a)" for c
    using that assms(2-6) by (cases "c = b") (auto simp: held_block_def ca_upd_def)
  have heap: "ca_heap (ca_upd b f a) ! c = (if c = b then f (ca_heap a ! b) else ca_heap a ! c)" for c
    using assms(3) by (simp add: ca_upd_def nth_list_update)
  have hash: "block_hash (ca_heap (ca_upd b f a) ! c) = block_hash (ca_heap a ! c)" for c using assms(5) by (simp add: heap)
  have same: "length (ca_heap (ca_upd b f a)) = length (ca_heap a)" "cached_blocks (ca_upd b f a) = cached_blocks a"
    "free_table (ca_upd b f a) = free_table a" "ca_total (ca_upd b f a) = ca_total a" by (simp_all add: ca_upd_def)
  show "map_of (cached_blocks (ca_upd b f a)) x = Some c \<longleftrightarrow> c < length (ca_heap (ca_upd b f a))
      \<and> block_hash (ca_heap (ca_upd b f a) ! c) = x \<and> held_block {} (ca_upd b f a) c" for x c
    unfolding same hash d(5) using held [of c] by blast
  show "map_of (free_table (ca_upd b f a)) x = Some c \<longleftrightarrow> c < length (ca_heap (ca_upd b f a))
      \<and> block_hash (ca_heap (ca_upd b f a) ! c) = x \<and> \<not> held_block {} (ca_upd b f a) c" for x c
    unfolding same hash d(6) using held [of c] by blast
  show "0 \<le> ref_count (ca_heap (ca_upd b f a) ! c)" if "c < length (ca_heap (ca_upd b f a))" for c
    using that d(4) [of c] assms(6) by (simp add: same heap)
  show "map_of (cached_blocks (ca_upd b f a)) x = None \<or> map_of (free_table (ca_upd b f a)) x = None" for x
    unfolding same by (rule d(7))
qed (use ca_okxD(1-3) [OF assms(1)] in \<open>simp_all add: ca_upd_def\<close>)

lemma ca_take_law:
  assumes "ca_okx X a" "map_of (cached_blocks a) h = Some b" "X \<subseteq> {b}"
  shows "ca_take h a = Inr (b, ca_upd b (\<lambda>p. p\<lparr>ref_count := ref_count p + 1\<rparr>) a)
     \<and> ca_ok (ca_upd b (\<lambda>p. p\<lparr>ref_count := ref_count p + 1\<rparr>) a) \<and> b < length (ca_heap a) \<and> block_hash (ca_heap a ! b) = h"
proof -
  note d = ca_okxD [OF assms(1)]
  have b: "b < length (ca_heap a)" "block_hash (ca_heap a ! b) = h" "held_block X a b"
    using assms(2) unfolding d(5) by blast+
  have "ca_ok (ca_upd b (\<lambda>p. p\<lparr>ref_count := ref_count p + 1\<rparr>) a)"
    using b d(4) [OF b(1)] by (intro ca_upd_ok [OF assms(1,3)]) simp_all
  then show ?thesis using b assms(2) by (simp add: ca_take_def del: map_of_eq_Some_iff)
qed

lemma ca_okx_metric [simp]: "ca_okx X (a\<lparr>cache_metric_data := m\<rparr>) = ca_okx X a"
  "ca_okx X (a\<lparr>default_hash_ctr := c\<rparr>) = ca_okx X a"
  by (simp_all add: ca_okx_def held_block_def)

lemma ca_allocate_hash_law:
  assumes "ca_ok a"
  shows "if \<not> ca_contains h a \<and> length (ca_heap a) = ca_total a \<and> free_table a = []
     then bindr (ca_revive h a) (\<lambda>a1. bindr (ca_lookup h n a1) (ca_take h)) = Inl ValueError
     else \<exists>b a'. bindr (ca_revive h a) (\<lambda>a1. bindr (ca_lookup h n a1) (ca_take h)) = Inr (b, a')
        \<and> ca_ok a' \<and> ca_total a' = ca_total a \<and> b < length (ca_heap a') \<and> length (ca_heap a) \<le> length (ca_heap a')
        \<and> block_hash (ca_heap a' ! b) = h \<and> (b < length (ca_heap a) \<and> 0 < ref_count (ca_heap a ! b) \<longrightarrow> block_hash (ca_heap a ! b) = h)
        \<and> ref_count (ca_heap a' ! b) = (if b < length (ca_heap a) then ref_count (ca_heap a ! b) else 0) + 1
        \<and> (\<forall>c < length (ca_heap a'). c \<noteq> b \<longrightarrow> c < length (ca_heap a) \<and> ca_heap a' ! c = ca_heap a ! c)"
proof -
  obtain a1 X where r: "ca_revive h a = Inr a1" "ca_okx X a1" "ca_heap a1 = ca_heap a" "ca_total a1 = ca_total a"
    "X = {b. map_of (free_table a) h = Some b}" "map_of (cached_blocks a1) h = None \<longleftrightarrow> \<not> ca_contains h a"
    "\<not> ca_contains h a \<longrightarrow> a1 = a" using ca_revive_law [OF assms, of h] by (elim exE conjE) (rule that)
  show ?thesis
  proof (cases "ca_contains h a")
    case True
    then obtain b where b: "map_of (cached_blocks a1) h = Some b" using r(6) by auto
    let ?a = "a1\<lparr>cache_metric_data := metric_query True (cache_metric_data a1)\<rparr>"
    have lk: "ca_lookup h n a1 = Inr ?a" using b by (simp add: ca_lookup_def dhas_map_of)
    have bX: "b < length (ca_heap a)" "held_block X a1 b" "block_hash (ca_heap a ! b) = h"
      using b ca_okxD(5) [OF r(2), of h b] r(3) by simp_all
    have "X \<subseteq> {b}"
    proof
      fix c assume "c \<in> X"
      then have "c < length (ca_heap a)" "block_hash (ca_heap a ! c) = h"
        using ca_okxD(6) [OF assms [unfolded ca_ok_def], of h c] r(5) by simp_all
      then show "c \<in> {b}" using hash_inject [OF assms [unfolded ca_ok_def], of c b] bX by simp
    qed
    then have t: "ca_take h ?a = Inr (b, ca_upd b (\<lambda>p. p\<lparr>ref_count := ref_count p + 1\<rparr>) ?a)"
      "ca_ok (ca_upd b (\<lambda>p. p\<lparr>ref_count := ref_count p + 1\<rparr>) ?a)"
      using ca_take_law [of X ?a h b] r(2) b by simp_all
    with True r(1,3,4) lk bX show ?thesis by (simp add: ca_upd_def nth_list_update del: bindr_Inr_iff)
  next
    case False
    then have a1: "a1 = a" using r(7) by simp
    let ?m = "a\<lparr>cache_metric_data := metric_query False (cache_metric_data a)\<rparr>"
    have ok: "ca_ok ?m" "\<not> ca_contains h ?m" using assms False by (simp_all add: ca_ok_def ca_contains_def)
    have nc: "\<not> dhas (cached_blocks a) h" using False by (simp add: ca_contains_def)
    note blk = ca_allocate_block_law [OF ok, of n]
    show ?thesis
    proof (cases "length (ca_heap a) = ca_total a \<and> free_table a = []")
      case full: True
      with blk have "ca_allocate_block h n ?m = Inl ValueError" by simp
      with full False nc r(1) a1 show ?thesis by (simp add: ca_lookup_def)
    next
      case room: False
      with blk obtain b a2 where a2: "ca_allocate_block h n ?m = Inr (b, a2)"
        "ca_okx {b} (a2\<lparr>cached_blocks := AList.update h b (cached_blocks a2)\<rparr>)" "ca_total a2 = ca_total a"
        "b < length (ca_heap a2)" "length (ca_heap a) \<le> length (ca_heap a2)" "block_hash (ca_heap a2 ! b) = h"
        "ref_count (ca_heap a2 ! b) = 0" "b < length (ca_heap a) \<longrightarrow> ref_count (ca_heap a ! b) = 0"
        "\<forall>c < length (ca_heap a2). c \<noteq> b \<longrightarrow> c < length (ca_heap a) \<and> ca_heap a2 ! c = ca_heap a ! c" by auto
      let ?a = "a2\<lparr>cached_blocks := AList.update h b (cached_blocks a2)\<rparr>"
      have lk: "ca_lookup h n a = Inr ?a" using nc a2(1) by (simp add: ca_lookup_def del: bindr_Inr_iff)
      have t: "ca_take h ?a = Inr (b, ca_upd b (\<lambda>p. p\<lparr>ref_count := ref_count p + 1\<rparr>) ?a)"
        "ca_ok (ca_upd b (\<lambda>p. p\<lparr>ref_count := ref_count p + 1\<rparr>) ?a)"
        using ca_take_law [OF a2(2), of h b] by (simp_all add: map_of_update del: map_of_eq_Some_iff)
      with False room r(1) a1 lk a2(3-9) show ?thesis
        by (simp add: ca_upd_def nth_list_update del: bindr_Inr_iff)
    qed
  qed
qed


lemma ca_free_law:
  assumes "ca_ok a" "b < length (ca_heap a)"
  shows "if ref_count (ca_heap a ! b) = 0 then ca_free b a = Inl ValueError
     else \<exists>a'. ca_free b a = Inr a' \<and> ca_ok a' \<and> ca_total a' = ca_total a
        \<and> ca_heap a' = (ca_heap a)[b := (ca_heap a ! b)\<lparr>ref_count := ref_count (ca_heap a ! b) - 1\<rparr>]"
proof (cases "ref_count (ca_heap a ! b) = 0")
  case False
  note d = ca_okxD [OF assms(1) [unfolded ca_ok_def]]
  have pos: "0 < ref_count (ca_heap a ! b)" using d(4) [OF assms(2)] False by simp
  let ?f = "\<lambda>p. p\<lparr>ref_count := ref_count p - 1\<rparr>" and ?h = "block_hash (ca_heap a ! b)"
  let ?a1 = "ca_upd b ?f a"
  have mc: "map_of (cached_blocks a) ?h = Some b" using d(5) assms(2) pos by (auto simp: held_block_def)
  have mf: "map_of (free_table a) ?h = None" using d(7) [of ?h] mc by simp
  show ?thesis
  proof (cases "ref_count (ca_heap a ! b) = 1")
    case more: False
    then have "ca_ok ?a1" using pos assms
      by (intro ca_upd_ok [of "{}"]) (simp_all add: ca_ok_def held_block_def)
    with False more assms(2) show ?thesis by (simp add: ca_free_def ca_upd_def Let_def)
  next
    case last: True
    let ?a = "?a1\<lparr>free_table := AList.update ?h b (free_table a), cached_blocks := AList.delete ?h (cached_blocks a)\<rparr>"
    have run: "ca_free b a = Inr ?a"
      using False last assms(2) mc mf by (simp add: ca_free_def ca_upd_def Let_def ev_add_def dhas_map_of)
    have uniq: "block_hash (ca_heap a ! c) = ?h \<longleftrightarrow> c = b" if "c < length (ca_heap a)" for c
      using hash_inject [OF assms(1) [unfolded ca_ok_def] that assms(2)] by blast
    have held: "held_block {} ?a c \<longleftrightarrow> held_block {} a c \<and> c \<noteq> b" for c
      using assms(2) last by (cases "c = b") (simp_all add: held_block_def ca_upd_def)
    have hash: "block_hash (ca_heap ?a ! c) = block_hash (ca_heap a ! c)" for c
      using assms(2) by (simp add: ca_upd_def nth_list_update)
    have len: "length (ca_heap ?a) = length (ca_heap a)" by (simp add: ca_upd_def)
    have "ca_okx {} ?a"
    proof (rule ca_okxI)
      show "map_of (cached_blocks ?a) x = Some c \<longleftrightarrow> c < length (ca_heap ?a) \<and> block_hash (ca_heap ?a ! c) = x \<and> held_block {} ?a c" for x c
        unfolding held hash len using d(5) [of x c] uniq [of c] mc
        by (cases "c < length (ca_heap a)"; cases "x = ?h"; cases "c = b") (auto simp: map_of_delete simp del: map_of_eq_Some_iff)
      show "map_of (free_table ?a) x = Some c \<longleftrightarrow> c < length (ca_heap ?a) \<and> block_hash (ca_heap ?a ! c) = x \<and> \<not> held_block {} ?a c" for x c
        unfolding held hash len using d(6) [of x c] uniq [of c] assms(2)
        by (cases "c < length (ca_heap a)"; cases "x = ?h"; cases "c = b") (auto simp: map_of_update simp del: map_of_eq_Some_iff)
      show "map_of (cached_blocks ?a) x = None \<or> map_of (free_table ?a) x = None" for x
        using d(7) [of x] by (auto simp: map_of_update map_of_delete)
      show "0 \<le> ref_count (ca_heap ?a ! c)" if "c < length (ca_heap ?a)" for c
        using that d(4) [of c] last assms(2) by (cases "c = b") (simp_all add: ca_upd_def)
    qed (use d(1-3) in \<open>simp_all add: ca_upd_def\<close>)
    with run False show ?thesis by (simp add: ca_ok_def ca_upd_def)
  qed
qed (simp add: ca_free_def)

lemma ca_update_hash_law:
  assumes "ca_ok a" "b < length (ca_heap a)" "0 < ref_count (ca_heap a ! b)" "\<not> ca_contains h a"
  shows "\<exists>a'. ca_update_hash h b a = Inr a' \<and> ca_ok a' \<and> ca_total a' = ca_total a
     \<and> ca_heap a' = (ca_heap a)[b := (ca_heap a ! b)\<lparr>block_hash := h\<rparr>]"
proof -
  note d = ca_okxD [OF assms(1) [unfolded ca_ok_def]]
  let ?old = "block_hash (ca_heap a ! b)" and ?a1 = "ca_upd b (\<lambda>p. p\<lparr>block_hash := h\<rparr>) a"
  let ?a = "?a1\<lparr>cached_blocks := AList.update h b (AList.delete ?old (cached_blocks a))\<rparr>"
  have new: "map_of (cached_blocks a) h = None" "map_of (free_table a) h = None"
    using assms(4) by (simp_all add: ca_contains_def dhas_map_of)
  have mc: "map_of (cached_blocks a) ?old = Some b" using d(5) assms(2,3) by (auto simp: held_block_def)
  have run: "ca_update_hash h b a = Inr ?a" using assms(4) mc by (simp add: ca_update_hash_def ca_upd_def Let_def)
  have nohash: "block_hash (ca_heap a ! c) \<noteq> h" if "c < length (ca_heap a)" for c
    using d(5,6) [of h c] new that by auto
  have uniq: "block_hash (ca_heap a ! c) = ?old \<longleftrightarrow> c = b" if "c < length (ca_heap a)" for c
    using hash_inject [OF assms(1) [unfolded ca_ok_def] that assms(2)] by blast
  have held: "held_block {} ?a c \<longleftrightarrow> held_block {} a c" for c
    using assms(2) by (cases "c = b") (simp_all add: held_block_def ca_upd_def)
  have hash: "block_hash (ca_heap ?a ! c) = (if c = b then h else block_hash (ca_heap a ! c))" for c
    using assms(2) by (simp add: ca_upd_def)
  have len: "length (ca_heap ?a) = length (ca_heap a)" by (simp add: ca_upd_def)
  have hb: "held_block {} a b" using assms(3) by (simp add: held_block_def)
  have "ca_okx {} ?a"
  proof (rule ca_okxI)
    show "map_of (cached_blocks ?a) x = Some c \<longleftrightarrow> c < length (ca_heap ?a) \<and> block_hash (ca_heap ?a ! c) = x \<and> held_block {} ?a c" for x c
      unfolding held hash len using d(5) [of x c] uniq [of c] nohash [of c] nohash [of b] assms(2) hb
      by (cases "c < length (ca_heap a)"; cases "x = h"; cases "x = ?old"; cases "c = b")
        (auto simp: map_of_update map_of_delete simp del: map_of_eq_Some_iff)
    show "map_of (free_table ?a) x = Some c \<longleftrightarrow> c < length (ca_heap ?a) \<and> block_hash (ca_heap ?a ! c) = x \<and> \<not> held_block {} ?a c" for x c
      unfolding held hash len using d(6) [of x c] hb by (cases "c = b") (auto simp: ca_upd_def simp del: map_of_eq_Some_iff)
    show "map_of (cached_blocks ?a) x = None \<or> map_of (free_table ?a) x = None" for x
      using d(7) [of x] new by (auto simp: map_of_update map_of_delete ca_upd_def)
    show "0 \<le> ref_count (ca_heap ?a ! c)" if "c < length (ca_heap ?a)" for c
      using that d(4) [of c] assms(2) by (cases "c = b") (simp_all add: ca_upd_def)
  qed (use d(1-3) in \<open>simp_all add: ca_upd_def\<close>)
  with run show ?thesis by (simp add: ca_ok_def ca_upd_def)
qed

lemma new_cached_ok: "ca_ok (new_cached n)"
  by (simp add: ca_ok_def ca_okx_def new_cached_def)

section \<open>Invariant of the plain allocator\<close>

definition ua_ok :: "uncached_allocator \<Rightarrow> bool" where
  "ua_ok a \<longleftrightarrow> length (ua_heap a) = ua_total a \<and> distinct (free_blocks a)
     \<and> (\<forall>b < length (ua_heap a). 0 \<le> ref_count (ua_heap a ! b))
     \<and> (\<forall>b. b \<in> set (free_blocks a) \<longleftrightarrow> b < length (ua_heap a) \<and> ref_count (ua_heap a ! b) = 0)"

lemma new_uncached_ok: "ua_ok (new_uncached n)"
  by (auto simp: ua_ok_def new_uncached_def new_block_def)

lemma ua_allocate_law:
  assumes "ua_ok a"
  shows "if free_blocks a = [] then ua_allocate a = Inl ValueError
     else \<exists>b a'. ua_allocate a = Inr (b, a') \<and> ua_ok a' \<and> ua_total a' = ua_total a \<and> b < length (ua_heap a)
        \<and> ref_count (ua_heap a ! b) = 0 \<and> ua_heap a' = (ua_heap a)[b := (ua_heap a ! b)\<lparr>ref_count := 1\<rparr>]"
proof (cases "free_blocks a = []")
  case False
  define b where "b = last (free_blocks a)"
  have fb: "free_blocks a = butlast (free_blocks a) @ [b]" using False by (simp add: b_def)
  then have b: "b \<in> set (free_blocks a)" by (metis in_set_conv_decomp)
  have "distinct (butlast (free_blocks a) @ [b])" using assms fb by (simp add: ua_ok_def)
  then have nb: "b \<notin> set (butlast (free_blocks a))" "distinct (butlast (free_blocks a))" by simp_all
  have set: "x \<in> set (butlast (free_blocks a)) \<longleftrightarrow> x \<in> set (free_blocks a) \<and> x \<noteq> b" for x
    using nb(1) arg_cong [OF fb, of set] by auto
  have "ua_ok (ua_upd b (\<lambda>p. p\<lparr>ref_count := 1\<rparr>) (a\<lparr>free_blocks := butlast (free_blocks a)\<rparr>))"
    using assms b nb(2) by (auto simp: ua_ok_def ua_upd_def set nth_list_update)
  with False b assms show ?thesis by (auto simp: ua_allocate_def ua_upd_def ua_ok_def b_def Let_def)
qed (simp add: ua_allocate_def)

lemma ua_free_law:
  assumes "ua_ok a" "b < length (ua_heap a)"
  shows "if ref_count (ua_heap a ! b) = 0 then ua_free b a = Inl ValueError
     else \<exists>a'. ua_free b a = Inr a' \<and> ua_ok a' \<and> ua_total a' = ua_total a
        \<and> ua_heap a' = (ua_heap a)[b := (ua_heap a ! b)\<lparr>ref_count := ref_count (ua_heap a ! b) - 1\<rparr>]"
proof (cases "ref_count (ua_heap a ! b) = 0")
  case False
  then have nf: "b \<notin> set (free_blocks a)" "0 < ref_count (ua_heap a ! b)"
    using assms by (auto simp: ua_ok_def less_le)
  show ?thesis
  proof (cases "ref_count (ua_heap a ! b) = 1")
    case True
    with False nf assms show ?thesis
      by (auto simp: ua_free_def ua_upd_def Let_def ua_ok_def nth_list_update)
  next
    case more: False
    with False nf assms show ?thesis
      by (auto simp: ua_free_def ua_upd_def Let_def ua_ok_def nth_list_update)
  qed
qed (simp add: ua_free_def)


section \<open>The contract of an allocator\<close>

text \<open>
  What the block manager relies on: allocation raises the count of one block by one and fails only
  when no block is free, release lowers it, a referenced block may be given any positive
  count, and the number of free blocks is what the unreferenced blocks leave.
\<close>

locale block_allocator =
  fixes ok :: "'a \<Rightarrow> bool" and refs :: "'a \<Rightarrow> nat \<Rightarrow> int" and total :: "'a \<Rightarrow> int" and num_free :: "'a \<Rightarrow> int"
    and alloc :: "int option \<Rightarrow> int \<Rightarrow> 'a \<Rightarrow> (nat \<times> 'a) result"
    and release :: "nat \<Rightarrow> 'a \<Rightarrow> 'a result"
    and set_refs :: "nat \<Rightarrow> int \<Rightarrow> 'a \<Rightarrow> 'a"
  assumes refs_nonneg: "ok a \<Longrightarrow> 0 \<le> refs a b"
    and used_finite: "ok a \<Longrightarrow> finite {b. 0 < refs a b}"
    and num_free_def: "ok a \<Longrightarrow> num_free a = total a - int (card {b. 0 < refs a b})"
    and alloc_law: "ok a \<Longrightarrow> alloc h n a = Inl ValueError \<and> num_free a = 0
        \<or> (\<exists>b a'. alloc h n a = Inr (b, a') \<and> ok a' \<and> total a' = total a \<and> refs a' = (refs a)(b := refs a b + 1))"
    and release_law: "ok a \<Longrightarrow> 0 < refs a b \<Longrightarrow>
        \<exists>a'. release b a = Inr a' \<and> ok a' \<and> total a' = total a \<and> refs a' = (refs a)(b := refs a b - 1)"
    and set_refs_law: "ok a \<Longrightarrow> 0 < refs a b \<Longrightarrow> 0 < k \<Longrightarrow>
        ok (set_refs b k a) \<and> total (set_refs b k a) = total a \<and> refs (set_refs b k a) = (refs a)(b := k)"
begin

lemma num_free_nonneg_alloc:
  assumes "ok a" "0 < num_free a"
  obtains b a' where "alloc h n a = Inr (b, a')" "ok a'" "total a' = total a" "refs a' = (refs a)(b := refs a b + 1)"
    "num_free a - 1 \<le> num_free a'"
proof -
  from alloc_law [OF assms(1), of h n] assms(2) obtain b a' where
    a': "alloc h n a = Inr (b, a')" "ok a'" "total a' = total a" "refs a' = (refs a)(b := refs a b + 1)" by auto
  have "{c. 0 < refs a' c} \<subseteq> insert b {c. 0 < refs a c}" using a'(4) by auto
  then have "card {c. 0 < refs a' c} \<le> card (insert b {c. 0 < refs a c})"
    using used_finite [OF assms(1)] by (intro card_mono) auto
  also have "\<dots> \<le> card {c. 0 < refs a c} + 1" using used_finite [OF assms(1)] by (simp add: card_insert_if)
  finally have "num_free a - 1 \<le> num_free a'"
    using num_free_def [OF assms(1)] num_free_def [OF a'(2)] a'(3) by simp
  with a' show thesis by (rule that)
qed

lemma release_free:
  assumes "ok a" "0 < refs a b" "release b a = Inr a'"
  shows "num_free a \<le> num_free a'"
proof -
  from release_law [OF assms(1,2)] assms(3) have a': "ok a'" "total a' = total a" "refs a' = (refs a)(b := refs a b - 1)" by auto
  have "{c. 0 < refs a' c} \<subseteq> {c. 0 < refs a c}" using a'(3) assms(2) by (auto split: if_splits)
  then have "card {c. 0 < refs a' c} \<le> card {c. 0 < refs a c}" by (rule card_mono [OF used_finite [OF assms(1)]])
  then show ?thesis using num_free_def [OF assms(1)] num_free_def [OF a'(1)] a'(2) by simp
qed

lemma set_refs_free:
  assumes "ok a" "0 < refs a b" "0 < k"
  shows "num_free (set_refs b k a) = num_free a"
proof -
  note l = set_refs_law [OF assms]
  have "{c. 0 < refs (set_refs b k a) c} = {c. 0 < refs a c}" using l assms(2,3) by auto
  then show ?thesis using num_free_def [OF assms(1)] num_free_def [of "set_refs b k a"] l by simp
qed

end

fun al_ok :: "allocator \<Rightarrow> bool" where
  "al_ok (Cached a) = ca_ok a"
| "al_ok (Uncached a) = ua_ok a"

definition al_set_refs :: "nat \<Rightarrow> int \<Rightarrow> allocator \<Rightarrow> allocator" where
  "al_set_refs b k a = al_upd b (\<lambda>p. p\<lparr>ref_count := k\<rparr>) a"

lemma al_refs_nonneg: "al_ok a \<Longrightarrow> 0 \<le> al_refs a b"
  by (cases a) (auto simp: al_refs_def ca_ok_def ua_ok_def dest: ca_okxD(4))

lemma al_used_finite: "finite {b. 0 < al_refs a b}"
  by (rule finite_subset [of _ "{..<length (al_heap a)}"]) (auto simp: al_refs_def split: if_splits)

lemma free_table_card:
  assumes "ca_ok a"
  shows "int (length (free_table a)) = int (length (ca_heap a)) - int (card {b. 0 < al_refs (Cached a) b})"
proof -
  note d = ca_okxD [OF assms [unfolded ca_ok_def]]
  let ?n = "length (ca_heap a)"
  have img: "snd ` set (free_table a) = {b. b < ?n \<and> ref_count (ca_heap a ! b) = 0}"
  proof (intro set_eqI iffI)
    fix b assume "b \<in> snd ` set (free_table a)"
    then obtain h where "map_of (free_table a) h = Some b" using d(3) by auto
    then show "b \<in> {b. b < ?n \<and> ref_count (ca_heap a ! b) = 0}"
      using d(6) [of h b] d(4) [of b] by (simp add: held_block_def)
  next
    fix b assume "b \<in> {b. b < ?n \<and> ref_count (ca_heap a ! b) = 0}"
    then have "map_of (free_table a) (block_hash (ca_heap a ! b)) = Some b"
      using d(6) by (simp add: held_block_def del: map_of_eq_Some_iff)
    then show "b \<in> snd ` set (free_table a)" by (force dest: map_of_SomeD)
  qed
  have "inj_on snd (set (free_table a))"
  proof (rule inj_onI)
    fix p q assume pq: "p \<in> set (free_table a)" "q \<in> set (free_table a)" "snd p = snd q"
    have "map_of (free_table a) (fst p) = Some (snd p)" using pq(1) d(3) by simp
    moreover have "map_of (free_table a) (fst q) = Some (snd q)" using pq(2) d(3) by simp
    ultimately have "fst p = fst q" using d(6) pq(3) by metis
    with pq(3) show "p = q" by (simp add: prod_eq_iff)
  qed
  then have "card (snd ` set (free_table a)) = length (free_table a)"
    using d(3) by (simp add: card_image distinct_card distinct_map)
  moreover have "{b. b < ?n \<and> ref_count (ca_heap a ! b) = 0} = {..<?n} - {b. 0 < al_refs (Cached a) b}"
    using d(4) by (force simp: al_refs_def less_le)
  moreover have sub: "{b. 0 < al_refs (Cached a) b} \<subseteq> {..<?n}" by (auto simp: al_refs_def split: if_splits)
  moreover have "card ({..<?n} - {b. 0 < al_refs (Cached a) b}) = ?n - card {b. 0 < al_refs (Cached a) b}"
    using sub by (simp add: card_Diff_subset al_used_finite)
  moreover have "card {b. 0 < al_refs (Cached a) b} \<le> ?n" using card_mono [OF _ sub] by simp
  ultimately show ?thesis using img by (simp add: of_nat_diff)
qed

lemma free_blocks_card:
  assumes "ua_ok a"
  shows "int (length (free_blocks a)) = int (ua_total a) - int (card {b. 0 < al_refs (Uncached a) b})"
proof -
  let ?n = "ua_total a" and ?U = "{b. 0 < al_refs (Uncached a) b}"
  have sub: "?U \<subseteq> {..<?n}" using assms by (auto simp: al_refs_def ua_ok_def split: if_splits)
  have "set (free_blocks a) = {..<?n} - ?U" using assms by (force simp: al_refs_def ua_ok_def less_le)
  then have "card (set (free_blocks a)) = ?n - card ?U" using sub by (simp add: card_Diff_subset al_used_finite)
  moreover have "card (set (free_blocks a)) = length (free_blocks a)" using assms by (simp add: ua_ok_def distinct_card)
  moreover have "card ?U \<le> ?n" using card_mono [OF _ sub] by simp
  ultimately show ?thesis by (simp add: of_nat_diff)
qed

lemma al_num_free_card: "al_ok a \<Longrightarrow> al_num_free a = al_num_total a - int (card {b. 0 < al_refs a b})"
  using free_table_card free_blocks_card by (cases a) (simp_all add: ca_num_free_def ua_num_free_def)

lemma al_allocate_law:
  assumes "al_ok a"
  shows "al_allocate h n a = Inl ValueError \<and> al_num_free a = 0
     \<or> (\<exists>b a'. al_allocate h n a = Inr (b, a') \<and> al_ok a' \<and> al_num_total a' = al_num_total a
          \<and> al_refs a' = (al_refs a)(b := al_refs a b + 1))"
proof (cases a)
  case (Uncached u)
  then have u: "ua_ok u" using assms by simp
  show ?thesis
  proof (cases "free_blocks u = []")
    case True
    with ua_allocate_law [OF u] Uncached show ?thesis by (simp add: ua_num_free_def)
  next
    case False
    with ua_allocate_law [OF u] obtain b u' where b: "ua_allocate u = Inr (b, u')" "ua_ok u'" "ua_total u' = ua_total u"
      "b < length (ua_heap u)" "ref_count (ua_heap u ! b) = 0" "ua_heap u' = (ua_heap u)[b := (ua_heap u ! b)\<lparr>ref_count := 1\<rparr>]"
      by auto
    then have "al_refs (Uncached u') = (al_refs (Uncached u))(b := al_refs (Uncached u) b + 1)"
      by (auto simp: al_refs_def fun_eq_iff)
    with b Uncached show ?thesis by (auto simp del: fun_upd_apply)
  qed
next
  case (Cached c)
  then have c: "ca_ok c" using assms by simp
  define h' where "h' = (case h of None \<Rightarrow> default_hash_ctr c | Some x \<Rightarrow> x)"
  define c' where "c' = (case h of None \<Rightarrow> c\<lparr>default_hash_ctr := default_hash_ctr c + 1\<rparr> | Some _ \<Rightarrow> c)"
  have run: "ca_allocate h n c = bindr (ca_revive h' c') (\<lambda>a1. bindr (ca_lookup h' n a1) (ca_take h'))"
    by (cases h) (simp_all add: ca_allocate_def h'_def c'_def Let_def)
  have ok: "ca_ok c'" and same: "ca_heap c' = ca_heap c" "ca_total c' = ca_total c" "free_table c' = free_table c"
    using c by (cases h; simp add: c'_def ca_ok_def)+
  note law = ca_allocate_hash_law [OF ok, of h' n, folded run, unfolded same]
  show ?thesis
  proof (cases "\<not> ca_contains h' c' \<and> length (ca_heap c) = ca_total c \<and> free_table c = []")
    case True
    with law Cached show ?thesis by (simp add: ca_num_free_def)
  next
    case False
    with law obtain b d where b: "ca_allocate h n c = Inr (b, d)" "ca_ok d" "ca_total d = ca_total c" "b < length (ca_heap d)"
      "length (ca_heap c) \<le> length (ca_heap d)"
      "ref_count (ca_heap d ! b) = (if b < length (ca_heap c) then ref_count (ca_heap c ! b) else 0) + 1"
      "\<forall>x < length (ca_heap d). x \<noteq> b \<longrightarrow> x < length (ca_heap c) \<and> ca_heap d ! x = ca_heap c ! x" by auto
    then have "al_refs (Cached d) = (al_refs (Cached c))(b := al_refs (Cached c) b + 1)"
      by (auto simp: al_refs_def fun_eq_iff)
    with b Cached show ?thesis by (auto simp del: fun_upd_apply)
  qed
qed

lemma al_free_law:
  assumes "al_ok a" "0 < al_refs a b"
  shows "\<exists>a'. al_free b a = Inr a' \<and> al_ok a' \<and> al_num_total a' = al_num_total a \<and> al_refs a' = (al_refs a)(b := al_refs a b - 1)"
proof (cases a)
  case (Uncached u)
  with assms have b: "b < length (ua_heap u)" "ref_count (ua_heap u ! b) \<noteq> 0" by (auto simp: al_refs_def split: if_splits)
  from ua_free_law [of u b] Uncached assms(1) b obtain u' where u': "ua_free b u = Inr u'" "ua_ok u'" "ua_total u' = ua_total u"
    "ua_heap u' = (ua_heap u)[b := (ua_heap u ! b)\<lparr>ref_count := ref_count (ua_heap u ! b) - 1\<rparr>]" by auto
  then have "al_refs (Uncached u') = (al_refs (Uncached u))(b := al_refs (Uncached u) b - 1)"
    using b by (auto simp: al_refs_def fun_eq_iff)
  with u' Uncached show ?thesis by (auto simp del: fun_upd_apply)
next
  case (Cached c)
  with assms have b: "b < length (ca_heap c)" "ref_count (ca_heap c ! b) \<noteq> 0" by (auto simp: al_refs_def split: if_splits)
  from ca_free_law [of c b] Cached assms(1) b obtain c' where c': "ca_free b c = Inr c'" "ca_ok c'" "ca_total c' = ca_total c"
    "ca_heap c' = (ca_heap c)[b := (ca_heap c ! b)\<lparr>ref_count := ref_count (ca_heap c ! b) - 1\<rparr>]" by auto
  then have "al_refs (Cached c') = (al_refs (Cached c))(b := al_refs (Cached c) b - 1)"
    using b by (auto simp: al_refs_def fun_eq_iff)
  with c' Cached show ?thesis by (auto simp del: fun_upd_apply)
qed

text \<open>Changing a referenced block in place, as \<open>block.ref_count += 1\<close> or \<open>block.computed = True\<close> do.\<close>

lemma al_upd_law:
  assumes "al_ok a" "0 < al_refs a b" "\<And>p. block_hash (f p) = block_hash p" "0 < ref_count (f (al_heap a ! b))"
  shows "al_ok (al_upd b f a) \<and> al_num_total (al_upd b f a) = al_num_total a
     \<and> al_refs (al_upd b f a) = (al_refs a)(b := ref_count (f (al_heap a ! b)))"
proof (cases a)
  case (Uncached u)
  with assms have "b < length (ua_heap u)" "0 < ref_count (ua_heap u ! b)" by (auto simp: al_refs_def split: if_splits)
  with Uncached assms(1,4) show ?thesis
    by (auto simp: al_refs_def ua_upd_def ua_ok_def fun_eq_iff nth_list_update)
next
  case (Cached c)
  with assms have b: "b < length (ca_heap c)" "0 < ref_count (ca_heap c ! b)" by (auto simp: al_refs_def split: if_splits)
  then have "ca_ok (ca_upd b f c)"
    using assms(1,3,4) Cached by (intro ca_upd_ok [of "{}"]) (simp_all add: ca_ok_def held_block_def)
  with b Cached show ?thesis by (auto simp: al_refs_def ca_upd_def fun_eq_iff)
qed

lemma al_set_refs_law:
  assumes "al_ok a" "0 < al_refs a b" "0 < k"
  shows "al_ok (al_set_refs b k a) \<and> al_num_total (al_set_refs b k a) = al_num_total a \<and> al_refs (al_set_refs b k a) = (al_refs a)(b := k)"
  using al_upd_law [OF assms(1,2), of "\<lambda>p. p\<lparr>ref_count := k\<rparr>"] assms(3) by (simp add: al_set_refs_def)

fun al_caching :: "allocator \<Rightarrow> bool" where
  "al_caching (Cached a) = True"
| "al_caching (Uncached a) = False"

lemma al_caching_upd [simp]: "al_caching (al_upd b f a) = al_caching a"
  by (cases a) simp_all

lemma al_heap_upd [simp]: "al_heap (al_upd b f a) = (al_heap a)[b := f (al_heap a ! b)]"
  by (cases a) (simp_all add: ca_upd_def ua_upd_def)

text \<open>
  Allocation changes one block only.  The plain allocator hands out an unreferenced block; the caching one
  hands out the block of the hash, which is an unreferenced one or the one that already has this hash.
\<close>

lemma al_allocate_block:
  assumes "al_ok a" "al_allocate h n a = Inr (b, a')"
  shows "al_caching a' = al_caching a" "b < length (al_heap a')" "length (al_heap a) \<le> length (al_heap a')"
    and "c < length (al_heap a) \<Longrightarrow> c \<noteq> b \<Longrightarrow> al_heap a' ! c = al_heap a ! c"
    and "\<not> al_caching a \<Longrightarrow> al_refs a b = 0"
    and "al_caching a \<Longrightarrow> h = Some x \<Longrightarrow> block_hash (al_heap a' ! b) = x"
    and "al_caching a \<Longrightarrow> h = Some x \<Longrightarrow> 0 < al_refs a b \<Longrightarrow> block_hash (al_heap a ! b) = x"
proof -
  have "al_caching a' = al_caching a \<and> b < length (al_heap a') \<and> length (al_heap a) \<le> length (al_heap a')
    \<and> (c < length (al_heap a) \<longrightarrow> c \<noteq> b \<longrightarrow> al_heap a' ! c = al_heap a ! c) \<and> (\<not> al_caching a \<longrightarrow> al_refs a b = 0)
    \<and> (al_caching a \<longrightarrow> h = Some x \<longrightarrow> block_hash (al_heap a' ! b) = x)
    \<and> (al_caching a \<longrightarrow> h = Some x \<longrightarrow> 0 < al_refs a b \<longrightarrow> block_hash (al_heap a ! b) = x)" for c x
  proof (cases a)
    case (Uncached u)
    then have "ua_ok u" using assms(1) by simp
    from ua_allocate_law [OF this] assms(2) Uncached show ?thesis
      by (cases "free_blocks u = []") (auto simp: al_refs_def nth_list_update)
  next
    case (Cached q)
    define h' where "h' = (case h of None \<Rightarrow> default_hash_ctr q | Some x \<Rightarrow> x)"
    define q' where "q' = (case h of None \<Rightarrow> q\<lparr>default_hash_ctr := default_hash_ctr q + 1\<rparr> | Some _ \<Rightarrow> q)"
    have run: "ca_allocate h n q = bindr (ca_revive h' q') (\<lambda>a1. bindr (ca_lookup h' n a1) (ca_take h'))"
      by (cases h) (simp_all add: ca_allocate_def h'_def q'_def Let_def)
    have ok: "ca_ok q'" and same: "ca_heap q' = ca_heap q" "ca_total q' = ca_total q" "free_table q' = free_table q"
      using assms(1) Cached by (cases h; simp add: q'_def ca_ok_def)+
    note law = ca_allocate_hash_law [OF ok, of h' n, folded run, unfolded same]
    from assms(2) Cached obtain d where d: "a' = Cached d" "ca_allocate h n q = Inr (b, d)" by auto
    with law have "b < length (ca_heap d)" "length (ca_heap q) \<le> length (ca_heap d)" "block_hash (ca_heap d ! b) = h'"
      "b < length (ca_heap q) \<and> 0 < ref_count (ca_heap q ! b) \<longrightarrow> block_hash (ca_heap q ! b) = h'"
      "\<forall>x < length (ca_heap d). x \<noteq> b \<longrightarrow> x < length (ca_heap q) \<and> ca_heap d ! x = ca_heap q ! x"
      by (auto split: if_splits)
    with d Cached show ?thesis by (auto simp: al_refs_def h'_def split: if_splits)
  qed
  note all = this
  show "al_caching a' = al_caching a" "b < length (al_heap a')" "length (al_heap a) \<le> length (al_heap a')"
    "\<not> al_caching a \<Longrightarrow> al_refs a b = 0" using all by blast+
  show "c < length (al_heap a) \<Longrightarrow> c \<noteq> b \<Longrightarrow> al_heap a' ! c = al_heap a ! c" using all by blast
  show "al_caching a \<Longrightarrow> h = Some x \<Longrightarrow> block_hash (al_heap a' ! b) = x"
    "al_caching a \<Longrightarrow> h = Some x \<Longrightarrow> 0 < al_refs a b \<Longrightarrow> block_hash (al_heap a ! b) = x" using all by blast+
qed

lemma al_free_block:
  assumes "al_ok a" "0 < al_refs a b" "al_free b a = Inr a'"
  shows "al_caching a' = al_caching a" "al_heap a' = (al_heap a)[b := (al_heap a ! b)\<lparr>ref_count := ref_count (al_heap a ! b) - 1\<rparr>]"
proof -
  have "al_caching a' = al_caching a \<and> al_heap a' = (al_heap a)[b := (al_heap a ! b)\<lparr>ref_count := ref_count (al_heap a ! b) - 1\<rparr>]"
  proof (cases a)
    case (Uncached u)
    with assms ua_free_law [of u b] show ?thesis by (auto simp: al_refs_def split: if_splits)
  next
    case (Cached q)
    with assms ca_free_law [of q b] show ?thesis by (auto simp: al_refs_def split: if_splits)
  qed
  then show "al_caching a' = al_caching a" "al_heap a' = (al_heap a)[b := (al_heap a ! b)\<lparr>ref_count := ref_count (al_heap a ! b) - 1\<rparr>]"
    by blast+
qed

interpretation blocks: block_allocator al_ok al_refs al_num_total al_num_free al_allocate al_free al_set_refs
proof unfold_locales
  fix a b h n k
  show "al_ok a \<Longrightarrow> 0 \<le> al_refs a b" by (rule al_refs_nonneg)
  show "finite {b. 0 < al_refs a b}" by (rule al_used_finite)
  show "al_ok a \<Longrightarrow> al_num_free a = al_num_total a - int (card {b. 0 < al_refs a b})" by (rule al_num_free_card)
  show "al_ok a \<Longrightarrow> al_allocate h n a = Inl ValueError \<and> al_num_free a = 0
     \<or> (\<exists>b a'. al_allocate h n a = Inr (b, a') \<and> al_ok a' \<and> al_num_total a' = al_num_total a
          \<and> al_refs a' = (al_refs a)(b := al_refs a b + 1))" by (rule al_allocate_law)
  show "al_ok a \<Longrightarrow> 0 < al_refs a b \<Longrightarrow> \<exists>a'. al_free b a = Inr a' \<and> al_ok a' \<and> al_num_total a' = al_num_total a
      \<and> al_refs a' = (al_refs a)(b := al_refs a b - 1)" by (rule al_free_law)
  show "al_ok a \<Longrightarrow> 0 < al_refs a b \<Longrightarrow> 0 < k \<Longrightarrow> al_ok (al_set_refs b k a)
      \<and> al_num_total (al_set_refs b k a) = al_num_total a \<and> al_refs (al_set_refs b k a) = (al_refs a)(b := k)"
    by (rule al_set_refs_law)
qed

end
