(* ===== verification/Block_Manager.thy ===== *)
theory Block_Manager
  imports Block_Allocator Sequence
begin

text \<open>
  vLLM's block manager, \<open>BlockSpaceManagerV1\<close> of \<open>vllm/core/block_manager_v1.py\<close>: which
  sequence holds which physical blocks.  \<open>bm_gpu\<close> and \<open>bm_cpu\<close> are the allocators, with the
  block objects; \<open>bm_tables\<close> is \<open>block_tables\<close>, \<open>bm_cross\<close> is \<open>cross_block_tables\<close>.
  \<open>hsh\<close> is Python's \<open>hash\<close> on token tuples and \<open>so\<close> the order in which Python iterates over a
  \<open>set\<close> of blocks; both are parameters.  An operation that raises returns only the error: the engine does
  not catch it.

  The invariant \<open>bm_ok\<close> says that the count of every block is the number of table entries that
  name it; the lemmas of each operation follow the order of the code.
\<close>

section \<open>State\<close>

datatype alloc_status = AllocOK | AllocLATER | AllocNEVER

record block_mgr =
  bm_block_size :: int
  bm_total_gpu :: int
  bm_sliding :: "int option"
  bm_watermark :: int
  bm_caching :: bool
  bm_gpu :: allocator
  bm_cpu :: allocator
  bm_tables :: "(int, block_table) dict"
  bm_cross :: "(string, block_table) dict"

definition bm_init :: "int \<Rightarrow> nat \<Rightarrow> nat \<Rightarrow> real \<Rightarrow> int option \<Rightarrow> bool \<Rightarrow> block_mgr result" where
  "bm_init bs gpu cpu wm sliding caching =
     (if caching \<and> sliding \<noteq> None then Inl NotImplementedError
      else bindr (case sliding of None \<Rightarrow> Inr None
                  | Some w \<Rightarrow> if bs = 0 then Inl ZeroDivisionError else Inr (Some \<lceil>(of_int w / of_int bs :: real)\<rceil>)) (\<lambda>bsw.
        assert_py (0 \<le> wm)
          (Inr \<lparr>bm_block_size = bs, bm_total_gpu = int gpu, bm_sliding = bsw, bm_watermark = \<lfloor>wm * real gpu\<rfloor>,
                bm_caching = caching,
                bm_gpu = (if caching then Cached (new_cached gpu) else Uncached (new_uncached gpu)),
                bm_cpu = (if caching then Cached (new_cached cpu) else Uncached (new_uncached cpu)),
                bm_tables = [], bm_cross = []\<rparr>)))"

fun bm_al :: "device \<Rightarrow> block_mgr \<Rightarrow> allocator" where
  "bm_al GPU m = bm_gpu m"
| "bm_al CPU m = bm_cpu m"

fun bm_set_al :: "device \<Rightarrow> allocator \<Rightarrow> block_mgr \<Rightarrow> block_mgr" where
  "bm_set_al GPU a m = m\<lparr>bm_gpu := a\<rparr>"
| "bm_set_al CPU a m = m\<lparr>bm_cpu := a\<rparr>"

definition bm_block :: "block_mgr \<Rightarrow> bref \<Rightarrow> phys_block" where
  "bm_block m r = al_heap (bm_al (fst r) m) ! snd r"

definition bm_upd :: "(phys_block \<Rightarrow> phys_block) \<Rightarrow> block_mgr \<Rightarrow> bref \<Rightarrow> block_mgr" where
  "bm_upd f m r = bm_set_al (fst r) (al_upd (snd r) f (bm_al (fst r) m)) m"

definition sg_is_encoder_decoder :: "seq_group \<Rightarrow> bool" where
  "sg_is_encoder_decoder g \<longleftrightarrow> encoder_seq g \<noteq> None"

definition required_blocks :: "sequence option \<Rightarrow> int" where
  "required_blocks s = (case s of None \<Rightarrow> 0 | Some s' \<Rightarrow> n_blocks s')"

definition check_no_caching_or_swa :: "block_mgr \<Rightarrow> seq_group \<Rightarrow> unit result" where
  "check_no_caching_or_swa m g =
     (if sg_is_encoder_decoder g \<and> (bm_sliding m \<noteq> None \<or> bm_caching m) then Inl NotImplementedError else Inr ())"

section \<open>Allocation\<close>

definition bm_can_allocate :: "block_mgr \<Rightarrow> seq_group \<Rightarrow> alloc_status result" where
  "bm_can_allocate m g =
     bindr (check_no_caching_or_swa m g) (\<lambda>_.
     bindr (get_seqs (Some WAITING) g) (\<lambda>ws.
     bindr (py_nth ws 0) (\<lambda>s.
       let need0 = required_blocks (Some s) + required_blocks (encoder_seq g);
           need = (case bm_sliding m of None \<Rightarrow> need0 | Some w \<Rightarrow> min need0 w) in
       Inr (if bm_total_gpu m - need < bm_watermark m then AllocNEVER
            else if al_num_free (bm_gpu m) - need \<ge> bm_watermark m then AllocOK else AllocLATER))))"

definition allocate_block_at ::
  "(((int list \<times> int list option) \<times> int) \<Rightarrow> int) \<Rightarrow> block_mgr \<Rightarrow> sequence \<Rightarrow> int \<Rightarrow> bool
     \<Rightarrow> block_table \<times> allocator \<Rightarrow> nat \<Rightarrow> (block_table \<times> allocator) result" where
  "allocate_block_at hsh m s refc encdec st i =
     (case st of (t, gpu) \<Rightarrow>
       (case bm_sliding m of
          Some w \<Rightarrow>
            if int i \<ge> w then
              (if w = 0 then Inl ZeroDivisionError
               else bindr (bt_get t (int i mod w)) (\<lambda>r. Inr (bt_append r t, al_set_refs (snd r) refc gpu)))
            else if \<not> encdec \<and> bm_caching m then
              bindr (al_allocate (Some (hash_of_block hsh s (int i))) (num_hashed_tokens_of_block s (int i)) gpu) (\<lambda>(b, gpu').
                Inr (bt_append (GPU, b) t, gpu'))
            else bindr (al_allocate None 0 gpu) (\<lambda>(b, gpu'). Inr (bt_append (GPU, b) t, al_set_refs b refc gpu'))
        | None \<Rightarrow>
            if \<not> encdec \<and> bm_caching m then
              bindr (al_allocate (Some (hash_of_block hsh s (int i))) (num_hashed_tokens_of_block s (int i)) gpu) (\<lambda>(b, gpu').
                Inr (bt_append (GPU, b) t, gpu'))
            else bindr (al_allocate None 0 gpu) (\<lambda>(b, gpu'). Inr (bt_append (GPU, b) t, al_set_refs b refc gpu'))))"

definition allocate_sequence ::
  "(((int list \<times> int list option) \<times> int) \<Rightarrow> int) \<Rightarrow> block_mgr \<Rightarrow> sequence option \<Rightarrow> int \<Rightarrow> bool
     \<Rightarrow> (block_table \<times> allocator) result" where
  "allocate_sequence hsh m so refc encdec =
     (case so of
        None \<Rightarrow> Inl AssertionError
      | Some s \<Rightarrow> foldM (allocate_block_at hsh m s refc encdec) (bt_empty, bm_gpu m) [0..<nat (required_blocks so)])"

definition bm_allocate ::
  "(((int list \<times> int list option) \<times> int) \<Rightarrow> int) \<Rightarrow> seq_group \<Rightarrow> block_mgr \<Rightarrow> block_mgr result" where
  "bm_allocate hsh g m =
     (let encdec = sg_is_encoder_decoder g in
      bindr (check_no_caching_or_swa m g) (\<lambda>_.
      bindr (get_seqs (Some WAITING) g) (\<lambda>ws.
      bindr (py_nth ws 0) (\<lambda>s.
      bindr (num_seqs None g) (\<lambda>k.
      bindr (allocate_sequence hsh m (Some s) k encdec) (\<lambda>(t, gpu).
        let m1 = m\<lparr>bm_gpu := gpu,
                   bm_tables := (if length ws = 1 then AList.update (seq_id s) t (bm_tables m)
                                 else foldl (\<lambda>ts s. AList.update (seq_id s) (bt_copy t) ts) (bm_tables m) ws)\<rparr> in
        if encdec then
          bindr (allocate_sequence hsh m1 (encoder_seq g) 1 encdec) (\<lambda>(ct, gpu').
            Inr (m1\<lparr>bm_gpu := gpu', bm_cross := AList.update (request_id g) ct (bm_cross m1)\<rparr>))
        else Inr m1))))))"

section \<open>Appending\<close>

definition bm_can_append_slots :: "seq_group \<Rightarrow> int \<Rightarrow> block_mgr \<Rightarrow> bool result" where
  "bm_can_append_slots g lookahead m =
     assert_py (lookahead = 0)
       (bindr (num_seqs (Some RUNNING) g) (\<lambda>k. Inr (k \<le> al_num_free (bm_gpu m))))"

definition is_last_block_full :: "sequence \<Rightarrow> bool result" where
  "is_last_block_full s =
     (let n = sd_len (seq_data s) in
      if n > 0 then (if seq_block_size s = 0 then Inl ZeroDivisionError else Inr (n mod seq_block_size s = 0))
      else Inr False)"

definition promote_last_block ::
  "(((int list \<times> int list option) \<times> int) \<Rightarrow> int) \<Rightarrow> sequence \<Rightarrow> nat \<Rightarrow> block_mgr \<Rightarrow> (nat \<times> block_mgr) result" where
  "promote_last_block hsh s b m =
     assert_py (bm_caching m)
       (let h = hash_of_block hsh s (n_blocks s - 1) in
        bindr (al_contains h (bm_gpu m)) (\<lambda>hit.
          if hit then
            bindr (al_free b (bm_gpu m)) (\<lambda>gpu.
            bindr (al_allocate (Some h) 0 gpu) (\<lambda>(b', gpu'). Inr (b', m\<lparr>bm_gpu := gpu'\<rparr>)))
          else bindr (al_update_hash h b (bm_gpu m)) (\<lambda>gpu. Inr (b, m\<lparr>bm_gpu := gpu\<rparr>))))"

definition maybe_promote_last_block ::
  "(((int list \<times> int list option) \<times> int) \<Rightarrow> int) \<Rightarrow> sequence \<Rightarrow> nat \<Rightarrow> block_mgr \<Rightarrow> (nat \<times> block_mgr) result" where
  "maybe_promote_last_block hsh s b m =
     bindr (is_last_block_full s) (\<lambda>full. if full then promote_last_block hsh s b m else Inr (b, m))"

definition allocate_last_physical_block ::
  "(((int list \<times> int list option) \<times> int) \<Rightarrow> int) \<Rightarrow> sequence \<Rightarrow> block_mgr \<Rightarrow> (nat \<times> block_mgr) result" where
  "allocate_last_physical_block hsh s m =
     (if \<not> bm_caching m then bindr (al_allocate None 0 (bm_gpu m)) (\<lambda>(b, gpu). Inr (b, m\<lparr>bm_gpu := gpu\<rparr>))
      else
        bindr (is_last_block_full s) (\<lambda>full.
          let n = n_blocks s; h = (if full then Some (hash_of_block hsh s (n - 1)) else None) in
          bindr (al_allocate h (num_hashed_tokens_of_block s (n - 1)) (bm_gpu m)) (\<lambda>(b, gpu).
            assert_py (h = None \<longrightarrow> ref_count (al_heap gpu ! b) = 1) (Inr (b, m\<lparr>bm_gpu := gpu\<rparr>)))))"

text \<open>The second half of \<open>append_slots\<close>: the token goes into the last block of the table.\<close>

definition append_to_last ::
  "(((int list \<times> int list option) \<times> int) \<Rightarrow> int) \<Rightarrow> sequence \<Rightarrow> block_table \<Rightarrow> block_mgr
     \<Rightarrow> (block_mgr \<times> (nat \<times> nat) list) result" where
  "append_to_last hsh s t m =
     bindr (bt_get t (- 1)) (\<lambda>r.
     assert_py (fst r = GPU)
       (if ref_count (bm_block m r) = 1 then
          (if bm_caching m then
             bindr (maybe_promote_last_block hsh s (snd r) m) (\<lambda>(b, m').
             bindr (bt_set_last (GPU, b) t) (\<lambda>t'.
               Inr (m'\<lparr>bm_tables := AList.update (seq_id s) t' (bm_tables m')\<rparr>, [])))
           else Inr (m\<lparr>bm_tables := AList.update (seq_id s) t (bm_tables m)\<rparr>, []))
        else
          bindr (allocate_last_physical_block hsh s m) (\<lambda>(b, m').
          bindr (bt_set_last (GPU, b) t) (\<lambda>t'.
          bindr (al_free (snd r) (bm_gpu m')) (\<lambda>gpu.
            Inr (m'\<lparr>bm_gpu := gpu, bm_tables := AList.update (seq_id s) t' (bm_tables m')\<rparr>, [(snd r, b)]))))))"

definition bm_append_slots ::
  "(((int list \<times> int list option) \<times> int) \<Rightarrow> int) \<Rightarrow> sequence \<Rightarrow> block_mgr \<Rightarrow> (block_mgr \<times> (nat \<times> nat) list) result" where
  "bm_append_slots hsh s m =
     bindr (dindex (bm_tables m) (seq_id s)) (\<lambda>t.
       if bt_len t < n_blocks s then
         assert_py (bt_len t = n_blocks s - 1)
           (if (case bm_sliding m of None \<Rightarrow> False | Some w \<Rightarrow> w \<noteq> 0 \<and> bt_len t \<ge> w) then
              bindr (bt_get t (bt_len t mod the (bm_sliding m))) (\<lambda>r. append_to_last hsh s (bt_append r t) m)
            else
              bindr (allocate_last_physical_block hsh s m) (\<lambda>(b, m').
                Inr (m'\<lparr>bm_tables := AList.update (seq_id s) (bt_append (GPU, b) t) (bm_tables m')\<rparr>, [])))
       else append_to_last hsh s t m)"

section \<open>Forking, swapping and freeing\<close>

definition bm_fork :: "sequence \<Rightarrow> sequence \<Rightarrow> block_mgr \<Rightarrow> block_mgr" where
  "bm_fork parent child m =
     (case map_of (bm_tables m) (seq_id parent) of
        None \<Rightarrow> m
      | Some t \<Rightarrow>
          foldl (bm_upd (\<lambda>p. p\<lparr>ref_count := ref_count p + 1\<rparr>))
            (m\<lparr>bm_tables := AList.update (seq_id child) (bt_copy t) (bm_tables m)\<rparr>) (remdups (tb_blocks t)))"

definition physical_blocks :: "seq_group \<Rightarrow> block_mgr \<Rightarrow> bref list result" where
  "physical_blocks g m =
     bindr (foldM (\<lambda>bs s. if seq_is_finished s then Inr bs
                   else bindr (dindex (bm_tables m) (seq_id s)) (\<lambda>t. Inr (bs @ tb_blocks t))) [] (seqs g)) (\<lambda>bs.
       if sg_is_encoder_decoder g
       then bindr (dindex (bm_cross m) (request_id g)) (\<lambda>t. Inr (remdups (bs @ tb_blocks t)))
       else Inr (remdups bs))"

definition bm_can_swap_in :: "seq_group \<Rightarrow> int \<Rightarrow> block_mgr \<Rightarrow> alloc_status result" where
  "bm_can_swap_in g lookahead m =
     assert_py (lookahead = 0)
       (bindr (physical_blocks g m) (\<lambda>bs.
        bindr (num_seqs (Some SWAPPED) g) (\<lambda>k0.
          let k = (if sg_is_encoder_decoder g then k0 + 1 else k0);
              free = al_num_free (bm_gpu m);
              need = int (length bs) + k in
          Inr (if al_num_total (bm_gpu m) < need then AllocNEVER
               else if free - need \<ge> bm_watermark m then AllocOK else AllocLATER))))"

text \<open>
  The block of a table being swapped lies on the source device; its release goes to the allocator of that device.
\<close>

definition swap_block ::
  "device \<Rightarrow> device \<Rightarrow> block_mgr \<times> (bref, bref) dict \<times> block_table \<Rightarrow> bref
     \<Rightarrow> (block_mgr \<times> (bref, bref) dict \<times> block_table) result" where
  "swap_block src dst st r =
     (case st of (m, mapping, t) \<Rightarrow>
       bindr (case map_of mapping r of
                Some r' \<Rightarrow> Inr (r', bm_upd (\<lambda>p. p\<lparr>ref_count := ref_count p + 1\<rparr>) m r', mapping)
              | None \<Rightarrow>
                  bindr (al_allocate (Some (block_hash (bm_block m r))) (num_hashed (bm_block m r)) (bm_al dst m)) (\<lambda>(b, a).
                    Inr ((dst, b), bm_set_al dst a m, AList.update r (dst, b) mapping))) (\<lambda>(r', m1, mapping1).
       bindr (al_free (snd r) (bm_al src m1)) (\<lambda>a.
         Inr (bm_set_al src a m1, mapping1, bt_append r' t))))"

definition swap_block_table ::
  "device \<Rightarrow> device \<Rightarrow> block_table \<Rightarrow> block_mgr \<times> (bref, bref) dict
     \<Rightarrow> (block_mgr \<times> (bref, bref) dict \<times> block_table) result" where
  "swap_block_table src dst t st = foldM (swap_block src dst) (fst st, snd st, bt_empty) (tb_blocks t)"

definition swap_seq ::
  "device \<Rightarrow> device \<Rightarrow> block_mgr \<times> (bref, bref) dict \<Rightarrow> sequence \<Rightarrow> (block_mgr \<times> (bref, bref) dict) result" where
  "swap_seq src dst st s =
     (case st of (m, mapping) \<Rightarrow>
       bindr (dindex (bm_tables m) (seq_id s)) (\<lambda>t.
       bindr (swap_block_table src dst t (m, mapping)) (\<lambda>(m1, mapping1, t1).
         Inr (m1\<lparr>bm_tables := AList.update (seq_id s) t1 (bm_tables m1)\<rparr>, mapping1))))"

definition swap_tables ::
  "device \<Rightarrow> device \<Rightarrow> seq_status \<Rightarrow> seq_group \<Rightarrow> block_mgr \<Rightarrow> (block_mgr \<times> (nat \<times> nat) list) result" where
  "swap_tables src dst st g m =
     bindr (get_seqs (Some st) g) (\<lambda>ss.
     bindr (foldM (swap_seq src dst) (m, []) ss) (\<lambda>(m1, mapping).
     bindr (if sg_is_encoder_decoder g then
              bindr (dindex (bm_cross m1) (request_id g)) (\<lambda>t.
              bindr (swap_block_table src dst t (m1, mapping)) (\<lambda>(m2, mapping2, t2).
                Inr (m2\<lparr>bm_cross := AList.update (request_id g) t2 (bm_cross m2)\<rparr>, mapping2)))
            else Inr (m1, mapping)) (\<lambda>(m2, mapping2).
       Inr (m2, map (\<lambda>(r, r'). (snd r, snd r')) mapping2))))"

definition bm_swap_in :: "seq_group \<Rightarrow> block_mgr \<Rightarrow> (block_mgr \<times> (nat \<times> nat) list) result" where
  "bm_swap_in g m = swap_tables CPU GPU SWAPPED g m"

definition bm_can_swap_out :: "seq_group \<Rightarrow> block_mgr \<Rightarrow> bool result" where
  "bm_can_swap_out g m = bindr (physical_blocks g m) (\<lambda>bs. Inr (int (length bs) \<le> al_num_free (bm_cpu m)))"

definition bm_swap_out :: "seq_group \<Rightarrow> block_mgr \<Rightarrow> (block_mgr \<times> (nat \<times> nat) list) result" where
  "bm_swap_out g m = swap_tables GPU CPU RUNNING g m"

definition free_block_table :: "(bref list \<Rightarrow> bref list) \<Rightarrow> block_table \<Rightarrow> block_mgr \<Rightarrow> block_mgr result" where
  "free_block_table so t m =
     (let bs = (case bm_sliding m of None \<Rightarrow> tb_blocks t | Some w \<Rightarrow> slice_from (tb_blocks t) (- w)) in
      foldM (\<lambda>m r. bindr (al_free (snd r) (bm_al (fst r) m)) (\<lambda>a. Inr (bm_set_al (fst r) a m))) m (so bs))"

definition bm_free :: "(bref list \<Rightarrow> bref list) \<Rightarrow> sequence \<Rightarrow> block_mgr \<Rightarrow> block_mgr result" where
  "bm_free so s m =
     (case map_of (bm_tables m) (seq_id s) of
        None \<Rightarrow> Inr m
      | Some t \<Rightarrow> bindr (free_block_table so t m) (\<lambda>m'. Inr (m'\<lparr>bm_tables := AList.delete (seq_id s) (bm_tables m')\<rparr>)))"

definition bm_free_cross :: "(bref list \<Rightarrow> bref list) \<Rightarrow> seq_group \<Rightarrow> block_mgr \<Rightarrow> block_mgr result" where
  "bm_free_cross so g m =
     (case map_of (bm_cross m) (request_id g) of
        None \<Rightarrow> Inr m
      | Some t \<Rightarrow> bindr (free_block_table so t m) (\<lambda>m'. Inr (m'\<lparr>bm_cross := AList.delete (request_id g) (bm_cross m')\<rparr>)))"

definition bm_reset :: "(bref list \<Rightarrow> bref list) \<Rightarrow> block_mgr \<Rightarrow> block_mgr result" where
  "bm_reset so m =
     bindr (foldM (\<lambda>m t. free_block_table so t m) m (map snd (bm_tables m))) (\<lambda>m1.
     bindr (foldM (\<lambda>m t. free_block_table so t m) (m1\<lparr>bm_tables := []\<rparr>) (map snd (bm_cross m1))) (\<lambda>m2.
       Inr (m2\<lparr>bm_cross := []\<rparr>)))"

section \<open>Queries and computed blocks\<close>

definition bm_get_block_table :: "sequence \<Rightarrow> block_mgr \<Rightarrow> nat list result" where
  "bm_get_block_table s m = bindr (dindex (bm_tables m) (seq_id s)) (\<lambda>t. Inr (tb_ids t))"

definition bm_get_cross_block_table :: "seq_group \<Rightarrow> block_mgr \<Rightarrow> nat list result" where
  "bm_get_cross_block_table g m = bindr (dindex (bm_cross m) (request_id g)) (\<lambda>t. Inr (map snd (tb_blocks t)))"

definition bm_num_free_gpu :: "block_mgr \<Rightarrow> int" where
  "bm_num_free_gpu m = al_num_free (bm_gpu m)"

definition bm_num_free_cpu :: "block_mgr \<Rightarrow> int" where
  "bm_num_free_cpu m = al_num_free (bm_cpu m)"

definition bm_access_all :: "sequence \<Rightarrow> real \<Rightarrow> block_mgr \<Rightarrow> block_mgr result" where
  "bm_access_all s now m =
     (if bm_caching m
      then bindr (dindex (bm_tables m) (seq_id s)) (\<lambda>t. Inr (foldl (bm_upd (\<lambda>p. p\<lparr>last_accessed := now\<rparr>)) m (tb_blocks t)))
      else Inr m)"

fun mark_computed :: "block_table \<Rightarrow> nat \<Rightarrow> block_mgr \<Rightarrow> block_mgr result" where
  "mark_computed t 0 m = Inr m"
| "mark_computed t (Suc i) m =
     bindr (bt_get t (int i)) (\<lambda>r.
       if computed (bm_block m r) then Inr m
       else mark_computed t i (bm_upd (\<lambda>p. p\<lparr>computed := True\<rparr>) m r))"

definition bm_compute_full_blocks :: "sequence \<Rightarrow> int \<Rightarrow> block_mgr \<Rightarrow> block_mgr result" where
  "bm_compute_full_blocks s chunk m =
     (case map_of (bm_tables m) (seq_id s) of
        None \<Rightarrow> Inr m
      | Some t \<Rightarrow>
          if bm_block_size m = 0 then Inl ZeroDivisionError
          else (let full = (num_computed (seq_data s) + chunk) div bm_block_size m in mark_computed t (nat full) m))"

definition bm_all_computed :: "block_mgr \<Rightarrow> sequence \<Rightarrow> nat list" where
  "bm_all_computed m s =
     (case map_of (bm_tables m) (seq_id s) of
        None \<Rightarrow> []
      | Some t \<Rightarrow> map snd (takeWhile (\<lambda>r. computed (bm_block m r)) (butlast (tb_blocks t))))"

text \<open>\<open>os.path.commonprefix\<close> on a list of lists.\<close>

fun lcp2 :: "'a list \<Rightarrow> 'a list \<Rightarrow> 'a list" where
  "lcp2 (x # xs) (y # ys) = (if x = y then x # lcp2 xs ys else [])"
| "lcp2 _ _ = []"

definition commonprefix :: "'a list list \<Rightarrow> 'a list" where
  "commonprefix xss = (case xss of [] \<Rightarrow> [] | xs # rest \<Rightarrow> foldl lcp2 xs rest)"

definition bm_common_computed :: "sequence list \<Rightarrow> block_mgr \<Rightarrow> nat list" where
  "bm_common_computed ss m =
     (if \<not> bm_caching m then []
      else commonprefix (filter (\<lambda>ids. ids \<noteq> []) (map (bm_all_computed m) ss)))"

definition bm_mark_blocks :: "seq_group \<Rightarrow> int \<Rightarrow> block_mgr \<Rightarrow> block_mgr result" where
  "bm_mark_blocks g chunk m =
     (if bm_caching m then foldM (\<lambda>m s. bm_compute_full_blocks s chunk m) m (seqs g) else Inr m)"

definition bm_hit_rate :: "device \<Rightarrow> block_mgr \<Rightarrow> real" where
  "bm_hit_rate d m = al_hit_rate (bm_al d m)"

section \<open>Counting references\<close>

definition bm_refs :: "block_mgr \<Rightarrow> bref \<Rightarrow> int" where
  "bm_refs m r = al_refs (bm_al (fst r) m) (snd r)"

definition entries :: "bref \<Rightarrow> block_table \<Rightarrow> int" where
  "entries r t = int (count_list (tb_blocks t) r)"

definition uses :: "block_mgr \<Rightarrow> bref \<Rightarrow> int" where
  "uses m r = dsum (entries r) (bm_tables m) + dsum (entries r) (bm_cross m)"

text \<open>
  Inside an operation the counts run ahead of the tables or behind them; \<open>X r\<close> is by how much.
\<close>

definition bm_inv :: "(bref \<Rightarrow> int) \<Rightarrow> block_mgr \<Rightarrow> bool" where
  "bm_inv X m \<longleftrightarrow> al_ok (bm_gpu m) \<and> al_ok (bm_cpu m) \<and> wf_dict (bm_tables m) \<and> wf_dict (bm_cross m)
     \<and> al_num_total (bm_gpu m) = bm_total_gpu m \<and> al_caching (bm_gpu m) = bm_caching m \<and> al_caching (bm_cpu m) = bm_caching m
     \<and> (\<forall>r. bm_refs m r = uses m r + X r)"

definition tables_ok :: "block_mgr \<Rightarrow> bool" where
  "tables_ok m \<longleftrightarrow> (\<forall>t \<in> snd ` set (bm_tables m) \<union> snd ` set (bm_cross m). bt_ok t \<and> distinct (tb_blocks t))"

definition bm_ok :: "block_mgr \<Rightarrow> bool" where
  "bm_ok m \<longleftrightarrow> bm_inv (\<lambda>_. 0) m \<and> tables_ok m \<and> bm_sliding m = None"

text \<open>What the loops over blocks leave alone.\<close>

definition same_tables :: "block_mgr \<Rightarrow> block_mgr \<Rightarrow> bool" where
  "same_tables m m' \<longleftrightarrow> bm_tables m' = bm_tables m \<and> bm_cross m' = bm_cross m \<and> bm_sliding m' = bm_sliding m
     \<and> bm_caching m' = bm_caching m \<and> bm_block_size m' = bm_block_size m \<and> bm_watermark m' = bm_watermark m
     \<and> bm_total_gpu m' = bm_total_gpu m"

lemma same_tables_refl [simp]: "same_tables m m"
  by (simp add: same_tables_def)

lemma same_tables_trans: "same_tables m m1 \<Longrightarrow> same_tables m1 m2 \<Longrightarrow> same_tables m m2"
  by (simp add: same_tables_def)

lemma same_tables_set_al [simp]: "same_tables m (bm_set_al d a m)" "same_tables m (bm_upd f m r)"
  by (cases d; simp add: same_tables_def) (cases "fst r"; simp add: same_tables_def bm_upd_def)

lemma bm_al_set_al [simp]: "bm_al d' (bm_set_al d a m) = (if d' = d then a else bm_al d' m)"
  by (cases d; cases d') simp_all

lemma bm_set_al_sel [simp]:
  "bm_tables (bm_set_al d a m) = bm_tables m" "bm_cross (bm_set_al d a m) = bm_cross m"
  "bm_total_gpu (bm_set_al d a m) = bm_total_gpu m" "bm_caching (bm_set_al d a m) = bm_caching m"
  "bm_sliding (bm_set_al d a m) = bm_sliding m"
  by (cases d; simp)+

lemma bm_al_tables [simp]:
  "bm_al d (m\<lparr>bm_tables := ts\<rparr>) = bm_al d m" "bm_al d (m\<lparr>bm_cross := cs\<rparr>) = bm_al d m"
  by (cases d; simp)+

lemma bm_refs_tables [simp]:
  "bm_refs (m\<lparr>bm_tables := ts\<rparr>) = bm_refs m" "bm_refs (m\<lparr>bm_cross := cs\<rparr>) = bm_refs m"
  by (rule ext, simp add: bm_refs_def)+

lemma bm_invD:
  assumes "bm_inv X m"
  shows "al_ok (bm_al d m)" "wf_dict (bm_tables m)" "wf_dict (bm_cross m)" "bm_refs m r = uses m r + X r"
    and "al_num_total (bm_gpu m) = bm_total_gpu m" "al_caching (bm_al d m) = bm_caching m"
proof -
  note i = assms [unfolded bm_inv_def]
  show "al_ok (bm_al d m)" "al_caching (bm_al d m) = bm_caching m" by (cases d; use i in simp)+
  show "bm_refs m r = uses m r + X r" using i by blast
qed (use assms in \<open>simp_all add: bm_inv_def\<close>)

lemma bm_inv_set_al:
  assumes "bm_inv X m" "al_ok a" "al_num_total a = al_num_total (bm_al d m)" "al_caching a = al_caching (bm_al d m)"
    and "\<And>b. al_refs a b = al_refs (bm_al d m) b + Y b"
  shows "bm_inv (\<lambda>r. X r + (if fst r = d then Y (snd r) else 0)) (bm_set_al d a m)"
proof -
  have "bm_refs (bm_set_al d a m) r = uses (bm_set_al d a m) r + (X r + (if fst r = d then Y (snd r) else 0))" for r
    using bm_invD(4) [OF assms(1), of r] assms(5) [of "snd r"] by (cases "fst r = d") (simp_all add: bm_refs_def uses_def)
  then show ?thesis
    using assms(1-4) bm_invD(1,6) [OF assms(1)] by (cases d) (simp_all add: bm_inv_def)
qed

lemma bm_inv_cong: "bm_inv X m \<Longrightarrow> (\<And>r. X r = Y r) \<Longrightarrow> bm_inv Y m"
  by (simp add: bm_inv_def)

text \<open>A reference is a device and a number.\<close>

lemma on_bref: "(if fst q = fst r then if snd q = snd r then a else 0 else 0) = (if q = r then a else (0 :: int))"
  by (simp add: prod_eq_iff)

lemma bm_free_one:
  assumes "bm_inv X m" "0 < bm_refs m r"
  shows "\<exists>a. al_free (snd r) (bm_al (fst r) m) = Inr a \<and> bm_inv (X(r := X r - 1)) (bm_set_al (fst r) a m)
     \<and> bm_refs (bm_set_al (fst r) a m) = (bm_refs m)(r := bm_refs m r - 1)"
proof -
  from blocks.release_law [OF bm_invD(1) [OF assms(1), of "fst r"], of "snd r"] assms(2) obtain a where
    a: "al_free (snd r) (bm_al (fst r) m) = Inr a" "al_ok a" "al_num_total a = al_num_total (bm_al (fst r) m)"
    "al_refs a = (al_refs (bm_al (fst r) m))(snd r := al_refs (bm_al (fst r) m) (snd r) - 1)" by (auto simp: bm_refs_def)
  have "al_caching a = al_caching (bm_al (fst r) m)"
    using al_free_block(1) [OF bm_invD(1) [OF assms(1)] _ a(1)] assms(2) by (simp add: bm_refs_def)
  from bm_inv_set_al [OF assms(1) a(2,3) this, of "\<lambda>b. if b = snd r then - 1 else 0"]
  have "bm_inv (\<lambda>q. X q + (if fst q = fst r then if snd q = snd r then - 1 else 0 else 0)) (bm_set_al (fst r) a m)" by (simp add: a(4))
  then have "bm_inv (X(r := X r - 1)) (bm_set_al (fst r) a m)"
    by (rule bm_inv_cong) (simp add: on_bref)
  moreover have "bm_refs (bm_set_al (fst r) a m) = (bm_refs m)(r := bm_refs m r - 1)"
    by (rule ext) (simp add: bm_refs_def a(4) prod_eq_iff)
  ultimately show ?thesis using a(1) by blast
qed

lemma bm_alloc_one:
  assumes "bm_inv X m" "al_allocate h n (bm_al d m) = Inr (b, a)"
  shows "bm_inv (X((d, b) := X (d, b) + 1)) (bm_set_al d a m) \<and> bm_refs (bm_set_al d a m) = (bm_refs m)((d, b) := bm_refs m (d, b) + 1)"
proof -
  from blocks.alloc_law [OF bm_invD(1) [OF assms(1), of d], of h n] assms(2) have
    a: "al_ok a" "al_num_total a = al_num_total (bm_al d m)" "al_refs a = (al_refs (bm_al d m))(b := al_refs (bm_al d m) b + 1)" by auto
  have "al_caching a = al_caching (bm_al d m)" by (rule al_allocate_block(1) [OF bm_invD(1) [OF assms(1)] assms(2)])
  from bm_inv_set_al [OF assms(1) a(1,2) this, of "\<lambda>c. if c = b then 1 else 0"]
  have "bm_inv (\<lambda>q. X q + (if fst q = d then if snd q = b then 1 else 0 else 0)) (bm_set_al d a m)" by (simp add: a(3))
  then have "bm_inv (X((d, b) := X (d, b) + 1)) (bm_set_al d a m)"
    by (rule bm_inv_cong) (auto simp: prod_eq_iff)
  moreover have "bm_refs (bm_set_al d a m) = (bm_refs m)((d, b) := bm_refs m (d, b) + 1)"
    by (rule ext) (simp add: bm_refs_def a(3) prod_eq_iff)
  ultimately show ?thesis by blast
qed

lemma bm_upd_one:
  assumes "bm_inv X m" "0 < bm_refs m r" "\<And>p. block_hash (f p) = block_hash p" "0 < ref_count (f (bm_block m r))"
  shows "bm_inv (X(r := X r + ref_count (f (bm_block m r)) - bm_refs m r)) (bm_upd f m r)
     \<and> bm_refs (bm_upd f m r) = (bm_refs m)(r := ref_count (f (bm_block m r)))"
proof -
  let ?a = "al_upd (snd r) f (bm_al (fst r) m)"
  have a: "al_ok ?a" "al_num_total ?a = al_num_total (bm_al (fst r) m)"
    "al_refs ?a = (al_refs (bm_al (fst r) m))(snd r := ref_count (f (bm_block m r)))"
    using al_upd_law [OF bm_invD(1) [OF assms(1), of "fst r"], of "snd r" f] assms(2-4) by (simp_all add: bm_refs_def bm_block_def)
  from bm_inv_set_al [OF assms(1) a(1,2), of "\<lambda>c. if c = snd r then ref_count (f (bm_block m r)) - bm_refs m r else 0"]
  have "bm_inv (\<lambda>q. X q + (if fst q = fst r then if snd q = snd r then ref_count (f (bm_block m r)) - bm_refs m r else 0 else 0)) (bm_upd f m r)"
    by (simp add: a(3) bm_refs_def bm_upd_def)
  then have "bm_inv (X(r := X r + ref_count (f (bm_block m r)) - bm_refs m r)) (bm_upd f m r)"
    by (rule bm_inv_cong) (simp add: on_bref)
  moreover have "bm_refs (bm_upd f m r) = (bm_refs m)(r := ref_count (f (bm_block m r)))"
    by (rule ext) (simp add: bm_refs_def bm_upd_def a(3) prod_eq_iff)
  ultimately show ?thesis by blast
qed

text \<open>Changing a table.\<close>

lemma bm_inv_tables:
  assumes "bm_inv X m" "wf_dict ts" "\<And>r. dsum (entries r) ts = dsum (entries r) (bm_tables m) + Z r"
  shows "bm_inv (\<lambda>r. X r - Z r) (m\<lparr>bm_tables := ts\<rparr>)"
  using assms(1,2) by (simp add: bm_inv_def uses_def assms(3))

lemma bm_inv_cross:
  assumes "bm_inv X m" "wf_dict cs" "\<And>r. dsum (entries r) cs = dsum (entries r) (bm_cross m) + Z r"
  shows "bm_inv (\<lambda>r. X r - Z r) (m\<lparr>bm_cross := cs\<rparr>)"
  using assms(1,2) by (simp add: bm_inv_def uses_def assms(3))

lemma dsum_new: "map_of d k = None \<Longrightarrow> dsum f (AList.update k v d) = dsum f d + f v"
  by (simp add: dsum_update_new map_of_eq_None_iff)

lemma dsum_old:
  fixes f :: "'v \<Rightarrow> int"
  shows "map_of d k = Some w \<Longrightarrow> dsum f (AList.update k v d) = dsum f d + (f v - f w)"
  using dsum_update_old [of d k w f v] by simp

lemma bm_inv_new_table:
  "bm_inv X m \<Longrightarrow> map_of (bm_tables m) k = None \<Longrightarrow>
     bm_inv (\<lambda>r. X r - entries r t) (m\<lparr>bm_tables := AList.update k t (bm_tables m)\<rparr>)"
  by (rule bm_inv_tables) (simp_all add: dsum_new bm_invD(2))

lemma bm_inv_new_cross:
  "bm_inv X m \<Longrightarrow> map_of (bm_cross m) k = None \<Longrightarrow>
     bm_inv (\<lambda>r. X r - entries r t) (m\<lparr>bm_cross := AList.update k t (bm_cross m)\<rparr>)"
  by (rule bm_inv_cross) (simp_all add: dsum_new bm_invD(3))

lemma bm_inv_set_table:
  "bm_inv X m \<Longrightarrow> map_of (bm_tables m) k = Some t0 \<Longrightarrow>
     bm_inv (\<lambda>r. X r - (entries r t - entries r t0)) (m\<lparr>bm_tables := AList.update k t (bm_tables m)\<rparr>)"
  by (rule bm_inv_tables) (simp_all add: dsum_old bm_invD(2) del: map_of_eq_Some_iff)

lemma bm_inv_set_cross:
  "bm_inv X m \<Longrightarrow> map_of (bm_cross m) k = Some t0 \<Longrightarrow>
     bm_inv (\<lambda>r. X r - (entries r t - entries r t0)) (m\<lparr>bm_cross := AList.update k t (bm_cross m)\<rparr>)"
  by (rule bm_inv_cross) (simp_all add: dsum_old bm_invD(3) del: map_of_eq_Some_iff)

lemma bm_inv_del_table:
  "bm_inv X m \<Longrightarrow> map_of (bm_tables m) k = Some t \<Longrightarrow>
     bm_inv (\<lambda>r. X r - - entries r t) (m\<lparr>bm_tables := AList.delete k (bm_tables m)\<rparr>)"
  by (rule bm_inv_tables) (simp_all add: dsum_delete_diff bm_invD(2) del: map_of_eq_Some_iff)

lemma bm_inv_del_cross:
  "bm_inv X m \<Longrightarrow> map_of (bm_cross m) k = Some t \<Longrightarrow>
     bm_inv (\<lambda>r. X r - - entries r t) (m\<lparr>bm_cross := AList.delete k (bm_cross m)\<rparr>)"
  by (rule bm_inv_cross) (simp_all add: dsum_delete_diff bm_invD(3) del: map_of_eq_Some_iff)

text \<open>Entries of a table, and what a table in the dictionaries contributes.\<close>

lemma entries_simps [simp]:
  "entries r bt_empty = 0" "entries r (bt_append q t) = entries r t + (if q = r then 1 else 0)"
  "entries r (bt_copy t) = entries r t"
  by (simp_all add: entries_def)

lemma entries_nonneg [simp]: "0 \<le> entries r t"
  by (simp add: entries_def)

lemma entries_distinct: "distinct (tb_blocks t) \<Longrightarrow> entries r t = (if r \<in> set (tb_blocks t) then 1 else 0)"
proof -
  have "distinct rs \<Longrightarrow> int (count_list rs r) = (if r \<in> set rs then 1 else 0)" for rs :: "bref list" by (induction rs) auto
  then show "distinct (tb_blocks t) \<Longrightarrow> entries r t = (if r \<in> set (tb_blocks t) then 1 else 0)" by (simp add: entries_def)
qed

lemma entries_pos: "r \<in> set (tb_blocks t) \<Longrightarrow> 0 < entries r t"
  by (simp add: entries_def count_list_0_iff zero_less_iff_neq_zero)

lemma dsum_member: "p \<in> set d \<Longrightarrow> entries r (snd p) \<le> dsum (entries r) d"
proof (induction d)
  case (Cons q d)
  have "0 \<le> dsum (entries r) d" by (rule dsum_nonneg) simp
  with Cons show ?case by (cases "p = q") (auto intro: add_increasing)
qed simp

lemma dsum_tables: "dsum f d = sum_list (map f (map snd d))"
  by (simp add: dsum_def)

lemma uses_table:
  "map_of (bm_tables m) k = Some t \<Longrightarrow> entries r t \<le> uses m r"
  "map_of (bm_cross m) i = Some t \<Longrightarrow> entries r t \<le> uses m r"
  using dsum_member [of "(k, t)" "bm_tables m" r] dsum_member [of "(i, t)" "bm_cross m" r]
    dsum_nonneg [of "bm_tables m" "entries r"] dsum_nonneg [of "bm_cross m" "entries r"]
  by (force simp: uses_def dest: map_of_SomeD)+

lemma uses_same: "same_tables m m' \<Longrightarrow> uses m' = uses m"
  by (simp add: same_tables_def uses_def fun_eq_iff)

lemma tables_okD:
  "tables_ok m \<Longrightarrow> map_of (bm_tables m) k = Some t \<Longrightarrow> bt_ok t \<and> distinct (tb_blocks t)"
  "tables_ok m \<Longrightarrow> map_of (bm_cross m) i = Some t \<Longrightarrow> bt_ok t \<and> distinct (tb_blocks t)"
  unfolding tables_ok_def by (drule map_of_SomeD, force)+

lemma bm_okD:
  assumes "bm_ok m"
  shows "bm_inv (\<lambda>_. 0) m" "tables_ok m" "bm_sliding m = None" "bm_refs m r = uses m r"
    and "map_of (bm_tables m) k = Some t \<Longrightarrow> bt_ok t \<and> distinct (tb_blocks t)"
    and "map_of (bm_cross m) i = Some t \<Longrightarrow> bt_ok t \<and> distinct (tb_blocks t)"
proof -
  show "bm_inv (\<lambda>_. 0) m" "tables_ok m" "bm_sliding m = None" using assms by (simp_all add: bm_ok_def)
  then show "bm_refs m r = uses m r" using bm_invD(4) by fastforce
  show "map_of (bm_tables m) k = Some t \<Longrightarrow> bt_ok t \<and> distinct (tb_blocks t)"
    using assms tables_okD(1) unfolding bm_ok_def by blast
  show "map_of (bm_cross m) i = Some t \<Longrightarrow> bt_ok t \<and> distinct (tb_blocks t)"
    using assms tables_okD(2) unfolding bm_ok_def by blast
qed

section \<open>Freeing\<close>

definition set_order :: "(bref list \<Rightarrow> bref list) \<Rightarrow> bool" where
  "set_order so \<longleftrightarrow> (\<forall>rs. distinct (so rs) \<and> set (so rs) = set rs)"

lemma set_order_remdups: "set_order remdups"
  by (simp add: set_order_def)

lemma bm_free_list:
  assumes "bm_inv X m" "distinct rs" "\<forall>r \<in> set rs. 0 < bm_refs m r"
  shows "\<exists>m'. foldM (\<lambda>m r. bindr (al_free (snd r) (bm_al (fst r) m)) (\<lambda>a. Inr (bm_set_al (fst r) a m))) m rs = Inr m'
     \<and> bm_inv (\<lambda>r. X r - (if r \<in> set rs then 1 else 0)) m' \<and> same_tables m m'"
  using assms
proof (induction rs arbitrary: X m)
  case (Cons r rs)
  from bm_free_one [OF Cons.prems(1), of r] Cons.prems(3) obtain a where
    a: "al_free (snd r) (bm_al (fst r) m) = Inr a" "bm_inv (X(r := X r - 1)) (bm_set_al (fst r) a m)"
    "bm_refs (bm_set_al (fst r) a m) = (bm_refs m)(r := bm_refs m r - 1)" by auto
  have "\<forall>q \<in> set rs. 0 < bm_refs (bm_set_al (fst r) a m) q" using Cons.prems(2,3) by (auto simp: a(3))
  from Cons.IH [OF a(2) _ this] Cons.prems(2) obtain m' where
    m': "foldM (\<lambda>m r. bindr (al_free (snd r) (bm_al (fst r) m)) (\<lambda>a. Inr (bm_set_al (fst r) a m))) (bm_set_al (fst r) a m) rs = Inr m'"
    "bm_inv (\<lambda>q. (X(r := X r - 1)) q - (if q \<in> set rs then 1 else 0)) m'" "same_tables (bm_set_al (fst r) a m) m'" by auto
  have "bm_inv (\<lambda>q. X q - (if q \<in> set (r # rs) then 1 else 0)) m'"
    by (rule bm_inv_cong [OF m'(2)]) (use Cons.prems(2) in auto)
  with a(1) m'(1,3) show ?case by (auto intro: same_tables_trans [OF same_tables_set_al(1)] simp del: bindr_Inr_iff)
qed simp

text \<open>Freeing tables one after the other never fails while the counts cover them.\<close>

lemma free_tables:
  assumes "bm_inv X m" "set_order so" "bm_sliding m = None" "\<forall>t \<in> set ts. distinct (tb_blocks t)"
    and "\<And>r. sum_list (map (entries r) ts) \<le> bm_refs m r"
  shows "\<exists>m'. foldM (\<lambda>m t. free_block_table so t m) m ts = Inr m'
     \<and> bm_inv (\<lambda>r. X r - sum_list (map (entries r) ts)) m' \<and> same_tables m m'"
  using assms
proof (induction ts arbitrary: X m)
  case (Cons t ts)
  have d: "distinct (tb_blocks t)" "distinct (so (tb_blocks t))" "set (so (tb_blocks t)) = set (tb_blocks t)"
    using Cons.prems(2,4) by (simp_all add: set_order_def)
  have rest: "0 \<le> sum_list (map (entries r) ts)" for r by (rule sum_list_nonneg) auto
  have "0 < bm_refs m r" if "r \<in> set (tb_blocks t)" for r
    using entries_pos [OF that] Cons.prems(5) [of r] rest [of r] by simp
  then have "\<forall>r \<in> set (so (tb_blocks t)). 0 < bm_refs m r" by (simp add: d)
  from bm_free_list [OF Cons.prems(1) d(2) this] Cons.prems(3) obtain m1 where
    m1: "free_block_table so t m = Inr m1" "bm_inv (\<lambda>r. X r - (if r \<in> set (so (tb_blocks t)) then 1 else 0)) m1" "same_tables m m1"
    by (auto simp: free_block_table_def simp del: bindr_Inr_iff)
  then have i1: "bm_inv (\<lambda>r. X r - entries r t) m1" by (simp add: d entries_distinct)
  have "bm_refs m1 r = bm_refs m r - entries r t" for r
    using bm_invD(4) [OF i1, of r] bm_invD(4) [OF Cons.prems(1), of r] uses_same [OF m1(3)] by simp
  then have "sum_list (map (entries r) ts) \<le> bm_refs m1 r" for r using Cons.prems(5) [of r] by simp
  moreover have "bm_sliding m1 = None" using m1(3) Cons.prems(3) by (simp add: same_tables_def)
  ultimately obtain m2 where m2: "foldM (\<lambda>m t. free_block_table so t m) m1 ts = Inr m2"
    "bm_inv (\<lambda>r. X r - entries r t - sum_list (map (entries r) ts)) m2" "same_tables m1 m2"
    using Cons.IH [OF i1 Cons.prems(2)] Cons.prems(4) by auto
  have "bm_inv (\<lambda>r. X r - sum_list (map (entries r) (t # ts))) m2"
    by (rule bm_inv_cong [OF m2(2)]) simp
  with m1(1) m2(1) same_tables_trans [OF m1(3) m2(3)] show ?case by simp
qed simp

lemma tables_ok_delete: "tables_ok m \<Longrightarrow> same_tables m m' \<Longrightarrow>
    tables_ok (m'\<lparr>bm_tables := AList.delete k (bm_tables m')\<rparr>) \<and> tables_ok (m'\<lparr>bm_cross := AList.delete i (bm_cross m')\<rparr>)"
  by (auto simp: tables_ok_def same_tables_def set_delete_eq)

lemma bm_free_law:
  assumes "bm_ok m" "set_order so"
  shows "\<exists>m'. bm_free so s m = Inr m' \<and> bm_ok m' \<and> map_of (bm_tables m') (seq_id s) = None
     \<and> (\<forall>k. k \<noteq> seq_id s \<longrightarrow> map_of (bm_tables m') k = map_of (bm_tables m) k) \<and> bm_cross m' = bm_cross m
     \<and> (\<forall>r. bm_refs m' r = bm_refs m r - (case map_of (bm_tables m) (seq_id s) of None \<Rightarrow> 0 | Some t \<Rightarrow> entries r t))"
proof (cases "map_of (bm_tables m) (seq_id s)")
  case None
  then show ?thesis using assms(1) by (simp add: bm_free_def)
next
  case (Some t)
  note ok = bm_okD [OF assms(1)]
  have "sum_list (map (entries r) [t]) \<le> bm_refs m r" for r using uses_table(1) [OF Some] ok(4) by simp
  from free_tables [OF ok(1) assms(2) ok(3) _ this] ok(5) [OF Some] obtain m1 where
    m1: "free_block_table so t m = Inr m1" "bm_inv (\<lambda>r. - entries r t) m1" "same_tables m m1" by auto
  have tabs: "bm_tables m1 = bm_tables m" "bm_cross m1 = bm_cross m" "bm_sliding m1 = None"
    using m1(3) ok(3) by (simp_all add: same_tables_def)
  let ?m = "m1\<lparr>bm_tables := AList.delete (seq_id s) (bm_tables m1)\<rparr>"
  have "bm_inv (\<lambda>_. 0) ?m" using bm_inv_del_table [OF m1(2), of "seq_id s" t] Some tabs by (simp del: map_of_eq_Some_iff)
  then have "bm_ok ?m" using tables_ok_delete [OF ok(2) m1(3)] tabs by (simp add: bm_ok_def)
  moreover have "bm_refs m1 r = bm_refs m r - entries r t" for r
    using bm_invD(4) [OF m1(2), of r] ok(4) [of r] uses_same [OF m1(3)] by simp
  ultimately show ?thesis using Some m1(1) tabs
    by (simp add: bm_free_def map_of_delete del: bindr_Inr_iff map_of_eq_Some_iff)
qed

lemma bm_free_cross_law:
  assumes "bm_ok m" "set_order so"
  shows "\<exists>m'. bm_free_cross so g m = Inr m' \<and> bm_ok m' \<and> map_of (bm_cross m') (request_id g) = None"
proof (cases "map_of (bm_cross m) (request_id g)")
  case None
  then show ?thesis using assms(1) by (simp add: bm_free_cross_def)
next
  case (Some t)
  note ok = bm_okD [OF assms(1)]
  have "sum_list (map (entries r) [t]) \<le> bm_refs m r" for r using uses_table(2) [OF Some] ok(4) by simp
  from free_tables [OF ok(1) assms(2) ok(3) _ this] ok(6) [OF Some] obtain m1 where
    m1: "free_block_table so t m = Inr m1" "bm_inv (\<lambda>r. - entries r t) m1" "same_tables m m1" by auto
  have tabs: "bm_tables m1 = bm_tables m" "bm_cross m1 = bm_cross m" "bm_sliding m1 = None"
    using m1(3) ok(3) by (simp_all add: same_tables_def)
  let ?m = "m1\<lparr>bm_cross := AList.delete (request_id g) (bm_cross m1)\<rparr>"
  have "bm_inv (\<lambda>_. 0) ?m" using bm_inv_del_cross [OF m1(2), of "request_id g" t] Some tabs by (simp del: map_of_eq_Some_iff)
  then have "bm_ok ?m" using tables_ok_delete [OF ok(2) m1(3)] tabs by (simp add: bm_ok_def)
  then show ?thesis using Some m1(1) tabs
    by (simp add: bm_free_cross_def map_of_delete del: bindr_Inr_iff map_of_eq_Some_iff)
qed

lemma bm_reset_law:
  assumes "bm_ok m" "set_order so"
  shows "\<exists>m'. bm_reset so m = Inr m' \<and> bm_ok m' \<and> bm_tables m' = [] \<and> bm_cross m' = [] \<and> bm_total_gpu m' = bm_total_gpu m"
proof -
  note ok = bm_okD [OF assms(1)]
  let ?ts = "map snd (bm_tables m)" and ?cs = "map snd (bm_cross m)"
  have d: "\<forall>t \<in> set ?ts. distinct (tb_blocks t)" "\<forall>t \<in> set ?cs. distinct (tb_blocks t)" using ok(2) by (auto simp: tables_ok_def)
  have nn: "0 \<le> sum_list (map (entries r) us)" for r us by (rule sum_list_nonneg) auto
  have u: "uses m r = sum_list (map (entries r) ?ts) + sum_list (map (entries r) ?cs)" for r
    by (simp add: uses_def dsum_tables)
  have "sum_list (map (entries r) ?ts) \<le> bm_refs m r" for r using nn [of r ?cs] ok(4) u by simp
  from free_tables [OF ok(1) assms(2) ok(3) d(1) this] obtain m1 where
    m1: "foldM (\<lambda>m t. free_block_table so t m) m ?ts = Inr m1" "bm_inv (\<lambda>r. 0 - sum_list (map (entries r) ?ts)) m1" "same_tables m m1"
    by blast
  have tabs: "bm_tables m1 = bm_tables m" "bm_cross m1 = bm_cross m" "bm_sliding m1 = None" "bm_total_gpu m1 = bm_total_gpu m"
    using m1(3) ok(3) by (simp_all add: same_tables_def)
  let ?m1 = "m1\<lparr>bm_tables := []\<rparr>"
  have "bm_inv (\<lambda>r. 0 - sum_list (map (entries r) ?ts) - - sum_list (map (entries r) ?ts)) ?m1"
    by (rule bm_inv_tables [OF m1(2)]) (simp_all add: tabs dsum_tables)
  then have i1: "bm_inv (\<lambda>_. 0) ?m1" by simp
  have "sum_list (map (entries r) ?cs) \<le> bm_refs ?m1 r" for r
    using bm_invD(4) [OF i1, of r] by (simp add: uses_def tabs dsum_tables)
  from free_tables [OF i1 assms(2) _ d(2) this] tabs(3) obtain m2 where
    m2: "foldM (\<lambda>m t. free_block_table so t m) ?m1 ?cs = Inr m2" "bm_inv (\<lambda>r. 0 - sum_list (map (entries r) ?cs)) m2" "same_tables ?m1 m2"
    by auto
  have tabs2: "bm_tables m2 = []" "bm_cross m2 = bm_cross m" "bm_sliding m2 = None" "bm_total_gpu m2 = bm_total_gpu m"
    using m2(3) tabs by (simp_all add: same_tables_def)
  let ?m2 = "m2\<lparr>bm_cross := []\<rparr>"
  have "bm_inv (\<lambda>r. 0 - sum_list (map (entries r) ?cs) - - sum_list (map (entries r) ?cs)) ?m2"
    by (rule bm_inv_cross [OF m2(2)]) (simp_all add: tabs2 dsum_tables)
  then have "bm_ok ?m2" using tabs2 by (simp add: bm_ok_def tables_ok_def)
  with m1(1) m2(1) tabs tabs2 show ?thesis by (simp add: bm_reset_def del: bindr_Inr_iff)
qed

section \<open>Forking and bookkeeping\<close>

lemma tables_ok_update:
  "tables_ok m \<Longrightarrow> bt_ok t \<Longrightarrow> distinct (tb_blocks t) \<Longrightarrow> tables_ok (m\<lparr>bm_tables := AList.update k t (bm_tables m)\<rparr>)"
  "tables_ok m \<Longrightarrow> bt_ok t \<Longrightarrow> distinct (tb_blocks t) \<Longrightarrow> tables_ok (m\<lparr>bm_cross := AList.update i t (bm_cross m)\<rparr>)"
  by (force simp: tables_ok_def dest: set_update_cases)+

lemma tables_ok_same: "same_tables m m' \<Longrightarrow> tables_ok m' = tables_ok m"
  by (simp add: tables_ok_def same_tables_def)

lemma tables_ok_al [simp]: "tables_ok (m\<lparr>bm_gpu := a\<rparr>) = tables_ok m" "tables_ok (m\<lparr>bm_cpu := a\<rparr>) = tables_ok m"
  "tables_ok (m\<lparr>bm_gpu := a, bm_tables := ts\<rparr>) = tables_ok (m\<lparr>bm_tables := ts\<rparr>)"
  by (simp_all add: tables_ok_def)

lemma bm_set_table_ok:
  assumes "bm_inv X m" "map_of (bm_tables m) k = Some t0" "tables_ok m" "bm_sliding m = None"
    and "bt_ok t" "distinct (tb_blocks t)" "\<And>r. X r = entries r t - entries r t0"
  shows "bm_ok (m\<lparr>bm_tables := AList.update k t (bm_tables m)\<rparr>)"
proof -
  have "bm_inv (\<lambda>_. 0) (m\<lparr>bm_tables := AList.update k t (bm_tables m)\<rparr>)"
    by (rule bm_inv_cong [OF bm_inv_set_table [OF assms(1,2)]]) (simp add: assms(7))
  with assms(3-6) show ?thesis by (simp add: bm_ok_def tables_ok_update)
qed

lemma bm_new_table_ok:
  assumes "bm_inv X m" "map_of (bm_tables m) k = None" "tables_ok m" "bm_sliding m = None"
    and "bt_ok t" "distinct (tb_blocks t)" "\<And>r. X r = entries r t"
  shows "bm_ok (m\<lparr>bm_tables := AList.update k t (bm_tables m)\<rparr>)"
proof -
  have "bm_inv (\<lambda>_. 0) (m\<lparr>bm_tables := AList.update k t (bm_tables m)\<rparr>)"
    by (rule bm_inv_cong [OF bm_inv_new_table [OF assms(1,2)]]) (simp add: assms(7))
  with assms(3-6) show ?thesis by (simp add: bm_ok_def tables_ok_update)
qed

lemma bm_refs_block: "0 < bm_refs m r \<Longrightarrow> ref_count (bm_block m r) = bm_refs m r"
  by (simp add: bm_refs_def bm_block_def al_refs_def split: if_splits)

lemma bm_ok_held:
  assumes "bm_ok m" "map_of (bm_tables m) k = Some t" "r \<in> set (tb_blocks t)"
  shows "0 < bm_refs m r"
  using bm_okD(4) [OF assms(1)] uses_table(1) [OF assms(2), of r] entries_pos [OF assms(3)] by simp

lemma bm_share_list:
  assumes "bm_inv X m" "distinct rs" "\<forall>r \<in> set rs. 0 < bm_refs m r"
  shows "bm_inv (\<lambda>r. X r + (if r \<in> set rs then 1 else 0)) (foldl (bm_upd (\<lambda>p. p\<lparr>ref_count := ref_count p + 1\<rparr>)) m rs)
     \<and> same_tables m (foldl (bm_upd (\<lambda>p. p\<lparr>ref_count := ref_count p + 1\<rparr>)) m rs)
     \<and> (\<forall>r. bm_refs (foldl (bm_upd (\<lambda>p. p\<lparr>ref_count := ref_count p + 1\<rparr>)) m rs) r = bm_refs m r + (if r \<in> set rs then 1 else 0))"
  using assms
proof (induction rs arbitrary: X m)
  case (Cons r rs)
  let ?f = "\<lambda>p. p\<lparr>ref_count := ref_count p + 1\<rparr>"
  have u: "bm_inv (X(r := X r + ref_count (?f (bm_block m r)) - bm_refs m r)) (bm_upd ?f m r)"
    "bm_refs (bm_upd ?f m r) = (bm_refs m)(r := ref_count (?f (bm_block m r)))"
    using bm_upd_one [OF Cons.prems(1), of r ?f] Cons.prems(3) bm_refs_block [of m r] by auto
  have c: "ref_count (?f (bm_block m r)) = bm_refs m r + 1" using Cons.prems(3) bm_refs_block [of m r] by simp
  have "\<forall>q \<in> set rs. 0 < bm_refs (bm_upd ?f m r) q" using Cons.prems(2,3) by (auto simp: u(2) c)
  note IH = Cons.IH [OF u(1) _ this, unfolded distinct.simps]
  have d: "distinct rs" "r \<notin> set rs" using Cons.prems(2) by simp_all
  note IH1 = IH [OF d(1), THEN conjunct1] and IH2 = IH [OF d(1), THEN conjunct2, THEN conjunct1]
    and IH3 = IH [OF d(1), THEN conjunct2, THEN conjunct2, rule_format]
  have "bm_inv (\<lambda>q. X q + (if q \<in> set (r # rs) then 1 else 0)) (foldl (bm_upd ?f) m (r # rs))"
    unfolding foldl.simps by (rule bm_inv_cong [OF IH1]) (use d c in auto)
  moreover have "same_tables m (foldl (bm_upd ?f) m (r # rs))"
    unfolding foldl.simps by (rule same_tables_trans [OF same_tables_set_al(2) IH2])
  moreover have "bm_refs (foldl (bm_upd ?f) m (r # rs)) q = bm_refs m q + (if q \<in> set (r # rs) then 1 else 0)" for q
    unfolding foldl.simps IH3 u(2) using d c by simp
  ultimately show ?case by blast
qed simp

lemma bm_fork_law:
  assumes "bm_ok m" "map_of (bm_tables m) (seq_id p) = Some t" "map_of (bm_tables m) (seq_id c) = None"
  shows "bm_ok (bm_fork p c m)" "bm_tables (bm_fork p c m) = AList.update (seq_id c) (bt_copy t) (bm_tables m)"
    and "bm_refs (bm_fork p c m) r = bm_refs m r + entries r t" "bm_cross (bm_fork p c m) = bm_cross m"
proof -
  note ok = bm_okD [OF assms(1)]
  let ?m = "m\<lparr>bm_tables := AList.update (seq_id c) (bt_copy t) (bm_tables m)\<rparr>"
  have d: "distinct (tb_blocks t)" using ok(5) [OF assms(2)] by simp
  have i: "bm_inv (\<lambda>r. - entries r t) ?m" using bm_inv_new_table [OF ok(1) assms(3), of "bt_copy t"] by simp
  have "\<forall>r \<in> set (remdups (tb_blocks t)). 0 < bm_refs ?m r" using bm_ok_held [OF assms(1,2)] by simp
  note law = bm_share_list [OF i distinct_remdups this]
  have f: "bm_fork p c m = foldl (bm_upd (\<lambda>p. p\<lparr>ref_count := ref_count p + 1\<rparr>)) ?m (remdups (tb_blocks t))"
    using assms(2) by (simp add: bm_fork_def del: map_of_eq_Some_iff)
  have z: "(if r \<in> set (remdups (tb_blocks t)) then 1 else 0) = entries r t" for r by (simp add: entries_distinct [OF d])
  have "bm_inv (\<lambda>_. 0) (bm_fork p c m)" "same_tables ?m (bm_fork p c m)" using law unfolding f z by simp_all
  moreover have "tables_ok ?m" using ok(2) d by (simp add: tables_ok_update)
  ultimately show "bm_ok (bm_fork p c m)" "bm_tables (bm_fork p c m) = AList.update (seq_id c) (bt_copy t) (bm_tables m)"
    "bm_cross (bm_fork p c m) = bm_cross m"
    using ok(3) by (simp_all add: bm_ok_def tables_ok_same) (simp_all add: same_tables_def)
  show "bm_refs (bm_fork p c m) r = bm_refs m r + entries r t"
    using law [THEN conjunct2, THEN conjunct2, rule_format, of r] unfolding f z by simp
qed

text \<open>Changing the access time or the computed flag of a block in use.\<close>

lemma bm_upd_meta:
  assumes "bm_ok m" "0 < bm_refs m r" "\<And>p. block_hash (f p) = block_hash p" "\<And>p. ref_count (f p) = ref_count p"
  shows "bm_ok (bm_upd f m r)" "bm_refs (bm_upd f m r) = bm_refs m" "same_tables m (bm_upd f m r)"
proof -
  note ok = bm_okD [OF assms(1)]
  have c: "ref_count (f (bm_block m r)) = bm_refs m r" using bm_refs_block [OF assms(2)] assms(4) by simp
  have u: "bm_inv (\<lambda>_. 0) (bm_upd f m r)" "bm_refs (bm_upd f m r) = bm_refs m"
    using bm_upd_one [OF ok(1) assms(2,3)] c assms(2) by (simp_all add: fun_upd_idem)
  show s: "same_tables m (bm_upd f m r)" by simp
  show "bm_ok (bm_upd f m r)" using u(1) ok(2,3) tables_ok_same [OF s] s by (simp add: bm_ok_def same_tables_def)
  show "bm_refs (bm_upd f m r) = bm_refs m" by (rule u(2))
qed

lemma bm_access_law:
  assumes "bm_ok m" "bm_access_all s now m = Inr m'"
  shows "bm_ok m' \<and> same_tables m m'"
proof (cases "bm_caching m")
  case True
  with assms(2) obtain t where t: "map_of (bm_tables m) (seq_id s) = Some t"
    "m' = foldl (bm_upd (\<lambda>p. p\<lparr>last_accessed := now\<rparr>)) m (tb_blocks t)" by (auto simp: bm_access_all_def)
  have "bm_ok m' \<and> same_tables m m' \<and> bm_refs m' = bm_refs m" unfolding t(2)
  proof (rule foldl_invariant)
    fix n r assume r: "r \<in> set (tb_blocks t)" and n: "bm_ok n \<and> same_tables m n \<and> bm_refs n = bm_refs m"
    have "0 < bm_refs n r" using bm_ok_held [OF assms(1) t(1) r] n by simp
    with n bm_upd_meta [of n r "\<lambda>p. p\<lparr>last_accessed := now\<rparr>"]
    show "bm_ok (bm_upd (\<lambda>p. p\<lparr>last_accessed := now\<rparr>) n r) \<and> same_tables m (bm_upd (\<lambda>p. p\<lparr>last_accessed := now\<rparr>) n r)
        \<and> bm_refs (bm_upd (\<lambda>p. p\<lparr>last_accessed := now\<rparr>) n r) = bm_refs m" by (auto intro: same_tables_trans)
  qed (use assms(1) in simp)
  then show ?thesis by simp
qed (use assms in \<open>simp add: bm_access_all_def\<close>)

lemma py_nth_in: "py_nth xs i = Inr x \<Longrightarrow> x \<in> set xs"
  by (auto simp: py_nth_def Let_def split: if_splits)

lemma mark_computed_law:
  assumes "bm_ok m" "\<forall>r \<in> set (tb_blocks t). 0 < bm_refs m r" "mark_computed t n m = Inr m'"
  shows "bm_ok m' \<and> same_tables m m'"
  using assms
proof (induction n arbitrary: m)
  case (Suc n)
  from Suc.prems(3) obtain r where r: "r \<in> set (tb_blocks t)" and
    run: "(if computed (bm_block m r) then Inr m else mark_computed t n (bm_upd (\<lambda>p. p\<lparr>computed := True\<rparr>) m r)) = Inr m'"
    by (auto simp: bt_get_def dest: py_nth_in)
  show ?case
  proof (cases "computed (bm_block m r)")
    case True
    with run Suc.prems(1) show ?thesis by simp
  next
    case False
    note u = bm_upd_meta [OF Suc.prems(1), of r "\<lambda>p. p\<lparr>computed := True\<rparr>"]
    have "bm_ok m' \<and> same_tables (bm_upd (\<lambda>p. p\<lparr>computed := True\<rparr>) m r) m'"
      using Suc.IH [of "bm_upd (\<lambda>p. p\<lparr>computed := True\<rparr>) m r"] run False r u Suc.prems(2) by simp
    then show ?thesis using same_tables_trans [OF same_tables_set_al(2)] by blast
  qed
qed simp

lemma bm_compute_law:
  assumes "bm_ok m" "bm_compute_full_blocks s n m = Inr m'"
  shows "bm_ok m' \<and> same_tables m m'"
proof (cases "map_of (bm_tables m) (seq_id s)")
  case (Some t)
  then have "\<exists>k. mark_computed t k m = Inr m'"
    using assms(2) by (auto simp: bm_compute_full_blocks_def Let_def split: if_splits)
  with mark_computed_law [OF assms(1), of t] bm_ok_held [OF assms(1) Some] show ?thesis by blast
qed (use assms in \<open>simp add: bm_compute_full_blocks_def\<close>)

lemma bm_mark_law:
  assumes "bm_ok m" "bm_mark_blocks g n m = Inr m'"
  shows "bm_ok m' \<and> same_tables m m'"
proof (cases "bm_caching m")
  case True
  with assms(2) have "foldM (\<lambda>m s. bm_compute_full_blocks s n m) m (seqs g) = Inr m'" by (simp add: bm_mark_blocks_def)
  then show ?thesis
    by (rule foldM_invariant) (use assms(1) bm_compute_law same_tables_trans in \<open>simp, blast\<close>)
qed (use assms in \<open>simp add: bm_mark_blocks_def\<close>)

section \<open>Appending a slot\<close>

text \<open>
  With prefix caching a full block is looked up by the hash of its tokens.  \<open>fresh_hash\<close> says that no block of the
  table other than the one in the last place has the hash of the last block, which holds unless Python's \<open>hash\<close> collides:
  each block of a table hashes a longer prefix.  The block in the last place may have it already: a
  chunked prefill calls \<open>append_slots\<close> again for a prompt that fills its last block.
\<close>

definition fresh_hash ::
  "(((int list \<times> int list option) \<times> int) \<Rightarrow> int) \<Rightarrow> sequence \<Rightarrow> block_table \<Rightarrow> block_mgr \<Rightarrow> bool" where
  "fresh_hash hsh s t m \<longleftrightarrow> bm_caching m \<longrightarrow>
     (\<forall>r \<in> set (if bt_len t < n_blocks s then tb_blocks t else butlast (tb_blocks t)).
        block_hash (bm_block m r) \<noteq> hash_of_block hsh s (n_blocks s - 1))"

lemma allocate_last_law:
  assumes "bm_inv X m" "allocate_last_physical_block hsh s m = Inr (b, m')"
  shows "bm_inv (X((GPU, b) := X (GPU, b) + 1)) m'" "same_tables m m'" "bm_cpu m' = bm_cpu m"
    and "bm_refs m' = (bm_refs m)((GPU, b) := bm_refs m (GPU, b) + 1)"
    and "bm_refs m (GPU, b) \<noteq> 0 \<Longrightarrow> bm_caching m \<and> is_last_block_full s = Inr True
           \<and> block_hash (bm_block m (GPU, b)) = hash_of_block hsh s (n_blocks s - 1)"
proof -
  obtain h n gpu where a: "al_allocate h n (bm_al GPU m) = Inr (b, gpu)" and m': "m' = bm_set_al GPU gpu m"
    and h: "bm_caching m \<longrightarrow> h = None \<and> ref_count (al_heap gpu ! b) = 1
        \<or> h = Some (hash_of_block hsh s (n_blocks s - 1)) \<and> is_last_block_full s = Inr True"
    using assms(2) by (auto simp: allocate_last_physical_block_def Let_def split: if_splits)
  note one = bm_alloc_one [OF assms(1) a, folded m']
  then show "bm_inv (X((GPU, b) := X (GPU, b) + 1)) m'"
    and refs: "bm_refs m' = (bm_refs m)((GPU, b) := bm_refs m (GPU, b) + 1)" by simp_all
  show "same_tables m m'" "bm_cpu m' = bm_cpu m" by (simp_all add: m' same_tables_def)
  note al = bm_invD(1) [OF assms(1), of GPU]
  note blk = al_allocate_block [OF al a]
  show "bm_caching m \<and> is_last_block_full s = Inr True \<and> block_hash (bm_block m (GPU, b)) = hash_of_block hsh s (n_blocks s - 1)"
    if nz: "bm_refs m (GPU, b) \<noteq> 0"
  proof -
    have pos: "0 < al_refs (bm_al GPU m) b" using nz blocks.refs_nonneg [OF al, of b] by (simp add: bm_refs_def)
    have c: "al_caching (bm_al GPU m)" using blk(5) pos by auto
    then have c': "bm_caching m" using bm_invD(6) [OF assms(1), of GPU] by simp
    have "bm_refs m' (GPU, b) = ref_count (al_heap gpu ! b)" using blk(2) by (simp add: bm_refs_def al_refs_def m')
    then have "ref_count (al_heap gpu ! b) \<noteq> 1" using refs nz by simp
    with h c' have h': "h = Some (hash_of_block hsh s (n_blocks s - 1))" "is_last_block_full s = Inr True" by simp_all
    from blk(7) [OF c h'(1) pos] c' h'(2) show ?thesis by (simp add: bm_block_def)
  qed
qed

lemma al_update_hash_law:
  assumes "al_ok a" "0 < al_refs a b" "al_contains h a = Inr False" "al_update_hash h b a = Inr a'"
  shows "al_ok a' \<and> al_num_total a' = al_num_total a \<and> al_refs a' = al_refs a \<and> al_caching a' = al_caching a"
proof (cases a)
  case (Cached q)
  with assms have b: "b < length (ca_heap q)" "0 < ref_count (ca_heap q ! b)" by (auto simp: al_refs_def split: if_splits)
  with Cached assms ca_update_hash_law [of q b h] show ?thesis
    by (auto simp: al_refs_def fun_eq_iff nth_list_update)
qed (use assms in simp)

lemma bm_refs_set_al: "bm_refs (bm_set_al d a m) r = (if fst r = d then al_refs a (snd r) else bm_refs m r)"
  by (simp add: bm_refs_def)

lemma promote_law:
  assumes "bm_inv X m" "bm_refs m (GPU, b) = 1" "promote_last_block hsh s b m = Inr (b', m')"
  shows "bm_inv (\<lambda>r. X r + (if r = (GPU, b') then 1 else 0) - (if r = (GPU, b) then 1 else 0)) m'" "same_tables m m'"
    and "b' \<noteq> b \<Longrightarrow> 0 < bm_refs m (GPU, b') \<Longrightarrow> block_hash (bm_block m (GPU, b')) = hash_of_block hsh s (n_blocks s - 1)"
proof -
  let ?h = "hash_of_block hsh s (n_blocks s - 1)"
  have c: "bm_caching m" using assms(3) by (simp add: promote_last_block_def)
  then have ac: "al_caching (bm_al GPU m)" using bm_invD(6) [OF assms(1), of GPU] by simp
  note al = bm_invD(1) [OF assms(1), of GPU]
  have pos: "0 < al_refs (bm_gpu m) b" using assms(2) by (simp add: bm_refs_def)
  obtain hit where hit: "al_contains ?h (bm_gpu m) = Inr hit" using assms(3) by (auto simp: promote_last_block_def Let_def)
  have all: "bm_inv (\<lambda>r. X r + (if r = (GPU, b') then 1 else 0) - (if r = (GPU, b) then 1 else 0)) m' \<and> same_tables m m'
    \<and> (b' \<noteq> b \<longrightarrow> 0 < bm_refs m (GPU, b') \<longrightarrow> block_hash (bm_block m (GPU, b')) = ?h)"
  proof (cases hit)
    case False
    with hit assms(3) obtain a where a: "al_update_hash ?h b (bm_gpu m) = Inr a" "b' = b" "m' = bm_set_al GPU a m"
      by (auto simp: promote_last_block_def Let_def)
    note u = al_update_hash_law [of "bm_gpu m", OF _ pos _ a(1)]
    have "bm_inv (\<lambda>r. X r + (if fst r = GPU then 0 else 0)) m'"
      unfolding a(3) by (rule bm_inv_set_al [OF assms(1)]) (use u al hit False in simp_all)
    with a(2,3) show ?thesis by (simp add: same_tables_def)
  next
    case True
    with hit assms(3) obtain a1 a2 where a1: "al_free b (bm_al GPU m) = Inr a1"
      and a2: "al_allocate (Some ?h) 0 (bm_al GPU (bm_set_al GPU a1 m)) = Inr (b', a2)" and m': "m' = bm_set_al GPU a2 (bm_set_al GPU a1 m)"
      by (auto simp: promote_last_block_def Let_def)
    let ?m1 = "bm_set_al GPU a1 m"
    have one: "bm_inv (X((GPU, b) := X (GPU, b) - 1)) ?m1" "bm_refs ?m1 = (bm_refs m)((GPU, b) := bm_refs m (GPU, b) - 1)"
      using bm_free_one [OF assms(1), of "(GPU, b)"] a1 assms(2) by auto
    have two: "bm_inv ((X((GPU, b) := X (GPU, b) - 1))((GPU, b') := (X((GPU, b) := X (GPU, b) - 1)) (GPU, b') + 1)) m'"
      using bm_alloc_one [OF one(1) a2] by (simp add: m')
    have "bm_inv (\<lambda>r. X r + (if r = (GPU, b') then 1 else 0) - (if r = (GPU, b) then 1 else 0)) m'"
      by (rule bm_inv_cong [OF two]) auto
    moreover have "same_tables m m'" by (simp add: m' same_tables_def)
    moreover have "block_hash (bm_block m (GPU, b')) = ?h" if "b' \<noteq> b" "0 < bm_refs m (GPU, b')"
    proof -
      have h1: "al_heap a1 = (al_heap (bm_gpu m))[b := (al_heap (bm_gpu m) ! b)\<lparr>ref_count := ref_count (al_heap (bm_gpu m) ! b) - 1\<rparr>]"
        "al_caching a1" using al_free_block [of "bm_gpu m" b a1] al pos a1 ac by auto
      have "al_refs a1 b' = bm_refs m (GPU, b')" using that(1) fun_cong [OF one(2), of "(GPU, b')"] by (simp add: bm_refs_def)
      then have "0 < al_refs a1 b'" using that(2) by simp
      from al_allocate_block(7) [OF bm_invD(1) [OF one(1), of GPU] a2 _ refl] this h1 that show ?thesis by (simp add: bm_block_def)
    qed
    ultimately show ?thesis by blast
  qed
  then show "bm_inv (\<lambda>r. X r + (if r = (GPU, b') then 1 else 0) - (if r = (GPU, b) then 1 else 0)) m'" "same_tables m m'"
    "b' \<noteq> b \<Longrightarrow> 0 < bm_refs m (GPU, b') \<Longrightarrow> block_hash (bm_block m (GPU, b')) = ?h" by blast+
qed

text \<open>What a call that succeeds has done to the table \<open>t\<close> of the sequence.\<close>

definition appended ::
  "sequence \<Rightarrow> block_table \<Rightarrow> block_mgr \<Rightarrow> block_mgr \<Rightarrow> (nat \<times> nat) list \<Rightarrow> bool \<Rightarrow> bool" where
  "appended s t m m' moves grow \<longleftrightarrow> bm_ok m' \<and> bm_cross m' = bm_cross m \<and> bm_cpu m' = bm_cpu m \<and> bm_caching m' = bm_caching m
     \<and> (\<exists>t' b. map_of (bm_tables m') = (map_of (bm_tables m))(seq_id s \<mapsto> t')
          \<and> tb_blocks t' = (if grow then tb_blocks t else butlast (tb_blocks t)) @ [(GPU, b)]
          \<and> (bm_refs m' (GPU, b) = 1 \<or> bm_caching m \<and> is_last_block_full s = Inr True)
          \<and> (moves = [] \<and> (grow \<or> bm_caching m \<or> tb_blocks t' = tb_blocks t)
             \<or> (\<exists>a. moves = [(a, b)] \<and> \<not> grow \<and> last (tb_blocks t) = (GPU, a) \<and> 1 < bm_refs m (GPU, a)
                  \<and> (a \<noteq> b \<or> bm_caching m \<and> is_last_block_full s = Inr True))))"

lemma appendedI:
  assumes "bm_inv X m1" "same_tables m m1" "bm_cpu m1 = bm_cpu m" "bm_ok m" "map_of (bm_tables m) (seq_id s) = Some t" "bt_ok t'"
    and "tb_blocks t' = (if grow then tb_blocks t else butlast (tb_blocks t)) @ [(GPU, b)]"
    and "(GPU, b) \<notin> set (if grow then tb_blocks t else butlast (tb_blocks t))"
    and "\<And>r. X r = (if r = (GPU, b) then 1 else 0) - (if \<not> grow \<and> r = last (tb_blocks t) then 1 else 0)"
    and "grow \<or> tb_blocks t \<noteq> []"
    and "bm_refs m1 (GPU, b) = 1 \<or> bm_caching m \<and> is_last_block_full s = Inr True"
    and "moves = [] \<and> (grow \<or> bm_caching m \<or> tb_blocks t' = tb_blocks t)
       \<or> (\<exists>a. moves = [(a, b)] \<and> \<not> grow \<and> last (tb_blocks t) = (GPU, a) \<and> 1 < bm_refs m (GPU, a)
            \<and> (a \<noteq> b \<or> bm_caching m \<and> is_last_block_full s = Inr True))"
  shows "appended s t m (m1\<lparr>bm_tables := AList.update (seq_id s) t' (bm_tables m1)\<rparr>) moves grow"
proof -
  note ok = bm_okD [OF assms(4)]
  have d: "distinct (tb_blocks t)" using ok(5) [OF assms(5)] by simp
  then have d': "distinct (tb_blocks t')" using assms(7,8) by (auto simp: distinct_butlast)
  have e: "entries r t' = entries r t + X r" for r
  proof (cases "grow \<or> tb_blocks t = []")
    case True
    with assms(7,9,10) show ?thesis by (auto simp: entries_def)
  next
    case False
    then obtain rs q where "tb_blocks t = rs @ [q]" by (metis rev_exhaust)
    with False assms(7,9) show ?thesis by (auto simp: entries_def)
  qed
  have tabs: "bm_tables m1 = bm_tables m" "bm_cross m1 = bm_cross m" "bm_sliding m1 = None" "bm_caching m1 = bm_caching m"
    using assms(2) ok(3) by (simp_all add: same_tables_def)
  have "bm_ok (m1\<lparr>bm_tables := AList.update (seq_id s) t' (bm_tables m1)\<rparr>)"
    by (rule bm_set_table_ok [OF assms(1)]) (use assms(5,6) ok(2) d' tabs e tables_ok_same [OF assms(2)] in \<open>simp_all del: map_of_eq_Some_iff\<close>)
  moreover have "map_of (AList.update (seq_id s) t' (bm_tables m)) = (map_of (bm_tables m))(seq_id s \<mapsto> t')"
    by (rule update_conv')
  ultimately show ?thesis unfolding appended_def
    by (intro conjI exI [of _ t'] exI [of _ b]) (use assms(3,7,11,12) tabs in simp_all)
qed

lemma append_to_last_law:
  assumes "bm_ok m" "map_of (bm_tables m) (seq_id s) = Some t" "append_to_last hsh s t m = Inr (m', moves)"
    and "bm_caching m \<longrightarrow> (\<forall>r \<in> set (butlast (tb_blocks t)). block_hash (bm_block m r) \<noteq> hash_of_block hsh s (n_blocks s - 1))"
  shows "appended s t m m' moves False"
proof -
  note ok = bm_okD [OF assms(1)]
  have tt: "bt_ok t" "distinct (tb_blocks t)" using ok(5) [OF assms(2)] by simp_all
  from assms(3) obtain r where r: "bt_get t (- 1) = Inr r" "fst r = GPU" by (auto simp: append_to_last_def)
  then have ne: "tb_blocks t \<noteq> []" by (auto simp: bt_get_def py_nth_def Let_def split: if_splits)
  then obtain rs where rs: "tb_blocks t = rs @ [r]" using r(1) by (metis bt_get_def py_nth_last rev_exhaust sum.inject(2))
  obtain a where a: "r = (GPU, a)" using r(2) by (cases r) simp
  have held: "0 < bm_refs m q" if "q \<in> set (tb_blocks t)" for q by (rule bm_ok_held [OF assms(1,2) that])
  have ref: "ref_count (bm_block m r) = bm_refs m r" by (rule bm_refs_block [OF held]) (simp add: rs)
  note set_last = bt_set_last_law [OF ne]
  show ?thesis
  proof (cases "bm_refs m r = 1")
    case False
    then have "1 < bm_refs m r" using held [of r] by (simp add: rs)
    from False assms(3) r ref a obtain b m1 t' gpu where b: "allocate_last_physical_block hsh s m = Inr (b, m1)"
      and t': "bt_set_last (GPU, b) t = Inr t'" and gpu: "al_free (snd r) (bm_al GPU m1) = Inr gpu" and moves: "moves = [(a, b)]"
      and m': "m' = (bm_set_al GPU gpu m1)\<lparr>bm_tables := AList.update (seq_id s) t' (bm_tables (bm_set_al GPU gpu m1))\<rparr>"
      by (auto simp: append_to_last_def)
    note al = allocate_last_law [OF ok(1) b]
    have new: "bm_refs m (GPU, b) = 0 \<or> bm_caching m \<and> is_last_block_full s = Inr True" using al(5) by blast
    have notin: "(GPU, b) \<notin> set (butlast (tb_blocks t))"
    proof
      assume *: "(GPU, b) \<in> set (butlast (tb_blocks t))"
      have "0 < bm_refs m (GPU, b)" by (rule held [OF in_set_butlastD [OF *]])
      then have "bm_refs m (GPU, b) \<noteq> 0" by simp
      from al(5) [OF this] assms(4) * show False by blast
    qed
    have ab: "a \<noteq> b \<or> bm_caching m \<and> is_last_block_full s = Inr True" using new held [of r] rs a by auto
    have "0 < bm_refs m1 r" using al(4) held [of r] rs a by (cases "a = b") simp_all
    from bm_free_one [OF al(1) this] gpu r(2) have
      two: "bm_inv (((\<lambda>_. 0)((GPU, b) := 0 + 1))(r := ((\<lambda>_. 0)((GPU, b) := 0 + 1)) r - 1)) (bm_set_al GPU gpu m1)"
      "bm_refs (bm_set_al GPU gpu m1) = (bm_refs m1)(r := bm_refs m1 r - 1)" by auto
    show ?thesis unfolding m'
    proof (rule appendedI [OF two(1) same_tables_trans [OF al(2) same_tables_set_al(1)] _ assms(1,2)])
      show "bm_cpu (bm_set_al GPU gpu m1) = bm_cpu m" using al(3) by simp
      show "bt_ok t'" "tb_blocks t' = (if False then tb_blocks t else butlast (tb_blocks t)) @ [(GPU, b)]"
        using set_last [of "(GPU, b)"] t' tt(1) by auto
      show "(GPU, b) \<notin> set (if False then tb_blocks t else butlast (tb_blocks t))" using notin by simp
      show "bm_refs (bm_set_al GPU gpu m1) (GPU, b) = 1 \<or> bm_caching m \<and> is_last_block_full s = Inr True"
        using new ab a al(4) two(2) by auto
      show "moves = [] \<and> (False \<or> bm_caching m \<or> tb_blocks t' = tb_blocks t) \<or>
          (\<exists>a. moves = [(a, b)] \<and> \<not> False \<and> last (tb_blocks t) = (GPU, a) \<and> 1 < bm_refs m (GPU, a)
            \<and> (a \<noteq> b \<or> bm_caching m \<and> is_last_block_full s = Inr True))"
        using moves ab a rs \<open>1 < bm_refs m r\<close> by simp
    qed (use ne rs a in auto)
  next
    case one: True
    show ?thesis
    proof (cases "bm_caching m")
      case False
      with one assms(3) r ref have m': "m' = m\<lparr>bm_tables := AList.update (seq_id s) t (bm_tables m)\<rparr>" "moves = []"
        by (auto simp: append_to_last_def)
      show ?thesis unfolding m'(1)
        by (rule appendedI [OF ok(1) same_tables_refl refl assms(1,2) tt(1), of False a]) (use rs a tt(2) one m'(2) in auto)
    next
      case True
      from one True assms(3) r ref a obtain b m1 t' where b: "maybe_promote_last_block hsh s a m = Inr (b, m1)"
        and t': "bt_set_last (GPU, b) t = Inr t'" and moves: "moves = []"
        and m': "m' = m1\<lparr>bm_tables := AList.update (seq_id s) t' (bm_tables m1)\<rparr>"
        by (auto simp: append_to_last_def)
      have t'': "bt_ok t'" "tb_blocks t' = (if False then tb_blocks t else butlast (tb_blocks t)) @ [(GPU, b)]"
        using set_last [of "(GPU, b)"] t' tt(1) by auto
      from b obtain full where full: "is_last_block_full s = Inr full"
        "(if full then promote_last_block hsh s a m else Inr (a, m)) = Inr (b, m1)" by (auto simp: maybe_promote_last_block_def)
      show ?thesis
      proof (cases full)
        case False
        with full(2) have eq: "b = a" "m1 = m" by simp_all
        show ?thesis unfolding m' eq(2)
          by (rule appendedI [OF ok(1) same_tables_refl refl assms(1,2) t''(1), of False b])
            (use t''(2) rs a tt(2) one moves eq(1) True in auto)
      next
        case full': True
        with full(2) have p: "promote_last_block hsh s a m = Inr (b, m1)" by simp
        note pl = promote_law [OF ok(1) one [unfolded a] p]
        have "bm_cpu m1 = bm_cpu m" using p by (auto simp: promote_last_block_def Let_def split: if_splits)
        moreover have "(GPU, b) \<notin> set (butlast (tb_blocks t))"
        proof
          assume *: "(GPU, b) \<in> set (butlast (tb_blocks t))"
          then have "b \<noteq> a" "(GPU, b) \<in> set (tb_blocks t)" using tt(2) rs a by (auto dest: in_set_butlastD)
          with pl(3) held assms(4) True * show False by auto
        qed
        ultimately show ?thesis unfolding m'
          by (intro appendedI [OF pl(1,2) _ assms(1,2) t''(1), of False b])
            (use t''(2) rs a moves full full' True in auto)
      qed
    qed
  qed
qed

lemma bm_append_law:
  assumes "bm_ok m" "map_of (bm_tables m) (seq_id s) = Some t" "fresh_hash hsh s t m" "bm_append_slots hsh s m = Inr (m', moves)"
  shows "appended s t m m' moves (bt_len t < n_blocks s)"
proof (cases "bt_len t < n_blocks s")
  case False
  with assms(2,4) have "append_to_last hsh s t m = Inr (m', moves)" by (simp add: bm_append_slots_def del: map_of_eq_Some_iff)
  with append_to_last_law [OF assms(1,2)] assms(3) False show ?thesis by (simp add: fresh_hash_def)
next
  case True
  note ok = bm_okD [OF assms(1)]
  have tt: "bt_ok t" "distinct (tb_blocks t)" using ok(5) [OF assms(2)] by simp_all
  from True assms(2,4) ok(3) obtain b m1 where b: "allocate_last_physical_block hsh s m = Inr (b, m1)" and moves: "moves = []"
    and m': "m' = m1\<lparr>bm_tables := AList.update (seq_id s) (bt_append (GPU, b) t) (bm_tables m1)\<rparr>"
    by (auto simp: bm_append_slots_def simp del: map_of_eq_Some_iff)
  note al = allocate_last_law [OF ok(1) b]
  have new: "bm_refs m (GPU, b) = 0 \<or> bm_caching m \<and> is_last_block_full s = Inr True" "(GPU, b) \<notin> set (tb_blocks t)"
    using al(5) assms(3) bm_ok_held [OF assms(1,2)] True by (fastforce simp: fresh_hash_def)+
  have "appended s t m m' moves True" unfolding m'
    by (rule appendedI [OF al(1-3) assms(1,2), of _ True b]) (use tt new moves al(4) in auto)
  with True show ?thesis by simp
qed

text \<open>Appending fails for lack of a block only.\<close>

definition append_ready :: "block_mgr \<Rightarrow> sequence \<Rightarrow> bool" where
  "append_ready m s \<longleftrightarrow> (\<exists>t. map_of (bm_tables m) (seq_id s) = Some t
     \<and> (bt_len t = n_blocks s - 1 \<or> bt_len t = n_blocks s \<and> tb_blocks t \<noteq> [] \<and> fst (last (tb_blocks t)) = GPU))"

lemma append_succeeds:
  assumes "bm_ok m" "\<not> bm_caching m" "append_ready m s" "0 < al_num_free (bm_gpu m)"
  shows "\<exists>m' moves. bm_append_slots hsh s m = Inr (m', moves) \<and> al_num_free (bm_gpu m) - 1 \<le> al_num_free (bm_gpu m')"
proof -
  note ok = bm_okD [OF assms(1)]
  from assms(3) obtain t where t: "map_of (bm_tables m) (seq_id s) = Some t"
    "bt_len t = n_blocks s - 1 \<or> bt_len t = n_blocks s \<and> tb_blocks t \<noteq> [] \<and> fst (last (tb_blocks t)) = GPU"
    by (auto simp: append_ready_def)
  have "al_ok (bm_gpu m)" using bm_invD(1) [OF ok(1), of GPU] by simp
  from blocks.num_free_nonneg_alloc [OF this assms(4), of None 0] obtain b gpu where
    b: "al_allocate None 0 (bm_gpu m) = Inr (b, gpu)" "al_ok gpu" "al_num_free (bm_gpu m) - 1 \<le> al_num_free gpu"
    "al_refs gpu = (al_refs (bm_gpu m))(b := al_refs (bm_gpu m) b + 1)" by blast
  have al: "allocate_last_physical_block hsh s m = Inr (b, m\<lparr>bm_gpu := gpu\<rparr>)"
    using assms(2) b(1) by (simp add: allocate_last_physical_block_def)
  from t(2) show ?thesis
  proof (elim disjE conjE)
    assume "bt_len t = n_blocks s - 1"
    with t(1) al b(3) ok(3) show ?thesis by (simp add: bm_append_slots_def del: bindr_Inr_iff map_of_eq_Some_iff)
  next
    assume n: "bt_len t = n_blocks s" and ne: "tb_blocks t \<noteq> []" and gp: "fst (last (tb_blocks t)) = GPU"
    obtain rs r where rs: "tb_blocks t = rs @ [r]" using ne by (metis rev_exhaust)
    with gp obtain a where a: "r = (GPU, a)" by (cases r) simp
    have get: "bt_get t (- 1) = Inr r" by (simp add: bt_get_def rs)
    have held: "0 < bm_refs m r" by (rule bm_ok_held [OF assms(1) t(1)]) (simp add: rs)
    have run: "bm_append_slots hsh s m = append_to_last hsh s t m"
      using t(1) n by (simp add: bm_append_slots_def del: map_of_eq_Some_iff)
    show ?thesis
    proof (cases "bm_refs m r = 1")
      case True
      then have "ref_count (bm_block m r) = 1" using bm_refs_block [OF held] by simp
      with get a assms(2) show ?thesis by (simp add: run append_to_last_def del: bindr_Inr_iff)
    next
      case False
      then have shared: "ref_count (bm_block m r) \<noteq> 1" using bm_refs_block [OF held] by simp
      obtain t' where t': "bt_set_last (GPU, b) t = Inr t'" using bt_set_last_law [OF ne] by blast
      have pos: "0 < al_refs gpu a" using held b(4) a by (auto simp: bm_refs_def)
      with blocks.release_law [OF b(2)] obtain gpu' where g: "al_free a gpu = Inr gpu'" by blast
      with get a shared al t' blocks.release_free [OF b(2) pos g] b(3) show ?thesis
        by (simp add: run append_to_last_def del: bindr_Inr_iff)
    qed
  qed
qed

text \<open>\<open>_append_slots\<close> of the scheduler calls \<open>append_slots\<close> for each running sequence of a group.\<close>

lemma append_all:
  assumes "bm_ok m" "\<not> bm_caching m" "distinct (map seq_id ss)" "\<forall>s \<in> set ss. append_ready m s"
    and "int (length ss) \<le> al_num_free (bm_gpu m)"
  shows "\<exists>m'. foldM (\<lambda>m s. bindr (bm_append_slots hsh s m) (\<lambda>(m', moves). Inr m')) m ss = Inr m' \<and> bm_ok m'"
  using assms
proof (induction ss arbitrary: m)
  case (Cons s ss)
  from append_succeeds [OF Cons.prems(1,2), of s hsh] Cons.prems(4,5) obtain m1 moves where
    m1: "bm_append_slots hsh s m = Inr (m1, moves)" "al_num_free (bm_gpu m) - 1 \<le> al_num_free (bm_gpu m1)" by auto
  from Cons.prems(4) obtain t where t: "map_of (bm_tables m) (seq_id s) = Some t" by (auto simp: append_ready_def)
  have "fresh_hash hsh s t m" using Cons.prems(2) by (simp add: fresh_hash_def)
  from bm_append_law [OF Cons.prems(1) t this m1(1)] obtain t' where
    m1': "bm_ok m1" "bm_caching m1 = bm_caching m" "map_of (bm_tables m1) = (map_of (bm_tables m))(seq_id s \<mapsto> t')"
    by (auto simp: appended_def)
  have "append_ready m1 s'" if "s' \<in> set ss" for s'
  proof -
    have "seq_id s' \<noteq> seq_id s" using that Cons.prems(3) by (auto simp: rev_image_eqI)
    moreover have "append_ready m s'" using that Cons.prems(4) by simp
    ultimately show ?thesis by (simp add: append_ready_def m1'(3) del: map_of_eq_Some_iff)
  qed
  with Cons.IH [OF m1'(1)] Cons.prems(2,3,5) m1(2) m1'(2) have
    "\<exists>m'. foldM (\<lambda>m s. bindr (bm_append_slots hsh s m) (\<lambda>(m', moves). Inr m')) m1 ss = Inr m' \<and> bm_ok m'" by simp
  with m1(1) show ?case by simp
qed simp

section \<open>Allocating\<close>

lemma allocate_plain_step:
  assumes "bm_inv (\<lambda>r. X r + k * entries r t) (bm_set_al GPU gpu m)" "\<And>r. 0 \<le> X r" "0 < k" "\<not> bm_caching m"
    and "al_allocate None 0 gpu = Inr (b, gpu')"
  shows "bm_inv (\<lambda>r. X r + k * entries r (bt_append (GPU, b) t)) (bm_set_al GPU (al_set_refs b k gpu') m)" "(GPU, b) \<notin> set (tb_blocks t)"
proof -
  let ?m = "bm_set_al GPU gpu m"
  have a: "al_allocate None 0 (bm_al GPU ?m) = Inr (b, gpu')" using assms(5) by simp
  have nc: "\<not> al_caching (bm_al GPU ?m)" using bm_invD(6) [OF assms(1), of GPU] assms(4) by simp
  from al_allocate_block(5) [OF bm_invD(1) [OF assms(1)] a nc] have z: "bm_refs ?m (GPU, b) = 0" by (simp add: bm_refs_def)
  show new: "(GPU, b) \<notin> set (tb_blocks t)"
  proof
    assume "(GPU, b) \<in> set (tb_blocks t)"
    then have "0 < k * entries (GPU, b) t" using assms(3) entries_pos by simp
    moreover have "0 \<le> uses ?m (GPU, b)"
      unfolding uses_def by (intro add_nonneg_nonneg dsum_nonneg) simp_all
    ultimately show False using bm_invD(4) [OF assms(1), of "(GPU, b)"] assms(2) [of "(GPU, b)"] z by simp
  qed
  note one = bm_alloc_one [OF assms(1) a]
  let ?m1 = "bm_set_al GPU gpu' ?m"
  have r1: "bm_refs ?m1 (GPU, b) = 1" using one z by simp
  then have c: "0 < bm_refs ?m1 (GPU, b)" by simp
  have up: "bm_upd (\<lambda>p. p\<lparr>ref_count := k\<rparr>) ?m1 (GPU, b) = bm_set_al GPU (al_set_refs b k gpu') m"
    by (simp add: bm_upd_def al_set_refs_def)
  have "entries (GPU, b) t = 0" using new by (simp add: entries_def count_list_0_iff)
  note two = bm_upd_one [OF one [THEN conjunct1] c, of "\<lambda>p. p\<lparr>ref_count := k\<rparr>", unfolded up]
  show "bm_inv (\<lambda>r. X r + k * entries r (bt_append (GPU, b) t)) (bm_set_al GPU (al_set_refs b k gpu') m)"
    by (rule bm_inv_cong [OF two [THEN conjunct1]]) (use assms(3) r1 new in \<open>auto simp: algebra_simps\<close>)
qed

definition gpu_table :: "block_table \<Rightarrow> bool" where
  "gpu_table t \<longleftrightarrow> (\<forall>r \<in> set (tb_blocks t). fst r = GPU)"

lemma allocate_plain:
  assumes "bm_inv (\<lambda>_. 0) m" "bm_sliding m = None" "\<not> bm_caching m" "0 < k"
    and "allocate_sequence hsh m (Some s) k ed = Inr (t, gpu)"
  shows "bm_inv (\<lambda>r. k * entries r t) (bm_set_al GPU gpu m)" "distinct (tb_blocks t)" "bt_ok t"
    and "length (tb_blocks t) = nat (n_blocks s)" "gpu_table t"
proof -
  let ?P = "\<lambda>n st. bm_inv (\<lambda>r. 0 + k * entries r (fst st)) (bm_set_al GPU (snd st) m) \<and> distinct (tb_blocks (fst st)) \<and> bt_ok (fst st)
    \<and> length (tb_blocks (fst st)) = n \<and> gpu_table (fst st)"
  have "foldM (allocate_block_at hsh m s k ed) (bt_empty, bm_gpu m) [0..<n] = Inr st \<Longrightarrow> ?P n st" for n st
  proof (induction n arbitrary: st)
    case 0
    have "bm_set_al GPU (bm_gpu m) m = m" by simp
    with 0 assms(1) show ?case by (auto simp: gpu_table_def)
  next
    case (Suc n)
    then obtain st1 where st1: "foldM (allocate_block_at hsh m s k ed) (bt_empty, bm_gpu m) [0..<n] = Inr st1"
      "allocate_block_at hsh m s k ed st1 n = Inr st" by auto
    obtain t1 g1 where s1: "st1 = (t1, g1)" by (cases st1)
    from st1(2) assms(2,3) s1 obtain b g2 where b: "al_allocate None 0 g1 = Inr (b, g2)" "st = (bt_append (GPU, b) t1, al_set_refs b k g2)"
      by (auto simp: allocate_block_at_def)
    note IH = Suc.IH [OF st1(1), unfolded s1 fst_conv snd_conv]
    from allocate_plain_step [OF IH [THEN conjunct1] _ assms(4,3) b(1)] IH b(2)
    show ?case by (simp add: gpu_table_def)
  qed
  from this [of "nat (n_blocks s)" "(t, gpu)"] assms(5)
  have "?P (nat (n_blocks s)) (t, gpu)" by (simp add: allocate_sequence_def required_blocks_def)
  then show "bm_inv (\<lambda>r. k * entries r t) (bm_set_al GPU gpu m)" "distinct (tb_blocks t)" "bt_ok t"
    "length (tb_blocks t) = nat (n_blocks s)" "gpu_table t" by simp_all
qed

text \<open>
  With prefix caching the block of position \<open>i\<close> is the one cached under the hash of the tokens up to it, so blocks of
  different positions differ as long as these hashes do.
\<close>

definition prompt_hashes_distinct :: "(((int list \<times> int list option) \<times> int) \<Rightarrow> int) \<Rightarrow> sequence \<Rightarrow> bool" where
  "prompt_hashes_distinct hsh s \<longleftrightarrow> distinct (map (\<lambda>i. hash_of_block hsh s (int i)) [0..<nat (n_blocks s)])"

lemma allocate_cached_step:
  assumes "bm_inv (\<lambda>r. entries r t) (bm_set_al GPU gpu m)" "bm_caching m" "al_allocate (Some h) n gpu = Inr (b, gpu')"
    and "\<forall>r \<in> set (tb_blocks t). fst r = GPU \<and> block_hash (al_heap gpu ! snd r) \<noteq> h"
  shows "bm_inv (\<lambda>r. entries r (bt_append (GPU, b) t)) (bm_set_al GPU gpu' m)" "(GPU, b) \<notin> set (tb_blocks t)"
    and "block_hash (al_heap gpu' ! b) = h" "\<forall>r \<in> set (tb_blocks t). block_hash (al_heap gpu' ! snd r) = block_hash (al_heap gpu ! snd r)"
proof -
  let ?m = "bm_set_al GPU gpu m"
  have a: "al_allocate (Some h) n (bm_al GPU ?m) = Inr (b, gpu')" using assms(3) by simp
  have c: "al_caching (bm_al GPU ?m)" using bm_invD(6) [OF assms(1), of GPU] assms(2) by simp
  note blk = al_allocate_block [OF bm_invD(1) [OF assms(1)] a]
  have held: "0 < bm_refs ?m r" if "r \<in> set (tb_blocks t)" for r
  proof -
    have "0 \<le> uses ?m r" unfolding uses_def by (intro add_nonneg_nonneg dsum_nonneg) simp_all
    with bm_invD(4) [OF assms(1), of r] entries_pos [OF that] show ?thesis by simp
  qed
  show new: "(GPU, b) \<notin> set (tb_blocks t)"
  proof
    assume i: "(GPU, b) \<in> set (tb_blocks t)"
    from blk(7) [OF c refl] held [OF i] have "block_hash (al_heap gpu ! b) = h" by (simp add: bm_refs_def)
    with assms(4) i show False by force
  qed
  show "block_hash (al_heap gpu' ! b) = h" by (rule blk(6) [OF c refl])
  show "\<forall>r \<in> set (tb_blocks t). block_hash (al_heap gpu' ! snd r) = block_hash (al_heap gpu ! snd r)"
  proof
    fix r assume r: "r \<in> set (tb_blocks t)"
    then have "r = (GPU, snd r)" using assms(4) by (simp add: prod_eq_iff)
    then have "snd r \<noteq> b" using new r by auto
    moreover have "snd r < length (al_heap gpu)" using held [OF r] assms(4) r by (auto simp: bm_refs_def al_refs_def split: if_splits)
    ultimately show "block_hash (al_heap gpu' ! snd r) = block_hash (al_heap gpu ! snd r)" using blk(4) [of "snd r"] by simp
  qed
  show "bm_inv (\<lambda>r. entries r (bt_append (GPU, b) t)) (bm_set_al GPU gpu' m)"
    using bm_alloc_one [OF assms(1) a, THEN conjunct1] by (simp, elim bm_inv_cong) auto
qed

lemma allocate_cached:
  assumes "bm_inv (\<lambda>_. 0) m" "bm_sliding m = None" "bm_caching m" "prompt_hashes_distinct hsh s"
    and "allocate_sequence hsh m (Some s) k False = Inr (t, gpu)"
  shows "bm_inv (\<lambda>r. entries r t) (bm_set_al GPU gpu m)" "distinct (tb_blocks t)" "bt_ok t"
    and "length (tb_blocks t) = nat (n_blocks s)" "gpu_table t"
proof -
  let ?h = "\<lambda>i. hash_of_block hsh s (int i)"
  let ?P = "\<lambda>n st. bm_inv (\<lambda>r. entries r (fst st)) (bm_set_al GPU (snd st) m) \<and> distinct (tb_blocks (fst st)) \<and> bt_ok (fst st)
    \<and> gpu_table (fst st) \<and> map (\<lambda>r. block_hash (al_heap (snd st) ! snd r)) (tb_blocks (fst st)) = map ?h [0..<n]"
  have "n \<le> nat (n_blocks s) \<Longrightarrow> foldM (allocate_block_at hsh m s k False) (bt_empty, bm_gpu m) [0..<n] = Inr st \<Longrightarrow> ?P n st" for n st
  proof (induction n arbitrary: st)
    case 0
    have "bm_set_al GPU (bm_gpu m) m = m" by simp
    with 0 assms(1) show ?case by (auto simp: gpu_table_def)
  next
    case (Suc n)
    then obtain st1 where st1: "foldM (allocate_block_at hsh m s k False) (bt_empty, bm_gpu m) [0..<n] = Inr st1"
      "allocate_block_at hsh m s k False st1 n = Inr st" by auto
    obtain t1 g1 where s1: "st1 = (t1, g1)" by (cases st1)
    from st1(2) assms(2,3) s1 obtain b g2 where b: "al_allocate (Some (?h n)) (num_hashed_tokens_of_block s (int n)) g1 = Inr (b, g2)"
      "st = (bt_append (GPU, b) t1, g2)" by (auto simp: allocate_block_at_def)
    note IH = Suc.IH [OF _ st1(1), unfolded s1 fst_conv snd_conv]
    have n: "n \<le> nat (n_blocks s)" "Suc n \<le> nat (n_blocks s)" using Suc.prems(1) by simp_all
    have hs: "map (\<lambda>r. block_hash (al_heap g1 ! snd r)) (tb_blocks t1) = map ?h [0..<n]" using IH [OF n(1)] by simp
    have "[0..<nat (n_blocks s)] = [0..<Suc n] @ [Suc n..<nat (n_blocks s)]" using n(2) by (metis le0 le_add_diff_inverse upt_add_eq_append)
    then have fresh: "?h n \<notin> ?h ` set [0..<n]" using assms(4) by (simp add: prompt_hashes_distinct_def)
    have im: "(\<lambda>r. block_hash (al_heap g1 ! snd r)) ` set (tb_blocks t1) = ?h ` set [0..<n]"
      using arg_cong [OF hs, of set] by simp
    have "\<forall>r \<in> set (tb_blocks t1). fst r = GPU \<and> block_hash (al_heap g1 ! snd r) \<noteq> ?h n"
    proof
      fix r assume r: "r \<in> set (tb_blocks t1)"
      then have "block_hash (al_heap g1 ! snd r) \<in> ?h ` set [0..<n]" unfolding im [symmetric] by (rule imageI)
      then show "fst r = GPU \<and> block_hash (al_heap g1 ! snd r) \<noteq> ?h n"
        using fresh r IH [OF n(1)] by (metis gpu_table_def)
    qed
    note step = allocate_cached_step [OF IH [OF n(1), THEN conjunct1] assms(3) b(1) this]
    have "map (\<lambda>r. block_hash (al_heap g2 ! snd r)) (tb_blocks t1) = map ?h [0..<n]"
      using step(4) hs by (simp cong: map_cong)
    with step(1-3) IH [OF n(1)] b(2) show ?case by (simp add: gpu_table_def)
  qed
  from this [of "nat (n_blocks s)" "(t, gpu)"] assms(5)
  have P: "?P (nat (n_blocks s)) (t, gpu)" by (simp add: allocate_sequence_def required_blocks_def)
  then show "bm_inv (\<lambda>r. entries r t) (bm_set_al GPU gpu m)" "distinct (tb_blocks t)" "bt_ok t" "gpu_table t" by simp_all
  from P have "length (map (\<lambda>r. block_hash (al_heap gpu ! snd r)) (tb_blocks t)) = length (map ?h [0..<nat (n_blocks s)])" by simp
  then show "length (tb_blocks t) = nat (n_blocks s)" by simp
qed

text \<open>Allocation fails for lack of a block only.\<close>

lemma allocate_succeeds_list:
  assumes "al_ok gpu" "bm_sliding m = None" "0 < k" "int (length js) \<le> al_num_free gpu"
  shows "\<exists>t' gpu'. foldM (allocate_block_at hsh m s k ed) (t, gpu) js = Inr (t', gpu') \<and> al_ok gpu'
     \<and> al_num_free gpu - int (length js) \<le> al_num_free gpu'"
  using assms
proof (induction "js" arbitrary: t gpu)
  case (Cons i js)
  define h where "h = (if \<not> ed \<and> bm_caching m then Some (hash_of_block hsh s (int i)) else None)"
  define n where "n = (if \<not> ed \<and> bm_caching m then num_hashed_tokens_of_block s (int i) else 0)"
  have "0 < al_num_free gpu" using Cons.prems(4) by simp
  from blocks.num_free_nonneg_alloc [OF Cons.prems(1) this, of h n] obtain b g1 where
    b: "al_allocate h n gpu = Inr (b, g1)" "al_ok g1" "al_refs g1 = (al_refs gpu)(b := al_refs gpu b + 1)" "al_num_free gpu - 1 \<le> al_num_free g1"
    by blast
  have pos: "0 < al_refs g1 b" using b(3) blocks.refs_nonneg [OF Cons.prems(1), of b] by simp
  define g2 where "g2 = (if \<not> ed \<and> bm_caching m then g1 else al_set_refs b k g1)"
  have g2: "al_ok g2" "al_num_free g2 = al_num_free g1"
    using b(2) blocks.set_refs_law [OF b(2) pos Cons.prems(3)] blocks.set_refs_free [OF b(2) pos Cons.prems(3)] by (simp_all add: g2_def)
  have "allocate_block_at hsh m s k ed (t, gpu) i = Inr (bt_append (GPU, b) t, g2)"
    using b(1) Cons.prems(2) by (auto simp: allocate_block_at_def h_def n_def g2_def)
  with Cons.IH [OF g2(1) Cons.prems(2,3), of "bt_append (GPU, b) t"] Cons.prems(4) b(4) g2(2) show ?case
    by (auto simp del: bindr_Inr_iff)
qed simp

lemma allocate_succeeds:
  assumes "al_ok (bm_gpu m)" "bm_sliding m = None" "0 < k" "0 \<le> n_blocks s" "n_blocks s \<le> al_num_free (bm_gpu m)"
  shows "\<exists>t gpu. allocate_sequence hsh m (Some s) k ed = Inr (t, gpu) \<and> al_ok gpu \<and> al_num_free (bm_gpu m) - n_blocks s \<le> al_num_free gpu"
  using allocate_succeeds_list [OF assms(1-3), of "[0..<nat (n_blocks s)]" hsh s ed bt_empty] assms(4,5)
  by (simp add: allocate_sequence_def required_blocks_def)

text \<open>
  A group as \<open>add_request\<close> queues it: every sequence waits and none has a table yet.  With prefix caching a
  group has one waiting sequence, which is what \<open>LLMEngine.add_request\<close> builds; with more the counts go wrong
  (\<open>cached_group_undercounts\<close> below).  The hashes of the blocks of its prompt must differ, which only a collision
  of Python's \<open>hash\<close> breaks, as each block hashes a longer prefix.
\<close>

definition group_fresh :: "(((int list \<times> int list option) \<times> int) \<Rightarrow> int) \<Rightarrow> seq_group \<Rightarrow> block_mgr \<Rightarrow> bool" where
  "group_fresh hsh g m \<longleftrightarrow> sg_ok g \<and> seqs g \<noteq> [] \<and> (\<forall>s \<in> set (seqs g). seq_status s = WAITING \<and> map_of (bm_tables m) (seq_id s) = None)
     \<and> (bm_caching m \<longrightarrow> length (seqs g) = 1 \<and> prompt_hashes_distinct hsh (hd (seqs g)))
     \<and> (sg_is_encoder_decoder g \<longrightarrow> map_of (bm_cross m) (request_id g) = None)"

lemma put_copies:
  assumes "bm_inv (\<lambda>r. X r + int (length ss) * entries r t) m" "distinct (map seq_id ss)" "\<forall>s \<in> set ss. map_of (bm_tables m) (seq_id s) = None"
    and "tables_ok m" "bt_ok t" "distinct (tb_blocks t)"
  shows "bm_inv X (m\<lparr>bm_tables := foldl (\<lambda>ts s. AList.update (seq_id s) (bt_copy t) ts) (bm_tables m) ss\<rparr>)
     \<and> tables_ok (m\<lparr>bm_tables := foldl (\<lambda>ts s. AList.update (seq_id s) (bt_copy t) ts) (bm_tables m) ss\<rparr>)
     \<and> (\<forall>s \<in> set ss. \<exists>t'. map_of (foldl (\<lambda>ts s. AList.update (seq_id s) (bt_copy t) ts) (bm_tables m) ss) (seq_id s) = Some t'
           \<and> tb_blocks t' = tb_blocks t)
     \<and> (\<forall>k. k \<notin> seq_id ` set ss \<longrightarrow>
          map_of (foldl (\<lambda>ts s. AList.update (seq_id s) (bt_copy t) ts) (bm_tables m) ss) k = map_of (bm_tables m) k)"
  using assms
proof (induction ss arbitrary: m)
  case (Cons s ss)
  let ?m = "m\<lparr>bm_tables := AList.update (seq_id s) (bt_copy t) (bm_tables m)\<rparr>"
  have "bm_inv (\<lambda>r. X r + int (length ss) * entries r t) ?m"
    by (rule bm_inv_cong [OF bm_inv_new_table [OF Cons.prems(1)]]) (use Cons.prems(3) in \<open>simp_all add: algebra_simps\<close>)
  moreover have "seq_id s' \<noteq> seq_id s" if "s' \<in> set ss" for s' using imageI [OF that, of seq_id] Cons.prems(2) by auto
  then have "\<forall>s' \<in> set ss. map_of (bm_tables ?m) (seq_id s') = None"
    using Cons.prems(3) by (simp add: map_of_update)
  moreover have "tables_ok ?m" using Cons.prems(4,6) by (simp add: tables_ok_update)
  ultimately have IH: "bm_inv X (?m\<lparr>bm_tables := foldl (\<lambda>ts s. AList.update (seq_id s) (bt_copy t) ts) (bm_tables ?m) ss\<rparr>)
     \<and> tables_ok (?m\<lparr>bm_tables := foldl (\<lambda>ts s. AList.update (seq_id s) (bt_copy t) ts) (bm_tables ?m) ss\<rparr>)
     \<and> (\<forall>s \<in> set ss. \<exists>t'. map_of (foldl (\<lambda>ts s. AList.update (seq_id s) (bt_copy t) ts) (bm_tables ?m) ss) (seq_id s) = Some t'
           \<and> tb_blocks t' = tb_blocks t)
     \<and> (\<forall>k. k \<notin> seq_id ` set ss \<longrightarrow>
          map_of (foldl (\<lambda>ts s. AList.update (seq_id s) (bt_copy t) ts) (bm_tables ?m) ss) k = map_of (bm_tables ?m) k)"
    using Cons.IH [of ?m] Cons.prems(2,5,6) by simp
  then show ?case using Cons.prems(2) by (auto simp: map_of_update rev_image_eqI simp del: map_of_eq_Some_iff)
qed simp

lemma get_waiting:
  assumes "sg_ok g" "\<forall>s \<in> set (seqs g). seq_status s = st"
  shows "get_seqs (Some st) g = Inr (seqs g)"
  using get_seqs_filter [OF assms(1), of st] assms(2) by (simp add: filter_id_conv)

lemma bm_allocate_law:
  assumes "bm_ok m" "group_fresh hsh g m" "bm_allocate hsh g m = Inr m'"
  shows "bm_ok m' \<and> bm_caching m' = bm_caching m
     \<and> (\<forall>s \<in> set (seqs g). \<exists>t. map_of (bm_tables m') (seq_id s) = Some t \<and> gpu_table t \<and> length (tb_blocks t) = nat (n_blocks (hd (seqs g))))
     \<and> (\<forall>k. k \<notin> seq_id ` set (seqs g) \<longrightarrow> map_of (bm_tables m') k = map_of (bm_tables m) k)"
proof -
  note ok = bm_okD [OF assms(1)]
  note gf = assms(2) [unfolded group_fresh_def]
  let ?ed = "sg_is_encoder_decoder g" and ?s = "hd (seqs g)" and ?k = "int (length (seqs g))"
  have ws: "get_seqs (Some WAITING) g = Inr (seqs g)" using gf get_waiting by blast
  have hd: "py_nth (seqs g) 0 = Inr ?s" using gf by (cases "seqs g") (simp_all add: py_nth_def)
  have ids: "distinct (map seq_id (seqs g))" using gf by (metis sg_ok_def)
  have k: "num_seqs None g = Inr ?k" by (simp add: num_seqs_def)
  from assms(3) ws hd k have chk: "\<not> (?ed \<and> bm_caching m)"
    by (auto simp: bm_allocate_def Let_def check_no_caching_or_swa_def split: if_splits)
  define ts where "ts = (\<lambda>t. if length (seqs g) = 1 then AList.update (seq_id ?s) t (bm_tables m)
       else foldl (\<lambda>ts s. AList.update (seq_id s) (bt_copy t) ts) (bm_tables m) (seqs g))"
  define next_state where "next_state = (\<lambda>t gpu.
      let m1 = m\<lparr>bm_gpu := gpu,
                   bm_tables := (if length (seqs g) = 1 then AList.update (seq_id ?s) t (bm_tables m)
                                 else foldl (\<lambda>ts s. AList.update (seq_id s) (bt_copy t) ts) (bm_tables m) (seqs g))\<rparr> in
        if ?ed then
          bindr (allocate_sequence hsh m1 (encoder_seq g) 1 ?ed) (\<lambda>(ct, gpu').
            Inr (m1\<lparr>bm_gpu := gpu', bm_cross := AList.update (request_id g) ct (bm_cross m1)\<rparr>))
        else Inr m1)"
  have "check_no_caching_or_swa m g = Inr ()" using chk ok(3) by (simp add: check_no_caching_or_swa_def)
  then have "bm_allocate hsh g m = bindr (allocate_sequence hsh m (Some ?s) ?k ?ed) (\<lambda>(t, gpu). next_state t gpu)"
    using ws hd k by (simp add: bm_allocate_def Let_def next_state_def del: bindr_Inr_iff)
  with assms(3) obtain t gpu where a: "allocate_sequence hsh m (Some ?s) ?k ?ed = Inr (t, gpu)"
    and run0: "next_state t gpu = Inr m'" by auto
  have run: "(if ?ed then bindr (allocate_sequence hsh (m\<lparr>bm_gpu := gpu, bm_tables := ts t\<rparr>) (encoder_seq g) 1 ?ed) (\<lambda>(ct, gpu').
        Inr (m\<lparr>bm_gpu := gpu', bm_tables := ts t, bm_cross := AList.update (request_id g) ct (bm_cross m)\<rparr>))
      else Inr (m\<lparr>bm_gpu := gpu, bm_tables := ts t\<rparr>)) = Inr m'"
    using run0 unfolding next_state_def ts_def [symmetric, THEN fun_cong, of t] Let_def by (cases ?ed) auto
  have kpos: "0 < ?k" using gf by simp
  have al: "bm_inv (\<lambda>r. ?k * entries r t) (bm_set_al GPU gpu m) \<and> distinct (tb_blocks t) \<and> bt_ok t
      \<and> length (tb_blocks t) = nat (n_blocks ?s) \<and> gpu_table t"
  proof (cases "bm_caching m")
    case False
    from allocate_plain [OF ok(1,3) False kpos a] show ?thesis by simp
  next
    case True
    with chk gf have "\<not> ?ed" "?k = 1" "prompt_hashes_distinct hsh ?s" by simp_all
    with allocate_cached [OF ok(1,3) True, of hsh ?s ?k t gpu] a show ?thesis by simp
  qed
  let ?m1 = "m\<lparr>bm_gpu := gpu, bm_tables := ts t\<rparr>"
  have tabs: "tables_ok (bm_set_al GPU gpu m)" using ok(2) by simp
  have none: "\<forall>s \<in> set (seqs g). map_of (bm_tables (bm_set_al GPU gpu m)) (seq_id s) = None" using gf by simp
  have put: "bm_inv (\<lambda>_. 0) ?m1 \<and> tables_ok ?m1
     \<and> (\<forall>s \<in> set (seqs g). \<exists>t'. map_of (ts t) (seq_id s) = Some t' \<and> tb_blocks t' = tb_blocks t)
     \<and> (\<forall>k. k \<notin> seq_id ` set (seqs g) \<longrightarrow> map_of (ts t) k = map_of (bm_tables m) k)"
  proof (cases "length (seqs g) = 1")
    case False
    have "bm_inv (\<lambda>r. 0 + ?k * entries r t) (bm_set_al GPU gpu m)" using al by simp
    from put_copies [OF this ids none tabs] al False show ?thesis by (simp add: ts_def del: map_of_eq_Some_iff)
  next
    case True
    then obtain s where s: "seqs g = [s]" by (auto simp: length_Suc_conv)
    have "bm_ok ((bm_set_al GPU gpu m)\<lparr>bm_tables := AList.update (seq_id s) t (bm_tables (bm_set_al GPU gpu m))\<rparr>)"
      using al none s ok(3) by (intro bm_new_table_ok [OF al [THEN conjunct1] _ tabs]) simp_all
    with s show ?thesis by (simp add: ts_def bm_ok_def map_of_update del: map_of_eq_Some_iff)
  qed
  then have ok1: "bm_ok ?m1" using ok(3) by (simp add: bm_ok_def)
  note ok1' = bm_okD [OF ok1]
  have fin: "bm_ok m' \<and> bm_tables m' = ts t \<and> bm_caching m' = bm_caching m"
  proof (cases ?ed)
    case False
    with run ok1 show ?thesis by auto
  next
    case True
    with chk have nc: "\<not> bm_caching ?m1" by simp
    from True obtain e where e: "encoder_seq g = Some e" by (auto simp: sg_is_encoder_decoder_def)
    from run True e obtain ct gpu' where c: "allocate_sequence hsh ?m1 (Some e) 1 ?ed = Inr (ct, gpu')"
      and m': "m' = (bm_set_al GPU gpu' ?m1)\<lparr>bm_cross := AList.update (request_id g) ct (bm_cross (bm_set_al GPU gpu' ?m1))\<rparr>" by auto
    have s1: "bm_sliding ?m1 = None" using ok(3) by simp
    from allocate_plain [OF ok1'(1) s1 nc _ c] have
      al': "bm_inv (\<lambda>r. entries r ct) (bm_set_al GPU gpu' ?m1)" "distinct (tb_blocks ct)" "bt_ok ct" by simp_all
    have "map_of (bm_cross (bm_set_al GPU gpu' ?m1)) (request_id g) = None" using gf True by simp
    from bm_inv_new_cross [OF al'(1) this, of ct] have "bm_inv (\<lambda>_. 0) m'" by (simp add: m')
    moreover have "tables_ok m'"
      unfolding m' by (rule tables_ok_update(2)) (use ok1'(2) al' in simp_all)
    ultimately show ?thesis using ok(3) by (simp add: bm_ok_def m')
  qed
  with put al show ?thesis by (auto simp: gpu_table_def simp del: map_of_eq_Some_iff)
qed

text \<open>\<open>can_allocate\<close> is a promise.\<close>

lemma can_allocate_law:
  assumes "bm_ok m" "group_fresh hsh g m" "0 \<le> bm_watermark m" "0 \<le> n_blocks (hd (seqs g))"
    and "\<forall>e. encoder_seq g = Some e \<longrightarrow> 0 \<le> n_blocks e" "bm_can_allocate m g = Inr AllocOK"
  shows "\<exists>m'. bm_allocate hsh g m = Inr m'"
proof -
  note ok = bm_okD [OF assms(1)]
  note gf = assms(2) [unfolded group_fresh_def]
  let ?ed = "sg_is_encoder_decoder g" and ?s = "hd (seqs g)" and ?k = "int (length (seqs g))"
  have ws: "get_seqs (Some WAITING) g = Inr (seqs g)" using gf get_waiting by blast
  have hd: "py_nth (seqs g) 0 = Inr ?s" using gf by (cases "seqs g") (simp_all add: py_nth_def)
  have k: "num_seqs None g = Inr ?k" by (simp add: num_seqs_def)
  from assms(6) ws hd ok(3) have chk: "check_no_caching_or_swa m g = Inr ()"
    and room: "n_blocks ?s + required_blocks (encoder_seq g) \<le> al_num_free (bm_gpu m)"
    using assms(3) by (auto simp: bm_can_allocate_def Let_def required_blocks_def check_no_caching_or_swa_def split: if_splits)
  have enc: "0 \<le> required_blocks (encoder_seq g)" using assms(5) by (simp add: required_blocks_def split: option.splits)
  have al: "al_ok (bm_gpu m)" using bm_invD(1) [OF ok(1), of GPU] by simp
  have k0: "0 < ?k" using gf by simp
  from allocate_succeeds [OF al ok(3) k0 assms(4), of hsh ?ed] room enc obtain t gpu where
    t: "allocate_sequence hsh m (Some ?s) ?k ?ed = Inr (t, gpu)" "al_ok gpu" "al_num_free (bm_gpu m) - n_blocks ?s \<le> al_num_free gpu" by auto
  show ?thesis
  proof (cases ?ed)
    case False
    with chk ws hd k t(1) show ?thesis by (simp add: bm_allocate_def Let_def del: bindr_Inr_iff)
  next
    case True
    then obtain e where e: "encoder_seq g = Some e" by (auto simp: sg_is_encoder_decoder_def)
    have "\<exists>ct gpu'. allocate_sequence hsh (m\<lparr>bm_gpu := gpu, bm_tables := us\<rparr>) (Some e) 1 ?ed = Inr (ct, gpu')" for us
      using allocate_succeeds [of "m\<lparr>bm_gpu := gpu, bm_tables := us\<rparr>" 1 e hsh ?ed] t(2,3) ok(3) room assms(5) e
      by (auto simp: required_blocks_def)
    then show ?thesis using chk ws hd k t(1) True e by (auto simp: bm_allocate_def Let_def)
  qed
qed

section \<open>Swapping\<close>

text \<open>The mapping of blocks built by a swap: one-to-one, from blocks of one device to blocks in use on the other.\<close>

definition map_ok :: "device \<Rightarrow> device \<Rightarrow> block_mgr \<Rightarrow> (bref, bref) dict \<Rightarrow> bool" where
  "map_ok src dst m mapping \<longleftrightarrow> wf_dict mapping
     \<and> (\<forall>k1 k2 v. map_of mapping k1 = Some v \<longrightarrow> map_of mapping k2 = Some v \<longrightarrow> k1 = k2)
     \<and> (\<forall>k v. map_of mapping k = Some v \<longrightarrow> fst k = src \<and> snd k < length (al_heap (bm_al src m)) \<and> fst v = dst \<and> 0 < bm_refs m v
          \<and> (bm_caching m \<longrightarrow> block_hash (bm_block m v) = block_hash (bm_block m k)))"

lemma map_okD:
  assumes "map_ok src dst m mapping"
  shows "wf_dict mapping" "map_of mapping k1 = Some v \<Longrightarrow> map_of mapping k2 = Some v \<Longrightarrow> k1 = k2"
    and "map_of mapping k = Some v \<Longrightarrow> fst k = src \<and> snd k < length (al_heap (bm_al src m)) \<and> fst v = dst \<and> 0 < bm_refs m v
          \<and> (bm_caching m \<longrightarrow> block_hash (bm_block m v) = block_hash (bm_block m k))"
proof -
  note a = assms [unfolded map_ok_def]
  show "wf_dict mapping" by (rule a [THEN conjunct1])
  show "map_of mapping k1 = Some v \<Longrightarrow> map_of mapping k2 = Some v \<Longrightarrow> k1 = k2" using a [THEN conjunct2, THEN conjunct1] by blast
  show "map_of mapping k = Some v \<Longrightarrow> fst k = src \<and> snd k < length (al_heap (bm_al src m)) \<and> fst v = dst \<and> 0 < bm_refs m v
          \<and> (bm_caching m \<longrightarrow> block_hash (bm_block m v) = block_hash (bm_block m k))" using a [THEN conjunct2, THEN conjunct2] by blast
qed

lemma map_ok_tables [simp]: "map_ok src dst (m\<lparr>bm_tables := ts\<rparr>) mapping = map_ok src dst m mapping"
  unfolding map_ok_def bm_block_def bm_al_tables bm_refs_tables by simp

lemma al_hash_inject:
  "al_ok a \<Longrightarrow> al_caching a \<Longrightarrow> b < length (al_heap a) \<Longrightarrow> c < length (al_heap a)
     \<Longrightarrow> block_hash (al_heap a ! b) = block_hash (al_heap a ! c) \<Longrightarrow> b = c"
  by (cases a) (auto simp: ca_ok_def intro: hash_inject)

text \<open>The first half of a step: the destination block, new or shared.\<close>

definition swap_target ::
  "device \<Rightarrow> bref \<Rightarrow> block_mgr \<Rightarrow> (bref, bref) dict \<Rightarrow> (bref \<times> block_mgr \<times> (bref, bref) dict) result" where
  "swap_target dst r m mapping =
     (case map_of mapping r of
        Some r' \<Rightarrow> Inr (r', bm_upd (\<lambda>p. p\<lparr>ref_count := ref_count p + 1\<rparr>) m r', mapping)
      | None \<Rightarrow>
          bindr (al_allocate (Some (block_hash (bm_block m r))) (num_hashed (bm_block m r)) (bm_al dst m)) (\<lambda>(b, a).
            Inr ((dst, b), bm_set_al dst a m, AList.update r (dst, b) mapping)))"

lemma swap_block_target:
  "swap_block src dst (m, mapping, t) r =
     bindr (swap_target dst r m mapping) (\<lambda>(r', m1, mapping1).
       bindr (al_free (snd r) (bm_al src m1)) (\<lambda>a. Inr (bm_set_al src a m1, mapping1, bt_append r' t)))"
  by (simp add: swap_block_def swap_target_def)

lemma bm_block_upd:
  "bm_block (bm_upd f m r) q = (if q = r \<and> snd r < length (al_heap (bm_al (fst r) m)) then f (bm_block m r) else bm_block m q)"
  by (cases "snd r < length (al_heap (bm_al (fst r) m))") (auto simp: bm_block_def bm_upd_def prod_eq_iff nth_list_update linorder_not_less list_update_beyond)

lemma held_in_heap: "0 < bm_refs m r \<Longrightarrow> snd r < length (al_heap (bm_al (fst r) m))"
  by (simp add: bm_refs_def al_refs_def split: if_splits)

lemma bm_heap_upd [simp]: "length (al_heap (bm_al d (bm_upd f m r))) = length (al_heap (bm_al d m))"
  by (simp add: bm_upd_def)

lemma swap_target_law:
  assumes "bm_inv X m" "src \<noteq> dst" "fst r = src" "0 < bm_refs m r" "map_ok src dst m mapping"
    and "swap_target dst r m mapping = Inr (r', m', mapping')"
  shows "bm_inv (X(r' := X r' + 1)) m'" "same_tables m m'" "map_ok src dst m' mapping'" "bm_al src m' = bm_al src m"
    and "map_of mapping' = (map_of mapping)(r \<mapsto> r')" "fst r' = dst" "map_of mapping r = Some v \<Longrightarrow> v = r'"
proof -
  note mo = map_okD [OF assms(5)]
  let ?f = "\<lambda>p. p\<lparr>ref_count := ref_count p + 1\<rparr>"
  have "bm_inv (X(r' := X r' + 1)) m' \<and> same_tables m m' \<and> map_ok src dst m' mapping' \<and> bm_al src m' = bm_al src m
    \<and> map_of mapping' = (map_of mapping)(r \<mapsto> r') \<and> fst r' = dst \<and> (\<forall>v. map_of mapping r = Some v \<longrightarrow> v = r')"
  proof (cases "map_of mapping r")
    case (Some v)
    with assms(6) have eq: "r' = v" "m' = bm_upd ?f m v" "mapping' = mapping" by (auto simp: swap_target_def simp del: map_of_eq_Some_iff)
    have v: "fst v = dst" "0 < bm_refs m v" using mo(3) [OF Some] by simp_all
    have c: "ref_count (?f (bm_block m v)) = bm_refs m v + 1" using bm_refs_block [OF v(2)] by simp
    have up: "bm_inv (X(v := X v + ref_count (?f (bm_block m v)) - bm_refs m v)) m'"
      "bm_refs m' = (bm_refs m)(v := ref_count (?f (bm_block m v)))"
      using bm_upd_one [OF assms(1) v(2), of ?f] c v(2) by (simp_all add: eq(2))
    have "bm_inv (X(v := X v + 1)) m'" by (rule bm_inv_cong [OF up(1)]) (simp add: c)
    moreover have "map_ok src dst m' mapping'"
      unfolding map_ok_def eq(3)
    proof (intro conjI allI impI)
      fix k w assume w: "map_of mapping k = Some w"
      note k = mo(3) [OF w]
      show "fst k = src" "fst w = dst" using k by simp_all
      show "snd k < length (al_heap (bm_al src m'))" using k by (simp add: eq(2))
      show "0 < bm_refs m' w" using k v(2) c by (simp add: up(2))
      have "k \<noteq> v" using k v(1) assms(2) by auto
      then show "block_hash (bm_block m' w) = block_hash (bm_block m' k)" if "bm_caching m'"
        using k that by (auto simp: eq(2) bm_block_upd same_tables_set_al(2) [unfolded same_tables_def])
    qed (use mo(1,2) in blast)+
    moreover have "bm_al src m' = bm_al src m" using v(1) assms(2) by (simp add: eq(2) bm_upd_def)
    moreover have "map_of mapping = (map_of mapping)(r \<mapsto> v)" using Some by (simp add: fun_upd_idem del: map_of_eq_Some_iff)
    ultimately show ?thesis using eq v(1) Some by (simp del: map_of_eq_Some_iff)
  next
    case None
    let ?h = "block_hash (bm_block m r)"
    from None assms(6) obtain b a where a: "al_allocate (Some ?h) (num_hashed (bm_block m r)) (bm_al dst m) = Inr (b, a)"
      and eq: "r' = (dst, b)" "m' = bm_set_al dst a m" "mapping' = AList.update r (dst, b) mapping"
      by (auto simp: swap_target_def)
    note al = bm_invD(1) [OF assms(1), of dst]
    note one = bm_alloc_one [OF assms(1) a] and blk = al_allocate_block [OF al a]
    have sal: "bm_al src m' = bm_al src m" using assms(2) by (simp add: eq(2))
    have same_k: "bm_block m' k = bm_block m k" if "fst k = src" for k using that sal by (simp add: bm_block_def)
    have fresh: "w \<noteq> r'" if w: "map_of mapping k = Some w" for k w
    proof
      assume wr: "w = r'"
      note k = mo(3) [OF w]
      have pos: "0 < al_refs (bm_al dst m) b" using k by (simp add: wr eq(1) bm_refs_def)
      then have c: "al_caching (bm_al dst m)" using blk(5) by auto
      have c': "bm_caching m" "al_caching (bm_al src m)" using bm_invD(6) [OF assms(1)] c by simp_all
      from blk(7) [OF c refl pos] have "block_hash (bm_block m k) = ?h" using k c'(1) by (simp add: wr eq(1) bm_block_def)
      then have "snd k = snd r"
        using al_hash_inject [OF bm_invD(1) [OF assms(1), of src] c'(2), of "snd k" "snd r"] k held_in_heap [OF assms(4)] assms(3)
        by (simp add: bm_block_def)
      then have "k = r" using k assms(3) by (simp add: prod_eq_iff)
      with w None show False by simp
    qed
    have mp: "map_of mapping' = (map_of mapping)(r \<mapsto> r')" unfolding eq by (rule update_conv')
    have "map_ok src dst m' mapping'"
      unfolding map_ok_def
    proof (intro conjI allI impI)
      show "wf_dict mapping'" using mo(1) by (simp add: eq(3))
      fix k1 k2 v assume v: "map_of mapping' k1 = Some v" "map_of mapping' k2 = Some v"
      show "k1 = k2"
      proof (cases "k1 = r")
        case True
        with v mp have "v = r'" by simp
        with v(2) mp fresh [of k2 v] True show ?thesis by (auto split: if_splits)
      next
        case False
        with v(1) mp have k1: "map_of mapping k1 = Some v" by simp
        with fresh have "v \<noteq> r'" by blast
        with v(2) mp have "map_of mapping k2 = Some v" by (auto split: if_splits)
        with k1 show ?thesis by (rule mo(2))
      qed
    next
      fix k w assume w: "map_of mapping' k = Some w"
      have "fst k = src \<and> snd k < length (al_heap (bm_al src m)) \<and> fst w = dst \<and> 0 < bm_refs m' w
          \<and> (bm_caching m \<longrightarrow> block_hash (bm_block m' w) = block_hash (bm_block m k))"
      proof (cases "k = r")
        case True
        with w mp have "w = (dst, b)" by (simp add: eq(1))
        moreover have "block_hash (bm_block m' (dst, b)) = ?h" if "bm_caching m"
          using blk(6) [OF _ refl] bm_invD(6) [OF assms(1)] that by (simp add: bm_block_def eq(2))
        moreover have "0 < bm_refs m' (dst, b)" using one blocks.refs_nonneg [OF al, of b] by (simp add: eq(2) bm_refs_def)
        ultimately show ?thesis using True assms(3) held_in_heap [OF assms(4)] by auto
      next
        case False
        with w mp have w': "map_of mapping k = Some w" by simp
        note k = mo(3) [OF w']
        have nb: "snd w \<noteq> b" using fresh [OF w'] k by (auto simp: eq(1) prod_eq_iff)
        have "bm_block m' w = bm_block m w"
          using blk(4) [of "snd w"] nb held_in_heap [of m w] k by (simp add: bm_block_def eq(2))
        moreover have "0 < bm_refs m' w" using one k nb by (auto simp: eq(2) prod_eq_iff)
        ultimately show ?thesis using k by simp
      qed
      then show "fst k = src" "snd k < length (al_heap (bm_al src m'))" "fst w = dst" "0 < bm_refs m' w"
        "bm_caching m' \<Longrightarrow> block_hash (bm_block m' w) = block_hash (bm_block m' k)"
        using sal same_k by (simp_all add: eq(2))
    qed
    then show ?thesis using one sal mp None by (simp add: eq(1,2))
  qed
  then show "bm_inv (X(r' := X r' + 1)) m'" "same_tables m m'" "map_ok src dst m' mapping'" "bm_al src m' = bm_al src m"
    "map_of mapping' = (map_of mapping)(r \<mapsto> r')" "fst r' = dst" "map_of mapping r = Some v \<Longrightarrow> v = r'"
    by blast+
qed

lemma map_ok_set_al:
  assumes "map_ok src dst m mapping" "src \<noteq> dst" "al_heap a = (al_heap (bm_al src m))[b := (al_heap (bm_al src m) ! b)\<lparr>ref_count := n\<rparr>]"
  shows "map_ok src dst (bm_set_al src a m) mapping"
proof -
  note mo = map_okD [OF assms(1)]
  have h: "block_hash (al_heap a ! c) = block_hash (al_heap (bm_al src m) ! c)" for c
    by (cases "c = b"; cases "b < length (al_heap (bm_al src m))") (simp_all add: assms(3) nth_list_update linorder_not_less list_update_beyond)
  show ?thesis unfolding map_ok_def
  proof (intro conjI allI impI)
    fix k w assume w: "map_of mapping k = Some w"
    note k = mo(3) [OF w]
    show "fst k = src" "fst w = dst" using k by simp_all
    show "snd k < length (al_heap (bm_al src (bm_set_al src a m)))" using k by (simp add: assms(3))
    show "0 < bm_refs (bm_set_al src a m) w" using k assms(2) by (auto simp: bm_refs_def)
    show "block_hash (bm_block (bm_set_al src a m) w) = block_hash (bm_block (bm_set_al src a m) k)" if "bm_caching (bm_set_al src a m)"
      using k assms(2) that by (auto simp: bm_block_def h)
  qed (use mo(1,2) in blast)+
qed

lemma swap_block_law:
  assumes "bm_inv X m" "src \<noteq> dst" "fst r = src" "0 < bm_refs m r" "map_ok src dst m mapping"
    and "swap_block src dst (m, mapping, t) r = Inr (m', mapping', t')"
  shows "\<exists>r'. bm_inv (\<lambda>q. X q + (if q = r' then 1 else 0) - (if q = r then 1 else 0)) m' \<and> same_tables m m' \<and> map_ok src dst m' mapping'
    \<and> t' = bt_append r' t \<and> map_of mapping' = (map_of mapping)(r \<mapsto> r') \<and> fst r' = dst
    \<and> (\<forall>v. map_of mapping r = Some v \<longrightarrow> v = r')
    \<and> (\<forall>q. fst q = src \<longrightarrow> bm_refs m' q = bm_refs m q - (if q = r then 1 else 0))"
proof -
  from assms(6) obtain r' m1 a where t: "swap_target dst r m mapping = Inr (r', m1, mapping')" and
    a: "al_free (snd r) (bm_al src m1) = Inr a" and eq: "m' = bm_set_al src a m1" "t' = bt_append r' t"
    by (auto simp: swap_block_target)
  note tl = swap_target_law [OF assms(1-5) t]
  have held: "0 < bm_refs m1 r" using assms(3,4) tl(4) by (simp add: bm_refs_def)
  from bm_free_one [OF tl(1) held] a assms(3) have
    fr: "bm_inv ((X(r' := X r' + 1))(r := (X(r' := X r' + 1)) r - 1)) m'" "bm_refs m' = (bm_refs m1)(r := bm_refs m1 r - 1)"
    by (auto simp: eq(1))
  have pos: "0 < al_refs (bm_al src m1) (snd r)" using held assms(3) by (simp add: bm_refs_def)
  note fb = al_free_block [OF bm_invD(1) [OF tl(1)] pos a]
  have mo: "map_ok src dst m' mapping'" unfolding eq(1) by (rule map_ok_set_al [OF tl(3) assms(2) fb(2)])
  have i: "bm_inv (\<lambda>q. X q + (if q = r' then 1 else 0) - (if q = r then 1 else 0)) m'"
    by (rule bm_inv_cong [OF fr(1)]) auto
  have st: "same_tables m m'" unfolding eq(1) by (rule same_tables_trans [OF tl(2) same_tables_set_al(1)])
  have "bm_refs m' q = bm_refs m q - (if q = r then 1 else 0)" if "fst q = src" for q
    using that tl(4) by (cases "q = r") (simp_all add: fr(2) bm_refs_def)
  with mo i st tl(5-7) eq(2) show ?thesis by blast
qed

lemma swap_block_list:
  assumes "bm_inv X m" "src \<noteq> dst" "\<forall>r \<in> set rs. fst r = src \<and> 0 < bm_refs m r" "distinct rs" "map_ok src dst m mapping"
    and "foldM (swap_block src dst) (m, mapping, t) rs = Inr (m', mapping', t')"
  shows "bm_inv (\<lambda>q. X q + entries q t' - entries q t - int (count_list rs q)) m' \<and> same_tables m m' \<and> map_ok src dst m' mapping'
    \<and> map_of mapping \<subseteq>\<^sub>m map_of mapping' \<and> dom (map_of mapping') = dom (map_of mapping) \<union> set rs
    \<and> tb_blocks t' = tb_blocks t @ map (\<lambda>r. the (map_of mapping' r)) rs \<and> (bt_ok t \<longrightarrow> bt_ok t')
    \<and> (\<forall>q. fst q = src \<longrightarrow> bm_refs m' q = bm_refs m q - int (count_list rs q))"
  using assms
proof (induction rs arbitrary: X m mapping t)
  case (Cons r rs)
  from Cons.prems(6) obtain m1 mapping1 t1 where s1: "swap_block src dst (m, mapping, t) r = Inr (m1, mapping1, t1)"
    "foldM (swap_block src dst) (m1, mapping1, t1) rs = Inr (m', mapping', t')" by auto
  have r: "fst r = src" "0 < bm_refs m r" "distinct rs" "r \<notin> set rs" using Cons.prems(3,4) by simp_all
  from swap_block_law [OF Cons.prems(1,2) r(1,2) Cons.prems(5) s1(1)] obtain r' where
    l: "bm_inv (\<lambda>q. X q + (if q = r' then 1 else 0) - (if q = r then 1 else 0)) m1" "same_tables m m1" "map_ok src dst m1 mapping1"
    "t1 = bt_append r' t" "map_of mapping1 = (map_of mapping)(r \<mapsto> r')" "fst r' = dst"
    "\<And>v. map_of mapping r = Some v \<Longrightarrow> v = r'" "\<And>q. fst q = src \<Longrightarrow> bm_refs m1 q = bm_refs m q - (if q = r then 1 else 0)"
    by blast
  have held: "\<forall>q \<in> set rs. fst q = src \<and> 0 < bm_refs m1 q"
    using Cons.prems(3) r(4) l(8) by auto
  note IH = Cons.IH [OF l(1) Cons.prems(2) held r(3) l(3) s1(2)]
  have ext: "map_of mapping \<subseteq>\<^sub>m map_of mapping1" using l(5,7) by (auto simp: map_le_def dom_def simp del: map_of_eq_Some_iff)
  have ext1: "map_of mapping1 \<subseteq>\<^sub>m map_of mapping'" using IH by blast
  have "map_of mapping' r = Some r'" using ext1 l(5) by (force simp: map_le_def simp del: map_of_eq_Some_iff)
  then have t': "tb_blocks t' = tb_blocks t @ map (\<lambda>r. the (map_of mapping' r)) (r # rs)" using IH l(4) by simp
  have dom: "dom (map_of mapping') = dom (map_of mapping) \<union> set (r # rs)" using IH l(5) by auto
  have i: "bm_inv (\<lambda>q. X q + entries q t' - entries q t - int (count_list (r # rs) q)) m'"
    by (rule bm_inv_cong [OF IH [THEN conjunct1]]) (simp add: l(4))
  have refs: "\<forall>q. fst q = src \<longrightarrow> bm_refs m' q = bm_refs m q - int (count_list (r # rs) q)"
  proof (intro allI impI)
    fix q :: bref assume q: "fst q = src"
    then have "bm_refs m' q = bm_refs m1 q - int (count_list rs q)" using IH by blast
    with l(8) [OF q] show "bm_refs m' q = bm_refs m q - int (count_list (r # rs) q)" by simp
  qed
  have bt: "bt_ok t \<longrightarrow> bt_ok t'" using IH l(4) by simp
  from i refs bt t' dom IH same_tables_trans [OF l(2)] map_le_trans [OF ext ext1] show ?case by blast
qed (auto simp: map_le_def)

lemma swap_table_law:
  assumes "bm_ok m" "map_ok src dst m mapping" "src \<noteq> dst" "map_of (bm_tables m) k = Some t" "\<forall>r \<in> set (tb_blocks t). fst r = src"
    and "swap_block_table src dst t (m, mapping) = Inr (m1, mapping', t')"
  shows "bm_ok (m1\<lparr>bm_tables := AList.update k t' (bm_tables m1)\<rparr>) \<and> same_tables m m1
    \<and> map_ok src dst (m1\<lparr>bm_tables := AList.update k t' (bm_tables m1)\<rparr>) mapping'
    \<and> map_of mapping \<subseteq>\<^sub>m map_of mapping' \<and> dom (map_of mapping') = dom (map_of mapping) \<union> set (tb_blocks t)
    \<and> tb_blocks t' = map (\<lambda>r. the (map_of mapping' r)) (tb_blocks t)"
proof -
  note ok = bm_okD [OF assms(1)]
  have d: "distinct (tb_blocks t)" using ok(5) [OF assms(4)] by simp
  have held: "\<forall>r \<in> set (tb_blocks t). fst r = src \<and> 0 < bm_refs m r" using assms(5) bm_ok_held [OF assms(1,4)] by blast
  note sl = swap_block_list [OF ok(1) assms(3) held d assms(2), of bt_empty m1 mapping' t']
  have run: "foldM (swap_block src dst) (m, mapping, bt_empty) (tb_blocks t) = Inr (m1, mapping', t')"
    using assms(6) by (simp add: swap_block_table_def)
  note sl = sl [OF run]
  have st: "same_tables m m1" and mo: "map_ok src dst m1 mapping'" using sl by blast+
  have inj: "inj_on (\<lambda>r. the (map_of mapping' r)) (set (tb_blocks t))"
  proof (rule inj_onI)
    fix x y assume xy: "x \<in> set (tb_blocks t)" "y \<in> set (tb_blocks t)" "the (map_of mapping' x) = the (map_of mapping' y)"
    have dm: "dom (map_of mapping') = dom (map_of mapping) \<union> set (tb_blocks t)" using sl by blast
    have "x \<in> dom (map_of mapping')" "y \<in> dom (map_of mapping')" unfolding dm using xy by blast+
    then obtain v w where "map_of mapping' x = Some v" "map_of mapping' y = Some w" by blast
    with xy(3) map_okD(2) [OF mo] show "x = y" by (metis option.sel)
  qed
  have t': "tb_blocks t' = map (\<lambda>r. the (map_of mapping' r)) (tb_blocks t)" "bt_ok t'" using sl by simp_all
  have d': "distinct (tb_blocks t')" using inj d by (simp add: t'(1) distinct_map)
  have tabs: "bm_tables m1 = bm_tables m" "bm_sliding m1 = None" using st ok(3) by (simp_all add: same_tables_def)
  have "bm_ok (m1\<lparr>bm_tables := AList.update k t' (bm_tables m1)\<rparr>)"
    by (rule bm_set_table_ok [OF sl [THEN conjunct1], of k t])
      (use assms(4) ok(2) tabs tables_ok_same [OF st] t'(2) d' in \<open>simp_all add: entries_def del: map_of_eq_Some_iff\<close>)
  moreover have "map_ok src dst (m1\<lparr>bm_tables := AList.update k t' (bm_tables m1)\<rparr>) mapping'"
    using mo by simp
  ultimately show ?thesis using sl st t'(1) by blast
qed

text \<open>The tables of all sequences of a group.\<close>

definition table_on :: "device \<Rightarrow> block_mgr \<Rightarrow> sequence \<Rightarrow> bool" where
  "table_on d m s \<longleftrightarrow> (\<exists>t. map_of (bm_tables m) (seq_id s) = Some t \<and> (\<forall>r \<in> set (tb_blocks t). fst r = d))"

definition table_of :: "block_mgr \<Rightarrow> sequence \<Rightarrow> bref list" where
  "table_of m s = (case map_of (bm_tables m) (seq_id s) of None \<Rightarrow> [] | Some t \<Rightarrow> tb_blocks t)"

lemma swap_seqs_law:
  assumes "bm_ok m" "map_ok src dst m mapping" "src \<noteq> dst" "distinct (map seq_id ss)" "\<forall>s \<in> set ss. table_on src m s"
    and "foldM (swap_seq src dst) (m, mapping) ss = Inr (m', mapping')"
  shows "bm_ok m' \<and> map_ok src dst m' mapping' \<and> map_of mapping \<subseteq>\<^sub>m map_of mapping'
     \<and> dom (map_of mapping') = dom (map_of mapping) \<union> (\<Union>s \<in> set ss. set (table_of m s))
     \<and> (\<forall>s \<in> set ss. table_of m' s = map (\<lambda>r. the (map_of mapping' r)) (table_of m s))
     \<and> (\<forall>k. k \<notin> seq_id ` set ss \<longrightarrow> map_of (bm_tables m') k = map_of (bm_tables m) k)
     \<and> bm_cross m' = bm_cross m \<and> bm_caching m' = bm_caching m"
  using assms
proof (induction ss arbitrary: m mapping)
  case (Cons s ss)
  from Cons.prems(5) obtain t where t: "map_of (bm_tables m) (seq_id s) = Some t" "\<forall>r \<in> set (tb_blocks t). fst r = src"
    by (auto simp: table_on_def)
  from Cons.prems(6) obtain st1 where st1: "swap_seq src dst (m, mapping) s = Inr st1" "foldM (swap_seq src dst) st1 ss = Inr (m', mapping')"
    by auto
  from st1(1) t(1) obtain m1 mapping1 t1 where s1: "swap_block_table src dst t (m, mapping) = Inr (m1, mapping1, t1)"
    and "st1 = (m1\<lparr>bm_tables := AList.update (seq_id s) t1 (bm_tables m1)\<rparr>, mapping1)"
    by (auto simp: swap_seq_def simp del: map_of_eq_Some_iff)
  with st1(2) have rest: "foldM (swap_seq src dst) (m1\<lparr>bm_tables := AList.update (seq_id s) t1 (bm_tables m1)\<rparr>, mapping1) ss = Inr (m', mapping')"
    by simp
  let ?m1 = "m1\<lparr>bm_tables := AList.update (seq_id s) t1 (bm_tables m1)\<rparr>"
  note st = swap_table_law [OF Cons.prems(1-3) t s1]
  have tabs: "bm_tables m1 = bm_tables m" "bm_cross m1 = bm_cross m" "bm_caching m1 = bm_caching m"
    using st by (simp_all add: same_tables_def)
  have tm: "map_of (bm_tables ?m1) k = (if k = seq_id s then Some t1 else map_of (bm_tables m) k)" for k
    by (simp add: tabs map_of_update)
  have ne: "seq_id s' \<noteq> seq_id s" if "s' \<in> set ss" for s' using imageI [OF that, of seq_id] Cons.prems(4) by auto
  have on: "\<forall>s' \<in> set ss. table_on src ?m1 s'"
  proof
    fix s' assume s': "s' \<in> set ss"
    then have "table_on src m s'" using Cons.prems(5) by simp
    then show "table_on src ?m1 s'" using ne [OF s'] unfolding table_on_def tm by simp
  qed
  have same: "table_of ?m1 s' = table_of m s'" if "s' \<in> set ss" for s' using ne [OF that] unfolding table_of_def tm by simp
  have d: "distinct (map seq_id ss)" "seq_id s \<notin> seq_id ` set ss" using Cons.prems(4) by simp_all
  have ok1: "bm_ok ?m1" "map_ok src dst ?m1 mapping1" using st by blast+
  note IH = Cons.IH [OF ok1 Cons.prems(3) d(1) on rest]
  have le: "map_of mapping \<subseteq>\<^sub>m map_of mapping1" "map_of mapping1 \<subseteq>\<^sub>m map_of mapping'" using st IH by blast+
  have ts: "table_of m s = tb_blocks t" using t(1) by (simp add: table_of_def del: map_of_eq_Some_iff)
  have agree: "the (map_of mapping' r) = the (map_of mapping1 r)" if "r \<in> set (tb_blocks t)" for r
  proof -
    have "dom (map_of mapping1) = dom (map_of mapping) \<union> set (tb_blocks t)" using st by blast
    with that have "r \<in> dom (map_of mapping1)" by blast
    with le(2) show ?thesis by (simp add: map_le_def)
  qed
  have "table_of m' s = tb_blocks t1"
  proof -
    have "map_of (bm_tables m') (seq_id s) = map_of (bm_tables ?m1) (seq_id s)" using IH d(2) by blast
    then show ?thesis unfolding table_of_def tm by simp
  qed
  also have "tb_blocks t1 = map (\<lambda>r. the (map_of mapping1 r)) (tb_blocks t)" using st by blast
  also have "\<dots> = map (\<lambda>r. the (map_of mapping' r)) (table_of m s)" using agree by (simp add: ts)
  finally have first: "table_of m' s = map (\<lambda>r. the (map_of mapping' r)) (table_of m s)" .
  have dm: "dom (map_of mapping1) = dom (map_of mapping) \<union> set (tb_blocks t)"
    "dom (map_of mapping') = dom (map_of mapping1) \<union> (\<Union>s' \<in> set ss. set (table_of ?m1 s'))" using st IH by blast+
  have "(\<Union>s' \<in> set ss. set (table_of ?m1 s')) = (\<Union>s' \<in> set ss. set (table_of m s'))" by (rule SUP_cong [OF refl]) (simp add: same)
  then have dom: "dom (map_of mapping') = dom (map_of mapping) \<union> (\<Union>s' \<in> set (s # ss). set (table_of m s'))" using dm ts by auto
  have all: "\<forall>s' \<in> set (s # ss). table_of m' s' = map (\<lambda>r. the (map_of mapping' r)) (table_of m s')"
  proof
    fix s' assume "s' \<in> set (s # ss)"
    then consider "s' = s" | "s' \<in> set ss" by auto
    then show "table_of m' s' = map (\<lambda>r. the (map_of mapping' r)) (table_of m s')"
    proof cases
      case 2
      then have "table_of m' s' = map (\<lambda>r. the (map_of mapping' r)) (table_of ?m1 s')" using IH by blast
      with same [OF 2] show ?thesis by simp
    qed (use first in simp)
  qed
  have others: "\<forall>k. k \<notin> seq_id ` set (s # ss) \<longrightarrow> map_of (bm_tables m') k = map_of (bm_tables m) k"
  proof (intro allI impI)
    fix k assume k: "k \<notin> seq_id ` set (s # ss)"
    then have "map_of (bm_tables m') k = map_of (bm_tables ?m1) k" using IH by simp
    with k show "map_of (bm_tables m') k = map_of (bm_tables m) k" unfolding tm by simp
  qed
  have cr: "bm_cross m' = bm_cross m" "bm_caching m' = bm_caching m" using IH tabs by simp_all
  from IH map_le_trans [OF le] dom all others cr show ?case by blast
qed (simp add: map_le_def)

lemma swap_tables_run:
  "\<not> sg_is_encoder_decoder g \<Longrightarrow> swap_tables src dst st g m =
     bindr (get_seqs (Some st) g) (\<lambda>ss. bindr (foldM (swap_seq src dst) (m, []) ss) (\<lambda>(m', mapping).
       Inr (m', map (\<lambda>(r, r'). (snd r, snd r')) mapping)))"
  unfolding swap_tables_def by (simp only: if_False bindr.simps prod.case)

lemma swap_tables_law:
  assumes "bm_ok m" "sg_ok g" "\<not> sg_is_encoder_decoder g" "src \<noteq> dst" "swap_tables src dst st g m = Inr (m', pairs)"
    and "\<forall>s \<in> set (seqs g). seq_status s = st \<longrightarrow> table_on src m s"
  shows "\<exists>f. bm_ok m' \<and> bm_caching m' = bm_caching m \<and> bm_cross m' = bm_cross m
     \<and> (\<forall>s \<in> set (seqs g). seq_status s = st \<longrightarrow> table_of m' s = map f (table_of m s) \<and> (\<forall>r \<in> set (table_of m' s). fst r = dst))
     \<and> inj_on f (\<Union>s \<in> {s \<in> set (seqs g). seq_status s = st}. set (table_of m s))
     \<and> set pairs = (\<lambda>r. (snd r, snd (f r))) ` (\<Union>s \<in> {s \<in> set (seqs g). seq_status s = st}. set (table_of m s))
     \<and> (\<forall>k. k \<notin> seq_id ` set (seqs g) \<longrightarrow> map_of (bm_tables m') k = map_of (bm_tables m) k)"
proof -
  let ?ss = "filter (\<lambda>s. seq_status s = st) (seqs g)" and ?U = "\<Union>s \<in> {s \<in> set (seqs g). seq_status s = st}. set (table_of m s)"
  from assms(5) get_seqs_filter [OF assms(2)] obtain mapping where run: "foldM (swap_seq src dst) (m, []) ?ss = Inr (m', mapping)"
    and pairs: "pairs = map (\<lambda>(r, r'). (snd r, snd r')) mapping" by (auto simp: swap_tables_run [OF assms(3)])
  have mo: "map_ok src dst m []" by (simp add: map_ok_def)
  have d: "distinct (map seq_id ?ss)" using assms(2) by (metis sg_ok_def distinct_map_filter)
  have on: "\<forall>s \<in> set ?ss. table_on src m s" using assms(6) by simp
  note law = swap_seqs_law [OF assms(1) mo assms(4) d on run]
  have mo': "map_ok src dst m' mapping" using law by blast
  note mD = map_okD [OF mo']
  have dom: "dom (map_of mapping) = ?U" using law by simp
  let ?f = "\<lambda>r. the (map_of mapping r)"
  have get: "map_of mapping r = Some (?f r)" if "r \<in> ?U" for r
  proof -
    have "r \<in> dom (map_of mapping)" unfolding dom by (rule that)
    then show ?thesis by (auto simp del: map_of_eq_Some_iff)
  qed
  have "inj_on ?f ?U"
  proof (rule inj_onI)
    fix x y assume xy: "x \<in> ?U" "y \<in> ?U" "?f x = ?f y"
    show "x = y" by (rule mD(2) [OF get [OF xy(1)]]) (use get [OF xy(2)] xy(3) in \<open>simp del: map_of_eq_Some_iff\<close>)
  qed
  moreover have "set pairs = (\<lambda>r. (snd r, snd (?f r))) ` ?U"
  proof -
    have "set mapping = (\<lambda>r. (r, ?f r)) ` ?U"
    proof (intro set_eqI iffI)
      fix p assume "p \<in> set mapping"
      then have m: "map_of mapping (fst p) = Some (snd p)" using mD(1) by simp
      then have "fst p \<in> ?U" using dom by blast
      moreover have "p = (fst p, ?f (fst p))" using m by (simp add: prod_eq_iff del: map_of_eq_Some_iff)
      ultimately show "p \<in> (\<lambda>r. (r, ?f r)) ` ?U" by (rule rev_image_eqI)
    next
      fix p assume "p \<in> (\<lambda>r. (r, ?f r)) ` ?U"
      then obtain r where "r \<in> ?U" "p = (r, ?f r)" by blast
      then show "p \<in> set mapping" using get [of r] by (auto dest: map_of_SomeD simp del: map_of_eq_Some_iff)
    qed
    then show ?thesis by (simp add: pairs image_image)
  qed
  moreover have "table_of m' s = map ?f (table_of m s) \<and> (\<forall>r \<in> set (table_of m' s). fst r = dst)"
    if s: "s \<in> set (seqs g)" "seq_status s = st" for s
  proof -
    have t: "table_of m' s = map ?f (table_of m s)" using law s by simp
    have "fst (?f r) = dst" if "r \<in> set (table_of m s)" for r using mD(3) [OF get [of r]] that s by blast
    with t show ?thesis by simp
  qed
  moreover have "\<forall>k. k \<notin> seq_id ` set (seqs g) \<longrightarrow> map_of (bm_tables m') k = map_of (bm_tables m) k"
  proof (intro allI impI)
    fix k assume "k \<notin> seq_id ` set (seqs g)"
    then have "k \<notin> seq_id ` set ?ss" by auto
    with law show "map_of (bm_tables m') k = map_of (bm_tables m) k" by blast
  qed
  moreover have "bm_ok m'" "bm_caching m' = bm_caching m" "bm_cross m' = bm_cross m" using law by simp_all
  ultimately show ?thesis by (intro exI [of _ ?f] conjI ballI impI) simp_all
qed

text \<open>
  A swap fails for lack of blocks only: it succeeds when the destination has room for every block of the
  group, each counted once.  \<open>V\<close> is the set of these blocks.
\<close>

lemma swap_block_succeeds:
  assumes "bm_inv X m" "src \<noteq> dst" "fst r = src" "0 < bm_refs m r" "map_ok src dst m mapping"
    and "finite V" "r \<in> V" "int (card (V - dom (map_of mapping))) \<le> al_num_free (bm_al dst m)"
  shows "\<exists>m' mapping' t'. swap_block src dst (m, mapping, t) r = Inr (m', mapping', t')
     \<and> int (card (V - dom (map_of mapping'))) \<le> al_num_free (bm_al dst m')"
proof -
  let ?f = "\<lambda>p. p\<lparr>ref_count := ref_count p + 1\<rparr>"
  have "\<exists>r' m1 mapping'. swap_target dst r m mapping = Inr (r', m1, mapping')
    \<and> int (card (V - dom (map_of mapping'))) \<le> al_num_free (bm_al dst m1)"
  proof (cases "map_of mapping r")
    case (Some v)
    note v = map_okD(3) [OF assms(5) Some]
    have al: "al_ok (bm_al dst m)" by (rule bm_invD(1) [OF assms(1)])
    have pos: "0 < al_refs (bm_al dst m) (snd v)" using v by (auto simp: bm_refs_def)
    have "ref_count (al_heap (bm_al dst m) ! snd v) = al_refs (bm_al dst m) (snd v)"
      using pos by (simp add: al_refs_def split: if_splits)
    then have "al_upd (snd v) ?f (bm_al dst m) = al_set_refs (snd v) (al_refs (bm_al dst m) (snd v) + 1) (bm_al dst m)"
      by (cases "bm_al dst m") (simp_all add: al_set_refs_def ca_upd_def ua_upd_def)
    then have "al_num_free (bm_al dst (bm_upd ?f m v)) = al_num_free (bm_al dst m)"
      using blocks.set_refs_free [OF al pos, of "al_refs (bm_al dst m) (snd v) + 1"] pos v by (auto simp: bm_upd_def)
    with Some assms(8) show ?thesis by (simp add: swap_target_def del: map_of_eq_Some_iff)
  next
    case None
    then have "r \<in> V - dom (map_of mapping)" using assms(7) by (auto simp del: map_of_eq_Some_iff)
    then have c: "card (V - dom (map_of mapping)) = Suc (card (V - dom (map_of mapping) - {r}))"
      using assms(6) by (metis card.remove finite_Diff)
    then have "0 < al_num_free (bm_al dst m)" using assms(8) by simp
    from blocks.num_free_nonneg_alloc [OF bm_invD(1) [OF assms(1)] this] obtain b a where
      a: "al_allocate (Some (block_hash (bm_block m r))) (num_hashed (bm_block m r)) (bm_al dst m) = Inr (b, a)"
      "al_num_free (bm_al dst m) - 1 \<le> al_num_free a" by metis
    have "V - dom (map_of (AList.update r (dst, b) mapping)) = V - dom (map_of mapping) - {r}" by (auto simp: update_conv')
    with c a assms(8) None show ?thesis by (simp add: swap_target_def del: bindr_Inr_iff)
  qed
  then obtain r' m1 mapping' where t: "swap_target dst r m mapping = Inr (r', m1, mapping')"
    "int (card (V - dom (map_of mapping'))) \<le> al_num_free (bm_al dst m1)" by blast
  note tl = swap_target_law [OF assms(1-5) t(1)]
  have held: "0 < bm_refs m1 r" using assms(3,4) tl(4) by (simp add: bm_refs_def)
  from bm_free_one [OF tl(1) held] assms(3) obtain a where "al_free (snd r) (bm_al src m1) = Inr a" by auto
  with t assms(2) show ?thesis by (simp add: swap_block_target del: bindr_Inr_iff)
qed

lemma swap_list_succeeds:
  assumes "bm_inv X m" "src \<noteq> dst" "\<forall>r \<in> set rs. fst r = src \<and> 0 < bm_refs m r" "distinct rs" "map_ok src dst m mapping"
    and "finite V" "set rs \<subseteq> V" "int (card (V - dom (map_of mapping))) \<le> al_num_free (bm_al dst m)"
  shows "\<exists>m' mapping' t'. foldM (swap_block src dst) (m, mapping, t) rs = Inr (m', mapping', t')
     \<and> int (card (V - dom (map_of mapping'))) \<le> al_num_free (bm_al dst m')"
  using assms
proof (induction rs arbitrary: X m mapping t)
  case (Cons r rs)
  have r: "fst r = src" "0 < bm_refs m r" "r \<in> V" using Cons.prems(3,7) by simp_all
  from swap_block_succeeds [OF Cons.prems(1,2) r(1,2) Cons.prems(5,6) r(3) Cons.prems(8)] obtain m1 mapping1 t1 where
    s1: "swap_block src dst (m, mapping, t) r = Inr (m1, mapping1, t1)"
    "int (card (V - dom (map_of mapping1))) \<le> al_num_free (bm_al dst m1)" by blast
  from swap_block_law [OF Cons.prems(1,2) r(1,2) Cons.prems(5) s1(1)] obtain r' where
    l: "bm_inv (\<lambda>q. X q + (if q = r' then 1 else 0) - (if q = r then 1 else 0)) m1" "map_ok src dst m1 mapping1"
    "\<And>q. fst q = src \<Longrightarrow> bm_refs m1 q = bm_refs m q - (if q = r then 1 else 0)" by blast
  have "\<forall>q \<in> set rs. fst q = src \<and> 0 < bm_refs m1 q" using Cons.prems(3,4) l(3) by auto
  from Cons.IH [OF l(1) Cons.prems(2) this _ l(2) Cons.prems(6) _ s1(2), of t1] Cons.prems(4,7) s1(1) show ?case
    by (simp del: bindr_Inr_iff)
qed simp

lemma swap_seqs_succeeds:
  assumes "bm_ok m" "map_ok src dst m mapping" "src \<noteq> dst" "distinct (map seq_id ss)" "\<forall>s \<in> set ss. table_on src m s"
    and "finite V" "(\<Union>s \<in> set ss. set (table_of m s)) \<subseteq> V" "int (card (V - dom (map_of mapping))) \<le> al_num_free (bm_al dst m)"
  shows "\<exists>m' mapping'. foldM (swap_seq src dst) (m, mapping) ss = Inr (m', mapping')"
  using assms
proof (induction ss arbitrary: m mapping)
  case (Cons s ss)
  from Cons.prems(5) obtain t where t: "map_of (bm_tables m) (seq_id s) = Some t" "\<forall>r \<in> set (tb_blocks t). fst r = src"
    by (auto simp: table_on_def)
  have tv: "set (tb_blocks t) \<subseteq> V" using Cons.prems(7) t(1) by (auto simp: table_of_def simp del: map_of_eq_Some_iff)
  have held: "\<forall>r \<in> set (tb_blocks t). fst r = src \<and> 0 < bm_refs m r" using t bm_ok_held [OF Cons.prems(1) t(1)] by blast
  have dt: "distinct (tb_blocks t)" using bm_okD(5) [OF Cons.prems(1) t(1)] by blast
  from swap_list_succeeds [OF bm_okD(1) [OF Cons.prems(1)] Cons.prems(3) held dt Cons.prems(2,6) tv Cons.prems(8), of bt_empty]
  obtain m1 mapping1 t1 where s1: "swap_block_table src dst t (m, mapping) = Inr (m1, mapping1, t1)"
    "int (card (V - dom (map_of mapping1))) \<le> al_num_free (bm_al dst m1)" by (auto simp: swap_block_table_def)
  let ?m1 = "m1\<lparr>bm_tables := AList.update (seq_id s) t1 (bm_tables m1)\<rparr>"
  have run: "swap_seq src dst (m, mapping) s = Inr (?m1, mapping1)" using t(1) s1(1) by (simp add: swap_seq_def del: map_of_eq_Some_iff bindr_Inr_iff)
  note st = swap_table_law [OF Cons.prems(1-3) t s1(1)]
  have ok1: "bm_ok ?m1" "map_ok src dst ?m1 mapping1" and st1: "same_tables m m1" using st by blast+
  have tm: "map_of (bm_tables ?m1) k = (if k = seq_id s then Some t1 else map_of (bm_tables m) k)" for k
    using st1 by (simp add: map_of_update same_tables_def)
  have ne: "seq_id s' \<noteq> seq_id s" if "s' \<in> set ss" for s' using imageI [OF that, of seq_id] Cons.prems(4) by auto
  have on: "\<forall>s' \<in> set ss. table_on src ?m1 s'"
  proof
    fix s' assume s': "s' \<in> set ss"
    then have "table_on src m s'" using Cons.prems(5) by simp
    then show "table_on src ?m1 s'" using ne [OF s'] unfolding table_on_def tm by simp
  qed
  have "table_of ?m1 s' = table_of m s'" if "s' \<in> set ss" for s' using ne [OF that] unfolding table_of_def tm by simp
  then have "(\<Union>s \<in> set ss. set (table_of ?m1 s)) = (\<Union>s \<in> set ss. set (table_of m s))" by (intro SUP_cong refl) simp
  then have sub: "(\<Union>s \<in> set ss. set (table_of ?m1 s)) \<subseteq> V" using Cons.prems(7) by simp
  have d: "distinct (map seq_id ss)" using Cons.prems(4) by simp
  have fr: "int (card (V - dom (map_of mapping1))) \<le> al_num_free (bm_al dst ?m1)" using s1(2) by simp
  from Cons.IH [OF ok1 Cons.prems(3) d on Cons.prems(6) sub fr] run show ?case by (simp del: bindr_Inr_iff)
qed simp

lemma physical_blocks_law:
  assumes "\<not> sg_is_encoder_decoder g" "physical_blocks g m = Inr bs"
  shows "distinct bs" "set bs = (\<Union>s \<in> {s \<in> set (seqs g). \<not> seq_is_finished s}. set (table_of m s))"
proof -
  let ?f = "\<lambda>bs s. if seq_is_finished s then Inr bs else bindr (dindex (bm_tables m) (seq_id s)) (\<lambda>t. Inr (bs @ tb_blocks t))"
  have acc: "foldM ?f b0 ss = Inr b1 \<Longrightarrow> set b1 = set b0 \<union> (\<Union>s \<in> {s \<in> set ss. \<not> seq_is_finished s}. set (table_of m s))" for b0 b1 ss
  proof (induction ss arbitrary: b0)
    case (Cons s ss)
    show ?case
    proof (cases "seq_is_finished s")
      case True
      with Cons show ?thesis by auto
    next
      case False
      with Cons.prems obtain t where t: "map_of (bm_tables m) (seq_id s) = Some t" "foldM ?f (b0 @ tb_blocks t) ss = Inr b1" by auto
      have "table_of m s = tb_blocks t" using t(1) by (simp add: table_of_def del: map_of_eq_Some_iff)
      with Cons.IH [OF t(2)] False show ?thesis by auto
    qed
  qed simp
  from assms obtain b1 where b1: "foldM ?f [] (seqs g) = Inr b1" "bs = remdups b1" by (auto simp: physical_blocks_def)
  show "distinct bs" "set bs = (\<Union>s \<in> {s \<in> set (seqs g). \<not> seq_is_finished s}. set (table_of m s))"
    using acc [OF b1(1)] by (simp_all add: b1(2))
qed

lemma can_swap_out_law:
  assumes "bm_ok m" "sg_ok g" "\<not> sg_is_encoder_decoder g" "bm_can_swap_out g m = Inr True"
    and "\<forall>s \<in> set (seqs g). seq_status s = RUNNING \<longrightarrow> table_on GPU m s"
  shows "\<exists>m' pairs. bm_swap_out g m = Inr (m', pairs)"
proof -
  from assms(4) obtain bs where bs: "physical_blocks g m = Inr bs" "int (length bs) \<le> al_num_free (bm_cpu m)"
    by (auto simp: bm_can_swap_out_def)
  note pb = physical_blocks_law [OF assms(3) bs(1)]
  let ?ss = "filter (\<lambda>s. seq_status s = RUNNING) (seqs g)"
  have "(\<Union>s \<in> set ?ss. set (table_of m s)) \<subseteq> set bs" unfolding pb(2) by (auto simp: seq_is_finished_def)
  moreover have "int (card (set bs - dom (map_of []))) \<le> al_num_free (bm_al CPU m)" using bs(2) pb(1) by (simp add: distinct_card)
  moreover have "distinct (map seq_id ?ss)" using assms(2) by (metis sg_ok_def distinct_map_filter)
  ultimately obtain m' mapping where "foldM (swap_seq GPU CPU) (m, []) ?ss = Inr (m', mapping)"
    using swap_seqs_succeeds [OF assms(1), of GPU CPU "[]" ?ss "set bs"] assms(5) by (auto simp: map_ok_def)
  with get_seqs_filter [OF assms(2)] show ?thesis by (simp add: bm_swap_out_def swap_tables_run [OF assms(3)])
qed

section \<open>The manager as a state machine\<close>

lemma bm_init_ok:
  assumes "bm_init bs gpu cpu wm None caching = Inr m"
  shows "bm_ok m"
proof -
  have al: "al_ok (bm_gpu m)" "al_ok (bm_cpu m)" "al_num_total (bm_gpu m) = bm_total_gpu m"
    "al_caching (bm_gpu m) = bm_caching m" "al_caching (bm_cpu m) = bm_caching m"
    and tabs: "bm_tables m = []" "bm_cross m = []" "bm_sliding m = None"
    using assms by (cases caching; auto simp: bm_init_def new_cached_ok new_uncached_ok; simp add: new_cached_def new_uncached_def)+
  have "bm_gpu m = Cached (new_cached gpu) \<or> bm_gpu m = Uncached (new_uncached gpu)"
    "bm_cpu m = Cached (new_cached cpu) \<or> bm_cpu m = Uncached (new_uncached cpu)"
    using assms by (cases caching; auto simp: bm_init_def)+
  then have z: "al_refs (bm_gpu m) b = 0" "al_refs (bm_cpu m) b = 0" for b
    by (auto simp: al_refs_def new_cached_def new_uncached_def new_block_def)
  have "bm_refs m r = 0" for r by (cases "fst r") (simp_all add: bm_refs_def z)
  then have "bm_inv (\<lambda>_. 0) m" using al tabs by (simp add: bm_inv_def uses_def)
  then show ?thesis using tabs by (simp add: bm_ok_def tables_ok_def)
qed

text \<open>
  One step is one call of the scheduler that returns; a call that raises ends the engine.  What a step asks of
  its arguments is what the scheduler provides: a new group waits and its ids are new, a forked child has a new id, and
  the sequences swapped out run on the GPU, those swapped in lie on the CPU.

  Four things the manager can be asked for are outside these runs.  Managers with a sliding window, whose tables
  name a block again every \<open>bm_sliding\<close> entries (\<open>allocate_block_at\<close> and \<open>bm_append_slots\<close> model that, the counting below
  does not hold there entry by entry).  With prefix caching, new groups of several sequences, for which the counts are
  wrong (\<open>cached_group_undercounts\<close>), and tokens whose hashes collide (\<open>group_fresh\<close>, \<open>fresh_hash\<close>).  And swaps of
  encoder-decoder groups.
\<close>

inductive bm_step ::
  "(((int list \<times> int list option) \<times> int) \<Rightarrow> int) \<Rightarrow> (bref list \<Rightarrow> bref list) \<Rightarrow> block_mgr \<Rightarrow> block_mgr \<Rightarrow> bool"
  for hsh so where
  allocate: "group_fresh hsh g m \<Longrightarrow> bm_allocate hsh g m = Inr m' \<Longrightarrow> bm_step hsh so m m'"
| append: "map_of (bm_tables m) (seq_id s) = Some t \<Longrightarrow> fresh_hash hsh s t m \<Longrightarrow> bm_append_slots hsh s m = Inr (m', moves)
    \<Longrightarrow> bm_step hsh so m m'"
| fork: "map_of (bm_tables m) (seq_id c) = None \<Longrightarrow> bm_step hsh so m (bm_fork p c m)"
| swap_out: "sg_ok g \<Longrightarrow> \<not> sg_is_encoder_decoder g \<Longrightarrow> \<forall>s \<in> set (seqs g). seq_status s = RUNNING \<longrightarrow> table_on GPU m s
    \<Longrightarrow> bm_swap_out g m = Inr (m', moves) \<Longrightarrow> bm_step hsh so m m'"
| swap_in: "sg_ok g \<Longrightarrow> \<not> sg_is_encoder_decoder g \<Longrightarrow> \<forall>s \<in> set (seqs g). seq_status s = SWAPPED \<longrightarrow> table_on CPU m s
    \<Longrightarrow> bm_swap_in g m = Inr (m', moves) \<Longrightarrow> bm_step hsh so m m'"
| free: "bm_free so s m = Inr m' \<Longrightarrow> bm_step hsh so m m'"
| free_cross: "bm_free_cross so g m = Inr m' \<Longrightarrow> bm_step hsh so m m'"
| reset: "bm_reset so m = Inr m' \<Longrightarrow> bm_step hsh so m m'"
| access: "bm_access_all s now m = Inr m' \<Longrightarrow> bm_step hsh so m m'"
| mark: "bm_mark_blocks g n m = Inr m' \<Longrightarrow> bm_step hsh so m m'"

inductive bm_reach ::
  "(((int list \<times> int list option) \<times> int) \<Rightarrow> int) \<Rightarrow> (bref list \<Rightarrow> bref list) \<Rightarrow> block_mgr \<Rightarrow> bool"
  for hsh so where
  start: "bm_init bs gpu cpu wm None caching = Inr m \<Longrightarrow> bm_reach hsh so m"
| step: "bm_reach hsh so m \<Longrightarrow> bm_step hsh so m m' \<Longrightarrow> bm_reach hsh so m'"

lemma bm_step_ok:
  assumes "bm_step hsh so m m'" "bm_ok m" "set_order so"
  shows "bm_ok m'"
  using assms(1)
proof cases
  case (allocate g)
  with bm_allocate_law [OF assms(2)] show ?thesis by blast
next
  case (append s t moves)
  from bm_append_law [OF assms(2) append] show ?thesis by (simp add: appended_def)
next
  case (fork c p)
  show ?thesis
  proof (cases "map_of (bm_tables m) (seq_id p)")
    case None
    with fork assms(2) show ?thesis by (simp add: bm_fork_def)
  next
    case (Some t)
    with bm_fork_law(1) [OF assms(2) Some] fork show ?thesis by simp
  qed
next
  case (swap_out g moves)
  from swap_tables_law [OF assms(2) swap_out(1,2) _ swap_out(4) [unfolded bm_swap_out_def] swap_out(3)] show ?thesis by blast
next
  case (swap_in g moves)
  from swap_tables_law [OF assms(2) swap_in(1,2) _ swap_in(4) [unfolded bm_swap_in_def] swap_in(3)] show ?thesis by blast
next
  case (free s)
  with bm_free_law [OF assms(2,3), of s] show ?thesis by auto
next
  case (free_cross g)
  with bm_free_cross_law [OF assms(2,3), of g] show ?thesis by auto
next
  case reset
  with bm_reset_law [OF assms(2,3)] show ?thesis by auto
next
  case (access s now)
  with bm_access_law [OF assms(2)] show ?thesis by blast
next
  case (mark g n)
  with bm_mark_law [OF assms(2)] show ?thesis by blast
qed

lemma bm_reach_ok: "bm_reach hsh so m \<Longrightarrow> set_order so \<Longrightarrow> bm_ok m"
  by (induction rule: bm_reach.induct) (auto intro: bm_init_ok bm_step_ok)

lemma bm_free_gpu: "bm_ok m \<Longrightarrow> bm_num_free_gpu m = bm_total_gpu m - int (card {b. 0 < uses m (GPU, b)})"
proof -
  assume ok: "bm_ok m"
  note d = bm_okD [OF ok]
  have "al_refs (bm_gpu m) b = uses m (GPU, b)" for b using d(4) [of "(GPU, b)"] by (simp add: bm_refs_def)
  then show ?thesis
    using blocks.num_free_def [OF bm_invD(1) [OF d(1), of GPU]] bm_invD(5) [OF d(1)] by (simp add: bm_num_free_gpu_def)
qed

lemma bm_reach_step: "bm_reach hsh so m \<Longrightarrow> bm_free so s m = Inr m' \<Longrightarrow> bm_reach hsh so m'"
  by (rule bm_reach.step [OF _ bm_step.free])

text \<open>
  C34.  Reference counts are exact.  In every state the manager reaches, the count of a block is the number of block
  table entries that name it, no operation has leaked or freed a block too early, and the number of free GPU blocks
  is what the blocks named by some table leave.  The runs are those of \<open>bm_reach\<close>: a manager without sliding window,
  with prefix caching only new groups of one sequence and token hashes that do not collide, and no swap
  of an encoder-decoder group.
\<close>

theorem block_counts_conserved:
  assumes "bm_reach hsh so m" "set_order so"
  shows "(\<forall>r. bm_refs m r = uses m r) \<and> bm_num_free_gpu m = bm_total_gpu m - int (card {b. 0 < uses m (GPU, b)})"
  using bm_reach_ok [OF assms] bm_free_gpu bm_okD(4) by blast

text \<open>
  C39.  Block tables stay well formed in every state of \<open>bm_reach\<close>, so without a sliding window (with one, tables
  repeat blocks by design), with prefix caching for new groups of one sequence and token hashes that do not collide, and
  without swaps of encoder-decoder groups: a table names no block twice and its cached list of ids agrees with its
  blocks; with prefix caching every block is filed under its own hash, in the table of blocks in use exactly when
  its count is positive; without, the free list holds exactly the blocks of count zero.
\<close>

theorem block_tables_well_formed:
  assumes "bm_reach hsh so m" "set_order so"
  shows "tables_ok m \<and> al_ok (bm_gpu m) \<and> al_ok (bm_cpu m) \<and> al_num_total (bm_gpu m) = bm_total_gpu m"
  using bm_reach_ok [OF assms] by (simp add: bm_ok_def bm_inv_def)

text \<open>
  C35.  \<open>can_allocate\<close> is a promise, in the states of \<open>bm_reach\<close>: when it answers OK for a waiting group (of one
  sequence with distinct prompt hashes, if prefix caching is on), \<open>allocate\<close> does not raise; every
  sequence of the group then has a table of GPU blocks, one for each block its tokens need, and no other
  table changes.
\<close>

theorem can_allocate_promise:
  assumes "bm_reach hsh so m" "set_order so" "group_fresh hsh g m" "0 \<le> bm_watermark m" "0 \<le> n_blocks (hd (seqs g))"
    and "\<forall>e. encoder_seq g = Some e \<longrightarrow> 0 \<le> n_blocks e" "bm_can_allocate m g = Inr AllocOK"
  shows "\<exists>m'. bm_allocate hsh g m = Inr m'
     \<and> (\<forall>s \<in> set (seqs g). \<exists>t. map_of (bm_tables m') (seq_id s) = Some t \<and> gpu_table t \<and> length (tb_blocks t) = nat (n_blocks (hd (seqs g))))
     \<and> (\<forall>k. k \<notin> seq_id ` set (seqs g) \<longrightarrow> map_of (bm_tables m') k = map_of (bm_tables m) k)"
proof -
  note ok = bm_reach_ok [OF assms(1,2)]
  from can_allocate_law [OF ok assms(3-7)] obtain m' where "bm_allocate hsh g m = Inr m'" by blast
  with bm_allocate_law [OF ok assms(3) this] show ?thesis by blast
qed

text \<open>
  C36.  Without prefix caching and without a sliding window \<open>can_append_slots\<close> is a promise for the whole group: when it
  answers True, appending a slot to each running sequence in turn does not raise, copies on write included, provided
  the table of each is at most one block short and ends on the GPU.
\<close>

theorem can_append_promise:
  assumes "bm_reach hsh so m" "set_order so" "\<not> bm_caching m" "sg_ok g" "bm_can_append_slots g 0 m = Inr True"
    and "\<forall>s \<in> set (seqs g). seq_status s = RUNNING \<longrightarrow> append_ready m s"
  shows "\<exists>m'. foldM (\<lambda>m s. bindr (bm_append_slots hsh s m) (\<lambda>(m', moves). Inr m')) m
      (filter (\<lambda>s. seq_status s = RUNNING) (seqs g)) = Inr m'"
proof -
  let ?ss = "filter (\<lambda>s. seq_status s = RUNNING) (seqs g)"
  have "int (length ?ss) \<le> al_num_free (bm_gpu m)" using assms(5) num_seqs_length [OF assms(4)] by (simp add: bm_can_append_slots_def)
  moreover have "distinct (map seq_id ?ss)" using assms(4) by (metis sg_ok_def distinct_map_filter)
  moreover have "\<forall>s \<in> set ?ss. append_ready m s" using assms(6) by simp
  ultimately show ?thesis using append_all [OF bm_reach_ok [OF assms(1,2)] assms(3)] by blast
qed

text \<open>
  C37.  Copy on write.  After a call of \<open>append_slots\<close> that returns, the last block of the sequence's table is its own,
  unless prefix caching is on and the block is full, when it may be shared; the other tables are as before; and the copy
  that is reported, if any, goes from the block that was shared to that new last block, which is another block, again
  unless caching is on and the block is full.  The manager is in a state of \<open>bm_reach\<close>, so without a sliding window, and
  with caching no other block of the table has the hash of the last one (\<open>fresh_hash\<close>).
\<close>

theorem copy_on_write:
  assumes "bm_reach hsh so m" "set_order so" "map_of (bm_tables m) (seq_id s) = Some t" "fresh_hash hsh s t m"
    and "bm_append_slots hsh s m = Inr (m', moves)"
  shows "\<exists>t' b. map_of (bm_tables m') = (map_of (bm_tables m))(seq_id s \<mapsto> t')
     \<and> tb_blocks t' = (if bt_len t < n_blocks s then tb_blocks t else butlast (tb_blocks t)) @ [(GPU, b)]
     \<and> (bm_refs m' (GPU, b) = 1 \<or> bm_caching m \<and> is_last_block_full s = Inr True)
     \<and> (moves = [] \<or> (\<exists>a. moves = [(a, b)] \<and> last (tb_blocks t) = (GPU, a) \<and> 1 < bm_refs m (GPU, a)
          \<and> (a \<noteq> b \<or> bm_caching m \<and> is_last_block_full s = Inr True)))"
  using bm_append_law [OF bm_reach_ok [OF assms(1,2)] assms(3-5)] unfolding appended_def by blast

text \<open>
  C38.  Swapping out.  When \<open>can_swap_out\<close> answers True, \<open>swap_out\<close> does not raise: it replaces each block of the
  running sequences by a CPU block through one one-to-one map, the one whose pairs it returns, so sequences that
  shared a block before share its copy after; other tables are untouched.  The group is decoder-only and the manager
  in a state of \<open>bm_reach\<close>.
\<close>

theorem swap_out_preserves_sharing:
  assumes "bm_reach hsh so m" "set_order so" "sg_ok g" "\<not> sg_is_encoder_decoder g" "bm_can_swap_out g m = Inr True"
    and "\<forall>s \<in> set (seqs g). seq_status s = RUNNING \<longrightarrow> table_on GPU m s"
  shows "\<exists>m' pairs f. bm_swap_out g m = Inr (m', pairs)
     \<and> (\<forall>s \<in> set (seqs g). seq_status s = RUNNING \<longrightarrow> table_of m' s = map f (table_of m s) \<and> (\<forall>r \<in> set (table_of m' s). fst r = CPU))
     \<and> inj_on f (\<Union>s \<in> {s \<in> set (seqs g). seq_status s = RUNNING}. set (table_of m s))
     \<and> set pairs = (\<lambda>r. (snd r, snd (f r))) ` (\<Union>s \<in> {s \<in> set (seqs g). seq_status s = RUNNING}. set (table_of m s))
     \<and> (\<forall>k. k \<notin> seq_id ` set (seqs g) \<longrightarrow> map_of (bm_tables m') k = map_of (bm_tables m) k)"
proof -
  note ok = bm_reach_ok [OF assms(1,2)]
  from can_swap_out_law [OF ok assms(3-6)] obtain m' pairs where run: "bm_swap_out g m = Inr (m', pairs)" by blast
  from swap_tables_law [OF ok assms(3,4) _ run [unfolded bm_swap_out_def] assms(6)] obtain f where
    f: "\<forall>s \<in> set (seqs g). seq_status s = RUNNING \<longrightarrow> table_of m' s = map f (table_of m s) \<and> (\<forall>r \<in> set (table_of m' s). fst r = CPU)"
    "inj_on f (\<Union>s \<in> {s \<in> set (seqs g). seq_status s = RUNNING}. set (table_of m s))"
    "set pairs = (\<lambda>r. (snd r, snd (f r))) ` (\<Union>s \<in> {s \<in> set (seqs g). seq_status s = RUNNING}. set (table_of m s))"
    "\<forall>k. k \<notin> seq_id ` set (seqs g) \<longrightarrow> map_of (bm_tables m') k = map_of (bm_tables m) k" by auto
  with run f show ?thesis by blast
qed

text \<open>
  With prefix caching, \<open>allocate\<close> gives a copy of one table to every waiting sequence of the group but counts
  each block once: for a group of \<open>k\<close> waiting sequences every block of the prompt ends \<open>k - 1\<close> references short
  (without caching the count is set to the number of sequences).  Freeing the sequences one by one then reaches count zero while
  tables still name the block, and the last \<open>free\<close> raises the double-free error.
\<close>

theorem cached_group_undercounts:
  assumes "bm_reach hsh so m" "set_order so" "bm_caching m" "sg_ok g" "\<not> sg_is_encoder_decoder g" "2 \<le> length (seqs g)"
    and "\<forall>s \<in> set (seqs g). seq_status s = WAITING \<and> map_of (bm_tables m) (seq_id s) = None"
    and "prompt_hashes_distinct hsh (hd (seqs g))" "bm_allocate hsh g m = Inr m'" "r \<in> set (table_of m' (hd (seqs g)))"
  shows "bm_refs m' r = uses m' r - (int (length (seqs g)) - 1)"
proof -
  note ok = bm_okD [OF bm_reach_ok [OF assms(1,2)]]
  let ?s = "hd (seqs g)" and ?k = "int (length (seqs g))"
  have ws: "get_seqs (Some WAITING) g = Inr (seqs g)" using get_waiting [OF assms(4)] assms(7) by blast
  have ne: "seqs g \<noteq> []" using assms(6) by auto
  then have hd: "py_nth (seqs g) 0 = Inr ?s" by (cases "seqs g") (simp_all add: py_nth_def)
  have ids: "distinct (map seq_id (seqs g))" using assms(4) by (metis sg_ok_def)
  have k: "num_seqs None g = Inr ?k" by (simp add: num_seqs_def)
  have chk: "check_no_caching_or_swa m g = Inr ()" using assms(5) by (simp add: check_no_caching_or_swa_def)
  have "length (seqs g) \<noteq> 1" using assms(6) by simp
  then have "bm_allocate hsh g m = bindr (allocate_sequence hsh m (Some ?s) ?k False) (\<lambda>(t, gpu).
      Inr (m\<lparr>bm_gpu := gpu, bm_tables := foldl (\<lambda>ts s. AList.update (seq_id s) (bt_copy t) ts) (bm_tables m) (seqs g)\<rparr>))"
    unfolding bm_allocate_def Let_def using assms(5) by (simp only: ws hd k chk bindr.simps if_False)
  with assms(9) obtain t gpu where a: "allocate_sequence hsh m (Some ?s) ?k False = Inr (t, gpu)" and
    m': "m' = m\<lparr>bm_gpu := gpu, bm_tables := foldl (\<lambda>ts s. AList.update (seq_id s) (bt_copy t) ts) (bm_tables m) (seqs g)\<rparr>" by auto
  note al = allocate_cached [OF ok(1,3) assms(3,8) a]
  let ?X = "\<lambda>r. (1 - ?k) * entries r t"
  have i: "bm_inv (\<lambda>r. ?X r + ?k * entries r t) (bm_set_al GPU gpu m)"
    by (rule bm_inv_cong [OF al(1)]) (simp add: algebra_simps)
  have none: "\<forall>s \<in> set (seqs g). map_of (bm_tables (bm_set_al GPU gpu m)) (seq_id s) = None" using assms(7) by simp
  have tabs: "tables_ok (bm_set_al GPU gpu m)" using ok(2) by simp
  note put = put_copies [OF i ids none tabs al(3,2)]
  have inv: "bm_inv ?X m'" using put [THEN conjunct1] by (simp add: m')
  have "?s \<in> set (seqs g)" using ne by simp
  then obtain t' where t': "map_of (bm_tables m') (seq_id ?s) = Some t'" "tb_blocks t' = tb_blocks t"
    using put [THEN conjunct2, THEN conjunct2, THEN conjunct1] by (auto simp: m' simp del: map_of_eq_Some_iff)
  then have "r \<in> set (tb_blocks t)" using assms(10) by (simp add: table_of_def del: map_of_eq_Some_iff)
  then have "entries r t = 1" using entries_distinct [OF al(2), of r] by simp
  then show ?thesis using bm_invD(4) [OF inv, of r] by simp
qed

section \<open>A small manager\<close>

text \<open>Three GPU blocks and two CPU blocks of 16 tokens, one request of one token, and its fork.\<close>

definition demo_seq :: "int \<Rightarrow> seq_status \<Rightarrow> sequence" where
  "demo_seq i st = (new_sequence i [5] 16 None None)\<lparr>seq_status := st\<rparr>"

definition demo_group :: "sequence list \<Rightarrow> seq_group" where
  "demo_group ss = new_seq_group ''r'' ss 0 None None None 0"

definition demo_block :: "int \<Rightarrow> phys_block" where
  "demo_block k = \<lparr>block_hash = - 1, num_hashed = 0, ref_count = k, last_accessed = - 1, computed = False\<rparr>"

definition demo_mgr :: block_mgr where
  "demo_mgr = \<lparr>bm_block_size = 16, bm_total_gpu = 3, bm_sliding = None, bm_watermark = 0, bm_caching = False,
     bm_gpu = Uncached \<lparr>ua_total = 3, ua_heap = [demo_block 0, demo_block 0, demo_block 0], free_blocks = [0, 1, 2]\<rparr>,
     bm_cpu = Uncached \<lparr>ua_total = 2, ua_heap = [demo_block 0, demo_block 0], free_blocks = [0, 1]\<rparr>,
     bm_tables = [], bm_cross = []\<rparr>"

definition demo_busy :: block_mgr where
  "demo_busy = demo_mgr\<lparr>bm_gpu := Uncached \<lparr>ua_total = 3, ua_heap = [demo_block 0, demo_block 0, demo_block 1], free_blocks = [0, 1]\<rparr>,
     bm_tables := [(1, \<lparr>tb_blocks = [(GPU, 2)], tb_ids = [2]\<rparr>)]\<rparr>"

definition demo_forked :: block_mgr where
  "demo_forked = demo_mgr\<lparr>bm_gpu := Uncached \<lparr>ua_total = 3, ua_heap = [demo_block 0, demo_block 0, demo_block 2], free_blocks = [0, 1]\<rparr>,
     bm_tables := [(1, \<lparr>tb_blocks = [(GPU, 2)], tb_ids = [2]\<rparr>), (2, \<lparr>tb_blocks = [(GPU, 2)], tb_ids = [2]\<rparr>)]\<rparr>"

lemmas demo_defs = demo_seq_def demo_group_def demo_block_def new_sequence_def new_seq_group_def from_seqs_def
  n_blocks_def seq_len_def sd_len_def update_cached_all_tokens_def sg_is_encoder_decoder_def

lemmas demo_runs = demo_defs bm_allocate_def check_no_caching_or_swa_def get_seqs_def first_seq_def num_seqs_def
  allocate_sequence_def allocate_block_at_def required_blocks_def py_nth_def ua_allocate_def ua_upd_def al_set_refs_def
  bt_append_def bt_empty_def Let_def upt_rec

lemma demo_init: "bm_init 16 3 2 0 None False = Inr demo_mgr"
  by (simp add: bm_init_def demo_mgr_def demo_block_def new_uncached_def new_block_def upt_rec numeral_2_eq_2)

lemma demo_mgr_reach: "bm_reach (\<lambda>_. 0) remdups demo_mgr"
  by (rule bm_reach.start [OF demo_init])

lemma demo_fresh: "group_fresh (\<lambda>_. 0) (demo_group [demo_seq 1 WAITING]) demo_mgr"
  by (simp add: group_fresh_def demo_defs demo_mgr_def sg_ok_def)

lemma demo_allocate: "bm_allocate (\<lambda>_. 0) (demo_group [demo_seq 1 WAITING]) demo_mgr = Inr demo_busy"
  by (simp add: demo_runs demo_mgr_def demo_busy_def del: bindr_Inr_iff)

lemma demo_busy_reach: "bm_reach (\<lambda>_. 0) remdups demo_busy"
  by (rule bm_reach.step [OF demo_mgr_reach bm_step.allocate [OF demo_fresh demo_allocate]])

lemma demo_fork: "bm_fork (demo_seq 1 RUNNING) (demo_seq 2 RUNNING) demo_busy = demo_forked"
  by (simp add: bm_fork_def demo_runs bt_copy_def bt_of_def bm_upd_def demo_mgr_def demo_busy_def demo_forked_def)

lemma demo_forked_reach: "bm_reach (\<lambda>_. 0) remdups demo_forked"
  by (rule bm_reach.step [OF demo_busy_reach bm_step.fork [of demo_busy "demo_seq 2 RUNNING" _ _ "demo_seq 1 RUNNING", unfolded demo_fork]])
    (simp add: demo_busy_def demo_defs)

lemma block_counts_conserved_witness:
  "bm_num_free_gpu demo_forked = bm_total_gpu demo_forked - int (card {b. 0 < uses demo_forked (GPU, b)})
     \<and> bm_refs demo_forked (GPU, 2) = uses demo_forked (GPU, 2)"
  using block_counts_conserved [OF demo_forked_reach set_order_remdups] by blast

lemma block_tables_well_formed_witness: "tables_ok demo_forked \<and> al_ok (bm_gpu demo_forked)"
  using block_tables_well_formed [OF demo_forked_reach set_order_remdups] by blast

lemma can_allocate_promise_witness: "\<exists>m'. bm_allocate (\<lambda>_. 0) (demo_group [demo_seq 1 WAITING]) demo_mgr = Inr m'"
proof -
  let ?g = "demo_group [demo_seq 1 WAITING]"
  have can: "bm_can_allocate demo_mgr ?g = Inr AllocOK"
    by (simp add: bm_can_allocate_def demo_runs demo_mgr_def ua_num_free_def del: bindr_Inr_iff)
  have h: "0 \<le> bm_watermark demo_mgr" "0 \<le> n_blocks (hd (seqs ?g))" "\<forall>e. encoder_seq ?g = Some e \<longrightarrow> 0 \<le> n_blocks e"
    by (simp_all add: demo_defs demo_mgr_def)
  from can_allocate_promise [OF demo_mgr_reach set_order_remdups demo_fresh h can] show ?thesis by blast
qed

lemma can_append_promise_witness:
  "\<exists>m'. foldM (\<lambda>m s. bindr (bm_append_slots (\<lambda>_. 0) s m) (\<lambda>(m', moves). Inr m')) demo_forked
     (filter (\<lambda>s. seq_status s = RUNNING) (seqs (demo_group [demo_seq 1 RUNNING, demo_seq 2 RUNNING]))) = Inr m'"
proof (rule can_append_promise [OF demo_forked_reach set_order_remdups])
  show "bm_can_append_slots (demo_group [demo_seq 1 RUNNING, demo_seq 2 RUNNING]) 0 demo_forked = Inr True"
    by (simp add: bm_can_append_slots_def demo_runs demo_forked_def ua_num_free_def del: bindr_Inr_iff)
qed (simp_all add: demo_defs sg_ok_def demo_forked_def demo_mgr_def append_ready_def bt_len_def)

lemma copy_on_write_witness:
  "\<exists>m'. bm_append_slots (\<lambda>_. 0) (demo_seq 2 RUNNING) demo_forked = Inr (m', [(2, 1)]) \<and> bm_refs m' (GPU, 1) = 1"
proof -
  have t: "map_of (bm_tables demo_forked) (seq_id (demo_seq 2 RUNNING)) = Some \<lparr>tb_blocks = [(GPU, 2)], tb_ids = [2]\<rparr>"
    by (simp add: demo_forked_def demo_defs)
  have f: "fresh_hash (\<lambda>_. 0) (demo_seq 2 RUNNING) \<lparr>tb_blocks = [(GPU, 2)], tb_ids = [2]\<rparr> demo_forked"
    by (simp add: fresh_hash_def demo_forked_def demo_mgr_def)
  have "\<exists>m'. bm_append_slots (\<lambda>_. 0) (demo_seq 2 RUNNING) demo_forked = Inr (m', [(2, 1)])"
    by (simp add: bm_append_slots_def append_to_last_def allocate_last_physical_block_def demo_runs demo_forked_def demo_mgr_def
        bm_block_def bt_len_def bt_get_def bt_set_last_def ua_free_def del: bindr_Inr_iff)
  then obtain m' where m': "bm_append_slots (\<lambda>_. 0) (demo_seq 2 RUNNING) demo_forked = Inr (m', [(2, 1)])" by blast
  from copy_on_write [OF demo_forked_reach set_order_remdups t f m'] m' show ?thesis by (auto simp: demo_forked_def demo_mgr_def)
qed

lemma swap_out_preserves_sharing_witness:
  "\<exists>m' pairs. bm_swap_out (demo_group [demo_seq 1 RUNNING, demo_seq 2 RUNNING]) demo_forked = Inr (m', pairs)"
proof -
  let ?g = "demo_group [demo_seq 1 RUNNING, demo_seq 2 RUNNING]"
  have "bm_can_swap_out ?g demo_forked = Inr True"
    by (simp add: bm_can_swap_out_def physical_blocks_def demo_runs demo_forked_def demo_mgr_def seq_is_finished_def ua_num_free_def
        del: bindr_Inr_iff)
  then show ?thesis
    using swap_out_preserves_sharing [OF demo_forked_reach set_order_remdups, of ?g]
    by (auto simp: demo_defs sg_ok_def demo_forked_def table_on_def)
qed

lemma cached_group_undercounts_witness:
  "\<exists>m m' r. bm_reach (\<lambda>_. 0) remdups m \<and> bm_allocate (\<lambda>_. 0) (demo_group [demo_seq 1 WAITING, demo_seq 2 WAITING]) m = Inr m'
     \<and> bm_refs m' r = uses m' r - 1"
proof -
  let ?g = "demo_group [demo_seq 1 WAITING, demo_seq 2 WAITING]"
  define m where "m = \<lparr>bm_block_size = 16, bm_total_gpu = 2, bm_sliding = None, bm_watermark = 0, bm_caching = True,
     bm_gpu = Cached (new_cached 2), bm_cpu = Cached (new_cached 2), bm_tables = [], bm_cross = []\<rparr>"
  have init: "bm_init 16 2 2 0 None True = Inr m" by (simp add: bm_init_def m_def)
  have reach: "bm_reach (\<lambda>_. 0) remdups m" by (rule bm_reach.start [OF init])
  obtain m' where m': "bm_allocate (\<lambda>_. 0) ?g m = Inr m'" and t: "table_of m' (demo_seq 1 WAITING) = [(GPU, 0)]"
    by (simp add: demo_runs m_def hash_of_block_def num_hashed_tokens_of_block_def ca_allocate_def ca_revive_def ca_lookup_def ca_take_def
        ca_allocate_block_def new_cached_def dhas_def new_block_def ca_upd_def dindex_def bt_copy_def bt_of_def table_of_def
        del: bindr_Inr_iff)
  have "bm_refs m' (GPU, 0) = uses m' (GPU, 0) - (int (length (seqs ?g)) - 1)"
  proof (rule cached_group_undercounts [OF reach set_order_remdups _ _ _ _ _ _ m'])
    show "(GPU, 0) \<in> set (table_of m' (hd (seqs ?g)))" using t by (simp add: demo_group_def new_seq_group_def)
    show "prompt_hashes_distinct (\<lambda>_. 0) (hd (seqs ?g))" by (simp add: prompt_hashes_distinct_def demo_defs)
  qed (simp_all add: m_def demo_defs sg_ok_def)
  moreover have "int (length (seqs ?g)) - 1 = 1" by (simp add: demo_group_def new_seq_group_def)
  ultimately have "bm_refs m' (GPU, 0) = uses m' (GPU, 0) - 1" by simp
  with reach m' show ?thesis by blast
qed

end
