(* ===== verification/Scheduling_Budget.thy ===== *)
theory Scheduling_Budget
  imports Prelude
begin

text \<open>
  \<open>SchedulingBudget\<close> of \<open>vllm-0.6.2/vllm/core/scheduler.py\<close>: the tokens and sequences one scheduling step
  may still take.  A request is counted once however often it is added, so the record keeps the ids it has
  counted; \<open>tok_ids\<close> and \<open>seq_ids\<close> are the two Python sets.
\<close>

record budget =
  token_budget :: int
  max_num_seqs :: int
  tok_ids :: "string set"
  seq_ids :: "string set"
  num_batched_tokens :: int
  num_curr_seqs :: int

definition new_budget :: "int \<Rightarrow> int \<Rightarrow> budget" where
  "new_budget tb ms = \<lparr>token_budget = tb, max_num_seqs = ms, tok_ids = {}, seq_ids = {}, num_batched_tokens = 0, num_curr_seqs = 0\<rparr>"

definition can_schedule :: "int \<Rightarrow> int \<Rightarrow> budget \<Rightarrow> bool result" where
  "can_schedule t s b =
     assert_py (t \<noteq> 0) (assert_py (s \<noteq> 0)
       (Inr (num_batched_tokens b + t \<le> token_budget b \<and> num_curr_seqs b + s \<le> max_num_seqs b)))"

definition remaining_token_budget :: "budget \<Rightarrow> int" where
  "remaining_token_budget b = token_budget b - num_batched_tokens b"

definition add_num_batched_tokens :: "string \<Rightarrow> int \<Rightarrow> budget \<Rightarrow> budget" where
  "add_num_batched_tokens i n b =
     (if i \<in> tok_ids b then b
      else b\<lparr>tok_ids := insert i (tok_ids b), num_batched_tokens := num_batched_tokens b + n\<rparr>)"

definition subtract_num_batched_tokens :: "string \<Rightarrow> int \<Rightarrow> budget \<Rightarrow> budget" where
  "subtract_num_batched_tokens i n b =
     (if i \<in> tok_ids b then b\<lparr>tok_ids := tok_ids b - {i}, num_batched_tokens := num_batched_tokens b - n\<rparr> else b)"

definition add_num_seqs :: "string \<Rightarrow> int \<Rightarrow> budget \<Rightarrow> budget" where
  "add_num_seqs i n b =
     (if i \<in> seq_ids b then b
      else b\<lparr>seq_ids := insert i (seq_ids b), num_curr_seqs := num_curr_seqs b + n\<rparr>)"

definition subtract_num_seqs :: "string \<Rightarrow> int \<Rightarrow> budget \<Rightarrow> budget" where
  "subtract_num_seqs i n b =
     (if i \<in> seq_ids b then b\<lparr>seq_ids := seq_ids b - {i}, num_curr_seqs := num_curr_seqs b - n\<rparr> else b)"

lemmas budget_defs = add_num_batched_tokens_def subtract_num_batched_tokens_def add_num_seqs_def subtract_num_seqs_def

lemma budget_limits [simp]:
  "token_budget (add_num_batched_tokens i n b) = token_budget b" "token_budget (subtract_num_batched_tokens i n b) = token_budget b"
  "token_budget (add_num_seqs i n b) = token_budget b" "token_budget (subtract_num_seqs i n b) = token_budget b"
  "max_num_seqs (add_num_batched_tokens i n b) = max_num_seqs b" "max_num_seqs (subtract_num_batched_tokens i n b) = max_num_seqs b"
  "max_num_seqs (add_num_seqs i n b) = max_num_seqs b" "max_num_seqs (subtract_num_seqs i n b) = max_num_seqs b"
  by (simp_all add: budget_defs)

lemma budget_seqs_tokens [simp]:
  "num_curr_seqs (add_num_batched_tokens i n b) = num_curr_seqs b" "num_curr_seqs (subtract_num_batched_tokens i n b) = num_curr_seqs b"
  "num_batched_tokens (add_num_seqs i n b) = num_batched_tokens b" "num_batched_tokens (subtract_num_seqs i n b) = num_batched_tokens b"
  "seq_ids (add_num_batched_tokens i n b) = seq_ids b" "seq_ids (subtract_num_batched_tokens i n b) = seq_ids b"
  "tok_ids (add_num_seqs i n b) = tok_ids b" "tok_ids (subtract_num_seqs i n b) = tok_ids b"
  by (simp_all add: budget_defs)

end
