(* ===== verification/Scheduler.thy ===== *)
theory Scheduler
  imports Block_Manager CPI_Queue Req_Queue Scheduling_Budget
begin

text \<open>
  vLLM's scheduler as FairCache changes it, \<open>Scheduler\<close> of \<open>vllm-0.6.2/vllm/core/scheduler.py\<close>: the waiting queue is a
  \<open>CPIReqQueue\<close> or a \<open>ReqQueue\<close>, a step starts at most one prefill, and a decoding step charges the clients.
  A sequence group is in one of the queues \<open>waiting\<close>, \<open>running\<close> and \<open>swapped\<close>; as no two queues share a group, a
  group is a value that moves between them.

  Parameters: \<open>hsh\<close> and \<open>so\<close> as in the block manager, \<open>clk i\<close> the time read in iteration \<open>i\<close> of the prefill loop, and \<open>cb\<close> what the asynchronous
  output processor does to a group about to be preempted.  Loops take fuel; \<open>Blocked\<close> marks its exhaustion, which the
  fuel the callers pass rules out.  The caches of Python objects, the test-only artificial preemption and logging are left out.
\<close>

section \<open>The waiting queue\<close>

text \<open>The third form is the plain \<open>deque\<close> that \<open>_schedule_priority_preemption\<close> stores.\<close>

datatype waiting = WCpi cpi_queue | WFifo req_queue | WPlain "seq_group list"

fun w_iter :: "waiting \<Rightarrow> seq_group list" where
  "w_iter (WCpi q) = cq_iter q"
| "w_iter (WFifo q) = waiting_queue_items q"
| "w_iter (WPlain gs) = gs"

fun w_bool :: "waiting \<Rightarrow> bool" where
  "w_bool (WCpi q) = cq_bool q"
| "w_bool (WFifo q) = rq_bool q"
| "w_bool (WPlain gs) = (gs \<noteq> [])"

fun w_len :: "waiting \<Rightarrow> int" where
  "w_len (WCpi q) = cq_len q"
| "w_len (WFifo q) = rq_len q"
| "w_len (WPlain gs) = int (length gs)"

fun w_first :: "waiting \<Rightarrow> seq_group result" where
  "w_first (WCpi q) = cq_getitem q 0"
| "w_first (WFifo q) = rq_getitem q 0"
| "w_first (WPlain gs) = py_nth gs 0"

fun w_popleft :: "waiting \<Rightarrow> (seq_group \<times> waiting) result" where
  "w_popleft (WCpi q) = bindr (cq_popleft q) (\<lambda>(g, q'). Inr (g, WCpi q'))"
| "w_popleft (WFifo q) = bindr (rq_popleft q) (\<lambda>(g, q'). Inr (g, WFifo q'))"
| "w_popleft (WPlain gs) = (case gs of [] \<Rightarrow> Inl IndexError | g # rest \<Rightarrow> Inr (g, WPlain rest))"

fun w_append :: "seq_group \<Rightarrow> waiting \<Rightarrow> waiting result" where
  "w_append g (WCpi q) = bindr (cq_append g q) (\<lambda>q'. Inr (WCpi q'))"
| "w_append g (WFifo q) = bindr (rq_append g q) (\<lambda>q'. Inr (WFifo q'))"
| "w_append g (WPlain gs) = Inr (WPlain (gs @ [g]))"

fun w_appendleft :: "seq_group \<Rightarrow> waiting \<Rightarrow> waiting result" where
  "w_appendleft g (WCpi q) = bindr (cq_appendleft g q) (\<lambda>q'. Inr (WCpi q'))"
| "w_appendleft g (WFifo q) = bindr (rq_appendleft g q) (\<lambda>q'. Inr (WFifo q'))"
| "w_appendleft g (WPlain gs) = Inr (WPlain (g # gs))"

fun w_extendleft :: "seq_group list \<Rightarrow> waiting \<Rightarrow> waiting result" where
  "w_extendleft gs (WCpi q) = bindr (cq_extendleft gs q) (\<lambda>q'. Inr (WCpi q'))"
| "w_extendleft gs (WFifo q) = bindr (rq_extendleft gs q) (\<lambda>q'. Inr (WFifo q'))"
| "w_extendleft gs (WPlain hs) = Inr (WPlain (rev gs @ hs))"

fun w_remove :: "seq_group \<Rightarrow> waiting \<Rightarrow> waiting result" where
  "w_remove g (WCpi q) = Inr (WCpi (cq_remove g q))"
| "w_remove g (WFifo q) = bindr (rq_remove g q) (\<lambda>q'. Inr (WFifo q'))"
| "w_remove g (WPlain gs) = (if g \<in> set gs then Inr (WPlain (remove1 g gs)) else Inl ValueError)"

text \<open>\<open>self.waiting.served[c] += self.waiting.decode_weight\<close>.\<close>

fun w_charge_decode :: "int \<Rightarrow> waiting \<Rightarrow> waiting result" where
  "w_charge_decode c (WCpi q) =
     bindr (dindex (served q) c) (\<lambda>s. Inr (WCpi (q\<lparr>served := AList.update c (s + decode_weight q) (served q)\<rparr>)))"
| "w_charge_decode c (WFifo q) =
     bindr (dindex (rq_served q) c) (\<lambda>s. Inr (WFifo (q\<lparr>rq_served := AList.update c (s + rq_decode_weight q) (rq_served q)\<rparr>)))"
| "w_charge_decode c (WPlain gs) = Inl AttributeError"

section \<open>State\<close>

datatype preemption_mode = SWAP | RECOMPUTE

text \<open>
  \<open>cfg_max_loras\<close> is \<open>None\<close> when LoRA is off; \<open>cfg_long_lora\<close> gives \<open>long_lora_max_len\<close> of an adapter.
\<close>

record sched_config =
  cfg_max_batched :: int
  cfg_max_num_seqs :: int
  cfg_max_model_len :: int
  cfg_lookahead :: int
  cfg_delay_factor :: real
  cfg_chunked :: bool
  cfg_priority :: bool
  cfg_preemption :: "string option"
  cfg_prefix_caching :: bool
  cfg_block_size :: int
  cfg_max_loras :: "int option"
  cfg_long_lora :: "int \<Rightarrow> int option"
  cfg_async :: bool
  cfg_send_delta :: bool

record scheduler =
  sc_cfg :: sched_config
  sc_bm :: block_mgr
  sc_waiting :: waiting
  sc_running :: "seq_group list"
  sc_swapped :: "seq_group list"
  sc_finished :: "string list"
  sc_prev_time :: real
  sc_prev_prompt :: bool
  sc_last_latency :: real
  sc_preemptions :: int
  sc_async_stopped :: "seq_group list"

record sched_outputs =
  so_groups :: "(seq_group \<times> int) list"
  so_prefills :: int
  so_tokens :: int
  so_swap_in :: "(nat \<times> nat) list"
  so_swap_out :: "(nat \<times> nat) list"
  so_copy :: "(nat \<times> nat) list"
  so_ignored :: "seq_group list"
  so_lookahead :: int
  so_running :: int
  so_preempted :: int

definition new_scheduler :: "sched_config \<Rightarrow> bool \<Rightarrow> cpi_queue \<Rightarrow> req_queue \<Rightarrow> block_mgr \<Rightarrow> scheduler" where
  "new_scheduler cfg fair cq rq bm =
     \<lparr>sc_cfg = cfg, sc_bm = bm, sc_waiting = (if fair then WCpi cq else WFifo rq), sc_running = [], sc_swapped = [], sc_finished = [],
      sc_prev_time = 0, sc_prev_prompt = False, sc_last_latency = 0, sc_preemptions = 0, sc_async_stopped = []\<rparr>"

definition add_seq_group :: "seq_group \<Rightarrow> scheduler \<Rightarrow> scheduler result" where
  "add_seq_group g sc = bindr (w_append g (sc_waiting sc)) (\<lambda>w. Inr (sc\<lparr>sc_waiting := w\<rparr>))"

definition has_unfinished_seqs :: "scheduler \<Rightarrow> bool" where
  "has_unfinished_seqs sc \<longleftrightarrow> w_len (sc_waiting sc) \<noteq> 0 \<or> sc_running sc \<noteq> [] \<or> sc_swapped sc \<noteq> []"

definition num_unfinished_groups :: "scheduler \<Rightarrow> int" where
  "num_unfinished_groups sc = w_len (sc_waiting sc) + int (length (sc_running sc)) + int (length (sc_swapped sc))"

definition reset_finished_ids :: "scheduler \<Rightarrow> string list \<times> scheduler" where
  "reset_finished_ids sc = (sc_finished sc, sc\<lparr>sc_finished := []\<rparr>)"

section \<open>Helpers\<close>

definition num_lookahead :: "bool \<Rightarrow> sched_config \<Rightarrow> int" where
  "num_lookahead is_prefill cfg = (if is_prefill then 0 else cfg_lookahead cfg)"

definition num_new_tokens :: "sched_config \<Rightarrow> seq_group \<Rightarrow> seq_status \<Rightarrow> bool \<Rightarrow> budget \<Rightarrow> int result" where
  "num_new_tokens cfg g st chunk b =
     bindr (get_seqs (Some st) g) (\<lambda>ss.
       let n = sum_list (map seq_num_new_tokens ss) in
       assert_py (n > 0)
         (if chunk \<and> length ss = 1 then
            (let left = remaining_token_budget b in
             if cfg_prefix_caching cfg then
               (let bs = cfg_block_size cfg in
                if bs = 0 then Inl ZeroDivisionError
                else if token_budget b mod bs \<noteq> 0 then Inl ValueError
                else Inr (if left < n then (left div bs) * bs else n))
             else Inr (min n left))
          else Inr n))"

definition prompt_limit :: "sched_config \<Rightarrow> seq_group \<Rightarrow> int result" where
  "prompt_limit cfg g =
     (let lim = (if cfg_chunked cfg then cfg_max_model_len cfg else min (cfg_max_model_len cfg) (cfg_max_batched cfg));
          long = (case group_lora g of None \<Rightarrow> None | Some i \<Rightarrow> cfg_long_lora cfg i) in
      case long of
        None \<Rightarrow> Inr lim
      | Some l \<Rightarrow> if l = 0 then Inr lim else assert_py (lim \<le> l) (Inr l))"

definition priority_key :: "seq_group \<Rightarrow> int \<times> real" where
  "priority_key g = (priority g, arrival_time (metrics g))"

text \<open>\<open>for seq in seq_group.get_seqs(status=st): seq.status = st'\<close>.\<close>

definition set_status :: "seq_status \<Rightarrow> seq_status \<Rightarrow> seq_group \<Rightarrow> seq_group" where
  "set_status st st' g = g\<lparr>seqs := map (\<lambda>s. if seq_status s = st then s\<lparr>seq_status := st'\<rparr> else s) (seqs g)\<rparr>"

definition passed_delay :: "real \<Rightarrow> scheduler \<Rightarrow> (bool \<times> scheduler) result" where
  "passed_delay now sc =
     (let lat = (if sc_prev_prompt sc then now - sc_prev_time sc else sc_last_latency sc);
          sc1 = sc\<lparr>sc_last_latency := lat, sc_prev_time := now, sc_prev_prompt := False\<rparr> in
      if cfg_delay_factor (sc_cfg sc1) > 0 \<and> w_bool (sc_waiting sc1) then
        (case pick (<) (\<lambda>x. x) (map (\<lambda>g. arrival_time (metrics g)) (w_iter (sc_waiting sc1))) of
           None \<Rightarrow> Inl ValueError
         | Some earliest \<Rightarrow> Inr (now - earliest > cfg_delay_factor (sc_cfg sc1) * lat \<or> sc_running sc1 = [], sc1))
      else Inr (True, sc1))"

definition free_seq :: "(bref list \<Rightarrow> bref list) \<Rightarrow> sequence \<Rightarrow> scheduler \<Rightarrow> scheduler result" where
  "free_seq so s sc = bindr (bm_free so s (sc_bm sc)) (\<lambda>bm. Inr (sc\<lparr>sc_bm := bm\<rparr>))"

definition free_cross_attn :: "(bref list \<Rightarrow> bref list) \<Rightarrow> seq_group \<Rightarrow> scheduler \<Rightarrow> scheduler result" where
  "free_cross_attn so g sc =
     (if sg_is_encoder_decoder g then bindr (bm_free_cross so g (sc_bm sc)) (\<lambda>bm. Inr (sc\<lparr>sc_bm := bm\<rparr>)) else Inr sc)"

definition free_finished_seqs :: "(bref list \<Rightarrow> bref list) \<Rightarrow> seq_group \<Rightarrow> scheduler \<Rightarrow> scheduler result" where
  "free_finished_seqs so g sc = foldM (\<lambda>sc s. if seq_is_finished s then free_seq so s sc else Inr sc) sc (seqs g)"

definition free_finished_seq_group :: "(bref list \<Rightarrow> bref list) \<Rightarrow> seq_group \<Rightarrow> scheduler \<Rightarrow> scheduler result" where
  "free_finished_seq_group so g sc =
     bindr (sg_is_finished g) (\<lambda>fin.
     bindr (if fin then bindr (free_cross_attn so g sc) (\<lambda>sc1. Inr (sc1\<lparr>sc_finished := sc_finished sc1 @ [request_id g]\<rparr>))
            else Inr sc) (free_finished_seqs so g))"

definition free_finished_seq_groups :: "(bref list \<Rightarrow> bref list) \<Rightarrow> scheduler \<Rightarrow> scheduler result" where
  "free_finished_seq_groups so sc =
     bindr (foldM (\<lambda>(sc, left) g.
        bindr (free_finished_seq_group so g sc) (\<lambda>sc1.
        bindr (sg_is_finished g) (\<lambda>fin. Inr (sc1, if fin then left else left @ [g])))) (sc, []) (sc_running sc)) (\<lambda>(sc1, left).
     bindr (foldM (\<lambda>sc g.
        bindr (free_cross_attn so g sc) (\<lambda>sc1.
          free_finished_seqs so g (sc1\<lparr>sc_finished := sc_finished sc1 @ [request_id g]\<rparr>)))
        (sc1\<lparr>sc_running := left\<rparr>) (sc_async_stopped sc1)) (\<lambda>sc2.
       Inr (sc2\<lparr>sc_async_stopped := []\<rparr>)))"

section \<open>Appending, preempting, swapping\<close>

definition can_append_slots :: "seq_group \<Rightarrow> scheduler \<Rightarrow> bool result" where
  "can_append_slots g sc = bm_can_append_slots g (num_lookahead False (sc_cfg sc)) (sc_bm sc)"

definition append_slots ::
  "(((int list \<times> int list option) \<times> int) \<Rightarrow> int) \<Rightarrow> seq_group \<Rightarrow> scheduler \<Rightarrow> (seq_group \<times> scheduler \<times> (nat \<times> nat) list) result" where
  "append_slots hsh g sc =
     (let g1 = init_multi_step (num_lookahead False (sc_cfg sc) + 1) g in
      bindr (get_seqs (Some RUNNING) g1) (\<lambda>ss.
      bindr (foldM (\<lambda>(bm, copies) s. bindr (bm_append_slots hsh s bm) (\<lambda>(bm', cows). Inr (bm', copies @ cows))) (sc_bm sc, []) ss)
        (\<lambda>(bm, copies). Inr (g1, sc\<lparr>sc_bm := bm\<rparr>, copies))))"

definition allocate_and_set_running ::
  "(((int list \<times> int list option) \<times> int) \<Rightarrow> int) \<Rightarrow> seq_group \<Rightarrow> scheduler \<Rightarrow> (seq_group \<times> scheduler) result" where
  "allocate_and_set_running hsh g sc =
     bindr (bm_allocate hsh g (sc_bm sc)) (\<lambda>bm.
     bindr (get_seqs (Some WAITING) g) (\<lambda>_. Inr (set_status WAITING RUNNING g, sc\<lparr>sc_bm := bm\<rparr>)))"

definition preempt_by_recompute :: "(bref list \<Rightarrow> bref list) \<Rightarrow> seq_group \<Rightarrow> scheduler \<Rightarrow> (seq_group \<times> scheduler) result" where
  "preempt_by_recompute so g sc =
     bindr (get_seqs (Some RUNNING) g) (\<lambda>ss.
     assert_py (length ss = 1)
       (bindr (foldM (\<lambda>sc s. free_seq so s sc) sc ss) (\<lambda>sc1.
          Inr (g\<lparr>seqs := map (\<lambda>s. if seq_status s = RUNNING then seq_reset_for_recompute (s\<lparr>seq_status := WAITING\<rparr>) else s) (seqs g)\<rparr>,
               sc1))))"

definition sched_swap_in :: "seq_group \<Rightarrow> scheduler \<Rightarrow> (seq_group \<times> scheduler \<times> (nat \<times> nat) list) result" where
  "sched_swap_in g sc =
     bindr (bm_swap_in g (sc_bm sc)) (\<lambda>(bm, moves).
     bindr (get_seqs (Some SWAPPED) g) (\<lambda>_. Inr (set_status SWAPPED RUNNING g, sc\<lparr>sc_bm := bm\<rparr>, moves)))"

definition sched_swap_out :: "seq_group \<Rightarrow> scheduler \<Rightarrow> (seq_group \<times> scheduler \<times> (nat \<times> nat) list) result" where
  "sched_swap_out g sc =
     bindr (bm_can_swap_out g (sc_bm sc)) (\<lambda>can.
       if \<not> can then Inl RuntimeError
       else bindr (bm_swap_out g (sc_bm sc)) (\<lambda>(bm, moves).
            bindr (get_seqs (Some RUNNING) g) (\<lambda>_. Inr (set_status RUNNING SWAPPED g, sc\<lparr>sc_bm := bm\<rparr>, moves))))"

text \<open>The mode passed to \<open>_preempt\<close> is overwritten on every path, so it is no argument here.\<close>

definition preempt_mode :: "sched_config \<Rightarrow> seq_group \<Rightarrow> preemption_mode result" where
  "preempt_mode cfg g =
     (case cfg_preemption cfg of
        None \<Rightarrow> bindr (get_max_num_running_seqs g) (\<lambda>k. Inr (if k = 1 then RECOMPUTE else SWAP))
      | Some m \<Rightarrow> Inr (if m = ''swap'' then SWAP else RECOMPUTE))"

definition preempt ::
  "(bref list \<Rightarrow> bref list) \<Rightarrow> seq_group \<Rightarrow> scheduler \<Rightarrow> (preemption_mode \<times> seq_group \<times> scheduler \<times> (nat \<times> nat) list) result" where
  "preempt so g sc =
     bindr (preempt_mode (sc_cfg sc) g) (\<lambda>mode.
       let sc1 = sc\<lparr>sc_preemptions := sc_preemptions sc + 1\<rparr> in
       case mode of
         RECOMPUTE \<Rightarrow> bindr (preempt_by_recompute so g sc1) (\<lambda>(g', sc2). Inr (mode, g', sc2, []))
       | SWAP \<Rightarrow> bindr (sched_swap_out g sc1) (\<lambda>(g', sc2, moves). Inr (mode, g', sc2, moves)))"

section \<open>Scheduling the running queue\<close>

record run_state =
  rs_sc :: scheduler
  rs_budget :: budget
  rs_loras :: "int set option"
  rs_decodes :: "(seq_group \<times> int) list"
  rs_prefills :: "(seq_group \<times> int) list"
  rs_preempted :: "seq_group list"
  rs_swapped_out :: "seq_group list"
  rs_swaps :: "(nat \<times> nat) list"
  rs_copies :: "(nat \<times> nat) list"

definition lora_discard :: "seq_group \<Rightarrow> int set option \<Rightarrow> int set option" where
  "lora_discard g ls =
     (case ls of None \<Rightarrow> None
      | Some l \<Rightarrow> if group_lora_int_id g > 0 \<and> group_lora_int_id g \<in> l then Some (l - {group_lora_int_id g}) else Some l)"

definition lora_add :: "seq_group \<Rightarrow> int set option \<Rightarrow> int set option" where
  "lora_add g ls = (case ls of None \<Rightarrow> None | Some l \<Rightarrow> if group_lora_int_id g > 0 then Some (insert (group_lora_int_id g) l) else Some l)"

text \<open>Preempting one victim: the group \<open>v\<close> has just been taken out of the running queue.\<close>

definition preempt_victim ::
  "(bref list \<Rightarrow> bref list) \<Rightarrow> (seq_group \<Rightarrow> seq_group) \<Rightarrow> seq_group \<Rightarrow> run_state \<Rightarrow> run_state result" where
  "preempt_victim so cb v0 rs =
     (let sc = rs_sc rs; v = (if cfg_async (sc_cfg sc) then cb v0 else v0) in
      bindr (if cfg_async (sc_cfg sc) then sg_is_finished v else Inr False) (\<lambda>fin.
        if fin then bindr (free_finished_seq_group so v sc) (\<lambda>sc1. Inr (rs\<lparr>rs_sc := sc1\<rparr>))
        else bindr (preempt so v sc) (\<lambda>(mode, v', sc1, moves).
          let rs1 = rs\<lparr>rs_sc := sc1, rs_swaps := rs_swaps rs @ moves\<rparr> in
          Inr (case mode of
                 RECOMPUTE \<Rightarrow> rs1\<lparr>rs_preempted := rs_preempted rs1 @ [v']\<rparr>
               | SWAP \<Rightarrow> rs1\<lparr>rs_swapped_out := rs_swapped_out rs1 @ [v']\<rparr>))))"

text \<open>
  The inner loop: preempt the last running group until a slot can be appended to \<open>g\<close>, or \<open>g\<close> itself when no other
  is left, in which case the result is \<open>False\<close>.  Each round but the last shortens the running queue.
\<close>

fun make_room ::
  "(bref list \<Rightarrow> bref list) \<Rightarrow> (seq_group \<Rightarrow> seq_group) \<Rightarrow> seq_group \<Rightarrow> int \<Rightarrow> nat \<Rightarrow> run_state \<Rightarrow> (bool \<times> run_state) result" where
  "make_room so cb g n 0 rs = Inl Blocked"
| "make_room so cb g n (Suc fuel) rs =
     bindr (can_append_slots g (rs_sc rs)) (\<lambda>can.
       if can then Inr (True, rs)
       else
         bindr (get_max_num_running_seqs g) (\<lambda>k.
           let rs1 = rs\<lparr>rs_budget := subtract_num_seqs (request_id g) k (subtract_num_batched_tokens (request_id g) n (rs_budget rs)),
                        rs_loras := lora_discard g (rs_loras rs)\<rparr>;
               sc = rs_sc rs1 in
           if sc_running sc = [] then bindr (preempt_victim so cb g rs1) (\<lambda>rs2. Inr (False, rs2))
           else bindr (preempt_victim so cb (last (sc_running sc)) (rs1\<lparr>rs_sc := sc\<lparr>sc_running := butlast (sc_running sc)\<rparr>\<rparr>))
                  (make_room so cb g n fuel)))"

text \<open>A group that got its slots is scheduled, as prefill or as decode.\<close>

definition run_group ::
  "(((int list \<times> int list option) \<times> int) \<Rightarrow> int) \<Rightarrow> bool \<Rightarrow> seq_group \<Rightarrow> int \<Rightarrow> run_state \<Rightarrow> run_state result" where
  "run_group hsh chunk g n rs =
     bindr (append_slots hsh g (rs_sc rs)) (\<lambda>(g1, sc1, copies).
     bindr (sg_is_prefill g1) (\<lambda>pre.
     bindr (if chunk then get_max_num_running_seqs g1 else Inr 0) (\<lambda>k.
       let b1 = add_num_batched_tokens (request_id g1) n (rs_budget rs);
           rs1 = rs\<lparr>rs_sc := sc1, rs_copies := rs_copies rs @ copies,
                    rs_budget := (if chunk then add_num_seqs (request_id g1) k b1 else b1),
                    rs_loras := lora_add g1 (rs_loras rs)\<rparr> in
       Inr (if pre then rs1\<lparr>rs_prefills := rs_prefills rs1 @ [(g1, n)]\<rparr>
            else rs1\<lparr>rs_decodes := rs_decodes rs1 @ [(g1, 1)]\<rparr>))))"

fun running_loop ::
  "(((int list \<times> int list option) \<times> int) \<Rightarrow> int) \<Rightarrow> (bref list \<Rightarrow> bref list) \<Rightarrow> (seq_group \<Rightarrow> seq_group) \<Rightarrow> bool \<Rightarrow> nat \<Rightarrow> run_state
     \<Rightarrow> run_state result" where
  "running_loop hsh so cb chunk 0 rs = Inl Blocked"
| "running_loop hsh so cb chunk (Suc fuel) rs =
     (case sc_running (rs_sc rs) of
        [] \<Rightarrow> Inr rs
      | g # rest \<Rightarrow>
          bindr (num_new_tokens (sc_cfg (rs_sc rs)) g RUNNING chunk (rs_budget rs)) (\<lambda>n.
            if n = 0 then Inr rs
            else
              (let rs1 = rs\<lparr>rs_sc := (rs_sc rs)\<lparr>sc_running := rest\<rparr>\<rparr> in
               bindr (if cfg_async (sc_cfg (rs_sc rs1)) then bindr (first_seq g) (\<lambda>s. Inr (seq_len s > cfg_max_model_len (sc_cfg (rs_sc rs1))))
                      else Inr False) (\<lambda>stopped.
               if stopped then
                 running_loop hsh so cb chunk fuel (rs1\<lparr>rs_sc := (rs_sc rs1)\<lparr>sc_async_stopped := sc_async_stopped (rs_sc rs1) @ [g]\<rparr>\<rparr>)
               else
                 bindr (make_room so cb g n (Suc (length rest)) rs1) (\<lambda>(room, rs2).
                 bindr (if room then run_group hsh chunk g n rs2 else Inr rs2)
                   (running_loop hsh so cb chunk fuel))))))"

text \<open>\<open>seq_group.sampling_params.preempted = True\<close>: a preempted request is not charged again.\<close>

definition mark_preempted :: "seq_group \<Rightarrow> seq_group result" where
  "mark_preempted g =
     (case sampling g of None \<Rightarrow> Inl AttributeError | Some sp \<Rightarrow> Inr (g\<lparr>sampling := Some (sp\<lparr>sp_preempted := True\<rparr>)\<rparr>))"

definition schedule_running ::
  "(((int list \<times> int list option) \<times> int) \<Rightarrow> int) \<Rightarrow> (bref list \<Rightarrow> bref list) \<Rightarrow> (seq_group \<Rightarrow> seq_group) \<Rightarrow> bool
     \<Rightarrow> scheduler \<Rightarrow> budget \<Rightarrow> int set option \<Rightarrow> run_state result" where
  "schedule_running hsh so cb chunk sc b loras =
     assert_py (sc_async_stopped sc = [])
       (bindr (running_loop hsh so cb chunk (Suc (length (sc_running sc)))
          \<lparr>rs_sc = sc, rs_budget = b, rs_loras = loras, rs_decodes = [], rs_prefills = [], rs_preempted = [], rs_swapped_out = [],
           rs_swaps = [], rs_copies = []\<rparr>) (\<lambda>rs.
        bindr (mapM mark_preempted (rs_preempted rs)) (\<lambda>ps. Inr (rs\<lparr>rs_preempted := ps\<rparr>))))"

section \<open>Scheduling the swapped queue\<close>

record swap_state =
  ss_sc :: scheduler
  ss_budget :: budget
  ss_loras :: "int set option"
  ss_decodes :: "(seq_group \<times> int) list"
  ss_prefills :: "(seq_group \<times> int) list"
  ss_swaps :: "(nat \<times> nat) list"
  ss_copies :: "(nat \<times> nat) list"
  ss_infeasible :: "seq_group list"
  ss_leftover :: "seq_group list"

text \<open>Whether the adapter of a group finds no place in the batch; it is an assertion error to ask when no set is kept.\<close>

definition lora_full :: "sched_config \<Rightarrow> seq_group \<Rightarrow> int set option \<Rightarrow> bool result" where
  "lora_full cfg g loras =
     (case cfg_max_loras cfg of
        None \<Rightarrow> Inr False
      | Some k \<Rightarrow>
          (case loras of
             None \<Rightarrow> Inl AssertionError
           | Some l \<Rightarrow> Inr (group_lora_int_id g > 0 \<and> group_lora_int_id g \<notin> l \<and> int (card l) \<ge> k)))"

definition lora_join :: "sched_config \<Rightarrow> seq_group \<Rightarrow> int set option \<Rightarrow> int set option" where
  "lora_join cfg g loras = (if cfg_max_loras cfg = None then loras else lora_add g loras)"

definition all_ignored :: "seq_group \<Rightarrow> seq_group" where
  "all_ignored g = g\<lparr>seqs := map (\<lambda>s. s\<lparr>seq_status := FINISHED_IGNORED\<rparr>) (seqs g)\<rparr>"

text \<open>A group that fits is swapped in and gets its slots.\<close>

definition swap_in_group ::
  "(((int list \<times> int list option) \<times> int) \<Rightarrow> int) \<Rightarrow> seq_group \<Rightarrow> int \<Rightarrow> int \<Rightarrow> swap_state \<Rightarrow> swap_state result" where
  "swap_in_group hsh g n k st =
     bindr (sched_swap_in g (ss_sc st)) (\<lambda>(g1, sc1, moves).
     bindr (append_slots hsh g1 sc1) (\<lambda>(g2, sc2, copies).
     bindr (sg_is_prefill g2) (\<lambda>pre.
       let st1 = st\<lparr>ss_sc := sc2, ss_loras := lora_join (sc_cfg (ss_sc st)) g (ss_loras st), ss_swaps := ss_swaps st @ moves,
                    ss_copies := ss_copies st @ copies,
                    ss_budget := add_num_seqs (request_id g2) k (add_num_batched_tokens (request_id g2) n (ss_budget st))\<rparr> in
       Inr (if pre then st1\<lparr>ss_prefills := ss_prefills st1 @ [(g2, n)]\<rparr> else st1\<lparr>ss_decodes := ss_decodes st1 @ [(g2, 1)]\<rparr>))))"

fun swapped_loop ::
  "(((int list \<times> int list option) \<times> int) \<Rightarrow> int) \<Rightarrow> bool \<Rightarrow> nat \<Rightarrow> swap_state \<Rightarrow> swap_state result" where
  "swapped_loop hsh chunk 0 st = Inl Blocked"
| "swapped_loop hsh chunk (Suc fuel) st =
     (case sc_swapped (ss_sc st) of
        [] \<Rightarrow> Inr st
      | g # rest \<Rightarrow>
          let sc = ss_sc st; cfg = sc_cfg sc; st1 = st\<lparr>ss_sc := sc\<lparr>sc_swapped := rest\<rparr>\<rparr> in
          bindr (sg_is_prefill g) (\<lambda>pre.
          bindr (bm_can_swap_in g (num_lookahead pre cfg) (sc_bm sc)) (\<lambda>a.
            if a = AllocLATER then Inr st
            else if a = AllocNEVER then
              swapped_loop hsh chunk fuel (st1\<lparr>ss_infeasible := ss_infeasible st1 @ [all_ignored g]\<rparr>)
            else
              bindr (lora_full cfg g (ss_loras st)) (\<lambda>full.
                if full then swapped_loop hsh chunk fuel (st1\<lparr>ss_leftover := g # ss_leftover st1\<rparr>)
                else
                  bindr (get_max_num_running_seqs g) (\<lambda>k.
                  bindr (num_new_tokens cfg g SWAPPED chunk (ss_budget st)) (\<lambda>n.
                  bindr (if n = 0 then Inr False else can_schedule n k (ss_budget st)) (\<lambda>fits.
                    if \<not> fits then Inr st
                    else bindr (swap_in_group hsh g n k st1) (swapped_loop hsh chunk fuel))))))))"

definition schedule_swapped ::
  "(((int list \<times> int list option) \<times> int) \<Rightarrow> int) \<Rightarrow> bool \<Rightarrow> scheduler \<Rightarrow> budget \<Rightarrow> int set option \<Rightarrow> swap_state result" where
  "schedule_swapped hsh chunk sc b loras =
     bindr (swapped_loop hsh chunk (Suc (length (sc_swapped sc)))
       \<lparr>ss_sc = sc, ss_budget = b, ss_loras = loras, ss_decodes = [], ss_prefills = [], ss_swaps = [], ss_copies = [],
        ss_infeasible = [], ss_leftover = []\<rparr>) (\<lambda>st.
       Inr (st\<lparr>ss_sc := (ss_sc st)\<lparr>sc_swapped := rev (ss_leftover st) @ sc_swapped (ss_sc st)\<rparr>\<rparr>))"

section \<open>Scheduling prefills\<close>

record prefill_state =
  ps_sc :: scheduler
  ps_budget :: budget
  ps_loras :: "int set option"
  ps_groups :: "(seq_group \<times> int) list"
  ps_ignored :: "seq_group list"
  ps_leftover :: "seq_group list"

text \<open>Taking the first group out of the waiting queue.\<close>

definition drop_first :: "prefill_state \<Rightarrow> prefill_state result" where
  "drop_first st =
     bindr (w_popleft (sc_waiting (ps_sc st))) (\<lambda>(_, w). Inr (st\<lparr>ps_sc := (ps_sc st)\<lparr>sc_waiting := w\<rparr>\<rparr>))"

definition ignore_group :: "seq_group \<Rightarrow> prefill_state \<Rightarrow> prefill_state result" where
  "ignore_group g st = drop_first (st\<lparr>ps_ignored := ps_ignored st @ [set_status WAITING FINISHED_IGNORED g]\<rparr>)"

definition start_prefill ::
  "(((int list \<times> int list option) \<times> int) \<Rightarrow> int) \<Rightarrow> seq_group \<Rightarrow> int \<Rightarrow> int \<Rightarrow> prefill_state \<Rightarrow> prefill_state result" where
  "start_prefill hsh g n k st =
     bindr (drop_first (st\<lparr>ps_loras := lora_join (sc_cfg (ps_sc st)) g (ps_loras st)\<rparr>)) (\<lambda>st1.
     bindr (allocate_and_set_running hsh g (ps_sc st1)) (\<lambda>(g1, sc1).
       let g2 = init_multi_step (num_lookahead True (sc_cfg sc1) + 1) g1 in
       Inr (st1\<lparr>ps_sc := sc1, ps_groups := ps_groups st1 @ [(g2, n)],
                ps_budget := add_num_seqs (request_id g2) k (add_num_batched_tokens (request_id g2) n (ps_budget st1))\<rparr>)))"

text \<open>One round of the loop for the group \<open>g\<close> at the head; the result says whether to go on.\<close>

definition prefill_round ::
  "(((int list \<times> int list option) \<times> int) \<Rightarrow> int) \<Rightarrow> bool \<Rightarrow> seq_group \<Rightarrow> prefill_state \<Rightarrow> (bool \<times> prefill_state) result" where
  "prefill_round hsh chunk g st =
     (let sc = ps_sc st; cfg = sc_cfg sc in
      bindr (get_seqs (Some WAITING) g) (\<lambda>ws.
      assert_py (length ws = 1)
        (bindr (num_new_tokens cfg g WAITING chunk (ps_budget st)) (\<lambda>n.
         assert_py (chunk \<or> n = seq_len (hd ws))
           (bindr (prompt_limit cfg g) (\<lambda>lim.
            if n > lim then bindr (ignore_group g st) (\<lambda>st1. Inr (True, st1))
            else
              bindr (bm_can_allocate (sc_bm sc) g) (\<lambda>a.
                if a = AllocLATER then Inr (False, st)
                else if a = AllocNEVER then bindr (ignore_group g st) (\<lambda>st1. Inr (True, st1))
                else
                  bindr (lora_full cfg g (ps_loras st)) (\<lambda>full.
                    if full then bindr (drop_first (st\<lparr>ps_leftover := g # ps_leftover st\<rparr>)) (\<lambda>st1. Inr (True, st1))
                    else
                      bindr (get_max_num_running_seqs g) (\<lambda>k.
                      bindr (if n = 0 then Inr False else can_schedule n k (ps_budget st)) (\<lambda>fits.
                        if \<not> fits \<or> ps_groups st \<noteq> [] then Inr (False, st)
                        else bindr (start_prefill hsh g n k st) (\<lambda>st1. Inr (True, st1))))))))))))"

fun prefill_loop ::
  "(((int list \<times> int list option) \<times> int) \<Rightarrow> int) \<Rightarrow> bool \<Rightarrow> (nat \<Rightarrow> real) \<Rightarrow> nat \<Rightarrow> nat \<Rightarrow> prefill_state \<Rightarrow> prefill_state result" where
  "prefill_loop hsh chunk clk i 0 st = Inl Blocked"
| "prefill_loop hsh chunk clk i (Suc fuel) st =
     bindr (passed_delay (clk i) (ps_sc st)) (\<lambda>(passed, sc1).
       let st1 = st\<lparr>ps_sc := sc1\<rparr> in
       if \<not> passed \<or> \<not> w_bool (sc_waiting sc1) then Inr st1
       else
         bindr (w_first (sc_waiting sc1)) (\<lambda>g.
         bindr (prefill_round hsh chunk g st1) (\<lambda>(more, st2).
           if more then prefill_loop hsh chunk clk (Suc i) fuel st2 else Inr st2)))"

definition schedule_prefills ::
  "(((int list \<times> int list option) \<times> int) \<Rightarrow> int) \<Rightarrow> bool \<Rightarrow> (nat \<Rightarrow> real) \<Rightarrow> scheduler \<Rightarrow> budget \<Rightarrow> int set option \<Rightarrow> prefill_state result" where
  "schedule_prefills hsh chunk clk sc b loras =
     bindr (prefill_loop hsh chunk clk 0 (Suc (length (w_iter (sc_waiting sc))))
       \<lparr>ps_sc = sc, ps_budget = b, ps_loras = loras, ps_groups = [], ps_ignored = [], ps_leftover = []\<rparr>) (\<lambda>st.
     bindr (w_extendleft (ps_leftover st) (sc_waiting (ps_sc st))) (\<lambda>w.
       let sc1 = (ps_sc st)\<lparr>sc_waiting := w\<rparr> in
       Inr (st\<lparr>ps_sc := (if ps_groups st \<noteq> [] then sc1\<lparr>sc_prev_prompt := True\<rparr> else sc1)\<rparr>)))"

section \<open>Priority preemption\<close>

definition key_less :: "int \<times> real \<Rightarrow> int \<times> real \<Rightarrow> bool" where
  "key_less k1 k2 \<longleftrightarrow> fst k1 < fst k2 \<or> fst k1 = fst k2 \<and> snd k1 < snd k2"

text \<open>\<open>sorted(..., key=_get_priority)\<close>, which is stable.\<close>

fun insert_by_priority :: "seq_group \<Rightarrow> seq_group list \<Rightarrow> seq_group list" where
  "insert_by_priority g [] = [g]"
| "insert_by_priority g (h # hs) =
     (if key_less (priority_key h) (priority_key g) then h # insert_by_priority g hs else g # h # hs)"

definition sort_by_priority :: "seq_group list \<Rightarrow> seq_group list" where
  "sort_by_priority gs = foldr insert_by_priority gs []"

fun priority_loop ::
  "(bref list \<Rightarrow> bref list) \<Rightarrow> seq_group \<Rightarrow> int \<Rightarrow> int \<Rightarrow> nat \<Rightarrow> seq_group list \<times> scheduler \<times> budget \<times> int
     \<Rightarrow> (seq_group list \<times> scheduler \<times> budget \<times> int) result" where
  "priority_loop so g n k 0 st = Inl Blocked"
| "priority_loop so g n k (Suc fuel) (running, sc, b, cnt) =
     (if running = [] \<or> \<not> key_less (priority_key g) (priority_key (last running)) then Inr (running, sc, b, cnt)
      else
        bindr (bm_can_allocate (sc_bm sc) g) (\<lambda>a.
        bindr (if n \<noteq> 0 \<and> a = AllocOK then can_schedule n k b else Inr False) (\<lambda>fits.
          if fits then Inr (running, sc, b, cnt)
          else
            (let v = last running in
             bindr (num_new_tokens (sc_cfg sc) v RUNNING False b) (\<lambda>vn.
             bindr (get_max_num_running_seqs v) (\<lambda>vk.
             bindr (preempt so v sc) (\<lambda>(mode, v', sc1, moves).
             bindr (w_appendleft v' (sc_waiting sc1)) (\<lambda>w.
               priority_loop so g n k fuel
                 (butlast running, sc1\<lparr>sc_waiting := w\<rparr>,
                  subtract_num_seqs (request_id v) vk (subtract_num_batched_tokens (request_id v) vn b), cnt + 1)))))))))"

definition schedule_priority_preemption :: "(bref list \<Rightarrow> bref list) \<Rightarrow> scheduler \<Rightarrow> budget \<Rightarrow> (scheduler \<times> budget \<times> int) result" where
  "schedule_priority_preemption so sc b =
     (let running = sort_by_priority (sc_running sc) in
      bindr (if w_bool (sc_waiting sc) then
          bindr (w_popleft (sc_waiting sc)) (\<lambda>(g, w).
          bindr (get_max_num_running_seqs g) (\<lambda>k.
          bindr (num_new_tokens (sc_cfg sc) g WAITING False b) (\<lambda>n.
          bindr (priority_loop so g n k (Suc (length running)) (running, sc\<lparr>sc_waiting := w\<rparr>, b, 0)) (\<lambda>(running1, sc1, b1, cnt).
          bindr (w_appendleft g (sc_waiting sc1)) (\<lambda>w1. Inr (running1, sc1\<lparr>sc_waiting := w1\<rparr>, b1, cnt))))))
        else Inr (running, sc, b, 0)) (\<lambda>(running1, sc1, b1, cnt).
        Inr (sc1\<lparr>sc_waiting := WPlain (sort_by_priority (w_iter (sc_waiting sc1))), sc_running := running1\<rparr>, b1, cnt)))"

section \<open>One scheduling step\<close>

fun str_less :: "char list \<Rightarrow> char list \<Rightarrow> bool" where
  "str_less xs [] = False"
| "str_less [] (y # ys) = True"
| "str_less (x # xs) (y # ys) = (of_char x < (of_char y :: nat) \<or> x = y \<and> str_less xs ys)"

fun insert_by_lora :: "seq_group \<times> int \<Rightarrow> (seq_group \<times> int) list \<Rightarrow> (seq_group \<times> int) list" where
  "insert_by_lora p [] = [p]"
| "insert_by_lora p (q # qs) =
     (if group_lora_int_id (fst q) < group_lora_int_id (fst p)
         \<or> group_lora_int_id (fst q) = group_lora_int_id (fst p) \<and> str_less (request_id (fst q)) (request_id (fst p))
      then q # insert_by_lora p qs else p # q # qs)"

text \<open>\<open>SchedulerOutputs.__post_init__\<close>.\<close>

definition check_outputs :: "sched_outputs \<Rightarrow> sched_outputs result" where
  "check_outputs out =
     assert_py (so_swap_in out = [] \<or> so_swap_out out = [])
       (Inr (if list_ex (\<lambda>p. group_lora (fst p) \<noteq> None) (so_groups out)
             then out\<lparr>so_groups := foldr insert_by_lora (so_groups out) []\<rparr> else out))"

definition outputs_empty :: "sched_outputs \<Rightarrow> bool" where
  "outputs_empty out \<longleftrightarrow> so_groups out = [] \<and> so_swap_in out = [] \<and> so_swap_out out = [] \<and> so_copy out = []"

definition lora_ids :: "seq_group list \<Rightarrow> int set" where
  "lora_ids gs = set (filter (\<lambda>i. i > 0) (map group_lora_int_id gs))"

definition empty_prefills :: "scheduler \<Rightarrow> budget \<Rightarrow> int set option \<Rightarrow> prefill_state" where
  "empty_prefills sc b ls = \<lparr>ps_sc = sc, ps_budget = b, ps_loras = ls, ps_groups = [], ps_ignored = [], ps_leftover = []\<rparr>"

definition empty_running :: "scheduler \<Rightarrow> budget \<Rightarrow> int set option \<Rightarrow> run_state" where
  "empty_running sc b ls =
     \<lparr>rs_sc = sc, rs_budget = b, rs_loras = ls, rs_decodes = [], rs_prefills = [], rs_preempted = [], rs_swapped_out = [],
      rs_swaps = [], rs_copies = []\<rparr>"

definition empty_swapped :: "scheduler \<Rightarrow> budget \<Rightarrow> int set option \<Rightarrow> swap_state" where
  "empty_swapped sc b ls =
     \<lparr>ss_sc = sc, ss_budget = b, ss_loras = ls, ss_decodes = [], ss_prefills = [], ss_swaps = [], ss_copies = [],
      ss_infeasible = [], ss_leftover = []\<rparr>"

definition charge_decodes :: "(seq_group \<times> int) list \<Rightarrow> waiting \<Rightarrow> waiting result" where
  "charge_decodes ps w = foldM (\<lambda>w p. bindr (client_id (fst p)) (\<lambda>c. w_charge_decode c w)) w ps"

text \<open>The first half of \<open>_schedule_default\<close>: what is scheduled.\<close>

definition default_phases ::
  "(((int list \<times> int list option) \<times> int) \<Rightarrow> int) \<Rightarrow> (bref list \<Rightarrow> bref list) \<Rightarrow> (seq_group \<Rightarrow> seq_group) \<Rightarrow> (nat \<Rightarrow> real)
     \<Rightarrow> scheduler \<Rightarrow> (prefill_state \<times> run_state \<times> swap_state) result" where
  "default_phases hsh so cb clk sc =
     (let cfg = sc_cfg sc in
      bindr (foldM (\<lambda>b g. bindr (get_max_num_running_seqs g) (\<lambda>k. Inr (add_num_seqs (request_id g) k b)))
              (new_budget (cfg_max_batched cfg) (cfg_max_num_seqs cfg)) (sc_running sc)) (\<lambda>b.
      let loras = (if cfg_max_loras cfg = None then None else Some (lora_ids (sc_running sc))) in
      bindr (if sc_swapped sc = [] then schedule_prefills hsh False clk sc b loras else Inr (empty_prefills sc b loras)) (\<lambda>ps.
        if ps_groups ps \<noteq> [] then
          Inr (ps, empty_running (ps_sc ps) (ps_budget ps) (ps_loras ps), empty_swapped (ps_sc ps) (ps_budget ps) (ps_loras ps))
        else
          bindr (if cfg_priority cfg
                 then bindr (schedule_priority_preemption so (ps_sc ps) (ps_budget ps)) (\<lambda>(sc1, b1, _). Inr (sc1, b1))
                 else Inr (ps_sc ps, ps_budget ps)) (\<lambda>(sc1, b1).
          bindr (schedule_running hsh so cb False sc1 b1 (ps_loras ps)) (\<lambda>rs.
            if rs_preempted rs = [] \<and> rs_swapped_out rs = [] then
              bindr (schedule_swapped hsh False (rs_sc rs) (rs_budget rs) (rs_loras rs)) (\<lambda>st. Inr (ps, rs, st))
            else Inr (ps, rs, empty_swapped (rs_sc rs) (rs_budget rs) (rs_loras rs)))))))"

text \<open>The second half: the queues are updated and the clients charged.\<close>

definition default_commit :: "prefill_state \<times> run_state \<times> swap_state \<Rightarrow> (sched_outputs \<times> scheduler) result" where
  "default_commit prs =
     (case prs of (ps, rs, st) \<Rightarrow>
       let sc = ss_sc st; cfg = sc_cfg sc; b = ss_budget st in
       assert_py (num_batched_tokens b \<le> cfg_max_batched cfg \<and> num_curr_seqs b \<le> cfg_max_num_seqs cfg)
         (bindr (w_extendleft (rs_preempted rs) (sc_waiting sc)) (\<lambda>w.
          let sc1 = sc\<lparr>sc_waiting := w,
                       sc_running := sc_running sc @ map fst (ps_groups ps) @ map fst (rs_decodes rs) @ map fst (ss_decodes st),
                       sc_swapped := sc_swapped sc @ rs_swapped_out rs\<rparr> in
          assert_py (rs_prefills rs = [] \<and> ss_prefills st = [])
            (let groups = ps_groups ps @ rs_decodes rs @ ss_decodes st in
             bindr (if ps_groups ps = [] then charge_decodes groups (sc_waiting sc1) else Inr (sc_waiting sc1)) (\<lambda>w2.
             bindr (check_outputs
                 \<lparr>so_groups = groups, so_prefills = int (length (ps_groups ps)), so_tokens = num_batched_tokens b,
                  so_swap_in = ss_swaps st, so_swap_out = rs_swaps rs, so_copy = rs_copies rs @ ss_copies st,
                  so_ignored = ps_ignored ps @ ss_infeasible st, so_lookahead = (if ps_groups ps = [] then num_lookahead False cfg else 0),
                  so_running = int (length (sc_running sc1)),
                  so_preempted = int (length (rs_preempted rs)) + int (length (rs_swapped_out rs))\<rparr>) (\<lambda>out.
               Inr (out, sc1\<lparr>sc_waiting := w2\<rparr>)))))))"

definition schedule_default ::
  "(((int list \<times> int list option) \<times> int) \<Rightarrow> int) \<Rightarrow> (bref list \<Rightarrow> bref list) \<Rightarrow> (seq_group \<Rightarrow> seq_group) \<Rightarrow> (nat \<Rightarrow> real)
     \<Rightarrow> scheduler \<Rightarrow> (sched_outputs \<times> scheduler) result" where
  "schedule_default hsh so cb clk sc = bindr (default_phases hsh so cb clk sc) default_commit"

definition schedule_chunked_prefill ::
  "(((int list \<times> int list option) \<times> int) \<Rightarrow> int) \<Rightarrow> (bref list \<Rightarrow> bref list) \<Rightarrow> (seq_group \<Rightarrow> seq_group) \<Rightarrow> (nat \<Rightarrow> real)
     \<Rightarrow> scheduler \<Rightarrow> (sched_outputs \<times> scheduler) result" where
  "schedule_chunked_prefill hsh so cb clk sc =
     (let cfg = sc_cfg sc; b = new_budget (cfg_max_batched cfg) (cfg_max_num_seqs cfg) in
      bindr (schedule_running hsh so cb True sc b (Some {})) (\<lambda>rs.
      bindr (if rs_preempted rs = [] \<and> rs_swapped_out rs = [] then schedule_swapped hsh False (rs_sc rs) (rs_budget rs) (rs_loras rs)
             else Inr (empty_swapped (rs_sc rs) (rs_budget rs) (rs_loras rs))) (\<lambda>st.
      bindr (schedule_prefills hsh True clk (ss_sc st) (ss_budget st) (ss_loras st)) (\<lambda>ps.
        let sc1 = ps_sc ps; b1 = ps_budget ps in
        assert_py (num_batched_tokens b1 \<le> cfg_max_batched cfg \<and> num_curr_seqs b1 \<le> cfg_max_num_seqs cfg)
          (bindr (w_extendleft (rs_preempted rs) (sc_waiting sc1)) (\<lambda>w.
           let sc2 = sc1\<lparr>sc_waiting := w,
                 sc_running := sc_running sc1 @ map fst (ss_decodes st) @ map fst (ss_prefills st) @ map fst (rs_decodes rs)
                   @ map fst (rs_prefills rs) @ map fst (ps_groups ps),
                 sc_swapped := sc_swapped sc1 @ rs_swapped_out rs\<rparr> in
           bindr (check_outputs
             \<lparr>so_groups = ps_groups ps @ rs_prefills rs @ ss_prefills st @ rs_decodes rs @ ss_decodes st,
              so_prefills = int (length (ps_groups ps)) + int (length (ss_prefills st)) + int (length (rs_prefills rs)),
              so_tokens = num_batched_tokens b1, so_swap_in = ss_swaps st, so_swap_out = rs_swaps rs,
              so_copy = rs_copies rs @ ss_copies st, so_ignored = ps_ignored ps @ ss_infeasible st,
              so_lookahead = num_lookahead False cfg, so_running = int (length (sc_running sc2)),
              so_preempted = int (length (rs_preempted rs)) + int (length (rs_swapped_out rs))\<rparr>) (\<lambda>out. Inr (out, sc2))))))))"

definition schedule_step ::
  "(((int list \<times> int list option) \<times> int) \<Rightarrow> int) \<Rightarrow> (bref list \<Rightarrow> bref list) \<Rightarrow> (seq_group \<Rightarrow> seq_group) \<Rightarrow> (nat \<Rightarrow> real)
     \<Rightarrow> scheduler \<Rightarrow> (sched_outputs \<times> scheduler) result" where
  "schedule_step hsh so cb clk sc =
     (if cfg_chunked (sc_cfg sc) then schedule_chunked_prefill hsh so cb clk sc else schedule_default hsh so cb clk sc)"

section \<open>Aborting\<close>

text \<open>The groups of one queue that are to be aborted, each id found once, and the ids that remain.\<close>

fun pick_aborted :: "seq_group list \<Rightarrow> string set \<Rightarrow> seq_group list \<times> string set" where
  "pick_aborted [] ids = ([], ids)"
| "pick_aborted (g # gs) ids =
     (if request_id g \<in> ids then (let (a, ids') = pick_aborted gs (ids - {request_id g}) in (g # a, ids')) else pick_aborted gs ids)"

definition finish_aborted :: "(bref list \<Rightarrow> bref list) \<Rightarrow> seq_group \<Rightarrow> scheduler \<Rightarrow> scheduler result" where
  "finish_aborted so g sc =
     bindr (foldM (\<lambda>sc s. if seq_is_finished s then Inr sc else free_seq so (s\<lparr>seq_status := FINISHED_ABORTED\<rparr>) sc)
              (sc\<lparr>sc_finished := sc_finished sc @ [request_id g]\<rparr>) (seqs g)) (free_cross_attn so g)"

definition abort_seq_group :: "(bref list \<Rightarrow> bref list) \<Rightarrow> string set \<Rightarrow> scheduler \<Rightarrow> scheduler result" where
  "abort_seq_group so ids sc =
     (let (a1, ids1) = pick_aborted (w_iter (sc_waiting sc)) ids;
          (a2, ids2) = pick_aborted (sc_running sc) ids1;
          (a3, ids3) = pick_aborted (sc_swapped sc) ids2 in
      bindr (foldM (\<lambda>sc g. bindr (w_remove g (sc_waiting sc)) (\<lambda>w. finish_aborted so g (sc\<lparr>sc_waiting := w\<rparr>))) sc a1) (\<lambda>sc1.
      bindr (foldM (\<lambda>sc g. finish_aborted so g (sc\<lparr>sc_running := remove1 g (sc_running sc)\<rparr>)) sc1 a2) (\<lambda>sc2.
        foldM (\<lambda>sc g. finish_aborted so g (sc\<lparr>sc_swapped := remove1 g (sc_swapped sc)\<rparr>)) sc2 a3)))"

section \<open>What the workers are sent\<close>

record seq_metadata =
  md_request_id :: string
  md_is_prompt :: bool
  md_data :: "(int, seq_data) dict"
  md_delta :: "(int, seq_delta) dict"
  md_block_tables :: "(int, nat list) dict"
  md_do_sample :: bool
  md_chunk :: int
  md_computed :: "nat list"
  md_cross :: "nat list option"

text \<open>The tables of the running sequences of a group, whose blocks count as accessed now.\<close>

definition collect_tables ::
  "real \<Rightarrow> sequence list \<Rightarrow> block_mgr \<Rightarrow> ((int, seq_data) dict \<times> (int, nat list) dict \<times> block_mgr) result" where
  "collect_tables now ss bm =
     foldM (\<lambda>(datas, tables, bm) s.
       bindr (bm_get_block_table s bm) (\<lambda>ids.
       bindr (bm_access_all s now bm) (\<lambda>bm1.
         Inr (AList.update (seq_id s) (seq_data s) datas, AList.update (seq_id s) ids tables, bm1)))) ([], [], bm) ss"

definition reset_deltas :: "sequence list \<Rightarrow> seq_group \<Rightarrow> seq_group" where
  "reset_deltas ss g =
     g\<lparr>seqs := map (\<lambda>s. if s \<in> set ss then s\<lparr>seq_data := snd (get_delta_and_reset (seq_data s))\<rparr> else s) (seqs g)\<rparr>"

definition group_metadata ::
  "sched_config \<Rightarrow> real \<Rightarrow> seq_group \<times> int \<Rightarrow> block_mgr \<Rightarrow> (seq_metadata \<times> seq_group \<times> block_mgr) result" where
  "group_metadata cfg now p bm =
     (let g = maybe_set_first_scheduled_time now (fst p) in
      bindr (if sg_is_encoder_decoder g then bindr (bm_get_cross_block_table g bm) (\<lambda>t. Inr (Some t)) else Inr None) (\<lambda>cross.
      bindr (get_seqs (Some RUNNING) g) (\<lambda>ss.
      bindr (collect_tables now ss bm) (\<lambda>(datas, tables, bm1).
      let common = (if cfg_prefix_caching cfg then bm_common_computed ss bm1 else []) in
      bindr (sg_is_prefill g) (\<lambda>is_prompt.
      bindr (if is_prompt then assert_py (length (seqs g) = 1) (first_seq g) else first_seq g) (\<lambda>s.
        let done = num_computed (seq_data s);
            first_prefill = (is_prompt \<and> done = 0);
            sample = \<not> (is_prompt \<and> snd p + done < seq_len s);
            full = (first_prefill \<or> \<not> cfg_send_delta cfg) in
        Inr (\<lparr>md_request_id = request_id g, md_is_prompt = is_prompt, md_data = (if full then datas else []),
              md_delta = (if full then [] else map (\<lambda>(i, d). (i, fst (get_delta_and_reset d))) datas),
              md_block_tables = tables, md_do_sample = sample, md_chunk = snd p, md_computed = common,
              md_cross = (if full then cross else None)\<rparr>,
             (if full then g else reset_deltas ss g), bm1)))))))"

definition allow_async :: "seq_group \<Rightarrow> bool" where
  "allow_async g = (case sampling g of None \<Rightarrow> True | Some sp \<Rightarrow> sp_best_of sp = 1 \<and> \<not> sp_use_beam_search sp)"

definition schedule ::
  "(((int list \<times> int list option) \<times> int) \<Rightarrow> int) \<Rightarrow> (bref list \<Rightarrow> bref list) \<Rightarrow> (seq_group \<Rightarrow> seq_group) \<Rightarrow> (nat \<Rightarrow> real) \<Rightarrow> real
     \<Rightarrow> scheduler \<Rightarrow> (seq_metadata list \<times> sched_outputs \<times> bool \<times> scheduler) result" where
  "schedule hsh so cb clk now sc =
     bindr (schedule_step hsh so cb clk sc) (\<lambda>(out, sc1).
     bindr (foldM (\<lambda>(mds, ps, bm) p. bindr (group_metadata (sc_cfg sc1) now p bm) (\<lambda>(md, g, bm1).
              Inr (mds @ [md], ps @ [(g, snd p)], bm1))) ([], [], sc_bm sc1) (so_groups out)) (\<lambda>(mds, ps, bm).
     bindr (foldM (\<lambda>bm p. bm_mark_blocks (fst p) (snd p) bm) bm ps) (\<lambda>bm1.
       let updated = map (\<lambda>p. (request_id (fst p), fst p)) ps in
       Inr (mds, out\<lparr>so_groups := ps\<rparr>, cfg_async (sc_cfg sc1) \<and> list_all (\<lambda>p. allow_async (fst p)) ps,
            sc1\<lparr>sc_bm := bm1, sc_running := map (\<lambda>g. dget_or updated (request_id g) g) (sc_running sc1)\<rparr>))))"

end
