(* ===== verification/Scheduler_Laws.thy ===== *)
theory Scheduler_Laws
  imports Scheduler
begin

text \<open>
  What the scheduler keeps: the laws of its waiting queue, whichever kind is configured, and the invariant of its queues.
  A request is in one place only, the statuses of its sequences agree with the queue it is in, and no step
  loses it.
\<close>

section \<open>The waiting queue\<close>

fun w_ok :: "waiting \<Rightarrow> bool" where
  "w_ok (WCpi q) = cq_ok q"
| "w_ok (WFifo q) = list_all has_client (waiting_queue_items q)"
| "w_ok (WPlain gs) = True"

definition w_items :: "waiting \<Rightarrow> seq_group multiset" where
  "w_items w = mset (w_iter w)"

lemma w_items_simps [simp]:
  "w_items (WCpi q) = cq_items q" "w_items (WFifo r) = mset (waiting_queue_items r)" "w_items (WPlain gs) = mset gs"
  by (simp_all add: w_items_def cq_items_def)

lemma rq_append_items:
  assumes "client_id g = Inr c"
  shows "\<exists>q'. rq_append g q = Inr q' \<and> waiting_queue_items q' = waiting_queue_items q @ [g]"
  using assms
  by (cases "counter_of q c = 0")
    (auto simp: rq_append_def rq_lift_def bump_def counter_of_def dict_simps Let_def split: option.splits)

lemma rq_popleft_items:
  "waiting_queue_items q = g # rest \<Longrightarrow> client_id g = Inr c \<Longrightarrow>
     \<exists>q'. rq_popleft q = Inr (g, q') \<and> waiting_queue_items q' = rest"
  by (auto simp: rq_popleft_def bump_def Let_def)

lemma w_pop_law:
  assumes "w_ok w" "w_items w \<noteq> {#}"
  shows "\<exists>g w'. w_popleft w = Inr (g, w') \<and> w_ok w' \<and> add_mset g (w_items w') = w_items w"
proof (cases w)
  case (WCpi q)
  with assms cpi.pop_law [of q] show ?thesis by fastforce
next
  case (WFifo q)
  with assms obtain g rest c where "waiting_queue_items q = g # rest" "client_id g = Inr c" "list_all has_client rest"
    by (cases "waiting_queue_items q") (auto simp: has_client_iff)
  with rq_popleft_items [OF this(1,2)] WFifo show ?thesis by fastforce
next
  case (WPlain gs)
  with assms show ?thesis by (cases gs) auto
qed

interpretation sched_queue: waiting_queue w_ok w_items w_append w_popleft w_bool w_len
proof
  fix w g c
  assume w: "w_ok w"
  show "\<exists>w'. w_append g w = Inr w' \<and> w_ok w' \<and> w_items w' = add_mset g (w_items w)" if c: "client_id g = Inr c"
  proof (cases w)
    case (WCpi q)
    with w cpi.push_law [OF _ c, of q] show ?thesis by fastforce
  next
    case (WFifo q)
    with w c rq_append_items [OF c, of q] show ?thesis by (auto simp: has_client_iff)
  qed auto
  show "\<exists>g w'. w_popleft w = Inr (g, w') \<and> w_ok w' \<and> add_mset g (w_items w') = w_items w" if "w_items w \<noteq> {#}"
    using w_pop_law [OF w that] .
  show "\<exists>e. w_popleft w = Inl e" if "w_items w = {#}"
    using that w cpi.pop_empty by (cases w) (fastforce simp: rq_popleft_def)+
  show "w_bool w \<longleftrightarrow> w_items w \<noteq> {#}"
    using w cpi.nonempty_law by (cases w) (auto simp: rq_bool_def)
  show "w_len w = int (size (w_items w))"
    using w cpi.len_law by (cases w) (auto simp: rq_len_def)
qed

lemma w_popleft_Inr:
  assumes "w_ok w" "w_popleft w = Inr (g, w')"
  shows "w_ok w' \<and> w_items w = add_mset g (w_items w')"
  using assms sched_queue.pop_law [of w] sched_queue.pop_empty [of w] by (cases "w_items w = {#}") auto

lemma w_append_Inr:
  assumes "w_ok w" "w_append g w = Inr w'"
  shows "w_ok w' \<and> w_items w' = add_mset g (w_items w)"
proof (cases "client_id g")
  case (Inl e)
  with assms show ?thesis by (cases w) (auto simp: cq_append_def rq_append_def)
next
  case (Inr c)
  with assms sched_queue.push_law [OF assms(1) Inr] show ?thesis by auto
qed

lemma cq_appendleft_Inr:
  assumes "cq_ok q" "cq_appendleft g q = Inr q'"
  shows "cq_ok q' \<and> cq_items q' = add_mset g (cq_items q)"
proof -
  from assms(2) obtain c ws where c: "client_id g = Inr c" "map_of (client_waiting_queues q) c = Some ws"
    by (auto simp: cq_appendleft_def)
  then have "c \<in> set (dkeys (served q))" using cq_key_iff [OF assms(1), of c] by simp
  from cq_appendleft_eq [OF assms(1) c(1) this] assms(2) show ?thesis by auto
qed

lemma w_appendleft_Inr:
  assumes "w_ok w" "w_appendleft g w = Inr w'"
  shows "w_ok w' \<and> w_items w' = add_mset g (w_items w)"
  using assms cq_appendleft_Inr
  by (cases w) (auto simp: rq_appendleft_def bump_def has_client_iff)

lemma w_extendleft_fold: "w_extendleft gs w = Inr w' \<Longrightarrow> foldM (\<lambda>w g. w_appendleft g w) w gs = Inr w'"
proof (induction gs arbitrary: w)
  case Nil
  then show ?case by (cases w) (auto simp: cq_extendleft_def rq_extendleft_def)
next
  case (Cons g gs)
  then show ?case by (cases w) (auto simp: cq_extendleft_def rq_extendleft_def)
qed

lemma w_extendleft_Inr:
  assumes "w_ok w" "w_extendleft gs w = Inr w'"
  shows "w_ok w' \<and> w_items w' = mset gs + w_items w"
proof -
  have "w_ok w' \<and> w_items w' = mset gs + w_items w" if "foldM (\<lambda>w g. w_appendleft g w) w gs = Inr w'" "w_ok w" for w
    using that
  proof (induction gs arbitrary: w)
    case (Cons g gs)
    then obtain w1 where "w_appendleft g w = Inr w1" "foldM (\<lambda>w g. w_appendleft g w) w1 gs = Inr w'" by auto
    with Cons.IH w_appendleft_Inr [OF Cons.prems(2)] show ?case by auto
  qed auto
  with assms w_extendleft_fold show ?thesis by blast
qed

lemma in_set_remove1D: "x \<in> set (remove1 g xs) \<Longrightarrow> x \<in> set xs"
  by (meson notin_set_remove1)

lemma w_remove_Inr:
  assumes "w_ok w" "w_remove g w = Inr w'"
  shows "w_ok w' \<and> w_items w' = w_items w - {#g#}"
proof (cases w)
  case (WCpi q)
  with assms show ?thesis by (auto simp: cq_remove_ok cq_remove_items)
next
  case (WFifo q)
  with assms show ?thesis
    by (auto simp: rq_remove_def list_all_iff split: if_splits dest!: in_set_remove1D)
next
  case (WPlain gs)
  with assms show ?thesis by (auto split: if_splits)
qed

lemma w_charge_decode_Inr:
  assumes "w_charge_decode c w = Inr w'" "w_ok w"
  shows "w_ok w' \<and> w_items w' = w_items w"
proof (cases w)
  case (WCpi q)
  with assms obtain s where s: "map_of (served q) c = Some s"
    "w' = WCpi (q\<lparr>served := AList.update c (s + decode_weight q) (served q)\<rparr>)" by auto
  with cq_ok_served [of q c] map_of_in_dkeys [OF s(1)] assms(2) WCpi show ?thesis by simp
qed (use assms in auto)

lemma w_first_popleft:
  assumes "w_first w = Inr g" "w_popleft w = Inr (h, w')"
  shows "h = g"
proof (cases w)
  case (WCpi q)
  with assms obtain c ws where "map_of (client_waiting_queues q) c = Some ws" "ws \<noteq> []" "g = ws ! 0"
    "(case ws of [] \<Rightarrow> Inl IndexError
      | g # rest \<Rightarrow> Inr (g, q\<lparr>client_waiting_queues := AList.update c rest (client_waiting_queues q)\<rparr>)) = Inr (h, case w' of WCpi b \<Rightarrow> b)"
    by (auto simp: cq_getitem_def cq_popleft_def py_nth_def split: if_splits)
  then show ?thesis by (cases ws) auto
next
  case (WFifo q)
  with assms show ?thesis
    by (auto simp: rq_getitem_def rq_popleft_def py_nth_def Let_def split: list.splits)
next
  case (WPlain gs)
  with assms show ?thesis by (auto simp: py_nth_def split: list.splits)
qed

section \<open>Statuses and places\<close>

text \<open>
  \<open>in_status st g\<close>: every sequence of the group that is not finished has status \<open>st\<close>.  \<open>queues_ok\<close>: the groups of a queue
  have the status the queue stands for.  \<open>sched_ids\<close>: the ids of the requests the scheduler holds, with those of the
  finished requests it still has to report.
\<close>

definition in_status :: "seq_status \<Rightarrow> seq_group \<Rightarrow> bool" where
  "in_status st g \<longleftrightarrow> (\<forall>s \<in> set (seqs g). seq_status s = st \<or> seq_is_finished s)"

definition queues_ok :: "scheduler \<Rightarrow> bool" where
  "queues_ok sc \<longleftrightarrow> w_ok (sc_waiting sc) \<and> (\<forall>g \<in># w_items (sc_waiting sc). in_status WAITING g)
     \<and> (\<forall>g \<in> set (sc_running sc). in_status RUNNING g) \<and> (\<forall>g \<in> set (sc_swapped sc). in_status SWAPPED g)"

definition ids_of :: "seq_group list \<Rightarrow> string multiset" where
  "ids_of gs = mset (map request_id gs)"

definition sched_ids :: "scheduler \<Rightarrow> string multiset" where
  "sched_ids sc = image_mset request_id (w_items (sc_waiting sc)) + ids_of (sc_running sc) + ids_of (sc_swapped sc)
     + ids_of (sc_async_stopped sc) + mset (sc_finished sc)"

definition cb_ok :: "(seq_group \<Rightarrow> seq_group) \<Rightarrow> bool" where
  "cb_ok cb \<longleftrightarrow> (\<forall>g. request_id (cb g) = request_id g \<and> (in_status RUNNING g \<longrightarrow> in_status RUNNING (cb g)))"

lemma ids_of_simps [simp]:
  "ids_of [] = {#}" "ids_of (g # gs) = add_mset (request_id g) (ids_of gs)" "ids_of (gs @ hs) = ids_of gs + ids_of hs"
  "ids_of (rev gs) = ids_of gs"
  by (simp_all add: ids_of_def)

lemma ids_of_last: "gs \<noteq> [] \<Longrightarrow> ids_of gs = add_mset (request_id (last gs)) (ids_of (butlast gs))"
  by (metis append_butlast_last_id add_mset_add_single ids_of_simps(1,2,3))

lemma image_ids: "image_mset request_id (mset gs) = ids_of gs"
  by (simp add: ids_of_def)

lemma ids_of_remove1: "g \<in> set gs \<Longrightarrow> ids_of gs = add_mset (request_id g) (ids_of (remove1 g gs))"
  by (simp add: ids_of_def image_mset_Diff flip: mset_map) (metis image_mset_add_mset insert_DiffM mset_map mset_remove1 set_mset_mset)

lemma in_status_init [simp]: "in_status st (init_multi_step n g) = in_status st g"
  by (simp add: in_status_def init_multi_step_def)

lemma request_id_simps [simp]:
  "request_id (init_multi_step n g) = request_id g" "request_id (set_status st st' g) = request_id g"
  "request_id (all_ignored g) = request_id g"
  by (simp_all add: init_multi_step_def set_status_def all_ignored_def)

lemma in_status_set: "in_status st g \<Longrightarrow> in_status st' (set_status st st' g)"
  by (auto simp: in_status_def set_status_def seq_is_finished_def)

lemma mark_preempted_Inr: "mark_preempted g = Inr g' \<Longrightarrow> request_id g' = request_id g \<and> in_status st g' = in_status st g"
  by (auto simp: mark_preempted_def in_status_def split: option.splits)

lemma mapM_mark_preempted:
  "mapM mark_preempted gs = Inr hs \<Longrightarrow> ids_of hs = ids_of gs \<and> ((\<forall>g \<in> set gs. in_status st g) \<longrightarrow> (\<forall>g \<in> set hs. in_status st g))"
proof (induction gs arbitrary: hs)
  case (Cons g gs)
  then obtain g' hs' where g: "mark_preempted g = Inr g'" "mapM mark_preempted gs = Inr hs'" "hs = g' # hs'" by auto
  with Cons.IH [OF g(2)] mark_preempted_Inr [OF g(1)] show ?case by auto
qed auto

text \<open>Operations that only change the block manager, or nothing the invariant looks at.\<close>

lemma sched_ids_bm [simp]: "sched_ids (sc\<lparr>sc_bm := bm\<rparr>) = sched_ids sc" "queues_ok (sc\<lparr>sc_bm := bm\<rparr>) = queues_ok sc"
  by (simp_all add: sched_ids_def queues_ok_def)

definition same_queues :: "scheduler \<Rightarrow> scheduler \<Rightarrow> bool" where
  "same_queues sc sc' \<longleftrightarrow> sc_cfg sc' = sc_cfg sc \<and> sc_waiting sc' = sc_waiting sc \<and> sc_running sc' = sc_running sc
     \<and> sc_swapped sc' = sc_swapped sc \<and> sc_async_stopped sc' = sc_async_stopped sc"

lemma same_queues_refl [simp, intro]: "same_queues sc sc" "same_queues sc (sc\<lparr>sc_bm := bm\<rparr>)"
  by (simp_all add: same_queues_def)

lemma same_queues_trans: "same_queues a b \<Longrightarrow> same_queues b c \<Longrightarrow> same_queues a c"
  by (simp add: same_queues_def)

lemma same_queues_ids:
  "same_queues sc sc' \<Longrightarrow> sc_finished sc' = sc_finished sc @ fs \<Longrightarrow> sched_ids sc' = sched_ids sc + mset fs \<and> queues_ok sc' = queues_ok sc"
  by (simp add: same_queues_def sched_ids_def queues_ok_def)

lemma free_seq_same: "free_seq so s sc = Inr sc' \<Longrightarrow> same_queues sc sc' \<and> sc_finished sc' = sc_finished sc"
  by (auto simp: free_seq_def)

lemma free_cross_same: "free_cross_attn so g sc = Inr sc' \<Longrightarrow> same_queues sc sc' \<and> sc_finished sc' = sc_finished sc"
  by (auto simp: free_cross_attn_def split: if_splits)

lemma foldM_same:
  assumes "foldM f sc xs = Inr sc'"
    and "\<And>sc x sc'. f sc x = Inr sc' \<Longrightarrow> same_queues sc sc' \<and> sc_finished sc' = sc_finished sc"
  shows "same_queues sc sc' \<and> sc_finished sc' = sc_finished sc"
  using assms(1)
  by (rule foldM_invariant [where P = "\<lambda>s. same_queues sc s \<and> sc_finished s = sc_finished sc"])
    (use assms(2) same_queues_trans in fastforce)+

lemma free_finished_seqs_same:
  "free_finished_seqs so g sc = Inr sc' \<Longrightarrow> same_queues sc sc' \<and> sc_finished sc' = sc_finished sc"
  unfolding free_finished_seqs_def by (erule foldM_same) (auto split: if_splits dest!: free_seq_same)

lemma free_finished_seq_group_same:
  assumes "free_finished_seq_group so g sc = Inr sc'"
  obtains fin where "sg_is_finished g = Inr fin" "same_queues sc sc'"
    "sc_finished sc' = sc_finished sc @ (if fin then [request_id g] else [])"
proof -
  from assms obtain fin sc1 where fin: "sg_is_finished g = Inr fin" "free_finished_seqs so g sc1 = Inr sc'"
    "(if fin then bindr (free_cross_attn so g sc) (\<lambda>sc1. Inr (sc1\<lparr>sc_finished := sc_finished sc1 @ [request_id g]\<rparr>))
      else Inr sc) = Inr sc1"
    by (auto simp: free_finished_seq_group_def)
  have "same_queues sc sc1 \<and> sc_finished sc1 = sc_finished sc @ (if fin then [request_id g] else [])"
    using fin(3) by (auto split: if_splits dest!: free_cross_same simp: same_queues_def)
  with free_finished_seqs_same [OF fin(2)] fin(1) show thesis
    by (intro that) (auto intro: same_queues_trans)
qed

section \<open>The running queue\<close>

lemma append_slots_Inr:
  assumes "append_slots hsh g sc = Inr (g', sc', copies)"
  shows "request_id g' = request_id g \<and> in_status st g' = in_status st g \<and> (\<exists>bm. sc' = sc\<lparr>sc_bm := bm\<rparr>)"
  using assms by (auto simp: append_slots_def Let_def)

lemma allocate_Inr:
  assumes "allocate_and_set_running hsh g sc = Inr (g', sc')"
  shows "g' = set_status WAITING RUNNING g \<and> (\<exists>bm. sc' = sc\<lparr>sc_bm := bm\<rparr>)"
  using assms by (auto simp: allocate_and_set_running_def)

lemma preempt_recompute_Inr:
  assumes "preempt_by_recompute so g sc = Inr (g', sc')"
  shows "request_id g' = request_id g" "in_status RUNNING g \<Longrightarrow> in_status WAITING g'"
    "same_queues sc sc' \<and> sc_finished sc' = sc_finished sc"
proof -
  from assms obtain ss where ss: "foldM (\<lambda>sc s. free_seq so s sc) sc ss = Inr sc'"
    "g' = g\<lparr>seqs := map (\<lambda>s. if seq_status s = RUNNING then seq_reset_for_recompute (s\<lparr>seq_status := WAITING\<rparr>) else s) (seqs g)\<rparr>"
    by (auto simp: preempt_by_recompute_def)
  from foldM_same [OF ss(1) free_seq_same] show "same_queues sc sc' \<and> sc_finished sc' = sc_finished sc" .
  show "request_id g' = request_id g" using ss(2) by simp
  show "in_status WAITING g'" if "in_status RUNNING g"
    using that ss(2) by (auto simp: in_status_def seq_reset_for_recompute_def seq_is_finished_def)
qed

lemma swap_in_Inr:
  assumes "sched_swap_in g sc = Inr (g', sc', moves)"
  shows "g' = set_status SWAPPED RUNNING g \<and> (\<exists>bm. sc' = sc\<lparr>sc_bm := bm\<rparr>)"
  using assms by (auto simp: sched_swap_in_def)

lemma swap_out_Inr:
  assumes "sched_swap_out g sc = Inr (g', sc', moves)"
  shows "g' = set_status RUNNING SWAPPED g \<and> (\<exists>bm. sc' = sc\<lparr>sc_bm := bm\<rparr>)"
  using assms by (auto simp: sched_swap_out_def split: if_splits)

definition mode_status :: "preemption_mode \<Rightarrow> seq_status" where
  "mode_status m = (case m of SWAP \<Rightarrow> SWAPPED | RECOMPUTE \<Rightarrow> WAITING)"

lemma preempt_Inr:
  assumes "preempt so g sc = Inr (mode, g', sc', moves)"
  shows "request_id g' = request_id g" "in_status RUNNING g \<Longrightarrow> in_status (mode_status mode) g'"
    "same_queues sc sc' \<and> sc_finished sc' = sc_finished sc" "mode = RECOMPUTE \<Longrightarrow> moves = []"
proof -
  have "request_id g' = request_id g \<and> (in_status RUNNING g \<longrightarrow> in_status (mode_status mode) g')
     \<and> same_queues sc sc' \<and> sc_finished sc' = sc_finished sc \<and> (mode = RECOMPUTE \<longrightarrow> moves = [])"
  proof (cases mode)
    case SWAP
    with assms obtain sc1 where "sched_swap_out g sc1 = Inr (g', sc', moves)" "sc1 = sc\<lparr>sc_preemptions := sc_preemptions sc + 1\<rparr>"
      by (auto simp: preempt_def Let_def split: preemption_mode.splits) (metis preemption_mode.exhaust)
    with swap_out_Inr [OF this(1)] SWAP show ?thesis by (auto simp: mode_status_def in_status_set same_queues_def)
  next
    case RECOMPUTE
    with assms obtain sc1 where r: "preempt_by_recompute so g sc1 = Inr (g', sc')" "sc1 = sc\<lparr>sc_preemptions := sc_preemptions sc + 1\<rparr>" "moves = []"
      by (auto simp: preempt_def Let_def split: preemption_mode.splits) (metis preemption_mode.exhaust)
    with preempt_recompute_Inr [OF r(1)] RECOMPUTE show ?thesis by (auto simp: mode_status_def same_queues_def)
  qed
  then show "request_id g' = request_id g" "in_status RUNNING g \<Longrightarrow> in_status (mode_status mode) g'"
    "same_queues sc sc' \<and> sc_finished sc' = sc_finished sc" "mode = RECOMPUTE \<Longrightarrow> moves = []" by auto
qed

text \<open>
  The state of the loop over the running queue: what the queues hold, and the groups taken out of them.  Swaps are reported only for groups
  that were swapped out.
\<close>

definition rs_ids :: "run_state \<Rightarrow> string multiset" where
  "rs_ids rs = sched_ids (rs_sc rs) + ids_of (map fst (rs_decodes rs)) + ids_of (map fst (rs_prefills rs)) + ids_of (rs_preempted rs)
     + ids_of (rs_swapped_out rs)"

definition rs_ok :: "run_state \<Rightarrow> bool" where
  "rs_ok rs \<longleftrightarrow> queues_ok (rs_sc rs) \<and> (\<forall>p \<in> set (rs_decodes rs @ rs_prefills rs). in_status RUNNING (fst p))
     \<and> (\<forall>g \<in> set (rs_preempted rs). in_status WAITING g) \<and> (\<forall>g \<in> set (rs_swapped_out rs). in_status SWAPPED g)
     \<and> (rs_swapped_out rs = [] \<longrightarrow> rs_swaps rs = [])"

text \<open>What a step of the loop leaves alone: the configuration, the waiting and the swapped queue.\<close>

definition rs_frame :: "run_state \<Rightarrow> run_state \<Rightarrow> bool" where
  "rs_frame rs rs' \<longleftrightarrow> sc_cfg (rs_sc rs') = sc_cfg (rs_sc rs) \<and> sc_waiting (rs_sc rs') = sc_waiting (rs_sc rs)
     \<and> sc_swapped (rs_sc rs') = sc_swapped (rs_sc rs)"

lemma rs_frame_trans: "rs_frame a b \<Longrightarrow> rs_frame b c \<Longrightarrow> rs_frame a c"
  by (simp add: rs_frame_def)

lemma rs_frame_refl [simp]: "rs_frame rs rs" "rs_frame rs (rs\<lparr>rs_budget := b, rs_loras := l\<rparr>)"
  by (simp_all add: rs_frame_def)

lemma preempt_victim_Inr:
  assumes "preempt_victim so cb g rs = Inr rs'" and cb: "cb_ok cb" and ok: "rs_ok rs" "in_status RUNNING g"
  shows "rs_ok rs' \<and> rs_ids rs' = add_mset (request_id g) (rs_ids rs) \<and> rs_frame rs rs'
     \<and> sc_running (rs_sc rs') = sc_running (rs_sc rs) \<and> rs_decodes rs' = rs_decodes rs \<and> rs_prefills rs' = rs_prefills rs"
proof -
  define v where "v = (if cfg_async (sc_cfg (rs_sc rs)) then cb g else g)"
  have v: "request_id v = request_id g" "in_status RUNNING v" using cb ok(2) by (auto simp: v_def cb_ok_def)
  from assms(1) obtain fin where fin: "(if cfg_async (sc_cfg (rs_sc rs)) then sg_is_finished v else Inr False) = Inr fin"
    and rest: "if fin then \<exists>sc1. free_finished_seq_group so v (rs_sc rs) = Inr sc1 \<and> rs' = rs\<lparr>rs_sc := sc1\<rparr>
      else \<exists>mode v' sc1 moves. preempt so v (rs_sc rs) = Inr (mode, v', sc1, moves)
        \<and> rs' = (let rs1 = rs\<lparr>rs_sc := sc1, rs_swaps := rs_swaps rs @ moves\<rparr> in
            case mode of RECOMPUTE \<Rightarrow> rs1\<lparr>rs_preempted := rs_preempted rs1 @ [v']\<rparr>
               | SWAP \<Rightarrow> rs1\<lparr>rs_swapped_out := rs_swapped_out rs1 @ [v']\<rparr>)"
    by (auto simp: preempt_victim_def v_def Let_def split: if_splits)
  show ?thesis
  proof (cases fin)
    case True
    with rest obtain sc1 where sc1: "free_finished_seq_group so v (rs_sc rs) = Inr sc1" "rs' = rs\<lparr>rs_sc := sc1\<rparr>" by auto
    have "sg_is_finished v = Inr True" using fin True by (auto split: if_splits)
    with free_finished_seq_group_same [OF sc1(1)] have same: "same_queues (rs_sc rs) sc1"
      "sc_finished sc1 = sc_finished (rs_sc rs) @ [request_id v]" by auto
    from same_queues_ids [OF this] ok(1) same(1) v(1) sc1(2) show ?thesis
      by (auto simp: rs_ok_def rs_ids_def rs_frame_def same_queues_def)
  next
    case False
    with rest obtain mode v' sc1 moves where p: "preempt so v (rs_sc rs) = Inr (mode, v', sc1, moves)"
      and rs': "rs' = (let rs1 = rs\<lparr>rs_sc := sc1, rs_swaps := rs_swaps rs @ moves\<rparr> in
            case mode of RECOMPUTE \<Rightarrow> rs1\<lparr>rs_preempted := rs_preempted rs1 @ [v']\<rparr>
               | SWAP \<Rightarrow> rs1\<lparr>rs_swapped_out := rs_swapped_out rs1 @ [v']\<rparr>)" by auto
    note pre = preempt_Inr [OF p]
    from pre(3) have same: "same_queues (rs_sc rs) sc1" "sc_finished sc1 = sc_finished (rs_sc rs) @ []" by auto
    from same_queues_ids [OF this] ok(1) same(1) v(1) pre(1) pre(2) [OF v(2)] pre(4) show ?thesis unfolding rs'
      by (cases mode) (auto simp: rs_ok_def rs_ids_def rs_frame_def same_queues_def mode_status_def)
  qed
qed

lemma rs_ok_drop_last:
  assumes "rs_ok rs" "sc_running (rs_sc rs) \<noteq> []"
    and "rs1 = rs\<lparr>rs_budget := b, rs_loras := l, rs_sc := (rs_sc rs)\<lparr>sc_running := butlast (sc_running (rs_sc rs))\<rparr>\<rparr>"
  shows "rs_ok rs1 \<and> in_status RUNNING (last (sc_running (rs_sc rs)))
     \<and> rs_ids rs = add_mset (request_id (last (sc_running (rs_sc rs)))) (rs_ids rs1) \<and> rs_frame rs rs1"
  using assms ids_of_last [OF assms(2)]
  by (auto simp: rs_ok_def rs_ids_def rs_frame_def queues_ok_def sched_ids_def dest: in_set_butlastD)

lemma make_room_Inr:
  assumes "make_room so cb g n fuel rs = Inr (room, rs')" "cb_ok cb" "rs_ok rs" "in_status RUNNING g"
  shows "rs_ok rs' \<and> add_mset (request_id g) (rs_ids rs) = rs_ids rs' + (if room then {#request_id g#} else {#})
     \<and> rs_frame rs rs' \<and> length (sc_running (rs_sc rs')) \<le> length (sc_running (rs_sc rs))
     \<and> rs_decodes rs' = rs_decodes rs \<and> rs_prefills rs' = rs_prefills rs"
  using assms
proof (induction fuel arbitrary: rs)
  case (Suc fuel)
  from Suc.prems(1) obtain can where can: "can_append_slots g (rs_sc rs) = Inr can" by auto
  show ?case
  proof (cases can)
    case True
    with Suc.prems can show ?thesis by auto
  next
    case False
    with Suc.prems(1) can obtain k where k: "get_max_num_running_seqs g = Inr k" by auto
    define rs1 where "rs1 = rs\<lparr>rs_budget := subtract_num_seqs (request_id g) k (subtract_num_batched_tokens (request_id g) n (rs_budget rs)),
                        rs_loras := lora_discard g (rs_loras rs)\<rparr>"
    have rs1: "rs_ok rs1" "rs_ids rs1 = rs_ids rs" "rs_frame rs rs1" "rs_sc rs1 = rs_sc rs" "rs_decodes rs1 = rs_decodes rs"
      "rs_prefills rs1 = rs_prefills rs"
      using Suc.prems(3) by (simp_all add: rs1_def rs_ok_def rs_ids_def)
    show ?thesis
    proof (cases "sc_running (rs_sc rs) = []")
      case True
      with False can k Suc.prems(1) have "preempt_victim so cb g rs1 = Inr rs'" "\<not> room"
        by (auto simp: rs1_def Let_def)
      from preempt_victim_Inr [OF this(1) assms(2) rs1(1) assms(4)] this(2) rs1 show ?thesis
        by (auto intro: rs_frame_trans)
    next
      case running: False
      define v where "v = last (sc_running (rs_sc rs))"
      define rs2 where "rs2 = rs1\<lparr>rs_sc := (rs_sc rs)\<lparr>sc_running := butlast (sc_running (rs_sc rs))\<rparr>\<rparr>"
      from running False can k Suc.prems(1) obtain rs3
        where rs3: "preempt_victim so cb v rs2 = Inr rs3" "make_room so cb g n fuel rs3 = Inr (room, rs')"
        by (auto simp: rs1_def rs2_def v_def Let_def)
      have rs2: "rs_ok rs2 \<and> in_status RUNNING v \<and> rs_ids rs = add_mset (request_id v) (rs_ids rs2) \<and> rs_frame rs rs2"
        unfolding v_def by (rule rs_ok_drop_last [OF Suc.prems(3) running]) (simp add: rs2_def rs1_def)
      then have v: "rs_ok rs2" "in_status RUNNING v" by auto
      note pv = preempt_victim_Inr [OF rs3(1) assms(2) v]
      then have ok3: "rs_ok rs3" by simp
      from Suc.IH [OF rs3(2) assms(2) ok3 assms(4)] pv rs2 show ?thesis
        by (auto simp: rs2_def rs1 intro: rs_frame_trans)
    qed
  qed
qed simp

lemma run_group_Inr:
  assumes "run_group hsh chunk g n rs = Inr rs'" "rs_ok rs" "in_status RUNNING g"
  shows "rs_ok rs' \<and> rs_ids rs' = add_mset (request_id g) (rs_ids rs) \<and> rs_frame rs rs'
     \<and> sc_running (rs_sc rs') = sc_running (rs_sc rs)"
proof -
  from assms(1) obtain g1 sc1 copies pre k where a: "append_slots hsh g (rs_sc rs) = Inr (g1, sc1, copies)"
    and rs': "rs' = (let b1 = add_num_batched_tokens (request_id g1) n (rs_budget rs);
           rs1 = rs\<lparr>rs_sc := sc1, rs_copies := rs_copies rs @ copies,
                    rs_budget := (if chunk then add_num_seqs (request_id g1) k b1 else b1),
                    rs_loras := lora_add g1 (rs_loras rs)\<rparr> in
       if pre then rs1\<lparr>rs_prefills := rs_prefills rs1 @ [(g1, n)]\<rparr> else rs1\<lparr>rs_decodes := rs_decodes rs1 @ [(g1, 1)]\<rparr>)"
    by (auto simp: run_group_def Let_def)
  from append_slots_Inr [OF a, of RUNNING] assms(2,3) show ?thesis unfolding rs'
    by (auto simp: Let_def rs_ok_def rs_ids_def rs_frame_def)
qed

lemma rs_ok_take_first:
  assumes "rs_ok rs" "sc_running (rs_sc rs) = g # rest" "rs1 = rs\<lparr>rs_sc := (rs_sc rs)\<lparr>sc_running := rest\<rparr>\<rparr>"
  shows "rs_ok rs1" "in_status RUNNING g" "rs_ids rs = add_mset (request_id g) (rs_ids rs1)" "rs_frame rs rs1"
  using assms by (auto simp: rs_ok_def rs_ids_def rs_frame_def queues_ok_def sched_ids_def)

lemma running_loop_Inr:
  assumes "running_loop hsh so cb chunk fuel rs = Inr rs'" "cb_ok cb" "rs_ok rs"
  shows "rs_ok rs' \<and> rs_ids rs' = rs_ids rs \<and> rs_frame rs rs'"
  using assms
proof (induction fuel arbitrary: rs)
  case (Suc fuel)
  show ?case
  proof (cases "sc_running (rs_sc rs)")
    case Nil
    with Suc.prems show ?thesis by simp
  next
    case (Cons g rest)
    define rs1 where "rs1 = rs\<lparr>rs_sc := (rs_sc rs)\<lparr>sc_running := rest\<rparr>\<rparr>"
    note t = rs_ok_take_first [OF Suc.prems(3) Cons rs1_def]
    from Suc.prems(1) Cons obtain m where m: "num_new_tokens (sc_cfg (rs_sc rs)) g RUNNING chunk (rs_budget rs) = Inr m"
      by auto
    show ?thesis
    proof (cases "m = 0")
      case True
      with m Cons Suc.prems show ?thesis by simp
    next
      case False
      define go where "go = (\<lambda>stopped. if stopped then
               running_loop hsh so cb chunk fuel (rs1\<lparr>rs_sc := (rs_sc rs1)\<lparr>sc_async_stopped := sc_async_stopped (rs_sc rs1) @ [g]\<rparr>\<rparr>)
             else bindr (make_room so cb g m (Suc (length rest)) rs1) (\<lambda>(room, rs2).
               bindr (if room then run_group hsh chunk g m rs2 else Inr rs2) (running_loop hsh so cb chunk fuel)))"
      have "bindr (if cfg_async (sc_cfg (rs_sc rs1)) then bindr (first_seq g) (\<lambda>s. Inr (seq_len s > cfg_max_model_len (sc_cfg (rs_sc rs1))))
                      else Inr False) go = Inr rs'"
        using m Cons Suc.prems(1) False by (simp add: rs1_def go_def Let_def del: bindr_Inr_iff split del: if_split cong: if_cong)
      then obtain stopped where s: "go stopped = Inr rs'" by (metis bindr_Inr_iff)
      show ?thesis
      proof (cases stopped)
        case True
        define rs2 where "rs2 = rs1\<lparr>rs_sc := (rs_sc rs1)\<lparr>sc_async_stopped := sc_async_stopped (rs_sc rs1) @ [g]\<rparr>\<rparr>"
        have rs2: "rs_ok rs2" "rs_ids rs2 = rs_ids rs" "rs_frame rs rs2"
          using t by (auto simp: rs2_def rs_ok_def rs_ids_def rs_frame_def queues_ok_def sched_ids_def)
        from s True have "running_loop hsh so cb chunk fuel rs2 = Inr rs'" by (simp add: rs2_def go_def)
        from Suc.IH [OF this Suc.prems(2) rs2(1)] rs2 show ?thesis by (auto intro: rs_frame_trans)
      next
        case False
        with s obtain room rs2 rs3 where r: "make_room so cb g m (Suc (length rest)) rs1 = Inr (room, rs2)"
          "(if room then run_group hsh chunk g m rs2 else Inr rs2) = Inr rs3" "running_loop hsh so cb chunk fuel rs3 = Inr rs'"
          by (simp add: go_def del: make_room.simps) (auto simp del: make_room.simps)
        note mr = make_room_Inr [OF r(1) Suc.prems(2) t(1,2)]
        then have ok2: "rs_ok rs2" by simp
        have "rs_ok rs3 \<and> rs_ids rs3 = rs_ids rs \<and> rs_frame rs rs3"
        proof (cases room)
          case True
          with r(2) run_group_Inr [OF _ ok2 t(2), of hsh chunk m rs3] mr t show ?thesis
            by (auto intro: rs_frame_trans)
        next
          case False
          with r(2) mr t show ?thesis by (auto intro: rs_frame_trans)
        qed
        then show ?thesis using Suc.IH [OF r(3) Suc.prems(2)] by (auto intro: rs_frame_trans)
      qed
    qed
  qed
qed simp

lemma schedule_running_Inr:
  assumes "schedule_running hsh so cb chunk sc b loras = Inr rs" "cb_ok cb" "queues_ok sc"
  shows "rs_ok rs \<and> rs_ids rs = sched_ids sc \<and> sc_cfg (rs_sc rs) = sc_cfg sc \<and> sc_waiting (rs_sc rs) = sc_waiting sc
     \<and> sc_swapped (rs_sc rs) = sc_swapped sc"
proof -
  define rs0 where "rs0 = \<lparr>rs_sc = sc, rs_budget = b, rs_loras = loras, rs_decodes = [], rs_prefills = [], rs_preempted = [], rs_swapped_out = [],
           rs_swaps = [], rs_copies = []\<rparr>"
  from assms(1) obtain rs1 ps where r: "running_loop hsh so cb chunk (Suc (length (sc_running sc))) rs0 = Inr rs1"
    "mapM mark_preempted (rs_preempted rs1) = Inr ps" "rs = rs1\<lparr>rs_preempted := ps\<rparr>"
    by (auto simp: schedule_running_def rs0_def simp del: running_loop.simps)
  have "rs_ok rs0" "rs_ids rs0 = sched_ids sc" using assms(3) by (simp_all add: rs0_def rs_ok_def rs_ids_def)
  with running_loop_Inr [OF r(1) assms(2)] mapM_mark_preempted [OF r(2), of WAITING] show ?thesis
    by (auto simp: r(3) rs0_def rs_ok_def rs_ids_def rs_frame_def)
qed

section \<open>The swapped queue\<close>

definition ss_ids :: "swap_state \<Rightarrow> string multiset" where
  "ss_ids st = sched_ids (ss_sc st) + ids_of (map fst (ss_decodes st)) + ids_of (map fst (ss_prefills st)) + ids_of (ss_infeasible st)
     + ids_of (ss_leftover st)"

definition ss_ok :: "swap_state \<Rightarrow> bool" where
  "ss_ok st \<longleftrightarrow> queues_ok (ss_sc st) \<and> (\<forall>p \<in> set (ss_decodes st @ ss_prefills st). in_status RUNNING (fst p))
     \<and> (\<forall>g \<in> set (ss_leftover st). in_status SWAPPED g)"

definition ss_frame :: "swap_state \<Rightarrow> swap_state \<Rightarrow> bool" where
  "ss_frame st st' \<longleftrightarrow> sc_cfg (ss_sc st') = sc_cfg (ss_sc st) \<and> sc_waiting (ss_sc st') = sc_waiting (ss_sc st)
     \<and> sc_running (ss_sc st') = sc_running (ss_sc st)"

lemma ss_frame_trans: "ss_frame a b \<Longrightarrow> ss_frame b c \<Longrightarrow> ss_frame a c"
  by (simp add: ss_frame_def)

lemma ss_ok_take_first:
  assumes "ss_ok st" "sc_swapped (ss_sc st) = g # rest" "st1 = st\<lparr>ss_sc := (ss_sc st)\<lparr>sc_swapped := rest\<rparr>\<rparr>"
  shows "ss_ok st1" "in_status SWAPPED g" "ss_ids st = add_mset (request_id g) (ss_ids st1)" "ss_frame st st1"
  using assms by (auto simp: ss_ok_def ss_ids_def ss_frame_def queues_ok_def sched_ids_def)

lemma swap_in_group_Inr:
  assumes "swap_in_group hsh g n k st = Inr st'" "ss_ok st" "in_status SWAPPED g"
  shows "ss_ok st' \<and> ss_ids st' = add_mset (request_id g) (ss_ids st) \<and> ss_frame st st'"
proof -
  from assms(1) obtain g1 sc1 moves g2 sc2 copies pre where a: "sched_swap_in g (ss_sc st) = Inr (g1, sc1, moves)"
    "append_slots hsh g1 sc1 = Inr (g2, sc2, copies)"
    and st': "st' = (let st1 = st\<lparr>ss_sc := sc2, ss_loras := lora_join (sc_cfg (ss_sc st)) g (ss_loras st), ss_swaps := ss_swaps st @ moves,
                    ss_copies := ss_copies st @ copies,
                    ss_budget := add_num_seqs (request_id g2) k (add_num_batched_tokens (request_id g2) n (ss_budget st))\<rparr> in
       if pre then st1\<lparr>ss_prefills := ss_prefills st1 @ [(g2, n)]\<rparr> else st1\<lparr>ss_decodes := ss_decodes st1 @ [(g2, 1)]\<rparr>)"
    by (auto simp: swap_in_group_def Let_def)
  from swap_in_Inr [OF a(1)] append_slots_Inr [OF a(2), of RUNNING] in_status_set [OF assms(3), of RUNNING] assms(2)
  show ?thesis unfolding st' by (auto simp: Let_def ss_ok_def ss_ids_def ss_frame_def)
qed

lemma swapped_loop_Inr:
  assumes "swapped_loop hsh chunk fuel st = Inr st'" "ss_ok st"
  shows "ss_ok st' \<and> ss_ids st' = ss_ids st \<and> ss_frame st st'"
  using assms
proof (induction fuel arbitrary: st)
  case (Suc fuel)
  show ?case
  proof (cases "sc_swapped (ss_sc st)")
    case Nil
    with Suc.prems show ?thesis by (simp add: ss_frame_def)
  next
    case (Cons g rest)
    define st1 where "st1 = st\<lparr>ss_sc := (ss_sc st)\<lparr>sc_swapped := rest\<rparr>\<rparr>"
    note t = ss_ok_take_first [OF Suc.prems(2) Cons st1_def]
    define infeasible where "infeasible = st1\<lparr>ss_infeasible := ss_infeasible st1 @ [all_ignored g]\<rparr>"
    define later where "later = st1\<lparr>ss_leftover := g # ss_leftover st1\<rparr>"
    have i: "ss_ok infeasible" "ss_ids infeasible = ss_ids st" "ss_frame st infeasible"
      and l: "ss_ok later" "ss_ids later = ss_ids st" "ss_frame st later"
      using t by (auto simp: infeasible_def later_def ss_ok_def ss_ids_def ss_frame_def)
    define fitting where "fitting = (\<lambda>full. if full then swapped_loop hsh chunk fuel later
       else bindr (get_max_num_running_seqs g) (\<lambda>k.
            bindr (num_new_tokens (sc_cfg (ss_sc st)) g SWAPPED chunk (ss_budget st)) (\<lambda>n.
            bindr (if n = 0 then Inr False else can_schedule n k (ss_budget st)) (\<lambda>fits.
              if \<not> fits then Inr st else bindr (swap_in_group hsh g n k st1) (swapped_loop hsh chunk fuel)))))"
    define answer where "answer = (\<lambda>a. if a = AllocLATER then Inr st
       else if a = AllocNEVER then swapped_loop hsh chunk fuel infeasible
       else bindr (lora_full (sc_cfg (ss_sc st)) g (ss_loras st)) fitting)"
    have "bindr (sg_is_prefill g) (\<lambda>pre.
       bindr (bm_can_swap_in g (num_lookahead pre (sc_cfg (ss_sc st))) (sc_bm (ss_sc st))) answer) = Inr st'"
      using Suc.prems(1)
      by (simp add: Cons Let_def st1_def infeasible_def later_def fitting_def answer_def del: bindr_Inr_iff split del: if_split cong: if_cong)
    then obtain a where "answer a = Inr st'" by (simp only: bindr_Inr_iff) blast
    then consider "st' = st" | "swapped_loop hsh chunk fuel infeasible = Inr st'" | full where "fitting full = Inr st'"
      unfolding answer_def by (metis (no_types, lifting) bindr_Inr_iff sum.inject(2))
    then consider "st' = st" | "swapped_loop hsh chunk fuel infeasible = Inr st'" | "swapped_loop hsh chunk fuel later = Inr st'"
      | k n st2 where "swap_in_group hsh g n k st1 = Inr st2" "swapped_loop hsh chunk fuel st2 = Inr st'"
      by cases (auto simp: fitting_def split: if_split_asm)
    then show ?thesis
    proof cases
      case 1
      then show ?thesis using Suc.prems(2) by (simp add: ss_frame_def)
    next
      case 2
      from Suc.IH [OF this i(1)] i show ?thesis by (auto intro: ss_frame_trans)
    next
      case 3
      from Suc.IH [OF this l(1)] l show ?thesis by (auto intro: ss_frame_trans)
    next
      case (4 k n st2)
      from swap_in_group_Inr [OF 4(1) t(1,2)] Suc.IH [OF 4(2)] t show ?thesis by (auto intro: ss_frame_trans)
    qed
  qed
qed simp

lemma schedule_swapped_Inr:
  assumes "schedule_swapped hsh chunk sc b loras = Inr st" "queues_ok sc"
  shows "queues_ok (ss_sc st) \<and> (\<forall>p \<in> set (ss_decodes st @ ss_prefills st). in_status RUNNING (fst p))
     \<and> sched_ids (ss_sc st) + ids_of (map fst (ss_decodes st)) + ids_of (map fst (ss_prefills st)) + ids_of (ss_infeasible st) = sched_ids sc
     \<and> sc_cfg (ss_sc st) = sc_cfg sc \<and> sc_waiting (ss_sc st) = sc_waiting sc \<and> sc_running (ss_sc st) = sc_running sc"
proof -
  define st0 where "st0 = \<lparr>ss_sc = sc, ss_budget = b, ss_loras = loras, ss_decodes = [], ss_prefills = [], ss_swaps = [], ss_copies = [],
        ss_infeasible = [], ss_leftover = []\<rparr>"
  from assms(1) obtain st1 where r: "swapped_loop hsh chunk (Suc (length (sc_swapped sc))) st0 = Inr st1"
    "st = st1\<lparr>ss_sc := (ss_sc st1)\<lparr>sc_swapped := rev (ss_leftover st1) @ sc_swapped (ss_sc st1)\<rparr>\<rparr>"
    by (auto simp: schedule_swapped_def st0_def simp del: swapped_loop.simps)
  have "ss_ok st0" "ss_ids st0 = sched_ids sc" using assms(2) by (simp_all add: st0_def ss_ok_def ss_ids_def)
  with swapped_loop_Inr [OF r(1)] have l: "ss_ok st1" "ss_ids st1 = sched_ids sc" "ss_frame st0 st1" by simp_all
  define sc1 where "sc1 = ss_sc st1"
  have "queues_ok (sc1\<lparr>sc_swapped := rev (ss_leftover st1) @ sc_swapped sc1\<rparr>)"
    using l(1) by (auto simp: ss_ok_def queues_ok_def sc1_def)
  moreover have "sched_ids (sc1\<lparr>sc_swapped := rev (ss_leftover st1) @ sc_swapped sc1\<rparr>) = sched_ids sc1 + ids_of (ss_leftover st1)"
    by (simp add: sched_ids_def)
  ultimately show ?thesis
    using l unfolding r(2) ss_ok_def ss_ids_def ss_frame_def by (simp add: sc1_def st0_def ac_simps)
qed

section \<open>Prefills\<close>

definition ps_ids :: "prefill_state \<Rightarrow> string multiset" where
  "ps_ids st = sched_ids (ps_sc st) + ids_of (map fst (ps_groups st)) + ids_of (ps_ignored st) + ids_of (ps_leftover st)"

definition ps_ok :: "prefill_state \<Rightarrow> bool" where
  "ps_ok st \<longleftrightarrow> queues_ok (ps_sc st) \<and> (\<forall>p \<in> set (ps_groups st). in_status RUNNING (fst p))
     \<and> (\<forall>g \<in> set (ps_leftover st). in_status WAITING g) \<and> length (ps_groups st) \<le> 1"

definition ps_frame :: "prefill_state \<Rightarrow> prefill_state \<Rightarrow> bool" where
  "ps_frame st st' \<longleftrightarrow> sc_cfg (ps_sc st') = sc_cfg (ps_sc st) \<and> sc_swapped (ps_sc st') = sc_swapped (ps_sc st)
     \<and> sc_running (ps_sc st') = sc_running (ps_sc st)"

lemma ps_frame_trans: "ps_frame a b \<Longrightarrow> ps_frame b c \<Longrightarrow> ps_frame a c"
  by (simp add: ps_frame_def)

lemma drop_first_Inr:
  assumes "drop_first st = Inr st'" "w_first (sc_waiting (ps_sc st)) = Inr g" "queues_ok (ps_sc st)"
  shows "\<exists>w. st' = st\<lparr>ps_sc := (ps_sc st)\<lparr>sc_waiting := w\<rparr>\<rparr>" "queues_ok (ps_sc st')" "in_status WAITING g"
    "sched_ids (ps_sc st) = add_mset (request_id g) (sched_ids (ps_sc st'))" "ps_frame st st'"
proof -
  from assms(1) obtain h w where w: "w_popleft (sc_waiting (ps_sc st)) = Inr (h, w)" "st' = st\<lparr>ps_sc := (ps_sc st)\<lparr>sc_waiting := w\<rparr>\<rparr>"
    by (auto simp: drop_first_def)
  from w_first_popleft [OF assms(2) w(1)] have "h = g" .
  with w_popleft_Inr [OF _ w(1)] assms(3) have "w_ok w" "w_items (sc_waiting (ps_sc st)) = add_mset g (w_items w)"
    by (auto simp: queues_ok_def)
  with w(2) assms(3) show "\<exists>w. st' = st\<lparr>ps_sc := (ps_sc st)\<lparr>sc_waiting := w\<rparr>\<rparr>" "queues_ok (ps_sc st')" "in_status WAITING g"
    "sched_ids (ps_sc st) = add_mset (request_id g) (sched_ids (ps_sc st'))" "ps_frame st st'"
    by (auto simp: queues_ok_def sched_ids_def ps_frame_def)
qed

lemma ignore_group_Inr:
  assumes "ignore_group g st = Inr st'" "w_first (sc_waiting (ps_sc st)) = Inr g" "ps_ok st"
  shows "ps_ok st' \<and> ps_ids st' = ps_ids st \<and> ps_frame st st'"
proof -
  define st1 where "st1 = st\<lparr>ps_ignored := ps_ignored st @ [set_status WAITING FINISHED_IGNORED g]\<rparr>"
  from assms have "drop_first st1 = Inr st'" "w_first (sc_waiting (ps_sc st1)) = Inr g" "queues_ok (ps_sc st1)"
    by (simp_all add: ignore_group_def st1_def ps_ok_def)
  from drop_first_Inr [OF this] assms(3) show ?thesis by (auto simp: st1_def ps_ok_def ps_ids_def ps_frame_def)
qed

lemma start_prefill_Inr:
  assumes "start_prefill hsh g n k st = Inr st'" "w_first (sc_waiting (ps_sc st)) = Inr g" "ps_ok st" "ps_groups st = []"
  shows "ps_ok st' \<and> ps_ids st' = ps_ids st \<and> ps_frame st st'"
proof -
  define st0 where "st0 = st\<lparr>ps_loras := lora_join (sc_cfg (ps_sc st)) g (ps_loras st)\<rparr>"
  from assms(1) obtain st1 g1 sc1 where d: "drop_first st0 = Inr st1" "allocate_and_set_running hsh g (ps_sc st1) = Inr (g1, sc1)"
    and st': "st' = st1\<lparr>ps_sc := sc1, ps_groups := ps_groups st1 @ [(init_multi_step (num_lookahead True (sc_cfg sc1) + 1) g1, n)],
       ps_budget := add_num_seqs (request_id (init_multi_step (num_lookahead True (sc_cfg sc1) + 1) g1)) k
         (add_num_batched_tokens (request_id (init_multi_step (num_lookahead True (sc_cfg sc1) + 1) g1)) n (ps_budget st1))\<rparr>"
    by (auto simp: start_prefill_def st0_def Let_def)
  have f: "w_first (sc_waiting (ps_sc st0)) = Inr g" "queues_ok (ps_sc st0)" using assms(2,3) by (simp_all add: st0_def ps_ok_def)
  note r = drop_first_Inr [OF d(1) f]
  from r allocate_Inr [OF d(2)] in_status_set [OF r(3), of RUNNING] assms(3,4) show ?thesis
    unfolding st' by (auto simp: st0_def ps_ok_def ps_ids_def ps_frame_def)
qed

text \<open>What a round does: nothing and stop, or it takes the first group and ignores it, puts it aside or starts it.\<close>

lemma prefill_round_cases:
  assumes "prefill_round hsh chunk g st = Inr (cont, st')"
  obtains (stop) "\<not> cont" "st' = st"
  | (ignored) "cont" "ignore_group g st = Inr st'"
  | (aside) "cont" "drop_first (st\<lparr>ps_leftover := g # ps_leftover st\<rparr>) = Inr st'" "lora_full (sc_cfg (ps_sc st)) g (ps_loras st) = Inr True"
  | (started) n k where "cont" "start_prefill hsh g n k st = Inr st'" "ps_groups st = []" "can_schedule n k (ps_budget st) = Inr True"
      "bm_can_allocate (sc_bm (ps_sc st)) g = Inr AllocOK"
proof -
  define fitting where "fitting = (\<lambda>n full. if full then bindr (drop_first (st\<lparr>ps_leftover := g # ps_leftover st\<rparr>)) (\<lambda>st1. Inr (True, st1))
                    else
                      bindr (get_max_num_running_seqs g) (\<lambda>k.
                      bindr (if n = 0 then Inr False else can_schedule n k (ps_budget st)) (\<lambda>fits.
                        if \<not> fits \<or> ps_groups st \<noteq> [] then Inr (False, st)
                        else bindr (start_prefill hsh g n k st) (\<lambda>st1. Inr (True, st1)))))"
  define answer where "answer = (\<lambda>n a. if a = AllocLATER then Inr (False, st)
                else if a = AllocNEVER then bindr (ignore_group g st) (\<lambda>st1. Inr (True, st1))
                else bindr (lora_full (sc_cfg (ps_sc st)) g (ps_loras st)) (fitting n))"
  define limited where "limited = (\<lambda>n lim. if n > lim then bindr (ignore_group g st) (\<lambda>st1. Inr (True, st1))
            else bindr (bm_can_allocate (sc_bm (ps_sc st)) g) (answer n))"
  have "bindr (get_seqs (Some WAITING) g) (\<lambda>ws. assert_py (length ws = 1)
        (bindr (num_new_tokens (sc_cfg (ps_sc st)) g WAITING chunk (ps_budget st)) (\<lambda>n.
         assert_py (chunk \<or> n = seq_len (hd ws)) (bindr (prompt_limit (sc_cfg (ps_sc st)) g) (limited n))))) = Inr (cont, st')"
    using assms
    by (simp add: prefill_round_def Let_def limited_def fitting_def answer_def del: bindr_Inr_iff assert_py_Inr_iff split del: if_split cong: if_cong)
  then obtain n lim where "limited n lim = Inr (cont, st')" by (simp only: bindr_Inr_iff assert_py_Inr_iff) blast
  then consider "cont" "ignore_group g st = Inr st'" | a where "bm_can_allocate (sc_bm (ps_sc st)) g = Inr a" "answer n a = Inr (cont, st')"
    unfolding limited_def by (cases "n > lim") auto
  then show thesis
  proof cases
    case 1
    then show thesis by (rule ignored)
  next
    case (2 a)
    show thesis
    proof (cases a)
      case AllocOK
      with 2 obtain full where full: "lora_full (sc_cfg (ps_sc st)) g (ps_loras st) = Inr full" "fitting n full = Inr (cont, st')"
        by (auto simp: answer_def)
      show thesis
      proof (cases full)
        case True
        with full aside show thesis by (auto simp: fitting_def)
      next
        case False
        with full(2) obtain k fits where k: "(if n = 0 then Inr False else can_schedule n k (ps_budget st)) = Inr fits"
          "(if \<not> fits \<or> ps_groups st \<noteq> [] then Inr (False, st) else bindr (start_prefill hsh g n k st) (\<lambda>st1. Inr (True, st1)))
             = Inr (cont, st')"
          by (auto simp: fitting_def)
        show thesis
        proof (cases "\<not> fits \<or> ps_groups st \<noteq> []")
          case True
          with k(2) stop show thesis by auto
        next
          case False
          with k have "can_schedule n k (ps_budget st) = Inr True" by (auto split: if_splits)
          with False k(2) 2(1) AllocOK show thesis by (intro started [of n k]) auto
        qed
      qed
    next
      case AllocLATER
      with 2(2) stop show thesis by (auto simp: answer_def)
    next
      case AllocNEVER
      with 2(2) ignored show thesis by (auto simp: answer_def)
    qed
  qed
qed

lemma prefill_round_Inr:
  assumes "prefill_round hsh chunk g st = Inr (cont, st')" "w_first (sc_waiting (ps_sc st)) = Inr g" "ps_ok st"
  shows "ps_ok st' \<and> ps_ids st' = ps_ids st \<and> ps_frame st st'"
  using assms(1)
proof (cases rule: prefill_round_cases)
  case stop
  with assms show ?thesis by (simp add: ps_frame_def)
next
  case ignored
  with ignore_group_Inr assms show ?thesis by blast
next
  case aside
  define st1 where "st1 = st\<lparr>ps_leftover := g # ps_leftover st\<rparr>"
  from aside assms have "drop_first st1 = Inr st'" "w_first (sc_waiting (ps_sc st1)) = Inr g" "queues_ok (ps_sc st1)"
    by (simp_all add: st1_def ps_ok_def)
  from drop_first_Inr [OF this] assms(3) show ?thesis by (auto simp: st1_def ps_ok_def ps_ids_def ps_frame_def)
next
  case (started n k)
  with start_prefill_Inr assms show ?thesis by blast
qed

lemma passed_delay_Inr:
  assumes "passed_delay now sc = Inr (p, sc')"
  shows "same_queues sc sc' \<and> sc_finished sc' = sc_finished sc \<and> sc_bm sc' = sc_bm sc"
  using assms by (auto simp: passed_delay_def Let_def same_queues_def split: if_splits option.splits)

lemma prefill_loop_Inr:
  assumes "prefill_loop hsh chunk clk i fuel st = Inr st'" "ps_ok st"
  shows "ps_ok st' \<and> ps_ids st' = ps_ids st \<and> ps_frame st st'"
  using assms
proof (induction fuel arbitrary: i st)
  case (Suc fuel)
  from Suc.prems(1) obtain p sc1 where p: "passed_delay (clk i) (ps_sc st) = Inr (p, sc1)" by auto
  with Suc.prems(1) have rest: "(let st1 = st\<lparr>ps_sc := sc1\<rparr> in
       if \<not> p \<or> \<not> w_bool (sc_waiting sc1) then Inr st1
       else bindr (w_first (sc_waiting sc1)) (\<lambda>g. bindr (prefill_round hsh chunk g st1) (\<lambda>(cont, st2).
           if cont then prefill_loop hsh chunk clk (Suc i) fuel st2 else Inr st2))) = Inr st'"
    by (simp only: prefill_loop.simps bindr.simps prod.case)
  define st1 where "st1 = st\<lparr>ps_sc := sc1\<rparr>"
  have s: "same_queues (ps_sc st) sc1" "sc_finished sc1 = sc_finished (ps_sc st) @ []" using passed_delay_Inr [OF p] by auto
  from same_queues_ids [OF this] s(1) Suc.prems(2) have st1: "ps_ok st1" "ps_ids st1 = ps_ids st" "ps_frame st st1"
    by (simp_all add: st1_def ps_ok_def ps_ids_def ps_frame_def same_queues_def)
  show ?case
  proof (cases "\<not> p \<or> \<not> w_bool (sc_waiting sc1)")
    case True
    with rest st1 show ?thesis by (auto simp: st1_def)
  next
    case False
    with rest obtain g cont st2 where g: "w_first (sc_waiting sc1) = Inr g" "prefill_round hsh chunk g st1 = Inr (cont, st2)"
      "(if cont then prefill_loop hsh chunk clk (Suc i) fuel st2 else Inr st2) = Inr st'"
      unfolding Let_def st1_def [symmetric] by (auto simp del: prefill_loop.simps)
    have "w_first (sc_waiting (ps_sc st1)) = Inr g" using g(1) by (simp add: st1_def)
    note r = prefill_round_Inr [OF g(2) this st1(1)]
    with g(3) Suc.IH [of "Suc i" st2] st1 show ?thesis by (cases cont) (auto intro: ps_frame_trans)
  qed
qed simp

lemma schedule_prefills_Inr:
  assumes "schedule_prefills hsh chunk clk sc b loras = Inr st" "queues_ok sc"
  shows "queues_ok (ps_sc st) \<and> (\<forall>p \<in> set (ps_groups st). in_status RUNNING (fst p)) \<and> length (ps_groups st) \<le> 1
     \<and> sched_ids (ps_sc st) + ids_of (map fst (ps_groups st)) + ids_of (ps_ignored st) = sched_ids sc
     \<and> sc_cfg (ps_sc st) = sc_cfg sc \<and> sc_swapped (ps_sc st) = sc_swapped sc \<and> sc_running (ps_sc st) = sc_running sc"
proof -
  define st0 where "st0 = \<lparr>ps_sc = sc, ps_budget = b, ps_loras = loras, ps_groups = [], ps_ignored = [], ps_leftover = []\<rparr>"
  from assms(1) obtain st1 w where r: "prefill_loop hsh chunk clk 0 (Suc (length (w_iter (sc_waiting sc)))) st0 = Inr st1"
    "w_extendleft (ps_leftover st1) (sc_waiting (ps_sc st1)) = Inr w"
    "st = (let sc1 = (ps_sc st1)\<lparr>sc_waiting := w\<rparr> in
       st1\<lparr>ps_sc := (if ps_groups st1 \<noteq> [] then sc1\<lparr>sc_prev_prompt := True\<rparr> else sc1)\<rparr>)"
    by (auto simp: schedule_prefills_def st0_def Let_def simp del: prefill_loop.simps)
  have "ps_ok st0" "ps_ids st0 = sched_ids sc" using assms(2) by (simp_all add: st0_def ps_ok_def ps_ids_def)
  with prefill_loop_Inr [OF r(1)] have l: "ps_ok st1" "ps_ids st1 = sched_ids sc" "ps_frame st0 st1" by simp_all
  with w_extendleft_Inr [OF _ r(2)] have w: "w_ok w" "w_items w = mset (ps_leftover st1) + w_items (sc_waiting (ps_sc st1))"
    by (auto simp: ps_ok_def queues_ok_def)
  have q: "queues_ok (ps_sc st)" using l(1) w by (auto simp: r(3) Let_def ps_ok_def queues_ok_def)
  have "sched_ids (ps_sc st) = sched_ids (ps_sc st1) + ids_of (ps_leftover st1)"
    using w by (simp add: r(3) Let_def sched_ids_def image_ids)
  moreover have "ps_groups st = ps_groups st1" "ps_ignored st = ps_ignored st1" "sc_cfg (ps_sc st) = sc_cfg (ps_sc st1)"
    "sc_swapped (ps_sc st) = sc_swapped (ps_sc st1)" "sc_running (ps_sc st) = sc_running (ps_sc st1)"
    by (simp_all add: r(3) Let_def)
  ultimately show ?thesis using q l by (simp add: ps_ok_def ps_ids_def ps_frame_def st0_def ac_simps)
qed

section \<open>A whole step\<close>

text \<open>What the three phases of a step hand over to its end.\<close>

definition phases_ok :: "scheduler \<Rightarrow> prefill_state \<times> run_state \<times> swap_state \<Rightarrow> scheduler \<Rightarrow> bool" where
  "phases_ok sc prs sc' \<longleftrightarrow> (case prs of (ps, rs, st) \<Rightarrow>
     queues_ok sc' \<and> sc_cfg sc' = sc_cfg sc
     \<and> (\<forall>p \<in> set (ps_groups ps @ rs_decodes rs @ rs_prefills rs @ ss_decodes st @ ss_prefills st). in_status RUNNING (fst p))
     \<and> (\<forall>g \<in> set (rs_preempted rs). in_status WAITING g) \<and> (\<forall>g \<in> set (rs_swapped_out rs). in_status SWAPPED g)
     \<and> (rs_swaps rs = [] \<or> ss_swaps st = []) \<and> length (ps_groups ps) \<le> 1
     \<and> sched_ids sc' + ids_of (map fst (ps_groups ps @ rs_decodes rs @ rs_prefills rs @ ss_decodes st @ ss_prefills st))
         + ids_of (rs_preempted rs) + ids_of (rs_swapped_out rs) + ids_of (ps_ignored ps @ ss_infeasible st) = sched_ids sc)"

lemma empty_phases [simp]:
  "rs_sc (empty_running sc b l) = sc" "rs_decodes (empty_running sc b l) = []" "rs_prefills (empty_running sc b l) = []"
  "rs_preempted (empty_running sc b l) = []" "rs_swapped_out (empty_running sc b l) = []" "rs_swaps (empty_running sc b l) = []"
  "ss_sc (empty_swapped sc b l) = sc" "ss_decodes (empty_swapped sc b l) = []" "ss_prefills (empty_swapped sc b l) = []"
  "ss_infeasible (empty_swapped sc b l) = []" "ss_swaps (empty_swapped sc b l) = []"
  "ps_sc (empty_prefills sc b l) = sc" "ps_groups (empty_prefills sc b l) = []" "ps_ignored (empty_prefills sc b l) = []"
  by (simp_all add: empty_running_def empty_swapped_def empty_prefills_def)

text \<open>The running and the swapped queue in turn: the swapped one only when nothing was preempted.\<close>

definition run_then_swap ::
  "(((int list \<times> int list option) \<times> int) \<Rightarrow> int) \<Rightarrow> run_state \<Rightarrow> swap_state result" where
  "run_then_swap hsh rs =
     (if rs_preempted rs = [] \<and> rs_swapped_out rs = [] then schedule_swapped hsh False (rs_sc rs) (rs_budget rs) (rs_loras rs)
      else Inr (empty_swapped (rs_sc rs) (rs_budget rs) (rs_loras rs)))"

lemma run_then_swap_Inr:
  assumes "run_then_swap hsh rs = Inr st" "rs_ok rs"
  shows "queues_ok (ss_sc st) \<and> (\<forall>p \<in> set (ss_decodes st @ ss_prefills st). in_status RUNNING (fst p))
     \<and> sched_ids (ss_sc st) + ids_of (map fst (ss_decodes st)) + ids_of (map fst (ss_prefills st)) + ids_of (ss_infeasible st) = sched_ids (rs_sc rs)
     \<and> sc_cfg (ss_sc st) = sc_cfg (rs_sc rs) \<and> (rs_swaps rs = [] \<or> ss_swaps st = [])"
proof (cases "rs_preempted rs = [] \<and> rs_swapped_out rs = []")
  case True
  with assms(1) have "schedule_swapped hsh False (rs_sc rs) (rs_budget rs) (rs_loras rs) = Inr st" by (simp add: run_then_swap_def)
  from schedule_swapped_Inr [OF this] assms(2) True show ?thesis by (simp add: rs_ok_def)
next
  case False
  with assms have "st = empty_swapped (rs_sc rs) (rs_budget rs) (rs_loras rs)" "queues_ok (rs_sc rs)"
    by (auto simp: run_then_swap_def rs_ok_def)
  then show ?thesis by simp
qed

lemma default_phases_unfold:
  assumes "default_phases hsh so cb clk sc = Inr prs" "\<not> cfg_priority (sc_cfg sc)"
  obtains (prefill) ps b loras where "schedule_prefills hsh False clk sc b loras = Inr ps" "ps_groups ps \<noteq> []" "sc_swapped sc = []"
      "prs = (ps, empty_running (ps_sc ps) (ps_budget ps) (ps_loras ps), empty_swapped (ps_sc ps) (ps_budget ps) (ps_loras ps))"
  | (decode) ps b loras rs st where "(if sc_swapped sc = [] then schedule_prefills hsh False clk sc b loras else Inr (empty_prefills sc b loras)) = Inr ps"
      "ps_groups ps = []" "schedule_running hsh so cb False (ps_sc ps) (ps_budget ps) (ps_loras ps) = Inr rs" "run_then_swap hsh rs = Inr st"
      "prs = (ps, rs, st)"
proof -
  define loras where "loras = (if cfg_max_loras (sc_cfg sc) = None then None else Some (lora_ids (sc_running sc)))"
  define go where "go = (\<lambda>b. bindr (if sc_swapped sc = [] then schedule_prefills hsh False clk sc b loras else Inr (empty_prefills sc b loras)) (\<lambda>ps.
        if ps_groups ps \<noteq> [] then
          Inr (ps, empty_running (ps_sc ps) (ps_budget ps) (ps_loras ps), empty_swapped (ps_sc ps) (ps_budget ps) (ps_loras ps))
        else
          bindr (schedule_running hsh so cb False (ps_sc ps) (ps_budget ps) (ps_loras ps)) (\<lambda>rs.
            bindr (run_then_swap hsh rs) (\<lambda>st. Inr (ps, rs, st)))))"
  have e: "(if rs_preempted rs = [] \<and> rs_swapped_out rs = [] then
              bindr (schedule_swapped hsh False (rs_sc rs) (rs_budget rs) (rs_loras rs)) (\<lambda>st. Inr (ps, rs, st))
            else Inr (ps, rs, empty_swapped (rs_sc rs) (rs_budget rs) (rs_loras rs)))
       = bindr (run_then_swap hsh rs) (\<lambda>st. Inr (ps, rs, st))" for rs ps
    by (simp add: run_then_swap_def)
  have "bindr (foldM (\<lambda>b g. bindr (get_max_num_running_seqs g) (\<lambda>k. Inr (add_num_seqs (request_id g) k b)))
              (new_budget (cfg_max_batched (sc_cfg sc)) (cfg_max_num_seqs (sc_cfg sc))) (sc_running sc)) go = Inr prs"
    using assms by (simp add: default_phases_def Let_def go_def loras_def e del: bindr_Inr_iff split del: if_split cong: if_cong)
  then obtain b where "go b = Inr prs" by (auto simp del: bindr_Inr_iff simp: bindr_Inr_iff)
  then obtain ps where ps: "(if sc_swapped sc = [] then schedule_prefills hsh False clk sc b loras else Inr (empty_prefills sc b loras)) = Inr ps"
    "(if ps_groups ps \<noteq> [] then
          Inr (ps, empty_running (ps_sc ps) (ps_budget ps) (ps_loras ps), empty_swapped (ps_sc ps) (ps_budget ps) (ps_loras ps))
        else
          bindr (schedule_running hsh so cb False (ps_sc ps) (ps_budget ps) (ps_loras ps)) (\<lambda>rs.
            bindr (run_then_swap hsh rs) (\<lambda>st. Inr (ps, rs, st)))) = Inr prs"
    unfolding go_def by (auto simp del: bindr_Inr_iff simp: bindr_Inr_iff split del: if_split)
  show thesis
  proof (cases "ps_groups ps = []")
    case True
    with ps decode show thesis by auto
  next
    case False
    with ps(1) have "sc_swapped sc = []" by (auto split: if_splits)
    with False ps prefill show thesis by auto
  qed
qed

lemma default_phases_Inr:
  assumes "default_phases hsh so cb clk sc = Inr prs" "\<not> cfg_priority (sc_cfg sc)" "cb_ok cb" "queues_ok sc"
  shows "phases_ok sc prs (ss_sc (snd (snd prs)))"
    "ps_groups (fst prs) \<noteq> [] \<Longrightarrow> rs_decodes (fst (snd prs)) = [] \<and> ss_decodes (snd (snd prs)) = []"
proof -
  have "phases_ok sc prs (ss_sc (snd (snd prs))) \<and>
    (ps_groups (fst prs) \<noteq> [] \<longrightarrow> rs_decodes (fst (snd prs)) = [] \<and> ss_decodes (snd (snd prs)) = [])"
    using assms(1,2)
  proof (cases rule: default_phases_unfold)
    case (prefill ps b loras)
    from schedule_prefills_Inr [OF prefill(1) assms(4)] show ?thesis unfolding prefill(4) phases_ok_def by simp
  next
    case (decode ps b loras rs st)
    have p: "queues_ok (ps_sc ps) \<and> sched_ids (ps_sc ps) + ids_of (ps_ignored ps) = sched_ids sc \<and> sc_cfg (ps_sc ps) = sc_cfg sc"
    proof (cases "sc_swapped sc = []")
      case True
      with decode(1) schedule_prefills_Inr [of hsh False clk sc b loras ps] assms(4) decode(2) show ?thesis by simp
    next
      case False
      with decode(1) assms(4) show ?thesis by auto
    qed
    then have "queues_ok (ps_sc ps)" by simp
    note r = schedule_running_Inr [OF decode(3) assms(3) this]
    then have "rs_ok rs" by simp
    note s = run_then_swap_Inr [OF decode(4) this]
    have eq: "sched_ids (ss_sc st) + ids_of (map fst (ps_groups ps @ rs_decodes rs @ rs_prefills rs @ ss_decodes st @ ss_prefills st))
         + ids_of (rs_preempted rs) + ids_of (rs_swapped_out rs) + ids_of (ps_ignored ps @ ss_infeasible st) = sched_ids sc"
    proof -
      have "sched_ids (ss_sc st) + ids_of (map fst (ss_decodes st)) + ids_of (map fst (ss_prefills st)) + ids_of (ss_infeasible st)
         + (ids_of (map fst (rs_decodes rs)) + ids_of (map fst (rs_prefills rs)) + ids_of (rs_preempted rs) + ids_of (rs_swapped_out rs))
         = sched_ids (ps_sc ps)"
        using r s by (simp add: rs_ids_def add.assoc)
      then have "sched_ids sc = sched_ids (ss_sc st) + ids_of (map fst (ss_decodes st)) + ids_of (map fst (ss_prefills st)) + ids_of (ss_infeasible st)
         + (ids_of (map fst (rs_decodes rs)) + ids_of (map fst (rs_prefills rs)) + ids_of (rs_preempted rs) + ids_of (rs_swapped_out rs))
         + ids_of (ps_ignored ps)" using p by simp
      then show ?thesis using decode(2) by (simp add: ac_simps)
    qed
    have st: "\<forall>p \<in> set (ps_groups ps @ rs_decodes rs @ rs_prefills rs @ ss_decodes st @ ss_prefills st). in_status RUNNING (fst p)"
      "\<forall>g \<in> set (rs_preempted rs). in_status WAITING g" "\<forall>g \<in> set (rs_swapped_out rs). in_status SWAPPED g"
      using r s decode(2) by (auto simp: rs_ok_def)
    have "sc_cfg (ss_sc st) = sc_cfg sc" "queues_ok (ss_sc st)" "rs_swaps rs = [] \<or> ss_swaps st = []" using p r s by simp_all
    with st eq have "phases_ok sc (ps, rs, st) (ss_sc st)"
      unfolding phases_ok_def prod.case using decode(2) by (intro conjI) (assumption | simp)+
    then show ?thesis using decode(2,5) by simp
  qed
  then show "phases_ok sc prs (ss_sc (snd (snd prs)))"
    "ps_groups (fst prs) \<noteq> [] \<Longrightarrow> rs_decodes (fst (snd prs)) = [] \<and> ss_decodes (snd (snd prs)) = []" by auto
qed

lemma insert_by_lora_mset: "mset (insert_by_lora p qs) = add_mset p (mset qs)"
  by (induction p qs rule: insert_by_lora.induct) auto

lemma sort_by_lora_mset: "mset (foldr insert_by_lora ps []) = mset ps"
  by (induction ps) (auto simp: insert_by_lora_mset)

lemma check_outputs_Inr:
  assumes "check_outputs out = Inr out'"
  shows "mset (so_groups out') = mset (so_groups out) \<and> so_copy out' = so_copy out \<and> so_ignored out' = so_ignored out \<and> so_prefills out' = so_prefills out
     \<and> so_swap_in out' = so_swap_in out \<and> so_swap_out out' = so_swap_out out \<and> so_tokens out' = so_tokens out"
  using assms by (auto simp: check_outputs_def sort_by_lora_mset split: if_split_asm)

lemma charge_decodes_Inr:
  assumes "charge_decodes ps w = Inr w'" "w_ok w"
  shows "w_ok w' \<and> w_items w' = w_items w"
  using assms(1) unfolding charge_decodes_def
  by (rule foldM_invariant [where P = "\<lambda>v. w_ok v \<and> w_items v = w_items w"]) (use assms(2) w_charge_decode_Inr in auto)

text \<open>The end of a step: the groups taken out of the queues return to them.\<close>

definition returned :: "scheduler \<Rightarrow> waiting \<Rightarrow> seq_group list \<Rightarrow> seq_group list \<Rightarrow> scheduler" where
  "returned sc w run swp = sc\<lparr>sc_waiting := w, sc_running := sc_running sc @ run, sc_swapped := sc_swapped sc @ swp\<rparr>"

lemma returned_ok:
  assumes q: "queues_ok sc" and w: "w_ok w" "w_items w = mset pre + w_items (sc_waiting sc)"
    and st: "\<forall>g \<in> set run. in_status RUNNING g" "\<forall>g \<in> set pre. in_status WAITING g" "\<forall>g \<in> set swp. in_status SWAPPED g"
  shows "queues_ok (returned sc w run swp)" "sched_ids (returned sc w run swp) = sched_ids sc + ids_of run + ids_of pre + ids_of swp"
proof -
  show "queues_ok (returned sc w run swp)" using assms by (auto simp: queues_ok_def returned_def)
  show "sched_ids (returned sc w run swp) = sched_ids sc + ids_of run + ids_of pre + ids_of swp"
    using w by (simp add: sched_ids_def returned_def image_ids ac_simps)
qed

lemma default_commit_unfold:
  assumes "default_commit (ps, rs, st) = Inr (out, sc')"
  obtains w w2 where "w_extendleft (rs_preempted rs) (sc_waiting (ss_sc st)) = Inr w"
    "rs_prefills rs = []" "ss_prefills st = []"
    "(if ps_groups ps = [] then charge_decodes (ps_groups ps @ rs_decodes rs @ ss_decodes st) w else Inr w) = Inr w2"
    "sc' = returned (ss_sc st) w2 (map fst (ps_groups ps @ rs_decodes rs @ ss_decodes st)) (rs_swapped_out rs)"
    "mset (so_groups out) = mset (ps_groups ps @ rs_decodes rs @ ss_decodes st)" "so_copy out = rs_copies rs @ ss_copies st" "so_ignored out = ps_ignored ps @ ss_infeasible st"
    "so_prefills out = int (length (ps_groups ps))" "so_swap_in out = ss_swaps st" "so_swap_out out = rs_swaps rs"
    "so_tokens out = num_batched_tokens (ss_budget st)"
proof -
  define groups where "groups = ps_groups ps @ rs_decodes rs @ ss_decodes st"
  define sc1 where "sc1 = (\<lambda>w. (ss_sc st)\<lparr>sc_waiting := w, sc_running := sc_running (ss_sc st) @ map fst groups,
                       sc_swapped := sc_swapped (ss_sc st) @ rs_swapped_out rs\<rparr>)"
  define out0 where "out0 = (\<lambda>w. \<lparr>so_groups = groups, so_prefills = int (length (ps_groups ps)), so_tokens = num_batched_tokens (ss_budget st),
                  so_swap_in = ss_swaps st, so_swap_out = rs_swaps rs, so_copy = rs_copies rs @ ss_copies st,
                  so_ignored = ps_ignored ps @ ss_infeasible st,
                  so_lookahead = (if ps_groups ps = [] then num_lookahead False (sc_cfg (ss_sc st)) else 0),
                  so_running = int (length (sc_running (sc1 w))),
                  so_preempted = int (length (rs_preempted rs)) + int (length (rs_swapped_out rs))\<rparr>)"
  have "bindr (w_extendleft (rs_preempted rs) (sc_waiting (ss_sc st))) (\<lambda>w. assert_py (rs_prefills rs = [] \<and> ss_prefills st = [])
      (bindr (if ps_groups ps = [] then charge_decodes groups w else Inr w) (\<lambda>w2.
         bindr (check_outputs (out0 w)) (\<lambda>out. Inr (out, (sc1 w)\<lparr>sc_waiting := w2\<rparr>))))) = Inr (out, sc')"
    using assms
    by (simp add: default_commit_def Let_def groups_def out0_def sc1_def del: bindr_Inr_iff cong: if_cong split del: if_split)
  then obtain w w2 where w: "w_extendleft (rs_preempted rs) (sc_waiting (ss_sc st)) = Inr w"
    and pre: "rs_prefills rs = []" "ss_prefills st = []"
    and w2: "(if ps_groups ps = [] then charge_decodes groups w else Inr w) = Inr w2"
    and out: "check_outputs (out0 w) = Inr out" and sc': "sc' = (sc1 w)\<lparr>sc_waiting := w2\<rparr>"
    by (auto split del: if_split)
  show thesis
    using check_outputs_Inr [OF out]
    by (intro that [OF w pre w2 [unfolded groups_def]]) (simp_all add: returned_def groups_def sc' sc1_def out0_def)
qed

lemma schedule_default_Inr:
  assumes "schedule_default hsh so cb clk sc = Inr (out, sc')" "\<not> cfg_priority (sc_cfg sc)" "cb_ok cb" "queues_ok sc"
  shows "queues_ok sc' \<and> sched_ids sc' + ids_of (so_ignored out) = sched_ids sc \<and> sc_cfg sc' = sc_cfg sc
     \<and> fst ` set (so_groups out) \<subseteq> set (sc_running sc') \<and> so_prefills out \<le> 1"
proof -
  from assms(1) obtain ps rs st where d: "default_phases hsh so cb clk sc = Inr (ps, rs, st)" "default_commit (ps, rs, st) = Inr (out, sc')"
    by (auto simp: schedule_default_def)
  have p: "phases_ok sc (ps, rs, st) (ss_sc st)" using default_phases_Inr(1) [OF d(1) assms(2-4)] by simp
  from d(2) show ?thesis
  proof (cases rule: default_commit_unfold)
    case (1 w w2)
    have w: "w_ok w" "w_items w = mset (rs_preempted rs) + w_items (sc_waiting (ss_sc st))"
      using w_extendleft_Inr [OF _ 1(1)] p by (auto simp: phases_ok_def queues_ok_def)
    have w2: "w_ok w2" "w_items w2 = mset (rs_preempted rs) + w_items (sc_waiting (ss_sc st))"
      using 1(4) w charge_decodes_Inr by (auto split: if_splits)
    define run where "run = map fst (ps_groups ps @ rs_decodes rs @ ss_decodes st)"
    have q: "queues_ok (ss_sc st)" "\<forall>g \<in> set run. in_status RUNNING g" "\<forall>g \<in> set (rs_preempted rs). in_status WAITING g"
      "\<forall>g \<in> set (rs_swapped_out rs). in_status SWAPPED g" using p by (auto simp: phases_ok_def run_def)
    note r = returned_ok [OF q(1) w2 q(2-4)]
    have "sched_ids (ss_sc st) + ids_of run + ids_of (rs_preempted rs) + ids_of (rs_swapped_out rs)
        + ids_of (ps_ignored ps @ ss_infeasible st) = sched_ids sc"
      using p 1(2,3) by (simp add: phases_ok_def run_def)
    with r 1(5,8) have "queues_ok sc'" "sched_ids sc' + ids_of (so_ignored out) = sched_ids sc" by (simp_all add: run_def)
    moreover have "sc_cfg sc' = sc_cfg sc" "so_prefills out \<le> 1" "fst ` set (so_groups out) \<subseteq> set (sc_running sc')"
      using p 1(5,9) mset_eq_setD [OF 1(6)] by (auto simp: phases_ok_def returned_def)
    ultimately show ?thesis by blast
  qed
qed

lemma chunked_unfold:
  assumes "schedule_chunked_prefill hsh so cb clk sc = Inr (out, sc')"
  obtains b rs st ps w where "schedule_running hsh so cb True sc b (Some {}) = Inr rs" "run_then_swap hsh rs = Inr st"
    "schedule_prefills hsh True clk (ss_sc st) (ss_budget st) (ss_loras st) = Inr ps"
    "w_extendleft (rs_preempted rs) (sc_waiting (ps_sc ps)) = Inr w"
    "sc' = returned (ps_sc ps) w (map fst (ss_decodes st @ ss_prefills st @ rs_decodes rs @ rs_prefills rs @ ps_groups ps)) (rs_swapped_out rs)"
    "mset (so_groups out) = mset (ps_groups ps @ rs_prefills rs @ ss_prefills st @ rs_decodes rs @ ss_decodes st)"
    "so_ignored out = ps_ignored ps @ ss_infeasible st" "so_swap_in out = ss_swaps st" "so_swap_out out = rs_swaps rs"
proof -
  define cfg where "cfg = sc_cfg sc"
  define b where "b = new_budget (cfg_max_batched cfg) (cfg_max_num_seqs cfg)"
  define fin where "fin = (\<lambda>(rs :: run_state) (st :: swap_state) (ps :: prefill_state). bindr (w_extendleft (rs_preempted rs) (sc_waiting (ps_sc ps))) (\<lambda>w.
           let sc2 = returned (ps_sc ps) w (map fst (ss_decodes st @ ss_prefills st @ rs_decodes rs @ rs_prefills rs @ ps_groups ps)) (rs_swapped_out rs) in
           bindr (check_outputs
             \<lparr>so_groups = ps_groups ps @ rs_prefills rs @ ss_prefills st @ rs_decodes rs @ ss_decodes st,
              so_prefills = int (length (ps_groups ps)) + int (length (ss_prefills st)) + int (length (rs_prefills rs)),
              so_tokens = num_batched_tokens (ps_budget ps), so_swap_in = ss_swaps st, so_swap_out = rs_swaps rs,
              so_copy = rs_copies rs @ ss_copies st, so_ignored = ps_ignored ps @ ss_infeasible st,
              so_lookahead = num_lookahead False cfg, so_running = int (length (sc_running sc2)),
              so_preempted = int (length (rs_preempted rs)) + int (length (rs_swapped_out rs))\<rparr>) (\<lambda>out. Inr (out, sc2))))"
  have "bindr (schedule_running hsh so cb True sc b (Some {})) (\<lambda>rs.
      bindr (run_then_swap hsh rs) (\<lambda>st.
      bindr (schedule_prefills hsh True clk (ss_sc st) (ss_budget st) (ss_loras st)) (\<lambda>ps.
        assert_py (num_batched_tokens (ps_budget ps) \<le> cfg_max_batched cfg \<and> num_curr_seqs (ps_budget ps) \<le> cfg_max_num_seqs cfg)
          (fin rs st ps)))) = Inr (out, sc')"
    using assms
    by (simp add: schedule_chunked_prefill_def Let_def fin_def b_def cfg_def run_then_swap_def returned_def
        del: bindr_Inr_iff assert_py_Inr_iff cong: if_cong split del: if_split)
  then obtain rs st ps where r: "schedule_running hsh so cb True sc b (Some {}) = Inr rs" "run_then_swap hsh rs = Inr st"
    "schedule_prefills hsh True clk (ss_sc st) (ss_budget st) (ss_loras st) = Inr ps" "fin rs st ps = Inr (out, sc')"
    by auto
  from r(4) obtain w out0 where w: "w_extendleft (rs_preempted rs) (sc_waiting (ps_sc ps)) = Inr w"
    "sc' = returned (ps_sc ps) w (map fst (ss_decodes st @ ss_prefills st @ rs_decodes rs @ rs_prefills rs @ ps_groups ps)) (rs_swapped_out rs)"
    and out: "check_outputs out0 = Inr out" "so_groups out0 = ps_groups ps @ rs_prefills rs @ ss_prefills st @ rs_decodes rs @ ss_decodes st"
      "so_ignored out0 = ps_ignored ps @ ss_infeasible st" "so_swap_in out0 = ss_swaps st" "so_swap_out out0 = rs_swaps rs"
    unfolding fin_def Let_def by (auto split del: if_split)
  show thesis using check_outputs_Inr [OF out(1)] out(2-) by (intro that [OF r(1-3) w]) simp_all
qed

lemma schedule_chunked_Inr:
  assumes "schedule_chunked_prefill hsh so cb clk sc = Inr (out, sc')" "cb_ok cb" "queues_ok sc"
  shows "queues_ok sc' \<and> sched_ids sc' + ids_of (so_ignored out) = sched_ids sc \<and> sc_cfg sc' = sc_cfg sc
     \<and> fst ` set (so_groups out) \<subseteq> set (sc_running sc')"
  using assms(1)
proof (cases rule: chunked_unfold)
  case (1 b rs st ps w)
  note r = schedule_running_Inr [OF 1(1) assms(2,3)]
  then have "rs_ok rs" by simp
  note s = run_then_swap_Inr [OF 1(2) this]
  then have "queues_ok (ss_sc st)" by simp
  note p = schedule_prefills_Inr [OF 1(3) this]
  have w: "w_ok w" "w_items w = mset (rs_preempted rs) + w_items (sc_waiting (ps_sc ps))"
    using w_extendleft_Inr [OF _ 1(4)] p by (auto simp: queues_ok_def)
  define run where "run = map fst (ss_decodes st @ ss_prefills st @ rs_decodes rs @ rs_prefills rs @ ps_groups ps)"
  have q: "queues_ok (ps_sc ps)" "\<forall>g \<in> set run. in_status RUNNING g" "\<forall>g \<in> set (rs_preempted rs). in_status WAITING g"
      "\<forall>g \<in> set (rs_swapped_out rs). in_status SWAPPED g" using r s p by (auto simp: rs_ok_def run_def)
  note t = returned_ok [OF q(1) w q(2-4)]
  have "sched_ids (ps_sc ps) + ids_of run + ids_of (rs_preempted rs) + ids_of (rs_swapped_out rs)
        + ids_of (ps_ignored ps @ ss_infeasible st) = sched_ids sc"
  proof -
    have "sched_ids sc = sched_ids (rs_sc rs) + (ids_of (map fst (rs_decodes rs)) + ids_of (map fst (rs_prefills rs)) + ids_of (rs_preempted rs) + ids_of (rs_swapped_out rs))"
      using r by (simp add: rs_ids_def add.assoc)
    also have "sched_ids (rs_sc rs) = sched_ids (ss_sc st) + (ids_of (map fst (ss_decodes st)) + ids_of (map fst (ss_prefills st)) + ids_of (ss_infeasible st))"
      using s by (simp add: add.assoc)
    also have "sched_ids (ss_sc st) = sched_ids (ps_sc ps) + (ids_of (map fst (ps_groups ps)) + ids_of (ps_ignored ps))"
      using p by (simp add: add.assoc)
    finally show ?thesis by (simp add: run_def ac_simps)
  qed
  with t 1(5,7) have "queues_ok sc'" "sched_ids sc' + ids_of (so_ignored out) = sched_ids sc" by (simp_all add: run_def)
  moreover have "sc_cfg sc' = sc_cfg sc" "fst ` set (so_groups out) \<subseteq> set (sc_running sc')"
    using p r s 1(5) mset_eq_setD [OF 1(6)] by (auto simp: returned_def)
  ultimately show ?thesis by blast
qed

lemma schedule_step_Inr:
  assumes "schedule_step hsh so cb clk sc = Inr (out, sc')" "\<not> cfg_priority (sc_cfg sc)" "cb_ok cb" "queues_ok sc"
  shows "queues_ok sc'" "sched_ids sc' + ids_of (so_ignored out) = sched_ids sc" "sc_cfg sc' = sc_cfg sc"
    "fst ` set (so_groups out) \<subseteq> set (sc_running sc')"
  using assms schedule_default_Inr [of hsh so cb clk sc out sc'] schedule_chunked_Inr [of hsh so cb clk sc out sc']
  by (auto simp: schedule_step_def split: if_split_asm)

section \<open>Scheduling, finishing, aborting\<close>

lemma in_status_reset_deltas [simp]: "in_status st (reset_deltas ss g) = in_status st g" "request_id (reset_deltas ss g) = request_id g"
proof -
  have "map seq_status (seqs (reset_deltas ss g)) = map seq_status (seqs g)" by (simp add: reset_deltas_def)
  then have "seq_status ` set (seqs (reset_deltas ss g)) = seq_status ` set (seqs g)" by (metis list.set_map)
  moreover have "in_status st h \<longleftrightarrow> (\<forall>x \<in> seq_status ` set (seqs h). x = st \<or> is_finished x)" for h
    by (simp add: in_status_def seq_is_finished_def del: is_finished_iff)
  ultimately show "in_status st (reset_deltas ss g) = in_status st g" by metis
qed (simp add: reset_deltas_def)

lemma group_metadata_Inr:
  assumes "group_metadata cfg now p bm = Inr (md, g, bm')"
  shows "request_id g = request_id (fst p) \<and> (in_status st (fst p) \<longrightarrow> in_status st g)"
proof -
  define h where "h = maybe_set_first_scheduled_time now (fst p)"
  have "request_id h = request_id (fst p) \<and> seqs h = seqs (fst p)"
    by (simp add: h_def maybe_set_first_scheduled_time_def)
  moreover from assms have "\<exists>b ss. g = (if b then h else reset_deltas ss h)"
    unfolding group_metadata_def h_def Let_def split_beta by (clarsimp split del: if_split) blast
  ultimately have "request_id g = request_id h \<and> in_status st g = in_status st h" by (metis in_status_reset_deltas)
  with \<open>request_id h = request_id (fst p) \<and> seqs h = seqs (fst p)\<close> show ?thesis by (simp add: in_status_def)
qed

lemma schedule_unfold:
  assumes "schedule hsh so cb clk now sc = Inr (mds, out, al, sc')"
  obtains out1 sc1 ps bm where "schedule_step hsh so cb clk sc = Inr (out1, sc1)"
    "\<forall>p \<in> set ps. \<exists>q \<in> set (so_groups out1). request_id (fst p) = request_id (fst q) \<and> (in_status RUNNING (fst q) \<longrightarrow> in_status RUNNING (fst p))"
    "out = out1\<lparr>so_groups := ps\<rparr>"
    "sc' = sc1\<lparr>sc_bm := bm, sc_running := map (\<lambda>g. dget_or (map (\<lambda>p. (request_id (fst p), fst p)) ps) (request_id g) g) (sc_running sc1)\<rparr>"
proof -
  from assms obtain out1 sc1 where s: "schedule_step hsh so cb clk sc = Inr (out1, sc1)"
    by (auto simp: schedule_def)
  define body where "body = (\<lambda>(mds, ps, bm) p. bindr (group_metadata (sc_cfg sc1) now p bm) (\<lambda>(md, g, bm1).
              Inr (mds @ [md], ps @ [(g, snd p)], bm1)))"
  from assms s have "bindr (foldM body ([], [], sc_bm sc1) (so_groups out1)) (\<lambda>(mds, ps, bm).
     bindr (foldM (\<lambda>bm p. bm_mark_blocks (fst p) (snd p) bm) bm ps) (\<lambda>bm1.
       Inr (mds, out1\<lparr>so_groups := ps\<rparr>, cfg_async (sc_cfg sc1) \<and> list_all (\<lambda>p. allow_async (fst p)) ps,
            sc1\<lparr>sc_bm := bm1, sc_running := map (\<lambda>g. dget_or (map (\<lambda>p. (request_id (fst p), fst p)) ps) (request_id g) g) (sc_running sc1)\<rparr>)))
      = Inr (mds, out, al, sc')"
    by (simp add: schedule_def Let_def body_def del: bindr_Inr_iff)
  then obtain mds1 ps bm bm1 where f: "foldM body ([], [], sc_bm sc1) (so_groups out1) = Inr (mds1, ps, bm)"
    and r: "out = out1\<lparr>so_groups := ps\<rparr>"
      "sc' = sc1\<lparr>sc_bm := bm1, sc_running := map (\<lambda>g. dget_or (map (\<lambda>p. (request_id (fst p), fst p)) ps) (request_id g) g) (sc_running sc1)\<rparr>"
    by auto
  let ?P = "\<lambda>ps. \<forall>p \<in> set ps. \<exists>q \<in> set (so_groups out1). request_id (fst p) = request_id (fst q) \<and> (in_status RUNNING (fst q) \<longrightarrow> in_status RUNNING (fst p))"
  have "?P (fst (snd (mds1, ps, bm)))"
    using f
  proof (rule foldM_invariant [where P = "\<lambda>acc. ?P (fst (snd acc))"])
    fix s p t
    assume p: "p \<in> set (so_groups out1)" and P: "?P (fst (snd s))"
      and t: "body s p = Inr t"
    from t obtain md g bm1 where "group_metadata (sc_cfg sc1) now p (snd (snd s)) = Inr (md, g, bm1)"
      "fst (snd t) = fst (snd s) @ [(g, snd p)]" by (cases s) (auto simp: body_def)
    with group_metadata_Inr [OF this(1), of RUNNING] p P show "?P (fst (snd t))" by auto
  qed simp
  with that s r show thesis by simp
qed

lemma dget_or_groups:
  assumes "\<forall>p \<in> set ps. request_id (fst p) = request_id (fst p) \<and> in_status RUNNING (fst p)" "in_status RUNNING g"
  shows "request_id (dget_or (map (\<lambda>p. (request_id (fst p), fst p)) ps) (request_id g) g) = request_id g
     \<and> in_status RUNNING (dget_or (map (\<lambda>p. (request_id (fst p), fst p)) ps) (request_id g) g)"
  using assms by (induction ps) (auto simp: dget_or_def)

lemma schedule_Inr:
  assumes "schedule hsh so cb clk now sc = Inr (mds, out, al, sc')" "\<not> cfg_priority (sc_cfg sc)" "cb_ok cb" "queues_ok sc"
  shows "queues_ok sc' \<and> sched_ids sc' + ids_of (so_ignored out) = sched_ids sc \<and> sc_cfg sc' = sc_cfg sc"
  using assms(1)
proof (cases rule: schedule_unfold)
  case (1 out1 sc1 ps bm)
  note s = schedule_step_Inr [OF 1(1) assms(2-4)]
  have ps: "\<forall>p \<in> set ps. request_id (fst p) = request_id (fst p) \<and> in_status RUNNING (fst p)"
    using 1(2) s(1,4) by (fastforce simp: queues_ok_def)
  have run: "\<forall>g \<in> set (sc_running sc1). in_status RUNNING g" using s(1) by (simp add: queues_ok_def)
  have "map request_id (sc_running sc') = map request_id (sc_running sc1)"
    using dget_or_groups [OF ps] run by (auto simp: 1(4))
  then have "ids_of (sc_running sc') = ids_of (sc_running sc1)" unfolding ids_of_def by (rule arg_cong)
  moreover have "\<forall>g \<in> set (sc_running sc'). in_status RUNNING g" using dget_or_groups [OF ps] run by (auto simp: 1(4))
  ultimately show ?thesis using s(1,2,3) by (auto simp: 1(3,4) queues_ok_def sched_ids_def)
qed

lemma add_seq_group_Inr:
  assumes "add_seq_group g sc = Inr sc'" "queues_ok sc" "in_status WAITING g"
  shows "queues_ok sc' \<and> sched_ids sc' = add_mset (request_id g) (sched_ids sc) \<and> sc_cfg sc' = sc_cfg sc"
proof -
  from assms(1) obtain w where w: "w_append g (sc_waiting sc) = Inr w" "sc' = sc\<lparr>sc_waiting := w\<rparr>" by (auto simp: add_seq_group_def)
  with w_append_Inr [OF _ w(1)] assms(2,3) show ?thesis by (auto simp: queues_ok_def sched_ids_def)
qed

lemma sweep_running:
  assumes "foldM (\<lambda>(sc, left) g. bindr (free_finished_seq_group so g sc) (\<lambda>sc1.
        bindr (sg_is_finished g) (\<lambda>fin. Inr (sc1, if fin then left else left @ [g])))) (sc, left) gs = Inr (sc', left')"
  shows "same_queues sc sc' \<and> (\<exists>fs. sc_finished sc' = sc_finished sc @ fs \<and> ids_of left' + mset fs = ids_of left + ids_of gs)
     \<and> set left' \<subseteq> set left \<union> set gs"
  using assms
proof (induction gs arbitrary: sc left)
  case (Cons g gs)
  then obtain sc1 fin where f: "free_finished_seq_group so g sc = Inr sc1" "sg_is_finished g = Inr fin"
    and rest: "foldM (\<lambda>(sc, left) g. bindr (free_finished_seq_group so g sc) (\<lambda>sc1.
        bindr (sg_is_finished g) (\<lambda>fin. Inr (sc1, if fin then left else left @ [g])))) (sc1, if fin then left else left @ [g]) gs = Inr (sc', left')"
    by auto
  from Cons.IH [OF rest] obtain fs where fs: "same_queues sc1 sc'" "sc_finished sc' = sc_finished sc1 @ fs"
    "ids_of left' + mset fs = ids_of (if fin then left else left @ [g]) + ids_of gs" "set left' \<subseteq> set (if fin then left else left @ [g]) \<union> set gs"
    by blast
  from f(1) obtain fin' where "sg_is_finished g = Inr fin'" "same_queues sc sc1"
    "sc_finished sc1 = sc_finished sc @ (if fin' then [request_id g] else [])" by (rule free_finished_seq_group_same)
  with f(2) fs show ?case
    by (intro conjI exI [of _ "(if fin then [request_id g] else []) @ fs"]) (auto split: if_split_asm dest: same_queues_trans)
qed auto

lemma sweep_stopped:
  assumes "foldM (\<lambda>sc g. bindr (free_cross_attn so g sc) (\<lambda>sc1.
          free_finished_seqs so g (sc1\<lparr>sc_finished := sc_finished sc1 @ [request_id g]\<rparr>))) sc gs = Inr sc'"
  shows "same_queues sc sc' \<and> sc_finished sc' = sc_finished sc @ map request_id gs"
  using assms
proof (induction gs arbitrary: sc)
  case (Cons g gs)
  then obtain sc1 sc2 where f: "free_cross_attn so g sc = Inr sc1"
    "free_finished_seqs so g (sc1\<lparr>sc_finished := sc_finished sc1 @ [request_id g]\<rparr>) = Inr sc2"
    and rest: "foldM (\<lambda>sc g. bindr (free_cross_attn so g sc) (\<lambda>sc1.
          free_finished_seqs so g (sc1\<lparr>sc_finished := sc_finished sc1 @ [request_id g]\<rparr>))) sc2 gs = Inr sc'" by auto
  from free_cross_same [OF f(1)] free_finished_seqs_same [OF f(2)] Cons.IH [OF rest] show ?case
    by (auto simp: same_queues_def)
qed auto

lemma free_finished_groups_Inr:
  assumes "free_finished_seq_groups so sc = Inr sc'" "queues_ok sc"
  shows "queues_ok sc' \<and> sched_ids sc' = sched_ids sc \<and> sc_cfg sc' = sc_cfg sc \<and> sc_async_stopped sc' = []"
proof -
  from assms(1) obtain sc1 left sc2 where a:
    "foldM (\<lambda>(sc, left) g. bindr (free_finished_seq_group so g sc) (\<lambda>sc1.
        bindr (sg_is_finished g) (\<lambda>fin. Inr (sc1, if fin then left else left @ [g])))) (sc, []) (sc_running sc) = Inr (sc1, left)"
    "foldM (\<lambda>sc g. bindr (free_cross_attn so g sc) (\<lambda>sc1.
          free_finished_seqs so g (sc1\<lparr>sc_finished := sc_finished sc1 @ [request_id g]\<rparr>))) (sc1\<lparr>sc_running := left\<rparr>) (sc_async_stopped sc1) = Inr sc2"
    "sc' = sc2\<lparr>sc_async_stopped := []\<rparr>"
    by (fastforce simp: free_finished_seq_groups_def)
  from sweep_running [OF a(1)] obtain fs where r: "same_queues sc sc1" "sc_finished sc1 = sc_finished sc @ fs"
    "ids_of left + mset fs = ids_of (sc_running sc)" "set left \<subseteq> set (sc_running sc)" by auto
  from sweep_stopped [OF a(2)] have s: "same_queues (sc1\<lparr>sc_running := left\<rparr>) sc2" "sc_finished sc2 = sc_finished sc1 @ map request_id (sc_async_stopped sc1)"
    by simp_all
  have "sched_ids sc' = image_mset request_id (w_items (sc_waiting sc)) + (ids_of left + mset fs) + ids_of (sc_swapped sc)
     + ids_of (sc_async_stopped sc) + mset (sc_finished sc)"
    using r(1,2) s by (simp add: a(3) sched_ids_def same_queues_def ids_of_def)
  then have "sched_ids sc' = sched_ids sc" unfolding r(3) by (simp add: sched_ids_def)
  moreover have "queues_ok sc'" using assms(2) r(1,4) s(1) by (auto simp: a(3) queues_ok_def same_queues_def)
  ultimately show ?thesis using r(1) s(1) by (simp add: a(3) same_queues_def)
qed

lemma mset_subset_eq_add_mset_trans: "A \<subseteq># B \<Longrightarrow> A \<subseteq># add_mset x B"
  by (metis add_mset_add_single mset_subset_eq_add_left subset_mset.order_trans)

lemma pick_aborted_sub: "pick_aborted gs ids = (a, ids') \<Longrightarrow> mset a \<subseteq># mset gs"
proof (induction gs arbitrary: ids a)
  case (Cons g gs)
  show ?case
  proof (cases "request_id g \<in> ids")
    case True
    with Cons.prems obtain b where "pick_aborted gs (ids - {request_id g}) = (b, ids')" "a = g # b"
      by (auto split: prod.splits)
    with Cons.IH show ?thesis by simp
  next
    case False
    with Cons.prems Cons.IH [of ids a] have "mset a \<subseteq># mset gs" by simp
    then show ?thesis by (simp add: subset_mset.le_add_same_cancel2 mset_subset_eq_add_mset_trans)
  qed
qed simp

lemma pick_aborted_ids:
  "pick_aborted gs ids = (a, ids') \<Longrightarrow> request_id ` set a \<subseteq> ids \<and> ids' = ids - request_id ` set a"
  by (induction gs arbitrary: ids a) (fastforce split: prod.splits if_splits)+

lemma finish_aborted_same:
  assumes "finish_aborted so g sc = Inr sc'"
  shows "same_queues sc sc' \<and> sc_finished sc' = sc_finished sc @ [request_id g]"
proof -
  define sc0 where "sc0 = sc\<lparr>sc_finished := sc_finished sc @ [request_id g]\<rparr>"
  from assms obtain sc1 where a: "foldM (\<lambda>sc s. if seq_is_finished s then Inr sc else free_seq so (s\<lparr>seq_status := FINISHED_ABORTED\<rparr>) sc) sc0 (seqs g) = Inr sc1"
    "free_cross_attn so g sc1 = Inr sc'" by (auto simp: finish_aborted_def sc0_def)
  have "same_queues sc0 sc1 \<and> sc_finished sc1 = sc_finished sc0"
    by (rule foldM_same [OF a(1)]) (auto split: if_splits dest!: free_seq_same)
  with free_cross_same [OF a(2)] show ?thesis by (auto simp: sc0_def same_queues_def)
qed

text \<open>One fold of \<open>abort_seq_group\<close>, over the groups found in one queue; \<open>leave\<close> takes a group out of that queue, \<open>others\<close> are the queues it leaves alone.\<close>

lemma abort_fold:
  fixes leave :: "seq_group \<Rightarrow> scheduler \<Rightarrow> scheduler result" and home :: "scheduler \<Rightarrow> seq_group multiset" and others :: "scheduler \<Rightarrow> 'q"
  assumes "foldM (\<lambda>sc g. bindr (leave g sc) (finish_aborted so g)) sc gs = Inr sc'" "queues_ok sc" "mset gs \<subseteq># home sc"
    and leave: "\<And>sc g sc1. leave g sc = Inr sc1 \<Longrightarrow> queues_ok sc \<Longrightarrow> g \<in># home sc \<Longrightarrow>
       queues_ok sc1 \<and> add_mset (request_id g) (sched_ids sc1) = sched_ids sc \<and> home sc1 = home sc - {#g#} \<and> sc_cfg sc1 = sc_cfg sc \<and> others sc1 = others sc
       \<and> sc_finished sc1 = sc_finished sc"
    and same: "\<And>sc sc'. same_queues sc sc' \<Longrightarrow> home sc' = home sc \<and> others sc' = others sc"
  shows "queues_ok sc' \<and> sched_ids sc' = sched_ids sc \<and> home sc' = home sc - mset gs \<and> sc_cfg sc' = sc_cfg sc \<and> others sc' = others sc
     \<and> sc_finished sc' = sc_finished sc @ map request_id gs"
  using assms(1-3)
proof (induction gs arbitrary: sc)
  case (Cons g gs)
  then obtain sc1 sc2 where c: "leave g sc = Inr sc1" "finish_aborted so g sc1 = Inr sc2"
    and rest: "foldM (\<lambda>sc g. bindr (leave g sc) (finish_aborted so g)) sc2 gs = Inr sc'" by auto
  have "g \<in># home sc" using Cons.prems(3) by (auto dest: mset_subset_eqD)
  note k = leave [OF c(1) Cons.prems(2) this]
  have f: "same_queues sc1 sc2" "sc_finished sc2 = sc_finished sc1 @ [request_id g]" using finish_aborted_same [OF c(2)] by auto
  have "mset gs \<subseteq># home sc2"
    using Cons.prems(3) k same [OF f(1)] by (simp add: insert_subset_eq_iff)
  with Cons.IH [OF rest] same_queues_ids [OF f] k same [OF f(1)] f(1) f(2) show ?case
    by (auto simp: same_queues_def)
qed simp

lemma sched_ids_waiting:
  assumes "w_items w = M - {#g#}" "g \<in># M" "w_items (sc_waiting sc) = M"
  shows "add_mset (request_id g) (sched_ids (sc\<lparr>sc_waiting := w\<rparr>)) = sched_ids sc"
proof -
  have "M = add_mset g (w_items w)" using assms by simp
  with assms(3) show ?thesis by (simp add: sched_ids_def)
qed

lemma abort_Inr:
  assumes "abort_seq_group so ids sc = Inr sc'" "queues_ok sc"
    and p: "pick_aborted (w_iter (sc_waiting sc)) ids = (a1, ids1)" "pick_aborted (sc_running sc) ids1 = (a2, ids2)"
    "pick_aborted (sc_swapped sc) ids2 = (a3, ids3)"
  shows "queues_ok sc' \<and> sched_ids sc' = sched_ids sc \<and> sc_cfg sc' = sc_cfg sc"
    "w_items (sc_waiting sc') = w_items (sc_waiting sc) - mset a1" "mset (sc_running sc') = mset (sc_running sc) - mset a2"
    "mset (sc_swapped sc') = mset (sc_swapped sc) - mset a3" "sc_finished sc' = sc_finished sc @ map request_id (a1 @ a2 @ a3)"
proof -
  define lw where "lw = (\<lambda>g (sc :: scheduler). bindr (w_remove g (sc_waiting sc)) (\<lambda>w. Inr (sc\<lparr>sc_waiting := w\<rparr>)))"
  define lr where "lr = (\<lambda>g (sc :: scheduler). (Inr (sc\<lparr>sc_running := remove1 g (sc_running sc)\<rparr>) :: scheduler result))"
  define ls where "ls = (\<lambda>g (sc :: scheduler). (Inr (sc\<lparr>sc_swapped := remove1 g (sc_swapped sc)\<rparr>) :: scheduler result))"
  from assms(1) p obtain sc1 sc2 where f: "foldM (\<lambda>sc g. bindr (lw g sc) (finish_aborted so g)) sc a1 = Inr sc1"
    "foldM (\<lambda>sc g. bindr (lr g sc) (finish_aborted so g)) sc1 a2 = Inr sc2"
    "foldM (\<lambda>sc g. bindr (ls g sc) (finish_aborted so g)) sc2 a3 = Inr sc'"
    by (auto simp: abort_seq_group_def lw_def lr_def ls_def bindr_assoc)
  have 1: "queues_ok sc1 \<and> sched_ids sc1 = sched_ids sc \<and> w_items (sc_waiting sc1) = w_items (sc_waiting sc) - mset a1 \<and> sc_cfg sc1 = sc_cfg sc
     \<and> (sc_running sc1, sc_swapped sc1) = (sc_running sc, sc_swapped sc) \<and> sc_finished sc1 = sc_finished sc @ map request_id a1"
  proof (rule abort_fold [OF f(1) assms(2)])
    show "mset a1 \<subseteq># w_items (sc_waiting sc)" using pick_aborted_sub [OF p(1)] by (simp add: w_items_def)
    fix s g t
    assume "lw g s = Inr t" and q: "queues_ok s" and g: "g \<in># w_items (sc_waiting s)"
    then obtain w where w: "w_remove g (sc_waiting s) = Inr w" "t = s\<lparr>sc_waiting := w\<rparr>" by (auto simp: lw_def)
    then have w': "w_ok w" "w_items w = w_items (sc_waiting s) - {#g#}" using w_remove_Inr [OF _ w(1)] q by (auto simp: queues_ok_def)
    have "add_mset (request_id g) (sched_ids t) = sched_ids s" unfolding w(2) using w' g by (intro sched_ids_waiting) auto
    with w' q show "queues_ok t \<and> add_mset (request_id g) (sched_ids t) = sched_ids s \<and> w_items (sc_waiting t) = w_items (sc_waiting s) - {#g#}
      \<and> sc_cfg t = sc_cfg s \<and> (sc_running t, sc_swapped t) = (sc_running s, sc_swapped s) \<and> sc_finished t = sc_finished s"
      by (auto simp: w(2) queues_ok_def dest: in_diffD)
  qed (auto simp: same_queues_def)
  have 2: "queues_ok sc2 \<and> sched_ids sc2 = sched_ids sc1 \<and> mset (sc_running sc2) = mset (sc_running sc1) - mset a2 \<and> sc_cfg sc2 = sc_cfg sc1
     \<and> (sc_waiting sc2, sc_swapped sc2) = (sc_waiting sc1, sc_swapped sc1) \<and> sc_finished sc2 = sc_finished sc1 @ map request_id a2"
  proof (rule abort_fold [OF f(2)])
    show "queues_ok sc1" "mset a2 \<subseteq># mset (sc_running sc1)" using 1 pick_aborted_sub [OF p(2)] by auto
    fix s g t
    assume t: "lr g s = Inr t" and q: "queues_ok s" and g: "g \<in># mset (sc_running s)"
    then have "g \<in> set (sc_running s)" by simp
    with t q ids_of_remove1 [OF this] show "queues_ok t \<and> add_mset (request_id g) (sched_ids t) = sched_ids s \<and> mset (sc_running t) = mset (sc_running s) - {#g#}
      \<and> sc_cfg t = sc_cfg s \<and> (sc_waiting t, sc_swapped t) = (sc_waiting s, sc_swapped s) \<and> sc_finished t = sc_finished s"
      by (auto simp: lr_def queues_ok_def sched_ids_def dest!: in_set_remove1D)
  qed (auto simp: same_queues_def)
  have 3: "queues_ok sc' \<and> sched_ids sc' = sched_ids sc2 \<and> mset (sc_swapped sc') = mset (sc_swapped sc2) - mset a3 \<and> sc_cfg sc' = sc_cfg sc2
     \<and> (sc_waiting sc', sc_running sc') = (sc_waiting sc2, sc_running sc2) \<and> sc_finished sc' = sc_finished sc2 @ map request_id a3"
  proof (rule abort_fold [OF f(3)])
    show "queues_ok sc2" "mset a3 \<subseteq># mset (sc_swapped sc2)" using 1 2 pick_aborted_sub [OF p(3)] by auto
    fix s g t
    assume t: "ls g s = Inr t" and q: "queues_ok s" and g: "g \<in># mset (sc_swapped s)"
    then have "g \<in> set (sc_swapped s)" by simp
    with t q ids_of_remove1 [OF this] show "queues_ok t \<and> add_mset (request_id g) (sched_ids t) = sched_ids s \<and> mset (sc_swapped t) = mset (sc_swapped s) - {#g#}
      \<and> sc_cfg t = sc_cfg s \<and> (sc_waiting t, sc_running t) = (sc_waiting s, sc_running s) \<and> sc_finished t = sc_finished s"
      by (auto simp: ls_def queues_ok_def sched_ids_def dest!: in_set_remove1D)
  qed (auto simp: same_queues_def)
  from 1 2 3 show "queues_ok sc' \<and> sched_ids sc' = sched_ids sc \<and> sc_cfg sc' = sc_cfg sc"
    "w_items (sc_waiting sc') = w_items (sc_waiting sc) - mset a1" "mset (sc_running sc') = mset (sc_running sc) - mset a2"
    "mset (sc_swapped sc') = mset (sc_swapped sc) - mset a3" "sc_finished sc' = sc_finished sc @ map request_id (a1 @ a2 @ a3)"
    by auto
qed

section \<open>Runs of the scheduler\<close>

text \<open>The cost of a prefill as the engine reports it: \<open>self.scheduler[...].waiting.update_prefill_served(...)\<close> of \<open>LLMEngine.step\<close>.\<close>

fun w_update_prefill :: "(int \<times> real \<times> real) list \<Rightarrow> (int, real) dict option \<Rightarrow> waiting \<Rightarrow> waiting result" where
  "w_update_prefill ps cs (WCpi q) = Inr (WCpi (cq_update_prefill_served ps cs q))"
| "w_update_prefill ps cs (WFifo q) = Inr (WFifo (rq_update_prefill_served ps cs q))"
| "w_update_prefill ps cs (WPlain gs) = Inl AttributeError"

fun w_knows :: "waiting \<Rightarrow> int \<Rightarrow> bool" where
  "w_knows (WCpi q) c \<longleftrightarrow> c \<in> set (dkeys (served q))"
| "w_knows (WFifo q) c \<longleftrightarrow> True"
| "w_knows (WPlain gs) c \<longleftrightarrow> True"

lemma rq_charge_items [simp]: "waiting_queue_items (rq_charge q p) = waiting_queue_items q"
  by (simp add: rq_charge_def Let_def)

lemma rq_update_items [simp]: "waiting_queue_items (rq_update_prefill_served ps cs q) = waiting_queue_items q"
  unfolding rq_update_prefill_served_def by (induction ps arbitrary: q) auto

lemma w_update_prefill_Inr:
  assumes "w_update_prefill ps cs w = Inr w'" "w_ok w" "\<forall>p \<in> set ps. w_knows w (fst p)"
  shows "w_ok w' \<and> w_items w' = w_items w"
proof (cases w)
  case (WCpi q)
  with assms update_prefill_ok [of q ps cs] show ?thesis by (auto simp: cq_items_def cq_iter_def)
qed (use assms in auto)

text \<open>
  The steps of the engine that reach the scheduler, in any order: requests arrive, a scheduling step is taken, the model's
  output changes the running groups (\<open>f\<close> appends tokens and finishes sequences), prefills are charged, finished groups are
  swept, their ids collected, requests aborted.  \<open>ins\<close> are the ids of the requests that arrived, \<open>outs\<close> the ids handed back,
  ignored or finished.

  The configured policy is first come first served, the default, under either kind of queue.  The priority policy is
  outside these runs: \<open>schedule_priority_preemption\<close> models it, but it replaces the waiting queue by a plain \<open>deque\<close> that
  the rest of the scheduler cannot use (\<open>WPlain\<close>), and queues groups as waiting that were swapped out.
\<close>

inductive sched_run ::
  "(((int list \<times> int list option) \<times> int) \<Rightarrow> int) \<Rightarrow> (bref list \<Rightarrow> bref list) \<Rightarrow> string multiset \<Rightarrow> string multiset \<Rightarrow> scheduler \<Rightarrow> bool"
  for hsh so where
  start: "\<not> cfg_priority cfg \<Longrightarrow>
     sched_run hsh so {#} {#} (new_scheduler cfg fair (cq_init hw pw dw et) (rq_init hw pw dw) bm)"
| arrive: "sched_run hsh so ins outs sc \<Longrightarrow> in_status WAITING g \<Longrightarrow> add_seq_group g sc = Inr sc' \<Longrightarrow>
     sched_run hsh so (add_mset (request_id g) ins) outs sc'"
| step: "sched_run hsh so ins outs sc \<Longrightarrow> cb_ok cb \<Longrightarrow> schedule hsh so cb clk now sc = Inr (mds, out, al, sc') \<Longrightarrow>
     sched_run hsh so ins (outs + ids_of (so_ignored out)) sc'"
| produce: "sched_run hsh so ins outs sc \<Longrightarrow> cb_ok f \<Longrightarrow> sched_run hsh so ins outs (sc\<lparr>sc_running := map f (sc_running sc)\<rparr>)"
| charge: "sched_run hsh so ins outs sc \<Longrightarrow> \<forall>p \<in> set ps. w_knows (sc_waiting sc) (fst p) \<Longrightarrow>
     w_update_prefill ps cs (sc_waiting sc) = Inr w \<Longrightarrow> sched_run hsh so ins outs (sc\<lparr>sc_waiting := w\<rparr>)"
| sweep: "sched_run hsh so ins outs sc \<Longrightarrow> free_finished_seq_groups so sc = Inr sc' \<Longrightarrow> sched_run hsh so ins outs sc'"
| collect: "sched_run hsh so ins outs sc \<Longrightarrow> reset_finished_ids sc = (fs, sc') \<Longrightarrow> sched_run hsh so ins (outs + mset fs) sc'"
| abort: "sched_run hsh so ins outs sc \<Longrightarrow> abort_seq_group so ids sc = Inr sc' \<Longrightarrow> sched_run hsh so ins outs sc'"

lemma sched_run_inv:
  "sched_run hsh so ins outs sc \<Longrightarrow> queues_ok sc \<and> ins = outs + sched_ids sc \<and> \<not> cfg_priority (sc_cfg sc)"
proof (induction rule: sched_run.induct)
  case (start cfg fair hw pw dw et bm)
  then show ?case
    by (auto simp: new_scheduler_def queues_ok_def sched_ids_def w_items_def cq_ok_init rq_init_def cq_iter_def cq_init_def cq_ok_def)
next
  case (arrive ins outs sc g sc')
  with add_seq_group_Inr [of g sc sc'] show ?case by auto
next
  case (step ins outs sc cb clk now mds out al sc')
  with schedule_Inr [OF step.hyps(3)] show ?case by (auto simp: ac_simps)
next
  case (produce ins outs sc f)
  have "ids_of (map f (sc_running sc)) = ids_of (sc_running sc)"
    using produce.hyps(2) by (simp add: ids_of_def cb_ok_def comp_def flip: mset_map)
  with produce show ?case by (auto simp: queues_ok_def sched_ids_def cb_ok_def)
next
  case (charge ins outs sc ps w cs)
  with w_update_prefill_Inr [OF charge.hyps(3)] show ?case by (auto simp: queues_ok_def sched_ids_def)
next
  case (sweep ins outs sc sc')
  with free_finished_groups_Inr [OF sweep.hyps(2)] show ?case by auto
next
  case (collect ins outs sc fs sc')
  then show ?case by (auto simp: reset_finished_ids_def queues_ok_def sched_ids_def ac_simps)
next
  case (abort ins outs sc ids sc')
  obtain a1 ids1 a2 ids2 a3 ids3 where "pick_aborted (w_iter (sc_waiting sc)) ids = (a1, ids1)"
    "pick_aborted (sc_running sc) ids1 = (a2, ids2)" "pick_aborted (sc_swapped sc) ids2 = (a3, ids3)" by (metis surj_pair)
  with abort abort_Inr(1) [OF abort.hyps(2) _ this] show ?case by auto
qed

lemma distinct_if_sub:
  assumes "mset xs \<subseteq># M" "\<forall>i. count M i \<le> 1"
  shows "distinct xs"
  unfolding distinct_count_atmost_1
proof
  fix i
  have "count (mset xs) i \<le> 1" using mset_subset_eq_count [OF assms(1), of i] assms(2) by (meson le_trans)
  then show "count (mset xs) i = (if i \<in> set xs then 1 else 0)" using count_greater_zero_iff [of "mset xs" i] by (cases "i \<in> set xs") (auto simp: le_Suc_eq)
qed

definition held :: "scheduler \<Rightarrow> seq_group list" where
  "held sc = w_iter (sc_waiting sc) @ sc_running sc @ sc_swapped sc @ sc_async_stopped sc"

lemma sched_ids_held: "sched_ids sc = mset (map request_id (held sc) @ sc_finished sc)"
  by (simp add: sched_ids_def held_def ids_of_def w_items_def)

text \<open>
  C14.  No request is lost or doubled.  In every run of the scheduler without the priority policy, whatever the order of arrivals, scheduling steps,
  preemptions, swaps, finished and aborted requests, the requests that arrived are those handed back as ignored or finished
  together with those the scheduler holds; and when no two requests arrived under the same id, each held request is in one
  place only: the waiting, the running or the swapped queue, the stopped list or the list of finished ids.
\<close>

theorem requests_in_one_place:
  assumes "sched_run hsh so ins outs sc" "\<forall>i. count ins i \<le> 1"
  shows "ins = outs + mset (map request_id (held sc)) + mset (sc_finished sc) \<and> distinct (map request_id (held sc) @ sc_finished sc)"
proof
  from sched_run_inv [OF assms(1)] have e: "ins = outs + mset (map request_id (held sc) @ sc_finished sc)"
    by (simp add: sched_ids_held)
  then show "ins = outs + mset (map request_id (held sc)) + mset (sc_finished sc)" by simp
  have "mset (map request_id (held sc) @ sc_finished sc) \<subseteq># ins" unfolding e by simp
  from distinct_if_sub [OF this assms(2)] show "distinct (map request_id (held sc) @ sc_finished sc)" .
qed

text \<open>
  C16.  The queue a request is in tells the status of its sequences: in every run, the unfinished sequences of a waiting
  request wait, those of a running one run, those of a swapped one are swapped out.  The runs are those of
  \<open>sched_run\<close>, in which the priority policy is off; it breaks the rule, as \<open>_preempt\<close> ignores the mode it is
  given and swaps out a group of several sequences that is then queued as waiting.
\<close>

theorem queue_tells_status:
  assumes "sched_run hsh so ins outs sc"
  shows "(\<forall>g \<in> set (w_iter (sc_waiting sc)). in_status WAITING g) \<and> (\<forall>g \<in> set (sc_running sc). in_status RUNNING g)
     \<and> (\<forall>g \<in> set (sc_swapped sc). in_status SWAPPED g)"
  using sched_run_inv [OF assms] by (simp add: queues_ok_def w_items_def)

lemma pick_aborted_filter:
  "distinct (map request_id gs) \<Longrightarrow> pick_aborted gs ids = (filter (\<lambda>g. request_id g \<in> ids) gs, ids - request_id ` set gs)"
proof (induction gs arbitrary: ids)
  case (Cons g gs)
  have "filter (\<lambda>h. request_id h \<in> ids - {request_id g}) gs = filter (\<lambda>h. request_id h \<in> ids) gs"
    using Cons.prems by (intro filter_cong) (auto, metis image_eqI)
  with Cons show ?case by auto
qed simp

lemma mset_filter_out: "mset gs - mset (filter P gs) = mset (filter (\<lambda>g. \<not> P g) gs)"
  by (induction gs) (auto simp: add_mset_diff_bothsides)

text \<open>
  C17.  Aborting is exact: the requests with one of the given ids leave whichever queue they are in, all others stay, and the
  aborted ids are reported as finished.
\<close>

theorem abort_exact:
  assumes "sched_run hsh so ins outs sc" "\<forall>i. count ins i \<le> 1" "abort_seq_group so ids sc = Inr sc'"
  shows "w_items (sc_waiting sc') = filter_mset (\<lambda>g. request_id g \<notin> ids) (w_items (sc_waiting sc))
     \<and> mset (sc_running sc') = filter_mset (\<lambda>g. request_id g \<notin> ids) (mset (sc_running sc))
     \<and> mset (sc_swapped sc') = filter_mset (\<lambda>g. request_id g \<notin> ids) (mset (sc_swapped sc))
     \<and> sc_finished sc' = sc_finished sc
         @ filter (\<lambda>i. i \<in> ids) (map request_id (w_iter (sc_waiting sc) @ sc_running sc @ sc_swapped sc))"
proof -
  have "mset (map request_id (held sc)) \<subseteq># ins"
    using sched_run_inv [OF assms(1)] by (simp add: sched_ids_held)
  from distinct_if_sub [OF this assms(2)] have d: "distinct (map request_id (held sc))" .
  let ?W = "w_iter (sc_waiting sc)" and ?R = "sc_running sc" and ?S = "sc_swapped sc"
  define f where "f = (\<lambda>g :: seq_group. request_id g \<in> ids)"
  have dis: "distinct (map request_id ?W)" "distinct (map request_id ?R)" "distinct (map request_id ?S)"
    "request_id ` set ?W \<inter> request_id ` set ?R = {}" "request_id ` set ?W \<inter> request_id ` set ?S = {}"
    "request_id ` set ?R \<inter> request_id ` set ?S = {}" using d unfolding held_def by auto
  have R: "filter (\<lambda>g. request_id g \<in> ids - request_id ` set ?W) ?R = filter f ?R"
    using dis(4) unfolding f_def by (intro filter_cong) auto
  have S: "filter (\<lambda>g. request_id g \<in> ids - request_id ` set ?W - request_id ` set ?R) ?S = filter f ?S"
    using dis(5,6) unfolding f_def by (intro filter_cong) auto
  note p = pick_aborted_filter [OF dis(1), of ids] pick_aborted_filter [OF dis(2), of "ids - request_id ` set ?W", unfolded R]
    pick_aborted_filter [OF dis(3), of "ids - request_id ` set ?W - request_id ` set ?R", unfolded S]
  have q: "queues_ok sc" using sched_run_inv [OF assms(1)] by simp
  note a = abort_Inr(2-5) [OF assms(3) q p]
  have "map request_id (filter f xs) = filter (\<lambda>i. i \<in> ids) (map request_id xs)" for xs
    by (simp add: f_def filter_map comp_def)
  then show ?thesis using a by (simp add: f_def mset_filter_out w_items_def flip: mset_filter)
qed

section \<open>A small run\<close>

text \<open>Two requests of two clients arrive and one step is taken: the first client's request runs.\<close>

definition demo_cfg :: sched_config where
  "demo_cfg = \<lparr>cfg_max_batched = 64, cfg_max_num_seqs = 4, cfg_max_model_len = 64, cfg_lookahead = 0, cfg_delay_factor = 0, cfg_chunked = False,
     cfg_priority = False, cfg_preemption = None, cfg_prefix_caching = False, cfg_block_size = 16, cfg_max_loras = None, cfg_long_lora = (\<lambda>_. None),
     cfg_async = False, cfg_send_delta = False\<rparr>"

definition demo_req :: "int \<Rightarrow> int \<Rightarrow> string \<Rightarrow> seq_group" where
  "demo_req c i rid = new_seq_group rid [demo_seq i WAITING] 0
     (Some \<lparr>sp_client_id = Some c, sp_best_of = 1, sp_use_beam_search = False, sp_preempted = False\<rparr>) None None 0"

definition demo_start :: scheduler where
  "demo_start = new_scheduler demo_cfg True (cq_init 0 1 1 1) (rq_init 0 1 1) demo_mgr"

definition demo_arrived :: "scheduler result" where
  "demo_arrived = bindr (add_seq_group (demo_req 7 1 ''a'') demo_start) (add_seq_group (demo_req 8 2 ''b''))"

definition demo_step :: "scheduler \<Rightarrow> (seq_metadata list \<times> sched_outputs \<times> bool \<times> scheduler) result" where
  "demo_step = schedule (\<lambda>_. 0) remdups (\<lambda>g. g) (\<lambda>_. 1) 1"

lemma cb_ok_id [simp]: "cb_ok (\<lambda>g. g)"
  by (simp add: cb_ok_def)

lemma in_status_demo_req [simp]: "in_status WAITING (demo_req c i rid)" "request_id (demo_req c i rid) = rid"
  by (simp_all add: in_status_def demo_req_def demo_defs)

lemma demo_run_evaluates:
  "(case bindr demo_arrived demo_step of Inl e \<Rightarrow> False
    | Inr (mds, out, al, sc) \<Rightarrow> map request_id (sc_running sc) = [''a''] \<and> map request_id (w_iter (sc_waiting sc)) = [''b''] \<and> so_ignored out = []
        \<and> (case abort_seq_group remdups {''b''} sc of Inl e \<Rightarrow> False | Inr sc' \<Rightarrow> w_iter (sc_waiting sc') = []))"
  by code_simp

lemma demo_run_reached:
  obtains sc sc' where "sched_run (\<lambda>_. 0) remdups {#''b'', ''a''#} {#} sc" "map request_id (sc_running sc) = [''a'']"
    "map request_id (w_iter (sc_waiting sc)) = [''b'']" "abort_seq_group remdups {''b''} sc = Inr sc'"
proof -
  obtain sc1 sc2 mds out al sc3 sc4 where s: "add_seq_group (demo_req 7 1 ''a'') demo_start = Inr sc1" "add_seq_group (demo_req 8 2 ''b'') sc1 = Inr sc2"
    "demo_step sc2 = Inr (mds, out, al, sc3)" "map request_id (sc_running sc3) = [''a'']" "map request_id (w_iter (sc_waiting sc3)) = [''b'']"
    "so_ignored out = []" "abort_seq_group remdups {''b''} sc3 = Inr sc4"
    using demo_run_evaluates unfolding demo_arrived_def
    by (auto simp: bindr_Inl_iff split: sum.splits) (metis sumE)
  have "sched_run (\<lambda>_. 0) remdups {#} {#} demo_start"
    unfolding demo_start_def by (rule sched_run.start) (simp add: demo_cfg_def)
  from sched_run.arrive [OF this in_status_demo_req(1) s(1)] have "sched_run (\<lambda>_. 0) remdups {#''a''#} {#} sc1" by simp
  from sched_run.arrive [OF this in_status_demo_req(1) s(2)] have "sched_run (\<lambda>_. 0) remdups {#''b'', ''a''#} {#} sc2" by simp
  from sched_run.step [OF this cb_ok_id s(3) [unfolded demo_step_def]] s(6) have "sched_run (\<lambda>_. 0) remdups {#''b'', ''a''#} {#} sc3" by simp
  then show thesis using s(4,5,7) by (rule that)
qed

lemma requests_in_one_place_witness:
  "\<exists>sc. map request_id (sc_running sc) = [''a''] \<and> {#''b'', ''a''#} = mset (map request_id (held sc)) + mset (sc_finished sc)
     \<and> distinct (map request_id (held sc) @ sc_finished sc)"
proof -
  obtain sc sc' where s: "sched_run (\<lambda>_. 0) remdups {#''b'', ''a''#} {#} sc" "map request_id (sc_running sc) = [''a'']"
    by (rule demo_run_reached)
  from requests_in_one_place [OF s(1)] s(2) show ?thesis by (intro exI [of _ sc]) simp
qed

lemma queue_tells_status_witness:
  "\<exists>sc :: scheduler. map request_id (sc_running sc) = [''a''] \<and> (\<forall>g \<in> set (sc_running sc). in_status RUNNING g)"
proof -
  obtain sc sc' where s: "sched_run (\<lambda>_. 0) remdups {#''b'', ''a''#} {#} sc" "map request_id (sc_running sc) = [''a'']"
    by (rule demo_run_reached)
  from queue_tells_status [OF s(1)] s(2) show ?thesis by (intro exI [of _ sc]) blast
qed

lemma abort_exact_witness:
  "\<exists>sc sc'. map request_id (w_iter (sc_waiting sc)) = [''b''] \<and> abort_seq_group remdups {''b''} sc = Inr sc'
     \<and> w_items (sc_waiting sc') = {#} \<and> mset (sc_running sc') = mset (sc_running sc)"
proof -
  obtain sc sc' where s: "sched_run (\<lambda>_. 0) remdups {#''b'', ''a''#} {#} sc" "map request_id (sc_running sc) = [''a'']"
    "map request_id (w_iter (sc_waiting sc)) = [''b'']" "abort_seq_group remdups {''b''} sc = Inr sc'" by (rule demo_run_reached)
  have "filter_mset (\<lambda>g. request_id g \<notin> {''b''}) (w_items (sc_waiting sc)) = {#}"
    using s(3) by (auto simp: w_items_def)
  moreover have "filter_mset (\<lambda>g. request_id g \<notin> {''b''}) (mset (sc_running sc)) = mset (sc_running sc)"
    using s(2) by auto
  ultimately show ?thesis using abort_exact [OF s(1) _ s(4)] s(3,4) by (intro exI [of _ sc] exI [of _ sc']) simp
qed

end
