(* ===== verification/Scheduler_Fairness.thy ===== *)
theory Scheduler_Fairness
  imports Scheduler_Laws
begin

text \<open>
  The scheduler together with the fair queue: whose request a step starts, what a step may contain, and what it charges.
\<close>

section \<open>Whose request is started\<close>

text \<open>The started form of a waiting group, and the ignored one.\<close>

definition ignored_form :: "seq_group \<Rightarrow> seq_group" where
  "ignored_form g = set_status WAITING FINISHED_IGNORED g"

definition started_form :: "seq_group \<Rightarrow> seq_group" where
  "started_form g = init_multi_step 1 (set_status WAITING RUNNING g)"

text \<open>
  The state of the prefill loop after popping the groups \<open>hs\<close> from \<open>w0\<close>: all of them were ignored, but at most one, which was started.
\<close>

definition taken :: "seq_group list \<Rightarrow> (seq_group \<times> int) list \<Rightarrow> seq_group list \<Rightarrow> bool" where
  "taken hs started ignored \<longleftrightarrow> started = [] \<and> ignored = map ignored_form hs
     \<or> (\<exists>gs g rest n. hs = gs @ g # rest \<and> started = [(started_form g, n)] \<and> ignored = map ignored_form (gs @ rest))"

definition popped :: "waiting \<Rightarrow> seq_group list \<Rightarrow> prefill_state \<Rightarrow> bool" where
  "popped w0 hs st \<longleftrightarrow> drain w_popleft (length hs) w0 = Inr (hs, sc_waiting (ps_sc st)) \<and> ps_leftover st = []
     \<and> taken hs (ps_groups st) (ps_ignored st)"

lemma taken_ignore: "taken hs started ignored \<Longrightarrow> taken (hs @ [h]) started (ignored @ [ignored_form h])"
  unfolding taken_def
proof (elim disjE exE conjE)
  fix gs g rest n
  assume "hs = gs @ g # rest" "started = [(started_form g, n)]" "ignored = map ignored_form (gs @ rest)"
  then show "started = [] \<and> ignored @ [ignored_form h] = map ignored_form (hs @ [h])
     \<or> (\<exists>gs g rest n. hs @ [h] = gs @ g # rest \<and> started = [(started_form g, n)] \<and> ignored @ [ignored_form h] = map ignored_form (gs @ rest))"
    by (intro disjI2 exI [of _ gs] exI [of _ g] exI [of _ "rest @ [h]"] exI [of _ n]) simp
qed simp

lemma taken_start: "taken hs [] ignored \<Longrightarrow> taken (hs @ [h]) [(started_form h, n)] ignored"
  unfolding taken_def by (intro disjI2 exI [of _ hs] exI [of _ h] exI [of _ "[]"] exI [of _ n]) simp

lemma taken_Nil [simp]: "taken [] [] []"
  by (simp add: taken_def)

lemma drain_snoc:
  "drain pop n q = Inr (gs, q1) \<Longrightarrow> pop q1 = Inr (g, q2) \<Longrightarrow> drain pop (Suc n) q = Inr (gs @ [g], q2)"
  by (induction n arbitrary: q gs) (auto split: prod.splits)

lemma drain_split:
  "drain pop (length (gs @ hs)) q = Inr (gs @ hs, q2) \<Longrightarrow> \<exists>q1. drain pop (length gs) q = Inr (gs, q1) \<and> drain pop (length hs) q1 = Inr (hs, q2)"
  by (induction gs arbitrary: q) (auto split: prod.splits)

lemma drop_first_popped:
  assumes "drop_first st = Inr st'" "w_first (sc_waiting (ps_sc st)) = Inr g" "drain w_popleft (length hs) w0 = Inr (hs, sc_waiting (ps_sc st))"
  shows "drain w_popleft (length (hs @ [g])) w0 = Inr (hs @ [g], sc_waiting (ps_sc st'))"
    "ps_groups st' = ps_groups st" "ps_ignored st' = ps_ignored st" "ps_leftover st' = ps_leftover st" "sc_cfg (ps_sc st') = sc_cfg (ps_sc st)"
proof -
  from assms(1) obtain h w where w: "w_popleft (sc_waiting (ps_sc st)) = Inr (h, w)" "st' = st\<lparr>ps_sc := (ps_sc st)\<lparr>sc_waiting := w\<rparr>\<rparr>"
    by (auto simp: drop_first_def)
  from w_first_popleft [OF assms(2) w(1)] have "h = g" .
  with drain_snoc [OF assms(3), of h w] w show "drain w_popleft (length (hs @ [g])) w0 = Inr (hs @ [g], sc_waiting (ps_sc st'))"
    "ps_groups st' = ps_groups st" "ps_ignored st' = ps_ignored st" "ps_leftover st' = ps_leftover st" "sc_cfg (ps_sc st') = sc_cfg (ps_sc st)"
    by simp_all
qed

lemma started_form_any: "init_multi_step (num_lookahead True cfg + 1) (set_status WAITING RUNNING g) = started_form g"
  by (simp add: started_form_def num_lookahead_def)

lemma prefill_round_popped:
  assumes r: "prefill_round hsh chunk g st = Inr (cont, st')" and g: "w_first (sc_waiting (ps_sc st)) = Inr g"
    and p: "popped w0 hs st" and lora: "cfg_max_loras (sc_cfg (ps_sc st)) = None"
  shows "\<exists>hs'. popped w0 hs' st' \<and> cfg_max_loras (sc_cfg (ps_sc st')) = None"
  using r
proof (cases rule: prefill_round_cases)
  case stop
  with p lora show ?thesis by blast
next
  case ignored
  define st1 where "st1 = st\<lparr>ps_ignored := ps_ignored st @ [set_status WAITING FINISHED_IGNORED g]\<rparr>"
  have d: "drop_first st1 = Inr st'" "w_first (sc_waiting (ps_sc st1)) = Inr g" "drain w_popleft (length hs) w0 = Inr (hs, sc_waiting (ps_sc st1))"
    using ignored g p by (simp_all add: ignore_group_def st1_def popped_def)
  note e = drop_first_popped [OF d]
  have "popped w0 (hs @ [g]) st'"
    unfolding popped_def e(1) using p e(2-4) taken_ignore [of hs _ _ g] by (simp add: popped_def st1_def ignored_form_def)
  with e(5) lora show ?thesis by (auto simp: st1_def)
next
  case aside
  with lora show ?thesis by (simp add: lora_full_def)
next
  case (started n k)
  define st0 where "st0 = st\<lparr>ps_loras := lora_join (sc_cfg (ps_sc st)) g (ps_loras st)\<rparr>"
  from started(2) obtain st1 g1 sc1 where d: "drop_first st0 = Inr st1" "allocate_and_set_running hsh g (ps_sc st1) = Inr (g1, sc1)"
    and st': "ps_groups st' = ps_groups st1 @ [(init_multi_step (num_lookahead True (sc_cfg sc1) + 1) g1, n)]" "ps_sc st' = sc1"
      "ps_ignored st' = ps_ignored st1" "ps_leftover st' = ps_leftover st1"
    by (auto simp: start_prefill_def st0_def Let_def)
  have f: "w_first (sc_waiting (ps_sc st0)) = Inr g" "drain w_popleft (length hs) w0 = Inr (hs, sc_waiting (ps_sc st0))"
    using g p by (simp_all add: st0_def popped_def)
  note e = drop_first_popped [OF d(1) f]
  from allocate_Inr [OF d(2)] obtain bm where a: "g1 = set_status WAITING RUNNING g" "sc1 = (ps_sc st1)\<lparr>sc_bm := bm\<rparr>" by blast
  have "popped w0 (hs @ [g]) st'"
    unfolding popped_def using e st' a p started(3) taken_start [of hs _ g n] by (simp add: popped_def st0_def started_form_any)
  with e(5) a(2) st'(2) lora show ?thesis by (auto simp: st0_def)
qed

lemma prefill_loop_popped:
  assumes "prefill_loop hsh chunk clk i fuel st = Inr st'" "popped w0 hs st" "cfg_max_loras (sc_cfg (ps_sc st)) = None"
  shows "\<exists>hs'. popped w0 hs' st'"
  using assms
proof (induction fuel arbitrary: i st hs)
  case (Suc fuel)
  from Suc.prems(1) obtain p sc1 where p: "passed_delay (clk i) (ps_sc st) = Inr (p, sc1)" by auto
  with Suc.prems(1) have rest: "(let st1 = st\<lparr>ps_sc := sc1\<rparr> in
       if \<not> p \<or> \<not> w_bool (sc_waiting sc1) then Inr st1
       else bindr (w_first (sc_waiting sc1)) (\<lambda>g. bindr (prefill_round hsh chunk g st1) (\<lambda>(cont, st2).
           if cont then prefill_loop hsh chunk clk (Suc i) fuel st2 else Inr st2))) = Inr st'"
    by (simp only: prefill_loop.simps bindr.simps prod.case)
  define st1 where "st1 = st\<lparr>ps_sc := sc1\<rparr>"
  have st1: "popped w0 hs st1" "cfg_max_loras (sc_cfg (ps_sc st1)) = None"
    using passed_delay_Inr [OF p] Suc.prems(2,3) by (simp_all add: st1_def popped_def same_queues_def)
  show ?case
  proof (cases "\<not> p \<or> \<not> w_bool (sc_waiting sc1)")
    case True
    with rest st1 show ?thesis by (auto simp: st1_def)
  next
    case False
    with rest obtain g cont st2 where g: "w_first (sc_waiting sc1) = Inr g" "prefill_round hsh chunk g st1 = Inr (cont, st2)"
      "(if cont then prefill_loop hsh chunk clk (Suc i) fuel st2 else Inr st2) = Inr st'"
      unfolding Let_def st1_def [symmetric] by (auto simp del: prefill_loop.simps)
    have "w_first (sc_waiting (ps_sc st1)) = Inr g" using g(1) by (simp add: st1_def)
    from prefill_round_popped [OF g(2) this st1] obtain hs2 where "popped w0 hs2 st2" "cfg_max_loras (sc_cfg (ps_sc st2)) = None" by blast
    with g(3) Suc.IH [of "Suc i" st2 hs2] show ?thesis by (cases cont) auto
  qed
qed simp

lemma schedule_prefills_popped:
  assumes "schedule_prefills hsh chunk clk sc b loras = Inr ps" "cfg_max_loras (sc_cfg sc) = None"
  shows "\<exists>hs. popped (sc_waiting sc) hs ps"
proof -
  define st0 where "st0 = \<lparr>ps_sc = sc, ps_budget = b, ps_loras = loras, ps_groups = [], ps_ignored = [], ps_leftover = []\<rparr>"
  from assms(1) obtain st1 w where r: "prefill_loop hsh chunk clk 0 (Suc (length (w_iter (sc_waiting sc)))) st0 = Inr st1"
    "w_extendleft (ps_leftover st1) (sc_waiting (ps_sc st1)) = Inr w"
    "ps = (let sc1 = (ps_sc st1)\<lparr>sc_waiting := w\<rparr> in
       st1\<lparr>ps_sc := (if ps_groups st1 \<noteq> [] then sc1\<lparr>sc_prev_prompt := True\<rparr> else sc1)\<rparr>)"
    by (auto simp: schedule_prefills_def st0_def Let_def simp del: prefill_loop.simps)
  have "popped (sc_waiting sc) [] st0" by (simp add: popped_def st0_def)
  from prefill_loop_popped [OF r(1) this] assms(2) obtain hs where p: "popped (sc_waiting sc) hs st1" by (auto simp: st0_def)
  then have "ps_leftover st1 = []" by (simp add: popped_def)
  with w_extendleft_fold [OF r(2)] have "w = sc_waiting (ps_sc st1)" by simp
  with p r(3) have "popped (sc_waiting sc) hs ps" by (simp add: popped_def Let_def)
  then show ?thesis ..
qed

lemma cq_popleft_Inr:
  assumes "cq_popleft q = Inr (g, q')" "cq_ok q"
  obtains c rest where "waiting_of q c = g # rest" "\<forall>k. backlogged q k \<longrightarrow> score q c \<le> score q k" "score q' = score q" "cq_ok q'"
    "decode_weight q' = decode_weight q" "served q' = served q"
proof -
  have "\<exists>k. backlogged q k" using cq_popleft_empty [OF assms(2)] assms(1) by auto
  then obtain k where "backlogged q k" ..
  from cq_popleft_eq [OF assms(2) this] obtain c h rest q1 where *: "select_client (served q) (client_waiting_queues q) = Inr c"
    "cq_popleft q = Inr (h, q1)" "waiting_of q c = h # rest" "cq_ok q1" "score q1 = score q" "served q1 = served q" by metis
  have "decode_weight q' = decode_weight q" using assms(1) by (auto simp: cq_popleft_def neq_Nil_conv split: list.splits)
  with * assms(1) select_client_min(2) [OF assms(2) *(1)] show thesis by (intro that) auto
qed

lemma drain_cpi:
  "drain w_popleft n (WCpi q) = Inr (gs, w') \<Longrightarrow> cq_ok q \<Longrightarrow>
     \<exists>q'. w' = WCpi q' \<and> drain cq_popleft n q = Inr (gs, q') \<and> cq_ok q' \<and> score q' = score q \<and> decode_weight q' = decode_weight q \<and> served q' = served q"
proof (induction n arbitrary: q gs)
  case (Suc n)
  then obtain g q1 hs where g: "cq_popleft q = Inr (g, q1)" "drain w_popleft n (WCpi q1) = Inr (hs, w')" "gs = g # hs" by auto
  from cq_popleft_Inr [OF g(1) Suc.prems(2)] have "score q1 = score q" "cq_ok q1" "decode_weight q1 = decode_weight q" "served q1 = served q" by metis+
  with Suc.IH [OF g(2)] g show ?case by auto
qed simp

lemma taken_groups:
  assumes "taken hs started ignored" "started \<noteq> []"
  obtains gs g rest n where "hs = gs @ g # rest" "started = [(started_form g, n)]" "ignored = map ignored_form (gs @ rest)"
  using assms unfolding taken_def by blast

text \<open>
  C13.  A step that starts a prompt starts one only, of the client served least.  With the fair queue and no LoRA adapters: the requests
  popped before it are reported as ignored (too long, or never to fit), none is skipped; it is the oldest waiting request of a client
  whose score is the lowest among the clients with a waiting request at that moment; the step contains nothing else, no decode,
  no swap, no copy.
\<close>

theorem step_starts_least_served:
  assumes "schedule_default hsh so cb clk sc = Inr (out, sc')" "\<not> cfg_priority (sc_cfg sc)" "cfg_max_loras (sc_cfg sc) = None"
    and "sc_waiting sc = WCpi q" "cq_ok q" "so_prefills out \<noteq> 0"
  shows "\<exists>gs q1 c g rest n. drain cq_popleft (length gs) q = Inr (gs, q1) \<and> take (length gs) (so_ignored out) = map ignored_form gs
     \<and> waiting_of q1 c = g # rest \<and> (\<forall>k. backlogged q1 k \<longrightarrow> score q c \<le> score q k)
     \<and> so_groups out = [(started_form g, n)] \<and> so_swap_in out = [] \<and> so_swap_out out = [] \<and> so_copy out = []"
proof -
  from assms(1) obtain ps rs st where d: "default_phases hsh so cb clk sc = Inr (ps, rs, st)" "default_commit (ps, rs, st) = Inr (out, sc')"
    by (auto simp: schedule_default_def)
  from d(2) show ?thesis
  proof (cases rule: default_commit_unfold)
    case c: (1 w w2)
    have ne: "ps_groups ps \<noteq> []" using c(9) assms(6) by auto
    from d(1) assms(2) show ?thesis
    proof (cases rule: default_phases_unfold)
      case (decode ps b loras rs st)
      with ne show ?thesis by simp
    next
      case (prefill ps' b loras)
      then have [simp]: "ps' = ps" and rest: "rs_decodes rs = []" "ss_decodes st = []" "rs_swaps rs = []" "ss_swaps st = []" "rs_copies rs = []"
        "ss_copies st = []" "ss_infeasible st = []" by (auto simp: empty_running_def empty_swapped_def)
      from schedule_prefills_popped [OF prefill(1) assms(3)] obtain hs where p: "popped (WCpi q) hs ps" by (auto simp: assms(4))
      then obtain gs g later n where t: "hs = gs @ g # later" "ps_groups ps = [(started_form g, n)]" "ps_ignored ps = map ignored_form (gs @ later)"
        using ne taken_groups unfolding popped_def by metis
      from p t(1) have "drain w_popleft (length (gs @ g # later)) (WCpi q) = Inr (gs @ g # later, sc_waiting (ps_sc ps))"
        by (simp add: popped_def)
      from drain_split [OF this] obtain w1 where w1: "drain w_popleft (length gs) (WCpi q) = Inr (gs, w1)"
        "drain w_popleft (length (g # later)) w1 = Inr (g # later, sc_waiting (ps_sc ps))" by blast
      from drain_cpi [OF w1(1) assms(5)] obtain q1 where q1: "w1 = WCpi q1" "drain cq_popleft (length gs) q = Inr (gs, q1)" "cq_ok q1" "score q1 = score q"
        by blast
      from w1(2) q1(1) obtain q2 where "cq_popleft q1 = Inr (g, q2)" by auto
      from cq_popleft_Inr [OF this q1(3)] obtain k rest' where k: "waiting_of q1 k = g # rest'" "\<forall>j. backlogged q1 j \<longrightarrow> score q1 k \<le> score q1 j"
        by metis
      have "so_groups out = [(started_form g, n)]" using c(6) t(2) rest by simp
      moreover have "take (length gs) (so_ignored out) = map ignored_form gs" using c(8) t(3) rest by simp
      ultimately show ?thesis
        using c(7,10,11) rest q1 k by (intro exI [of _ gs] exI [of _ q1] exI [of _ k] exI [of _ g] exI [of _ rest'] exI [of _ n]) auto
    qed
  qed
qed

section \<open>What a step charges\<close>

text \<open>Queues of the same kind whose scores agree.\<close>

definition same_scores :: "waiting \<Rightarrow> waiting \<Rightarrow> bool" where
  "same_scores w w' \<longleftrightarrow> (\<forall>q. w = WCpi q \<longrightarrow> (\<exists>q'. w' = WCpi q' \<and> score q' = score q \<and> decode_weight q' = decode_weight q))"

lemma same_scores_refl [simp]: "same_scores w w"
  by (simp add: same_scores_def)

lemma same_scores_trans: "same_scores a b \<Longrightarrow> same_scores b c \<Longrightarrow> same_scores a c"
  by (fastforce simp: same_scores_def)

lemma w_popleft_scores: "w_popleft w = Inr (g, w') \<Longrightarrow> same_scores w w'"
  by (auto simp: same_scores_def cq_popleft_def neq_Nil_conv split: list.splits)

lemma w_appendleft_scores: "w_appendleft g w = Inr w' \<Longrightarrow> same_scores w w'"
  by (auto simp: same_scores_def cq_appendleft_def)

lemma w_extendleft_scores:
  assumes "w_extendleft gs w = Inr w'"
  shows "same_scores w w'"
  using w_extendleft_fold [OF assms]
  by (rule foldM_invariant [where P = "same_scores w"]) (auto intro: same_scores_trans w_appendleft_scores)

lemma drop_first_scores: "drop_first st = Inr st' \<Longrightarrow> same_scores (sc_waiting (ps_sc st)) (sc_waiting (ps_sc st'))"
  by (auto simp: drop_first_def w_popleft_scores)

lemma prefill_round_scores:
  assumes "prefill_round hsh chunk g st = Inr (cont, st')"
  shows "same_scores (sc_waiting (ps_sc st)) (sc_waiting (ps_sc st'))"
  using assms
proof (cases rule: prefill_round_cases)
  case ignored
  then show ?thesis by (auto simp: ignore_group_def dest!: drop_first_scores)
next
  case aside
  from drop_first_scores [OF this(2)] show ?thesis by simp
next
  case (started n k)
  then obtain st1 g1 sc1 where d: "drop_first (st\<lparr>ps_loras := lora_join (sc_cfg (ps_sc st)) g (ps_loras st)\<rparr>) = Inr st1"
    "allocate_and_set_running hsh g (ps_sc st1) = Inr (g1, sc1)" "ps_sc st' = sc1"
    by (auto simp: start_prefill_def Let_def)
  from drop_first_scores [OF d(1)] allocate_Inr [OF d(2)] d(3) show ?thesis by auto
qed simp

lemma prefill_loop_scores:
  assumes "prefill_loop hsh chunk clk i fuel st = Inr st'"
  shows "same_scores (sc_waiting (ps_sc st)) (sc_waiting (ps_sc st'))"
  using assms
proof (induction fuel arbitrary: i st)
  case (Suc fuel)
  from Suc.prems obtain p sc1 where p: "passed_delay (clk i) (ps_sc st) = Inr (p, sc1)" by auto
  with Suc.prems have rest: "(let st1 = st\<lparr>ps_sc := sc1\<rparr> in
       if \<not> p \<or> \<not> w_bool (sc_waiting sc1) then Inr st1
       else bindr (w_first (sc_waiting sc1)) (\<lambda>g. bindr (prefill_round hsh chunk g st1) (\<lambda>(cont, st2).
           if cont then prefill_loop hsh chunk clk (Suc i) fuel st2 else Inr st2))) = Inr st'"
    by (simp only: prefill_loop.simps bindr.simps prod.case)
  have w: "sc_waiting sc1 = sc_waiting (ps_sc st)" using passed_delay_Inr [OF p] by (simp add: same_queues_def)
  show ?case
  proof (cases "\<not> p \<or> \<not> w_bool (sc_waiting sc1)")
    case True
    with rest w show ?thesis by auto
  next
    case False
    with rest obtain g cont st2 where g: "prefill_round hsh chunk g (st\<lparr>ps_sc := sc1\<rparr>) = Inr (cont, st2)"
      "(if cont then prefill_loop hsh chunk clk (Suc i) fuel st2 else Inr st2) = Inr st'"
      unfolding Let_def by (auto simp del: prefill_loop.simps)
    from prefill_round_scores [OF g(1)] w have "same_scores (sc_waiting (ps_sc st)) (sc_waiting (ps_sc st2))" by simp
    with g(2) Suc.IH [of "Suc i" st2] show ?thesis by (cases cont) (auto intro: same_scores_trans)
  qed
qed simp

lemma schedule_prefills_scores:
  assumes "schedule_prefills hsh chunk clk sc b loras = Inr ps"
  shows "same_scores (sc_waiting sc) (sc_waiting (ps_sc ps))"
proof -
  define st0 where "st0 = \<lparr>ps_sc = sc, ps_budget = b, ps_loras = loras, ps_groups = [], ps_ignored = [], ps_leftover = []\<rparr>"
  from assms obtain st1 w where r: "prefill_loop hsh chunk clk 0 (Suc (length (w_iter (sc_waiting sc)))) st0 = Inr st1"
    "w_extendleft (ps_leftover st1) (sc_waiting (ps_sc st1)) = Inr w" "sc_waiting (ps_sc ps) = w"
    by (auto simp: schedule_prefills_def st0_def Let_def simp del: prefill_loop.simps)
  from prefill_loop_scores [OF r(1)] w_extendleft_scores [OF r(2)] r(3) show ?thesis
    by (auto simp: st0_def intro: same_scores_trans)
qed

definition groups_of :: "int \<Rightarrow> (seq_group \<times> int) multiset \<Rightarrow> nat" where
  "groups_of c M = size (filter_mset (\<lambda>p. client_id (fst p) = Inr c) M)"

lemma charge_decodes_scores:
  assumes "charge_decodes ps (WCpi q) = Inr w'"
  shows "\<exists>q'. w' = WCpi q' \<and> decode_weight q' = decode_weight q \<and> (\<forall>c. score q' c = score q c + decode_weight q * real (groups_of c (mset ps)))"
  using assms
proof (induction ps arbitrary: q)
  case (Cons p ps)
  then obtain k s where k: "client_id (fst p) = Inr k" "map_of (served q) k = Some s"
    and rest: "charge_decodes ps (WCpi (q\<lparr>served := AList.update k (s + decode_weight q) (served q)\<rparr>)) = Inr w'"
    by (auto simp: charge_decodes_def)
  have "score (q\<lparr>served := AList.update k (s + decode_weight q) (served q)\<rparr>) c = score q c + (if c = k then decode_weight q else 0)" for c
    using k(2) by (simp add: score_def dict_simps)
  with Cons.IH [OF rest] k(1) show ?case by (fastforce simp: groups_of_def algebra_simps)
qed (auto simp: charge_decodes_def groups_of_def)

text \<open>
  C15.  What a step charges.  A step that starts a prompt changes no score; a step that decodes adds \<open>decode_weight\<close> to the score of a
  client for each of its groups in the batch, and to no other score, whatever was ignored, preempted or swapped in the same step.
\<close>

theorem decode_step_charges:
  assumes "schedule_default hsh so cb clk sc = Inr (out, sc')" "\<not> cfg_priority (sc_cfg sc)" "cb_ok cb" "queues_ok sc" "sc_waiting sc = WCpi q"
  shows "\<exists>q'. sc_waiting sc' = WCpi q' \<and> (\<forall>c. score q' c = score q c
     + (if so_prefills out = 0 then decode_weight q * real (groups_of c (mset (so_groups out))) else 0))"
proof -
  from assms(1) obtain ps rs st where d: "default_phases hsh so cb clk sc = Inr (ps, rs, st)" "default_commit (ps, rs, st) = Inr (out, sc')"
    by (auto simp: schedule_default_def)
  have w: "same_scores (sc_waiting sc) (sc_waiting (ss_sc st))"
    using d(1) assms(2)
  proof (cases rule: default_phases_unfold)
    case (prefill ps' b loras)
    from schedule_prefills_scores [OF this(1)] prefill(4) show ?thesis by simp
  next
    case (decode ps' b loras rs' st')
    have p: "same_scores (sc_waiting sc) (sc_waiting (ps_sc ps))" "queues_ok (ps_sc ps)"
      using decode(1,5) schedule_prefills_scores [of hsh False clk sc b loras ps] schedule_prefills_Inr [of hsh False clk sc b loras ps] assms(4)
      by (auto split: if_split_asm)
    from decode(3,5) have "schedule_running hsh so cb False (ps_sc ps) (ps_budget ps) (ps_loras ps) = Inr rs" by simp
    note r = schedule_running_Inr [OF this assms(3) p(2)]
    have "sc_waiting (ss_sc st) = sc_waiting (rs_sc rs)"
      using decode(4,5) schedule_swapped_Inr [of hsh False "rs_sc rs" "rs_budget rs" "rs_loras rs" st] r
      by (auto simp: run_then_swap_def rs_ok_def split: if_split_asm)
    with p r show ?thesis by simp
  qed
  from d(2) show ?thesis
  proof (cases rule: default_commit_unfold)
    case c: (1 w1 w2)
    from w_extendleft_scores [OF c(1)] w have "same_scores (sc_waiting sc) w1" by (rule same_scores_trans [rotated])
    then obtain q1 where q1: "w1 = WCpi q1" "score q1 = score q" "decode_weight q1 = decode_weight q" using assms(5) by (auto simp: same_scores_def)
    show ?thesis
    proof (cases "ps_groups ps = []")
      case True
      with c(4) q1(1) have "charge_decodes (ps_groups ps @ rs_decodes rs @ ss_decodes st) (WCpi q1) = Inr w2" by simp
      from charge_decodes_scores [OF this] q1 c(5,6,9) True show ?thesis by (auto simp: returned_def)
    next
      case False
      with c(4,5,9) q1 show ?thesis by (auto simp: returned_def)
    qed
  qed
qed

section \<open>The small run again\<close>

text \<open>The model's output for a request of one prompt token: its prompt is computed.\<close>

definition demo_output :: "seq_group \<Rightarrow> seq_group" where
  "demo_output g = g\<lparr>seqs := map (\<lambda>s. s\<lparr>seq_data := (seq_data s)\<lparr>num_computed := 1, sd_stage := DECODE\<rparr>\<rparr>) (seqs g)\<rparr>"

definition demo_default :: "scheduler \<Rightarrow> (sched_outputs \<times> scheduler) result" where
  "demo_default = schedule_default (\<lambda>_. 0) remdups (\<lambda>g. g) (\<lambda>_. 1)"

definition demo_decoding :: "scheduler result" where
  "demo_decoding = bindr (add_seq_group (demo_req 7 1 ''a'') demo_start) (\<lambda>sc.
     bindr (demo_step sc) (\<lambda>(mds, out, al, sc1). Inr (sc1\<lparr>sc_running := map demo_output (sc_running sc1)\<rparr>)))"

lemma demo_default_evaluates:
  "(case bindr demo_arrived demo_default of Inl e \<Rightarrow> False | Inr (out, sc) \<Rightarrow> so_prefills out = 1)"
  "(case bindr demo_decoding demo_default of Inl e \<Rightarrow> False | Inr (out, sc) \<Rightarrow> so_prefills out = 0 \<and> map (client_id \<circ> fst) (so_groups out) = [Inr 7])"
  "(case demo_decoding of Inl e \<Rightarrow> False | Inr sc \<Rightarrow> (case sc_waiting sc of WCpi q \<Rightarrow> decode_weight q = 1 | _ \<Rightarrow> False))"
  by code_simp+

lemma cb_ok_demo_output: "cb_ok demo_output"
  by (auto simp: cb_ok_def demo_output_def in_status_def seq_is_finished_def)

lemma demo_decoding_ok:
  assumes "demo_decoding = Inr sc"
  shows "queues_ok sc" "\<not> cfg_priority (sc_cfg sc)"
proof -
  from assms obtain sc1 mds out al sc2 where s: "add_seq_group (demo_req 7 1 ''a'') demo_start = Inr sc1" "demo_step sc1 = Inr (mds, out, al, sc2)"
    "sc = sc2\<lparr>sc_running := map demo_output (sc_running sc2)\<rparr>" by (auto simp: demo_decoding_def)
  have "sched_run (\<lambda>_. 0) remdups {#} {#} demo_start" unfolding demo_start_def by (rule sched_run.start) (simp add: demo_cfg_def)
  from sched_run.produce [OF sched_run.step [OF sched_run.arrive [OF this in_status_demo_req(1) s(1)] cb_ok_id s(2) [unfolded demo_step_def]] cb_ok_demo_output]
  show "queues_ok sc" "\<not> cfg_priority (sc_cfg sc)" unfolding s(3) using sched_run_inv by blast+
qed

lemma demo_arrived_ok:
  assumes "demo_arrived = Inr sc"
  shows "queues_ok sc" "\<not> cfg_priority (sc_cfg sc)" "sc_cfg sc = demo_cfg" "\<exists>q. sc_waiting sc = WCpi q"
proof -
  from assms obtain sc1 where s: "add_seq_group (demo_req 7 1 ''a'') demo_start = Inr sc1" "add_seq_group (demo_req 8 2 ''b'') sc1 = Inr sc"
    by (auto simp: demo_arrived_def)
  have "sched_run (\<lambda>_. 0) remdups {#} {#} demo_start" unfolding demo_start_def by (rule sched_run.start) (simp add: demo_cfg_def)
  from sched_run.arrive [OF sched_run.arrive [OF this in_status_demo_req(1) s(1)] in_status_demo_req(1) s(2)]
  show "queues_ok sc" "\<not> cfg_priority (sc_cfg sc)" using sched_run_inv by blast+
  show "sc_cfg sc = demo_cfg" "\<exists>q. sc_waiting sc = WCpi q" using s by (auto simp: add_seq_group_def demo_start_def new_scheduler_def)
qed

lemma step_starts_least_served_witness:
  "\<exists>sc out sc' q. demo_default sc = Inr (out, sc') \<and> sc_waiting sc = WCpi q \<and> so_prefills out = 1 \<and> (\<exists>g n. so_groups out = [(started_form g, n)])"
proof -
  obtain sc out sc' where s: "demo_arrived = Inr sc" "demo_default sc = Inr (out, sc')" "so_prefills out = 1"
    using demo_default_evaluates(1) by (auto split: sum.splits)
  note a = demo_arrived_ok [OF s(1)]
  then obtain q where q: "sc_waiting sc = WCpi q" "cq_ok q" by (auto simp: queues_ok_def)
  have "cfg_max_loras (sc_cfg sc) = None" by (simp add: a(3) demo_cfg_def)
  from step_starts_least_served [OF s(2) [unfolded demo_default_def] a(2) this q] s(3) have "\<exists>g n. so_groups out = [(started_form g, n)]" by auto
  with s(2,3) q(1) show ?thesis by blast
qed

lemma decode_step_charges_witness:
  "\<exists>sc out sc' q q'. demo_default sc = Inr (out, sc') \<and> sc_waiting sc = WCpi q \<and> sc_waiting sc' = WCpi q' \<and> score q' 7 = score q 7 + 1"
proof -
  obtain sc out sc' where s: "demo_decoding = Inr sc" "demo_default sc = Inr (out, sc')" "so_prefills out = 0" "map (client_id \<circ> fst) (so_groups out) = [Inr 7]"
    using demo_default_evaluates(2) by (auto split: sum.splits)
  obtain q where q: "sc_waiting sc = WCpi q" "decode_weight q = 1"
    using demo_default_evaluates(3) [unfolded s(1) sum.case] by (cases "sc_waiting sc") simp_all
  have "groups_of 7 (mset (so_groups out)) = 1" using s(4) by (auto simp: groups_of_def)
  with decode_step_charges [OF s(2) [unfolded demo_default_def] demo_decoding_ok(2) [OF s(1)] cb_ok_id demo_decoding_ok(1) [OF s(1)] q(1)] s(3) q(2)
  obtain q' where "sc_waiting sc' = WCpi q'" "score q' 7 = score q 7 + 1" by auto
  with s(2) q(1) show ?thesis by blast
qed

end
