(* ===== verification/Contention.thy ===== *)
theory Contention
  imports Scheduler_Fairness
begin

text \<open>
  Fairness over time: the scores of two clients while both have requests waiting, over any
  interleaving of the operations of \<open>CPIReqQueue\<close> that the scheduler and the adapter call.
\<close>

text \<open>
  One operation on the queue.  \<open>d\<close> is the decode charge it makes to each client.  A popped request is
  either charged at once, at a cost of at most \<open>U\<close> (\<open>update_prefill_served\<close> after its prompt ran, with
  the credits granted by attribution), or was ignored and is not charged.  Arrivals, requests put
  back after a preemption, withdrawals and decode charges come in between, in any order and of any client.
\<close>

inductive queue_step :: "real \<Rightarrow> cpi_queue \<Rightarrow> (int \<Rightarrow> real) \<Rightarrow> cpi_queue \<Rightarrow> bool" for U :: real where
  serve: "cq_popleft q = Inr (g, q1) \<Longrightarrow> client_id g = Inr c \<Longrightarrow> cq_cost q (h, m) \<le> U
     \<Longrightarrow> \<forall>p \<in> set gs. 0 \<le> snd p \<Longrightarrow> 0 \<le> credit q c
     \<Longrightarrow> queue_step U q (\<lambda>_. 0) (cq_update_prefill_served [(c, h, m)] (Some gs) q1)"
| ignore: "cq_popleft q = Inr (g, q') \<Longrightarrow> queue_step U q (\<lambda>_. 0) q'"
| arrive: "cq_append g q = Inr q' \<Longrightarrow> queue_step U q (\<lambda>_. 0) q'"
| requeue: "cq_appendleft g q = Inr q' \<Longrightarrow> queue_step U q (\<lambda>_. 0) q'"
| withdraw: "queue_step U q (\<lambda>_. 0) (cq_remove g q)"
| decode: "w_charge_decode c (WCpi q) = Inr (WCpi q') \<Longrightarrow> 0 \<le> decode_weight q
     \<Longrightarrow> queue_step U q ((\<lambda>_. 0)(c := decode_weight q)) q'"

text \<open>
  \<open>contended U f g q D q'\<close>: from \<open>q\<close> to \<open>q'\<close> in such steps, with requests of both \<open>f\<close> and \<open>g\<close> waiting
  all the time; \<open>D\<close> sums up the decode charges.
\<close>

inductive contended :: "real \<Rightarrow> int \<Rightarrow> int \<Rightarrow> cpi_queue \<Rightarrow> (int \<Rightarrow> real) \<Rightarrow> cpi_queue \<Rightarrow> bool"
  for U f g q where
  start: "cq_ok q \<Longrightarrow> backlogged q f \<Longrightarrow> backlogged q g \<Longrightarrow> contended U f g q (\<lambda>_. 0) q"
| step: "contended U f g q D q1 \<Longrightarrow> queue_step U q1 d q2 \<Longrightarrow> backlogged q2 f \<Longrightarrow> backlogged q2 g
     \<Longrightarrow> contended U f g q (\<lambda>k. D k + d k) q2"

lemma serve_scores:
  assumes ok: "cq_ok q" and pop: "cq_popleft q = Inr (g, q1)" and c: "client_id g = Inr c"
    and gs: "\<forall>p \<in> set gs. 0 \<le> snd p" and cr: "0 \<le> credit q c"
    and q': "q' = cq_update_prefill_served [(c, h, m)] (Some gs) q1"
  shows "cq_ok q' \<and> score q c \<le> score q' c \<and> score q' c \<le> score q c + max 0 (cq_cost q (h, m))
     \<and> (\<forall>k. k \<noteq> c \<longrightarrow> score q' k = score q k) \<and> (\<forall>k. backlogged q k \<longrightarrow> score q c \<le> score q k)"
proof -
  have "\<exists>k. backlogged q k" using cq_popleft_empty [OF ok] pop by fastforce
  then obtain k where "backlogged q k" ..
  from cq_popleft_eq [OF ok this] obtain c' g' rest q'' where
    sel: "select_client (served q) (client_waiting_queues q) = Inr c'"
    and p': "cq_popleft q = Inr (g', q'')" and ok1: "cq_ok q''"
    and w: "waiting_of q c' = g' # rest" "waiting_of q'' = (waiting_of q)(c' := rest)"
    and s1: "score q'' = score q" and cr1: "credits q'' = credits q" and c': "client_id g' = Inr c'"
    and sv: "served q'' = served q" and cw: "cq_cost q'' = cq_cost q" .
  have eq: "g' = g" "q'' = q1" "c' = c" using p' pop c c' by auto
  define q2 where "q2 = foldl cq_grant q1 gs"
  have q3: "q' = cq_charge q2 (c, h, m)" by (simp add: q' q2_def cq_update_prefill_served_def)
  have g2: "score q2 = score q" "credit q2 c = credit q1 c + granted_to c gs" "cq_cost q2 = cq_cost q"
    using grants_effect [of q1 gs c] s1 cw eq by (auto simp: q2_def)
  have "0 \<le> credit q2 c" using g2(2) cr cr1 eq granted_nonneg [OF gs] by (simp add: credit_def)
  then have up: "score q' c \<le> score q c + max 0 (cq_cost q (h, m))" "score q c \<le> score q' c"
    and same: "\<And>k. k \<noteq> c \<Longrightarrow> score q' k = score q k"
    using g2 by (auto simp: q3 cq_charge_score)
  have key: "c \<in> set (dkeys (served q1))"
    using w(1) cq_key_iff [OF ok, of c] sv eq
    by (cases "map_of (client_waiting_queues q) c") (auto simp: waiting_of_def)
  have "cq_ok q'" unfolding q' using update_prefill_ok [of q1 "[(c, h, m)]" "Some gs"] ok1 key eq by auto
  moreover have "score q c \<le> score q k" if "backlogged q k" for k
    using select_client_min(2) [OF ok sel] that eq by blast
  ultimately show ?thesis using up same by blast
qed

lemma queue_step_gap:
  assumes "queue_step U q d q'" "cq_ok q" "backlogged q f" "backlogged q g" "0 \<le> U"
  shows "cq_ok q' \<and> 0 \<le> d f \<and> score q' f - score q' g \<le> max (score q f - score q g) U + d f"
  using assms(1)
proof cases
  case (serve r q1 c h m gs)
  note s = serve_scores [OF assms(2) serve(3,4,6,7,2)]
  have le: "score q c \<le> score q g" using s assms(4) by blast
  have "score q' f - score q' g \<le> max (score q f - score q g) U"
    using s le serve(5) assms(5) by (cases "f = c"; cases "g = c") (auto simp: max_def split: if_splits)
  with s serve(1) show ?thesis by simp
next
  case (ignore r)
  from cq_popleft_Inr [OF ignore(2) assms(2)] have "score q' = score q" "cq_ok q'" by blast+
  with ignore(1) show ?thesis by simp
next
  case (arrive r)
  obtain c where c: "client_id r = Inr c" using arrive(2) by (auto simp: cq_append_def)
  from cq_append_eq [OF assms(2) c] arrive(2) have "cq_ok q'"
    "score q' = (score q)(c := (if backlogged q c then score q c else lifted q c))" by auto
  with arrive(1) assms(3,4) show ?thesis by auto
next
  case (requeue r)
  from requeue(2) obtain c ws where c: "client_id r = Inr c" "map_of (client_waiting_queues q) c = Some ws"
    by (auto simp: cq_appendleft_def)
  then have "c \<in> set (dkeys (served q))" using cq_key_iff [OF assms(2), of c] by simp
  from cq_appendleft_eq [OF assms(2) c(1) this] requeue(2) have "cq_ok q'" "score q' = score q" by auto
  with requeue(1) show ?thesis by simp
next
  case (withdraw r)
  have "score (cq_remove r q) = score q" by (simp add: cq_remove_def)
  with withdraw cq_remove_ok [OF assms(2)] show ?thesis by simp
next
  case (decode c)
  from decode(2) obtain s where s: "map_of (served q) c = Some s"
    and q': "q' = q\<lparr>served := AList.update c (s + decode_weight q) (served q)\<rparr>" by auto
  have "cq_ok q'" unfolding q' using cq_ok_served [OF assms(2), of c] map_of_in_dkeys [OF s] by simp
  moreover have "score q' = (score q)(c := score q c + decode_weight q)"
    using s by (auto simp: q' score_def dict_simps fun_eq_iff)
  ultimately show ?thesis using decode(1,3) by (cases "f = c"; cases "g = c") auto
qed

lemma contended_gap:
  assumes "contended U f g q D q'" "0 \<le> U"
  shows "cq_ok q' \<and> backlogged q' f \<and> backlogged q' g \<and> 0 \<le> D f \<and> score q' f - score q' g \<le> max (score q f - score q g) U + D f"
  using assms(1)
proof induction
  case (step D q1 d q2)
  from queue_step_gap [OF step.hyps(2) _ _ _ assms(2), of f g] step.IH step.hyps show ?case by auto
qed simp

lemma contended_sym: "contended U f g q D q' \<Longrightarrow> contended U g f q D q'"
  by (induction rule: contended.induct) (auto intro: contended.intros)

text \<open>
  C6.  Bounded unfairness under contention.  While two clients both have requests waiting, neither gets ahead of the
  other by more than the larger of its lead at the beginning and \<open>U\<close>, the largest cost of one prefill, plus
  what it is charged for decoding in the meantime, whatever the other clients do.  Each popped prompt is billed before the
  next is popped, as in the steps of the engine without chunked prefill.
\<close>

theorem contention_gap_bounded:
  assumes "contended U f g q D q'" "0 \<le> U"
  shows "score q' f - score q' g \<le> max (score q f - score q g) U + D f
     \<and> score q' g - score q' f \<le> max (score q g - score q f) U + D g"
  using contended_gap [OF assms] contended_gap [OF contended_sym [OF assms(1)] assms(2)] by blast

text \<open>Client 3 has two requests and client 7 one; the first of client 3 is served and decodes once.\<close>

definition demo_waiting :: cpi_queue where
  "demo_waiting = (cq_init 0 1 1 1)\<lparr>
     client_waiting_queues := [(3, [CPI_Queue.demo_group 3 ''a'', CPI_Queue.demo_group 3 ''b'']), (7, [CPI_Queue.demo_group 7 ''c''])],
     served := [(3, 0), (7, 0)]\<rparr>"

definition demo_served :: cpi_queue where
  "demo_served = cq_update_prefill_served [(3, 0, 1)] (Some [])
     (demo_waiting\<lparr>client_waiting_queues := [(3, [CPI_Queue.demo_group 3 ''b'']), (7, [CPI_Queue.demo_group 7 ''c''])]\<rparr>)"

lemma demo_queues:
  "cq_ok demo_waiting" "\<forall>q \<in> {demo_waiting, demo_served}. backlogged q 3 \<and> backlogged q 7"
  "served demo_served = [(3, 1), (7, 0)]" "decode_weight demo_served = 1"
  "cq_popleft demo_waiting = Inr (CPI_Queue.demo_group 3 ''a'', demo_waiting\<lparr>client_waiting_queues :=
     [(3, [CPI_Queue.demo_group 3 ''b'']), (7, [CPI_Queue.demo_group 7 ''c''])]\<rparr>)"
  using demo_client
  by (simp_all add: demo_waiting_def demo_served_def cq_ok_def cq_init_def backlogged_queue cq_update_prefill_served_def
      cq_charge_def cq_count_def cq_cost_def Let_def cq_popleft_def select_client.simps pick_def)

lemma contention_gap_bounded_witness:
  "\<exists>D q'. contended 1 3 7 demo_waiting D q' \<and> D 3 = 1 \<and> score q' 3 - score q' 7 = 2
     \<and> score q' 3 - score q' 7 \<le> max (score demo_waiting 3 - score demo_waiting 7) 1 + D 3"
proof -
  let ?q = "demo_served\<lparr>served := [(3, 2), (7, 0)]\<rparr>"
  have "contended 1 3 7 demo_waiting (\<lambda>_. 0) demo_waiting" using demo_queues(1,2) by (intro contended.start) simp_all
  moreover have "queue_step 1 demo_waiting (\<lambda>_. 0) demo_served" unfolding demo_served_def
    by (rule queue_step.serve [OF demo_queues(5)]) (use demo_client in \<open>simp_all add: demo_waiting_def cq_init_def cq_cost_def credit_def\<close>)
  ultimately have one: "contended 1 3 7 demo_waiting (\<lambda>k. 0 + 0) demo_served"
    using demo_queues(2) by (intro contended.step) simp_all
  have "queue_step 1 demo_served ((\<lambda>_. 0)(3 := decode_weight demo_served)) ?q"
    by (rule queue_step.decode) (simp_all add: demo_queues(3,4))
  from contended.step [OF one this] have c: "contended 1 3 7 demo_waiting (\<lambda>k. 0 + 0 + ((\<lambda>_. 0)(3 := decode_weight demo_served)) k) ?q"
    using demo_queues(2) by (simp add: backlogged_queue)
  from contention_gap_bounded [OF c] c show ?thesis
    by (intro exI conjI) (assumption | simp add: score_def demo_queues(4))+
qed

end
