(* ===== verification/Scheduler_Fuel.thy ===== *)
theory Scheduler_Fuel
  imports Scheduler_Laws
begin

text \<open>
  The fuel of the scheduler's loops is enough: each round takes a group out of its queue and puts none back, so that
  more fuel than one unit per queued group and one more makes no difference, and the loops never stop for lack of it.
\<close>

lemma bindr_cong: "(\<And>y. x = Inr y \<Longrightarrow> f y = g y) \<Longrightarrow> bindr x f = bindr x g"
  by (cases x) auto

lemma make_room_fuel:
  assumes "length (sc_running (rs_sc rs)) < a" "length (sc_running (rs_sc rs)) < b" "cb_ok cb" "rs_ok rs"
  shows "make_room so cb g n a rs = make_room so cb g n b rs"
  using assms
proof (induction a arbitrary: b rs)
  case (Suc a)
  then obtain b' where b: "b = Suc b'" by (cases b) auto
  let ?sc = "rs_sc rs"
  show ?case unfolding b make_room.simps Let_def
  proof (intro bindr_cong if_cong refl)
    fix can k and rs3 :: run_state
    define rs1 where "rs1 = rs\<lparr>rs_budget := subtract_num_seqs (request_id g) k (subtract_num_batched_tokens (request_id g) n (rs_budget rs)),
                        rs_loras := lora_discard g (rs_loras rs), rs_sc := ?sc\<lparr>sc_running := butlast (sc_running ?sc)\<rparr>\<rparr>"
    assume "sc_running (rs_sc (rs\<lparr>rs_budget := subtract_num_seqs (request_id g) k (subtract_num_batched_tokens (request_id g) n (rs_budget rs)),
                        rs_loras := lora_discard g (rs_loras rs)\<rparr>)) \<noteq> []"
    then have ne: "sc_running ?sc \<noteq> []" by simp
    assume "preempt_victim so cb (last (sc_running (rs_sc (rs\<lparr>rs_budget := subtract_num_seqs (request_id g) k (subtract_num_batched_tokens (request_id g) n (rs_budget rs)),
                        rs_loras := lora_discard g (rs_loras rs)\<rparr>))))
        (rs\<lparr>rs_budget := subtract_num_seqs (request_id g) k (subtract_num_batched_tokens (request_id g) n (rs_budget rs)),
                        rs_loras := lora_discard g (rs_loras rs),
            rs_sc := (rs_sc (rs\<lparr>rs_budget := subtract_num_seqs (request_id g) k (subtract_num_batched_tokens (request_id g) n (rs_budget rs)),
                        rs_loras := lora_discard g (rs_loras rs)\<rparr>))\<lparr>sc_running := butlast (sc_running
                 (rs_sc (rs\<lparr>rs_budget := subtract_num_seqs (request_id g) k (subtract_num_batched_tokens (request_id g) n (rs_budget rs)),
                        rs_loras := lora_discard g (rs_loras rs)\<rparr>)))\<rparr>\<rparr>) = Inr rs3"
    then have pv: "preempt_victim so cb (last (sc_running ?sc)) rs1 = Inr rs3" by (simp add: rs1_def)
    from rs_ok_drop_last [OF Suc.prems(4) ne rs1_def] have ok: "rs_ok rs1" "in_status RUNNING (last (sc_running ?sc))" by simp_all
    from preempt_victim_Inr [OF pv Suc.prems(3) ok] have keep: "rs_ok rs3" "sc_running (rs_sc rs3) = butlast (sc_running ?sc)"
      by (simp_all add: rs1_def)
    then have "length (sc_running (rs_sc rs3)) < a" "length (sc_running (rs_sc rs3)) < b'"
      using Suc.prems(1,2) ne by (cases "sc_running ?sc"; simp add: b)+
    with Suc.IH [OF _ _ Suc.prems(3) keep(1)] show "make_room so cb g n a rs3 = make_room so cb g n b' rs3" by blast
  qed
qed simp

lemma running_loop_fuel:
  assumes "length (sc_running (rs_sc rs)) < a" "length (sc_running (rs_sc rs)) < b" "cb_ok cb" "rs_ok rs"
  shows "running_loop hsh so cb chunk a rs = running_loop hsh so cb chunk b rs"
  using assms
proof (induction a arbitrary: b rs)
  case (Suc a)
  then obtain b' where b: "b = Suc b'" by (cases b) auto
  show ?case
  proof (cases "sc_running (rs_sc rs)")
    case Nil
    then show ?thesis by (simp add: b)
  next
    case (Cons g rest)
    define rs1 where "rs1 = rs\<lparr>rs_sc := (rs_sc rs)\<lparr>sc_running := rest\<rparr>\<rparr>"
    define go where "go = (\<lambda>fuel m stopped. if stopped then
               running_loop hsh so cb chunk fuel (rs1\<lparr>rs_sc := (rs_sc rs1)\<lparr>sc_async_stopped := sc_async_stopped (rs_sc rs1) @ [g]\<rparr>\<rparr>)
             else bindr (make_room so cb g m (Suc (length rest)) rs1) (\<lambda>(room, rs2).
               bindr (if room then run_group hsh chunk g m rs2 else Inr rs2) (running_loop hsh so cb chunk fuel)))"
    have eq: "running_loop hsh so cb chunk (Suc f) rs = bindr (num_new_tokens (sc_cfg (rs_sc rs)) g RUNNING chunk (rs_budget rs)) (\<lambda>m.
        if m = 0 then Inr rs
        else bindr (if cfg_async (sc_cfg (rs_sc rs1)) then bindr (first_seq g) (\<lambda>s. Inr (seq_len s > cfg_max_model_len (sc_cfg (rs_sc rs1))))
                      else Inr False) (go f m))" for f
      by (simp only: running_loop.simps Cons list.case Let_def go_def rs1_def)
    note t = rs_ok_take_first [OF Suc.prems(4) Cons rs1_def]
    have len: "length rest < a" "length rest < b'" using Suc.prems(1,2) Cons by (simp_all add: b)
    have less: "running_loop hsh so cb chunk a rs2 = running_loop hsh so cb chunk b' rs2"
      if "rs_ok rs2" "length (sc_running (rs_sc rs2)) \<le> length rest" for rs2
      using Suc.IH [OF _ _ Suc.prems(3) that(1), of b'] that(2) len by simp
    have "go a m stopped = go b' m stopped" for m stopped
    proof (cases stopped)
      case True
      have "rs_ok (rs1\<lparr>rs_sc := (rs_sc rs1)\<lparr>sc_async_stopped := sc_async_stopped (rs_sc rs1) @ [g]\<rparr>\<rparr>)"
        using t by (auto simp: rs_ok_def queues_ok_def)
      from less [OF this] True show ?thesis by (simp add: go_def rs1_def)
    next
      case False
      have same: "(case y of (room, rs2) \<Rightarrow> bindr (if room then run_group hsh chunk g m rs2 else Inr rs2) (running_loop hsh so cb chunk a))
          = (case y of (room, rs2) \<Rightarrow> bindr (if room then run_group hsh chunk g m rs2 else Inr rs2) (running_loop hsh so cb chunk b'))"
        if y: "make_room so cb g m (Suc (length rest)) rs1 = Inr y" for y
      proof -
        obtain room rs2 where yy: "y = (room, rs2)" by (cases y)
        note mr = make_room_Inr [OF y [unfolded yy] Suc.prems(3) t(1,2)]
        then have ok2: "rs_ok rs2" and l2: "length (sc_running (rs_sc rs2)) \<le> length rest" by (simp_all add: rs1_def)
        show ?thesis unfolding yy prod.case
        proof (rule bindr_cong)
          fix rs3 assume r3: "(if room then run_group hsh chunk g m rs2 else Inr rs2) = Inr rs3"
          then have "rs_ok rs3 \<and> length (sc_running (rs_sc rs3)) \<le> length rest"
            using run_group_Inr [OF _ ok2 t(2), of hsh chunk m rs3] ok2 l2 by (cases room) auto
          with less show "running_loop hsh so cb chunk a rs3 = running_loop hsh so cb chunk b' rs3" by blast
        qed
      qed
      have "bindr (make_room so cb g m (Suc (length rest)) rs1) (\<lambda>(room, rs2). bindr (if room then run_group hsh chunk g m rs2 else Inr rs2) (running_loop hsh so cb chunk a))
          = bindr (make_room so cb g m (Suc (length rest)) rs1) (\<lambda>(room, rs2). bindr (if room then run_group hsh chunk g m rs2 else Inr rs2) (running_loop hsh so cb chunk b'))"
        by (rule bindr_cong) (rule same)
      with False show ?thesis by (simp only: go_def if_False)
    qed
    then have same: "go a = go b'" by blast
    show ?thesis unfolding b eq same by (rule refl)
  qed
qed simp

lemma swap_in_group_swapped:
  assumes "swap_in_group hsh g n k st = Inr st'"
  shows "sc_swapped (ss_sc st') = sc_swapped (ss_sc st)"
proof -
  from assms obtain g1 sc1 moves g2 sc2 copies where a: "sched_swap_in g (ss_sc st) = Inr (g1, sc1, moves)"
    "append_slots hsh g1 sc1 = Inr (g2, sc2, copies)" "ss_sc st' = sc2"
    by (auto simp: swap_in_group_def Let_def split: if_splits)
  from swap_in_Inr [OF a(1)] append_slots_Inr [OF a(2), of RUNNING] a(3) show ?thesis by (auto simp: same_queues_def)
qed

lemma swapped_loop_fuel:
  assumes "length (sc_swapped (ss_sc st)) < a" "length (sc_swapped (ss_sc st)) < b"
  shows "swapped_loop hsh chunk a st = swapped_loop hsh chunk b st"
  using assms
proof (induction a arbitrary: b st)
  case (Suc a)
  then obtain b' where b: "b = Suc b'" by (cases b) auto
  show ?case
  proof (cases "sc_swapped (ss_sc st)")
    case Nil
    then show ?thesis by (simp add: b)
  next
    case (Cons g rest)
    define st1 where "st1 = st\<lparr>ss_sc := (ss_sc st)\<lparr>sc_swapped := rest\<rparr>\<rparr>"
    have less: "swapped_loop hsh chunk a st2 = swapped_loop hsh chunk b' st2" if "sc_swapped (ss_sc st2) = rest" for st2
      using Suc.IH [of st2 b'] Suc.prems Cons that by (simp add: b)
    have s1: "bindr (swap_in_group hsh g n k st1) (swapped_loop hsh chunk a) = bindr (swap_in_group hsh g n k st1) (swapped_loop hsh chunk b')" for n k
    proof (rule bindr_cong)
      fix st2 assume "swap_in_group hsh g n k st1 = Inr st2"
      from swap_in_group_swapped [OF this] show "swapped_loop hsh chunk a st2 = swapped_loop hsh chunk b' st2"
        by (intro less) (simp add: st1_def)
    qed
    have s2: "swapped_loop hsh chunk a (st1\<lparr>ss_infeasible := i\<rparr>) = swapped_loop hsh chunk b' (st1\<lparr>ss_infeasible := i\<rparr>)"
      "swapped_loop hsh chunk a (st1\<lparr>ss_leftover := i\<rparr>) = swapped_loop hsh chunk b' (st1\<lparr>ss_leftover := i\<rparr>)" for i
      by (intro less; simp add: st1_def)+
    show ?thesis unfolding b swapped_loop.simps Cons list.case Let_def st1_def [symmetric] s1 s2 by (rule refl)
  qed
qed simp

lemma w_popleft_length:
  assumes "w_popleft w = Inr (h, w')" "w_ok w"
  shows "length (w_iter w') < length (w_iter w)"
proof -
  from w_popleft_Inr [OF assms(2,1)] have "w_items w = add_mset h (w_items w')" by simp
  then have "size (w_items w) = Suc (size (w_items w'))" by simp
  then show ?thesis by (simp add: w_items_def)
qed

lemma prefill_round_length:
  assumes "prefill_round hsh chunk g st = Inr (True, st')" "ps_ok st"
  shows "length (w_iter (sc_waiting (ps_sc st'))) < length (w_iter (sc_waiting (ps_sc st)))"
proof -
  have w: "w_ok (sc_waiting (ps_sc st))" using assms(2) by (simp add: ps_ok_def queues_ok_def)
  have drop: "length (w_iter (sc_waiting (ps_sc st2))) < length (w_iter (sc_waiting (ps_sc st)))"
    if "drop_first st1 = Inr st2" "ps_sc st1 = ps_sc st" for st1 st2
    using that w w_popleft_length by (auto simp: drop_first_def)
  from assms(1) show ?thesis
  proof (cases rule: prefill_round_cases)
    case ignored
    then show ?thesis by (auto simp: ignore_group_def intro: drop)
  next
    case aside
    then show ?thesis by (auto intro: drop)
  next
    case (started n k)
    then obtain st1 g1 sc1 where d: "drop_first (st\<lparr>ps_loras := lora_join (sc_cfg (ps_sc st)) g (ps_loras st)\<rparr>) = Inr st1"
      "allocate_and_set_running hsh g (ps_sc st1) = Inr (g1, sc1)" "ps_sc st' = sc1"
      by (auto simp: start_prefill_def Let_def)
    from drop [OF d(1)] allocate_Inr [OF d(2)] d(3) show ?thesis by (auto simp: same_queues_def)
  qed simp
qed

lemma prefill_loop_fuel:
  assumes "length (w_iter (sc_waiting (ps_sc st))) < a" "length (w_iter (sc_waiting (ps_sc st))) < b" "ps_ok st"
  shows "prefill_loop hsh chunk clk i a st = prefill_loop hsh chunk clk i b st"
  using assms
proof (induction a arbitrary: i b st)
  case (Suc a)
  then obtain b' where b: "b = Suc b'" by (cases b) auto
  define next_round where "next_round = (\<lambda>fuel (p, sc1). let st1 = st\<lparr>ps_sc := sc1\<rparr> in
       if \<not> p \<or> \<not> w_bool (sc_waiting sc1) then Inr st1
       else bindr (w_first (sc_waiting sc1)) (\<lambda>g. bindr (prefill_round hsh chunk g st1) (\<lambda>(cont, st2).
           if cont then prefill_loop hsh chunk clk (Suc i) fuel st2 else Inr st2)))"
  have eq: "prefill_loop hsh chunk clk i (Suc f) st = bindr (passed_delay (clk i) (ps_sc st)) (next_round f)" for f
    by (simp only: prefill_loop.simps next_round_def)
  show ?case unfolding b eq
  proof (rule bindr_cong)
    fix y assume y: "passed_delay (clk i) (ps_sc st) = Inr y"
    obtain p sc1 where yy: "y = (p, sc1)" by (cases y)
    define st1 where "st1 = st\<lparr>ps_sc := sc1\<rparr>"
    have s: "same_queues (ps_sc st) sc1" "sc_finished sc1 = sc_finished (ps_sc st) @ []" using passed_delay_Inr [OF y [unfolded yy]] by auto
    from same_queues_ids [OF this] s(1) Suc.prems(3) have st1: "ps_ok st1" and w: "sc_waiting (ps_sc st1) = sc_waiting (ps_sc st)"
      by (simp_all add: st1_def ps_ok_def same_queues_def)
    have "bindr (w_first (sc_waiting sc1)) (\<lambda>g. bindr (prefill_round hsh chunk g st1) (\<lambda>(cont, st2).
           if cont then prefill_loop hsh chunk clk (Suc i) a st2 else Inr st2))
        = bindr (w_first (sc_waiting sc1)) (\<lambda>g. bindr (prefill_round hsh chunk g st1) (\<lambda>(cont, st2).
           if cont then prefill_loop hsh chunk clk (Suc i) b' st2 else Inr st2))"
    proof (intro bindr_cong)
      fix g z assume g: "w_first (sc_waiting sc1) = Inr g" and z: "prefill_round hsh chunk g st1 = Inr z"
      obtain cont st2 where zz: "z = (cont, st2)" by (cases z)
      have first: "w_first (sc_waiting (ps_sc st1)) = Inr g" using g by (simp add: st1_def)
      have "prefill_loop hsh chunk clk (Suc i) a st2 = prefill_loop hsh chunk clk (Suc i) b' st2" if cont
      proof -
        have r: "prefill_round hsh chunk g st1 = Inr (True, st2)" using z zz that by simp
        from prefill_round_length [OF r st1] Suc.prems(1,2) w have "length (w_iter (sc_waiting (ps_sc st2))) < a"
          "length (w_iter (sc_waiting (ps_sc st2))) < b'" by (simp_all add: b)
        with Suc.IH prefill_round_Inr [OF r first st1] show ?thesis by blast
      qed
      then show "(case z of (cont, st2) \<Rightarrow> if cont then prefill_loop hsh chunk clk (Suc i) a st2 else Inr st2)
          = (case z of (cont, st2) \<Rightarrow> if cont then prefill_loop hsh chunk clk (Suc i) b' st2 else Inr st2)"
        by (simp add: zz)
    qed
    then show "next_round a y = next_round b' y" by (simp only: next_round_def yy prod.case Let_def st1_def)
  qed
qed simp

lemma priority_loop_fuel:
  assumes "length running < a" "length running < b"
  shows "priority_loop so g n k a (running, sc, bu, cnt) = priority_loop so g n k b (running, sc, bu, cnt)"
  using assms
proof (induction a arbitrary: b running sc bu cnt)
  case (Suc a)
  then obtain b' where b: "b = Suc b'" by (cases b) auto
  show ?case
  proof (cases "running = []")
    case True
    then show ?thesis by (simp add: b)
  next
    case False
    then have "length (butlast running) < a" "length (butlast running) < b'"
      using Suc.prems by (cases running; simp add: b)+
    then have "priority_loop so g n k a (butlast running, sc, bu, cnt) = priority_loop so g n k b' (butlast running, sc, bu, cnt)" for sc bu cnt
      by (rule Suc.IH)
    note same = this
    show ?thesis unfolding b priority_loop.simps Let_def same by (rule refl)
  qed
qed simp

end
