(* ===== verification/Output_Processor.thy ===== *)
theory Output_Processor
  imports Scheduler_Laws
begin

text \<open>
  What happens to a request after the model has sampled: \<open>StopChecker\<close> of
  \<open>vllm/engine/output_processor/stop_checker.py\<close> and \<open>SingleStepOutputProcessor\<close> of
  \<open>vllm/engine/output_processor/single_step.py\<close>.  New tokens are appended, sequences forked for
  further samples, beams kept or dropped, finished sequences marked and their blocks given back
  to the schedulers.

  \<open>process_prompt_logprob\<close>, which only records probabilities for the API, is left out.  The detokenizer's text for
  the new token is the argument \<open>decode\<close>; a sequence object that the code
  changes in place is put back into its group by its id.  \<open>stop_reason\<close>, which only the API
  reads, is returned beside the sequence and not kept.
\<close>

section \<open>Stopping\<close>

datatype early_stopping = EarlyTrue | EarlyFalse | EarlyNever

text \<open>The fields of \<open>SamplingParams\<close> that output processing reads.\<close>

record output_params =
  op_min_tokens :: int
  op_max_tokens :: "int option"
  op_ignore_eos :: bool
  op_include_stop :: bool
  op_stop_token_ids :: "int list"
  op_stop :: "string list"
  op_detokenize :: bool
  op_best_of :: nat
  op_use_beam_search :: bool
  op_length_penalty :: real
  op_early_stopping :: early_stopping

datatype stop_reason = StopToken int | StopString string

definition get_max_model_len :: "int \<Rightarrow> int option \<Rightarrow> int" where
  "get_max_model_len dflt long_lora = (case long_lora of None \<Rightarrow> dflt | Some n \<Rightarrow> if n \<noteq> 0 then n else dflt)"

text \<open>
  \<open>str_find\<close> is \<open>str.find\<close> with a start: the first index from it at which the text continues with the
  substring.  A negative start counts from the end and is clipped (\<open>slice_index\<close>).
\<close>

definition str_find :: "string \<Rightarrow> string \<Rightarrow> nat \<Rightarrow> nat option" where
  "str_find text sub start = find (\<lambda>i. take (length sub) (drop i text) = sub) [start..<Suc (length text)]"

fun check_stop_strings :: "string \<Rightarrow> nat \<Rightarrow> bool \<Rightarrow> string list \<Rightarrow> string option \<times> string" where
  "check_stop_strings text n incl [] = (None, text)"
| "check_stop_strings text n incl (s # ss) =
     (if n = 0 then (None, text)
      else case str_find text s (slice_index text (- int n - int (length s))) of
        None \<Rightarrow> check_stop_strings text n incl ss
      | Some i \<Rightarrow>
          if incl then (if i + length s \<ge> length text then (Some s, text) else (Some s, take (i + length s) text))
          else (Some s, take i text))"

definition drop_new_chars :: "nat \<Rightarrow> bool \<Rightarrow> string \<Rightarrow> string" where
  "drop_new_chars n incl text = (if n \<noteq> 0 \<and> \<not> incl then slice_to text (- int n) else text)"

definition maybe_stop_sequence ::
  "int \<Rightarrow> nat \<Rightarrow> output_params \<Rightarrow> sequence \<Rightarrow> (stop_reason option \<times> sequence) result" where
  "maybe_stop_sequence max_len n op s =
     (if seq_output_len s < op_min_tokens op then Inr (None, s)
      else bindr (sd_last_token_id (seq_data s)) (\<lambda>t.
        if \<not> op_ignore_eos op \<and> eos_token_id s = Some t then
          Inr (None, s\<lparr>output_text := drop_new_chars n (op_include_stop op) (output_text s), seq_status := FINISHED_STOPPED\<rparr>)
        else if t \<in> set (op_stop_token_ids op) then
          Inr (Some (StopToken t),
               s\<lparr>output_text := drop_new_chars n (op_include_stop op) (output_text s), seq_status := FINISHED_STOPPED\<rparr>)
        else (case check_stop_strings (output_text s) n (op_include_stop op) (op_stop op) of
                (Some str, text) \<Rightarrow> Inr (Some (StopString str), s\<lparr>output_text := text, seq_status := FINISHED_STOPPED\<rparr>)
              | (None, _) \<Rightarrow>
                  if seq_len s > max_len then Inr (None, s\<lparr>seq_status := FINISHED_LENGTH_CAPPED\<rparr>)
                  else if op_max_tokens op = Some (seq_output_len s) then Inr (None, s\<lparr>seq_status := FINISHED_LENGTH_CAPPED\<rparr>)
                  else Inr (None, s))))"

section \<open>One sample\<close>

record sample =
  sm_parent :: int
  sm_token :: int
  sm_logprobs :: "(int, real) dict"

definition decode_in_place :: "(sequence \<Rightarrow> string) option \<Rightarrow> output_params \<Rightarrow> sequence \<Rightarrow> nat \<times> sequence" where
  "decode_in_place decode op s =
     (case decode of
        None \<Rightarrow> (0, s)
      | Some f \<Rightarrow> if op_detokenize op then (length (f s), s\<lparr>output_text := output_text s @ f s\<rparr>) else (0, s))"

definition decode_and_stop ::
  "(sequence \<Rightarrow> string) option \<Rightarrow> int \<Rightarrow> output_params \<Rightarrow> sequence \<Rightarrow> sequence result" where
  "decode_and_stop decode max_len op s =
     (let (n, s1) = decode_in_place decode op s in
      bindr (maybe_stop_sequence max_len n op s1) (\<lambda>(r, s2). Inr s2))"

definition put_seq :: "sequence \<Rightarrow> seq_group \<Rightarrow> seq_group" where
  "put_seq s g = g\<lparr>seqs := map (\<lambda>t. if seq_id t = seq_id s then s else t) (seqs g)\<rparr>"

definition free_on :: "(bref list \<Rightarrow> bref list) \<Rightarrow> sequence \<Rightarrow> scheduler list \<Rightarrow> scheduler list result" where
  "free_on so s scs = mapM (free_seq so s) scs"

definition fork_seq :: "sequence \<Rightarrow> sequence \<Rightarrow> scheduler \<Rightarrow> scheduler" where
  "fork_seq parent child sc = sc\<lparr>sc_bm := bm_fork parent child (sc_bm sc)\<rparr>"

definition process_only_sample ::
  "(bref list \<Rightarrow> bref list) \<Rightarrow> (sequence \<Rightarrow> string) option \<Rightarrow> int \<Rightarrow> output_params \<Rightarrow> bool \<Rightarrow> sample list
     \<Rightarrow> seq_group \<Rightarrow> scheduler list \<Rightarrow> (seq_group \<times> scheduler list) result" where
  "process_only_sample so decode max_len op is_async samples g scs =
     bindr (py_nth samples 0) (\<lambda>sm. bindr (first_seq g) (\<lambda>s.
     bindr (if is_async then Inr s else seq_append_token_id (sm_token sm) (sm_logprobs sm) s) (\<lambda>s1.
     bindr (decode_and_stop decode max_len op s1) (\<lambda>s2.
     bindr (if seq_is_finished s2 then free_on so s2 scs else Inr scs) (\<lambda>scs'.
       Inr (put_seq s2 g, scs'))))))"

section \<open>Several samples\<close>

text \<open>
  A \<open>child\<close> is an entry of \<open>child_seqs\<close>: the sequence, its parent and whether they are the same
  object.  \<open>forking\<close> is the state of the loop over the parents: the group, the schedulers, the
  counter of sequence ids and the children so far.
\<close>

record child =
  ch_seq :: sequence
  ch_parent :: sequence
  ch_is_parent :: bool

record forking =
  fk_group :: seq_group
  fk_scheds :: "scheduler list"
  fk_counter :: int
  fk_children :: "child list"

definition fork_child :: "sequence \<Rightarrow> forking \<Rightarrow> sample \<Rightarrow> forking result" where
  "fork_child parent fk sm =
     bindr (seq_append_token_id (sm_token sm) (sm_logprobs sm) (seq_fork (fk_counter fk) parent)) (\<lambda>c.
       Inr (fk\<lparr>fk_counter := fk_counter fk + 1,
               fk_children := fk_children fk @ [\<lparr>ch_seq = c, ch_parent = parent, ch_is_parent = False\<rparr>]\<rparr>))"

definition fork_parent ::
  "(bref list \<Rightarrow> bref list) \<Rightarrow> sample list \<Rightarrow> forking \<Rightarrow> sequence \<Rightarrow> forking result" where
  "fork_parent so samples fk parent =
     (case filter (\<lambda>sm. sm_parent sm = seq_id parent) samples of
        [] \<Rightarrow>
          (let p = parent\<lparr>seq_status := FINISHED_ABORTED\<rparr> in
           bindr (remove_seq (seq_id p) (put_seq p (fk_group fk))) (\<lambda>g.
           bindr (free_on so p (fk_scheds fk)) (\<lambda>scs.
             Inr (fk\<lparr>fk_group := g, fk_scheds := scs\<rparr>))))
      | sms \<Rightarrow>
          bindr (foldM (fork_child parent) fk (butlast sms)) (\<lambda>fk1.
          bindr (seq_append_token_id (sm_token (last sms)) (sm_logprobs (last sms)) parent) (\<lambda>p.
            Inr (fk1\<lparr>fk_group := put_seq p (fk_group fk1),
                     fk_children := fk_children fk1 @ [\<lparr>ch_seq = p, ch_parent = parent, ch_is_parent = True\<rparr>]\<rparr>))))"

definition stop_child ::
  "(sequence \<Rightarrow> string) option \<Rightarrow> int \<Rightarrow> output_params \<Rightarrow> seq_group \<times> child list \<Rightarrow> child \<Rightarrow> (seq_group \<times> child list) result" where
  "stop_child decode max_len op = (\<lambda>(g, done) c.
     bindr (decode_and_stop decode max_len op (ch_seq c)) (\<lambda>s.
       Inr (if ch_is_parent c then put_seq s g else g, done @ [c\<lparr>ch_seq := s\<rparr>])))"

definition add_child :: "seq_group \<times> scheduler list \<Rightarrow> child \<Rightarrow> (seq_group \<times> scheduler list) result" where
  "add_child = (\<lambda>(g, scs) c.
     if ch_is_parent c then Inr (g, scs)
     else bindr (add_seq (ch_seq c) g) (\<lambda>g'.
       Inr (g', if seq_is_finished (ch_seq c) then scs else map (fork_seq (ch_parent c) (ch_seq c)) scs)))"

definition free_child :: "(bref list \<Rightarrow> bref list) \<Rightarrow> scheduler list \<Rightarrow> child \<Rightarrow> scheduler list result" where
  "free_child so scs c =
     (if ch_is_parent c \<and> seq_is_finished (ch_seq c) then free_on so (ch_seq c) scs else Inr scs)"

definition keep_children ::
  "(bref list \<Rightarrow> bref list) \<Rightarrow> child list \<Rightarrow> seq_group \<Rightarrow> scheduler list \<Rightarrow> (seq_group \<times> scheduler list) result" where
  "keep_children so cs g scs =
     bindr (foldM add_child (g, scs) cs) (\<lambda>(g1, scs1). bindr (foldM (free_child so) scs1 cs) (\<lambda>scs2. Inr (g1, scs2)))"

section \<open>Beam search\<close>

definition get_beam_search_score :: "real \<Rightarrow> int option \<Rightarrow> int option \<Rightarrow> sequence \<Rightarrow> real result" where
  "get_beam_search_score lp len eos s =
     bindr (case len of
              Some n \<Rightarrow> Inr n
            | None \<Rightarrow> (case eos of
                None \<Rightarrow> Inr (seq_len s)
              | Some e \<Rightarrow> bindr (sd_last_token_id (seq_data s)) (\<lambda>t. Inr (if t = e then seq_len s - 1 else seq_len s))))
       (\<lambda>n. if lp = 0 then Inr (cum_logprob (seq_data s))
            else if n = 0 then Inl ZeroDivisionError
            else Inr (cum_logprob (seq_data s) / (real_of_int n powr lp)))"

definition sort_by_score :: "output_params \<Rightarrow> ('a \<Rightarrow> sequence) \<Rightarrow> 'a list \<Rightarrow> 'a list result" where
  "sort_by_score op seq_of xs =
     bindr (mapM (\<lambda>x. bindr (get_beam_search_score (op_length_penalty op) None (eos_token_id (seq_of x)) (seq_of x)) (\<lambda>v. Inr (v, x))) xs)
       (\<lambda>vs. Inr (map snd (rev (sort_key fst (rev vs)))))"

definition check_early_stopping :: "output_params \<Rightarrow> int \<Rightarrow> sequence \<Rightarrow> sequence \<Rightarrow> bool result" where
  "check_early_stopping op sched_max_len best worst =
     assert_py (op_use_beam_search op)
       (if op_early_stopping op = EarlyTrue then Inr True
        else bindr (get_beam_search_score (op_length_penalty op) None (eos_token_id worst) worst) (\<lambda>w.
          bindr (if op_early_stopping op = EarlyFalse \<or> \<not> op_length_penalty op > 0
                 then get_beam_search_score (op_length_penalty op) None (eos_token_id best) best
                 else (case op_max_tokens op of
                         None \<Rightarrow> Inl TypeError
                       | Some m \<Rightarrow> get_beam_search_score (op_length_penalty op) (Some (max (seq_prompt_len best + m) sched_max_len))
                                     (eos_token_id best) best)) (\<lambda>h.
            Inr (w \<ge> h))))"

text \<open>
  A finished candidate is an old sequence of the group (\<open>Inl\<close>) or a new child (\<open>Inr\<close>).
\<close>

definition candidate_seq :: "sequence + child \<Rightarrow> sequence" where
  "candidate_seq x = (case x of Inl s \<Rightarrow> s | Inr c \<Rightarrow> ch_seq c)"

definition new_children :: "(sequence + child) list \<Rightarrow> child list" where
  "new_children xs = concat (map (\<lambda>x. case x of Inl s \<Rightarrow> [] | Inr c \<Rightarrow> [c]) xs)"

definition old_seqs :: "(sequence + child) list \<Rightarrow> sequence list" where
  "old_seqs xs = concat (map (\<lambda>x. case x of Inl s \<Rightarrow> [s] | Inr c \<Rightarrow> []) xs)"

definition drop_beam ::
  "(bref list \<Rightarrow> bref list) \<Rightarrow> seq_group \<times> scheduler list \<Rightarrow> child \<Rightarrow> (seq_group \<times> scheduler list) result" where
  "drop_beam so = (\<lambda>(g, scs) c.
     if ch_is_parent c then bindr (remove_seq (seq_id (ch_seq c)) g) (\<lambda>g'. bindr (free_on so (ch_seq c) scs) (\<lambda>scs'. Inr (g', scs')))
     else Inr (g, scs))"

definition stop_beam ::
  "output_params \<Rightarrow> int \<Rightarrow> (sequence + child) list \<Rightarrow> child list \<Rightarrow> bool result" where
  "stop_beam op sched_max_len finished running =
     (if running = [] then Inr True
      else if length finished < op_best_of op then Inr False
      else bindr (py_nth finished (int (op_best_of op) - 1)) (\<lambda>worst.
             check_early_stopping op sched_max_len (ch_seq (hd running)) (candidate_seq worst)))"

definition keep_beams ::
  "(bref list \<Rightarrow> bref list) \<Rightarrow> output_params \<Rightarrow> int \<Rightarrow> sequence list \<Rightarrow> child list \<Rightarrow> seq_group \<Rightarrow> scheduler list
     \<Rightarrow> (seq_group \<times> scheduler list) result" where
  "keep_beams so op sched_max_len old cs g scs =
     (let w = op_best_of op in
      bindr (sort_by_score op candidate_seq (map Inl old @ map Inr (filter (\<lambda>c. seq_is_finished (ch_seq c)) cs))) (\<lambda>finished.
      bindr (foldM (\<lambda>g s. remove_seq (seq_id s) g) g (old_seqs (drop w finished))) (\<lambda>g1.
      bindr (sort_by_score op ch_seq (filter (\<lambda>c. \<not> seq_is_finished (ch_seq c)) cs)) (\<lambda>running.
      bindr (stop_beam op sched_max_len finished running) (\<lambda>stop.
        let selected = new_children (take w finished) @ (if stop then [] else take w running);
            unselected = new_children (drop w finished) @ (if stop then running else drop w running) in
        bindr (keep_children so selected g1 scs) (\<lambda>(g2, scs2).
          foldM (drop_beam so) (g2, scs2) unselected))))))"

section \<open>The outputs of one group\<close>

definition process_samples ::
  "(bref list \<Rightarrow> bref list) \<Rightarrow> (sequence \<Rightarrow> string) option \<Rightarrow> int \<Rightarrow> int \<Rightarrow> output_params \<Rightarrow> sample list
     \<Rightarrow> seq_group \<Rightarrow> scheduler list \<Rightarrow> int \<Rightarrow> (seq_group \<times> scheduler list \<times> int) result" where
  "process_samples so decode max_len sched_max_len op samples g scs counter =
     bindr (get_seqs (Some RUNNING) g) (\<lambda>parents.
     bindr (get_finished_seqs g) (\<lambda>old.
     bindr (foldM (fork_parent so samples) \<lparr>fk_group = g, fk_scheds = scs, fk_counter = counter, fk_children = []\<rparr> parents) (\<lambda>fk.
     bindr (foldM (stop_child decode max_len op) (fk_group fk, []) (fk_children fk)) (\<lambda>(g1, cs).
     bindr (if \<not> op_use_beam_search op then keep_children so cs g1 (fk_scheds fk)
            else keep_beams so op sched_max_len old cs g1 (fk_scheds fk)) (\<lambda>(g2, scs2).
       Inr (g2, scs2, fk_counter fk))))))"

definition process_outputs ::
  "(bref list \<Rightarrow> bref list) \<Rightarrow> (sequence \<Rightarrow> string) option \<Rightarrow> int \<Rightarrow> int \<Rightarrow> output_params \<Rightarrow> bool \<Rightarrow> sample list list
     \<Rightarrow> seq_group \<Rightarrow> scheduler list \<Rightarrow> int \<Rightarrow> (seq_group \<times> scheduler list \<times> int) result" where
  "process_outputs so decode max_len sched_max_len op is_async outs g scs counter =
     assert_py (length outs = 1)
       (if op_best_of op = 1 \<and> \<not> op_use_beam_search op
        then bindr (process_only_sample so decode max_len op is_async (hd outs) g scs) (\<lambda>(g', scs'). Inr (g', scs', counter))
        else assert_py (\<not> is_async) (process_samples so decode max_len sched_max_len op (hd outs) g scs counter))"

section \<open>Stop strings\<close>

definition occurs :: "string \<Rightarrow> string \<Rightarrow> bool" where
  "occurs sub text \<longleftrightarrow> (\<exists>i. i + length sub \<le> length text \<and> take (length sub) (drop i text) = sub)"

lemma str_find_Some:
  assumes "str_find text sub a = Some i"
  shows "a \<le> i" "i \<le> length text" "take (length sub) (drop i text) = sub" "i + length sub \<le> length text"
    "\<And>j. a \<le> j \<Longrightarrow> j < i \<Longrightarrow> take (length sub) (drop j text) \<noteq> sub"
proof -
  from assms obtain k where k: "k < length [a..<Suc (length text)]" "i = [a..<Suc (length text)] ! k"
    "take (length sub) (drop i text) = sub" and min: "\<forall>j < k. take (length sub) (drop ([a..<Suc (length text)] ! j) text) \<noteq> sub"
    unfolding str_find_def find_Some_iff by blast
  have i: "i = a + k" using k(1,2) by (simp del: upt_Suc)
  show "a \<le> i" "i \<le> length text" using i k(1) by (simp_all del: upt_Suc)
  show t: "take (length sub) (drop i text) = sub" by (rule k(3))
  show "i + length sub \<le> length text"
    using arg_cong [OF t, of length] \<open>i \<le> length text\<close> by simp
  show "take (length sub) (drop j text) \<noteq> sub" if "a \<le> j" "j < i" for j
    using min [rule_format, of "j - a"] that i k(1) by (simp del: upt_Suc)
qed

lemma str_find_None:
  assumes "str_find text sub a = None" "a \<le> i" "i \<le> length text"
  shows "take (length sub) (drop i text) \<noteq> sub"
  using assms unfolding str_find_def find_None_iff by (auto simp del: upt_Suc)

text \<open>
  An occurrence that was not in the old text ends in the new characters and so starts in the
  window that is searched.
\<close>

lemma occurrence_in_window:
  assumes "i + length sub \<le> length (old @ new)" "take (length sub) (drop i (old @ new)) = sub" "\<not> occurs sub old"
  shows "slice_index (old @ new) (- int (length new) - int (length sub)) \<le> i"
proof -
  have "length old < i + length sub"
  proof (rule ccontr)
    assume "\<not> length old < i + length sub"
    then have "take (length sub) (drop i old) = sub" using assms(2) by simp
    with \<open>\<not> length old < i + length sub\<close> assms(3) show False by (auto simp: occurs_def)
  qed
  then show ?thesis by (auto simp: slice_index_def nat_le_iff)
qed

lemma check_stop_strings_None:
  assumes "check_stop_strings (old @ new) (length new) incl ss = (None, tx)" "\<forall>s \<in> set ss. \<not> occurs s old" "s \<in> set ss"
  shows "\<not> occurs s (old @ new)"
  using assms
proof (induction ss)
  case (Cons t ss)
  have old: "\<not> occurs t old" using Cons.prems(2) by simp
  show ?case
  proof (cases "length new = 0")
    case True
    with Cons.prems show ?thesis by auto
  next
    case False
    with Cons.prems(1) have none: "str_find (old @ new) t (slice_index (old @ new) (- int (length new) - int (length t))) = None"
      and rest: "check_stop_strings (old @ new) (length new) incl ss = (None, tx)"
      by (auto split: option.splits if_splits)
    have "\<not> occurs t (old @ new)"
    proof
      assume "occurs t (old @ new)"
      then obtain i where i: "i + length t \<le> length (old @ new)" "take (length t) (drop i (old @ new)) = t"
        by (auto simp: occurs_def)
      from str_find_None [OF none occurrence_in_window [OF i old]] i show False by simp
    qed
    moreover have "\<not> occurs s (old @ new)" if "s \<in> set ss" using Cons.IH [OF rest _ that] Cons.prems(2) by simp
    ultimately show ?thesis using Cons.prems(3) by auto
  qed
qed simp

lemma check_stop_strings_mem: "check_stop_strings tx n incl ss = (Some s, tx') \<Longrightarrow> s \<in> set ss"
  by (induction ss) (auto split: if_splits option.splits)

lemma check_stop_strings_Some:
  assumes "check_stop_strings (old @ new) n False ss = (Some s, tx)" "\<not> occurs s old" "n = length new" "s \<noteq> []"
  shows "s \<in> set ss \<and> \<not> occurs s tx \<and> occurs s (old @ new) \<and> tx = take (length tx) (old @ new)"
  using assms(1)
proof (induction ss)
  case (Cons t ss)
  show ?case
  proof (cases "n \<noteq> 0 \<and> str_find (old @ new) t (slice_index (old @ new) (- int n - int (length t))) \<noteq> None")
    case True
    then obtain i where i: "str_find (old @ new) t (slice_index (old @ new) (- int n - int (length t))) = Some i" by auto
    with Cons.prems True have s: "s = t" and tx: "tx = take i (old @ new)" by simp_all
    note f = str_find_Some [OF i [folded s]]
    have "\<not> occurs s tx"
    proof
      assume "occurs s tx"
      then obtain j where j0: "j + length s \<le> length tx" "take (length s) (drop j tx) = s"
        unfolding occurs_def by (elim exE conjE)
      have lt: "length tx = i" using f(2) by (simp add: tx)
      note j = j0(1) [unfolded lt] j0(2) [unfolded tx]
      have eq: "take (length s) (drop j (old @ new)) = s"
        using j by (simp only: drop_take take_take) (simp only: min_absorb1 le_diff_conv2 add.commute)
      have "j < i" using j(1) assms(4) by (cases s) auto
      have "j + length s \<le> length (old @ new)" using j(1) f(2) by simp
      from occurrence_in_window [OF this eq assms(2)] f(5) [OF _ \<open>j < i\<close>] eq assms(3) show False by simp
    qed
    moreover have "occurs s (old @ new)" using f(3,4) by (auto simp: occurs_def)
    ultimately show ?thesis using f(2) by (simp add: s tx min_def)
  next
    case False
    with Cons.prems have "check_stop_strings (old @ new) n False ss = (Some s, tx)" by (auto split: if_splits option.splits)
    from Cons.IH [OF this] show ?thesis by simp
  qed
qed simp

text \<open>
  C40.  No stop string slips through.  Let no stop string occur in the text so far, let a token add
  characters to it and enough tokens have been generated.  If the sequence is not stopped, no stop
  string occurs in the new text, wherever it may have started; if it is stopped for a string
  that is not to be returned, the text is cut so that the string does not occur in it.
\<close>

theorem stop_strings_caught:
  assumes "output_text s = old @ new" "\<forall>str \<in> set (op_stop op). str \<noteq> [] \<and> \<not> occurs str old"
    and "op_min_tokens op \<le> seq_output_len s" "\<not> seq_is_finished s"
    and "maybe_stop_sequence max_len (length new) op s = Inr (r, s')"
  shows "(\<not> seq_is_finished s' \<longrightarrow> s' = s \<and> (\<forall>str \<in> set (op_stop op). \<not> occurs str (output_text s')))
     \<and> (\<forall>str. r = Some (StopString str) \<and> \<not> op_include_stop op \<longrightarrow>
          str \<in> set (op_stop op) \<and> occurs str (output_text s) \<and> \<not> occurs str (output_text s'))"
proof -
  have fin: "seq_is_finished (s\<lparr>output_text := t, seq_status := FINISHED_STOPPED\<rparr>)"
    "seq_is_finished (s\<lparr>seq_status := FINISHED_LENGTH_CAPPED\<rparr>)" for t
    by (simp_all add: seq_is_finished_def)
  obtain m tx where chk: "check_stop_strings (old @ new) (length new) (op_include_stop op) (op_stop op) = (m, tx)"
    by (cases "check_stop_strings (old @ new) (length new) (op_include_stop op) (op_stop op)")
  show ?thesis
  proof (cases m)
    case None
    with chk have "\<forall>str \<in> set (op_stop op). \<not> occurs str (old @ new)"
      using check_stop_strings_None [of old new "op_include_stop op" "op_stop op" tx] assms(2) by blast
    moreover have "r \<noteq> Some (StopString str)" "seq_is_finished s' \<or> s' = s" for str
      using assms(3,5) None chk fin by (auto simp: maybe_stop_sequence_def assms(1) split: if_splits)
    ultimately show ?thesis using assms(1) by auto
  next
    case (Some str0)
    have fs': "seq_is_finished s'" and r: "\<And>str. r = Some (StopString str) \<Longrightarrow> str = str0 \<and> output_text s' = tx"
      using assms(3,5) Some chk fin by (auto simp: maybe_stop_sequence_def assms(1) split: if_splits)
    have "str0 \<in> set (op_stop op) \<and> occurs str0 (output_text s) \<and> \<not> occurs str0 tx" if incl: "\<not> op_include_stop op"
    proof -
      have chk': "check_stop_strings (old @ new) (length new) False (op_stop op) = (Some str0, tx)" using chk Some incl by simp
      have mem: "str0 \<in> set (op_stop op)" by (rule check_stop_strings_mem [OF chk'])
      from check_stop_strings_Some [OF chk' _ refl] assms(2) mem show ?thesis by (simp add: assms(1))
    qed
    with fs' r show ?thesis by blast
  qed
qed

section \<open>Generation ends\<close>

text \<open>
  What \<open>LLMEngine._process_model_outputs\<close> does with one group of a batch: nothing if it is
  finished, else the count of computed tokens and, if the group was to be sampled, its outputs.
\<close>

definition output_step ::
  "(bref list \<Rightarrow> bref list) \<Rightarrow> (sequence \<Rightarrow> string) option \<Rightarrow> int \<Rightarrow> int \<Rightarrow> output_params \<Rightarrow> bool
     \<Rightarrow> seq_group \<times> scheduler list \<times> int \<Rightarrow> int \<times> bool \<times> sample list list \<Rightarrow> (seq_group \<times> scheduler list \<times> int) result" where
  "output_step so decode max_len sched_max_len op is_async = (\<lambda>(g, scs, counter) (chunk, do_sample, outs).
     bindr (sg_is_finished g) (\<lambda>fin.
       if fin then Inr (g, scs, counter)
       else bindr (if is_async then Inr g else update_num_computed_tokens chunk g) (\<lambda>g1.
         if do_sample then process_outputs so decode max_len sched_max_len op is_async outs g1 scs counter
         else Inr (g1, scs, counter))))"

lemma maybe_stop_total:
  assumes "output_toks (seq_data s) \<noteq> []"
  shows "\<exists>r s'. maybe_stop_sequence max_len n op s = Inr (r, s') \<and> seq_id s' = seq_id s \<and> seq_data s' = seq_data s
     \<and> (seq_is_finished s' \<or> s' = s \<and> (seq_output_len s < op_min_tokens op \<or> op_max_tokens op \<noteq> Some (seq_output_len s)))"
proof -
  have fin: "seq_is_finished (s\<lparr>output_text := t, seq_status := FINISHED_STOPPED\<rparr>)"
    "seq_is_finished (s\<lparr>seq_status := FINISHED_LENGTH_CAPPED\<rparr>)" for t
    by (simp_all add: seq_is_finished_def)
  have "sd_last_token_id (seq_data s) = Inr (last (output_toks (seq_data s)))"
    using assms py_nth_last [of "butlast (output_toks (seq_data s))" "last (output_toks (seq_data s))"]
    by (simp add: sd_last_token_id_def)
  then show ?thesis
    using fin by (auto simp: maybe_stop_sequence_def split: if_splits prod.splits option.splits)
qed

lemma decode_and_stop_total:
  assumes "output_toks (seq_data s) \<noteq> []"
  shows "\<exists>s'. decode_and_stop decode max_len op s = Inr s' \<and> seq_id s' = seq_id s \<and> seq_data s' = seq_data s
     \<and> (seq_is_finished s' \<or> seq_output_len s < op_min_tokens op \<or> op_max_tokens op \<noteq> Some (seq_output_len s))"
proof -
  obtain n s1 where d: "decode_in_place decode op s = (n, s1)" by (cases "decode_in_place decode op s")
  then have s1: "seq_id s1 = seq_id s" "seq_data s1 = seq_data s"
    by (auto simp: decode_in_place_def split: option.splits if_splits)
  with maybe_stop_total [of s1 max_len n op] assms obtain r s' where m: "maybe_stop_sequence max_len n op s1 = Inr (r, s')"
    and s': "seq_id s' = seq_id s1" "seq_data s' = seq_data s1"
      "seq_is_finished s' \<or> seq_output_len s1 < op_min_tokens op \<or> op_max_tokens op \<noteq> Some (seq_output_len s1)"
    by metis
  have "decode_and_stop decode max_len op s = Inr s'" using d m by (simp add: decode_and_stop_def)
  then show ?thesis using s' s1 by (auto simp: seq_output_len_def)
qed

lemma mapM_total:
  assumes "\<And>x. x \<in> set xs \<Longrightarrow> \<exists>y. f x = Inr y \<and> P y"
  shows "\<exists>ys. mapM f xs = Inr ys \<and> (\<forall>y \<in> set ys. P y)"
  using assms
proof (induction xs)
  case (Cons x xs)
  from Cons.prems obtain y where "f x = Inr y" "P y" by (meson list.set_intros(1))
  moreover from Cons obtain ys where "mapM f xs = Inr ys" "\<forall>y \<in> set ys. P y" by (meson list.set_intros(2))
  ultimately show ?case by simp
qed simp

definition holds_none :: "int \<Rightarrow> scheduler list \<Rightarrow> bool" where
  "holds_none i scs \<longleftrightarrow> (\<forall>sc \<in> set scs. map_of (bm_tables (sc_bm sc)) i = None)"

definition managers_ok :: "scheduler list \<Rightarrow> bool" where
  "managers_ok scs \<longleftrightarrow> (\<forall>sc \<in> set scs. bm_ok (sc_bm sc))"

lemma free_on_total:
  assumes "managers_ok scs" "set_order so"
  shows "\<exists>scs'. free_on so s scs = Inr scs' \<and> managers_ok scs' \<and> holds_none (seq_id s) scs'"
proof -
  have "\<exists>sc'. free_seq so s sc = Inr sc' \<and> bm_ok (sc_bm sc') \<and> map_of (bm_tables (sc_bm sc')) (seq_id s) = None"
    if "sc \<in> set scs" for sc
    using bm_free_law [OF _ assms(2), of "sc_bm sc" s] assms(1) that by (auto simp: free_seq_def managers_ok_def)
  from mapM_total [of scs "free_seq so s", OF this] show ?thesis by (auto simp: free_on_def managers_ok_def holds_none_def)
qed

lemma output_step_single:
  assumes g: "seqs g = [s]" "is_single_seq g" "\<not> seq_is_finished s"
    and op: "op_best_of op = 1" "\<not> op_use_beam_search op" "op_max_tokens op = Some m" "op_min_tokens op \<le> m"
    and len: "seq_output_len s < m"
    and scs: "managers_ok scs" "set_order so"
    and sm: "map_of (sm_logprobs sm) (sm_token sm) \<noteq> None"
  shows "\<exists>g' scs' s'. output_step so decode max_len sched_max_len op False (g, scs, k) (sd_num_uncomputed (seq_data s), True, [[sm]])
       = Inr (g', scs', k)
     \<and> seqs g' = [s'] \<and> is_single_seq g' \<and> seq_id s' = seq_id s \<and> seq_output_len s' = seq_output_len s + 1
     \<and> sd_num_uncomputed (seq_data s') = 1 \<and> managers_ok scs'
     \<and> (if seq_is_finished s' then holds_none (seq_id s) scs' else seq_output_len s' < m)"
proof -
  have nf: "sg_is_finished g = Inr False" using g by (simp add: sg_is_finished_def first_seq_def)
  obtain d where d: "sd_update_num_computed (sd_num_uncomputed (seq_data s)) (seq_data s) = Inr d"
    using sd_update_num_computed_total [of "sd_num_uncomputed (seq_data s)" "seq_data s"] by (auto simp: sd_num_uncomputed_def)
  note unc = sd_update_decode(2) [OF d refl]
  define s1 where "s1 = s\<lparr>seq_data := d\<rparr>"
  have g1: "update_num_computed_tokens (sd_num_uncomputed (seq_data s)) g = Inr (g\<lparr>seqs := [s1]\<rparr>)"
    using g d by (simp add: update_num_computed_tokens_def s1_def)
  have len1: "seq_output_len s1 = seq_output_len s"
    using d by (auto simp: s1_def seq_output_len_def sd_output_len_def sd_update_num_computed_def Let_def split: if_splits)
  obtain lp where lp: "map_of (sm_logprobs sm) (sm_token sm) = Some lp" using sm by auto
  define s2 where "s2 = s1\<lparr>output_logprobs := output_logprobs s1 @ [sm_logprobs sm],
    seq_data := sd_append_token_id (sm_token sm) lp (seq_data s1)\<rparr>"
  have a: "seq_append_token_id (sm_token sm) (sm_logprobs sm) s1 = Inr s2" using lp by (simp add: seq_append_token_id_def s2_def)
  have s2: "output_toks (seq_data s2) \<noteq> []" "seq_id s2 = seq_id s" "seq_output_len s2 = seq_output_len s + 1"
    "sd_num_uncomputed (seq_data s2) = 1"
    using unc len1 by (auto simp: s2_def s1_def sd_append_token_id_def seq_output_len_def sd_output_len_def sd_num_uncomputed_def sd_len_def)
  from decode_and_stop_total [OF s2(1), of decode max_len op] obtain s3 where s3: "decode_and_stop decode max_len op s2 = Inr s3"
    "seq_id s3 = seq_id s2" "seq_data s3 = seq_data s2"
    "seq_is_finished s3 \<or> seq_output_len s2 < op_min_tokens op \<or> op_max_tokens op \<noteq> Some (seq_output_len s2)"
    by blast
  obtain scs' where fr: "(if seq_is_finished s3 then free_on so s3 scs else Inr scs) = Inr scs'" "managers_ok scs'"
    "seq_is_finished s3 \<Longrightarrow> holds_none (seq_id s) scs'"
    using free_on_total [OF scs, of s3] scs(1) s2(2) s3(2) by (cases "seq_is_finished s3") auto
  let ?g' = "put_seq s3 (g\<lparr>seqs := [s1]\<rparr>)"
  have ids: "seq_id s1 = seq_id s3" using s2(2) s3(2) by (simp add: s1_def)
  have "process_only_sample so decode max_len op False [sm] (g\<lparr>seqs := [s1]\<rparr>) scs = Inr (?g', scs')"
    using a s3(1) fr(1) by (simp add: process_only_sample_def py_nth_def first_seq_def)
  then have "output_step so decode max_len sched_max_len op False (g, scs, k) (sd_num_uncomputed (seq_data s), True, [[sm]])
      = Inr (?g', scs', k)"
    using op(1,2) by (simp add: output_step_def nf g1 process_outputs_def)
  moreover have "seqs ?g' = [s3]" "is_single_seq ?g'" using g ids by (simp_all add: put_seq_def)
  moreover have "seq_output_len s3 = seq_output_len s2" by (simp add: s3(3) seq_output_len_def)
  moreover have "seq_is_finished s3 \<or> seq_output_len s2 < m" using s3(4) s2(3) op(3,4) len by auto
  ultimately show ?thesis using s2 s3(2,3) fr(2,3) by auto
qed

text \<open>
  The inputs of the steps of one request, a sample for each: the first step computes what is
  left of the prompt, every later one the token sampled last.
\<close>

fun sampling_steps :: "int \<Rightarrow> sample list \<Rightarrow> (int \<times> bool \<times> sample list list) list" where
  "sampling_steps n [] = []"
| "sampling_steps n (sm # sms) = (n, True, [[sm]]) # sampling_steps 1 sms"

lemma finished_ignores:
  assumes "seqs g = [s]" "is_single_seq g" "seq_is_finished s"
  shows "foldM (output_step so decode max_len sched_max_len op False) (g, scs, k) (sampling_steps n sms) = Inr (g, scs, k)"
  using assms
  by (induction sms arbitrary: n) (auto simp: output_step_def sg_is_finished_def first_seq_def)

text \<open>
  C26.  Generation ends.  A request for one sample of one sequence (no beam search, processed synchronously, with block
  managers in order) that has fewer than its limit of \<open>m\<close> output tokens runs without an error,
  whatever tokens the model samples with their probabilities, whatever text the detokenizer gives them; after as many
  sampling steps as are left to the limit, or earlier, it is finished, with at most \<open>m\<close> output
  tokens, and no scheduler holds blocks for it.
\<close>

theorem generation_ends:
  assumes "seqs g = [s]" "is_single_seq g" "\<not> seq_is_finished s" "seq_output_len s < m"
    and "op_best_of op = 1" "\<not> op_use_beam_search op" "op_max_tokens op = Some m" "op_min_tokens op \<le> m"
    and "managers_ok scs" "set_order so"
    and "\<forall>sm \<in> set sms. map_of (sm_logprobs sm) (sm_token sm) \<noteq> None"
    and "m - seq_output_len s \<le> int (length sms)"
  shows "\<exists>g' scs' s'. foldM (output_step so decode max_len sched_max_len op False) (g, scs, k)
         (sampling_steps (sd_num_uncomputed (seq_data s)) sms) = Inr (g', scs', k)
     \<and> seqs g' = [s'] \<and> seq_is_finished s' \<and> seq_output_len s' \<le> m \<and> holds_none (seq_id s) scs' \<and> managers_ok scs'"
  using assms(1-4,9,11,12)
proof (induction sms arbitrary: g s scs)
  case (Cons sm sms)
  have smok: "map_of (sm_logprobs sm) (sm_token sm) \<noteq> None" using Cons.prems(6) by simp
  from output_step_single [OF Cons.prems(1-3) assms(5-8) Cons.prems(4,5) assms(10) smok]
  obtain g1 scs1 s1 where st: "output_step so decode max_len sched_max_len op False (g, scs, k)
        (sd_num_uncomputed (seq_data s), True, [[sm]]) = Inr (g1, scs1, k)"
    and s1: "seqs g1 = [s1]" "is_single_seq g1" "seq_id s1 = seq_id s" "seq_output_len s1 = seq_output_len s + 1"
      "sd_num_uncomputed (seq_data s1) = 1" "managers_ok scs1"
      "if seq_is_finished s1 then holds_none (seq_id s) scs1 else seq_output_len s1 < m"
    by blast
  show ?case
  proof (cases "seq_is_finished s1")
    case True
    with finished_ignores [OF s1(1,2) True] s1 Cons.prems(4) st show ?thesis by auto
  next
    case False
    with s1(7) have less: "seq_output_len s1 < m" by simp
    have left: "m - seq_output_len s1 \<le> int (length sms)" using Cons.prems(7) s1(4) by simp
    have "\<forall>sm \<in> set sms. map_of (sm_logprobs sm) (sm_token sm) \<noteq> None" using Cons.prems(6) by simp
    from Cons.IH [OF s1(1,2) False less s1(6) this left] st show ?thesis by (simp add: s1(3,5))
  qed
qed simp

section \<open>A stopped and a finished request\<close>

definition demo_params :: output_params where
  "demo_params =
     \<lparr>op_min_tokens = 0, op_max_tokens = Some 2, op_ignore_eos = False, op_include_stop = False, op_stop_token_ids = [],
      op_stop = [''STOP''], op_detokenize = True, op_best_of = 1, op_use_beam_search = False, op_length_penalty = 1,
      op_early_stopping = EarlyFalse\<rparr>"

definition demo_sample :: sample where
  "demo_sample = \<lparr>sm_parent = 1, sm_token = 9, sm_logprobs = [(9, 0)]\<rparr>"

definition demo_said :: sequence where
  "demo_said = (demo_seq 1 RUNNING)\<lparr>output_text := ''ab ST'' @ ''OP'', seq_data := sd_append_token_id 9 0 (seq_data (demo_seq 1 RUNNING))\<rparr>"

lemma stop_strings_caught_witness:
  "\<exists>s'. maybe_stop_sequence 100 (length ''OP'') demo_params demo_said = Inr (Some (StopString ''STOP''), s') \<and> \<not> occurs ''STOP'' (output_text s')"
proof -
  have "\<exists>s'. maybe_stop_sequence 100 (length ''OP'') demo_params demo_said = Inr (Some (StopString ''STOP''), s')"
    by (simp add: maybe_stop_sequence_def demo_said_def demo_params_def demo_defs sd_append_token_id_def seq_output_len_def sd_output_len_def
        sd_last_token_id_def py_nth_def str_find_def slice_index_def upt_rec)
  then obtain s' where s': "maybe_stop_sequence 100 (length ''OP'') demo_params demo_said = Inr (Some (StopString ''STOP''), s')" ..
  have "output_text demo_said = ''ab ST'' @ ''OP''" by (simp add: demo_said_def)
  moreover have "\<not> occurs ''STOP'' ''ab ST''"
  proof
    assume "occurs ''STOP'' ''ab ST''"
    then obtain i where "i + length ''STOP'' \<le> length ''ab ST''" "take (length ''STOP'') (drop i ''ab ST'') = ''STOP''"
      unfolding occurs_def by blast
    then show False by (cases i) auto
  qed
  moreover have "op_min_tokens demo_params \<le> seq_output_len demo_said" "\<not> seq_is_finished demo_said" "op_stop demo_params = [''STOP'']"
    "\<not> op_include_stop demo_params"
    by (simp_all add: demo_params_def demo_said_def demo_defs seq_output_len_def sd_output_len_def seq_is_finished_def)
  ultimately show ?thesis using stop_strings_caught [OF _ _ _ _ s', of "''ab ST''"] s' by auto
qed

lemma generation_ends_witness:
  "\<exists>g' scs' s'. foldM (output_step remdups None 100 100 demo_params False) (Block_Manager.demo_group [demo_seq 1 RUNNING], [demo_start\<lparr>sc_bm := demo_busy\<rparr>], 2)
       (sampling_steps (sd_num_uncomputed (seq_data (demo_seq 1 RUNNING))) [demo_sample, demo_sample]) = Inr (g', scs', 2)
     \<and> seqs g' = [s'] \<and> seq_is_finished s' \<and> holds_none 1 scs'"
proof -
  have ok: "managers_ok [demo_start\<lparr>sc_bm := demo_busy\<rparr>]"
    using bm_reach_ok [OF demo_busy_reach set_order_remdups] by (simp add: managers_ok_def)
  have g: "seqs (Block_Manager.demo_group [demo_seq 1 RUNNING]) = [demo_seq 1 RUNNING]" "is_single_seq (Block_Manager.demo_group [demo_seq 1 RUNNING])"
    "\<not> seq_is_finished (demo_seq 1 RUNNING)" "seq_output_len (demo_seq 1 RUNNING) = 0" "seq_id (demo_seq 1 RUNNING) = 1"
    by (simp_all add: demo_defs seq_is_finished_def seq_output_len_def sd_output_len_def)
  have op: "op_best_of demo_params = 1" "\<not> op_use_beam_search demo_params" "op_max_tokens demo_params = Some 2" "op_min_tokens demo_params \<le> 2"
    by (simp_all add: demo_params_def)
  from generation_ends [OF g(1-3) _ op ok set_order_remdups, of "[demo_sample, demo_sample]"] g(4,5) show ?thesis
    by (simp add: demo_sample_def) blast
qed

end
