(* ===== verification/Spec2Isabelle.thy ===== *)
theory Spec2Isabelle
  imports Attribution Req_Queue LRU_Evictors Fair_Engine Prefill_Step Hybrid_Backend Contention Scheduler_Fuel Output_Processor
begin

text \<open>
  \<^bold>\<open>FairCache\<close>

  FairCache serves many clients with one vLLM engine that shares its KV cache through LMCache, and bills each client
  fairly for what it uses.  The repository holds three packages that it changes: \<open>vllm-0.6.2\<close> (the engine: which request
  runs when, in which GPU blocks), \<open>LMCache\<close> (the cache of KV chunks) and \<open>lmcache-vllm\<close> (the adapter that connects
  them).  This development models the core logic of all three and proves what each part promises its callers.

  \<^bold>\<open>How the parts interact.\<close>  A request enters the waiting queue of the scheduler.  A scheduling step starts one prompt or
  decodes the running ones, with blocks from the block manager.  For a prompt the adapter asks the cache engine for the
  longest stored prefix, puts its KV cache into the paged memory, rebuilds the input to compute the rest, and after
  the forward pass stores the new chunks.  The engine names chunks by prefix hashes and keeps them in a storage backend; the fair
  backend evicts by client shares and reports who used a chunk.  From that the adapter makes the bill of the batch, which
  the engine loop hands back to the waiting queue: it raises the scores by which the queue picks the next client.  The
  output processor appends the sampled tokens, stops sequences and frees their blocks.

  \<^bold>\<open>Theories and sources\<close>

  \<^item> \<open>Prelude\<close>: exceptions as values (\<open>result\<close>, \<open>bindr\<close>, \<open>foldM\<close>), Python dictionaries as association lists in
    insertion order, first minimum and maximum.
  \<^item> \<open>Sequence\<close>: \<open>vllm/sequence.py\<close>, \<open>SequenceData\<close>, \<open>Sequence\<close>, \<open>SequenceGroup\<close> with one definition per method.
  \<^item> \<open>Waiting_Queue\<close> is the interface (locale \<open>waiting_queue\<close>) of the two waiting queues of \<open>vllm/core/cpi_req_queue.py\<close>:
    \<open>CPI_Queue\<close> is \<open>CPIReqQueue\<close> (a queue and a score per client), \<open>Req_Queue\<close> is \<open>ReqQueue\<close> (one queue, counters).
  \<^item> \<open>Scheduling_Budget\<close>, \<open>Scheduler\<close>: \<open>vllm/core/scheduler.py\<close>; \<open>schedule_default\<close>, \<open>schedule_chunked_prefill\<close>,
    \<open>schedule_running\<close>, \<open>schedule_swapped\<close>, \<open>schedule_prefills\<close>, \<open>preempt\<close>, \<open>abort_seq_group\<close>, \<open>schedule\<close> are the methods of
    these names.  \<open>Scheduler_Laws\<close> and \<open>Scheduler_Fairness\<close> are about them, \<open>Scheduler_Fuel\<close> about their loops, \<open>Contention\<close> about the queue
    over time.
  \<^item> \<open>Block_Allocator\<close>, \<open>Block_Manager\<close>: \<open>vllm/block.py\<close>, \<open>vllm/core/evictor_v1.py\<close>, \<open>vllm/core/block_manager_v1.py\<close>;
    the references of Python to block objects are block numbers into a store (\<open>bm_gpu\<close>, \<open>bm_cpu\<close>).
  \<^item> \<open>Output_Processor\<close>: \<open>vllm/engine/output_processor/stop_checker.py\<close> and \<open>single_step.py\<close>.
  \<^item> \<open>Mem_Pool\<close>, \<open>Heap_Queue\<close>, \<open>Fair_Evictor\<close>, \<open>LRU_Evictors\<close>: \<open>lmcache/storage_backend/mem_pool\<close> and \<open>evictor\<close>.
  \<^item> \<open>KV_Store\<close> is the interface of the backends (locales \<open>kv_store\<close>, \<open>stable_store\<close>, \<open>keyed_store\<close>) and the batched operations of
    \<open>abstract_backend.py\<close>; \<open>Fair_Backend\<close> and \<open>Local_Backend\<close> are the two classes of \<open>local_backend.py\<close> in memory,
    \<open>Remote_Backend\<close> is \<open>remote_backend.py\<close>, \<open>Hybrid_Backend\<close> is \<open>hybrid_backend.py\<close>.
  \<^item> \<open>Wire\<close>: \<open>lmcache/protocol.py\<close>, the server (\<open>server/__main__.py\<close> and its store in memory) and \<open>lm_connector.py\<close>.
  \<^item> \<open>Cache_Key\<close>, \<open>Cache_Engine\<close>: \<open>lmcache/utils.py\<close>, \<open>lmcache/cache_engine.py\<close>, over any backend (locale \<open>chunk_store\<close>);
    \<open>Fair_Engine\<close> is the engine over the fair backend, \<open>Put_Worker\<close> the same with the worker thread that carries out
    the puts of \<open>store(blocking=False)\<close>.
  \<^item> \<open>Adapter\<close>: \<open>lmcache_vllm/vllm_adapter.py\<close>, the slot mappings of \<open>vllm/attention/backends/utils.py\<close>, the copy
    kernel's effect on the paged memory, and \<open>new_execute_model\<close> of \<open>vllm_injection.py\<close>.  \<open>Prefill_Batch\<close> is about one batch over any
    engine (locale \<open>kv_engine\<close>), \<open>Prefill_Step\<close> about batches over the fair engine with its worker, \<open>Attribution\<close> about the bills.
\<close>

text \<open>
  \<^bold>\<open>What is shown\<close>

  \<^item> \<^emph>\<open>Transparency\<close> (\<open>Cache_Engine\<close>, \<open>Fair_Engine\<close>, \<open>Put_Worker\<close>, \<open>Prefill_Batch\<close>, \<open>Prefill_Step\<close>).  What the cache returns is
    the KV cache of the model for a prefix of the tokens asked, whatever was stored, evicted or is still queued; the memory after a batch is as if
    there were no cache; lookups announce what retrievals return.  The forward pass and SHA-256 are parameters: the pass
    computes the positions it is asked for, digests do not collide.
  \<^item> \<^emph>\<open>Fair queueing\<close> (\<open>CPI_Queue\<close>, \<open>Req_Queue\<close>, \<open>Scheduler_Fairness\<close>, \<open>Contention\<close>).  The least served client goes first, an idle
    client is lifted when it comes back, scores and credits account for the cost exactly, and while two clients
    wait their scores drift apart by a bounded amount.
  \<^item> \<^emph>\<open>Bills\<close> (\<open>Attribution\<close>).  A batch bills the tokens of its sequences; how the cost of a shared chunk is split, and by how
    much the split misses; which sequences are never stored.
  \<^item> \<^emph>\<open>Scheduling\<close> (\<open>Scheduler_Laws\<close>).  Every request is in one place, its queue tells its status, aborts are exact.
  \<^item> \<^emph>\<open>Blocks\<close> (\<open>Block_Allocator\<close>, \<open>Block_Manager\<close>).  Reference counts are the table entries; the \<open>can_\<close> questions are
    promises; copy on write; swapping keeps sharing.
  \<^item> \<^emph>\<open>Stores\<close> (\<open>Fair_Evictor\<close>, \<open>Fair_Backend\<close>, \<open>Local_Backend\<close>, \<open>Remote_Backend\<close>, \<open>Hybrid_Backend\<close>, \<open>Wire\<close>).  Eviction takes the
    least valuable keys and frees what it reports, what is put is read back, the hybrid backend never mixes up keys,
    connector and server are one dictionary.
  \<^item> \<^emph>\<open>Ends\<close> (\<open>Output_Processor\<close>).  Stop strings are caught, a request of one sequence ends within its limit.

  \<^bold>\<open>Loops.\<close>  Loops over lists are structural; the loops over shrinking dictionaries (evictors, the discard loop of
  \<open>popleft\<close>) and the receive loop of the connector are total functions with a measure.  The loops of the scheduler take
  fuel, since how much a round takes out of a queue is a fact about the invariant of the queues; the callers pass one unit
  more than the queue is long.  \<open>Scheduler_Fuel\<close> shows that every round shortens its queue and that more fuel changes nothing, so
  no loop stops for lack of it.

  \<^bold>\<open>Conditions that narrow the properties.\<close>  They are in the statements or in the runs the statements are about, and
  matter because the code behaves differently without them.
  \<^item> \<^emph>\<open>Block manager.\<close>  Without a sliding window (with one, tables repeat blocks); with prefix caching only new groups of one
    sequence (\<open>Block_Manager.cached_group_undercounts\<close>) and no collision of Python's \<open>hash\<close>; no swaps of encoder-decoder groups; the promise of
    \<open>can_append_slots\<close> without prefix caching.
  \<^item> \<^emph>\<open>Scheduler.\<close>  First come first served, not the priority policy; whose request starts is shown without LoRA adapters, which
    the code sets aside unreported.
  \<^item> \<^emph>\<open>Contention.\<close>  A popped prompt is billed before the next is popped, so no chunked prefill.
  \<^item> \<^emph>\<open>Remote stores.\<close>  The pipelined remote backend returns fewer chunks than asked and is excluded from the hybrid properties
    (\<open>Hybrid_Backend.pipelined_batch_shifts\<close>).  Serializers may lose precision, so the properties speak of the chunk as
    decoded.  Every reply header may arrive in pieces, in which case the connector raises.
  \<^item> \<^emph>\<open>Threads.\<close>  Locked sections are steps.  A put of the fair backend between two calls of the engine is taken as a whole;
    what two interleaved puts of one key do is \<open>Fair_Backend.interleaved_puts_leak\<close>.
  \<^item> \<^emph>\<open>Numbers.\<close>  Python's \<open>float\<close> is \<open>real\<close>, its \<open>int\<close> is \<open>int\<close>, the fields on the wire are 32-bit words.

  \<^bold>\<open>Not modelled.\<close>  vLLM's models, kernels, workers and front ends, and the second block manager (\<open>block_manager_v2.py\<close>), which this
  version does not use by default; of \<open>llm_engine.py\<close> only the calls that charge prefills and process outputs; the serializers of
  \<open>storage_backend/serde\<close> (tensor codecs and GPU kernels), the redis connector, the disk stores, the blend adapter and \<open>lmcache/blend\<close>, the rewrite in
  \<open>lmcache/experimental\<close>, configuration, statistics and logging; in the adapter the set-up of the engine, broadcasting between
  ranks, the memory layout of Turing GPUs; in the injection the patches of logits, sampling and tokenizers.
\<close>

end
